(* ===== verification/MCS_Prelude.thy ===== *)
theory MCS_Prelude
  imports Main "HOL-Library.Word"
begin

unbundle bit_operations_syntax

text \<open>
  The shared vocabulary of the MCSOS library: the fixed-width integers of \<open>stdint.h\<close>, the
  bounded search loop and the byte copy loop that almost every kernel file contains, the
  little-endian layout of C structs in byte buffers, and the facts on alignment masks that the
  allocators use.

  Conventions of all theories:
  \<^item> \<open>uint8_t\<close>, \<open>uint16_t\<close>, \<open>uint32_t\<close>, \<open>uint64_t\<close> (and \<open>size_t\<close>, \<open>uintptr_t\<close>) are words of
    that width, so arithmetic wraps as in C; a loop index whose C type cannot overflow because
    of a small constant bound is a \<open>nat\<close>;
  \<^item> a pointer argument that the code compares with NULL is an \<open>option\<close>, \<open>None\<close> being NULL;
  \<^item> a status code is a constructor named after the C macro or enumerator;
  \<^item> an operation on a mutable object takes it and returns it updated.
\<close>

type_synonym u8 = "8 word"
type_synonym u16 = "16 word"
type_synonym u32 = "32 word"
type_synonym u64 = "64 word"
type_synonym bytes = "u8 list"

named_theorems mcs_consts \<open>numeric constants of the headers\<close>

section \<open>Bounded search loops\<close>

text \<open>\<open>for (i = lo; i < hi; i++) if (p(i)) return i;\<close>, with \<open>None\<close> when the loop runs out.\<close>

function first_index :: "(nat \<Rightarrow> bool) \<Rightarrow> nat \<Rightarrow> nat \<Rightarrow> nat option" where
  "first_index p lo hi =
     (if lo < hi then (if p lo then Some lo else first_index p (Suc lo) hi) else None)"
  by pat_completeness auto
termination
  by (relation "measure (\<lambda>(p, lo, hi). hi - lo)") auto

text \<open>\<open>while (n--) *d++ = *s++;\<close> over two buffers: the destination with its offset, the source
  with its offset, the number of bytes.\<close>

fun copy_loop :: "nat \<Rightarrow> 'a list \<Rightarrow> nat \<Rightarrow> 'a list \<Rightarrow> nat \<Rightarrow> 'a list" where
  "copy_loop doff d soff s 0 = d"
| "copy_loop doff d soff s (Suc n) = copy_loop (Suc doff) (d[doff := s ! soff]) (Suc soff) s n"

text \<open>\<open>while (n--) *d++ = c;\<close>\<close>

fun fill_loop :: "nat \<Rightarrow> 'a list \<Rightarrow> 'a \<Rightarrow> nat \<Rightarrow> 'a list" where
  "fill_loop doff d c 0 = d"
| "fill_loop doff d c (Suc n) = fill_loop (Suc doff) (d[doff := c]) c n"

text \<open>The specification of the two loops: a run of bytes of a buffer, and a buffer with a run
  replaced.\<close>

definition slice :: "nat \<Rightarrow> nat \<Rightarrow> 'a list \<Rightarrow> 'a list" where
  "slice off n xs = take n (drop off xs)"

definition patch :: "nat \<Rightarrow> 'a list \<Rightarrow> 'a list \<Rightarrow> 'a list" where
  "patch off ys xs = take off xs @ ys @ drop (off + length ys) xs"

text \<open>A C string: the bytes before the first NUL, and \<open>strlen\<close> with a bound.\<close>

definition strnlen :: "bytes \<Rightarrow> nat \<Rightarrow> nat" where
  "strnlen s n = (case first_index (\<lambda>i. s ! i = 0) 0 n of Some k \<Rightarrow> k | None \<Rightarrow> n)"

section \<open>Little-endian fields\<close>

fun le_word :: "bytes \<Rightarrow> 'a::len word" where
  "le_word [] = 0"
| "le_word (b # bs) = ucast b OR push_bit 8 (le_word bs)"

definition le_bytes :: "nat \<Rightarrow> 'a::len word \<Rightarrow> bytes" where
  "le_bytes n x = map (\<lambda>i. ucast (drop_bit (8 * i) x)) [0..<n]"

definition rd16 :: "bytes \<Rightarrow> nat \<Rightarrow> u16" where
  "rd16 bs off = le_word (slice off 2 bs)"

definition rd32 :: "bytes \<Rightarrow> nat \<Rightarrow> u32" where
  "rd32 bs off = le_word (slice off 4 bs)"

definition rd64 :: "bytes \<Rightarrow> nat \<Rightarrow> u64" where
  "rd64 bs off = le_word (slice off 8 bs)"

definition wr32 :: "bytes \<Rightarrow> nat \<Rightarrow> u32 \<Rightarrow> bytes" where
  "wr32 bs off v = patch off (le_bytes 4 v) bs"

definition wr64 :: "bytes \<Rightarrow> nat \<Rightarrow> u64 \<Rightarrow> bytes" where
  "wr64 bs off v = patch off (le_bytes 8 v) bs"

definition wr16 :: "bytes \<Rightarrow> nat \<Rightarrow> u16 \<Rightarrow> bytes" where
  "wr16 bs off v = patch off (le_bytes 2 v) bs"

section \<open>Facts on the search loop\<close>

declare first_index.simps [simp del]

lemma first_index_Some_iff:
  "first_index p lo hi = Some k \<longleftrightarrow> lo \<le> k \<and> k < hi \<and> p k \<and> (\<forall>j. lo \<le> j \<longrightarrow> j < k \<longrightarrow> \<not> p j)"
proof (induction p lo hi rule: first_index.induct)
  case (1 p lo hi)
  show ?case
  proof (cases "lo < hi \<and> \<not> p lo")
    case True
    then have "first_index p lo hi = first_index p (Suc lo) hi"
      by (simp add: first_index.simps [of p lo hi])
    moreover have "\<And>j. lo \<le> j \<longleftrightarrow> j = lo \<or> Suc lo \<le> j" by auto
    ultimately show ?thesis using True "1.IH" by auto
  next
    case False
    then show ?thesis
      by (auto simp: first_index.simps [of p lo hi] not_less Suc_le_eq le_less)
  qed
qed

lemma first_index_None_iff:
  "first_index p lo hi = None \<longleftrightarrow> (\<forall>j. lo \<le> j \<longrightarrow> j < hi \<longrightarrow> \<not> p j)"
proof (induction p lo hi rule: first_index.induct)
  case (1 p lo hi)
  show ?case
  proof (cases "lo < hi \<and> \<not> p lo")
    case True
    then have "first_index p lo hi = first_index p (Suc lo) hi"
      by (simp add: first_index.simps [of p lo hi])
    moreover have "\<And>j. lo \<le> j \<longleftrightarrow> j = lo \<or> Suc lo \<le> j" by auto
    ultimately show ?thesis using True "1.IH" by auto
  next
    case False
    then show ?thesis
      by (auto simp: first_index.simps [of p lo hi] not_less)
  qed
qed

lemma first_index_SomeD:
  assumes "first_index p lo hi = Some k"
  shows "lo \<le> k" "k < hi" "p k" "\<And>j. lo \<le> j \<Longrightarrow> j < k \<Longrightarrow> \<not> p j"
  using assms by (auto simp: first_index_Some_iff)

lemma first_index_NoneD: "first_index p lo hi = None \<Longrightarrow> lo \<le> j \<Longrightarrow> j < hi \<Longrightarrow> \<not> p j"
  by (auto simp: first_index_None_iff)

lemma first_index_found: "p j \<Longrightarrow> lo \<le> j \<Longrightarrow> j < hi \<Longrightarrow> \<exists>k. first_index p lo hi = Some k"
  by (cases "first_index p lo hi") (auto dest: first_index_NoneD)

lemma first_index_cong:
  "(\<And>j. lo \<le> j \<Longrightarrow> j < hi \<Longrightarrow> p j = q j) \<Longrightarrow> first_index p lo hi = first_index q lo hi"
proof (induction p lo hi rule: first_index.induct)
  case (1 p lo hi)
  show ?case
  proof (cases "lo < hi")
    case True
    with "1.prems" have pq: "p lo = q lo" by simp
    have "\<not> p lo \<Longrightarrow> first_index p (Suc lo) hi = first_index q (Suc lo) hi"
      using True by (rule "1.IH") (use "1.prems" in auto)
    with pq show ?thesis
      by (simp add: first_index.simps [of p lo hi] first_index.simps [of q lo hi])
  next
    case False
    then show ?thesis
      by (simp add: first_index.simps [of p lo hi] first_index.simps [of q lo hi])
  qed
qed

section \<open>Facts on buffers\<close>

lemma length_slice [simp]: "off + n \<le> length xs \<Longrightarrow> length (slice off n xs) = n"
  by (simp add: slice_def)

lemma nth_slice [simp]: "off + n \<le> length xs \<Longrightarrow> i < n \<Longrightarrow> slice off n xs ! i = xs ! (off + i)"
  by (simp add: slice_def)

lemma length_patch [simp]: "off + length ys \<le> length xs \<Longrightarrow> length (patch off ys xs) = length xs"
  by (simp add: patch_def)

lemma nth_patch:
  "off + length ys \<le> length xs \<Longrightarrow> i < length xs \<Longrightarrow>
   patch off ys xs ! i = (if off \<le> i \<and> i < off + length ys then ys ! (i - off) else xs ! i)"
  by (auto simp: patch_def nth_append)

lemma slice_patch_same [simp]:
  "off + length ys \<le> length xs \<Longrightarrow> n = length ys \<Longrightarrow> slice off n (patch off ys xs) = ys"
  by (simp add: slice_def patch_def)

lemma slice_patch_other:
  assumes "off + length ys \<le> length xs" "o2 + n \<le> length xs"
    and "o2 + n \<le> off \<or> off + length ys \<le> o2"
  shows "slice o2 n (patch off ys xs) = slice o2 n xs"
  using assms by (intro nth_equalityI) (auto simp: nth_patch)

lemma slice_append_left [simp]: "off + n \<le> length xs \<Longrightarrow> slice off n (xs @ ys) = slice off n xs"
  by (simp add: slice_def)

lemma slice_all [simp]: "n = length xs \<Longrightarrow> slice 0 n xs = xs"
  by (simp add: slice_def)

lemma slice_join: "slice a n xs @ slice (a + n) m xs = slice a (n + m) xs"
  by (simp add: slice_def take_add add.commute [of a n])

lemma length_copy_loop [simp]: "length (copy_loop doff d soff s n) = length d"
  by (induction doff d soff s n rule: copy_loop.induct) auto

lemma length_fill_loop [simp]: "length (fill_loop doff d c n) = length d"
  by (induction doff d c n rule: fill_loop.induct) auto

lemma nth_copy_loop:
  "doff + n \<le> length d \<Longrightarrow> i < length d \<Longrightarrow>
   copy_loop doff d soff s n ! i =
     (if doff \<le> i \<and> i < doff + n then s ! (soff + (i - doff)) else d ! i)"
proof (induction doff d soff s n rule: copy_loop.induct)
  case (2 doff d soff s n)
  then show ?case by (cases "i = doff") (auto simp: Suc_diff_Suc)
qed auto

lemma nth_fill_loop:
  "doff + n \<le> length d \<Longrightarrow> i < length d \<Longrightarrow>
   fill_loop doff d c n ! i = (if doff \<le> i \<and> i < doff + n then c else d ! i)"
proof (induction doff d c n rule: fill_loop.induct)
  case (2 doff d c n)
  then show ?case by (cases "i = doff") auto
qed auto

text \<open>The loops meet their specification.\<close>

lemma copy_loop_patch:
  assumes "doff + n \<le> length d" "soff + n \<le> length s"
  shows "copy_loop doff d soff s n = patch doff (slice soff n s) d"
  using assms by (intro nth_equalityI) (auto simp: nth_copy_loop nth_patch)

lemma fill_loop_patch:
  assumes "doff + n \<le> length d"
  shows "fill_loop doff d c n = patch doff (replicate n c) d"
  using assms by (intro nth_equalityI) (auto simp: nth_fill_loop nth_patch)

lemma copy_loop_whole: "length d = n \<Longrightarrow> length s = n \<Longrightarrow> copy_loop 0 d 0 s n = s"
  by (simp add: copy_loop_patch patch_def)

lemma fill_loop_whole: "length d = n \<Longrightarrow> fill_loop 0 d c n = replicate n c"
  by (simp add: fill_loop_patch patch_def)

lemma strnlen_le: "strnlen s n \<le> n"
  by (auto simp: strnlen_def split: option.splits dest: first_index_SomeD(2))

lemma strnlen_eq: "k < n \<Longrightarrow> s ! k = 0 \<Longrightarrow> (\<And>j. j < k \<Longrightarrow> s ! j \<noteq> 0) \<Longrightarrow> strnlen s n = k"
  by (auto simp: strnlen_def first_index_Some_iff first_index_None_iff split: option.splits)
     (metis linorder_neqE_nat)

lemma strnlen_full: "(\<And>j. j < n \<Longrightarrow> s ! j \<noteq> 0) \<Longrightarrow> strnlen s n = n"
  by (auto simp: strnlen_def first_index_Some_iff split: option.splits)

lemma strnlen_nonzero: "j < strnlen s n \<Longrightarrow> s ! j \<noteq> 0"
  by (auto simp: strnlen_def first_index_Some_iff first_index_None_iff split: option.splits)

lemma strnlen_stop: "strnlen s n < n \<Longrightarrow> s ! strnlen s n = 0"
  by (auto simp: strnlen_def split: option.splits dest: first_index_SomeD(3))

section \<open>Facts on little-endian fields\<close>

lemma length_le_bytes [simp]: "length (le_bytes n x) = n"
  by (simp add: le_bytes_def)

lemma bit_le_word:
  "bit (le_word bs :: 'a::len word) k \<longleftrightarrow>
     k < LENGTH('a) \<and> k div 8 < length bs \<and> bit (bs ! (k div 8)) (k mod 8)"
proof (induction bs arbitrary: k)
  case Nil
  then show ?case by simp
next
  case (Cons b bs)
  show ?case
  proof (cases "k < 8")
    case True
    then show ?thesis by (auto simp: bit_simps)
  next
    case False
    then obtain m where k: "k = m + 8"
      by (metis add.commute le_Suc_ex not_less)
    have nb: "\<not> bit (ucast b :: 'a word) k"
      using False by (auto simp: bit_simps dest: bit_imp_le_length)
    have dv: "(m + 8) div 8 = Suc (m div 8)" by simp
    show ?thesis
      using nb Cons.IH [of m] unfolding k dv by (auto simp: bit_simps dest: bit_imp_le_length)
  qed
qed

lemma le_word_le_bytes: "LENGTH('a::len) = 8 * n \<Longrightarrow> le_word (le_bytes n (x :: 'a word)) = x"
  by (rule bit_word_eqI)
     (auto simp: bit_le_word le_bytes_def bit_simps less_mult_imp_div_less mult.commute)

lemma le_word_le_bytes_simps [simp]:
  "le_word (le_bytes 2 (x :: u16)) = x" "le_word (le_bytes 4 (y :: u32)) = y"
  "le_word (le_bytes 8 (z :: u64)) = z"
  by (simp_all add: le_word_le_bytes)

lemma le_word_zeros [simp]: "le_word (replicate n 0) = 0"
  by (induction n) auto

lemma length_wr [simp]:
  "off + 4 \<le> length bs \<Longrightarrow> length (wr32 bs off v) = length bs"
  "off + 8 \<le> length bs \<Longrightarrow> length (wr64 bs off x) = length bs"
  by (simp_all add: wr32_def wr64_def)

lemma rd_wr_same [simp]:
  "off + 4 \<le> length bs \<Longrightarrow> rd32 (wr32 bs off v) off = v"
  "off + 8 \<le> length bs \<Longrightarrow> rd64 (wr64 bs off x) off = x"
  by (simp_all add: rd32_def rd64_def wr32_def wr64_def)

lemma slice_wr32 [simp]:
  "off + 4 \<le> length bs \<Longrightarrow> o2 + n \<le> length bs \<Longrightarrow> o2 + n \<le> off \<or> off + 4 \<le> o2 \<Longrightarrow>
   slice o2 n (wr32 bs off v) = slice o2 n bs"
  by (simp add: wr32_def slice_patch_other)

lemma slice_wr64 [simp]:
  "off + 8 \<le> length bs \<Longrightarrow> o2 + n \<le> length bs \<Longrightarrow> o2 + n \<le> off \<or> off + 8 \<le> o2 \<Longrightarrow>
   slice o2 n (wr64 bs off v) = slice o2 n bs"
  by (simp add: wr64_def slice_patch_other)

lemma rd_wr32_other [simp]:
  "off + 4 \<le> length bs \<Longrightarrow> o2 + 4 \<le> length bs \<Longrightarrow> o2 + 4 \<le> off \<or> off + 4 \<le> o2 \<Longrightarrow>
   rd32 (wr32 bs off v) o2 = rd32 bs o2"
  "off + 4 \<le> length bs \<Longrightarrow> o2 + 8 \<le> length bs \<Longrightarrow> o2 + 8 \<le> off \<or> off + 4 \<le> o2 \<Longrightarrow>
   rd64 (wr32 bs off v) o2 = rd64 bs o2"
  by (simp_all add: rd32_def rd64_def)

lemma rd_wr64_other [simp]:
  "off + 8 \<le> length bs \<Longrightarrow> o2 + 4 \<le> length bs \<Longrightarrow> o2 + 4 \<le> off \<or> off + 8 \<le> o2 \<Longrightarrow>
   rd32 (wr64 bs off x) o2 = rd32 bs o2"
  "off + 8 \<le> length bs \<Longrightarrow> o2 + 8 \<le> length bs \<Longrightarrow> o2 + 8 \<le> off \<or> off + 8 \<le> o2 \<Longrightarrow>
   rd64 (wr64 bs off x) o2 = rd64 bs o2"
  by (simp_all add: rd32_def rd64_def)

lemma wr16_facts [simp]:
  "off + 2 \<le> length bs \<Longrightarrow> length (wr16 bs off u) = length bs"
  "off + 2 \<le> length bs \<Longrightarrow> rd16 (wr16 bs off u) off = u"
  "off + 2 \<le> length bs \<Longrightarrow> o2 + n \<le> length bs \<Longrightarrow> o2 + n \<le> off \<or> off + 2 \<le> o2 \<Longrightarrow>
   slice o2 n (wr16 bs off u) = slice o2 n bs"
  "off + 2 \<le> length bs \<Longrightarrow> o2 + 2 \<le> length bs \<Longrightarrow> o2 + 2 \<le> off \<or> off + 2 \<le> o2 \<Longrightarrow>
   rd16 (wr16 bs off u) o2 = rd16 bs o2"
  "off + 2 \<le> length bs \<Longrightarrow> o2 + 4 \<le> length bs \<Longrightarrow> o2 + 4 \<le> off \<or> off + 2 \<le> o2 \<Longrightarrow>
   rd32 (wr16 bs off u) o2 = rd32 bs o2"
  "off + 2 \<le> length bs \<Longrightarrow> o2 + 8 \<le> length bs \<Longrightarrow> o2 + 8 \<le> off \<or> off + 2 \<le> o2 \<Longrightarrow>
   rd64 (wr16 bs off u) o2 = rd64 bs o2"
  by (simp_all add: wr16_def rd16_def rd32_def rd64_def slice_patch_other)

lemma rd16_wr_other [simp]:
  "off + 4 \<le> length bs \<Longrightarrow> o2 + 2 \<le> length bs \<Longrightarrow> o2 + 2 \<le> off \<or> off + 4 \<le> o2 \<Longrightarrow>
   rd16 (wr32 bs off v) o2 = rd16 bs o2"
  "off + 8 \<le> length bs \<Longrightarrow> o2 + 2 \<le> length bs \<Longrightarrow> o2 + 2 \<le> off \<or> off + 8 \<le> o2 \<Longrightarrow>
   rd16 (wr64 bs off x) o2 = rd16 bs o2"
  by (simp_all add: rd16_def)

lemma rd_zeros [simp]:
  "off + 4 \<le> n \<Longrightarrow> rd32 (replicate n 0) off = 0" "off + 8 \<le> n \<Longrightarrow> rd64 (replicate n 0) off = 0"
  by (simp_all add: rd32_def rd64_def slice_def)

section \<open>Facts on alignment masks\<close>

lemma unat_and_mask: "unat (x AND mask n :: 'a::len word) = unat x mod 2 ^ n"
proof -
  have "unat (take_bit n x) = take_bit n (unat x)" by (rule unsigned_take_bit_eq)
  then show ?thesis by (simp add: take_bit_eq_mod [of n "unat x"] flip: take_bit_eq_mask del: take_bit_eq_mod)
qed

lemma unat_and_not_mask: "unat (x AND NOT (mask n) :: 'a::len word) = unat x - unat x mod 2 ^ n"
proof -
  have "(x AND NOT (mask n)) + (x AND mask n) = (x AND NOT (mask n)) OR (x AND mask n)"
    by (rule disjunctive_add) (auto simp: bit_simps)
  moreover have "(x AND NOT (mask n)) OR (x AND mask n) = x"
    by (rule bit_word_eqI) (auto simp: bit_simps)
  ultimately have "x AND NOT (mask n) = x - (x AND mask n)"
    by (metis add_diff_cancel_right')
  then show ?thesis by (simp add: unat_sub word_and_le2 unat_and_mask)
qed

lemma mask_12: "(mask 12 :: 'a::len word) = 4095"
  by (simp add: mask_eq_exp_minus_1)

lemma unat_and_4095: "unat (x AND 4095 :: u64) = unat x mod 4096"
  using unat_and_mask [of x 12] by (simp add: mask_12)

lemma unat_and_not_4095: "unat (x AND NOT 4095 :: u64) = unat x - unat x mod 4096"
  using unat_and_not_mask [of x 12] by (simp add: mask_12)

lemma unat_and_minus_4096: "unat (x AND - 4096 :: u64) = 4096 * (unat x div 4096)"
  using unat_and_not_4095 [of x] by (simp add: minus_mod_eq_mult_div)

lemma unat_bound: "unat (x :: 'a::len word) < 2 ^ LENGTH('a)"
  by (rule unsigned_less)

lemma unat_ucast_up:
  assumes "LENGTH('a::len) \<le> LENGTH('b::len)"
  shows "unat (ucast (x :: 'a word) :: 'b word) = unat x"
proof -
  have "unat x < 2 ^ LENGTH('b)"
    using unat_bound [of x] assms by (meson less_le_trans one_le_numeral power_increasing)
  then show ?thesis by (simp add: unsigned_ucast_eq take_bit_nat_eq_self)
qed

lemma page_aligned_iff: "(x :: u64) AND 4095 = 0 \<longleftrightarrow> 4096 dvd unat x"
  by (metis unat_and_4095 dvd_eq_mod_eq_0 unat_eq_zero)

section \<open>Simulation of a sequence of calls\<close>

fun run_calls :: "('c \<Rightarrow> 's \<Rightarrow> 'r \<times> 's) \<Rightarrow> 'c list \<Rightarrow> 's \<Rightarrow> 'r list \<times> 's" where
  "run_calls exec [] s = ([], s)"
| "run_calls exec (c # cs) s =
     (let (r, s') = exec c s; (rs, s'') = run_calls exec cs s' in (r # rs, s''))"

text \<open>A component whose calls answer as those of an abstract model, from related states, answers every sequence
  of calls as the model does.\<close>

locale simulation =
  fixes rel :: "'s \<Rightarrow> 't \<Rightarrow> bool" and cexec :: "'c \<Rightarrow> 's \<Rightarrow> 'r \<times> 's" and aexec :: "'c \<Rightarrow> 't \<Rightarrow> 'r \<times> 't"
  assumes simulates: "rel s a \<Longrightarrow> fst (cexec c s) = fst (aexec c a) \<and> rel (snd (cexec c s)) (snd (aexec c a))"
begin

lemma runs_agree:
  "rel s a \<Longrightarrow> fst (run_calls cexec cs s) = fst (run_calls aexec cs a) \<and> rel (snd (run_calls cexec cs s)) (snd (run_calls aexec cs a))"
proof (induction cs arbitrary: s a)
  case (Cons c cs)
  then show ?case using simulates [OF Cons.prems, of c] by (auto simp: split_beta Let_def)
qed simp

end

end
