(* ===== verification/Scheduler.thy ===== *)
theory Scheduler
  imports MCS_Prelude
begin

text \<open>
  \<open>kernel/mcsos_thread.c\<close>: thread objects and the cooperative round-robin scheduler. Threads are linked
  into the ready queue through their \<open>next\<close> fields, so the model keeps a heap of thread objects
  indexed by address and the scheduler holds addresses. Shown: the linked queue refines a list
  under every operation, yielding rotates it fairly, and the self-check \<open>mcsos_sched_validate\<close>
  terminates and succeeds on every state the operations build; also that it does not terminate once a
  thread has been enqueued twice.
\<close>

section \<open>Data\<close>

datatype sched_status = MCSOS_SCHED_OK | MCSOS_SCHED_ERR

datatype thread_state =
    MCSOS_THREAD_NEW | MCSOS_THREAD_READY | MCSOS_THREAD_RUNNING
  | MCSOS_THREAD_BLOCKED | MCSOS_THREAD_ZOMBIE

record mcsos_context =
  rsp :: u64
  rbp :: u64
  rbx :: u64
  r12 :: u64
  r13 :: u64
  r14 :: u64
  r15 :: u64
  rip :: u64

type_synonym addr = nat

text \<open>Code and data pointers that are only stored are kept as machine addresses.\<close>

record mcsos_thread =
  t_name :: "string option"
  t_id :: u64
  t_state :: thread_state
  t_context :: mcsos_context
  t_entry :: u64
  t_arg :: u64
  t_stack :: u64
  t_stack_size :: u64
  t_next :: "addr option"
  t_ticks :: u64

record mcsos_scheduler =
  current :: "addr option"
  ready_head :: "addr option"
  ready_tail :: "addr option"
  runnable_count :: u64
  next_id :: u64
  context_switches :: u64

type_synonym thread_heap = "addr \<Rightarrow> mcsos_thread"
type_synonym sched_sys = "mcsos_scheduler \<times> thread_heap"

section \<open>Operations\<close>

definition mcsos_scheduler_init ::
  "mcsos_scheduler option \<Rightarrow> addr option \<Rightarrow> thread_heap \<Rightarrow>
   sched_status \<times> mcsos_scheduler option \<times> thread_heap" where
  "mcsos_scheduler_init s boot h =
     (case (s, boot) of
        (Some s, Some b) \<Rightarrow>
          (MCSOS_SCHED_OK,
           Some (s\<lparr>current := Some b, ready_head := None, ready_tail := None, runnable_count := 0,
                   next_id := 1, context_switches := 0\<rparr>),
           h(b := (h b)\<lparr>t_state := MCSOS_THREAD_RUNNING, t_id := 0\<rparr>))
      | _ \<Rightarrow> (MCSOS_SCHED_ERR, s, h))"

definition mcsos_thread_prepare ::
  "addr option \<Rightarrow> string option \<Rightarrow> u64 \<Rightarrow> u64 \<Rightarrow> u64 \<Rightarrow> u64 \<Rightarrow> u64 \<Rightarrow> thread_heap \<Rightarrow>
   sched_status \<times> thread_heap" where
  "mcsos_thread_prepare t name entry arg stack stack_size tid h =
     (case t of
        None \<Rightarrow> (MCSOS_SCHED_ERR, h)
      | Some a \<Rightarrow>
          (MCSOS_SCHED_OK,
           h(a := (h a)\<lparr>t_name := name, t_entry := entry, t_arg := arg, t_stack := stack,
                        t_stack_size := stack_size, t_id := tid, t_state := MCSOS_THREAD_READY,
                        t_ticks := 0,
                        t_context := (t_context (h a))\<lparr>rsp := (stack + stack_size) AND NOT 15\<rparr>\<rparr>)))"

definition mcsos_sched_enqueue ::
  "mcsos_scheduler option \<Rightarrow> addr option \<Rightarrow> thread_heap \<Rightarrow>
   sched_status \<times> mcsos_scheduler option \<times> thread_heap" where
  "mcsos_sched_enqueue s t h =
     (case (s, t) of
        (Some s, Some a) \<Rightarrow>
          let h1 = h(a := (h a)\<lparr>t_state := MCSOS_THREAD_READY, t_next := None\<rparr>);
              (s1, h2) =
                (case ready_tail s of
                   None \<Rightarrow> (s\<lparr>ready_head := Some a, ready_tail := Some a\<rparr>, h1)
                 | Some last_t \<Rightarrow> (s\<lparr>ready_tail := Some a\<rparr>, h1(last_t := (h1 last_t)\<lparr>t_next := Some a\<rparr>)))
          in (MCSOS_SCHED_OK, Some (s1\<lparr>runnable_count := runnable_count s1 + 1\<rparr>), h2)
      | _ \<Rightarrow> (MCSOS_SCHED_ERR, s, h))"

definition mcsos_sched_ready_count :: "mcsos_scheduler option \<Rightarrow> u32" where
  "mcsos_sched_ready_count s = (case s of None \<Rightarrow> 0 | Some s \<Rightarrow> ucast (runnable_count s))"

definition mcsos_sched_tick ::
  "mcsos_scheduler option \<Rightarrow> thread_heap \<Rightarrow> sched_status \<times> thread_heap" where
  "mcsos_sched_tick s h =
     (case s of
        None \<Rightarrow> (MCSOS_SCHED_ERR, h)
      | Some s \<Rightarrow>
          (case current s of
             None \<Rightarrow> (MCSOS_SCHED_ERR, h)
           | Some c \<Rightarrow> (MCSOS_SCHED_OK, h(c := (h c)\<lparr>t_ticks := t_ticks (h c) + 1\<rparr>))))"

definition mcsos_sched_yield ::
  "mcsos_scheduler option \<Rightarrow> thread_heap \<Rightarrow> sched_status \<times> mcsos_scheduler option \<times> thread_heap" where
  "mcsos_sched_yield s h =
     (case s of
        None \<Rightarrow> (MCSOS_SCHED_ERR, None, h)
      | Some s \<Rightarrow>
          (case ready_head s of
             None \<Rightarrow> (MCSOS_SCHED_ERR, Some s, h)
           | Some next \<Rightarrow>
               let s1 = s\<lparr>ready_head := t_next (h next)\<rparr>;
                   s2 = (if ready_head s1 = None then s1\<lparr>ready_tail := None\<rparr> else s1);
                   h1 = h(next := (h next)\<lparr>t_state := MCSOS_THREAD_RUNNING\<rparr>);
                   (s3, h3) =
                     (case current s2 of
                        None \<Rightarrow> (s2, h1)
                      | Some c \<Rightarrow>
                          let h2 = h1(c := (h1 c)\<lparr>t_state := MCSOS_THREAD_READY, t_next := None\<rparr>) in
                          (case ready_tail s2 of
                             Some last_t \<Rightarrow> (s2\<lparr>ready_tail := Some c\<rparr>, h2(last_t := (h2 last_t)\<lparr>t_next := Some c\<rparr>))
                           | None \<Rightarrow> (s2\<lparr>ready_head := Some c, ready_tail := Some c\<rparr>, h2)))
               in (MCSOS_SCHED_OK,
                   Some (s3\<lparr>current := Some next, context_switches := context_switches s3 + 1\<rparr>), h3)))"

text \<open>The walk of \<open>mcsos_sched_validate\<close> follows \<open>next\<close> until it is NULL; nothing in the code bounds
  it, so not returning is \<open>None\<close>.\<close>

partial_function (option) validate_walk ::
  "thread_heap \<Rightarrow> addr option \<Rightarrow> u64 \<Rightarrow> (sched_status + u64) option" where
  "validate_walk h cur count =
     (case cur of
        None \<Rightarrow> Some (Inr count)
      | Some a \<Rightarrow>
          if t_state (h a) \<noteq> MCSOS_THREAD_READY then Some (Inl MCSOS_SCHED_ERR)
          else validate_walk h (t_next (h a)) (count + 1))"

definition mcsos_sched_validate :: "mcsos_scheduler option \<Rightarrow> thread_heap \<Rightarrow> sched_status option" where
  "mcsos_sched_validate s h =
     (case s of
        None \<Rightarrow> Some MCSOS_SCHED_ERR
      | Some s \<Rightarrow>
          (case validate_walk h (ready_head s) 0 of
             None \<Rightarrow> None
           | Some (Inl e) \<Rightarrow> Some e
           | Some (Inr count) \<Rightarrow>
               Some (if count \<noteq> runnable_count s then MCSOS_SCHED_ERR else MCSOS_SCHED_OK)))"

section \<open>Abstraction: the ready queue as a list\<close>

fun chain :: "thread_heap \<Rightarrow> addr option \<Rightarrow> addr list \<Rightarrow> bool" where
  "chain h p [] \<longleftrightarrow> p = None"
| "chain h p (a # as) \<longleftrightarrow> p = Some a \<and> chain h (t_next (h a)) as"

definition sched_rep :: "sched_sys \<Rightarrow> addr \<Rightarrow> addr list \<Rightarrow> bool" where
  "sched_rep sys c q \<longleftrightarrow>
     (let (s, h) = sys in
      current s = Some c \<and> chain h (ready_head s) q \<and>
      ready_tail s = (if q = [] then None else Some (last q)) \<and>
      runnable_count s = of_nat (length q) \<and> distinct (c # q) \<and>
      (\<forall>a \<in> set q. t_state (h a) = MCSOS_THREAD_READY) \<and>
      t_state (h c) = MCSOS_THREAD_RUNNING)"

definition yield_step :: "sched_sys \<Rightarrow> sched_sys" where
  "yield_step sys = (let (_, s', h') = mcsos_sched_yield (Some (fst sys)) (snd sys) in (the s', h'))"

text \<open>A zeroed thread object and the state after \<open>mcsos_scheduler_init\<close> with the boot thread at address 0.\<close>

definition zero_thread :: mcsos_thread where
  "zero_thread = \<lparr>t_name = None, t_id = 0, t_state = MCSOS_THREAD_NEW,
     t_context = \<lparr>rsp = 0, rbp = 0, rbx = 0, r12 = 0, r13 = 0, r14 = 0, r15 = 0, rip = 0\<rparr>,
     t_entry = 0, t_arg = 0, t_stack = 0, t_stack_size = 0, t_next = None, t_ticks = 0\<rparr>"

definition zero_scheduler :: mcsos_scheduler where
  "zero_scheduler = \<lparr>current = None, ready_head = None, ready_tail = None, runnable_count = 0,
     next_id = 0, context_switches = 0\<rparr>"

definition sched_boot :: sched_sys where
  "sched_boot =
     (let (_, s, h) = mcsos_scheduler_init (Some zero_scheduler) (Some 0) (\<lambda>_. zero_thread) in (the s, h))"

definition sched_two :: sched_sys where
  "sched_two =
     (let (_, s1, h1) = mcsos_sched_enqueue (Some (fst sched_boot)) (Some 1) (snd sched_boot);
          (_, s2, h2) = mcsos_sched_enqueue s1 (Some 2) h1 in (the s2, h2))"

section \<open>The interface of a rotating scheduler\<close>

locale rotating =
  fixes rep :: "'s \<Rightarrow> 'a \<Rightarrow> 'a list \<Rightarrow> bool"
    and switch :: "'s \<Rightarrow> 's"
  assumes switch_rep: "rep s c (n # q) \<Longrightarrow> rep (switch s) n (q @ [c])"
begin

lemma rotates:
  assumes "rep s c q" "q \<noteq> []"
  shows "\<exists>c' q'. rep ((switch ^^ k) s) c' q' \<and> c' # q' = rotate k (c # q)"
proof (induction k)
  case 0
  with assms show ?case by auto
next
  case (Suc k)
  then obtain c' q' where r: "rep ((switch ^^ k) s) c' q'" and eq: "c' # q' = rotate k (c # q)"
    by blast
  have "length (c' # q') = length (c # q)" by (simp only: eq length_rotate)
  then obtain n q2 where q': "q' = n # q2" using assms(2) by (cases q'; cases q) auto
  have "rep ((switch ^^ Suc k) s) n (q2 @ [c'])" using r q' by (simp add: switch_rep)
  moreover have "n # q2 @ [c'] = rotate (Suc k) (c # q)" using eq q' by (simp flip: eq)
  ultimately show ?case by blast
qed

text \<open>Fairness: the thread at position \<open>k\<close> of the ring runs after \<open>k\<close> switches, and again one round
  later.\<close>

lemma fair:
  assumes "rep s c q" "q \<noteq> []"
  shows "\<exists>q'. rep ((switch ^^ k) s) ((c # q) ! (k mod Suc (length q))) q'"
proof -
  from rotates [OF assms, of k] obtain c' q'
    where r: "rep ((switch ^^ k) s) c' q'" and eq: "c' # q' = rotate k (c # q)" by blast
  have "c' = hd (rotate k (c # q))" by (simp flip: eq)
  also have "\<dots> = (c # q) ! (k mod Suc (length q))" by (simp add: hd_rotate_conv_nth)
  finally show ?thesis using r by blast
qed

end

section \<open>Lemmas\<close>

lemma chain_frame:
  "(\<And>a. a \<in> set q \<Longrightarrow> t_next (h' a) = t_next (h a)) \<Longrightarrow> chain h' p q \<longleftrightarrow> chain h p q"
  by (induction q arbitrary: p) auto

lemma chain_snoc:
  assumes "chain h p q" "q \<noteq> []" "a \<notin> set q" "distinct q"
    and "t_next (h' a) = None" "t_next (h' (last q)) = Some a"
    and "\<And>b. b \<in> set (butlast q) \<Longrightarrow> t_next (h' b) = t_next (h b)"
  shows "chain h' p (q @ [a])"
  using assms
proof (induction q arbitrary: p)
  case (Cons b q)
  show ?case
  proof (cases "q = []")
    case True
    with Cons.prems show ?thesis by auto
  next
    case False
    with Cons.prems have "chain h' (t_next (h b)) (q @ [a])" by (intro Cons.IH) auto
    with Cons.prems False show ?thesis by auto
  qed
qed simp

lemma last_notin_butlast: "distinct q \<Longrightarrow> q \<noteq> [] \<Longrightarrow> b \<in> set (butlast q) \<Longrightarrow> b \<noteq> last q"
  by (metis append_butlast_last_id distinct_append disjoint_iff list.set_intros(1))

lemma enqueue_rep:
  assumes rep: "sched_rep (s, h) c q" and t: "t \<notin> set (c # q)"
  shows "\<exists>s' h'. mcsos_sched_enqueue (Some s) (Some t) h = (MCSOS_SCHED_OK, Some s', h') \<and>
                 sched_rep (s', h') c (q @ [t])"
proof (cases "q = []")
  case True
  with rep t show ?thesis
    by (auto simp: mcsos_sched_enqueue_def sched_rep_def)
next
  case False
  let ?h1 = "h(t := (h t)\<lparr>t_state := MCSOS_THREAD_READY, t_next := None\<rparr>)"
  let ?h2 = "?h1(last q := (?h1 (last q))\<lparr>t_next := Some t\<rparr>)"
  have l: "last q \<in> set q" using False by simp
  have "chain ?h2 (ready_head s) (q @ [t])"
    using rep t False l
    by (intro chain_snoc [where h = h])
       (auto simp: sched_rep_def dest: last_notin_butlast in_set_butlastD)
  with rep t False l show ?thesis
    by (auto simp: mcsos_sched_enqueue_def sched_rep_def Let_def)
qed

lemma yield_rep:
  assumes rep: "sched_rep (s, h) c (n # q)"
  shows "\<exists>s' h'. mcsos_sched_yield (Some s) h = (MCSOS_SCHED_OK, Some s', h') \<and>
                 sched_rep (s', h') n (q @ [c]) \<and>
                 context_switches s' = context_switches s + 1"
proof -
  have head: "ready_head s = Some n" and cur: "current s = Some c" and cn: "c \<noteq> n"
    and tail: "chain h (t_next (h n)) q" "distinct q" "c \<notin> set q" "n \<notin> set q"
    using rep by (auto simp: sched_rep_def)
  let ?h1 = "h(n := (h n)\<lparr>t_state := MCSOS_THREAD_RUNNING\<rparr>)"
  let ?h2 = "?h1(c := (?h1 c)\<lparr>t_state := MCSOS_THREAD_READY, t_next := None\<rparr>)"
  show ?thesis
  proof (cases "q = []")
    case True
    with rep head cur cn tail show ?thesis
      by (auto simp: mcsos_sched_yield_def sched_rep_def Let_def)
  next
    case False
    then obtain m where m: "t_next (h n) = Some m" using tail(1) by (cases q) auto
    let ?h3 = "?h2(last q := (?h2 (last q))\<lparr>t_next := Some c\<rparr>)"
    have l: "last q \<in> set q" using False by simp
    have "chain ?h3 (t_next (h n)) (q @ [c])"
      using tail False l cn
      by (intro chain_snoc [where h = h]) (auto dest: last_notin_butlast in_set_butlastD)
    with rep head cur cn tail False m l show ?thesis
      by (auto simp: mcsos_sched_yield_def sched_rep_def Let_def)
  qed
qed

interpretation sched: rotating sched_rep yield_step
proof
  fix sys c n q
  assume "sched_rep sys c (n # q)"
  then show "sched_rep (yield_step sys) n (q @ [c])"
    using yield_rep [of "fst sys" "snd sys" c n q] by (auto simp: yield_step_def)
qed

lemma walk_chain:
  "chain h p q \<Longrightarrow> (\<forall>a \<in> set q. t_state (h a) = MCSOS_THREAD_READY) \<Longrightarrow>
   validate_walk h p k = Some (Inr (k + of_nat (length q)))"
proof (induction q arbitrary: p k)
  case Nil
  then show ?case by (simp add: validate_walk.simps)
next
  case (Cons a q)
  then have "validate_walk h (t_next (h a)) (k + 1) = Some (Inr (k + 1 + of_nat (length q)))"
    by simp
  with Cons.prems show ?case by (simp add: validate_walk.simps [of h "Some a" k] algebra_simps)
qed

text \<open>A part of the list, and the links along it.\<close>

fun path :: "thread_heap \<Rightarrow> addr option \<Rightarrow> addr list \<Rightarrow> addr option \<Rightarrow> bool" where
  "path h p [] r \<longleftrightarrow> p = r"
| "path h p (a # as) r \<longleftrightarrow> p = Some a \<and> path h (t_next (h a)) as r"

primrec next_link :: "thread_heap \<Rightarrow> nat \<Rightarrow> addr option \<Rightarrow> addr option" where
  "next_link h 0 p = p"
| "next_link h (Suc n) p = (case p of None \<Rightarrow> None | Some a \<Rightarrow> next_link h n (t_next (h a)))"

lemma chain_path: "chain h p (xs @ a # ys) \<Longrightarrow> path h p xs (Some a)"
  by (induction xs arbitrary: p) auto

lemma path_chain: "path h p xs (Some a) \<Longrightarrow> chain h (t_next (h a)) ys \<Longrightarrow> chain h p (xs @ a # ys)"
  by (induction xs arbitrary: p) auto

lemma path_frame: "(\<And>a. a \<in> set xs \<Longrightarrow> t_next (h' a) = t_next (h a)) \<Longrightarrow> path h' p xs r = path h p xs r"
  by (induction xs arbitrary: p) auto

lemma next_link_path: "path h p xs r \<Longrightarrow> next_link h (length xs) p = r"
  by (induction xs arbitrary: p) auto

lemma next_link_add: "next_link h (m + n) p = next_link h n (next_link h m p)"
proof (induction m arbitrary: p)
  case (Suc m)
  have "next_link h n None = None" for n by (cases n) simp_all
  with Suc show ?case by (auto split: option.splits)
qed simp

lemma next_link_self: "t_next (h t) = Some t \<Longrightarrow> next_link h n (Some t) = Some t"
  by (induction n) simp_all

lemma validate_path:
  "path h p xs r \<Longrightarrow> \<forall>a \<in> set xs. t_state (h a) = MCSOS_THREAD_READY \<Longrightarrow>
   validate_walk h p k = validate_walk h r (k + of_nat (length xs))"
  by (induction xs arbitrary: p k) (auto simp: validate_walk.simps [of h "Some _"] algebra_simps)

text \<open>A thread whose \<open>next\<close> is itself traps the walk.\<close>

lemma walk_self_loop:
  assumes "t_next (h a) = Some a" "t_state (h a) = MCSOS_THREAD_READY"
  shows "validate_walk h (Some a) k = None"
proof (rule ccontr)
  assume "validate_walk h (Some a) k \<noteq> None"
  then obtain r where r: "validate_walk h (Some a) k = Some r" by blast
  have "h = h \<longrightarrow> Some a = Some a \<longrightarrow> False"
  proof (rule validate_walk.raw_induct [where P = "\<lambda>h' p k r. h' = h \<longrightarrow> p = Some a \<longrightarrow> False", OF _ r])
    fix f h' p k r
    assume IH: "\<And>h' p k r. f h' p k = Some r \<Longrightarrow> h' = h \<longrightarrow> p = Some a \<longrightarrow> False"
      and eq: "(case p of None \<Rightarrow> Some (Inr k)
        | Some a \<Rightarrow> if t_state (h' a) \<noteq> MCSOS_THREAD_READY then Some (Inl MCSOS_SCHED_ERR)
                   else f h' (t_next (h' a)) (k + 1)) = Some r"
    show "h' = h \<longrightarrow> p = Some a \<longrightarrow> False"
      using IH [of h "Some a" "k + 1" r] eq assms by (auto split: if_splits)
  qed
  then show False by simp
qed

lemma ucast_word_of_nat: "(ucast (word_of_nat n :: u64) :: u32) = word_of_nat n"
  by (simp add: unsigned_of_nat word_of_nat_eq_iff)

lemma init_rep:
  "\<exists>s' h'. mcsos_scheduler_init (Some s) (Some b) h = (MCSOS_SCHED_OK, Some s', h') \<and>
           sched_rep (s', h') b []"
  by (simp add: mcsos_scheduler_init_def sched_rep_def)

lemma sched_boot_rep: "sched_rep sched_boot 0 []"
  by (simp add: sched_boot_def mcsos_scheduler_init_def sched_rep_def)

lemma sched_two_rep: "sched_rep sched_two 0 [1, 2]"
proof -
  obtain s1 h1 where e1: "mcsos_sched_enqueue (Some (fst sched_boot)) (Some 1) (snd sched_boot)
      = (MCSOS_SCHED_OK, Some s1, h1)" and r1: "sched_rep (s1, h1) 0 [1]"
    using enqueue_rep [of "fst sched_boot" "snd sched_boot" 0 "[]" 1] sched_boot_rep by auto
  obtain s2 h2 where e2: "mcsos_sched_enqueue (Some s1) (Some 2) h1 = (MCSOS_SCHED_OK, Some s2, h2)"
    and r2: "sched_rep (s2, h2) 0 [1, 2]"
    using enqueue_rep [OF r1, of 2] by auto
  from e1 e2 r2 show ?thesis by (simp add: sched_two_def)
qed

section \<open>Properties\<close>

text \<open>C14: The linked ready queue refines a list. On a state that represents the running thread \<open>c\<close> and the
  ready threads \<open>q\<close>, enqueuing a thread outside the ring appends it; yielding runs the head of \<open>q\<close>, puts
  \<open>c\<close> at the end and counts one context switch; yielding with nobody ready is refused and changes
  nothing. Initialisation represents the boot thread alone.\<close>

theorem sched_ops_refine_queue:
  assumes "sched_rep (s, h) c q"
  shows "(t \<notin> set (c # q) \<longrightarrow>
            (\<exists>s' h'. mcsos_sched_enqueue (Some s) (Some t) h = (MCSOS_SCHED_OK, Some s', h') \<and>
                     sched_rep (s', h') c (q @ [t]))) \<and>
         (case q of
            [] \<Rightarrow> mcsos_sched_yield (Some s) h = (MCSOS_SCHED_ERR, Some s, h)
          | n # q' \<Rightarrow> \<exists>s' h'. mcsos_sched_yield (Some s) h = (MCSOS_SCHED_OK, Some s', h') \<and>
                      sched_rep (s', h') n (q' @ [c]) \<and> context_switches s' = context_switches s + 1) \<and>
         (\<exists>s' h'. mcsos_scheduler_init (Some s) (Some b) h = (MCSOS_SCHED_OK, Some s', h') \<and>
                  sched_rep (s', h') b [])"
proof (intro conjI impI)
  show "case q of
            [] \<Rightarrow> mcsos_sched_yield (Some s) h = (MCSOS_SCHED_ERR, Some s, h)
          | n # q' \<Rightarrow> \<exists>s' h'. mcsos_sched_yield (Some s) h = (MCSOS_SCHED_OK, Some s', h') \<and>
                      sched_rep (s', h') n (q' @ [c]) \<and> context_switches s' = context_switches s + 1"
  proof (cases q)
    case Nil
    with assms show ?thesis by (simp add: mcsos_sched_yield_def sched_rep_def)
  next
    case (Cons n q')
    with assms show ?thesis using yield_rep [of s h c n q'] by simp
  qed
qed (use assms in \<open>simp_all add: enqueue_rep init_rep\<close>)

theorem sched_ops_refine_queue_witness:
  "\<exists>s' h'. mcsos_sched_yield (Some (fst sched_two)) (snd sched_two) = (MCSOS_SCHED_OK, Some s', h') \<and>
           sched_rep (s', h') 1 [2, 0]"
  using sched_ops_refine_queue [of "fst sched_two" "snd sched_two" 0 "[1, 2]" 3 0] sched_two_rep
  by auto

text \<open>C19: Round-robin fairness: after \<open>k\<close> yields the running thread is the one at position \<open>k\<close> of the ring
  of running and ready threads, so every ready thread runs within as many yields as there are
  ready threads, and again in every later round.\<close>

theorem sched_round_robin:
  assumes "sched_rep sys c q" and "q \<noteq> []"
  shows "current (fst ((yield_step ^^ k) sys)) = Some ((c # q) ! (k mod Suc (length q)))"
proof -
  from sched.fair [OF assms, of k] obtain q'
    where "sched_rep ((yield_step ^^ k) sys) ((c # q) ! (k mod Suc (length q))) q'" by blast
  then show ?thesis by (auto simp: sched_rep_def split: prod.splits)
qed

theorem sched_round_robin_witness: "current (fst ((yield_step ^^ 5) sched_two)) = Some 2"
  using sched_round_robin [OF sched_two_rep, of 5] by simp

text \<open>The self-check returns and accepts: on every state that represents a queue, the walk of
  \<open>mcsos_sched_validate\<close> ends and the answer is \<open>MCSOS_SCHED_OK\<close>; the reported count is the length of the
  queue modulo \<open>2^32\<close>.\<close>

theorem sched_validate_accepts:
  assumes "sched_rep (s, h) c q"
  shows "mcsos_sched_validate (Some s) h = Some MCSOS_SCHED_OK \<and>
         mcsos_sched_ready_count (Some s) = of_nat (length q)"
proof -
  have "validate_walk h (ready_head s) 0 = Some (Inr (of_nat (length q)))"
    using assms walk_chain [of h "ready_head s" q 0] by (simp add: sched_rep_def)
  with assms show ?thesis
    by (simp add: mcsos_sched_validate_def mcsos_sched_ready_count_def sched_rep_def ucast_word_of_nat)
qed

theorem sched_validate_accepts_witness:
  "mcsos_sched_validate (Some (fst sched_two)) (snd sched_two) = Some MCSOS_SCHED_OK"
  using sched_validate_accepts [of "fst sched_two" "snd sched_two" 0 "[1, 2]"] sched_two_rep by simp

text \<open>Enqueuing a ready thread a second time.\<close>

lemma enqueue_queued:
  assumes r: "sched_rep (s, h) c (xs @ t # ys)" and e: "mcsos_sched_enqueue (Some s) (Some t) h = (st, Some s', h')"
  shows "st = MCSOS_SCHED_OK" "path h' (ready_head s') xs (Some t)" "t_next (h' t) = (if ys = [] then Some t else None)"
    "\<forall>a \<in> set (xs @ [t]). t_state (h' a) = MCSOS_THREAD_READY"
proof -
  have d: "distinct (xs @ t # ys)" and p: "chain h (ready_head s) (xs @ t # ys)"
    and ready: "\<forall>a \<in> set (xs @ t # ys). t_state (h a) = MCSOS_THREAD_READY"
    and tl: "ready_tail s = Some (last (t # ys))"
    using r by (auto simp: sched_rep_def)
  then have l: "last (t # ys) \<notin> set xs" "t \<notin> set xs" "ys \<noteq> [] \<longrightarrow> last (t # ys) \<noteq> t" by (auto dest: last_in_set)
  have e': "st = MCSOS_SCHED_OK" "ready_head s' = ready_head s"
      "h' = (h(t := (h t)\<lparr>t_state := MCSOS_THREAD_READY, t_next := None\<rparr>))(last (t # ys) :=
         ((h(t := (h t)\<lparr>t_state := MCSOS_THREAD_READY, t_next := None\<rparr>)) (last (t # ys)))\<lparr>t_next := Some t\<rparr>)"
    using e tl by (auto simp: mcsos_sched_enqueue_def Let_def)
  then show "st = MCSOS_SCHED_OK" by simp
  have "path h (ready_head s) xs (Some t)" using p chain_path by fastforce
  moreover have "t_next (h' a) = t_next (h a)" if "a \<in> set xs" for a using that l unfolding e'(3) by auto
  ultimately show "path h' (ready_head s') xs (Some t)" using path_frame [of xs h' h] e'(2) by simp
  show "t_next (h' t) = (if ys = [] then Some t else None)" using l unfolding e'(3) by auto
  show "\<forall>a \<in> set (xs @ [t]). t_state (h' a) = MCSOS_THREAD_READY" using ready unfolding e'(3) by auto
qed

text \<open>C22: What enqueuing a thread that is already in the ready queue does. The code accepts it. At the tail of the queue, of any
  length, the thread is linked to itself: from there on the list never ends, and \<open>mcsos_sched_validate\<close> never returns.
  Before the tail the list is cut behind the thread: all threads that were queued behind it are lost.\<close>

theorem sched_double_enqueue_hangs:
  assumes "sched_rep (s, h) c (xs @ t # ys)" and "mcsos_sched_enqueue (Some s) (Some t) h = (st, Some s', h')"
  shows "st = MCSOS_SCHED_OK \<and>
    (if ys = [] then (\<forall>n \<ge> length xs. next_link h' n (ready_head s') = Some t) \<and> mcsos_sched_validate (Some s') h' = None
     else chain h' (ready_head s') (xs @ [t]))"
proof -
  note q = enqueue_queued [OF assms]
  show ?thesis
  proof (cases "ys = []")
    case True
    have "next_link h' n (ready_head s') = Some t" if "length xs \<le> n" for n
      using next_link_path [OF q(2)] next_link_self [of h' t "n - length xs"] q(3) True next_link_add [of h' "length xs" "n - length xs"] that
      by simp
    moreover have "validate_walk h' (ready_head s') 0 = None"
      using validate_path [OF q(2)] q(3,4) True walk_self_loop [of h' t] by simp
    ultimately show ?thesis using q(1) True by (simp add: mcsos_sched_validate_def)
  next
    case False
    then show ?thesis using q(1-3) path_chain [of h' "ready_head s'" xs t "[]"] by simp
  qed
qed

theorem sched_double_enqueue_hangs_witness:
  "\<exists>s' h'. mcsos_sched_enqueue (Some (fst sched_two)) (Some 2) (snd sched_two) = (MCSOS_SCHED_OK, Some s', h') \<and>
     mcsos_sched_validate (Some s') h' = None"
proof -
  obtain st s' h' where e: "mcsos_sched_enqueue (Some (fst sched_two)) (Some 2) (snd sched_two) = (st, Some s', h')"
    by (cases "ready_tail (fst sched_two)") (auto simp: mcsos_sched_enqueue_def Let_def)
  have "sched_rep (fst sched_two, snd sched_two) 0 ([1] @ 2 # [])" using sched_two_rep by simp
  from sched_double_enqueue_hangs [OF this e] e show ?thesis by simp
qed

end
