(* ===== verification/Journal.thy ===== *)
theory Journal
  imports MCS_Prelude
begin

text \<open>
  \<open>kernel/fs/mcsfs1j/m16_mcsfs_journal.c\<close>: the block device with fault injection, the write-ahead
  journal (commit and recovery), and the file system MCSFS1J on top of it.

  A C struct that overlays a disk block is the block's bytes with accessors for its fields, at the
  offsets the compiler gives them (all fields are naturally aligned). A local block buffer that the
  code does not initialise is a zero buffer here; it is always overwritten before it is read. A power
  loss is the fault injection of the code itself: after \<open>fail_after\<close> more writes every write fails, and
  recovery runs on what is on the disk then. A block write is atomic, as in the code.
\<close>

section \<open>Layout\<close>

definition M16_BLOCK_SIZE :: nat where [mcs_consts]: "M16_BLOCK_SIZE = 512"
definition M16_MAX_BLOCKS :: u32 where [mcs_consts]: "M16_MAX_BLOCKS = 128"
definition M16_MAX_INODES :: u32 where [mcs_consts]: "M16_MAX_INODES = 16"
definition M16_MAX_NAME :: nat where [mcs_consts]: "M16_MAX_NAME = 32"
definition M16_MAGIC :: u64 where [mcs_consts]: "M16_MAGIC = 0x4d43534631564a31"
definition M16_JMAGIC :: u64 where [mcs_consts]: "M16_JMAGIC = 0x4d43534a524e4c31"
definition M16_VERSION :: u32 where [mcs_consts]: "M16_VERSION = 1"
definition M16_J_EMPTY :: u32 where [mcs_consts]: "M16_J_EMPTY = 0"
definition M16_J_COMMITTED :: u32 where [mcs_consts]: "M16_J_COMMITTED = 2"
definition M16_JOURNAL_MAX_RECORDS :: u32 where [mcs_consts]: "M16_JOURNAL_MAX_RECORDS = 8"
definition M16_JOURNAL_START :: u32 where [mcs_consts]: "M16_JOURNAL_START = 1"
definition M16_JOURNAL_BLOCKS :: u32 where
  [mcs_consts]: "M16_JOURNAL_BLOCKS = 1 + (2 * M16_JOURNAL_MAX_RECORDS)"
definition M16_INODE_BITMAP_LBA :: u32 where
  [mcs_consts]: "M16_INODE_BITMAP_LBA = M16_JOURNAL_START + M16_JOURNAL_BLOCKS"
definition M16_BLOCK_BITMAP_LBA :: u32 where
  [mcs_consts]: "M16_BLOCK_BITMAP_LBA = M16_INODE_BITMAP_LBA + 1"
definition M16_INODE_TABLE_LBA :: u32 where
  [mcs_consts]: "M16_INODE_TABLE_LBA = M16_BLOCK_BITMAP_LBA + 1"
definition M16_INODE_TABLE_BLOCKS :: u32 where [mcs_consts]: "M16_INODE_TABLE_BLOCKS = 4"
definition M16_ROOT_DIR_LBA :: u32 where
  [mcs_consts]: "M16_ROOT_DIR_LBA = M16_INODE_TABLE_LBA + M16_INODE_TABLE_BLOCKS"
definition M16_DATA_START_LBA :: u32 where
  [mcs_consts]: "M16_DATA_START_LBA = M16_ROOT_DIR_LBA + 1"

datatype m16_status =
  M16_E_OK | M16_E_INVAL | M16_E_IO | M16_E_NOSPC | M16_E_EXISTS | M16_E_NOENT | M16_E_CORRUPT | M16_E_TOOLONG

record m16_blockdev =
  dev_blocks :: "bytes list"
  dev_total_blocks :: u32
  dev_writes :: u64
  dev_fail_after :: int

record m16_jrec =
  rec_target_lba :: u32
  rec_payload :: bytes

record m16_tx =
  tx_count :: u32
  tx_rec :: "m16_jrec list"

text \<open>Field offsets of \<open>struct m16_super\<close>, \<open>m16_journal_header\<close>, \<open>m16_journal_desc\<close>; sizes and offsets of
  \<open>struct m16_inode\<close> in the inode table and of \<open>struct m16_dirent\<close> in a directory block.\<close>

definition sb_magic :: "bytes \<Rightarrow> u64" where "sb_magic b = rd64 b 0"
definition sb_version :: "bytes \<Rightarrow> u32" where "sb_version b = rd32 b 8"
definition sb_block_size :: "bytes \<Rightarrow> u32" where "sb_block_size b = rd32 b 12"
definition sb_root_dir_lba :: "bytes \<Rightarrow> u32" where "sb_root_dir_lba b = rd32 b 44"
definition sb_data_start_lba :: "bytes \<Rightarrow> u32" where "sb_data_start_lba b = rd32 b 48"
definition sb_clean_generation :: "bytes \<Rightarrow> u32" where "sb_clean_generation b = rd32 b 52"

definition h_magic :: "bytes \<Rightarrow> u64" where "h_magic b = rd64 b 0"
definition h_version :: "bytes \<Rightarrow> u32" where "h_version b = rd32 b 8"
definition h_state :: "bytes \<Rightarrow> u32" where "h_state b = rd32 b 12"
definition h_count :: "bytes \<Rightarrow> u32" where "h_count b = rd32 b 20"
definition h_header_checksum :: "bytes \<Rightarrow> u32" where "h_header_checksum b = rd32 b 24"

definition d_magic :: "bytes \<Rightarrow> u64" where "d_magic b = rd64 b 0"
definition d_target_lba :: "bytes \<Rightarrow> u32" where "d_target_lba b = rd32 b 8"
definition d_payload_checksum :: "bytes \<Rightarrow> u32" where "d_payload_checksum b = rd32 b 12"

definition ino_used :: "bytes \<Rightarrow> nat \<Rightarrow> u32" where "ino_used t i = rd32 t (128 * i)"
definition ino_kind :: "bytes \<Rightarrow> nat \<Rightarrow> u32" where "ino_kind t i = rd32 t (128 * i + 4)"
definition ino_size :: "bytes \<Rightarrow> nat \<Rightarrow> u32" where "ino_size t i = rd32 t (128 * i + 8)"
definition ino_direct0 :: "bytes \<Rightarrow> nat \<Rightarrow> u32" where "ino_direct0 t i = rd32 t (128 * i + 12)"

definition dir_used :: "bytes \<Rightarrow> nat \<Rightarrow> u32" where "dir_used b i = rd32 b (40 * i)"
definition dir_ino :: "bytes \<Rightarrow> nat \<Rightarrow> u32" where "dir_ino b i = rd32 b (40 * i + 4)"
definition dir_name :: "bytes \<Rightarrow> nat \<Rightarrow> bytes" where "dir_name b i = slice (40 * i + 8) 32 b"

section \<open>Device\<close>

definition m16_zero :: "bytes \<Rightarrow> nat \<Rightarrow> nat \<Rightarrow> bytes" where
  "m16_zero ptr off n = fill_loop off ptr 0 n"

definition m16_copy :: "bytes \<Rightarrow> nat \<Rightarrow> bytes \<Rightarrow> nat \<Rightarrow> nat \<Rightarrow> bytes" where
  "m16_copy dst doff src soff n = copy_loop doff dst soff src n"

definition m16_strlen_bounded :: "bytes \<Rightarrow> nat \<Rightarrow> nat" where
  "m16_strlen_bounded s mx = strnlen s mx"

definition m16_streq :: "bytes \<Rightarrow> bytes \<Rightarrow> bool" where
  "m16_streq a b =
     (case first_index (\<lambda>i. a ! i \<noteq> b ! i \<or> a ! i = 0) 0 M16_MAX_NAME of
        Some i \<Rightarrow> a ! i = b ! i | None \<Rightarrow> True)"

definition m16_checksum :: "bytes \<Rightarrow> nat \<Rightarrow> u32" where
  "m16_checksum p n = fold (\<lambda>b h. (h XOR ucast b) * 16777619) (take n p) 2166136261"

definition m16_valid_lba :: "m16_blockdev option \<Rightarrow> u32 \<Rightarrow> bool" where
  "m16_valid_lba dev lba =
     (case dev of None \<Rightarrow> False | Some d \<Rightarrow> lba < dev_total_blocks d \<and> lba < M16_MAX_BLOCKS)"

text \<open>The destination is a buffer with the offset of the first byte written.\<close>

definition m16_read_block ::
  "m16_blockdev option \<Rightarrow> u32 \<Rightarrow> bytes option \<Rightarrow> nat \<Rightarrow> m16_status \<times> bytes option" where
  "m16_read_block dev lba out off =
     (if dev = None \<or> out = None \<or> \<not> m16_valid_lba dev lba then (M16_E_INVAL, out)
      else (M16_E_OK, Some (m16_copy (the out) off (dev_blocks (the dev) ! unat lba) 0 M16_BLOCK_SIZE)))"

definition m16_write_block ::
  "m16_blockdev option \<Rightarrow> u32 \<Rightarrow> bytes option \<Rightarrow> m16_status \<times> m16_blockdev option" where
  "m16_write_block dev lba inp =
     (if dev = None \<or> inp = None \<or> \<not> m16_valid_lba dev lba then (M16_E_INVAL, dev)
      else
        let d = the dev in
        if dev_fail_after d = 0 then (M16_E_IO, dev)
        else
          let d1 = (if 0 < dev_fail_after d then d\<lparr>dev_fail_after := dev_fail_after d - 1\<rparr> else d) in
          (M16_E_OK,
           Some (d1\<lparr>dev_blocks := (dev_blocks d1)
                    [unat lba := m16_copy (dev_blocks d1 ! unat lba) 0 (the inp) 0 M16_BLOCK_SIZE],
                  dev_writes := dev_writes d1 + 1\<rparr>)))"

definition m16_dev_init :: "m16_blockdev option \<Rightarrow> m16_blockdev option" where
  "m16_dev_init dev =
     (case dev of
        None \<Rightarrow> None
      | Some d \<Rightarrow> Some (d\<lparr>dev_blocks := replicate (unat M16_MAX_BLOCKS) (replicate M16_BLOCK_SIZE 0),
                         dev_total_blocks := M16_MAX_BLOCKS, dev_writes := 0, dev_fail_after := -1\<rparr>))"

definition m16_bit_mask :: "u32 \<Rightarrow> u8" where
  "m16_bit_mask k = push_bit (unat (k mod 8)) 1"

definition m16_bitmap_set :: "bytes \<Rightarrow> u32 \<Rightarrow> bytes" where
  "m16_bitmap_set bm k = (let i = unat (k div 8) in bm[i := (bm ! i) OR m16_bit_mask k])"

definition m16_bitmap_get :: "bytes \<Rightarrow> u32 \<Rightarrow> bool" where
  "m16_bitmap_get bm k = ((bm ! unat (k div 8)) AND m16_bit_mask k \<noteq> 0)"

text \<open>\<open>if (rc != M16_E_OK) return rc;\<close> between two steps.\<close>

definition on_ok :: "m16_status \<times> 's \<Rightarrow> ('s \<Rightarrow> m16_status \<times> 's) \<Rightarrow> m16_status \<times> 's" where
  "on_ok r k = (case r of (rc, s) \<Rightarrow> if rc \<noteq> M16_E_OK then (rc, s) else k s)"

text \<open>Read a block into a fresh local buffer, then go on or return the error.\<close>

definition with_block ::
  "m16_blockdev option \<Rightarrow> u32 \<Rightarrow> (bytes \<Rightarrow> m16_status \<times> m16_blockdev option) \<Rightarrow>
   m16_status \<times> m16_blockdev option" where
  "with_block dev lba k =
     (case m16_read_block dev lba (Some (replicate M16_BLOCK_SIZE 0)) 0 of
        (rc, out) \<Rightarrow> if rc \<noteq> M16_E_OK then (rc, dev) else k (the out))"

section \<open>Transactions and the journal\<close>

definition m16_tx_zero :: m16_tx where
  "m16_tx_zero = \<lparr>tx_count = 0, tx_rec = replicate 8 \<lparr>rec_target_lba = 0, rec_payload = replicate 512 0\<rparr>\<rparr>"

definition tx_put :: "m16_tx \<Rightarrow> u32 \<Rightarrow> bytes \<Rightarrow> nat \<Rightarrow> m16_tx" where
  "tx_put tx lba src soff =
     (let i = unat (tx_count tx) in
      tx\<lparr>tx_rec := (tx_rec tx)[i := \<lparr>rec_target_lba = lba,
           rec_payload = m16_copy (rec_payload (tx_rec tx ! i)) 0 src soff M16_BLOCK_SIZE\<rparr>],
         tx_count := tx_count tx + 1\<rparr>)"

definition m16_tx_add :: "m16_tx option \<Rightarrow> u32 \<Rightarrow> bytes option \<Rightarrow> m16_status \<times> m16_tx option" where
  "m16_tx_add tx lba payload =
     (if tx = None \<or> payload = None \<or> M16_JOURNAL_MAX_RECORDS \<le> tx_count (the tx) then (M16_E_NOSPC, tx)
      else (M16_E_OK, Some (tx_put (the tx) lba (the payload) 0)))"

fun store_loop :: "m16_tx \<Rightarrow> bytes \<Rightarrow> nat \<Rightarrow> nat \<Rightarrow> m16_tx" where
  "store_loop tx raw i 0 = tx"
| "store_loop tx raw i (Suc n) =
     store_loop (tx_put tx (M16_INODE_TABLE_LBA + of_nat i) raw (i * M16_BLOCK_SIZE)) raw (Suc i) n"

definition m16_store_inode_table :: "m16_tx option \<Rightarrow> bytes option \<Rightarrow> m16_status \<times> m16_tx option" where
  "m16_store_inode_table tx inodes =
     (if tx = None \<or> inodes = None \<or>
         M16_JOURNAL_MAX_RECORDS < tx_count (the tx) + M16_INODE_TABLE_BLOCKS then (M16_E_NOSPC, tx)
      else (M16_E_OK, Some (store_loop (the tx) (the inodes) 0 (unat M16_INODE_TABLE_BLOCKS))))"

definition m16_header_checksum :: "bytes \<Rightarrow> u32" where
  "m16_header_checksum h = m16_checksum (wr32 h 24 0) M16_BLOCK_SIZE"

definition m16_journal_clear :: "m16_blockdev option \<Rightarrow> m16_status \<times> m16_blockdev option" where
  "m16_journal_clear dev = m16_write_block dev M16_JOURNAL_START (Some (replicate M16_BLOCK_SIZE 0))"

definition journal_desc :: "m16_jrec \<Rightarrow> bytes" where
  "journal_desc r =
     (let d0 = wr64 (replicate M16_BLOCK_SIZE 0) 0 M16_JMAGIC;
          d1 = wr32 d0 8 (rec_target_lba r)
      in wr32 d1 12 (m16_checksum (rec_payload r) M16_BLOCK_SIZE))"

definition journal_header :: "u32 \<Rightarrow> u32 \<Rightarrow> bytes" where
  "journal_header sequence count =
     (let h0 = wr64 (replicate M16_BLOCK_SIZE 0) 0 M16_JMAGIC;
          h1 = wr32 h0 8 M16_VERSION;
          h2 = wr32 h1 12 M16_J_COMMITTED;
          h3 = wr32 h2 16 sequence;
          h4 = wr32 h3 20 count
      in wr32 h4 24 (m16_header_checksum h4))"

definition desc_lba :: "u32 \<Rightarrow> u32" where
  "desc_lba i = M16_JOURNAL_START + 1 + (i * 2)"

fun log_records :: "m16_blockdev option \<Rightarrow> m16_jrec list \<Rightarrow> u32 \<Rightarrow> m16_status \<times> m16_blockdev option" where
  "log_records dev [] i = (M16_E_OK, dev)"
| "log_records dev (r # rs) i =
     on_ok (m16_write_block dev (desc_lba i) (Some (journal_desc r)))
       (\<lambda>dev. on_ok (m16_write_block dev (desc_lba i + 1) (Some (rec_payload r)))
         (\<lambda>dev. log_records dev rs (i + 1)))"

fun home_records :: "m16_blockdev option \<Rightarrow> m16_jrec list \<Rightarrow> m16_status \<times> m16_blockdev option" where
  "home_records dev [] = (M16_E_OK, dev)"
| "home_records dev (r # rs) =
     on_ok (m16_write_block dev (rec_target_lba r) (Some (rec_payload r))) (\<lambda>dev. home_records dev rs)"

definition m16_journal_commit ::
  "m16_blockdev option \<Rightarrow> m16_tx option \<Rightarrow> u32 \<Rightarrow> bool \<Rightarrow> m16_status \<times> m16_blockdev option" where
  "m16_journal_commit dev tx sequence stop_after_commit_record =
     (if dev = None \<or> tx = None \<or> M16_JOURNAL_MAX_RECORDS < tx_count (the tx) then (M16_E_INVAL, dev)
      else
        let recs = take (unat (tx_count (the tx))) (tx_rec (the tx)) in
        on_ok (m16_journal_clear dev)
          (\<lambda>dev. on_ok (log_records dev recs 0)
            (\<lambda>dev. on_ok (m16_write_block dev M16_JOURNAL_START
                            (Some (journal_header sequence (tx_count (the tx)))))
              (\<lambda>dev. if stop_after_commit_record then (M16_E_OK, dev)
                else on_ok (home_records dev recs) (\<lambda>dev. m16_journal_clear dev)))))"

text \<open>The replay loop: \<open>n\<close> records remain, the next one is \<open>i\<close>.\<close>

fun replay :: "m16_blockdev option \<Rightarrow> nat \<Rightarrow> u32 \<Rightarrow> m16_status \<times> m16_blockdev option" where
  "replay dev 0 i = (M16_E_OK, dev)"
| "replay dev (Suc n) i =
     with_block dev (desc_lba i) (\<lambda>d.
       if d_magic d \<noteq> M16_JMAGIC \<or> \<not> m16_valid_lba dev (d_target_lba d) then (M16_E_CORRUPT, dev)
       else with_block dev (desc_lba i + 1) (\<lambda>payload.
         if m16_checksum payload M16_BLOCK_SIZE \<noteq> d_payload_checksum d then (M16_E_CORRUPT, dev)
         else on_ok (m16_write_block dev (d_target_lba d) (Some payload)) (\<lambda>dev. replay dev n (i + 1))))"

definition m16_journal_recover :: "m16_blockdev option \<Rightarrow> m16_status \<times> m16_blockdev option" where
  "m16_journal_recover dev =
     (if dev = None then (M16_E_INVAL, dev)
      else with_block dev M16_JOURNAL_START (\<lambda>h.
        if h_magic h = 0 \<and> h_state h = M16_J_EMPTY then (M16_E_OK, dev)
        else if h_magic h \<noteq> M16_JMAGIC \<or> h_version h \<noteq> M16_VERSION \<or> h_state h \<noteq> M16_J_COMMITTED \<or>
          M16_JOURNAL_MAX_RECORDS < h_count h then (M16_E_CORRUPT, dev)
        else if m16_header_checksum h \<noteq> h_header_checksum h then (M16_E_CORRUPT, dev)
        else on_ok (replay dev (unat (h_count h)) 0) (\<lambda>dev. m16_journal_clear dev)))"

section \<open>Abstraction and phases\<close>

text \<open>The device geometry; the blocks outside the journal; a transaction as an update of them.\<close>

definition dev_ok :: "m16_blockdev \<Rightarrow> bool" where
  "dev_ok d \<longleftrightarrow> length (dev_blocks d) = 128 \<and> (\<forall>b \<in> set (dev_blocks d). length b = 512) \<and>
     18 \<le> unat (dev_total_blocks d)"

definition in_journal :: "nat \<Rightarrow> bool" where
  "in_journal k \<longleftrightarrow> 1 \<le> k \<and> k \<le> 17"

definition home :: "m16_blockdev \<Rightarrow> nat \<Rightarrow> bytes" where
  "home d = (\<lambda>k. if in_journal k then [] else dev_blocks d ! k)"

definition apply_records :: "m16_jrec list \<Rightarrow> (nat \<Rightarrow> bytes) \<Rightarrow> nat \<Rightarrow> bytes" where
  "apply_records rs h = fold (\<lambda>r h. h(unat (rec_target_lba r) := rec_payload r)) rs h"

definition rec_legal :: "m16_blockdev \<Rightarrow> m16_jrec \<Rightarrow> bool" where
  "rec_legal d r \<longleftrightarrow> m16_valid_lba (Some d) (rec_target_lba r) \<and> \<not> in_journal (unat (rec_target_lba r)) \<and>
     length (rec_payload r) = 512"

definition j_empty :: "m16_blockdev \<Rightarrow> bool" where
  "j_empty d \<longleftrightarrow> h_magic (dev_blocks d ! 1) = 0 \<and> h_state (dev_blocks d ! 1) = M16_J_EMPTY"

definition logged :: "m16_blockdev \<Rightarrow> m16_jrec list \<Rightarrow> nat \<Rightarrow> bool" where
  "logged d rs i \<longleftrightarrow> (\<forall>j < length rs. dev_blocks d ! (2 + 2 * (i + j)) = journal_desc (rs ! j) \<and>
     dev_blocks d ! (3 + 2 * (i + j)) = rec_payload (rs ! j))"

definition j_holds :: "m16_blockdev \<Rightarrow> m16_jrec list \<Rightarrow> bool" where
  "j_holds d rs \<longleftrightarrow> (\<exists>sequence. dev_blocks d ! 1 = journal_header sequence (of_nat (length rs))) \<and> logged d rs 0"

definition put_block :: "m16_blockdev \<Rightarrow> u32 \<Rightarrow> bytes \<Rightarrow> m16_blockdev" where
  "put_block d lba b = d\<lparr>dev_blocks := (dev_blocks d)[unat lba := b], dev_writes := dev_writes d + 1,
     dev_fail_after := (if 0 < dev_fail_after d then dev_fail_after d - 1 else dev_fail_after d)\<rparr>"

text \<open>Power losses during recovery: each number is how many writes the attempt got done.\<close>

fun reboots :: "int list \<Rightarrow> m16_blockdev \<Rightarrow> m16_blockdev" where
  "reboots [] d = d"
| "reboots (k # ks) d = reboots ks (the (snd (m16_journal_recover (Some (d\<lparr>dev_fail_after := k\<rparr>)))))"

section \<open>Lemmas on the device and the journal records\<close>

lemma nth_block_length: "dev_ok d \<Longrightarrow> k < 128 \<Longrightarrow> length (dev_blocks d ! k) = 512"
  by (simp add: dev_ok_def)

lemma valid_lba_128: "m16_valid_lba (Some d) lba \<Longrightarrow> unat lba < 128"
  by (simp add: m16_valid_lba_def mcs_consts word_less_nat_alt)

lemma write_block_eq:
  assumes "dev_ok d" "m16_valid_lba (Some d) lba" "length b = 512"
  shows "m16_write_block (Some d) lba (Some b) =
    (if dev_fail_after d = 0 then (M16_E_IO, Some d) else (M16_E_OK, Some (put_block d lba b)))"
proof -
  have "copy_loop 0 (dev_blocks d ! unat lba) 0 b 512 = b"
    using assms nth_block_length [OF assms(1) valid_lba_128 [OF assms(2)]] by (simp add: copy_loop_whole)
  then show ?thesis
    using assms(2) by (simp add: m16_write_block_def Let_def put_block_def m16_copy_def M16_BLOCK_SIZE_def)
qed

lemma with_block_eq:
  assumes "dev_ok d" "m16_valid_lba (Some d) lba"
  shows "with_block (Some d) lba k = k (dev_blocks d ! unat lba)"
  using assms nth_block_length [OF assms(1) valid_lba_128 [OF assms(2)]]
  by (simp add: with_block_def m16_read_block_def m16_copy_def M16_BLOCK_SIZE_def copy_loop_whole)

lemma put_block_facts [simp]:
  "dev_total_blocks (put_block d lba b) = dev_total_blocks d"
  "m16_valid_lba (Some (put_block d lba b)) = m16_valid_lba (Some d)"
  "dev_fail_after (put_block d lba b) < 0 \<longleftrightarrow> dev_fail_after d < 0"
  "rec_legal (put_block d lba b) = rec_legal d"
  "dev_blocks (put_block d lba b) = (dev_blocks d)[unat lba := b]"
  by (auto simp: put_block_def m16_valid_lba_def rec_legal_def fun_eq_iff)

lemma put_block_ok: "dev_ok d \<Longrightarrow> length b = 512 \<Longrightarrow> dev_ok (put_block d lba b)"
  by (auto simp: dev_ok_def dest!: set_update_subset_insert [THEN subsetD])

lemma home_put_journal: "in_journal (unat lba) \<Longrightarrow> home (put_block d lba b) = home d"
  by (auto simp: home_def fun_eq_iff) (metis nth_list_update_neq)

lemma home_put_home:
  "dev_ok d \<Longrightarrow> unat lba < 128 \<Longrightarrow> \<not> in_journal (unat lba) \<Longrightarrow> home (put_block d lba b) = (home d)(unat lba := b)"
  by (auto simp: home_def fun_eq_iff dev_ok_def)

lemma apply_records_simps [simp]:
  "apply_records [] h = h"
  "apply_records (r # rs) h = apply_records rs (h(unat (rec_target_lba r) := rec_payload r))"
  by (simp_all add: apply_records_def)

text \<open>A block that the transaction overwrites may already have been written: the outcome is the same.\<close>

lemma apply_records_absorb:
  "k \<in> (\<lambda>r. unat (rec_target_lba r)) ` set rs \<Longrightarrow> apply_records rs (h(k := p)) = apply_records rs h"
proof (induction rs arbitrary: h)
  case (Cons r rs)
  show ?case
  proof (cases "k = unat (rec_target_lba r)")
    case False
    then have "h(k := p, unat (rec_target_lba r) := rec_payload r) =
        h(unat (rec_target_lba r) := rec_payload r, k := p)" by (rule fun_upd_twist)
    moreover have "k \<in> (\<lambda>r. unat (rec_target_lba r)) ` set rs" using Cons.prems False by auto
    ultimately show ?thesis using Cons.IH by (simp only: apply_records_simps)
  next
    case True
    then show ?thesis by (simp only: apply_records_simps fun_upd_upd)
  qed
qed simp

lemma desc_lba_unat: "unat i < 8 \<Longrightarrow> unat (desc_lba i) = 2 + 2 * unat i \<and> unat (desc_lba i + 1) = 3 + 2 * unat i"
  by (simp add: desc_lba_def mcs_consts unat_word_ariths)

lemma journal_lba_valid:
  assumes "dev_ok d" "unat lba \<le> 17"
  shows "m16_valid_lba (Some d) lba"
  using assms by (simp add: dev_ok_def m16_valid_lba_def mcs_consts word_less_nat_alt)

lemma journal_desc_fields:
  "length (journal_desc r) = 512" "d_magic (journal_desc r) = M16_JMAGIC"
  "d_target_lba (journal_desc r) = rec_target_lba r"
  "d_payload_checksum (journal_desc r) = m16_checksum (rec_payload r) 512"
  by (simp_all add: journal_desc_def Let_def M16_BLOCK_SIZE_def d_magic_def d_target_lba_def d_payload_checksum_def)

lemma wr32_wr32_same: "off + 4 \<le> length bs \<Longrightarrow> wr32 (wr32 bs off v) off w = wr32 bs off w"
  by (simp add: wr32_def patch_def)

lemma journal_header_fields:
  "length (journal_header sq c) = 512" "h_magic (journal_header sq c) = M16_JMAGIC"
  "h_version (journal_header sq c) = M16_VERSION" "h_state (journal_header sq c) = M16_J_COMMITTED"
  "h_count (journal_header sq c) = c"
  "m16_header_checksum (journal_header sq c) = h_header_checksum (journal_header sq c)"
  by (simp_all add: journal_header_def Let_def M16_BLOCK_SIZE_def h_magic_def h_version_def h_state_def
        h_count_def h_header_checksum_def m16_header_checksum_def wr32_wr32_same)

lemma on_ok_OK [simp]: "on_ok (M16_E_OK, s) k = k s"
  by (simp add: on_ok_def)

lemma on_ok_IO [simp]: "on_ok (M16_E_IO, s) k = (M16_E_IO, s)"
  by (simp add: on_ok_def)

text \<open>Logging: journal blocks only, and with every record in place if it got through.\<close>

text \<open>One log entry, its descriptor and its payload.\<close>

lemma log_entry_written:
  assumes d: "dev_ok d" and i: "unat i < 8" and p: "length (rec_payload r) = 512"
  defines "d1 \<equiv> put_block d (desc_lba i) (journal_desc r)"
  defines "d2 \<equiv> put_block d1 (desc_lba i + 1) (rec_payload r)"
  shows "dev_ok d1" "dev_ok d2" "home d1 = home d" "home d2 = home d"
    "dev_blocks d2 ! (2 + 2 * unat i) = journal_desc r" "dev_blocks d2 ! (3 + 2 * unat i) = rec_payload r"
    "\<And>k. k < 2 + 2 * unat i \<Longrightarrow> dev_blocks d2 ! k = dev_blocks d ! k \<and> dev_blocks d1 ! k = dev_blocks d ! k"
    "log_records (Some d) (r # rs) i =
      (if dev_fail_after d = 0 then (M16_E_IO, Some d) else if dev_fail_after d1 = 0 then (M16_E_IO, Some d1)
       else log_records (Some d2) rs (i + 1))"
proof -
  note u = desc_lba_unat [OF i]
  have j: "in_journal (unat (desc_lba i))" "in_journal (unat (desc_lba i + 1))" using u i by (auto simp: in_journal_def)
  show ok1: "dev_ok d1" unfolding d1_def using d journal_desc_fields(1) by (rule put_block_ok)
  show ok2: "dev_ok d2" unfolding d2_def using ok1 p by (rule put_block_ok)
  show "home d1 = home d" "home d2 = home d" using j by (simp_all add: d1_def d2_def home_put_journal)
  show "dev_blocks d2 ! (2 + 2 * unat i) = journal_desc r" "dev_blocks d2 ! (3 + 2 * unat i) = rec_payload r"
    "\<And>k. k < 2 + 2 * unat i \<Longrightarrow> dev_blocks d2 ! k = dev_blocks d ! k \<and> dev_blocks d1 ! k = dev_blocks d ! k"
    using u i d by (auto simp: d1_def d2_def dev_ok_def)
  have v: "m16_valid_lba (Some d) (desc_lba i)" "m16_valid_lba (Some d1) (desc_lba i + 1)"
    using u i d ok1 by (auto intro: journal_lba_valid)
  show "log_records (Some d) (r # rs) i =
      (if dev_fail_after d = 0 then (M16_E_IO, Some d) else if dev_fail_after d1 = 0 then (M16_E_IO, Some d1)
       else log_records (Some d2) rs (i + 1))"
    using write_block_eq [OF d v(1) journal_desc_fields(1)] write_block_eq [OF ok1 v(2) p]
    by (simp flip: d1_def d2_def)
qed

lemma logged_Cons:
  "logged d (r # rs) i \<longleftrightarrow> dev_blocks d ! (2 + 2 * i) = journal_desc r \<and> dev_blocks d ! (3 + 2 * i) = rec_payload r \<and> logged d rs (Suc i)"
  by (auto simp: logged_def less_Suc_eq_0_disj)

lemma log_records_run:
  assumes "dev_ok d" "unat i + length rs \<le> 8" "\<forall>r \<in> set rs. length (rec_payload r) = 512"
  shows "\<exists>rc d'. log_records (Some d) rs i = (rc, Some d') \<and> dev_ok d' \<and>
    dev_total_blocks d' = dev_total_blocks d \<and> home d' = home d \<and>
    (\<forall>k. k < 2 + 2 * unat i \<longrightarrow> dev_blocks d' ! k = dev_blocks d ! k) \<and>
    (rc = M16_E_OK \<or> rc = M16_E_IO) \<and> (rc = M16_E_OK \<longrightarrow> logged d' rs (unat i)) \<and>
    (dev_fail_after d < 0 \<longrightarrow> rc = M16_E_OK \<and> dev_fail_after d' < 0)"
  using assms
proof (induction rs arbitrary: d i)
  case Nil
  then show ?case by (simp add: logged_def)
next
  case (Cons r rs)
  have i: "unat i < 8" and p: "length (rec_payload r) = 512" using Cons.prems by auto
  let ?d1 = "put_block d (desc_lba i) (journal_desc r)"
  let ?d2 = "put_block ?d1 (desc_lba i + 1) (rec_payload r)"
  note e = log_entry_written [OF Cons.prems(1) i p]
  have si: "unat (i + 1) = Suc (unat i)" using i by (simp add: unat_word_ariths)
  show ?case
  proof (cases "dev_fail_after d = 0 \<or> dev_fail_after ?d1 = 0")
    case True
    then have nf: "\<not> dev_fail_after d < 0" by (auto simp: put_block_def split: if_splits)
    show ?thesis
    proof (cases "dev_fail_after d = 0")
      case True
      then show ?thesis using e(8) [of rs] Cons.prems(1) by (simp del: log_records.simps)
    next
      case False
      then show ?thesis using True nf e(8) [of rs] e(1,3) e(7) by (simp del: log_records.simps put_block_facts) (simp add: put_block_def)
    qed
  next
    case False
    obtain rc d' where
      ih: "log_records (Some ?d2) rs (i + 1) = (rc, Some d')" "dev_ok d'"
        "dev_total_blocks d' = dev_total_blocks ?d2" "home d' = home ?d2"
        "\<And>k. k < 2 + 2 * unat (i + 1) \<Longrightarrow> dev_blocks d' ! k = dev_blocks ?d2 ! k"
        "rc = M16_E_OK \<or> rc = M16_E_IO" "rc = M16_E_OK \<longrightarrow> logged d' rs (unat (i + 1))"
        "dev_fail_after ?d2 < 0 \<longrightarrow> rc = M16_E_OK \<and> dev_fail_after d' < 0"
      using Cons.IH [OF e(2), of "i + 1"] Cons.prems(2,3) si by auto
    have "logged d' (r # rs) (unat i)" if "rc = M16_E_OK"
      using ih(5) [of "2 + 2 * unat i"] ih(5) [of "3 + 2 * unat i"] ih(7) that e(5,6) si by (simp add: logged_Cons)
    then show ?thesis using e(4,7,8) False ih(1-4,6,8) ih(5) si by auto
  qed
qed

text \<open>Writing home: the journal is untouched, and whatever was written is absorbed by the transaction.\<close>

lemma home_records_run:
  assumes "dev_ok d" "\<forall>r \<in> set rs. rec_legal d r"
  shows "\<exists>rc d'. home_records (Some d) rs = (rc, Some d') \<and> dev_ok d' \<and>
    dev_total_blocks d' = dev_total_blocks d \<and> (\<forall>k. in_journal k \<longrightarrow> dev_blocks d' ! k = dev_blocks d ! k) \<and>
    (\<forall>all. set rs \<subseteq> set all \<longrightarrow> apply_records all (home d') = apply_records all (home d)) \<and>
    (rc = M16_E_OK \<or> rc = M16_E_IO) \<and> (rc = M16_E_OK \<longrightarrow> home d' = apply_records rs (home d)) \<and>
    (dev_fail_after d < 0 \<longrightarrow> rc = M16_E_OK \<and> dev_fail_after d' < 0)"
  using assms
proof (induction rs arbitrary: d)
  case Nil
  then show ?case by simp
next
  case (Cons r rs)
  have r: "m16_valid_lba (Some d) (rec_target_lba r)" "\<not> in_journal (unat (rec_target_lba r))"
    "length (rec_payload r) = 512" using Cons.prems(2) by (auto simp: rec_legal_def)
  note w = write_block_eq [OF Cons.prems(1) r(1,3)]
  let ?d1 = "put_block d (rec_target_lba r) (rec_payload r)"
  have ok1: "dev_ok ?d1" using Cons.prems(1) r(3) by (rule put_block_ok)
  have h1: "home ?d1 = (home d)(unat (rec_target_lba r) := rec_payload r)"
    using home_put_home [OF Cons.prems(1) valid_lba_128 [OF r(1)] r(2)] .
  show ?case
  proof (cases "dev_fail_after d = 0")
    case True
    then show ?thesis using w Cons.prems(1) by auto
  next
    case False
    obtain rc d' where
      ih: "home_records (Some ?d1) rs = (rc, Some d')" "dev_ok d'" "dev_total_blocks d' = dev_total_blocks ?d1"
        "\<And>k. in_journal k \<Longrightarrow> dev_blocks d' ! k = dev_blocks ?d1 ! k"
        "\<And>all. set rs \<subseteq> set all \<Longrightarrow> apply_records all (home d') = apply_records all (home ?d1)"
        "rc = M16_E_OK \<or> rc = M16_E_IO" "rc = M16_E_OK \<longrightarrow> home d' = apply_records rs (home ?d1)"
        "dev_fail_after ?d1 < 0 \<longrightarrow> rc = M16_E_OK \<and> dev_fail_after d' < 0"
      using Cons.IH [OF ok1] Cons.prems(2) by auto
    have "dev_blocks ?d1 ! k = dev_blocks d ! k" if "in_journal k" for k
      using that r(2) by (cases "k = unat (rec_target_lba r)") auto
    moreover have "apply_records all (home d') = apply_records all (home d)" if "set (r # rs) \<subseteq> set all" for all
    proof -
      have "unat (rec_target_lba r) \<in> (\<lambda>r. unat (rec_target_lba r)) ` set all" using that by auto
      then show ?thesis using ih(5) [of all] that h1 apply_records_absorb by simp
    qed
    moreover have "home_records (Some d) (r # rs) = (rc, Some d')" using w False ih(1) by simp
    ultimately show ?thesis using ih h1 by auto
  qed
qed

text \<open>Replaying the intact first records of a log is writing them home.\<close>

lemma replay_prefix:
  assumes "dev_ok d" "logged d rs (unat i)" "unat i + length rs \<le> 8" "\<forall>r \<in> set rs. rec_legal d r"
  shows "replay (Some d) (length rs + m) i = on_ok (home_records (Some d) rs) (\<lambda>dev. replay dev m (i + of_nat (length rs)))"
  using assms
proof (induction rs arbitrary: d i)
  case (Cons r rs)
  have i: "unat i < 8" using Cons.prems(3) by simp
  note u = desc_lba_unat [OF i]
  have r: "m16_valid_lba (Some d) (rec_target_lba r)" "\<not> in_journal (unat (rec_target_lba r))"
    "length (rec_payload r) = 512" using Cons.prems(4) by (auto simp: rec_legal_def)
  have v: "m16_valid_lba (Some d) (desc_lba i)" "m16_valid_lba (Some d) (desc_lba i + 1)"
    using u i Cons.prems(1) by (auto intro: journal_lba_valid)
  have at: "dev_blocks d ! unat (desc_lba i) = journal_desc r" "dev_blocks d ! unat (desc_lba i + 1) = rec_payload r"
    using Cons.prems(2) u by (auto simp: logged_def dest!: spec [of _ 0])
  have si: "unat (i + 1) = Suc (unat i)" using i by (simp add: unat_word_ariths)
  let ?d1 = "put_block d (rec_target_lba r) (rec_payload r)"
  have "logged ?d1 rs (unat (i + 1))"
    unfolding logged_def
  proof (intro allI impI)
    fix j assume j: "j < length rs"
    have "in_journal (2 + 2 * (unat (i + 1) + j))" "in_journal (3 + 2 * (unat (i + 1) + j))"
      using j Cons.prems(3) si by (auto simp: in_journal_def)
    then have "unat (rec_target_lba r) \<noteq> 2 + 2 * (unat (i + 1) + j)" "unat (rec_target_lba r) \<noteq> 3 + 2 * (unat (i + 1) + j)"
      using r(2) by metis+
    moreover have "dev_blocks d ! (2 + 2 * (unat i + Suc j)) = journal_desc (rs ! j) \<and>
        dev_blocks d ! (3 + 2 * (unat i + Suc j)) = rec_payload (rs ! j)"
      using Cons.prems(2) j by (auto simp: logged_def dest!: spec [of _ "Suc j"])
    ultimately show "dev_blocks ?d1 ! (2 + 2 * (unat (i + 1) + j)) = journal_desc (rs ! j) \<and>
        dev_blocks ?d1 ! (3 + 2 * (unat (i + 1) + j)) = rec_payload (rs ! j)"
      using si by simp
  qed
  then have "replay (Some ?d1) (length rs + m) (i + 1) =
      on_ok (home_records (Some ?d1) rs) (\<lambda>dev. replay dev m (i + of_nat (length (r # rs))))"
    using Cons.IH [of ?d1 "i + 1"] put_block_ok [OF Cons.prems(1) r(3)] Cons.prems(3,4) si by (auto simp: add.assoc)
  then show ?case
    using with_block_eq [OF Cons.prems(1) v(1)] with_block_eq [OF Cons.prems(1) v(2)] at r
      write_block_eq [OF Cons.prems(1) r(1,3)]
    by (simp add: journal_desc_fields M16_BLOCK_SIZE_def on_ok_def)
qed (simp add: on_ok_def)

lemma replay_home:
  "dev_ok d \<Longrightarrow> logged d rs (unat i) \<Longrightarrow> unat i + length rs \<le> 8 \<Longrightarrow> \<forall>r \<in> set rs. rec_legal d r \<Longrightarrow>
   replay (Some d) (length rs) i = home_records (Some d) rs"
  using replay_prefix [of d rs i 0] by (simp add: on_ok_def split: prod.splits)

lemma start_valid: "dev_ok d \<Longrightarrow> m16_valid_lba (Some d) M16_JOURNAL_START"
  by (rule journal_lba_valid) (simp_all add: M16_JOURNAL_START_def)

lemma recover_empty: "dev_ok d \<Longrightarrow> j_empty d \<Longrightarrow> m16_journal_recover (Some d) = (M16_E_OK, Some d)"
  using with_block_eq [OF _ start_valid]
  by (simp add: m16_journal_recover_def j_empty_def M16_JOURNAL_START_def)

lemma recover_holds:
  assumes "dev_ok d" "j_holds d rs" "length rs \<le> 8" "\<forall>r \<in> set rs. rec_legal d r"
  shows "m16_journal_recover (Some d) = on_ok (home_records (Some d) rs) m16_journal_clear"
proof -
  obtain sq where h: "dev_blocks d ! 1 = journal_header sq (of_nat (length rs))"
    using assms(2) by (auto simp: j_holds_def)
  have n: "unat (of_nat (length rs) :: u32) = length rs"
    using assms(3) by (subst unat_of_nat) simp
  then have "\<not> M16_JOURNAL_MAX_RECORDS < of_nat (length rs)"
    using assms(3) by (simp add: word_less_nat_alt M16_JOURNAL_MAX_RECORDS_def)
  moreover have "replay (Some d) (length rs) 0 = home_records (Some d) rs"
    using assms by (intro replay_home) (auto simp: j_holds_def)
  ultimately show ?thesis
    using with_block_eq [OF assms(1) start_valid [OF assms(1)]] h n
    by (simp add: m16_journal_recover_def M16_JOURNAL_START_def journal_header_fields)
       (simp add: M16_JMAGIC_def)
qed

text \<open>The three situations a power loss can leave: nothing happened, the transaction is committed but
  perhaps only partly written home, everything is done.\<close>

definition crash_phase :: "(nat \<Rightarrow> bytes) \<Rightarrow> m16_jrec list \<Rightarrow> bool \<Rightarrow> m16_blockdev \<Rightarrow> bool" where
  "crash_phase old rs done d \<longleftrightarrow>
     j_empty d \<and> home d = old \<and> \<not> done \<or>
     j_holds d rs \<and> apply_records rs (home d) = apply_records rs old \<or>
     j_empty d \<and> home d = apply_records rs old"

lemma clear_run:
  assumes "dev_ok d"
  shows "m16_journal_clear (Some d) = (if dev_fail_after d = 0 then (M16_E_IO, Some d)
      else (M16_E_OK, Some (put_block d M16_JOURNAL_START (replicate 512 0))))"
    "dev_ok (put_block d M16_JOURNAL_START (replicate 512 0))"
    "j_empty (put_block d M16_JOURNAL_START (replicate 512 0))"
    "home (put_block d M16_JOURNAL_START (replicate 512 0)) = home d"
proof -
  let ?d = "put_block d M16_JOURNAL_START (replicate 512 0)"
  show "m16_journal_clear (Some d) = (if dev_fail_after d = 0 then (M16_E_IO, Some d) else (M16_E_OK, Some ?d))"
    using write_block_eq [OF assms start_valid [OF assms], of "replicate 512 0"]
    by (simp add: m16_journal_clear_def M16_BLOCK_SIZE_def)
  show "dev_ok ?d" using assms by (simp add: put_block_ok)
  show "j_empty ?d" using assms
    by (simp add: j_empty_def h_magic_def h_state_def M16_J_EMPTY_def M16_JOURNAL_START_def dev_ok_def)
  show "home ?d = home d" by (simp add: home_put_journal in_journal_def M16_JOURNAL_START_def)
qed

lemma j_holds_cong:
  assumes "\<And>k. in_journal k \<Longrightarrow> dev_blocks d' ! k = dev_blocks d ! k" "length rs \<le> 8" "j_holds d rs"
  shows "j_holds d' rs"
proof -
  have "in_journal 1" by (simp add: in_journal_def)
  moreover have "in_journal (2 + 2 * j) \<and> in_journal (3 + 2 * j)" if "j < length rs" for j
    using that assms(2) by (auto simp: in_journal_def)
  ultimately show ?thesis using assms(1,3) by (auto simp: j_holds_def logged_def)
qed

text \<open>Finishing a committed transaction, by the commit itself or by recovery.\<close>

lemma finish_run:
  assumes "dev_ok d" "j_holds d rs" "length rs \<le> 8" "\<forall>r \<in> set rs. rec_legal d r"
    "apply_records rs (home d) = apply_records rs old"
  shows "\<exists>rc d'. on_ok (home_records (Some d) rs) m16_journal_clear = (rc, Some d') \<and> dev_ok d' \<and>
    dev_total_blocks d' = dev_total_blocks d \<and> crash_phase old rs True d' \<and>
    (rc = M16_E_OK \<longrightarrow> j_empty d' \<and> home d' = apply_records rs old) \<and>
    (dev_fail_after d < 0 \<longrightarrow> rc = M16_E_OK \<and> dev_fail_after d' < 0)"
proof -
  obtain rc d1 where
    h: "home_records (Some d) rs = (rc, Some d1)" "dev_ok d1" "dev_total_blocks d1 = dev_total_blocks d"
      "\<And>k. in_journal k \<Longrightarrow> dev_blocks d1 ! k = dev_blocks d ! k"
      "apply_records rs (home d1) = apply_records rs (home d)"
      "rc = M16_E_OK \<or> rc = M16_E_IO" "rc = M16_E_OK \<longrightarrow> home d1 = apply_records rs (home d)"
      "dev_fail_after d < 0 \<longrightarrow> rc = M16_E_OK \<and> dev_fail_after d1 < 0"
    using home_records_run [OF assms(1,4)] by auto
  have j: "j_holds d1 rs" using j_holds_cong [OF h(4) assms(3,2)] .
  then have ph: "crash_phase old rs True d1" using h(5) assms(5) by (simp add: crash_phase_def)
  note c = clear_run [OF h(2)]
  show ?thesis
  proof (cases "rc = M16_E_OK \<and> dev_fail_after d1 \<noteq> 0")
    case True
    then show ?thesis
      using h c assms(5) by (auto simp: crash_phase_def)
  next
    case False
    then show ?thesis using h c ph by (auto split: if_splits)
  qed
qed

lemma fail_after_irrelevant [simp]:
  "dev_ok (d\<lparr>dev_fail_after := k\<rparr>) = dev_ok d" "home (d\<lparr>dev_fail_after := k\<rparr>) = home d"
  "j_empty (d\<lparr>dev_fail_after := k\<rparr>) = j_empty d" "j_holds (d\<lparr>dev_fail_after := k\<rparr>) = j_holds d"
  "rec_legal (d\<lparr>dev_fail_after := k\<rparr>) = rec_legal d"
  by (simp_all add: dev_ok_def home_def j_empty_def j_holds_def logged_def rec_legal_def m16_valid_lba_def
        fun_eq_iff)

lemma crash_phase_fail [simp]:
  "crash_phase old rs c (d\<lparr>dev_fail_after := k\<rparr>) = crash_phase old rs c d"
  by (simp only: crash_phase_def fail_after_irrelevant)

lemma rec_legal_total: "dev_total_blocks d' = dev_total_blocks d \<Longrightarrow> rec_legal d' = rec_legal d"
  by (simp add: rec_legal_def m16_valid_lba_def fun_eq_iff)

lemma recover_run:
  assumes "dev_ok d" "crash_phase old rs c d" "length rs \<le> 8" "\<forall>r \<in> set rs. rec_legal d r"
  shows "\<exists>rc d'. m16_journal_recover (Some d) = (rc, Some d') \<and> dev_ok d' \<and>
    dev_total_blocks d' = dev_total_blocks d \<and> crash_phase old rs c d' \<and>
    (rc = M16_E_OK \<longrightarrow> j_empty d' \<and> (home d' = apply_records rs old \<or> \<not> c \<and> home d' = old)) \<and>
    (dev_fail_after d < 0 \<longrightarrow> rc = M16_E_OK \<and> dev_fail_after d' < 0)"
proof (cases "j_empty d")
  case True
  then have "crash_phase old rs c d \<Longrightarrow> home d = apply_records rs old \<or> \<not> c \<and> home d = old"
    by (auto simp: crash_phase_def j_empty_def j_holds_def journal_header_fields M16_JMAGIC_def)
  then show ?thesis using recover_empty [OF assms(1) True] assms(1,2) True by auto
next
  case False
  then have j: "j_holds d rs" "apply_records rs (home d) = apply_records rs old"
    using assms(2) by (auto simp: crash_phase_def)
  show ?thesis
    using recover_holds [OF assms(1) j(1) assms(3,4)] finish_run [OF assms(1) j(1) assms(3,4) j(2)]
    by (auto simp: crash_phase_def)
qed

text \<open>An entry of the log that recovery does not accept.\<close>

definition bad_entry :: "m16_blockdev \<Rightarrow> nat \<Rightarrow> bool" where
  "bad_entry d i \<longleftrightarrow>
     (let desc = dev_blocks d ! (2 + 2 * i) in
      d_magic desc \<noteq> M16_JMAGIC \<or> \<not> m16_valid_lba (Some d) (d_target_lba desc) \<or>
      m16_checksum (dev_blocks d ! (3 + 2 * i)) M16_BLOCK_SIZE \<noteq> d_payload_checksum desc)"

lemma replay_bad_entry:
  assumes "dev_ok d" "bad_entry d (unat i)" "unat i < 8"
  shows "replay (Some d) (Suc n) i = (M16_E_CORRUPT, Some d)"
proof -
  note u = desc_lba_unat [OF assms(3)]
  have v: "m16_valid_lba (Some d) (desc_lba i)" "m16_valid_lba (Some d) (desc_lba i + 1)"
    using u assms(1,3) by (auto intro: journal_lba_valid)
  show ?thesis
    using assms(2) with_block_eq [OF assms(1) v(1)] with_block_eq [OF assms(1) v(2)] u by (auto simp: bad_entry_def Let_def)
qed

lemma recover_bad_entry:
  assumes "dev_ok d" "dev_fail_after d < 0" "dev_blocks d ! 1 = journal_header sq (of_nat n)" "n \<le> 8"
    and "logged d rs 0" "\<forall>r \<in> set rs. rec_legal d r" "length rs < n" "bad_entry d (length rs)"
  shows "\<exists>d'. m16_journal_recover (Some d) = (M16_E_CORRUPT, Some d') \<and> home d' = apply_records rs (home d) \<and>
    dev_blocks d' ! 1 = dev_blocks d ! 1"
proof -
  obtain m where m: "n = length rs + Suc m" using assms(7) less_iff_Suc_add by force
  have n: "unat (of_nat n :: u32) = n" "unat (of_nat (length rs) :: u32) = length rs"
    using assms(4,7) by (simp_all add: unat_of_nat)
  then have "\<not> M16_JOURNAL_MAX_RECORDS < of_nat n"
    using assms(4) by (simp add: word_less_nat_alt M16_JOURNAL_MAX_RECORDS_def)
  then have r: "m16_journal_recover (Some d) = on_ok (replay (Some d) n 0) m16_journal_clear"
    using with_block_eq [OF assms(1) start_valid [OF assms(1)]] assms(3) n
    by (simp add: m16_journal_recover_def M16_JOURNAL_START_def journal_header_fields) (simp add: M16_JMAGIC_def)
  obtain d' where d': "home_records (Some d) rs = (M16_E_OK, Some d')" "dev_ok d'" "dev_total_blocks d' = dev_total_blocks d"
      "\<And>k. in_journal k \<Longrightarrow> dev_blocks d' ! k = dev_blocks d ! k" "home d' = apply_records rs (home d)"
    using home_records_run [OF assms(1,6)] assms(2) by auto
  have "in_journal 1" "in_journal (2 + 2 * length rs)" "in_journal (3 + 2 * length rs)"
    using assms(4,7) by (simp_all add: in_journal_def)
  note j = this [THEN d'(4)]
  have "bad_entry d' (length rs)"
    using assms(8) d'(3) j(2,3) by (simp add: bad_entry_def m16_valid_lba_def Let_def)
  then have "replay (Some d') (Suc m) (of_nat (length rs)) = (M16_E_CORRUPT, Some d')"
    using replay_bad_entry [OF d'(2)] n(2) assms(4,7) by simp
  then have "replay (Some d) n 0 = (M16_E_CORRUPT, Some d')"
    using replay_prefix [OF assms(1), of rs 0 "Suc m"] assms(4-7) d'(1) m by (simp add: on_ok_def)
  then show ?thesis using r d'(5) j(1) by (simp add: on_ok_def)
qed

section \<open>Commit and the crash theorem\<close>

definition tx_ok :: "m16_tx \<Rightarrow> bool" where
  "tx_ok tx \<longleftrightarrow> unat (tx_count tx) \<le> 8 \<and> length (tx_rec tx) = 8"

definition tx_records :: "m16_tx \<Rightarrow> m16_jrec list" where
  "tx_records tx = take (unat (tx_count tx)) (tx_rec tx)"

lemma tx_records_length: "tx_ok tx \<Longrightarrow> length (tx_records tx) = unat (tx_count tx) \<and> length (tx_records tx) \<le> 8"
  by (simp add: tx_ok_def tx_records_def)

text \<open>The state once the commit record is on disk.\<close>

lemma header_written:
  fixes sq :: u32
  assumes "dev_ok d" "logged d rs 0" "length rs \<le> 8"
  defines "d' \<equiv> put_block d M16_JOURNAL_START (journal_header sq (of_nat (length rs)))"
  shows "dev_ok d'" "home d' = home d" "dev_total_blocks d' = dev_total_blocks d" "j_holds d' rs"
    "m16_write_block (Some d) M16_JOURNAL_START (Some (journal_header sq (of_nat (length rs)))) =
       (if dev_fail_after d = 0 then (M16_E_IO, Some d) else (M16_E_OK, Some d'))"
proof -
  show "dev_ok d'" unfolding d'_def by (rule put_block_ok [OF assms(1) journal_header_fields(1)])
  show "home d' = home d" by (simp add: d'_def home_put_journal in_journal_def M16_JOURNAL_START_def)
  show "dev_total_blocks d' = dev_total_blocks d" by (simp add: d'_def)
  have "dev_blocks d' ! 1 = journal_header sq (of_nat (length rs))"
    using assms(1) by (simp add: d'_def M16_JOURNAL_START_def dev_ok_def)
  moreover have "logged d' rs 0" using assms(2) by (simp add: d'_def logged_def M16_JOURNAL_START_def)
  ultimately show "j_holds d' rs" by (auto simp: j_holds_def)
  show "m16_write_block (Some d) M16_JOURNAL_START (Some (journal_header sq (of_nat (length rs)))) =
       (if dev_fail_after d = 0 then (M16_E_IO, Some d) else (M16_E_OK, Some d'))"
    using write_block_eq [OF assms(1) start_valid [OF assms(1)] journal_header_fields(1)] by (simp add: d'_def)
qed

text \<open>The commit from the cleared journal on.\<close>

definition commit_rest :: "m16_jrec list \<Rightarrow> u32 \<Rightarrow> bool \<Rightarrow> m16_blockdev option \<Rightarrow> m16_status \<times> m16_blockdev option" where
  "commit_rest rs sq stop dev = on_ok (log_records dev rs 0) (\<lambda>dev.
     on_ok (m16_write_block dev M16_JOURNAL_START (Some (journal_header sq (of_nat (length rs))))) (\<lambda>dev.
       if stop then (M16_E_OK, dev) else on_ok (home_records dev rs) m16_journal_clear))"

lemma commit_rest_run:
  assumes d: "dev_ok d" "j_empty d" and rs: "length rs \<le> 8" "\<forall>r \<in> set rs. rec_legal d r"
  shows "\<exists>rc d'. commit_rest rs sq stop (Some d) = (rc, Some d') \<and> dev_ok d' \<and>
    dev_total_blocks d' = dev_total_blocks d \<and> crash_phase (home d) rs (rc = M16_E_OK) d' \<and>
    (rc = M16_E_OK \<longrightarrow> (if stop then j_holds d' rs \<and> home d' = home d else j_empty d' \<and> home d' = apply_records rs (home d))) \<and>
    (dev_fail_after d < 0 \<longrightarrow> rc = M16_E_OK \<and> dev_fail_after d' < 0)"
proof -
  have pay: "\<forall>r \<in> set rs. length (rec_payload r) = 512" using rs(2) by (auto simp: rec_legal_def)
  have "unat (0 :: u32) + length rs \<le> 8" using rs(1) by simp
  from log_records_run [OF d(1) this pay] obtain rc2 d2 where
    l: "log_records (Some d) rs 0 = (rc2, Some d2)" "dev_ok d2" "dev_total_blocks d2 = dev_total_blocks d"
      "home d2 = home d" "dev_blocks d2 ! 1 = dev_blocks d ! 1" "rc2 = M16_E_OK \<or> rc2 = M16_E_IO"
      "rc2 = M16_E_OK \<longrightarrow> logged d2 rs 0" "dev_fail_after d < 0 \<longrightarrow> rc2 = M16_E_OK \<and> dev_fail_after d2 < 0"
    by auto
  have e2: "j_empty d2" using d(2) l(5) by (simp add: j_empty_def)
  show ?thesis
  proof (cases "rc2 = M16_E_OK \<and> dev_fail_after d2 \<noteq> 0")
    case False
    then have "commit_rest rs sq stop (Some d) = (M16_E_IO, Some d2)"
      using l(1,6,7) header_written(5) [OF l(2) _ rs(1)] by (auto simp: commit_rest_def)
    then show ?thesis using l False e2 by (auto simp: crash_phase_def)
  next
    case True
    define d3 where "d3 = put_block d2 M16_JOURNAL_START (journal_header sq (of_nat (length rs)))"
    have lg: "logged d2 rs 0" using l(7) True by simp
    note w = header_written [OF l(2) lg rs(1), of sq, folded d3_def]
    have run: "commit_rest rs sq stop (Some d) =
        (if stop then (M16_E_OK, Some d3) else on_ok (home_records (Some d3) rs) m16_journal_clear)"
      using l(1) True w(5) by (simp add: commit_rest_def)
    have f: "dev_fail_after d < 0 \<Longrightarrow> dev_fail_after d3 < 0" using l(8) by (simp add: d3_def)
    have t: "dev_total_blocks d3 = dev_total_blocks d" "home d3 = home d" using w(2,3) l(3,4) by simp_all
    have leg: "\<forall>r \<in> set rs. rec_legal d3 r" using rs(2) rec_legal_total [OF t(1)] by simp
    have same: "apply_records rs (home d3) = apply_records rs (home d)" using t(2) by simp
    show ?thesis
      using run w(1,4) f t same finish_run [OF w(1,4) rs(1) leg same]
      by (cases stop) (auto simp: crash_phase_def)
  qed
qed

lemma commit_run:
  assumes d: "dev_ok d" "j_empty d" and tx: "tx_ok tx" "\<forall>r \<in> set (tx_records tx). rec_legal d r"
  defines "rs \<equiv> tx_records tx"
  shows "\<exists>rc d'. m16_journal_commit (Some d) (Some tx) sq stop = (rc, Some d') \<and> dev_ok d' \<and>
    dev_total_blocks d' = dev_total_blocks d \<and> crash_phase (home d) rs (rc = M16_E_OK) d' \<and>
    (rc = M16_E_OK \<longrightarrow> (if stop then j_holds d' rs \<and> home d' = home d else j_empty d' \<and> home d' = apply_records rs (home d))) \<and>
    (dev_fail_after d < 0 \<longrightarrow> rc = M16_E_OK \<and> dev_fail_after d' < 0)"
proof -
  have len: "length rs = unat (tx_count tx)" "length rs \<le> 8" using tx_records_length [OF tx(1)] by (auto simp: rs_def)
  then have cnt: "of_nat (length rs) = tx_count tx" "\<not> M16_JOURNAL_MAX_RECORDS < tx_count tx"
    by (simp_all add: word_less_nat_alt M16_JOURNAL_MAX_RECORDS_def)
  have run: "m16_journal_commit (Some d) (Some tx) sq stop = on_ok (m16_journal_clear (Some d)) (commit_rest rs sq stop)"
    using cnt(2) unfolding m16_journal_commit_def commit_rest_def cnt(1) unfolding rs_def tx_records_def Let_def option.sel by simp
  note c = clear_run [OF d(1)]
  show ?thesis
  proof (cases "dev_fail_after d = 0")
    case True
    then show ?thesis using run c(1) d by (auto simp: crash_phase_def)
  next
    case False
    define d1 where "d1 = put_block d M16_JOURNAL_START (replicate 512 0)"
    have d1: "dev_ok d1" "j_empty d1" "home d1 = home d" "dev_total_blocks d1 = dev_total_blocks d"
        "dev_fail_after d < 0 \<Longrightarrow> dev_fail_after d1 < 0" using c(2-4) by (simp_all add: d1_def)
    have leg: "\<forall>r \<in> set rs. rec_legal d1 r" using tx(2) rec_legal_total [OF d1(4)] by (simp add: rs_def)
    have run1: "m16_journal_commit (Some d) (Some tx) sq stop = commit_rest rs sq stop (Some d1)"
      using run c(1) False by (simp add: d1_def)
    show ?thesis using commit_rest_run [OF d1(1,2) len(2) leg, of sq stop] d1(5) unfolding run1 d1(3,4) by blast
  qed
qed

lemma reboots_run:
  assumes "dev_ok d" "crash_phase old rs c d" "length rs \<le> 8" "\<forall>r \<in> set rs. rec_legal d r"
  shows "dev_ok (reboots ks d) \<and> crash_phase old rs c (reboots ks d) \<and>
    dev_total_blocks (reboots ks d) = dev_total_blocks d"
  using assms
proof (induction ks arbitrary: d)
  case Nil
  then show ?case by simp
next
  case (Cons k ks)
  let ?d = "d\<lparr>dev_fail_after := k\<rparr>"
  have p: "dev_ok ?d" "crash_phase old rs c ?d" "\<forall>r \<in> set rs. rec_legal ?d r" using Cons.prems(1,2,4) by simp_all
  obtain rc d' where r: "m16_journal_recover (Some ?d) = (rc, Some d')" "dev_ok d'"
      "dev_total_blocks d' = dev_total_blocks ?d" "crash_phase old rs c d'"
    using recover_run [OF p(1,2) Cons.prems(3) p(3)] by blast
  have "\<forall>r \<in> set rs. rec_legal d' r" using p(3) rec_legal_total [OF r(3)] by simp
  from Cons.IH [OF r(2,4) Cons.prems(3) this] r(1,3) show ?case by simp
qed

text \<open>C1: a transaction is atomic under power loss. Whatever number of block writes the device survives
  during the commit, and however often recovery itself is cut short afterwards, a recovery that runs
  to the end succeeds and leaves the blocks outside the journal either all as they were or all as
  the transaction says, the latter always when the commit had reported success; the journal is then
  empty.\<close>

theorem journal_crash_atomic:
  assumes "dev_ok d" "j_empty d" "tx_ok tx" "\<forall>r \<in> set (tx_records tx). rec_legal d r"
    and "m16_journal_commit (Some d) (Some tx) sq stop = (rc, Some d1)"
  shows "\<exists>d2. m16_journal_recover (Some ((reboots ks d1)\<lparr>dev_fail_after := -1\<rparr>)) = (M16_E_OK, Some d2) \<and>
    j_empty d2 \<and> (home d2 = apply_records (tx_records tx) (home d) \<or> rc \<noteq> M16_E_OK \<and> home d2 = home d)"
proof -
  have c: "dev_ok d1" "dev_total_blocks d1 = dev_total_blocks d"
    "crash_phase (home d) (tx_records tx) (rc = M16_E_OK) d1"
    using commit_run [OF assms(1-4), of sq stop] assms(5) by auto
  have len: "length (tx_records tx) \<le> 8" using tx_records_length [OF assms(3)] by simp
  have leg: "\<forall>r \<in> set (tx_records tx). rec_legal d1 r" using assms(4) rec_legal_total [OF c(2)] by simp
  let ?d = "(reboots ks d1)\<lparr>dev_fail_after := -1\<rparr>"
  have b: "dev_ok (reboots ks d1)" "crash_phase (home d) (tx_records tx) (rc = M16_E_OK) (reboots ks d1)"
      "dev_total_blocks (reboots ks d1) = dev_total_blocks d1"
    using reboots_run [OF c(1,3) len leg, of ks] by blast+
  have r: "dev_ok ?d" "crash_phase (home d) (tx_records tx) (rc = M16_E_OK) ?d"
      "\<forall>r \<in> set (tx_records tx). rec_legal ?d r"
    using b leg rec_legal_total [OF b(3)] by simp_all
  show ?thesis using recover_run [OF r(1,2) len r(3)] by auto
qed

definition demo_dev :: m16_blockdev where
  "demo_dev = \<lparr>dev_blocks = replicate 128 (replicate 512 0), dev_total_blocks = 128, dev_writes = 0, dev_fail_after = 4\<rparr>"

definition demo_tx :: m16_tx where
  "demo_tx = tx_put m16_tx_zero 30 (replicate 512 7) 0"

lemma demo_dev_ready: "dev_ok demo_dev" "j_empty demo_dev"
  by (simp_all add: dev_ok_def j_empty_def demo_dev_def h_magic_def h_state_def M16_J_EMPTY_def)

lemma replicate_8: "replicate 8 x = x # replicate 7 x"
  by (simp add: numeral_eq_Suc)

lemma demo_tx_ok: "tx_ok demo_tx" "tx_records demo_tx = [\<lparr>rec_target_lba = 30, rec_payload = replicate 512 7\<rparr>]"
  by (simp_all add: tx_ok_def tx_records_def demo_tx_def tx_put_def m16_tx_zero_def m16_copy_def
        M16_BLOCK_SIZE_def copy_loop_whole replicate_8)

text \<open>C5: Recovery stops at the first log entry of a committed journal that it cannot trust (wrong magic, target outside the device,
  wrong checksum) and reports corruption. It writes nothing for that entry and the later ones, and leaves the
  journal in place, so that every later mount reports the corruption again; but the entries before it have then been
  written home already: when the first entry is bad no block outside the journal changes, otherwise the
  transaction has been applied in part.\<close>

theorem journal_corrupt_entry_stops:
  assumes "dev_ok d" "dev_fail_after d < 0" "dev_blocks d ! 1 = journal_header sq (of_nat n)" "n \<le> 8"
    and "logged d rs 0" "\<forall>r \<in> set rs. rec_legal d r" "length rs < n" "bad_entry d (length rs)"
  shows "\<exists>d'. m16_journal_recover (Some d) = (M16_E_CORRUPT, Some d') \<and> home d' = apply_records rs (home d) \<and>
    dev_blocks d' ! 1 = dev_blocks d ! 1"
  using recover_bad_entry [OF assms] .

definition torn_dev :: m16_blockdev where
  "torn_dev = demo_dev\<lparr>dev_fail_after := -1, dev_blocks := (dev_blocks demo_dev)[1 := journal_header 5 2,
     2 := journal_desc \<lparr>rec_target_lba = 30, rec_payload = replicate 512 7\<rparr>, 3 := replicate 512 7]\<rparr>"

theorem journal_corrupt_entry_stops_witness:
  "\<exists>d'. m16_journal_recover (Some torn_dev) = (M16_E_CORRUPT, Some d') \<and> home d' 30 = replicate 512 7 \<and>
     home torn_dev 30 = replicate 512 0"
proof -
  let ?r = "\<lparr>rec_target_lba = 30, rec_payload = replicate 512 7\<rparr>"
  let ?b = "replicate 128 (replicate 512 (0 :: u8))"
  have b: "dev_blocks torn_dev = ?b[1 := journal_header 5 2, 2 := journal_desc ?r, 3 := replicate 512 7]"
    by (simp add: torn_dev_def demo_dev_def)
  have ok: "dev_ok torn_dev"
    unfolding dev_ok_def b by (auto simp: torn_dev_def demo_dev_def journal_header_fields journal_desc_fields
      dest!: set_update_subset_insert [THEN subsetD])
  have n: "dev_blocks torn_dev ! 1 = journal_header 5 (of_nat 2)" "dev_blocks torn_dev ! 2 = journal_desc ?r"
      "dev_blocks torn_dev ! 3 = replicate 512 7" "dev_blocks torn_dev ! 4 = replicate 512 0" "dev_blocks torn_dev ! 30 = replicate 512 0"
    unfolding b by simp_all
  have "logged torn_dev [?r] 0" using n(2,3) by (simp add: logged_def)
  moreover have "\<forall>r \<in> set [?r]. rec_legal torn_dev r"
    by (simp add: rec_legal_def m16_valid_lba_def torn_dev_def demo_dev_def M16_MAX_BLOCKS_def in_journal_def)
  moreover have "bad_entry torn_dev (length [?r])"
    using n(4) by (simp add: bad_entry_def d_magic_def M16_JMAGIC_def)
  ultimately obtain d' where "m16_journal_recover (Some torn_dev) = (M16_E_CORRUPT, Some d')"
      "home d' = apply_records [?r] (home torn_dev)"
    using journal_corrupt_entry_stops [OF ok _ n(1), of "[?r]"] by (auto simp: torn_dev_def)
  moreover have "home torn_dev 30 = replicate 512 0" using n(5) by (simp add: home_def in_journal_def)
  ultimately show ?thesis by simp
qed

theorem journal_crash_atomic_witness:
  "\<exists>rc d1 d2. m16_journal_commit (Some demo_dev) (Some demo_tx) 5 False = (rc, Some d1) \<and>
     m16_journal_recover (Some ((reboots [1, 0] d1)\<lparr>dev_fail_after := -1\<rparr>)) = (M16_E_OK, Some d2) \<and>
     (home d2 30 = replicate 512 7 \<or> home d2 30 = replicate 512 0)"
proof -
  have leg: "\<forall>r \<in> set (tx_records demo_tx). rec_legal demo_dev r"
    by (simp add: demo_tx_ok rec_legal_def m16_valid_lba_def demo_dev_def M16_MAX_BLOCKS_def in_journal_def)
  obtain rc d1 where c: "m16_journal_commit (Some demo_dev) (Some demo_tx) 5 False = (rc, Some d1)"
    using commit_run [OF demo_dev_ready demo_tx_ok(1) leg] by blast
  from journal_crash_atomic [OF demo_dev_ready demo_tx_ok(1) leg c, of "[1, 0]"] obtain d2 where
    r: "m16_journal_recover (Some ((reboots [1, 0] d1)\<lparr>dev_fail_after := -1\<rparr>)) = (M16_E_OK, Some d2)"
      "home d2 = apply_records (tx_records demo_tx) (home demo_dev) \<or> home d2 = home demo_dev" by blast
  have "home d2 30 = replicate 512 7 \<or> home d2 30 = replicate 512 0"
    using r(2) by (elim disjE) (simp_all add: demo_tx_ok, simp add: home_def demo_dev_def in_journal_def)
  with c r(1) show ?thesis by blast
qed

section \<open>The interface of an atomic store\<close>

fun commits :: "('d \<Rightarrow> 't \<Rightarrow> bool \<times> 'd) \<Rightarrow> 't list \<Rightarrow> 'd \<Rightarrow> bool \<times> 'd" where
  "commits c [] d = (True, d)"
| "commits c (t # ts) d = (case c d t of (ok, d') \<Rightarrow> if ok then commits c ts d' else (False, d'))"

text \<open>A last transaction that is only logged: its commit record is on disk when the call returns.\<close>

definition commits_log :: "('d \<Rightarrow> 't \<Rightarrow> bool \<times> 'd) \<Rightarrow> ('d \<Rightarrow> 't \<Rightarrow> bool \<times> 'd) \<Rightarrow> 't list \<Rightarrow> 't \<Rightarrow> 'd \<Rightarrow> bool \<times> 'd" where
  "commits_log c l ts t d = (case commits c ts d of (ok, d') \<Rightarrow> if ok then l d' t else (False, d'))"

lemma commits_log_commit: "commits_log c c ts t d = commits c (ts @ [t]) d"
  by (induction ts arbitrary: d) (auto simp: commits_log_def split: prod.splits)

locale atomic_store =
  fixes ready :: "'d \<Rightarrow> bool" and contents :: "'d \<Rightarrow> 'h" and legal :: "'d \<Rightarrow> 't \<Rightarrow> bool"
    and commit :: "'d \<Rightarrow> 't \<Rightarrow> bool \<times> 'd" and change :: "'t \<Rightarrow> 'h \<Rightarrow> 'h" and recover :: "'d \<Rightarrow> 'd"
    and recovers :: "'d \<Rightarrow> bool"
  assumes commit_done: "ready d \<Longrightarrow> legal d t \<Longrightarrow> commit d t = (True, d') \<Longrightarrow>
        ready d' \<and> contents d' = change t (contents d)"
    and commit_torn: "ready d \<Longrightarrow> legal d t \<Longrightarrow> commit d t = (False, d') \<Longrightarrow> recovers d' \<and> ready (recover d') \<and>
        (contents (recover d') = contents d \<or> contents (recover d') = change t (contents d))"
    and recover_ready: "ready d \<Longrightarrow> recovers d \<and> ready (recover d) \<and> contents (recover d) = contents d"
    and legal_kept: "ready d \<Longrightarrow> legal d t \<Longrightarrow> legal d t' \<Longrightarrow> commit d t = (ok, d') \<Longrightarrow> legal d' t'"
begin

text \<open>A sequence of transactions cut anywhere leaves, after recovery, the effect of a prefix.\<close>

lemma commits_prefix:
  "ready d \<Longrightarrow> \<forall>t \<in> set ts. legal d t \<Longrightarrow> commits commit ts d = (ok, d') \<Longrightarrow>
   \<exists>k \<le> length ts. recovers d' \<and> ready (recover d') \<and> contents (recover d') = fold change (take k ts) (contents d) \<and>
     (ok \<longrightarrow> k = length ts \<and> ready d' \<and> contents d' = fold change ts (contents d))"
proof (induction ts arbitrary: d)
  case Nil
  then show ?case using recover_ready by auto
next
  case (Cons t ts)
  obtain b d1 where c: "commit d t = (b, d1)" by (cases "commit d t")
  have t: "legal d t" using Cons.prems(2) by simp
  show ?case
  proof (cases b)
    case True
    then have d1: "ready d1" "contents d1 = change t (contents d)"
      using commit_done [OF Cons.prems(1) t] c by auto
    moreover have "\<forall>t' \<in> set ts. legal d1 t'" using legal_kept [OF Cons.prems(1) t _ c] Cons.prems(2) by simp
    moreover have "commits commit ts d1 = (ok, d')" using Cons.prems(3) c True by simp
    ultimately obtain k where "k \<le> length ts" "recovers d'" "ready (recover d')"
      "contents (recover d') = fold change (take k ts) (contents d1)"
      "ok \<longrightarrow> k = length ts \<and> ready d' \<and> contents d' = fold change ts (contents d1)"
      using Cons.IH by blast
    then show ?thesis using d1(2) by (intro exI [of _ "Suc k"]) auto
  next
    case False
    then have e: "\<not> ok" "d' = d1" using Cons.prems(3) c by auto
    from commit_torn [OF Cons.prems(1) t] c False consider
      "recovers d1" "ready (recover d1)" "contents (recover d1) = contents d" |
      "recovers d1" "ready (recover d1)" "contents (recover d1) = change t (contents d)" by auto
    then show ?thesis
    proof cases
      case 1
      then show ?thesis using e by (intro exI [of _ 0]) simp
    next
      case 2
      then show ?thesis using e by (intro exI [of _ "Suc 0"]) simp
    qed
  qed
qed

lemma commits_legal:
  "ready d \<Longrightarrow> \<forall>t \<in> set ts. legal d t \<Longrightarrow> legal d t' \<Longrightarrow> commits commit ts d = (True, d') \<Longrightarrow> legal d' t'"
proof (induction ts arbitrary: d)
  case (Cons t ts)
  obtain d1 where c: "commit d t = (True, d1)" "commits commit ts d1 = (True, d')"
    using Cons.prems(4) by (auto split: prod.splits if_splits)
  have t: "legal d t" "ready d1" using Cons.prems(1,2) commit_done [of d t d1] c(1) by auto
  then show ?case using Cons.IH [of d1] legal_kept [OF Cons.prems(1) t(1) _ c(1)] Cons.prems(2,3) c(2) by simp
qed simp

end

text \<open>A store that can also return as soon as a transaction is safely logged, leaving the rest to recovery.\<close>

locale logging_store = atomic_store +
  fixes log :: "'a \<Rightarrow> 'c \<Rightarrow> bool \<times> 'a"
  assumes log_safe: "ready d \<Longrightarrow> legal d t \<Longrightarrow> log d t = (ok, d') \<Longrightarrow> recovers d' \<and> ready (recover d') \<and>
        (contents (recover d') = change t (contents d) \<or> \<not> ok \<and> contents (recover d') = contents d)"
begin

lemma commits_log_prefix:
  assumes "ready d" "\<forall>t \<in> set (ts @ [t]). legal d t" "commits_log commit log ts t d = (ok, d')"
  shows "\<exists>k \<le> Suc (length ts). recovers d' \<and> ready (recover d') \<and>
     contents (recover d') = fold change (take k (ts @ [t])) (contents d) \<and> (ok \<longrightarrow> k = Suc (length ts))"
proof -
  have leg: "\<forall>t \<in> set ts. legal d t" "legal d t" using assms(2) by auto
  obtain b d1 where c: "commits commit ts d = (b, d1)" by (cases "commits commit ts d")
  obtain k where k: "k \<le> length ts" "recovers d1" "ready (recover d1)"
      "contents (recover d1) = fold change (take k ts) (contents d)"
      "b \<longrightarrow> ready d1 \<and> contents d1 = fold change ts (contents d)"
    using commits_prefix [OF assms(1) leg(1) c] by blast
  show ?thesis
  proof (cases b)
    case True
    then have r: "ready d1" "legal d1 t" "log d1 t = (ok, d')"
      using k(5) commits_legal [OF assms(1) leg] c assms(3) by (simp_all add: commits_log_def)
    from log_safe [OF this] consider "recovers d'" "ready (recover d')" "contents (recover d') = change t (contents d1)" |
      "recovers d'" "ready (recover d')" "\<not> ok" "contents (recover d') = contents d1" by auto
    then show ?thesis
    proof cases
      case 1
      then show ?thesis using k(5) True by (intro exI [of _ "Suc (length ts)"]) simp
    next
      case 2
      then show ?thesis using k(5) True by (intro exI [of _ "length ts"]) simp
    qed
  next
    case False
    then have "\<not> ok" "d' = d1" using assms(3) c by (auto simp: commits_log_def)
    then show ?thesis using k by (intro exI [of _ k]) simp
  qed
qed

end

definition jr_ready :: "m16_blockdev \<Rightarrow> bool" where
  "jr_ready d \<longleftrightarrow> dev_ok d \<and> j_empty d"

definition jr_legal :: "m16_blockdev \<Rightarrow> u32 \<times> m16_tx \<Rightarrow> bool" where
  "jr_legal d t \<longleftrightarrow> tx_ok (snd t) \<and> (\<forall>r \<in> set (tx_records (snd t)). rec_legal d r)"

definition jr_log :: "bool \<Rightarrow> m16_blockdev \<Rightarrow> u32 \<times> m16_tx \<Rightarrow> bool \<times> m16_blockdev" where
  "jr_log stop d t = (case m16_journal_commit (Some d) (Some (snd t)) (fst t) stop of
     (rc, d') \<Rightarrow> (rc = M16_E_OK, the d'))"

abbreviation jr_commit :: "m16_blockdev \<Rightarrow> u32 \<times> m16_tx \<Rightarrow> bool \<times> m16_blockdev" where
  "jr_commit \<equiv> jr_log False"

text \<open>The contents a client sees: the device size and the blocks outside the journal.\<close>

definition jr_contents :: "m16_blockdev \<Rightarrow> u32 \<times> (nat \<Rightarrow> bytes)" where
  "jr_contents d = (dev_total_blocks d, home d)"

definition jr_change :: "u32 \<times> m16_tx \<Rightarrow> u32 \<times> (nat \<Rightarrow> bytes) \<Rightarrow> u32 \<times> (nat \<Rightarrow> bytes)" where
  "jr_change t c = (fst c, apply_records (tx_records (snd t)) (snd c))"

definition jr_recover :: "m16_blockdev \<Rightarrow> m16_blockdev" where
  "jr_recover d = the (snd (m16_journal_recover (Some (d\<lparr>dev_fail_after := -1\<rparr>))))"

definition jr_recovers :: "m16_blockdev \<Rightarrow> bool" where
  "jr_recovers d \<longleftrightarrow> m16_journal_recover (Some (d\<lparr>dev_fail_after := -1\<rparr>)) = (M16_E_OK, Some (jr_recover d))"

lemma jr_log_cases:
  assumes "jr_ready d" "jr_legal d t" "jr_log stop d t = (ok, d')"
  shows "dev_ok d'" "dev_total_blocks d' = dev_total_blocks d"
    "crash_phase (home d) (tx_records (snd t)) ok d'"
    "ok \<Longrightarrow> \<not> stop \<Longrightarrow> j_empty d' \<and> jr_contents d' = jr_change t (jr_contents d)"
    "ok \<Longrightarrow> stop \<Longrightarrow> j_holds d' (tx_records (snd t)) \<and> home d' = home d"
    "dev_fail_after d < 0 \<Longrightarrow> ok \<and> dev_fail_after d' < 0"
proof -
  have a: "dev_ok d" "j_empty d" "tx_ok (snd t)" "\<forall>r \<in> set (tx_records (snd t)). rec_legal d r"
    using assms(1,2) by (auto simp: jr_ready_def jr_legal_def)
  obtain rc d1 where c: "m16_journal_commit (Some d) (Some (snd t)) (fst t) stop = (rc, Some d1)" "dev_ok d1"
    "dev_total_blocks d1 = dev_total_blocks d" "crash_phase (home d) (tx_records (snd t)) (rc = M16_E_OK) d1"
    "rc = M16_E_OK \<longrightarrow> (if stop then j_holds d1 (tx_records (snd t)) \<and> home d1 = home d
       else j_empty d1 \<and> home d1 = apply_records (tx_records (snd t)) (home d))"
    "dev_fail_after d < 0 \<longrightarrow> rc = M16_E_OK \<and> dev_fail_after d1 < 0"
    using commit_run [OF a, of "fst t" stop] by blast
  have e: "ok = (rc = M16_E_OK)" "d' = d1" using assms(3) c(1) by (auto simp: jr_log_def)
  show "dev_ok d'" "dev_total_blocks d' = dev_total_blocks d"
    "crash_phase (home d) (tx_records (snd t)) ok d'"
    "ok \<Longrightarrow> \<not> stop \<Longrightarrow> j_empty d' \<and> jr_contents d' = jr_change t (jr_contents d)"
    "ok \<Longrightarrow> stop \<Longrightarrow> j_holds d' (tx_records (snd t)) \<and> home d' = home d"
    "dev_fail_after d < 0 \<Longrightarrow> ok \<and> dev_fail_after d' < 0"
    using c(2-6) e by (simp_all add: jr_change_def jr_contents_def)
qed

lemma jr_log_recovers:
  assumes "jr_ready d" "jr_legal d t" "jr_log stop d t = (ok, d')"
  shows "jr_recovers d' \<and> jr_ready (jr_recover d') \<and> (jr_contents (jr_recover d') = jr_change t (jr_contents d) \<or>
      \<not> ok \<and> jr_contents (jr_recover d') = jr_contents d)"
proof -
  note cc = jr_log_cases [OF assms]
  let ?rs = "tx_records (snd t)" and ?d = "d'\<lparr>dev_fail_after := -1\<rparr>"
  have len: "length ?rs \<le> 8" using assms(2) tx_records_length [of "snd t"] by (simp add: jr_legal_def)
  have leg: "\<forall>r \<in> set ?rs. rec_legal ?d r" using assms(2) rec_legal_total [OF cc(2)] by (simp add: jr_legal_def)
  have "dev_ok ?d" "crash_phase (home d) ?rs ok ?d" using cc(1,3) by simp_all
  from recover_run [OF this len leg] show ?thesis
    using cc(2) by (auto simp: jr_recovers_def jr_recover_def jr_ready_def jr_change_def jr_contents_def)
qed

interpretation jr: atomic_store jr_ready jr_contents jr_legal jr_commit jr_change jr_recover jr_recovers
proof
  fix d t d' assume a: "jr_ready d" "jr_legal d t"
  show "jr_commit d t = (True, d') \<Longrightarrow> jr_ready d' \<and> jr_contents d' = jr_change t (jr_contents d)"
    using jr_log_cases(1,4) [OF a, of False True d'] by (simp add: jr_ready_def)
  show "jr_commit d t = (False, d') \<Longrightarrow> jr_recovers d' \<and> jr_ready (jr_recover d') \<and>
      (jr_contents (jr_recover d') = jr_contents d \<or> jr_contents (jr_recover d') = jr_change t (jr_contents d))"
    using jr_log_recovers [OF a] by blast
next
  fix d assume "jr_ready d"
  then have "m16_journal_recover (Some (d\<lparr>dev_fail_after := -1\<rparr>)) = (M16_E_OK, Some (d\<lparr>dev_fail_after := -1\<rparr>))"
    by (intro recover_empty) (simp_all add: jr_ready_def)
  then show "jr_recovers d \<and> jr_ready (jr_recover d) \<and> jr_contents (jr_recover d) = jr_contents d"
    using \<open>jr_ready d\<close> by (simp add: jr_recovers_def jr_recover_def jr_ready_def jr_contents_def)
next
  fix d t t' ok d' assume "jr_ready d" "jr_legal d t" "jr_legal d t'" "jr_commit d t = (ok, d')"
  then show "jr_legal d' t'"
    using jr_log_cases(2) rec_legal_total [of d' d] by (auto simp: jr_legal_def)
qed

interpretation jl: logging_store jr_ready jr_contents jr_legal jr_commit jr_change jr_recover jr_recovers "jr_log stop" for stop
  by unfold_locales (rule jr_log_recovers)

end
