(* ===== verification/Mcsfs1j.thy ===== *)
theory Mcsfs1j
  imports Journal
begin

text \<open>
  \<open>kernel/fs/mcsfs1j/m16_mcsfs_journal.c\<close>, the file system part: format, mount, file creation in two
  journal transactions, reading, and the consistency check. A file name is a C string: a byte list
  with a terminating NUL. Shown: reading returns what was written; a power loss anywhere during file
  creation leaves either no file or the complete file; the consistency check.
\<close>

section \<open>Operations\<close>

fun load_loop :: "m16_blockdev option \<Rightarrow> bytes \<Rightarrow> nat \<Rightarrow> nat \<Rightarrow> m16_status \<times> bytes" where
  "load_loop dev raw i 0 = (M16_E_OK, raw)"
| "load_loop dev raw i (Suc n) =
     (case m16_read_block dev (M16_INODE_TABLE_LBA + of_nat i) (Some raw) (i * M16_BLOCK_SIZE) of
        (rc, raw') \<Rightarrow> if rc \<noteq> M16_E_OK then (rc, the raw') else load_loop dev (the raw') (Suc i) n)"

definition m16_load_inode_table :: "m16_blockdev option \<Rightarrow> bytes \<Rightarrow> m16_status \<times> bytes" where
  "m16_load_inode_table dev inodes = load_loop dev inodes 0 (unat M16_INODE_TABLE_BLOCKS)"

definition m16_super_block :: "u32 \<Rightarrow> bytes" where
  "m16_super_block tot =
     (let b0 = wr64 (replicate M16_BLOCK_SIZE 0) 0 M16_MAGIC;
          b1 = wr32 b0 8 M16_VERSION;
          b2 = wr32 b1 12 (of_nat M16_BLOCK_SIZE);
          b3 = wr32 b2 16 tot;
          b4 = wr32 b3 20 M16_JOURNAL_START;
          b5 = wr32 b4 24 M16_JOURNAL_BLOCKS;
          b6 = wr32 b5 28 M16_INODE_BITMAP_LBA;
          b7 = wr32 b6 32 M16_BLOCK_BITMAP_LBA;
          b8 = wr32 b7 36 M16_INODE_TABLE_LBA;
          b9 = wr32 b8 40 M16_INODE_TABLE_BLOCKS;
          b10 = wr32 b9 44 M16_ROOT_DIR_LBA;
          b11 = wr32 b10 48 M16_DATA_START_LBA
      in wr32 b11 52 1)"

fun store_table :: "m16_blockdev option \<Rightarrow> bytes \<Rightarrow> nat \<Rightarrow> nat \<Rightarrow> m16_status \<times> m16_blockdev option" where
  "store_table dev raw i 0 = (M16_E_OK, dev)"
| "store_table dev raw i (Suc n) =
     on_ok (m16_write_block dev (M16_INODE_TABLE_LBA + of_nat i)
              (Some (slice (i * M16_BLOCK_SIZE) M16_BLOCK_SIZE raw)))
       (\<lambda>dev. store_table dev raw (Suc i) n)"

definition m16_format :: "m16_blockdev option \<Rightarrow> m16_status \<times> m16_blockdev option" where
  "m16_format dev =
     (case dev of
        None \<Rightarrow> (M16_E_INVAL, None)
      | Some d \<Rightarrow>
          let dev0 = Some (d\<lparr>dev_blocks := replicate (unat M16_MAX_BLOCKS) (replicate M16_BLOCK_SIZE 0)\<rparr>);
              ib = m16_bitmap_set (replicate M16_BLOCK_SIZE 0) 0;
              bb = fold (\<lambda>i b. m16_bitmap_set b (of_nat i)) [0..<unat M16_DATA_START_LBA]
                     (replicate M16_BLOCK_SIZE 0);
              inodes = wr32 (wr32 (wr32 (wr32 (replicate 2048 0) 0 1) 4 2) 8 0) 12 M16_ROOT_DIR_LBA
          in on_ok (m16_write_block dev0 0 (Some (m16_super_block (dev_total_blocks d))))
             (\<lambda>dev. on_ok (m16_write_block dev M16_INODE_BITMAP_LBA (Some ib))
             (\<lambda>dev. on_ok (m16_write_block dev M16_BLOCK_BITMAP_LBA (Some bb))
             (\<lambda>dev. on_ok (store_table dev inodes 0 (unat M16_INODE_TABLE_BLOCKS))
             (\<lambda>dev. on_ok (m16_write_block dev M16_ROOT_DIR_LBA (Some (replicate M16_BLOCK_SIZE 0)))
             (\<lambda>dev. m16_journal_clear dev))))))"

definition m16_mount ::
  "m16_blockdev option \<Rightarrow> bytes option \<Rightarrow> m16_status \<times> bytes option \<times> m16_blockdev option" where
  "m16_mount dev sb =
     (if dev = None \<or> sb = None then (M16_E_INVAL, sb, dev)
      else
        (case m16_journal_recover dev of
           (rc, dev1) \<Rightarrow>
             if rc \<noteq> M16_E_OK then (rc, sb, dev1)
             else
               (case m16_read_block dev1 0 sb 0 of
                  (rc, sb1) \<Rightarrow>
                    if rc \<noteq> M16_E_OK then (rc, sb1, dev1)
                    else
                      let b = the sb1 in
                      if sb_magic b \<noteq> M16_MAGIC \<or> sb_version b \<noteq> M16_VERSION \<or>
                        sb_block_size b \<noteq> of_nat M16_BLOCK_SIZE then (M16_E_CORRUPT, sb1, dev1)
                      else if sb_data_start_lba b \<noteq> M16_DATA_START_LBA \<or> sb_root_dir_lba b \<noteq> M16_ROOT_DIR_LBA then
                        (M16_E_CORRUPT, sb1, dev1)
                      else (M16_E_OK, sb1, dev1))))"

text \<open>The search functions return an index, or the negative status as \<open>Inl\<close>.\<close>

definition m16_find_free_inode :: "bytes \<Rightarrow> m16_status + nat" where
  "m16_find_free_inode ib =
     (case first_index (\<lambda>i. \<not> m16_bitmap_get ib (of_nat i)) 1 (unat M16_MAX_INODES) of
        Some i \<Rightarrow> Inr i | None \<Rightarrow> Inl M16_E_NOSPC)"

definition m16_find_free_block :: "bytes \<Rightarrow> m16_status + nat" where
  "m16_find_free_block bb =
     (case first_index (\<lambda>i. \<not> m16_bitmap_get bb (of_nat i)) (unat M16_DATA_START_LBA) (unat M16_MAX_BLOCKS) of
        Some i \<Rightarrow> Inr i | None \<Rightarrow> Inl M16_E_NOSPC)"

definition dirents_per_block :: nat where
  "dirents_per_block = M16_BLOCK_SIZE div 40"

definition m16_find_dirent :: "bytes \<Rightarrow> bytes \<Rightarrow> m16_status + nat" where
  "m16_find_dirent dir name =
     (case first_index (\<lambda>i. dir_used dir i \<noteq> 0 \<and> m16_streq (dir_name dir i) name) 0 dirents_per_block of
        Some i \<Rightarrow> Inr i | None \<Rightarrow> Inl M16_E_NOENT)"

definition m16_find_free_dirent :: "bytes \<Rightarrow> m16_status + nat" where
  "m16_find_free_dirent dir =
     (case first_index (\<lambda>i. dir_used dir i = 0) 0 dirents_per_block of
        Some i \<Rightarrow> Inr i | None \<Rightarrow> Inl M16_E_NOSPC)"

definition set_inode :: "bytes \<Rightarrow> nat \<Rightarrow> u32 \<Rightarrow> u32 \<Rightarrow> bytes" where
  "set_inode t i sz blk =
     wr32 (wr32 (wr32 (wr32 t (128 * i) 1) (128 * i + 4) 1) (128 * i + 8) sz) (128 * i + 12) blk"

definition set_dirent :: "bytes \<Rightarrow> nat \<Rightarrow> u32 \<Rightarrow> bytes \<Rightarrow> nat \<Rightarrow> bytes" where
  "set_dirent b i ino name name_len =
     (let b1 = wr32 b (40 * i) 1;
          b2 = wr32 b1 (40 * i + 4) ino;
          b3 = m16_zero b2 (40 * i + 8) M16_MAX_NAME
      in m16_copy b3 (40 * i + 8) name 0 name_len)"

text \<open>\<open>rc = m16_tx_add(...); if (rc != M16_E_OK) return rc;\<close>\<close>

definition with_tx ::
  "m16_status \<times> m16_tx option \<Rightarrow> m16_blockdev option \<Rightarrow> (m16_tx option \<Rightarrow> m16_status \<times> m16_blockdev option) \<Rightarrow>
   m16_status \<times> m16_blockdev option" where
  "with_tx r dev k = (case r of (rc, tx) \<Rightarrow> if rc \<noteq> M16_E_OK then (rc, dev) else k tx)"

text \<open>The part of \<open>m16_write_file_ex\<close> after the inputs have been read from the disk: the two transactions.\<close>

definition write_transactions ::
  "m16_blockdev option \<Rightarrow> u32 \<Rightarrow> bytes \<Rightarrow> bytes \<Rightarrow> bytes \<Rightarrow> bytes \<Rightarrow> nat \<Rightarrow> bytes \<Rightarrow> bool \<Rightarrow>
   m16_status \<times> m16_blockdev option" where
  "write_transactions dev gen ib bb inodes dir data_block data_blk stop =
     with_tx (m16_tx_add (Some m16_tx_zero) M16_INODE_BITMAP_LBA (Some ib)) dev (\<lambda>tx.
     with_tx (m16_tx_add tx M16_BLOCK_BITMAP_LBA (Some bb)) dev (\<lambda>tx.
     with_tx (m16_store_inode_table tx (Some inodes)) dev (\<lambda>tx.
     on_ok (m16_journal_commit dev tx (gen + 1) False) (\<lambda>dev.
     with_tx (m16_tx_add (Some m16_tx_zero) M16_ROOT_DIR_LBA (Some dir)) dev (\<lambda>tx.
     with_tx (m16_tx_add tx (of_nat data_block) (Some data_blk)) dev (\<lambda>tx.
     m16_journal_commit dev tx (gen + 2) stop))))))"

definition m16_write_file_ex ::
  "m16_blockdev option \<Rightarrow> bytes option \<Rightarrow> bytes option \<Rightarrow> u32 \<Rightarrow> bool \<Rightarrow> m16_status \<times> m16_blockdev option" where
  "m16_write_file_ex dev name data sz stop =
     (if dev = None \<or> name = None \<or> data = None then (M16_E_INVAL, dev)
      else
        let name_len = m16_strlen_bounded (the name) M16_MAX_NAME in
        if name_len = 0 \<or> M16_MAX_NAME \<le> name_len then (M16_E_TOOLONG, dev)
        else if M16_BLOCK_SIZE < unat sz then (M16_E_INVAL, dev)
        else
          (case m16_mount dev (Some (replicate M16_BLOCK_SIZE 0)) of
             (rc, sb, dev) \<Rightarrow>
               if rc \<noteq> M16_E_OK then (rc, dev)
               else
                 with_block dev M16_INODE_BITMAP_LBA (\<lambda>ib.
                 with_block dev M16_BLOCK_BITMAP_LBA (\<lambda>bb.
                 case m16_load_inode_table dev (replicate 2048 0) of
                   (rc, inodes) \<Rightarrow>
                     if rc \<noteq> M16_E_OK then (rc, dev)
                     else
                       with_block dev M16_ROOT_DIR_LBA (\<lambda>dir.
                       case m16_find_dirent dir (the name) of
                         Inr _ \<Rightarrow> (M16_E_EXISTS, dev)
                       | Inl _ \<Rightarrow>
                         (case m16_find_free_inode ib of
                            Inl e \<Rightarrow> (e, dev)
                          | Inr ino \<Rightarrow>
                            (case m16_find_free_block bb of
                               Inl e \<Rightarrow> (e, dev)
                             | Inr data_block \<Rightarrow>
                               (case m16_find_free_dirent dir of
                                  Inl e \<Rightarrow> (e, dev)
                                | Inr slot \<Rightarrow>
                                    write_transactions dev (sb_clean_generation (the sb))
                                      (m16_bitmap_set ib (of_nat ino)) (m16_bitmap_set bb (of_nat data_block))
                                      (set_inode inodes ino sz (of_nat data_block))
                                      (set_dirent dir slot (of_nat ino) (the name) name_len)
                                      data_block
                                      (m16_copy (replicate M16_BLOCK_SIZE 0) 0 (the data) 0 (unat sz))
                                      stop))))))))"

definition m16_write_file ::
  "m16_blockdev option \<Rightarrow> bytes option \<Rightarrow> bytes option \<Rightarrow> u32 \<Rightarrow> m16_status \<times> m16_blockdev option" where
  "m16_write_file dev name data sz = m16_write_file_ex dev name data sz False"

definition m16_read_file ::
  "m16_blockdev option \<Rightarrow> bytes option \<Rightarrow> bytes option \<Rightarrow> u32 \<Rightarrow> u32 option \<Rightarrow>
   m16_status \<times> bytes option \<times> u32 option \<times> m16_blockdev option" where
  "m16_read_file dev name out out_cap out_size =
     (if dev = None \<or> name = None \<or> out = None \<or> out_size = None then (M16_E_INVAL, out, out_size, dev)
      else
        (case m16_mount dev (Some (replicate M16_BLOCK_SIZE 0)) of
           (rc, sb, dev) \<Rightarrow>
             if rc \<noteq> M16_E_OK then (rc, out, out_size, dev)
             else
               (case m16_load_inode_table dev (replicate 2048 0) of
                  (rc, inodes) \<Rightarrow>
                    if rc \<noteq> M16_E_OK then (rc, out, out_size, dev)
                    else
                      (case m16_read_block dev M16_ROOT_DIR_LBA (Some (replicate M16_BLOCK_SIZE 0)) 0 of
                         (rc, dir) \<Rightarrow>
                           if rc \<noteq> M16_E_OK then (rc, out, out_size, dev)
                           else
                             (case m16_find_dirent (the dir) (the name) of
                                Inl e \<Rightarrow> (e, out, out_size, dev)
                              | Inr slot \<Rightarrow>
                                  let ino = dir_ino (the dir) slot; i = unat ino in
                                  if M16_MAX_INODES \<le> ino \<or> ino_used inodes i = 0 \<or> ino_kind inodes i \<noteq> 1 then
                                    (M16_E_CORRUPT, out, out_size, dev)
                                  else if out_cap < ino_size inodes i \<or> dev_total_blocks (the dev) \<le> ino_direct0 inodes i then
                                    (M16_E_INVAL, out, out_size, dev)
                                  else
                                    (case m16_read_block dev (ino_direct0 inodes i) (Some (replicate M16_BLOCK_SIZE 0)) 0 of
                                       (rc, blk) \<Rightarrow>
                                         if rc \<noteq> M16_E_OK then (rc, out, out_size, dev)
                                         else
                                           (M16_E_OK,
                                            Some (m16_copy (the out) 0 (the blk) 0 (unat (ino_size inodes i))),
                                            Some (ino_size inodes i), dev)))))))"

definition dirent_bad :: "m16_blockdev \<Rightarrow> bytes \<Rightarrow> bytes \<Rightarrow> bytes \<Rightarrow> bytes \<Rightarrow> nat \<Rightarrow> bool" where
  "dirent_bad d ib bb inodes dir i =
     (dir_used dir i \<noteq> 0 \<and>
      (let ino = dir_ino dir i; k = unat ino in
       M16_MAX_INODES \<le> ino \<or> \<not> m16_bitmap_get ib ino \<or>
       ino_used inodes k = 0 \<or> ino_kind inodes k \<noteq> 1 \<or> of_nat M16_BLOCK_SIZE < ino_size inodes k \<or>
       ino_direct0 inodes k < M16_DATA_START_LBA \<or> dev_total_blocks d \<le> ino_direct0 inodes k \<or>
       \<not> m16_bitmap_get bb (ino_direct0 inodes k)))"

definition m16_fsck :: "m16_blockdev option \<Rightarrow> m16_status \<times> m16_blockdev option" where
  "m16_fsck dev =
     (if dev = None then (M16_E_INVAL, dev)
      else
        (case m16_mount dev (Some (replicate M16_BLOCK_SIZE 0)) of
           (rc, sb, dev) \<Rightarrow>
             if rc \<noteq> M16_E_OK then (rc, dev)
             else
               with_block dev M16_INODE_BITMAP_LBA (\<lambda>ib.
               with_block dev M16_BLOCK_BITMAP_LBA (\<lambda>bb.
               case m16_load_inode_table dev (replicate 2048 0) of
                 (rc, inodes) \<Rightarrow>
                   if rc \<noteq> M16_E_OK then (rc, dev)
                   else
                     with_block dev M16_ROOT_DIR_LBA (\<lambda>dir.
                       if \<not> m16_bitmap_get ib 0 \<or> ino_used inodes 0 \<noteq> 1 \<or> ino_kind inodes 0 \<noteq> 2 \<or>
                         ino_direct0 inodes 0 \<noteq> M16_ROOT_DIR_LBA then (M16_E_CORRUPT, dev)
                       else if first_index (\<lambda>b. \<not> m16_bitmap_get bb (of_nat b)) 0 (unat M16_DATA_START_LBA) \<noteq> None then
                         (M16_E_CORRUPT, dev)
                       else if first_index (dirent_bad (the dev) ib bb inodes dir) 0 dirents_per_block \<noteq> None then
                         (M16_E_CORRUPT, dev)
                       else (M16_E_OK, dev))))))"

section \<open>Specification\<close>

text \<open>A device as the format leaves it: full size, journal empty.\<close>

definition fs_dev :: "m16_blockdev \<Rightarrow> bool" where
  "fs_dev d \<longleftrightarrow> jr_ready d \<and> dev_total_blocks d = M16_MAX_BLOCKS"

text \<open>What a reader with a large enough buffer gets for a name: an error, or the bytes of the file.\<close>

definition file_of :: "m16_blockdev \<Rightarrow> bytes \<Rightarrow> m16_status + bytes" where
  "file_of d name =
     (case m16_read_file (Some d) (Some name) (Some (replicate 512 0)) 512 (Some 0) of
        (rc, out, sz, _) \<Rightarrow> if rc = M16_E_OK then Inr (take (unat (the sz)) (the out)) else Inl rc)"

text \<open>The same over the blocks outside the journal.\<close>

definition super_ok :: "bytes \<Rightarrow> bool" where
  "super_ok b \<longleftrightarrow> sb_magic b = M16_MAGIC \<and> sb_version b = M16_VERSION \<and> sb_block_size b = of_nat M16_BLOCK_SIZE \<and>
     sb_data_start_lba b = M16_DATA_START_LBA \<and> sb_root_dir_lba b = M16_ROOT_DIR_LBA"

definition itab :: "(nat \<Rightarrow> bytes) \<Rightarrow> bytes" where
  "itab h = h 20 @ h 21 @ h 22 @ h 23"

definition file_view :: "(nat \<Rightarrow> bytes) \<Rightarrow> bytes \<Rightarrow> m16_status + bytes" where
  "file_view h name =
     (case m16_find_dirent (h 24) name of
        Inl e \<Rightarrow> Inl e
      | Inr slot \<Rightarrow>
          let ino = dir_ino (h 24) slot; i = unat ino in
          if M16_MAX_INODES \<le> ino \<or> ino_used (itab h) i = 0 \<or> ino_kind (itab h) i \<noteq> 1 then Inl M16_E_CORRUPT
          else if 512 < ino_size (itab h) i \<or> M16_MAX_BLOCKS \<le> ino_direct0 (itab h) i then Inl M16_E_INVAL
          else Inr (take (unat (ino_size (itab h) i)) (h (unat (ino_direct0 (itab h) i)))))"

definition fs_consistent :: "m16_blockdev \<Rightarrow> (nat \<Rightarrow> bytes) \<Rightarrow> bool" where
  "fs_consistent d h \<longleftrightarrow> super_ok (h 0) \<and> m16_bitmap_get (h 18) 0 \<and> ino_used (itab h) 0 = 1 \<and>
     ino_kind (itab h) 0 = 2 \<and> ino_direct0 (itab h) 0 = M16_ROOT_DIR_LBA \<and>
     (\<forall>b < 25. m16_bitmap_get (h 19) (of_nat b)) \<and>
     (\<forall>i < 12. \<not> dirent_bad d (h 18) (h 19) (itab h) (h 24) i)"

section \<open>Lemmas on layout\<close>

lemma lba_numbers:
  "M16_INODE_BITMAP_LBA = 18" "M16_BLOCK_BITMAP_LBA = 19" "M16_INODE_TABLE_LBA = 20"
  "M16_INODE_TABLE_BLOCKS = 4" "M16_ROOT_DIR_LBA = 24" "M16_DATA_START_LBA = 25" "dirents_per_block = 12"
  by (simp_all add: mcs_consts dirents_per_block_def)

lemma fs_dev_ok: "fs_dev d \<Longrightarrow> dev_ok d" "fs_dev d \<Longrightarrow> j_empty d"
  by (simp_all add: fs_dev_def jr_ready_def)

lemma fs_valid: "fs_dev d \<Longrightarrow> m16_valid_lba (Some d) lba \<longleftrightarrow> unat lba < 128"
  by (auto simp: fs_dev_def m16_valid_lba_def word_less_nat_alt M16_MAX_BLOCKS_def)

lemma home_length: "dev_ok d \<Longrightarrow> k < 128 \<Longrightarrow> \<not> in_journal k \<Longrightarrow> length (home d k) = 512"
  by (simp add: home_def nth_block_length)

lemma read_block_home:
  assumes "fs_dev d" "unat lba < 128" "\<not> in_journal (unat lba)" "length buf = 512"
  shows "m16_read_block (Some d) lba (Some buf) 0 = (M16_E_OK, Some (home d (unat lba)))"
proof -
  have "length (dev_blocks d ! unat lba) = 512" using nth_block_length [OF fs_dev_ok(1) [OF assms(1)] assms(2)] .
  then show ?thesis using assms
    by (simp add: m16_read_block_def fs_valid m16_copy_def M16_BLOCK_SIZE_def copy_loop_whole home_def)
qed

lemma with_block_home:
  assumes "fs_dev d" "unat lba < 128" "\<not> in_journal (unat lba)"
  shows "with_block (Some d) lba k = k (home d (unat lba))"
  using with_block_eq [OF fs_dev_ok(1) [OF assms(1)], of lba k] assms by (simp add: fs_valid home_def)

lemma mount_ready:
  assumes "fs_dev d"
  shows "m16_mount (Some d) (Some (replicate M16_BLOCK_SIZE 0)) =
    ((if super_ok (home d 0) then M16_E_OK else M16_E_CORRUPT), Some (home d 0), Some d)"
  using recover_empty [OF fs_dev_ok [OF assms]] read_block_home [OF assms, of 0 "replicate M16_BLOCK_SIZE 0"]
  by (auto simp: m16_mount_def super_ok_def Let_def in_journal_def M16_BLOCK_SIZE_def)

lemma load_inode_table:
  assumes "fs_dev d"
  shows "m16_load_inode_table (Some d) (replicate 2048 0) = (M16_E_OK, itab (home d))"
proof -
  have rd: "m16_read_block (Some d) lba (Some buf) off =
      (M16_E_OK, Some (patch off (home d (unat lba)) buf))"
    if "20 \<le> unat lba" "unat lba < 24" "off + 512 \<le> length buf" for lba buf off
  proof -
    have "length (dev_blocks d ! unat lba) = 512"
      using that by (intro nth_block_length [OF fs_dev_ok(1) [OF assms]]) simp
    then show ?thesis using that assms
      by (simp add: m16_read_block_def fs_valid m16_copy_def M16_BLOCK_SIZE_def copy_loop_patch home_def in_journal_def)
  qed
  have len: "length (home d 20) = 512" "length (home d 21) = 512" "length (home d 22) = 512" "length (home d 23) = 512"
    using home_length [OF fs_dev_ok(1) [OF assms]] by (simp_all add: in_journal_def)
  have four: "unat M16_INODE_TABLE_BLOCKS = Suc (Suc (Suc (Suc 0)))" by (simp add: lba_numbers)
  show ?thesis
    unfolding m16_load_inode_table_def four
    by (simp add: rd lba_numbers M16_BLOCK_SIZE_def len) (simp add: patch_def itab_def len)
qed

lemma itab_length: "fs_dev d \<Longrightarrow> length (itab (home d)) = 2048"
  using home_length [OF fs_dev_ok(1)] by (simp add: itab_def in_journal_def)

lemma find_dirent_Inr:
  "m16_find_dirent dir name = Inr k \<Longrightarrow> k < 12 \<and> dir_used dir k \<noteq> 0 \<and> m16_streq (dir_name dir k) name"
  by (auto simp: m16_find_dirent_def lba_numbers split: option.splits dest: first_index_SomeD)

lemma find_dirent_Inl:
  "m16_find_dirent dir name = Inl e \<Longrightarrow> e = M16_E_NOENT \<and>
   (\<forall>k < 12. \<not> (dir_used dir k \<noteq> 0 \<and> m16_streq (dir_name dir k) name))"
  by (auto simp: m16_find_dirent_def lba_numbers first_index_None_iff split: option.splits)

text \<open>What consistency says of a directory entry in use.\<close>

lemma consistent_entry:
  assumes "fs_consistent d h" "k < 12" "dir_used (h 24) k \<noteq> 0"
  defines "i \<equiv> unat (dir_ino (h 24) k)"
  shows "i < 16" "m16_bitmap_get (h 18) (dir_ino (h 24) k)" "ino_used (itab h) i \<noteq> 0" "ino_kind (itab h) i = 1"
    "unat (ino_size (itab h) i) \<le> 512" "25 \<le> unat (ino_direct0 (itab h) i)"
    "unat (ino_direct0 (itab h) i) < unat (dev_total_blocks d)" "m16_bitmap_get (h 19) (ino_direct0 (itab h) i)"
  using assms
  by (auto simp: fs_consistent_def dirent_bad_def Let_def word_le_nat_alt word_less_nat_alt not_le not_less
        M16_MAX_INODES_def lba_numbers M16_BLOCK_SIZE_def)

text \<open>Reading a file of a consistent device, on every branch. Buffer and size are untouched when the call fails.\<close>

lemma read_file_view:
  fixes cap :: u32
  assumes d: "fs_dev d" and c: "fs_consistent d (home d)" and cap: "unat cap \<le> length out"
  shows "m16_read_file (Some d) (Some name) (Some out) cap (Some n) =
    (case file_view (home d) name of
       Inl e \<Rightarrow> (e, Some out, Some n, Some d)
     | Inr bs \<Rightarrow> if unat cap < length bs then (M16_E_INVAL, Some out, Some n, Some d)
                 else (M16_E_OK, Some (patch 0 bs out), Some (of_nat (length bs)), Some d))"
proof -
  have sup: "super_ok (home d 0)" using c by (simp add: fs_consistent_def)
  note rd = mount_ready [OF d] load_inode_table [OF d] read_block_home [OF d, of 24 "replicate M16_BLOCK_SIZE 0"]
  show ?thesis
  proof (cases "m16_find_dirent (home d 24) name")
    case (Inl e)
    then show ?thesis
      using sup rd by (simp add: m16_read_file_def file_view_def lba_numbers in_journal_def M16_BLOCK_SIZE_def)
  next
    case (Inr k)
    let ?t = "itab (home d)" and ?i = "unat (dir_ino (home d 24) k)"
    have k: "k < 12" "dir_used (home d 24) k \<noteq> 0" using find_dirent_Inr [OF Inr] by auto
    note e = consistent_entry [OF c k]
    let ?b = "ino_direct0 ?t ?i" and ?n = "ino_size ?t ?i"
    let ?bs = "take (unat ?n) (home d (unat ?b))"
    have tot: "unat (dev_total_blocks d) = 128" using d by (simp add: fs_dev_def M16_MAX_BLOCKS_def)
    have b: "unat ?b < 128" "\<not> in_journal (unat ?b)" using e(6,7) tot by (auto simp: in_journal_def)
    note hl = home_length [OF fs_dev_ok(1) [OF d] b]
    have blk: "m16_read_block (Some d) ?b (Some (replicate 512 0)) 0 = (M16_E_OK, Some (home d (unat ?b)))"
      by (rule read_block_home [OF d b]) simp
    have n: "\<not> M16_MAX_INODES \<le> dir_ino (home d 24) k" "\<not> 512 < ?n" "\<not> dev_total_blocks d \<le> ?b"
      "\<not> M16_MAX_BLOCKS \<le> ?b"
      using e b tot by (auto simp: word_le_nat_alt word_less_nat_alt M16_MAX_INODES_def M16_MAX_BLOCKS_def)
    have len: "length ?bs = unat ?n" using e(5) hl by simp
    have v: "file_view (home d) name = Inr ?bs" using Inr n e(3,4) by (simp add: file_view_def Let_def)
    have cp: "m16_copy out 0 (home d (unat ?b)) 0 (unat ?n) = patch 0 ?bs out" if "\<not> cap < ?n"
      using that cap e(5) hl by (simp add: m16_copy_def copy_loop_patch slice_def word_less_nat_alt not_less)
    have "m16_read_file (Some d) (Some name) (Some out) cap (Some n) =
        (if cap < ?n then (M16_E_INVAL, Some out, Some n, Some d)
         else (M16_E_OK, Some (patch 0 ?bs out), Some ?n, Some d))"
      using Inr sup rd blk n(1,3) e(3,4) cp
      by (simp add: m16_read_file_def lba_numbers in_journal_def M16_BLOCK_SIZE_def Let_def)
    then show ?thesis unfolding v sum.case len by (simp add: word_less_nat_alt)
  qed
qed

lemma file_view_length:
  assumes "file_view h name = Inr bs"
  shows "length bs \<le> 512"
  using assms by (auto simp: file_view_def Let_def word_less_nat_alt split: sum.splits if_splits)

lemma file_of_view:
  assumes d: "fs_dev d" and c: "fs_consistent d (home d)"
  shows "file_of d name = file_view (home d) name"
proof (cases "file_view (home d) name")
  case (Inl e)
  then have "e \<noteq> M16_E_OK" using find_dirent_Inl by (auto simp: file_view_def Let_def split: sum.splits if_splits)
  then show ?thesis using read_file_view [OF d c, of 512 "replicate 512 0" name 0] Inl by (simp add: file_of_def)
next
  case (Inr bs)
  have "unat (of_nat (length bs) :: u32) = length bs" using file_view_length [OF Inr] by (simp add: unat_of_nat)
  then show ?thesis
    using read_file_view [OF d c, of 512 "replicate 512 0" name 0] file_view_length [OF Inr] Inr
    by (simp add: file_of_def patch_def)
qed

lemma fsck_view:
  assumes d: "fs_dev d"
  shows "m16_fsck (Some d) = ((if fs_consistent d (home d) then M16_E_OK else M16_E_CORRUPT), Some d)"
proof -
  have all25: "first_index (\<lambda>b. \<not> m16_bitmap_get bb (of_nat b)) 0 25 = None \<longleftrightarrow>
      (\<forall>b < 25. m16_bitmap_get bb (of_nat b))" for bb
    by (simp add: first_index_None_iff)
  have all12: "first_index q 0 12 = None \<longleftrightarrow> (\<forall>i < 12. \<not> q i)" for q
    by (simp add: first_index_None_iff)
  have wb: "with_block (Some d) 18 k = k (home d 18)" "with_block (Some d) 19 k = k (home d 19)"
    "with_block (Some d) 24 k = k (home d 24)" for k
    using with_block_home [OF d] by (simp_all add: in_journal_def)
  show ?thesis
    using mount_ready [OF d] load_inode_table [OF d]
    by (auto simp: m16_fsck_def fs_consistent_def lba_numbers wb all25 all12)
qed

section \<open>Lemmas on bitmaps, inodes and directory entries\<close>

lemma bit_byte_mask: "bit (m16_bit_mask k) n \<longleftrightarrow> n = unat k mod 8"
  by (auto simp: m16_bit_mask_def bit_simps unat_mod)

lemma m16_bitmap_get_iff: "m16_bitmap_get bm k \<longleftrightarrow> bit (bm ! (unat k div 8)) (unat k mod 8)"
proof -
  have "bit (w AND m16_bit_mask k) n \<longleftrightarrow> bit w n \<and> n = unat k mod 8" for w :: u8 and n
    by (simp only: bit_and_iff bit_byte_mask)
  then have "w AND m16_bit_mask k \<noteq> 0 \<longleftrightarrow> bit w (unat k mod 8)" for w :: u8
    by (metis bit_0_eq bot_apply bot_bool_def bit_word_eqI)
  then show ?thesis by (simp add: m16_bitmap_get_def unat_div)
qed

lemma length_m16_bitmap_set [simp]: "length (m16_bitmap_set bm k) = length bm"
  by (simp add: m16_bitmap_set_def Let_def)

lemma m16_bitmap_get_set:
  assumes "unat k < 8 * length bm"
  shows "m16_bitmap_get (m16_bitmap_set bm k) j \<longleftrightarrow> j = k \<or> m16_bitmap_get bm j"
proof (cases "unat j div 8 = unat k div 8")
  case True
  have "unat j mod 8 = unat k mod 8 \<longleftrightarrow> j = k"
    using True by (metis div_mult_mod_eq word_unat_eq_iff)
  then show ?thesis
    using True assms
    by (simp add: m16_bitmap_get_iff m16_bitmap_set_def Let_def unat_div bit_or_iff bit_byte_mask) auto
next
  case False
  then show ?thesis by (auto simp: m16_bitmap_get_iff m16_bitmap_set_def Let_def unat_div)
qed

lemma inode_slots: "i < 16 \<Longrightarrow> j < 16 \<Longrightarrow> i \<noteq> j \<Longrightarrow> 128 * j + 128 \<le> 128 * i \<or> 128 * i + 128 \<le> 128 * (j::nat)"
  by linarith

lemma set_inode_facts:
  assumes "length t = 2048" "i < 16"
  shows "length (set_inode t i sz b) = 2048" "ino_used (set_inode t i sz b) i = 1"
    "ino_kind (set_inode t i sz b) i = 1" "ino_size (set_inode t i sz b) i = sz"
    "ino_direct0 (set_inode t i sz b) i = b"
  using assms by (simp_all add: set_inode_def ino_used_def ino_kind_def ino_size_def ino_direct0_def)

lemma set_inode_other:
  assumes "length t = 2048" "i < 16" "j < 16" "j \<noteq> i"
  shows "ino_used (set_inode t i sz b) j = ino_used t j" "ino_kind (set_inode t i sz b) j = ino_kind t j"
    "ino_size (set_inode t i sz b) j = ino_size t j" "ino_direct0 (set_inode t i sz b) j = ino_direct0 t j"
  using assms inode_slots [OF assms(2,3)]
  by (auto simp: set_inode_def ino_used_def ino_kind_def ino_size_def ino_direct0_def)

definition padded_name :: "bytes \<Rightarrow> nat \<Rightarrow> bytes" where
  "padded_name name n = take n name @ replicate (32 - n) 0"

lemma set_dirent_facts:
  assumes "length b = 512" "i < 12" "n < 32" "n \<le> length name"
  shows "length (set_dirent b i ino name n) = 512" "dir_used (set_dirent b i ino name n) i = 1"
    "dir_ino (set_dirent b i ino name n) i = ino" "dir_name (set_dirent b i ino name n) i = padded_name name n"
proof -
  let ?b2 = "wr32 (wr32 b (40 * i) 1) (40 * i + 4) ino"
  have l2: "length ?b2 = 512" using assms by simp
  have eq: "set_dirent b i ino name n = patch (40 * i + 8) (padded_name name n) ?b2"
    using assms l2
    by (simp add: set_dirent_def Let_def m16_zero_def m16_copy_def M16_MAX_NAME_def fill_loop_patch copy_loop_patch)
       (simp add: patch_def padded_name_def slice_def)
  have pl: "length (padded_name name n) = 32" using assms by (simp add: padded_name_def)
  show "length (set_dirent b i ino name n) = 512" unfolding eq using assms l2 pl by simp
  have fld: "rd32 (set_dirent b i ino name n) off = rd32 ?b2 off" if "off = 40 * i \<or> off = 40 * i + 4" for off
    unfolding eq rd32_def using that assms l2 pl by (subst slice_patch_other) auto
  show "dir_used (set_dirent b i ino name n) i = 1" "dir_ino (set_dirent b i ino name n) i = ino"
    using assms by (simp_all add: dir_used_def dir_ino_def fld)
  show "dir_name (set_dirent b i ino name n) i = padded_name name n"
    unfolding eq dir_name_def using assms l2 pl by simp
qed

lemma set_dirent_other:
  assumes "length b = 512" "i < 12" "n < 32" "n \<le> length name" "j < 12" "j \<noteq> i"
  shows "dir_used (set_dirent b i ino name n) j = dir_used b j" "dir_ino (set_dirent b i ino name n) j = dir_ino b j"
    "dir_name (set_dirent b i ino name n) j = dir_name b j"
proof -
  let ?b2 = "wr32 (wr32 b (40 * i) 1) (40 * i + 4) ino"
  have l2: "length ?b2 = 512" using assms by simp
  have eq: "set_dirent b i ino name n = patch (40 * i + 8) (padded_name name n) ?b2"
    using assms l2
    by (simp add: set_dirent_def Let_def m16_zero_def m16_copy_def M16_MAX_NAME_def fill_loop_patch copy_loop_patch)
       (simp add: patch_def padded_name_def slice_def)
  have pl: "length (padded_name name n) = 32" using assms by (simp add: padded_name_def)
  have far: "40 * j + 40 \<le> 40 * i \<or> 40 * i + 40 \<le> 40 * j" using assms by linarith
  have sl: "slice off m (set_dirent b i ino name n) = slice off m b" if "40 * j \<le> off" "off + m \<le> 40 * j + 40" for off m
    unfolding eq using that far assms l2 pl by (subst slice_patch_other) auto
  show "dir_used (set_dirent b i ino name n) j = dir_used b j" "dir_ino (set_dirent b i ino name n) j = dir_ino b j"
    "dir_name (set_dirent b i ino name n) j = dir_name b j"
    by (simp_all add: dir_used_def dir_ino_def dir_name_def rd32_def sl)
qed

text \<open>Two names are the same when they agree up to and including the first NUL of the first one.\<close>

lemma m16_streq_iff: "m16_streq a b \<longleftrightarrow> (\<forall>i < 32. (\<forall>j < i. a ! j \<noteq> 0) \<longrightarrow> a ! i = b ! i)"
proof (cases "first_index (\<lambda>i. a ! i \<noteq> b ! i \<or> a ! i = 0) 0 32")
  case None
  then have "m16_streq a b" by (simp add: m16_streq_def M16_MAX_NAME_def)
  then show ?thesis using first_index_NoneD [OF None] by auto
next
  case (Some k)
  note k = first_index_SomeD [OF Some]
  have "m16_streq a b \<longleftrightarrow> a ! k = b ! k" using Some by (simp add: m16_streq_def M16_MAX_NAME_def)
  moreover have "(\<forall>i < 32. (\<forall>j < i. a ! j \<noteq> 0) \<longrightarrow> a ! i = b ! i) \<longleftrightarrow> a ! k = b ! k"
    using k by (metis linorder_neqE_nat zero_le)
  ultimately show ?thesis by simp
qed

lemma m16_streq_padded:
  assumes "n < 32" "n < length name" "name ! n = 0"
  shows "m16_streq (padded_name name n) other \<longleftrightarrow> m16_streq name other"
proof -
  have eq: "padded_name name n ! i = name ! i" if "i \<le> n" for i
    using that assms by (cases "i = n") (auto simp: padded_name_def nth_append)
  have past: "\<not> (\<forall>j < i. padded_name name n ! j \<noteq> 0)" "\<not> (\<forall>j < i. name ! j \<noteq> 0)" if "n < i" for i
    using that assms(3) eq [of n] by auto
  have "((\<forall>j < i. padded_name name n ! j \<noteq> 0) \<longrightarrow> padded_name name n ! i = other ! i) \<longleftrightarrow>
      ((\<forall>j < i. name ! j \<noteq> 0) \<longrightarrow> name ! i = other ! i)" for i
    using eq past [of i] by (cases "i \<le> n") auto
  then show ?thesis by (simp add: m16_streq_iff)
qed

lemma m16_streq_refl: "m16_streq a a"
  by (simp add: m16_streq_iff)

section \<open>The two transactions of a file creation\<close>

definition tx_wf :: "m16_tx \<Rightarrow> nat \<Rightarrow> bool" where
  "tx_wf tx n \<longleftrightarrow> unat (tx_count tx) = n \<and> n \<le> 8 \<and> length (tx_rec tx) = 8 \<and>
     (\<forall>r \<in> set (tx_rec tx). length (rec_payload r) = 512)"

lemma tx_wf_zero: "tx_wf m16_tx_zero 0" "tx_records m16_tx_zero = []"
  by (auto simp: tx_wf_def m16_tx_zero_def tx_records_def)

lemma tx_put_run:
  assumes "tx_wf tx n" "n < 8" "off + 512 \<le> length src"
  shows "tx_wf (tx_put tx lba src off) (Suc n)"
    "tx_records (tx_put tx lba src off) = tx_records tx @ [\<lparr>rec_target_lba = lba, rec_payload = slice off 512 src\<rparr>]"
proof -
  have c: "unat (tx_count tx) = n" "length (tx_rec tx) = 8" using assms(1) by (auto simp: tx_wf_def)
  have len: "length (rec_payload (tx_rec tx ! n)) = 512" using assms(1,2) by (simp add: tx_wf_def)
  have pay: "m16_copy (rec_payload (tx_rec tx ! n)) 0 src off M16_BLOCK_SIZE = slice off 512 src"
    using len assms(3) by (simp add: m16_copy_def M16_BLOCK_SIZE_def copy_loop_patch patch_def)
  have cnt: "unat (tx_count tx + 1) = Suc n" using c(1) assms(2) by (simp add: unat_word_ariths)
  show "tx_wf (tx_put tx lba src off) (Suc n)"
    using assms c cnt pay
    by (auto simp: tx_wf_def tx_put_def Let_def dest!: set_update_subset_insert [THEN subsetD])
  show "tx_records (tx_put tx lba src off) = tx_records tx @ [\<lparr>rec_target_lba = lba, rec_payload = slice off 512 src\<rparr>]"
    using c cnt pay assms(2) by (simp add: tx_records_def tx_put_def Let_def take_Suc_conv_app_nth)
qed

lemma tx_wf_ok: "tx_wf tx n \<Longrightarrow> tx_ok tx"
  by (simp add: tx_wf_def tx_ok_def)

lemma tx_add_run: "tx_wf tx n \<Longrightarrow> n < 8 \<Longrightarrow> m16_tx_add (Some tx) lba (Some b) = (M16_E_OK, Some (tx_put tx lba b 0))"
  by (simp add: m16_tx_add_def tx_wf_def M16_JOURNAL_MAX_RECORDS_def word_le_nat_alt)

definition tx_meta :: "bytes \<Rightarrow> bytes \<Rightarrow> bytes \<Rightarrow> m16_tx" where
  "tx_meta ib bb inodes =
     store_loop (tx_put (tx_put m16_tx_zero M16_INODE_BITMAP_LBA ib 0) M16_BLOCK_BITMAP_LBA bb 0) inodes 0
       (unat M16_INODE_TABLE_BLOCKS)"

definition tx_data :: "bytes \<Rightarrow> nat \<Rightarrow> bytes \<Rightarrow> m16_tx" where
  "tx_data dir b data_blk = tx_put (tx_put m16_tx_zero M16_ROOT_DIR_LBA dir 0) (of_nat b) data_blk 0"

lemma tx_meta_run:
  assumes "length ib = 512" "length bb = 512" "length inodes = 2048"
  shows "tx_ok (tx_meta ib bb inodes)"
    "tx_records (tx_meta ib bb inodes) =
      [\<lparr>rec_target_lba = 18, rec_payload = ib\<rparr>, \<lparr>rec_target_lba = 19, rec_payload = bb\<rparr>,
       \<lparr>rec_target_lba = 20, rec_payload = slice 0 512 inodes\<rparr>, \<lparr>rec_target_lba = 21, rec_payload = slice 512 512 inodes\<rparr>,
       \<lparr>rec_target_lba = 22, rec_payload = slice 1024 512 inodes\<rparr>, \<lparr>rec_target_lba = 23, rec_payload = slice 1536 512 inodes\<rparr>]"
    "with_tx (m16_tx_add (Some m16_tx_zero) M16_INODE_BITMAP_LBA (Some ib)) dev (\<lambda>tx.
       with_tx (m16_tx_add tx M16_BLOCK_BITMAP_LBA (Some bb)) dev (\<lambda>tx.
       with_tx (m16_store_inode_table tx (Some inodes)) dev k)) = k (Some (tx_meta ib bb inodes))"
proof -
  let ?t1 = "tx_put m16_tx_zero 18 ib 0"
  let ?t2 = "tx_put ?t1 19 bb 0"
  let ?t3 = "tx_put ?t2 20 inodes 0"
  let ?t4 = "tx_put ?t3 21 inodes 512"
  let ?t5 = "tx_put ?t4 22 inodes 1024"
  let ?t6 = "tx_put ?t5 23 inodes 1536"
  have four: "unat M16_INODE_TABLE_BLOCKS = Suc (Suc (Suc (Suc 0)))" by (simp add: lba_numbers)
  have eq: "tx_meta ib bb inodes = ?t6"
    unfolding tx_meta_def four by (simp add: lba_numbers M16_BLOCK_SIZE_def)
  note p1 = tx_put_run [OF tx_wf_zero(1), of 0 ib 18]
  have w1: "tx_wf ?t1 (Suc 0)" using p1(1) assms by simp
  note p2 = tx_put_run [OF w1, of 0 bb 19]
  have w2: "tx_wf ?t2 (Suc (Suc 0))" using p2(1) assms by simp
  note p3 = tx_put_run [OF w2, of 0 inodes 20]
  have w3: "tx_wf ?t3 3" using p3(1) assms by (simp add: numeral_3_eq_3)
  note p4 = tx_put_run [OF w3, of 512 inodes 21]
  have w4: "tx_wf ?t4 4" using p4(1) assms by simp
  note p5 = tx_put_run [OF w4, of 1024 inodes 22]
  have w5: "tx_wf ?t5 5" using p5(1) assms by simp
  note p6 = tx_put_run [OF w5, of 1536 inodes 23]
  have w6: "tx_wf ?t6 6" using p6(1) assms by simp
  show "tx_ok (tx_meta ib bb inodes)" using tx_wf_ok [OF w6] eq by simp
  show "tx_records (tx_meta ib bb inodes) =
      [\<lparr>rec_target_lba = 18, rec_payload = ib\<rparr>, \<lparr>rec_target_lba = 19, rec_payload = bb\<rparr>,
       \<lparr>rec_target_lba = 20, rec_payload = slice 0 512 inodes\<rparr>, \<lparr>rec_target_lba = 21, rec_payload = slice 512 512 inodes\<rparr>,
       \<lparr>rec_target_lba = 22, rec_payload = slice 1024 512 inodes\<rparr>, \<lparr>rec_target_lba = 23, rec_payload = slice 1536 512 inodes\<rparr>]"
    unfolding eq using p1(2) p2(2) p3(2) p4(2) p5(2) p6(2) assms tx_wf_zero(2) by simp
  have "\<not> M16_JOURNAL_MAX_RECORDS < tx_count ?t2 + 4"
  proof -
    have "unat (tx_count ?t2) = 2" using w2 by (simp add: tx_wf_def)
    then have "unat (tx_count ?t2 + 4) = 6" by (simp add: unat_word_ariths)
    then show ?thesis by (simp add: word_less_nat_alt M16_JOURNAL_MAX_RECORDS_def)
  qed
  then show "with_tx (m16_tx_add (Some m16_tx_zero) M16_INODE_BITMAP_LBA (Some ib)) dev (\<lambda>tx.
       with_tx (m16_tx_add tx M16_BLOCK_BITMAP_LBA (Some bb)) dev (\<lambda>tx.
       with_tx (m16_store_inode_table tx (Some inodes)) dev k)) = k (Some (tx_meta ib bb inodes))"
    using tx_add_run [OF tx_wf_zero(1)] tx_add_run [OF w1]
    by (simp add: with_tx_def m16_store_inode_table_def tx_meta_def lba_numbers)
qed

lemma tx_data_run:
  assumes "length dir = 512" "length data_blk = 512"
  shows "tx_ok (tx_data dir b data_blk)"
    "tx_records (tx_data dir b data_blk) =
      [\<lparr>rec_target_lba = 24, rec_payload = dir\<rparr>, \<lparr>rec_target_lba = of_nat b, rec_payload = data_blk\<rparr>]"
    "with_tx (m16_tx_add (Some m16_tx_zero) M16_ROOT_DIR_LBA (Some dir)) dev (\<lambda>tx.
       with_tx (m16_tx_add tx (of_nat b) (Some data_blk)) dev k) = k (Some (tx_data dir b data_blk))"
proof -
  let ?t1 = "tx_put m16_tx_zero 24 dir 0"
  note p1 = tx_put_run [OF tx_wf_zero(1), of 0 dir 24]
  have w1: "tx_wf ?t1 (Suc 0)" using p1(1) assms by simp
  note p2 = tx_put_run [OF w1, of 0 data_blk "of_nat b"]
  have w2: "tx_wf (tx_data dir b data_blk) (Suc (Suc 0))" using p2(1) assms by (simp add: tx_data_def lba_numbers)
  show "tx_ok (tx_data dir b data_blk)" by (rule tx_wf_ok [OF w2])
  show "tx_records (tx_data dir b data_blk) =
      [\<lparr>rec_target_lba = 24, rec_payload = dir\<rparr>, \<lparr>rec_target_lba = of_nat b, rec_payload = data_blk\<rparr>]"
    using p1(2) p2(2) assms tx_wf_zero(2) by (simp add: tx_data_def lba_numbers)
  show "with_tx (m16_tx_add (Some m16_tx_zero) M16_ROOT_DIR_LBA (Some dir)) dev (\<lambda>tx.
       with_tx (m16_tx_add tx (of_nat b) (Some data_blk)) dev k) = k (Some (tx_data dir b data_blk))"
    using tx_add_run [OF tx_wf_zero(1)] tx_add_run [OF w1]
    by (simp add: with_tx_def tx_data_def lba_numbers)
qed

text \<open>The contents after the first and after the second transaction.\<close>

definition home_meta :: "(nat \<Rightarrow> bytes) \<Rightarrow> nat \<Rightarrow> nat \<Rightarrow> u32 \<Rightarrow> nat \<Rightarrow> bytes" where
  "home_meta h ino b sz = apply_records (tx_records (tx_meta (m16_bitmap_set (h 18) (of_nat ino))
     (m16_bitmap_set (h 19) (of_nat b)) (set_inode (itab h) ino sz (of_nat b)))) h"

definition home_new ::
  "(nat \<Rightarrow> bytes) \<Rightarrow> bytes \<Rightarrow> bytes \<Rightarrow> u32 \<Rightarrow> nat \<Rightarrow> nat \<Rightarrow> nat \<Rightarrow> nat \<Rightarrow> bytes" where
  "home_new h name data sz ino b slot =
     apply_records (tx_records (tx_data (set_dirent (h 24) slot (of_nat ino) name (strnlen name 32)) b
       (m16_copy (replicate M16_BLOCK_SIZE 0) 0 data 0 (unat sz)))) (home_meta h ino b sz)"

definition fresh_create :: "m16_blockdev \<Rightarrow> (nat \<Rightarrow> bytes) \<Rightarrow> bytes \<Rightarrow> nat \<Rightarrow> nat \<Rightarrow> nat \<Rightarrow> bool" where
  "fresh_create d h name ino b slot \<longleftrightarrow>
     fs_consistent d h \<and> dev_total_blocks d = M16_MAX_BLOCKS \<and>
     (\<forall>k < 128. \<not> in_journal k \<longrightarrow> length (h k) = 512) \<and>
     0 < ino \<and> ino < 16 \<and> \<not> m16_bitmap_get (h 18) (of_nat ino) \<and>
     25 \<le> b \<and> b < 128 \<and> \<not> m16_bitmap_get (h 19) (of_nat b) \<and>
     slot < 12 \<and> dir_used (h 24) slot = 0 \<and>
     (\<forall>k < 12. \<not> (dir_used (h 24) k \<noteq> 0 \<and> m16_streq (dir_name (h 24) k) name)) \<and>
     strnlen name 32 < 32 \<and> strnlen name 32 < length name"

lemma fresh_lengths:
  assumes "fresh_create d h name ino b slot"
  shows "length (h 18) = 512" "length (h 19) = 512" "length (h 24) = 512" "length (itab h) = 2048"
  using assms by (auto simp: fresh_create_def itab_def in_journal_def)

lemma unat_small: "n < 128 \<Longrightarrow> unat (of_nat n :: u32) = n"
  by (subst unat_of_nat) simp

lemma home_meta_blocks:
  assumes "fresh_create d h name ino b slot"
  shows "home_meta h ino b sz 18 = m16_bitmap_set (h 18) (of_nat ino)"
    "home_meta h ino b sz 19 = m16_bitmap_set (h 19) (of_nat b)"
    "itab (home_meta h ino b sz) = set_inode (itab h) ino sz (of_nat b)"
    "k < 18 \<or> 23 < k \<Longrightarrow> home_meta h ino b sz k = h k"
proof -
  have i: "ino < 16" using assms by (simp add: fresh_create_def)
  note l = fresh_lengths [OF assms] set_inode_facts(1) [OF fresh_lengths(4) [OF assms] i, of sz "of_nat b"]
  let ?t = "set_inode (itab h) ino sz (of_nat b)"
  have split4: "slice 0 512 ?t @ slice 512 512 ?t @ slice 1024 512 ?t @ slice 1536 512 ?t = ?t"
  proof -
    have "slice 1024 512 ?t @ slice 1536 512 ?t = slice 1024 1024 ?t"
        "slice 512 512 ?t @ slice 1024 1024 ?t = slice 512 1536 ?t" "slice 0 512 ?t @ slice 512 1536 ?t = slice 0 2048 ?t"
      using slice_join [of 1024 512 ?t 512] slice_join [of 512 512 ?t 1024] slice_join [of 0 512 ?t 1536] by simp_all
    then show ?thesis using l(5) by simp
  qed
  have "tx_records (tx_meta (m16_bitmap_set (h 18) (of_nat ino)) (m16_bitmap_set (h 19) (of_nat b)) ?t) =
      [\<lparr>rec_target_lba = 18, rec_payload = m16_bitmap_set (h 18) (of_nat ino)\<rparr>,
       \<lparr>rec_target_lba = 19, rec_payload = m16_bitmap_set (h 19) (of_nat b)\<rparr>,
       \<lparr>rec_target_lba = 20, rec_payload = slice 0 512 ?t\<rparr>, \<lparr>rec_target_lba = 21, rec_payload = slice 512 512 ?t\<rparr>,
       \<lparr>rec_target_lba = 22, rec_payload = slice 1024 512 ?t\<rparr>, \<lparr>rec_target_lba = 23, rec_payload = slice 1536 512 ?t\<rparr>]"
    by (rule tx_meta_run(2)) (simp_all add: l)
  then have m: "home_meta h ino b sz = h(18 := m16_bitmap_set (h 18) (of_nat ino), 19 := m16_bitmap_set (h 19) (of_nat b),
      20 := slice 0 512 ?t, 21 := slice 512 512 ?t, 22 := slice 1024 512 ?t, 23 := slice 1536 512 ?t)"
    by (simp add: home_meta_def)
  show "home_meta h ino b sz 18 = m16_bitmap_set (h 18) (of_nat ino)"
    "home_meta h ino b sz 19 = m16_bitmap_set (h 19) (of_nat b)"
    "k < 18 \<or> 23 < k \<Longrightarrow> home_meta h ino b sz k = h k"
    unfolding m by auto
  show "itab (home_meta h ino b sz) = ?t" using split4 unfolding m itab_def by simp
qed

lemma fresh_entry:
  assumes f: "fresh_create d h name ino b slot" and k: "k < 12" "dir_used (h 24) k \<noteq> 0"
  defines "i \<equiv> unat (dir_ino (h 24) k)"
  shows "i < 16" "i \<noteq> ino" "dir_ino (h 24) k \<noteq> of_nat ino" "k \<noteq> slot"
    "unat (ino_direct0 (itab h) i) < 128" "25 \<le> unat (ino_direct0 (itab h) i)" "unat (ino_direct0 (itab h) i) \<noteq> b"
proof -
  have c: "fs_consistent d h" using f by (simp add: fresh_create_def)
  note e = consistent_entry [OF c k]
  show i: "i < 16" using e(1) by (simp add: i_def)
  show ne: "dir_ino (h 24) k \<noteq> of_nat ino" using e(2) f by (auto simp: fresh_create_def)
  have "ino < 128" using f by (simp add: fresh_create_def)
  then show "i \<noteq> ino" using ne unat_small [of ino] by (metis i_def word_unat_eq_iff)
  show "k \<noteq> slot" using k f by (auto simp: fresh_create_def)
  have "ino_direct0 (itab h) i \<noteq> of_nat b" using e(8) f by (auto simp: fresh_create_def i_def)
  moreover have "b < 128" using f by (simp add: fresh_create_def)
  ultimately show "unat (ino_direct0 (itab h) i) \<noteq> b" using unat_small [of b] by (metis word_unat_eq_iff)
  show "unat (ino_direct0 (itab h) i) < 128" "25 \<le> unat (ino_direct0 (itab h) i)"
    using e(6,7) f by (auto simp: fresh_create_def i_def M16_MAX_BLOCKS_def)
qed

text \<open>A file that existed before keeps its inode and its block.\<close>

lemma old_entry_kept:
  fixes sz :: u32
  assumes f: "fresh_create d h name ino b slot" and k: "k < 12" "dir_used (h 24) k \<noteq> 0"
  defines "i \<equiv> unat (dir_ino (h 24) k)" and "t \<equiv> set_inode (itab h) ino sz (of_nat b)"
  shows "ino_used t i = ino_used (itab h) i" "ino_kind t i = ino_kind (itab h) i"
    "ino_size t i = ino_size (itab h) i" "ino_direct0 t i = ino_direct0 (itab h) i"
  using fresh_entry [OF f k] set_inode_other [OF fresh_lengths(4) [OF f], of ino i] f
  by (auto simp: fresh_create_def i_def t_def)

lemma old_file_view:
  assumes f: "fresh_create d h name ino b slot"
    and h': "itab h' = set_inode (itab h) ino sz (of_nat b)" "\<And>j. 25 \<le> j \<Longrightarrow> j < 128 \<Longrightarrow> j \<noteq> b \<Longrightarrow> h' j = h j"
    and fd: "m16_find_dirent (h' 24) nm = m16_find_dirent (h 24) nm"
    and ino': "\<And>k. k < 12 \<Longrightarrow> dir_used (h 24) k \<noteq> 0 \<Longrightarrow> dir_ino (h' 24) k = dir_ino (h 24) k"
  shows "file_view h' nm = file_view h nm"
proof (cases "m16_find_dirent (h 24) nm")
  case (Inl e)
  then show ?thesis using fd by (simp add: file_view_def)
next
  case (Inr k)
  have k: "k < 12" "dir_used (h 24) k \<noteq> 0" using find_dirent_Inr [OF Inr] by auto
  note e = fresh_entry [OF f k] and o = old_entry_kept [OF f k, of sz]
  have "h' (unat (ino_direct0 (itab h) (unat (dir_ino (h 24) k)))) =
      h (unat (ino_direct0 (itab h) (unat (dir_ino (h 24) k))))"
    using h'(2) e by simp
  then show ?thesis using Inr fd ino' [OF k] o h'(1) by (simp add: file_view_def Let_def)
qed

lemma old_dirent_good:
  assumes f: "fresh_create d h name ino b slot" and k: "k < 12"
  shows "\<not> dirent_bad d (m16_bitmap_set (h 18) (of_nat ino)) (m16_bitmap_set (h 19) (of_nat b))
    (set_inode (itab h) ino sz (of_nat b)) (h 24) k"
proof (cases "dir_used (h 24) k = 0")
  case True
  then show ?thesis by (simp add: dirent_bad_def)
next
  case False
  have g: "\<not> dirent_bad d (h 18) (h 19) (itab h) (h 24) k" using f k by (auto simp: fresh_create_def fs_consistent_def)
  have u: "unat (of_nat ino :: u32) < 8 * length (h 18)" "unat (of_nat b :: u32) < 8 * length (h 19)"
    using f fresh_lengths [OF f] unat_small [of ino] unat_small [of b] by (auto simp: fresh_create_def)
  show ?thesis
    using g False old_entry_kept [OF f k False, of sz] m16_bitmap_get_set [OF u(1)] m16_bitmap_get_set [OF u(2)]
    by (simp add: dirent_bad_def Let_def)
qed

lemma home_meta_consistent:
  assumes f: "fresh_create d h name ino b slot"
  shows "fs_consistent d (home_meta h ino b sz)" "file_view (home_meta h ino b sz) nm = file_view h nm"
proof -
  note m = home_meta_blocks [OF f, where sz = sz]
  have u: "unat (of_nat ino :: u32) < 8 * length (h 18)" "unat (of_nat b :: u32) < 8 * length (h 19)"
    using f fresh_lengths [OF f] unat_small [of ino] unat_small [of b] by (auto simp: fresh_create_def)
  have z: "ino < 16" "0 \<noteq> ino" using f by (auto simp: fresh_create_def)
  note root = set_inode_other [OF fresh_lengths(4) [OF f] z(1), of 0]
  show "fs_consistent d (home_meta h ino b sz)"
    using f old_dirent_good [OF f] root z m16_bitmap_get_set [OF u(1)] m16_bitmap_get_set [OF u(2)]
    unfolding fs_consistent_def m by (auto simp: fresh_create_def fs_consistent_def m(4))
  show "file_view (home_meta h ino b sz) nm = file_view h nm"
    by (rule old_file_view [OF f, of _ sz]) (simp_all add: m)
qed

lemma home_new_blocks:
  fixes sz :: u32
  assumes f: "fresh_create d h name ino b slot" and sz: "unat sz \<le> 512" "unat sz \<le> length data"
  defines "h' \<equiv> home_new h name data sz ino b slot"
  shows "h' 18 = m16_bitmap_set (h 18) (of_nat ino)" "h' 19 = m16_bitmap_set (h 19) (of_nat b)"
    "itab h' = set_inode (itab h) ino sz (of_nat b)" "h' 0 = h 0"
    "h' 24 = set_dirent (h 24) slot (of_nat ino) name (strnlen name 32)"
    "take (unat sz) (h' b) = take (unat sz) data" "\<And>j. 25 \<le> j \<Longrightarrow> j \<noteq> b \<Longrightarrow> h' j = h j"
proof -
  have b: "25 \<le> b" "b < 128" and n: "slot < 12" "strnlen name 32 < 32" "strnlen name 32 \<le> length name"
    using f by (auto simp: fresh_create_def)
  let ?dir = "set_dirent (h 24) slot (of_nat ino) name (strnlen name 32)"
  let ?blk = "m16_copy (replicate M16_BLOCK_SIZE 0) 0 data 0 (unat sz)"
  have "length ?dir = 512" by (rule set_dirent_facts(1) [OF fresh_lengths(3) [OF f] n])
  moreover have "length ?blk = 512" by (simp add: m16_copy_def M16_BLOCK_SIZE_def)
  ultimately have m: "h' = (home_meta h ino b sz)(24 := ?dir, b := ?blk)"
    using tx_data_run(2) unat_small [OF b(2)] by (simp add: h'_def home_new_def)
  note mb = home_meta_blocks [OF f, where sz = sz]
  show "h' 18 = m16_bitmap_set (h 18) (of_nat ino)" "h' 19 = m16_bitmap_set (h 19) (of_nat b)" "h' 0 = h 0"
    "h' 24 = ?dir" "\<And>j. 25 \<le> j \<Longrightarrow> j \<noteq> b \<Longrightarrow> h' j = h j"
    unfolding m using mb b by auto
  show "itab h' = set_inode (itab h) ino sz (of_nat b)" using mb(3) b by (simp add: m itab_def)
  have "?blk = patch 0 (slice 0 (unat sz) data) (replicate 512 0)"
    using sz by (simp add: m16_copy_def M16_BLOCK_SIZE_def copy_loop_patch)
  then show "take (unat sz) (h' b) = take (unat sz) data" using sz by (simp add: m patch_def slice_def)
qed

lemma new_dirents:
  assumes f: "fresh_create d h name ino b slot"
  defines "dir' \<equiv> set_dirent (h 24) slot (of_nat ino) name (strnlen name 32)"
  shows "\<not> m16_streq name nm \<Longrightarrow> m16_find_dirent dir' nm = m16_find_dirent (h 24) nm"
    "m16_find_dirent dir' name = Inr slot" "dir_used dir' slot = 1" "dir_ino dir' slot = of_nat ino"
    "\<And>k. k < 12 \<Longrightarrow> k \<noteq> slot \<Longrightarrow> dir_used dir' k = dir_used (h 24) k \<and> dir_ino dir' k = dir_ino (h 24) k"
proof -
  have n: "slot < 12" "strnlen name 32 < 32" "strnlen name 32 \<le> length name" "strnlen name 32 < length name"
    using f by (auto simp: fresh_create_def)
  note a = set_dirent_facts [OF fresh_lengths(3) [OF f] n(1-3), of "of_nat ino"]
  note o = set_dirent_other [OF fresh_lengths(3) [OF f] n(1-3), where ino = "of_nat ino"]
  have eq: "m16_streq (dir_name dir' slot) x = m16_streq name x" for x
    using a(4) m16_streq_padded [OF n(2,4) strnlen_stop [OF n(2)]] by (simp add: dir'_def)
  show u: "dir_used dir' slot = 1" "dir_ino dir' slot = of_nat ino" using a by (simp_all add: dir'_def)
  show ok: "\<And>k. k < 12 \<Longrightarrow> k \<noteq> slot \<Longrightarrow> dir_used dir' k = dir_used (h 24) k \<and> dir_ino dir' k = dir_ino (h 24) k"
    using o by (simp add: dir'_def)
  have on: "\<And>k. k < 12 \<Longrightarrow> k \<noteq> slot \<Longrightarrow> dir_name dir' k = dir_name (h 24) k" using o(3) by (simp add: dir'_def)
  have old: "dir_used (h 24) slot = 0" "\<forall>k < 12. \<not> (dir_used (h 24) k \<noteq> 0 \<and> m16_streq (dir_name (h 24) k) name)"
    using f by (auto simp: fresh_create_def)
  show "m16_find_dirent dir' nm = m16_find_dirent (h 24) nm" if "\<not> m16_streq name nm"
  proof -
    have "(dir_used dir' k \<noteq> 0 \<and> m16_streq (dir_name dir' k) nm) = (dir_used (h 24) k \<noteq> 0 \<and> m16_streq (dir_name (h 24) k) nm)"
      if "k < 12" for k
      using that \<open>\<not> m16_streq name nm\<close> eq old(1) ok on by (cases "k = slot") auto
    then show ?thesis
      unfolding m16_find_dirent_def lba_numbers
      by (subst first_index_cong [where q = "\<lambda>i. dir_used (h 24) i \<noteq> 0 \<and> m16_streq (dir_name (h 24) i) nm"]) auto
  qed
  have "first_index (\<lambda>i. dir_used dir' i \<noteq> 0 \<and> m16_streq (dir_name dir' i) name) 0 12 = Some slot"
    unfolding first_index_Some_iff using n(1) u eq m16_streq_refl old(2) ok on by auto
  then show "m16_find_dirent dir' name = Inr slot" by (simp add: m16_find_dirent_def lba_numbers)
qed

lemma home_new_consistent:
  fixes sz :: u32
  assumes f: "fresh_create d h name ino b slot" and sz: "unat sz \<le> 512" "unat sz \<le> length data"
  defines "h' \<equiv> home_new h name data sz ino b slot"
  shows "fs_consistent d h'" "file_view h' name = Inr (take (unat sz) data)"
    "\<not> m16_streq name nm \<Longrightarrow> file_view h' nm = file_view h nm"
proof -
  note m = home_new_blocks [OF f sz, folded h'_def] and nd = new_dirents [OF f]
  have b: "25 \<le> b" "b < 128" and i: "ino < 16" "0 \<noteq> ino" using f by (auto simp: fresh_create_def)
  have ub: "unat (of_nat b :: u32) = b" "unat (of_nat ino :: u32) = ino" using b i unat_small by auto
  have u: "unat (of_nat ino :: u32) < 8 * length (h 18)" "unat (of_nat b :: u32) < 8 * length (h 19)"
    using ub b i fresh_lengths [OF f] by auto
  note g = m16_bitmap_get_set [OF u(1)] m16_bitmap_get_set [OF u(2)]
  note si = set_inode_facts [OF fresh_lengths(4) [OF f] i(1), of sz "of_nat b"]
  note root = set_inode_other [OF fresh_lengths(4) [OF f] i(1), of 0]
  have tot: "dev_total_blocks d = 128" using f by (simp add: fresh_create_def M16_MAX_BLOCKS_def)
  have good: "\<not> dirent_bad d (h' 18) (h' 19) (itab h') (h' 24) k" if k: "k < 12" for k
  proof (cases "k = slot")
    case True
    then show ?thesis
      using nd(3,4) si ub b i g sz tot unfolding m
      by (simp add: dirent_bad_def Let_def word_le_nat_alt word_less_nat_alt M16_MAX_INODES_def lba_numbers M16_BLOCK_SIZE_def)
  next
    case False
    then show ?thesis
      using old_dirent_good [OF f k, of sz] nd(5) [OF k False] unfolding m by (simp add: dirent_bad_def)
  qed
  have c: "fs_consistent d h" using f by (simp add: fresh_create_def)
  show "fs_consistent d h'"
    unfolding fs_consistent_def using good c root i g by (auto simp: m fs_consistent_def)
  show "file_view h' name = Inr (take (unat sz) data)"
    using nd(2,4) si ub b i sz m(6)
    by (simp add: file_view_def m(3,5) Let_def word_le_nat_alt word_less_nat_alt M16_MAX_INODES_def M16_MAX_BLOCKS_def)
  show "file_view h' nm = file_view h nm" if "\<not> m16_streq name nm"
  proof (rule old_file_view [OF f, of _ sz])
    show "m16_find_dirent (h' 24) nm = m16_find_dirent (h 24) nm" using nd(1) [OF that] by (simp add: m)
    show "dir_ino (h' 24) k = dir_ino (h 24) k" if "k < 12" "dir_used (h 24) k \<noteq> 0" for k
      using nd(5) fresh_entry(4) [OF f that] that by (simp add: m(5))
  qed (use m(3,7) in auto)
qed

section \<open>File creation\<close>

text \<open>The two transactions of a creation on the device \<open>d\<close>.\<close>

definition create_meta :: "m16_blockdev \<Rightarrow> nat \<Rightarrow> nat \<Rightarrow> u32 \<Rightarrow> u32 \<times> m16_tx" where
  "create_meta d ino b sz = (sb_clean_generation (home d 0) + 1,
     tx_meta (m16_bitmap_set (home d 18) (of_nat ino)) (m16_bitmap_set (home d 19) (of_nat b))
       (set_inode (itab (home d)) ino sz (of_nat b)))"

definition create_data :: "m16_blockdev \<Rightarrow> bytes \<Rightarrow> bytes \<Rightarrow> u32 \<Rightarrow> nat \<Rightarrow> nat \<Rightarrow> nat \<Rightarrow> u32 \<times> m16_tx" where
  "create_data d name data sz ino b slot = (sb_clean_generation (home d 0) + 2,
     tx_data (set_dirent (home d 24) slot (of_nat ino) name (strnlen name 32)) b
       (m16_copy (replicate M16_BLOCK_SIZE 0) 0 data 0 (unat sz)))"

lemma create_changes:
  "jr_change (create_meta d ino b sz) (jr_contents d) = (dev_total_blocks d, home_meta (home d) ino b sz)"
  "jr_change (create_data d name data sz ino b slot) (n, home_meta (home d) ino b sz) =
     (n, home_new (home d) name data sz ino b slot)"
  by (simp_all add: jr_change_def jr_contents_def create_meta_def create_data_def home_meta_def home_new_def)

lemma write_transactions_commits:
  assumes d: "jr_ready d" and l: "length ib = 512" "length bb = 512" "length t = 2048" "length dir = 512" "length blk = 512"
    and leg: "jr_legal d (g + 1, tx_meta ib bb t)" "jr_legal d (g + 2, tx_data dir b blk)"
  shows "\<exists>rc d'. write_transactions (Some d) g ib bb t dir b blk stop = (rc, Some d') \<and>
    commits_log jr_commit (jr_log stop) [(g + 1, tx_meta ib bb t)] (g + 2, tx_data dir b blk) d = (rc = M16_E_OK, d') \<and>
    (dev_fail_after d < 0 \<longrightarrow> rc = M16_E_OK \<and> dev_fail_after d' < 0)"
proof -
  have one: "\<exists>rc d'. m16_journal_commit (Some e) (Some tx) sq s = (rc, Some d') \<and>
      jr_log s e (sq, tx) = (rc = M16_E_OK, d') \<and> (dev_fail_after e < 0 \<longrightarrow> rc = M16_E_OK \<and> dev_fail_after d' < 0)"
    if "jr_ready e" "jr_legal e (sq, tx)" for e tx sq s
    using commit_run [of e tx sq s] that by (auto simp: jr_ready_def jr_legal_def jr_log_def)
  obtain rc1 d1 where c1: "m16_journal_commit (Some d) (Some (tx_meta ib bb t)) (g + 1) False = (rc1, Some d1)"
      "jr_commit d (g + 1, tx_meta ib bb t) = (rc1 = M16_E_OK, d1)"
      "dev_fail_after d < 0 \<longrightarrow> rc1 = M16_E_OK \<and> dev_fail_after d1 < 0"
    using one [OF d leg(1)] by blast
  have run: "write_transactions (Some d) g ib bb t dir b blk stop =
      on_ok (rc1, Some d1) (\<lambda>dev. m16_journal_commit dev (Some (tx_data dir b blk)) (g + 2) stop)"
    unfolding write_transactions_def using c1(1) by (simp add: tx_meta_run(3) [OF l(1-3)] tx_data_run(3) [OF l(4,5)])
  show ?thesis
  proof (cases "rc1 = M16_E_OK")
    case True
    then have r1: "jr_ready d1" "jr_legal d1 (g + 2, tx_data dir b blk)"
      using jr.commit_done [OF d leg(1)] jr.legal_kept [OF d leg c1(2)] c1(2) by auto
    show ?thesis using one [OF r1, of stop] run c1(2,3) True by (auto simp: commits_log_def)
  next
    case False
    then show ?thesis using run c1(2,3) by (auto simp: on_ok_def commits_log_def)
  qed
qed

lemma find_free_inode_Inr:
  "m16_find_free_inode ib = Inr i \<Longrightarrow> 0 < i \<and> i < 16 \<and> \<not> m16_bitmap_get ib (of_nat i)"
  by (auto simp: m16_find_free_inode_def M16_MAX_INODES_def split: option.splits dest: first_index_SomeD)

lemma find_free_block_Inr:
  "m16_find_free_block bb = Inr i \<Longrightarrow> 25 \<le> i \<and> i < 128 \<and> \<not> m16_bitmap_get bb (of_nat i)"
  by (auto simp: m16_find_free_block_def lba_numbers M16_MAX_BLOCKS_def split: option.splits dest: first_index_SomeD)

lemma find_free_dirent_Inr: "m16_find_free_dirent dir = Inr i \<Longrightarrow> i < 12 \<and> dir_used dir i = 0"
  by (auto simp: m16_find_free_dirent_def lba_numbers split: option.splits dest: first_index_SomeD)

lemma find_free_Inl:
  "m16_find_free_inode ib = Inl e \<Longrightarrow> e = M16_E_NOSPC" "m16_find_free_block ib = Inl e \<Longrightarrow> e = M16_E_NOSPC"
  "m16_find_free_dirent ib = Inl e \<Longrightarrow> e = M16_E_NOSPC"
  by (auto simp: m16_find_free_inode_def m16_find_free_block_def m16_find_free_dirent_def split: option.splits)

text \<open>Names the code accepts.\<close>

definition name_ok :: "bytes \<Rightarrow> bool" where
  "name_ok name \<longleftrightarrow> 0 < strnlen name 32 \<and> strnlen name 32 < 32 \<and> strnlen name 32 < length name"

definition has_room :: "m16_blockdev \<Rightarrow> bool" where
  "has_room d \<longleftrightarrow> (\<exists>i b k. m16_find_free_inode (home d 18) = Inr i \<and> m16_find_free_block (home d 19) = Inr b \<and>
     m16_find_free_dirent (home d 24) = Inr k)"

text \<open>The call on a mounted device: the searches, then the two transactions.\<close>

lemma write_file_searches:
  fixes sz :: u32
  assumes d: "fs_dev d" and c: "fs_consistent d (home d)" and n: "name_ok name" and sz: "unat sz \<le> 512"
  shows "m16_write_file_ex (Some d) (Some name) (Some data) sz stop =
    (case m16_find_dirent (home d 24) name of Inr _ \<Rightarrow> (M16_E_EXISTS, Some d)
     | Inl _ \<Rightarrow> (case m16_find_free_inode (home d 18) of Inl e \<Rightarrow> (e, Some d) | Inr ino \<Rightarrow>
         (case m16_find_free_block (home d 19) of Inl e \<Rightarrow> (e, Some d) | Inr b \<Rightarrow>
           (case m16_find_free_dirent (home d 24) of Inl e \<Rightarrow> (e, Some d) | Inr slot \<Rightarrow>
              write_transactions (Some d) (sb_clean_generation (home d 0)) (m16_bitmap_set (home d 18) (of_nat ino))
                (m16_bitmap_set (home d 19) (of_nat b)) (set_inode (itab (home d)) ino sz (of_nat b))
                (set_dirent (home d 24) slot (of_nat ino) name (strnlen name 32)) b
                (m16_copy (replicate M16_BLOCK_SIZE 0) 0 data 0 (unat sz)) stop))))"
proof -
  have sup: "super_ok (home d 0)" using c by (simp add: fs_consistent_def)
  have wb: "with_block (Some d) 18 k = k (home d 18)" "with_block (Some d) 19 k = k (home d 19)"
    "with_block (Some d) 24 k = k (home d 24)" for k
    using with_block_home [OF d] by (simp_all add: in_journal_def)
  show ?thesis
    using n sz sup mount_ready [OF d] load_inode_table [OF d]
    by (simp add: m16_write_file_ex_def m16_strlen_bounded_def M16_MAX_NAME_def name_ok_def
          M16_BLOCK_SIZE_def lba_numbers wb)
       (simp add: M16_BLOCK_SIZE_def split: sum.split)
qed

lemma create_runs:
  fixes sz :: u32
  assumes d: "fs_dev d" and f: "fresh_create d (home d) name ino b slot" and sz: "unat sz \<le> 512" "unat sz \<le> length data"
  defines "t1 \<equiv> create_meta d ino b sz" and "t2 \<equiv> create_data d name data sz ino b slot"
  shows "jr_legal d t1" "jr_legal d t2"
    "\<exists>rc d'. write_transactions (Some d) (sb_clean_generation (home d 0)) (m16_bitmap_set (home d 18) (of_nat ino))
        (m16_bitmap_set (home d 19) (of_nat b)) (set_inode (itab (home d)) ino sz (of_nat b))
        (set_dirent (home d 24) slot (of_nat ino) name (strnlen name 32)) b
        (m16_copy (replicate M16_BLOCK_SIZE 0) 0 data 0 (unat sz)) stop = (rc, Some d') \<and>
      commits_log jr_commit (jr_log stop) [t1] t2 d = (rc = M16_E_OK, d') \<and>
      (dev_fail_after d < 0 \<longrightarrow> rc = M16_E_OK \<and> dev_fail_after d' < 0)"
    "tx_records (snd t2) \<noteq> []"
proof -
  let ?ib = "m16_bitmap_set (home d 18) (of_nat ino)" and ?bb = "m16_bitmap_set (home d 19) (of_nat b)"
  let ?t = "set_inode (itab (home d)) ino sz (of_nat b)"
  let ?dir = "set_dirent (home d 24) slot (of_nat ino) name (strnlen name 32)"
  let ?blk = "m16_copy (replicate M16_BLOCK_SIZE 0) 0 data 0 (unat sz)"
  have l: "length ?ib = 512" "length ?bb = 512" "length ?t = 2048" "length ?dir = 512" "length ?blk = 512"
    using f sz fresh_lengths [OF f] set_inode_facts(1) [OF fresh_lengths(4) [OF f]]
      set_dirent_facts(1) [OF fresh_lengths(3) [OF f]]
    by (simp_all add: fresh_create_def m16_copy_def M16_BLOCK_SIZE_def)
  have b: "b < 128" "25 \<le> b" "unat (of_nat b :: u32) = b" using f unat_small by (auto simp: fresh_create_def)
  show leg1: "jr_legal d t1"
    using tx_meta_run(1,2) [OF l(1-3)] l(1-3)
    by (simp add: jr_legal_def rec_legal_def fs_valid [OF d] in_journal_def t1_def create_meta_def)
  show leg2: "jr_legal d t2"
    using tx_data_run(1,2) [OF l(4,5), of b] l(4,5) b
    by (simp add: jr_legal_def rec_legal_def fs_valid [OF d] in_journal_def t2_def create_data_def)
  show "tx_records (snd t2) \<noteq> []" using tx_data_run(2) [OF l(4,5)] by (simp add: t2_def create_data_def)
  have rd: "jr_ready d" using d by (simp add: fs_dev_def)
  show "\<exists>rc d'. write_transactions (Some d) (sb_clean_generation (home d 0)) ?ib ?bb ?t ?dir b ?blk stop = (rc, Some d') \<and>
      commits_log jr_commit (jr_log stop) [t1] t2 d = (rc = M16_E_OK, d') \<and>
      (dev_fail_after d < 0 \<longrightarrow> rc = M16_E_OK \<and> dev_fail_after d' < 0)"
    using write_transactions_commits [OF rd l leg1 [unfolded t1_def create_meta_def] leg2 [unfolded t2_def create_data_def]]
    unfolding t1_def t2_def create_meta_def create_data_def .
qed

lemma write_file_cases:
  fixes sz :: u32
  assumes d: "fs_dev d" and c: "fs_consistent d (home d)" and n: "name_ok name"
    and sz: "unat sz \<le> 512" "unat sz \<le> length data"
  obtains (exists) k where "m16_find_dirent (home d 24) name = Inr k"
      "m16_write_file_ex (Some d) (Some name) (Some data) sz stop = (M16_E_EXISTS, Some d)"
  | (full) "\<not> has_room d" "m16_find_dirent (home d 24) name = Inl M16_E_NOENT"
      "m16_write_file_ex (Some d) (Some name) (Some data) sz stop = (M16_E_NOSPC, Some d)"
  | (go) ino b slot rc d1 where "m16_find_dirent (home d 24) name = Inl M16_E_NOENT" "has_room d"
      "fresh_create d (home d) name ino b slot"
      "m16_write_file_ex (Some d) (Some name) (Some data) sz stop = (rc, Some d1)"
      "commits_log jr_commit (jr_log stop) [create_meta d ino b sz] (create_data d name data sz ino b slot) d =
         (rc = M16_E_OK, d1)"
      "dev_fail_after d < 0 \<longrightarrow> rc = M16_E_OK \<and> dev_fail_after d1 < 0"
proof -
  note w = write_file_searches [OF d c n sz(1), of data stop]
  show thesis
  proof (cases "m16_find_dirent (home d 24) name")
    case (Inr k)
    then show thesis using w exists by simp
  next
    case (Inl e)
    have ne: "m16_find_dirent (home d 24) name = Inl M16_E_NOENT" using Inl find_dirent_Inl by metis
    show thesis
    proof (cases "has_room d")
      case False
      then have "m16_write_file_ex (Some d) (Some name) (Some data) sz stop = (M16_E_NOSPC, Some d)"
        using w ne find_free_Inl by (auto simp: has_room_def split: sum.splits)
      then show thesis using full False ne by simp
    next
      case True
      then obtain ino b slot where r: "m16_find_free_inode (home d 18) = Inr ino" "m16_find_free_block (home d 19) = Inr b"
          "m16_find_free_dirent (home d 24) = Inr slot" by (auto simp: has_room_def)
      have f: "fresh_create d (home d) name ino b slot"
        using c d n find_free_inode_Inr [OF r(1)] find_free_block_Inr [OF r(2)] find_free_dirent_Inr [OF r(3)]
          find_dirent_Inl [OF ne] home_length [OF fs_dev_ok(1) [OF d]]
        by (auto simp: fresh_create_def fs_dev_def name_ok_def)
      obtain rc d1 where t: "write_transactions (Some d) (sb_clean_generation (home d 0)) (m16_bitmap_set (home d 18) (of_nat ino))
          (m16_bitmap_set (home d 19) (of_nat b)) (set_inode (itab (home d)) ino sz (of_nat b))
          (set_dirent (home d 24) slot (of_nat ino) name (strnlen name 32)) b
          (m16_copy (replicate M16_BLOCK_SIZE 0) 0 data 0 (unat sz)) stop = (rc, Some d1)"
        "commits_log jr_commit (jr_log stop) [create_meta d ino b sz] (create_data d name data sz ino b slot) d =
           (rc = M16_E_OK, d1)"
        "dev_fail_after d < 0 \<longrightarrow> rc = M16_E_OK \<and> dev_fail_after d1 < 0"
        using create_runs(3) [OF d f sz, of stop] by blast
      have "m16_write_file_ex (Some d) (Some name) (Some data) sz stop = (rc, Some d1)"
        unfolding w ne r sum.case by (rule t(1))
      then show thesis using t(2,3) by (rule go [OF ne True f])
    qed
  qed
qed

lemma fs_consistent_total: "dev_total_blocks d' = dev_total_blocks d \<Longrightarrow> fs_consistent d' h = fs_consistent d h"
  by (simp add: fs_consistent_def dirent_bad_def)

lemma fs_dev_fsck: "fs_dev d \<Longrightarrow> m16_fsck (Some d) = (M16_E_OK, Some d) \<longleftrightarrow> fs_consistent d (home d)"
  by (simp add: fsck_view)

lemma same_files:
  assumes "fs_dev d" "fs_consistent d (home d)" "fs_dev d'" "home d' = home d"
  shows "fs_consistent d' (home d')" "file_of d' nm = file_of d nm"
proof -
  have "dev_total_blocks d' = dev_total_blocks d" using assms(1,3) by (simp add: fs_dev_def)
  then show c: "fs_consistent d' (home d')" using assms(2,4) by (metis fs_consistent_total)
  show "file_of d' nm = file_of d nm" using file_of_view [OF assms(1,2)] file_of_view [OF assms(3) c] assms(4) by simp
qed

text \<open>The states a file creation may leave, over the contents.\<close>

lemma create_prefix:
  assumes d: "fs_dev d" and f: "fresh_create d (home d) name ino b slot" and sz: "unat sz \<le> 512" "unat sz \<le> length data"
    and run: "commits_log jr_commit (jr_log stop) [create_meta d ino b sz] (create_data d name data sz ino b slot) d = (ok, d1)"
  defines "d2 \<equiv> jr_recover d1" and "new \<equiv> home_new (home d) name data sz ino b slot"
  shows "jr_recovers d1" "fs_dev d2" "home d2 = new \<or> \<not> ok \<and> (home d2 = home d \<or> home d2 = home_meta (home d) ino b sz)"
    "ok \<Longrightarrow> \<not> stop \<Longrightarrow> fs_dev d1 \<and> home d1 = new"
proof -
  let ?t1 = "create_meta d ino b sz" and ?t2 = "create_data d name data sz ino b slot"
  have r: "jr_ready d" using d by (simp add: fs_dev_def)
  have leg: "\<forall>t \<in> set ([?t1] @ [?t2]). jr_legal d t" using create_runs(1,2) [OF d f sz] by simp
  obtain k where k: "k \<le> 2" "jr_recovers d1" "jr_ready d2"
      "jr_contents d2 = fold jr_change (take k [?t1, ?t2]) (jr_contents d)" "ok \<longrightarrow> k = 2"
    using jl.commits_log_prefix [OF r leg run] by (auto simp: d2_def numeral_2_eq_2)
  show "jr_recovers d1" by (rule k(2))
  have "jr_contents d2 = (dev_total_blocks d, new) \<or>
      \<not> ok \<and> (jr_contents d2 = jr_contents d \<or> jr_contents d2 = (dev_total_blocks d, home_meta (home d) ino b sz))"
    using k(1,4,5) by (auto simp: create_changes new_def le_Suc_eq numeral_2_eq_2)
  then show "fs_dev d2" "home d2 = new \<or> \<not> ok \<and> (home d2 = home d \<or> home d2 = home_meta (home d) ino b sz)"
    using k(3) d by (auto simp: fs_dev_def jr_contents_def)
  assume "ok" "\<not> stop"
  then have "commits jr_commit [?t1, ?t2] d = (True, d1)" using run commits_log_commit [of jr_commit "[?t1]"] by simp
  then have "jr_ready d1" "jr_contents d1 = (dev_total_blocks d, new)"
    using jr.commits_prefix [OF r, of "[?t1, ?t2]"] leg by (auto simp: create_changes new_def)
  then show "fs_dev d1 \<and> home d1 = new" using d by (simp add: fs_dev_def jr_contents_def)
qed

lemma write_file_outcome:
  fixes sz :: u32
  assumes d: "fs_dev d" and c: "fs_consistent d (home d)" and n: "name_ok name"
    and sz: "unat sz \<le> 512" "unat sz \<le> length data"
    and w: "m16_write_file_ex (Some d) (Some name) (Some data) sz stop = (rc, Some d1)"
  defines "d2 \<equiv> jr_recover d1"
  shows "jr_recovers d1 \<and> fs_dev d2 \<and> fs_consistent d2 (home d2) \<and> (\<forall>nm. \<not> m16_streq name nm \<longrightarrow> file_of d2 nm = file_of d nm) \<and>
    (if rc = M16_E_OK then (stop \<or> fs_dev d1 \<and> home d1 = home d2) \<and> file_of d2 name = Inr (take (unat sz) data)
     else file_of d2 name = file_of d name \<or> file_of d2 name = Inr (take (unat sz) data))"
proof -
  have same: ?thesis if "d1 = d" "rc \<noteq> M16_E_OK"
  proof -
    have r: "jr_recovers d" "fs_dev d2" "home d2 = home d"
      using jr.recover_ready [of d] d that by (auto simp: d2_def fs_dev_def jr_contents_def)
    with same_files [OF d c r(2,3)] show ?thesis using that by simp
  qed
  show ?thesis
  proof (rule write_file_cases [OF d c n sz, of stop])
    fix ino b slot rc' d1'
    assume f: "fresh_create d (home d) name ino b slot"
      and w': "m16_write_file_ex (Some d) (Some name) (Some data) sz stop = (rc', Some d1')"
      and run: "commits_log jr_commit (jr_log stop) [create_meta d ino b sz] (create_data d name data sz ino b slot) d =
        (rc' = M16_E_OK, d1')"
    have e: "rc' = rc" "d1' = d1" using w w' by simp_all
    note p = create_prefix [OF d f sz run [unfolded e], folded d2_def]
    note cm = home_meta_consistent [OF f, where sz = sz] and cn = home_new_consistent [OF f sz]
    have tot: "dev_total_blocks d2 = dev_total_blocks d" using p(2) d by (simp add: fs_dev_def)
    have c2: "fs_consistent d2 (home d2)"
      unfolding fs_consistent_total [OF tot] using p(3) by (elim disjE conjE) (simp_all only: c cm(1) cn(1))
    note v = file_of_view [OF d c] file_of_view [OF p(2) c2]
    have others: "file_of d2 nm = file_of d nm" if "\<not> m16_streq name nm" for nm
      unfolding v using p(3) by (elim disjE conjE) (simp_all only: cm(2) cn(3) [OF that])
    have "file_of d2 name = Inr (take (unat sz) data) \<or> rc \<noteq> M16_E_OK \<and> file_of d2 name = file_of d name"
      unfolding v using p(3) by (elim disjE conjE) (simp_all only: cm(2) cn(2) simp_thms)
    then show ?thesis using p c2 others by auto
  qed (use same w in auto)
qed

lemma fs_dev_find:
  assumes "fs_dev d" "fs_consistent d (home d)"
  shows "file_of d name = Inl M16_E_NOENT \<longleftrightarrow> m16_find_dirent (home d 24) name = Inl M16_E_NOENT"
proof (cases "m16_find_dirent (home d 24) name")
  case (Inl e)
  then show ?thesis using file_of_view [OF assms] by (simp add: file_view_def)
next
  case (Inr k)
  have k: "k < 12" "dir_used (home d 24) k \<noteq> 0" using find_dirent_Inr [OF Inr] by auto
  show ?thesis
    using Inr file_of_view [OF assms] consistent_entry [OF assms(2) k]
    by (simp add: file_view_def Let_def)
qed

text \<open>How many more files can be created: the least of the free inodes, data blocks and directory entries.\<close>

definition free_inodes :: "(nat \<Rightarrow> bytes) \<Rightarrow> nat set" where
  "free_inodes h = {i. 1 \<le> i \<and> i < 16 \<and> \<not> m16_bitmap_get (h 18) (of_nat i)}"

definition free_blocks :: "(nat \<Rightarrow> bytes) \<Rightarrow> nat set" where
  "free_blocks h = {b. 25 \<le> b \<and> b < 128 \<and> \<not> m16_bitmap_get (h 19) (of_nat b)}"

definition free_dirents :: "(nat \<Rightarrow> bytes) \<Rightarrow> nat set" where
  "free_dirents h = {k. k < 12 \<and> dir_used (h 24) k = 0}"

definition files_left :: "(nat \<Rightarrow> bytes) \<Rightarrow> nat" where
  "files_left h = min (card (free_inodes h)) (min (card (free_blocks h)) (card (free_dirents h)))"

lemma finite_free [simp]: "finite (free_inodes h)" "finite (free_blocks h)" "finite (free_dirents h)"
  by (simp_all add: free_inodes_def free_blocks_def free_dirents_def)

lemma has_room_left: "has_room d \<longleftrightarrow> 0 < files_left (home d)"
proof -
  have f: "(\<exists>k. (case first_index p lo hi of Some i \<Rightarrow> Inr i | None \<Rightarrow> Inl (e :: m16_status)) = Inr k) \<longleftrightarrow> {i. lo \<le> i \<and> i < hi \<and> p i} \<noteq> {}"
    for p lo hi e
    by (auto split: option.splits simp: first_index_None_iff first_index_Some_iff)
  show ?thesis
    using f [where p = "\<lambda>i. \<not> m16_bitmap_get (home d 18) (of_nat i)" and lo = 1 and hi = 16]
      f [where p = "\<lambda>i. \<not> m16_bitmap_get (home d 19) (of_nat i)" and lo = 25 and hi = 128]
      f [where p = "\<lambda>i. dir_used (home d 24) i = 0" and lo = 0 and hi = 12]
    by (simp add: has_room_def m16_find_free_inode_def m16_find_free_block_def m16_find_free_dirent_def files_left_def
          free_inodes_def free_blocks_def free_dirents_def lba_numbers M16_MAX_INODES_def M16_MAX_BLOCKS_def card_gt_0_iff)
qed

lemma bitmap_free_set:
  assumes "n < 128" "length bm = 512"
  shows "{i. lo \<le> i \<and> i < 128 \<and> \<not> m16_bitmap_get (m16_bitmap_set bm (of_nat n)) (of_nat i)} =
    {i. lo \<le> i \<and> i < 128 \<and> \<not> m16_bitmap_get bm (of_nat i)} - {n}"
proof -
  have "(of_nat i :: u32) = of_nat n \<longleftrightarrow> i = n" if "i < 128" for i using that assms(1) unat_small by metis
  then show ?thesis using m16_bitmap_get_set [of "of_nat n" bm] unat_small [OF assms(1)] assms by auto
qed

lemma create_uses:
  fixes sz :: u32
  assumes f: "fresh_create d h name ino b slot" and sz: "unat sz \<le> 512" "unat sz \<le> length data"
  shows "files_left (home_new h name data sz ino b slot) = files_left h - 1"
proof -
  let ?h = "home_new h name data sz ino b slot"
  note m = home_new_blocks [OF f sz] and nd = new_dirents(3,5) [OF f]
  have i: "0 < ino" "ino < 16" "25 \<le> b" "b < 128" "slot < 12" using f by (auto simp: fresh_create_def)
  have in1: "ino \<in> free_inodes h" "b \<in> free_blocks h" "slot \<in> free_dirents h"
    using f by (auto simp: fresh_create_def free_inodes_def free_blocks_def free_dirents_def)
  have "free_inodes g = {k. 1 \<le> k \<and> k < 128 \<and> \<not> m16_bitmap_get (g 18) (of_nat k)} \<inter> {..<16}" for g
    by (auto simp: free_inodes_def)
  then have "free_inodes ?h = free_inodes h - {ino}"
    using bitmap_free_set [of ino "h 18" 1] i(2) fresh_lengths(1) [OF f] m(1) by auto
  moreover have "free_blocks ?h = free_blocks h - {b}"
    using bitmap_free_set [of b "h 19" 25] i(4) fresh_lengths(2) [OF f] m(2) by (simp add: free_blocks_def)
  moreover have "free_dirents ?h = free_dirents h - {slot}"
    using nd m(5) by (auto simp: free_dirents_def) (metis one_neq_zero)
  ultimately show ?thesis using in1 by (simp add: files_left_def card_Diff_singleton)
qed

lemma m16_streq_sym: "m16_streq a b \<longleftrightarrow> m16_streq b a"
proof -
  have "m16_streq b a" if s: "m16_streq a b" for a b
    unfolding m16_streq_iff
  proof (intro allI impI)
    fix i :: nat assume "i < 32" "\<forall>j < i. b ! j \<noteq> 0"
    then show "b ! i = a ! i"
    proof (induction i rule: less_induct)
      case (less i)
      have "b ! j = a ! j" if "j < i" for j using less.IH [OF that] less.prems that by simp
      then show ?case using s less.prems unfolding m16_streq_iff by metis
    qed
  qed
  then show ?thesis by blast
qed

text \<open>One creation on a consistent device without faults, completely.\<close>

lemma write_file_step:
  fixes sz :: u32
  assumes d: "fs_dev d" "fs_consistent d (home d)" "dev_fail_after d < 0"
    and n: "name_ok name" "unat sz \<le> 512" "unat sz \<le> length data"
  shows "if file_of d name \<noteq> Inl M16_E_NOENT
    then m16_write_file (Some d) (Some name) (Some data) sz = (M16_E_EXISTS, Some d)
    else if files_left (home d) = 0
    then m16_write_file (Some d) (Some name) (Some data) sz = (M16_E_NOSPC, Some d)
    else \<exists>d1. m16_write_file (Some d) (Some name) (Some data) sz = (M16_E_OK, Some d1) \<and>
      fs_dev d1 \<and> fs_consistent d1 (home d1) \<and> dev_fail_after d1 < 0 \<and>
      files_left (home d1) = files_left (home d) - 1 \<and> file_of d1 name = Inr (take (unat sz) data) \<and>
      (\<forall>nm. \<not> m16_streq name nm \<longrightarrow> file_of d1 nm = file_of d nm)"
proof -
  note fnd = fs_dev_find [OF d(1,2), of name] and left = has_room_left [of d]
  show ?thesis
  proof (rule write_file_cases [OF d(1,2) n, of False])
    fix ino b slot rc d1
    assume a: "m16_find_dirent (home d 24) name = Inl M16_E_NOENT" "has_room d"
      "fresh_create d (home d) name ino b slot"
      "m16_write_file_ex (Some d) (Some name) (Some data) sz False = (rc, Some d1)"
      "commits_log jr_commit jr_commit [create_meta d ino b sz] (create_data d name data sz ino b slot) d = (rc = M16_E_OK, d1)"
      "dev_fail_after d < 0 \<longrightarrow> rc = M16_E_OK \<and> dev_fail_after d1 < 0"
    have rc: "rc = M16_E_OK" "dev_fail_after d1 < 0" using a(6) d(3) by simp_all
    let ?d2 = "jr_recover d1"
    have o: "fs_dev ?d2" "fs_consistent ?d2 (home ?d2)" "\<And>nm. \<not> m16_streq name nm \<Longrightarrow> file_of ?d2 nm = file_of d nm"
      "fs_dev d1" "home d1 = home ?d2" "file_of ?d2 name = Inr (take (unat sz) data)"
      using write_file_outcome [OF d(1,2) n a(4)] rc by auto
    note s = same_files [OF o(1,2,4,5)]
    have "files_left (home d1) = files_left (home d) - 1"
      using create_prefix(4) [OF d(1) a(3) n(2,3) a(5)] create_uses [OF a(3) n(2,3)] rc by simp
    then show ?thesis using a(1,2,4) rc o(3,4,6) s fnd left by (auto simp: m16_write_file_def)
  qed (use fnd left in \<open>simp_all add: m16_write_file_def\<close>)
qed

section \<open>Format\<close>

lemma write_block_ok:
  "dev_ok d \<Longrightarrow> dev_fail_after d < 0 \<Longrightarrow> dev_total_blocks d = 128 \<Longrightarrow> unat lba < 128 \<Longrightarrow> length b = 512 \<Longrightarrow>
   m16_write_block (Some d) lba (Some b) = (M16_E_OK, Some (put_block d lba b))"
  by (subst write_block_eq) (simp_all add: m16_valid_lba_def word_less_nat_alt M16_MAX_BLOCKS_def)

lemma fold_bitmap_set:
  assumes "\<forall>i \<in> set xs. i < 8 * length bm \<and> i < 128"
  shows "length (fold (\<lambda>i b. m16_bitmap_set b (of_nat i)) xs bm) = length bm \<and>
    (m16_bitmap_get (fold (\<lambda>i b. m16_bitmap_set b (of_nat i)) xs bm) j \<longleftrightarrow> unat j \<in> set xs \<or> m16_bitmap_get bm j)"
  using assms
proof (induction xs arbitrary: bm)
  case (Cons x xs)
  have x: "unat (of_nat x :: u32) = x" "x < 8 * length bm" using Cons.prems unat_small by auto
  then have "m16_bitmap_get (m16_bitmap_set bm (of_nat x)) j \<longleftrightarrow> unat j = x \<or> m16_bitmap_get bm j"
    using m16_bitmap_get_set [of "of_nat x" bm j] by (metis word_unat_eq_iff)
  then show ?case using Cons.IH [of "m16_bitmap_set bm (of_nat x)"] Cons.prems by auto
qed simp

lemma bitmap_zeros: "unat j < 4096 \<Longrightarrow> \<not> m16_bitmap_get (replicate 512 0) j"
  by (simp add: m16_bitmap_get_iff)

definition fresh_ib :: bytes where
  "fresh_ib = m16_bitmap_set (replicate 512 0) 0"

definition fresh_bb :: bytes where
  "fresh_bb = fold (\<lambda>i b. m16_bitmap_set b (of_nat i)) [0..<25] (replicate 512 0)"

definition fresh_itab :: bytes where
  "fresh_itab = wr32 (wr32 (wr32 (wr32 (replicate 2048 0) 0 1) 4 2) 8 0) 12 24"

lemma fresh_bitmaps:
  "length fresh_ib = 512" "length fresh_bb = 512" "length fresh_itab = 2048"
  "unat j < 4096 \<Longrightarrow> m16_bitmap_get fresh_ib j \<longleftrightarrow> j = 0" "unat j < 4096 \<Longrightarrow> m16_bitmap_get fresh_bb j \<longleftrightarrow> unat j < 25"
  using fold_bitmap_set [of "[0..<25]" "replicate 512 0"] bitmap_zeros [of j] m16_bitmap_get_set [of 0 "replicate 512 0" j]
  by (auto simp: fresh_ib_def fresh_bb_def fresh_itab_def)

lemma super_block_facts: "length (m16_super_block n) = 512" "super_ok (m16_super_block n)"
  by (simp_all add: m16_super_block_def Let_def M16_BLOCK_SIZE_def super_ok_def sb_magic_def sb_version_def
        sb_block_size_def sb_data_start_lba_def sb_root_dir_lba_def)

definition fresh_home :: "nat \<Rightarrow> bytes" where
  "fresh_home = (\<lambda>k. if in_journal k then [] else replicate 128 (replicate 512 0) ! k)
     (0 := m16_super_block 128, 18 := fresh_ib, 19 := fresh_bb, 20 := slice 0 512 fresh_itab,
      21 := slice 512 512 fresh_itab, 22 := slice 1024 512 fresh_itab, 23 := slice 1536 512 fresh_itab, 24 := replicate 512 0)"

lemma format_run:
  assumes "dev_fail_after d < 0" "dev_total_blocks d = 128"
  shows "\<exists>d'. m16_format (Some d) = (M16_E_OK, Some d') \<and> fs_dev d' \<and> home d' = fresh_home \<and> dev_fail_after d' < 0"
proof -
  define d0 where "d0 = d\<lparr>dev_blocks := replicate 128 (replicate 512 0)\<rparr>"
  have ok0: "dev_ok d0" "dev_fail_after d0 < 0" "dev_total_blocks d0 = 128" using assms by (auto simp: d0_def dev_ok_def)
  let ?d1 = "put_block d0 0 (m16_super_block 128)"
  let ?d2 = "put_block ?d1 18 fresh_ib"
  let ?d3 = "put_block ?d2 19 fresh_bb"
  let ?d4 = "put_block ?d3 20 (slice 0 512 fresh_itab)"
  let ?d5 = "put_block ?d4 21 (slice 512 512 fresh_itab)"
  let ?d6 = "put_block ?d5 22 (slice 1024 512 fresh_itab)"
  let ?d7 = "put_block ?d6 23 (slice 1536 512 fresh_itab)"
  let ?d8 = "put_block ?d7 24 (replicate 512 0)"
  have ok: "dev_ok ?d1" "dev_ok ?d2" "dev_ok ?d3" "dev_ok ?d4" "dev_ok ?d5" "dev_ok ?d6" "dev_ok ?d7" "dev_ok ?d8"
    using ok0 super_block_facts(1) fresh_bitmaps(1-3) by (simp_all add: put_block_ok)
  note wr = write_block_ok [OF ok0(1)] write_block_ok [OF ok(1)] write_block_ok [OF ok(2)] write_block_ok [OF ok(3)]
    write_block_ok [OF ok(4)] write_block_ok [OF ok(5)] write_block_ok [OF ok(6)] write_block_ok [OF ok(7)]
  have four: "unat (4 :: u32) = Suc (Suc (Suc (Suc 0)))" by simp
  have bits: "m16_bitmap_set (replicate 512 0) 0 = fresh_ib"
    "fold (\<lambda>i b. m16_bitmap_set b (of_nat i)) [0..<25] (replicate 512 0) = fresh_bb"
    "wr32 (wr32 (wr32 (wr32 (replicate 2048 0) 0 1) 4 2) 8 0) 12 24 = fresh_itab"
    by (simp_all add: fresh_ib_def fresh_bb_def fresh_itab_def)
  have u25: "unat (25 :: u32) = 25" "unat (128 :: u32) = 128" by simp_all
  have "m16_format (Some d) = m16_journal_clear (Some ?d8)"
    using assms ok0 super_block_facts(1) fresh_bitmaps(1-3)
    unfolding m16_format_def option.case Let_def lba_numbers M16_MAX_BLOCKS_def M16_BLOCK_SIZE_def u25 bits four
    by (simp add: wr lba_numbers M16_BLOCK_SIZE_def flip: d0_def)
  moreover note c = clear_run [OF ok(8)]
  ultimately have run: "m16_format (Some d) = (M16_E_OK, Some (put_block ?d8 M16_JOURNAL_START (replicate 512 0)))"
    using ok0(2) by (simp add: put_block_def)
  have "home ?d8 = fresh_home"
    using ok0 by (auto simp: home_def fresh_home_def fun_eq_iff d0_def in_journal_def)
  then show ?thesis
    using run c(2-4) ok0 by (auto simp: fs_dev_def jr_ready_def M16_MAX_BLOCKS_def)
qed

lemma fresh_home_consistent:
  assumes "dev_total_blocks d = 128"
  shows "fs_consistent d fresh_home" "m16_find_dirent (fresh_home 24) nm = Inl M16_E_NOENT"
proof -
  have it: "itab fresh_home = fresh_itab"
  proof -
    have "slice 1024 512 fresh_itab @ slice 1536 512 fresh_itab = slice 1024 1024 fresh_itab"
        "slice 512 512 fresh_itab @ slice 1024 1024 fresh_itab = slice 512 1536 fresh_itab"
        "slice 0 512 fresh_itab @ slice 512 1536 fresh_itab = slice 0 2048 fresh_itab"
      using slice_join [of 1024 512 fresh_itab 512] slice_join [of 512 512 fresh_itab 1024] slice_join [of 0 512 fresh_itab 1536] by simp_all
    then show ?thesis using fresh_bitmaps(3) by (simp add: itab_def fresh_home_def)
  qed
  have un: "dir_used (replicate 512 0) k = 0" if "k < 12" for k using that by (simp add: dir_used_def)
  have b: "fresh_home 18 = fresh_ib" "fresh_home 19 = fresh_bb" "fresh_home 24 = replicate 512 0" "fresh_home 0 = m16_super_block 128"
    by (simp_all add: fresh_home_def)
  have "m16_bitmap_get fresh_bb (of_nat k)" if "k < 25" for k
    using fresh_bitmaps(5) [of "of_nat k"] unat_small [of k] that by simp
  then show "fs_consistent d fresh_home"
    unfolding fs_consistent_def b it
    using super_block_facts(2) un fresh_bitmaps(4) [of 0]
    by (simp add: dirent_bad_def ino_used_def ino_kind_def ino_direct0_def fresh_itab_def lba_numbers)
  show "m16_find_dirent (fresh_home 24) nm = Inl M16_E_NOENT"
    using un by (auto simp: m16_find_dirent_def b lba_numbers first_index_Some_iff split: option.splits)
qed

text \<open>The directory block is the limit: a fresh file system takes twelve files.\<close>

lemma fresh_left: "files_left fresh_home = 12"
proof -
  have b: "fresh_home 18 = fresh_ib" "fresh_home 19 = fresh_bb" "fresh_home 24 = replicate 512 0"
    by (simp_all add: fresh_home_def)
  have z: "(of_nat i :: u32) = 0 \<longleftrightarrow> i = 0" if "i < 128" for i using unat_small [OF that] by auto
  have "free_inodes fresh_home = {1..<16}"
    using fresh_bitmaps(4) unat_small z by (auto simp: free_inodes_def b)
  moreover have "free_blocks fresh_home = {25..<128}"
    using fresh_bitmaps(5) unat_small by (auto simp: free_blocks_def b)
  moreover have "free_dirents fresh_home = {..<12}" by (auto simp: free_dirents_def b dir_used_def)
  ultimately show ?thesis by (simp add: files_left_def)
qed

lemma fresh_has_room: "home d = fresh_home \<Longrightarrow> has_room d"
  by (simp add: has_room_left fresh_left)

section \<open>Properties\<close>

text \<open>C2: file creation is atomic under power loss. However many block writes the device survives
  during the call, and also when the call stops as soon as the commit record of the second transaction is on disk, after
  the next recovery the consistency check passes, every other file reads as
  before, and the new name either reads as before the call or yields the complete data; it yields the
  data whenever the call reported success, and without write faults the call does report success for a new name
  while there is room.\<close>

theorem m16_create_crash_safe:
  fixes sz :: u32
  assumes "fs_dev d" "m16_fsck (Some d) = (M16_E_OK, Some d)" "name_ok name" "unat sz \<le> 512" "unat sz \<le> length data"
  shows "\<exists>rc d1 d2. m16_write_file_ex (Some d) (Some name) (Some data) sz stop = (rc, Some d1) \<and>
    m16_journal_recover (Some (d1\<lparr>dev_fail_after := -1\<rparr>)) = (M16_E_OK, Some d2) \<and>
    m16_fsck (Some d2) = (M16_E_OK, Some d2) \<and>
    (\<forall>nm. \<not> m16_streq name nm \<longrightarrow> file_of d2 nm = file_of d nm) \<and>
    (file_of d2 name = Inr (take (unat sz) data) \<or> rc \<noteq> M16_E_OK \<and> file_of d2 name = file_of d name) \<and>
    (dev_fail_after d < 0 \<longrightarrow> file_of d name = Inl M16_E_NOENT \<longrightarrow> has_room d \<longrightarrow> rc = M16_E_OK)"
proof -
  have c: "fs_consistent d (home d)" using fs_dev_fsck assms(1,2) by simp
  obtain rc d1 where w: "m16_write_file_ex (Some d) (Some name) (Some data) sz stop = (rc, Some d1)"
      "dev_fail_after d < 0 \<longrightarrow> file_of d name = Inl M16_E_NOENT \<longrightarrow> has_room d \<longrightarrow> rc = M16_E_OK"
    using fs_dev_find [OF assms(1) c, of name] by (auto intro: write_file_cases [OF assms(1) c assms(3-5), of stop])
  note o = write_file_outcome [OF assms(1) c assms(3-5) w(1)]
  then have "m16_fsck (Some (jr_recover d1)) = (M16_E_OK, Some (jr_recover d1))" using fs_dev_fsck by blast
  with o w show ?thesis by (intro exI [of _ rc] exI [of _ d1] exI [of _ "jr_recover d1"]) (auto simp: jr_recovers_def split: if_splits)
qed

text \<open>C3: the complete behaviour of file creation on a consistent file system without faults: a name
  that is taken is refused, a full file system is refused, both without any change; otherwise the
  call succeeds, the file then reads back as written, all other files are unchanged, and the
  consistency check passes.\<close>

theorem m16_write_read_roundtrip:
  fixes sz :: u32
  assumes d: "fs_dev d" "m16_fsck (Some d) = (M16_E_OK, Some d)" "dev_fail_after d < 0"
    and n: "name_ok name" "unat sz \<le> 512" "unat sz \<le> length data"
  shows "if file_of d name \<noteq> Inl M16_E_NOENT
    then m16_write_file (Some d) (Some name) (Some data) sz = (M16_E_EXISTS, Some d)
    else if \<not> has_room d
    then m16_write_file (Some d) (Some name) (Some data) sz = (M16_E_NOSPC, Some d)
    else \<exists>d1. m16_write_file (Some d) (Some name) (Some data) sz = (M16_E_OK, Some d1) \<and>
      m16_fsck (Some d1) = (M16_E_OK, Some d1) \<and> file_of d1 name = Inr (take (unat sz) data) \<and>
      (\<forall>nm. \<not> m16_streq name nm \<longrightarrow> file_of d1 nm = file_of d nm)"
proof -
  have c: "fs_consistent d (home d)" using fs_dev_fsck d(1,2) by simp
  show ?thesis using write_file_step [OF d(1) c d(3) n] fs_dev_fsck has_room_left [of d] by auto
qed

text \<open>formatting a device of full size succeeds and yields an empty file system that passes the
  consistency check: no name is found, and there is room for a file.\<close>

theorem m16_format_consistent:
  assumes "dev_fail_after d < 0" "dev_total_blocks d = M16_MAX_BLOCKS"
  shows "\<exists>d1. m16_format (Some d) = (M16_E_OK, Some d1) \<and> m16_fsck (Some d1) = (M16_E_OK, Some d1) \<and>
    (\<forall>nm. file_of d1 nm = Inl M16_E_NOENT) \<and> fs_dev d1 \<and> has_room d1"
proof -
  obtain d1 where f: "m16_format (Some d) = (M16_E_OK, Some d1)" "fs_dev d1" "home d1 = fresh_home"
    using format_run [of d] assms by (auto simp: M16_MAX_BLOCKS_def)
  have tot: "dev_total_blocks d1 = 128" using f(2) by (simp add: fs_dev_def M16_MAX_BLOCKS_def)
  have c: "fs_consistent d1 (home d1)" using fresh_home_consistent(1) [OF tot] f(3) by simp
  have "file_of d1 nm = Inl M16_E_NOENT" for nm
    using fs_dev_find [OF f(2) c] fresh_home_consistent(2) [OF tot] f(3) by simp
  moreover have "has_room d1" by (rule fresh_has_room [OF f(3)])
  ultimately show ?thesis using f c fs_dev_fsck [OF f(2)] by blast
qed

theorem m16_format_consistent_witness:
  "\<exists>d1. m16_format (Some (demo_dev\<lparr>dev_fail_after := -1\<rparr>)) = (M16_E_OK, Some d1) \<and> file_of d1 [97, 0] = Inl M16_E_NOENT"
  using m16_format_consistent [of "demo_dev\<lparr>dev_fail_after := -1\<rparr>"] by (auto simp: demo_dev_def M16_MAX_BLOCKS_def)

text \<open>A formatted demonstration device on which the nth block write fails.\<close>

definition demo_fs :: "int \<Rightarrow> m16_blockdev" where
  "demo_fs n = (the (snd (m16_format (Some (demo_dev\<lparr>dev_fail_after := -1\<rparr>)))))\<lparr>dev_fail_after := n\<rparr>"

lemma demo_fs_ok:
  "fs_dev (demo_fs n)" "m16_fsck (Some (demo_fs n)) = (M16_E_OK, Some (demo_fs n))" "home (demo_fs n) = fresh_home"
proof -
  obtain d1 where f: "m16_format (Some (demo_dev\<lparr>dev_fail_after := -1\<rparr>)) = (M16_E_OK, Some d1)" "fs_dev d1" "home d1 = fresh_home"
    using format_run [of "demo_dev\<lparr>dev_fail_after := -1\<rparr>"] by (auto simp: demo_dev_def)
  show fs: "fs_dev (demo_fs n)" and h: "home (demo_fs n) = fresh_home"
    using f by (simp_all add: demo_fs_def fs_dev_def jr_ready_def)
  have "dev_total_blocks (demo_fs n) = 128" using fs by (simp add: fs_dev_def M16_MAX_BLOCKS_def)
  then show "m16_fsck (Some (demo_fs n)) = (M16_E_OK, Some (demo_fs n))"
    using fs_dev_fsck [OF fs] fresh_home_consistent(1) h by simp
qed

lemma demo_name: "name_ok [97, 0]"
proof -
  have "strnlen [97, 0 :: u8] 32 = 1" by (rule strnlen_eq) auto
  then show ?thesis by (simp add: name_ok_def)
qed

theorem m16_create_crash_safe_witness:
  "\<exists>rc d1 d2. m16_write_file_ex (Some (demo_fs 9)) (Some [97, 0]) (Some [1, 2, 3]) 3 True = (rc, Some d1) \<and>
    m16_journal_recover (Some (d1\<lparr>dev_fail_after := -1\<rparr>)) = (M16_E_OK, Some d2) \<and>
    m16_fsck (Some d2) = (M16_E_OK, Some d2)"
  using m16_create_crash_safe [OF demo_fs_ok(1,2) demo_name, of 3 "[1, 2, 3]" 9 True] by simp blast

theorem m16_write_read_roundtrip_witness:
  "\<exists>d1. m16_write_file (Some (demo_fs (-1))) (Some [97, 0]) (Some [1, 2, 3]) 3 = (M16_E_OK, Some d1) \<and>
     file_of d1 [97, 0] = Inr [1, 2, 3]"
proof -
  let ?d = "demo_fs (-1)"
  have tot: "dev_total_blocks ?d = 128" using demo_fs_ok(1) by (simp add: fs_dev_def M16_MAX_BLOCKS_def)
  have c: "fs_consistent ?d (home ?d)" using demo_fs_ok(3) fresh_home_consistent(1) [OF tot] by simp
  have "file_of ?d [97, 0] = Inl M16_E_NOENT"
    using fs_dev_find [OF demo_fs_ok(1) c] fresh_home_consistent(2) [OF tot] demo_fs_ok(3) by simp
  moreover have "has_room ?d" by (rule fresh_has_room [OF demo_fs_ok(3)])
  moreover have "dev_fail_after ?d < 0" by (simp add: demo_fs_def)
  ultimately show ?thesis
    using m16_write_read_roundtrip [OF demo_fs_ok(1,2) _ demo_name, of "-1" 3 "[1, 2, 3]"] by auto
qed

end
