(* ===== verification/Mcsfs1j_Session.thy ===== *)
theory Mcsfs1j_Session
  imports Mcsfs1j
begin

text \<open>
  Sequences of calls on the journalled file system of \<open>src/kernel/fs/mcsfs1j/m16_mcsfs_journal.c\<close>: how many files fit and
  that all of them stay readable, and the self test, \<open>main\<close> at the end of that file: format, check, write and read a file,
  lose power after a commit record, recover, and refuse a damaged journal. The locals of \<open>main\<close> (the device, the output
  buffer, the failure count) and its standard output are the fields of \<open>m16_test\<close>; each call under \<open>m16_expect\<close>
  is one function on that state.
\<close>

unbundle bit_operations_syntax

section \<open>Call sequences\<close>

fun write_all :: "m16_blockdev \<Rightarrow> (bytes \<times> bytes) list \<Rightarrow> m16_status list \<times> m16_blockdev" where
  "write_all d [] = ([], d)"
| "write_all d ((name, data) # fs) =
     (case m16_write_file (Some d) (Some name) (Some data) (of_nat (length data)) of
        (rc, d') \<Rightarrow> (case write_all (the d') fs of (rcs, d'') \<Rightarrow> (rc # rcs, d'')))"

definition file_ok :: "bytes \<times> bytes \<Rightarrow> bool" where
  "file_ok f \<longleftrightarrow> name_ok (fst f) \<and> length (snd f) \<le> 512"

record m16_test =
  t_fails :: int
  t_dev :: m16_blockdev
  t_out :: bytes
  t_out_size :: u32
  t_stdout :: string

text \<open>A string literal as the bytes in memory.\<close>

definition c_string :: "string \<Rightarrow> bytes" where
  "c_string s = map of_char s @ [0]"

definition m16_expect :: "bool \<Rightarrow> string \<Rightarrow> int \<times> string" where
  "m16_expect cond msg = (if \<not> cond then (1, ''FAIL: '' @ msg @ [CHR 0x0A]) else (0, ''''))"

text \<open>\<open>fails += m16_expect(cond, msg);\<close>\<close>

definition expect :: "bool \<Rightarrow> string \<Rightarrow> m16_test \<Rightarrow> m16_test" where
  "expect cond msg s = (case m16_expect cond msg of (f, txt) \<Rightarrow>
     s\<lparr>t_fails := t_fails s + f, t_stdout := t_stdout s @ txt\<rparr>)"

definition expect_dev :: "m16_status \<Rightarrow> string \<Rightarrow> (m16_blockdev option \<Rightarrow> m16_status \<times> m16_blockdev option) \<Rightarrow> m16_test \<Rightarrow> m16_test" where
  "expect_dev want msg call s = (case call (Some (t_dev s)) of (rc, d) \<Rightarrow> expect (rc = want) msg (s\<lparr>t_dev := the d\<rparr>))"

definition expect_read :: "bytes \<Rightarrow> string \<Rightarrow> m16_test \<Rightarrow> m16_test" where
  "expect_read name msg s =
     (case m16_read_file (Some (t_dev s)) (Some name) (Some (t_out s)) 64 (Some (t_out_size s)) of
        (rc, out, n, d) \<Rightarrow> expect (rc = M16_E_OK) msg (s\<lparr>t_dev := the d, t_out := the out, t_out_size := the n\<rparr>))"

definition expect_size :: "bytes \<Rightarrow> string \<Rightarrow> m16_test \<Rightarrow> m16_test" where
  "expect_size data msg s = expect (t_out_size s = of_nat (length data)) msg s"

definition expect_bytes :: "nat \<Rightarrow> u8 \<Rightarrow> nat \<Rightarrow> u8 \<Rightarrow> string \<Rightarrow> m16_test \<Rightarrow> m16_test" where
  "expect_bytes i a j b msg s = expect (t_out s ! i = a \<and> t_out s ! j = b) msg s"

definition hello :: bytes where
  "hello = map of_char ''hello-m16''"

definition crashy :: bytes where
  "crashy = map of_char ''crash-replay''"

definition init_dev :: "m16_test \<Rightarrow> m16_test" where
  "init_dev s = s\<lparr>t_dev := the (m16_dev_init (Some (t_dev s)))\<rparr>"

text \<open>\<open>dev.blocks[M16_JOURNAL_START + 1u][0] ^= 0x7fu;\<close>\<close>

definition damage :: "m16_test \<Rightarrow> m16_test" where
  "damage s = (let d = t_dev s; b = dev_blocks d ! unat (M16_JOURNAL_START + 1) in
     s\<lparr>t_dev := d\<lparr>dev_blocks := (dev_blocks d)[unat (M16_JOURNAL_START + 1) := b[0 := (b ! 0) XOR 0x7f]]\<rparr>\<rparr>)"

definition m16_calls :: "(m16_test \<Rightarrow> m16_test) list" where
  "m16_calls =
     [init_dev,
      expect_dev M16_E_OK ''format'' m16_format,
      expect_dev M16_E_OK ''fsck after format'' m16_fsck,
      expect_dev M16_E_OK ''write hello'' (\<lambda>d. m16_write_file d (Some (c_string ''hello.txt'')) (Some hello) (of_nat (length hello))),
      expect_read (c_string ''hello.txt'') ''read hello'',
      expect_size hello ''hello size'',
      expect_bytes 0 (of_char CHR ''h'') 8 (of_char CHR ''6'') ''hello content'',
      expect_dev M16_E_OK ''fsck after hello'' m16_fsck,
      expect_dev M16_E_OK ''write crash transaction until commit record''
        (\<lambda>d. m16_write_file_ex d (Some (c_string ''crash.txt'')) (Some crashy) (of_nat (length crashy)) True),
      expect_dev M16_E_OK ''journal replay after committed crash'' m16_journal_recover,
      expect_read (c_string ''crash.txt'') ''read crash after replay'',
      expect_size crashy ''crash size after replay'',
      expect_bytes 0 (of_char CHR ''c'') 11 (of_char CHR ''y'') ''crash content after replay'',
      expect_dev M16_E_OK ''fsck after replay'' m16_fsck,
      init_dev,
      expect_dev M16_E_OK ''format for corrupt test'' m16_format,
      expect_dev M16_E_OK ''commit bad transaction''
        (\<lambda>d. m16_write_file_ex d (Some (c_string ''bad.txt'')) (Some crashy) (of_nat (length crashy)) True),
      damage,
      expect_dev M16_E_CORRUPT ''corrupt descriptor rejected'' m16_journal_recover]"

text \<open>The device, the buffer and their contents on entry are whatever the stack holds.\<close>

definition m16_host_main :: "m16_blockdev \<Rightarrow> bytes \<Rightarrow> int \<times> string" where
  "m16_host_main dev out =
     (let s = fold (\<lambda>f s. f s) m16_calls \<lparr>t_fails = 0, t_dev = dev, t_out = out, t_out_size = 0, t_stdout = ''''\<rparr>;
          txt = (if t_fails s = 0 then ''M16 host tests PASS'' @ [CHR 0x0A] else '''')
      in (if t_fails s = 0 then 0 else 1, t_stdout s @ txt))"

section \<open>Facts\<close>

lemma expect_passed: "cond \<Longrightarrow> expect cond msg s = s"
  by (simp add: expect_def m16_expect_def)

lemma expect_dev_passed: "call (Some (t_dev s)) = (want, Some d) \<Longrightarrow> expect_dev want msg call s = s\<lparr>t_dev := d\<rparr>"
  by (simp add: expect_dev_def expect_passed)

lemma name_ok_c_string:
  assumes "0 < length s" "length s < 32" "\<forall>c \<in> set s. of_char c \<noteq> (0 :: u8)"
  shows "name_ok (c_string s)"
proof -
  have "strnlen (c_string s) 32 = length s"
    using assms by (intro strnlen_eq) (auto simp: c_string_def nth_append)
  then show ?thesis using assms(1,2) by (simp add: name_ok_def c_string_def)
qed

lemma test_names:
  "name_ok (c_string ''hello.txt'')" "name_ok (c_string ''crash.txt'')" "name_ok (c_string ''bad.txt'')"
  by (rule name_ok_c_string; simp)+

lemma test_names_differ: "\<not> m16_streq (c_string ''hello.txt'') (c_string ''crash.txt'')"
proof
  assume "m16_streq (c_string ''hello.txt'') (c_string ''crash.txt'')"
  then have "c_string ''hello.txt'' ! 0 = c_string ''crash.txt'' ! 0"
    unfolding m16_streq_iff by (metis not_less_zero zero_less_numeral)
  then show False by (simp add: c_string_def)
qed

text \<open>A logged creation: the journal holds its second transaction.\<close>

lemma logged_creation:
  fixes sz :: u32
  assumes d: "fs_dev d" and c: "fs_consistent d (home d)" and n: "name_ok name"
    and sz: "unat sz \<le> 512" "unat sz \<le> length data"
    and w: "m16_write_file_ex (Some d) (Some name) (Some data) sz True = (M16_E_OK, Some d1)" and f: "dev_fail_after d < 0"
  obtains rs where "dev_ok d1" "j_holds d1 rs" "length rs \<le> 8" "rs \<noteq> []" "dev_fail_after d1 < 0"
    "\<forall>r \<in> set rs. rec_legal d1 r" "dev_total_blocks d1 = dev_total_blocks d"
proof (rule write_file_cases [OF d c n sz, of True])
  fix ino b slot rc d1'
  let ?t1 = "create_meta d ino b sz" and ?t2 = "create_data d name data sz ino b slot"
  assume fr: "fresh_create d (home d) name ino b slot"
    and w': "m16_write_file_ex (Some d) (Some name) (Some data) sz True = (rc, Some d1')"
    and run: "commits_log jr_commit (jr_log True) [?t1] ?t2 d = (rc = M16_E_OK, d1')"
    and f1: "dev_fail_after d < 0 \<longrightarrow> rc = M16_E_OK \<and> dev_fail_after d1' < 0"
  have e: "rc = M16_E_OK" "d1' = d1" using w w' by auto
  have r: "jr_ready d" using d by (simp add: fs_dev_def)
  note leg = create_runs(1,2) [OF d fr sz]
  obtain dm where m: "jr_commit d ?t1 = (True, dm)" "jr_log True dm ?t2 = (True, d1)"
    using run e by (auto simp: commits_log_def split: prod.splits if_splits)
  have rm: "jr_ready dm" "jr_legal dm ?t2" using jr.commit_done [OF r leg(1) m(1)] jr.legal_kept [OF r leg m(1)] by auto
  note j = jr_log_cases(1,2,5) [OF rm m(2)]
  have "tx_ok (snd ?t2)" using leg(2) by (simp add: jr_legal_def)
  then have len: "length (tx_records (snd ?t2)) \<le> 8" using tx_records_length by blast
  have "\<forall>r \<in> set (tx_records (snd ?t2)). rec_legal d1 r" using rm(2) rec_legal_total [OF j(2)] by (simp add: jr_legal_def)
  then show thesis
    using j len f1 f e create_runs(4) [OF d fr sz] jr_log_cases(2) [OF r leg(1) m(1)] by (intro that) auto
qed (use w in auto)

lemma rd64_damaged:
  assumes "8 \<le> length b"
  shows "rd64 (b[0 := (b ! 0) XOR 0x7f]) 0 \<noteq> rd64 b 0"
proof -
  obtain x xs where b: "b = x # xs" using assms by (cases b) auto
  have "take 8 (y # xs) = y # take 7 xs" for y by (simp add: numeral_eq_Suc)
  then have "bit (rd64 (y # xs) 0) 0 = bit y 0" for y
    by (simp only: rd64_def slice_def drop_0 le_word.simps bit_or_iff bit_push_bit_iff) (simp add: bit_simps)
  moreover have "bit (x XOR 0x7f) 0 \<noteq> bit x 0" by (simp add: bit_simps)
  ultimately show ?thesis using b by (metis list_update_code(2) nth_Cons_0)
qed

lemma damage_rejected:
  assumes "dev_ok (t_dev s)" "j_holds (t_dev s) rs" "length rs \<le> 8" "rs \<noteq> []" "dev_fail_after (t_dev s) < 0"
  shows "\<exists>d'. m16_journal_recover (Some (t_dev (damage s))) = (M16_E_CORRUPT, Some d')"
proof -
  let ?d = "t_dev (damage s)"
  obtain r rs' where rs: "rs = r # rs'" using assms(4) by (cases rs) auto
  obtain sq where h: "dev_blocks (t_dev s) ! 1 = journal_header sq (of_nat (length rs))" "logged (t_dev s) rs 0"
    using assms(2) by (auto simp: j_holds_def)
  have two: "unat (M16_JOURNAL_START + 1) = 2" by (simp add: M16_JOURNAL_START_def)
  let ?b = "dev_blocks (t_dev s) ! 2"
  have len: "length ?b = 512" "length (dev_blocks (t_dev s)) = 128" using assms(1) by (auto simp: dev_ok_def)
  have dm: "?d = (t_dev s)\<lparr>dev_blocks := (dev_blocks (t_dev s))[2 := ?b[0 := (?b ! 0) XOR 0x7f]]\<rparr>"
    by (simp add: damage_def Let_def two)
  have ok: "dev_ok ?d" "dev_fail_after ?d < 0" "dev_blocks ?d ! 1 = journal_header sq (of_nat (length rs))"
    using assms(1,5) h(1) len by (auto simp: dm dev_ok_def dest!: set_update_subset_insert [THEN subsetD])
  have "?b = journal_desc r" using h(2) [unfolded logged_def, rule_format, of 0] rs by simp
  then have "d_magic ?b = M16_JMAGIC" by (simp add: journal_desc_fields)
  then have "d_magic (?b[0 := (?b ! 0) XOR 0x7f]) \<noteq> M16_JMAGIC" using rd64_damaged [of ?b] len by (simp add: d_magic_def)
  then have bad: "bad_entry ?d 0" using len(2) by (simp add: bad_entry_def dm Let_def)
  show ?thesis
    using recover_bad_entry [OF ok assms(3), of "[]"] assms(4) bad by (auto simp: logged_def)
qed

section \<open>Filling the file system\<close>

lemma write_all_full:
  assumes "fs_dev d" "fs_consistent d (home d)" "dev_fail_after d < 0" "files_left (home d) = 0"
    "\<forall>f \<in> set fs. file_ok f \<and> file_of d (fst f) = Inl M16_E_NOENT"
  shows "write_all d fs = (replicate (length fs) M16_E_NOSPC, d)"
  using assms(5)
proof (induction fs)
  case (Cons f fs)
  have f: "name_ok (fst f)" "length (snd f) \<le> 512" "file_of d (fst f) = Inl M16_E_NOENT"
    using Cons.prems by (auto simp: file_ok_def)
  have u: "unat (of_nat (length (snd f)) :: u32) = length (snd f)" using f(2) by (simp add: unat_of_nat)
  show ?case
    using write_file_step [OF assms(1-3) f(1), of "of_nat (length (snd f))" "snd f"] u f(2,3) assms(4) Cons
    by (cases f) simp
qed simp

lemma write_all_run:
  assumes "fs_dev d" "fs_consistent d (home d)" "dev_fail_after d < 0"
    "\<forall>f \<in> set fs. file_ok f \<and> file_of d (fst f) = Inl M16_E_NOENT"
    "sorted_wrt (\<lambda>f g. \<not> m16_streq (fst f) (fst g)) fs"
  defines "k \<equiv> min (length fs) (files_left (home d))"
  shows "\<exists>d1. write_all d fs = (replicate k M16_E_OK @ replicate (length fs - k) M16_E_NOSPC, d1) \<and>
    fs_dev d1 \<and> fs_consistent d1 (home d1) \<and> (\<forall>f \<in> set (take k fs). file_of d1 (fst f) = Inr (snd f)) \<and>
    (\<forall>nm. (\<forall>f \<in> set (take k fs). \<not> m16_streq (fst f) nm) \<longrightarrow> file_of d1 nm = file_of d nm)"
  unfolding k_def using assms(1-5)
proof (induction fs arbitrary: d)
  case (Cons f fs)
  have f: "name_ok (fst f)" "length (snd f) \<le> 512" "file_of d (fst f) = Inl M16_E_NOENT"
    using Cons.prems(4) by (auto simp: file_ok_def)
  have u: "unat (of_nat (length (snd f)) :: u32) = length (snd f)" using f(2) by (simp add: unat_of_nat)
  show ?case
  proof (cases "files_left (home d) = 0")
    case True
    show ?thesis using write_all_full [OF Cons.prems(1-3) True Cons.prems(4)] Cons.prems(1,2) True by simp
  next
    case False
    obtain d1 where w: "m16_write_file (Some d) (Some (fst f)) (Some (snd f)) (of_nat (length (snd f))) = (M16_E_OK, Some d1)"
        "fs_dev d1" "fs_consistent d1 (home d1)" "dev_fail_after d1 < 0" "files_left (home d1) = files_left (home d) - 1"
        "file_of d1 (fst f) = Inr (snd f)" "\<And>nm. \<not> m16_streq (fst f) nm \<Longrightarrow> file_of d1 nm = file_of d nm"
      using write_file_step [OF Cons.prems(1-3) f(1), of "of_nat (length (snd f))" "snd f"] u f(2,3) False by auto
    have "\<forall>g \<in> set fs. file_ok g \<and> file_of d1 (fst g) = Inl M16_E_NOENT" "sorted_wrt (\<lambda>f g. \<not> m16_streq (fst f) (fst g)) fs"
      using w(7) Cons.prems(4,5) by auto
    from Cons.IH [OF w(2-4) this] obtain d2 where i:
      "write_all d1 fs = (replicate (min (length fs) (files_left (home d1))) M16_E_OK @
         replicate (length fs - min (length fs) (files_left (home d1))) M16_E_NOSPC, d2)"
      "fs_dev d2" "fs_consistent d2 (home d2)"
      "\<forall>g \<in> set (take (min (length fs) (files_left (home d1))) fs). file_of d2 (fst g) = Inr (snd g)"
      "\<And>nm. \<forall>g \<in> set (take (min (length fs) (files_left (home d1))) fs). \<not> m16_streq (fst g) nm \<Longrightarrow> file_of d2 nm = file_of d1 nm"
      by blast
    let ?m = "min (length fs) (files_left (home d1))"
    have m: "min (length (f # fs)) (files_left (home d)) = Suc ?m" using w(5) False by simp
    have "\<not> m16_streq (fst g) (fst f)" if "g \<in> set (take ?m fs)" for g
      using that Cons.prems(5) m16_streq_sym set_take_subset by fastforce
    then have ff: "file_of d2 (fst f) = Inr (snd f)" using i(5) [of "fst f"] w(6) by simp
    have "write_all d (f # fs) = (replicate (Suc ?m) M16_E_OK @ replicate (length (f # fs) - Suc ?m) M16_E_NOSPC, d2)"
      using w(1) i(1) by (cases f) simp
    then show ?thesis unfolding m using i ff w(7) by auto
  qed
qed simp

section \<open>The self test\<close>

lemma create_checked:
  fixes sz :: u32
  assumes d: "fs_dev d" "fs_consistent d (home d)" "dev_fail_after d < 0" "file_of d name = Inl M16_E_NOENT"
      "0 < files_left (home d)"
    and n: "name_ok name" "unat sz \<le> 512" "unat sz \<le> length data"
  obtains d1 where "m16_write_file_ex (Some d) (Some name) (Some data) sz stop = (M16_E_OK, Some d1)" "dev_fail_after d1 < 0"
proof (rule write_file_cases [OF d(1,2) n, of stop])
  fix k assume "m16_find_dirent (home d 24) name = Inr k"
  then show thesis using fs_dev_find [OF d(1,2), of name] d(4) by simp
qed (use d(3,5) that in \<open>auto simp: has_room_left\<close>)

text \<open>Recovery does not depend on the fault counter as long as there is no fault.\<close>

lemma recover_no_fault:
  assumes "dev_ok d" "j_holds d rs" "length rs \<le> 8" "\<forall>r \<in> set rs. rec_legal d r" "dev_fail_after d < 0"
  obtains d' where "m16_journal_recover (Some d) = (M16_E_OK, Some d')" "jr_ready d'" "home d' = home (jr_recover d)"
    "dev_total_blocks d' = dev_total_blocks d" "dev_fail_after d' < 0"
proof -
  have c: "crash_phase (home d) rs True d" using assms(2) by (simp add: crash_phase_def)
  let ?d = "d\<lparr>dev_fail_after := -1\<rparr>"
  have "dev_ok ?d" "crash_phase (home d) rs True ?d" "\<forall>r \<in> set rs. rec_legal ?d r" using assms(1,4) c by simp_all
  from recover_run [OF this(1,2) assms(3) this(3)] have "home (jr_recover d) = apply_records rs (home d)"
    by (auto simp: jr_recover_def)
  moreover obtain d' where "m16_journal_recover (Some d) = (M16_E_OK, Some d')" "dev_ok d'" "j_empty d'"
      "home d' = apply_records rs (home d)" "dev_total_blocks d' = dev_total_blocks d" "dev_fail_after d' < 0"
    using recover_run [OF assms(1) c assms(3,4)] assms(5) by auto
  ultimately show thesis using that by (simp add: jr_ready_def)
qed

lemma logged_creation_recovers:
  fixes sz :: u32
  assumes d: "fs_dev d" "fs_consistent d (home d)" "dev_fail_after d < 0" "file_of d name = Inl M16_E_NOENT"
      "0 < files_left (home d)"
    and n: "name_ok name" "unat sz \<le> 512" "unat sz \<le> length data"
  obtains d1 d2 where "m16_write_file_ex (Some d) (Some name) (Some data) sz True = (M16_E_OK, Some d1)"
    "m16_journal_recover (Some d1) = (M16_E_OK, Some d2)" "fs_dev d2" "fs_consistent d2 (home d2)"
    "file_of d2 name = Inr (take (unat sz) data)"
proof -
  obtain d1 where w: "m16_write_file_ex (Some d) (Some name) (Some data) sz True = (M16_E_OK, Some d1)"
    using create_checked [OF assms] by blast
  note o = write_file_outcome [OF d(1,2) n w]
  obtain rs where j: "dev_ok d1" "j_holds d1 rs" "length rs \<le> 8" "rs \<noteq> []" "dev_fail_after d1 < 0"
      "\<forall>r \<in> set rs. rec_legal d1 r" "dev_total_blocks d1 = dev_total_blocks d"
    by (rule logged_creation [OF d(1,2) n w d(3)])
  obtain d2 where r: "m16_journal_recover (Some d1) = (M16_E_OK, Some d2)" "jr_ready d2" "home d2 = home (jr_recover d1)"
      "dev_total_blocks d2 = dev_total_blocks d1"
    using recover_no_fault [OF j(1-3,6,5)] by blast
  have f2: "fs_dev d2" using r(2,4) j(7) d(1) by (simp add: fs_dev_def)
  have o2: "fs_dev (jr_recover d1)" "fs_consistent (jr_recover d1) (home (jr_recover d1))"
      "file_of (jr_recover d1) name = Inr (take (unat sz) data)" using o by auto
  show thesis using that [OF w r(1) f2] same_files [OF o2(1,2) f2 r(3)] o2(3) by simp
qed

lemma expect_read_passed:
  assumes "fs_dev (t_dev s)" "fs_consistent (t_dev s) (home (t_dev s))" "file_of (t_dev s) name = Inr bs"
    "length bs \<le> 64" "length (t_out s) = 64"
  shows "expect_read name msg s = s\<lparr>t_out := patch 0 bs (t_out s), t_out_size := of_nat (length bs)\<rparr>"
  using assms read_file_view [OF assms(1,2), of 64 "t_out s" name "t_out_size s"]
  by (simp add: expect_read_def file_of_view expect_passed)

lemma formatted_device:
  assumes "dev_fail_after d0 < 0" "dev_total_blocks d0 = M16_MAX_BLOCKS"
  obtains d where "m16_format (Some d0) = (M16_E_OK, Some d)" "fs_dev d" "fs_consistent d (home d)"
    "dev_fail_after d < 0" "files_left (home d) = 12" "\<And>nm. file_of d nm = Inl M16_E_NOENT"
proof -
  obtain d where f: "m16_format (Some d0) = (M16_E_OK, Some d)" "fs_dev d" "home d = fresh_home" "dev_fail_after d < 0"
    using format_run [of d0] assms by (auto simp: M16_MAX_BLOCKS_def)
  have tot: "dev_total_blocks d = 128" using f(2) by (simp add: fs_dev_def M16_MAX_BLOCKS_def)
  have c: "fs_consistent d (home d)" using fresh_home_consistent(1) [OF tot] f(3) by simp
  have "file_of d nm = Inl M16_E_NOENT" for nm
    using fs_dev_find [OF f(2) c] fresh_home_consistent(2) [OF tot] f(3) by simp
  then show thesis using that f c fresh_left by simp
qed

lemma init_format:
  obtains d where "expect_dev M16_E_OK msg m16_format (init_dev s) = s\<lparr>t_dev := d\<rparr>" "fs_dev d" "fs_consistent d (home d)"
    "dev_fail_after d < 0" "files_left (home d) = 12" "\<And>nm. file_of d nm = Inl M16_E_NOENT"
proof (rule formatted_device)
  let ?d0 = "the (m16_dev_init (Some (t_dev s)))"
  show "dev_fail_after ?d0 < 0" "dev_total_blocks ?d0 = M16_MAX_BLOCKS" by (simp_all add: m16_dev_init_def)
  fix d assume "m16_format (Some ?d0) = (M16_E_OK, Some d)"
  then have "expect_dev M16_E_OK msg m16_format (init_dev s) = s\<lparr>t_dev := d\<rparr>"
    by (subst expect_dev_passed) (simp_all add: init_dev_def)
  moreover assume "fs_dev d" "fs_consistent d (home d)" "dev_fail_after d < 0" "files_left (home d) = 12"
    "\<And>nm. file_of d nm = Inl M16_E_NOENT"
  ultimately show thesis by (rule that)
qed

lemma hello_facts: "length hello = 9" "length crashy = 12" "hello ! 0 = of_char CHR ''h''" "hello ! 8 = of_char CHR ''6''"
  "crashy ! 0 = of_char CHR ''c''" "crashy ! 11 = of_char CHR ''y''"
  by (simp_all add: hello_def crashy_def)

lemma patch_front: "i < length xs \<Longrightarrow> patch 0 xs ys ! i = xs ! i"
  by (simp add: patch_def nth_append)

lemma fsck_passed:
  "fs_dev (t_dev s) \<Longrightarrow> fs_consistent (t_dev s) (home (t_dev s)) \<Longrightarrow> expect_dev M16_E_OK msg m16_fsck s = s"
  using expect_dev_passed [of m16_fsck s M16_E_OK "t_dev s" msg] by (simp add: fs_dev_fsck)

section \<open>Properties\<close>

text \<open>C4: exactly twelve files fit on a freshly formatted device. Of any list of new files with different names, written
  one after the other, the first twelve are created and every later one is refused for lack of space; then the
  consistency check passes, each of the twelve reads back as written, and no other name is found.\<close>

theorem m16_capacity:
  assumes "dev_fail_after d0 < 0" "dev_total_blocks d0 = M16_MAX_BLOCKS" "\<forall>f \<in> set fs. file_ok f"
    and "sorted_wrt (\<lambda>f g. \<not> m16_streq (fst f) (fst g)) fs"
  shows "\<exists>d d1. m16_format (Some d0) = (M16_E_OK, Some d) \<and>
    write_all d fs = (replicate (min (length fs) 12) M16_E_OK @ replicate (length fs - 12) M16_E_NOSPC, d1) \<and>
    m16_fsck (Some d1) = (M16_E_OK, Some d1) \<and> (\<forall>f \<in> set (take 12 fs). file_of d1 (fst f) = Inr (snd f)) \<and>
    (\<forall>nm. (\<forall>f \<in> set (take 12 fs). \<not> m16_streq (fst f) nm) \<longrightarrow> file_of d1 nm = Inl M16_E_NOENT)"
proof -
  obtain d where d: "m16_format (Some d0) = (M16_E_OK, Some d)" "fs_dev d" "fs_consistent d (home d)" "dev_fail_after d < 0"
      "files_left (home d) = 12" "\<And>nm. file_of d nm = Inl M16_E_NOENT"
    using formatted_device [OF assms(1,2)] by blast
  have new: "\<forall>f \<in> set fs. file_ok f \<and> file_of d (fst f) = Inl M16_E_NOENT" using assms(3) d(6) by simp
  have k: "take (min (length fs) 12) fs = take 12 fs" "length fs - min (length fs) 12 = length fs - 12"
    by (simp_all add: min_def)
  show ?thesis using write_all_run [OF d(2-4) new assms(4)] d(1,6) fs_dev_fsck unfolding d(5) k by auto
qed

theorem m16_capacity_witness:
  "\<exists>d d1. m16_format (Some (demo_dev\<lparr>dev_fail_after := -1\<rparr>)) = (M16_E_OK, Some d) \<and>
     write_all d [(c_string ''hello.txt'', hello), (c_string ''crash.txt'', crashy)] = ([M16_E_OK, M16_E_OK], d1) \<and>
     file_of d1 (c_string ''hello.txt'') = Inr hello \<and> file_of d1 (c_string ''crash.txt'') = Inr crashy"
proof -
  let ?fs = "[(c_string ''hello.txt'', hello), (c_string ''crash.txt'', crashy)]"
  have "\<forall>f \<in> set ?fs. file_ok f" "sorted_wrt (\<lambda>f g. \<not> m16_streq (fst f) (fst g)) ?fs"
    using test_names test_names_differ hello_facts(1,2) by (simp_all add: file_ok_def)
  then show ?thesis
    using m16_capacity [of "demo_dev\<lparr>dev_fail_after := -1\<rparr>" ?fs] by (auto simp: demo_dev_def M16_MAX_BLOCKS_def numeral_2_eq_2)
qed

text \<open>C6: the self test of the journalled file system passes: whatever the memory for the device and the buffer holds when
  it starts, every check of it succeeds, it prints the line saying so and nothing else, and its exit status is 0.\<close>

theorem m16_self_test_passes:
  assumes "length out = 64"
  shows "m16_host_main dev out = (0, ''M16 host tests PASS'' @ [CHR 0x0A])"
proof -
  define s0 where "s0 = \<lparr>t_fails = 0, t_dev = dev, t_out = out, t_out_size = 0, t_stdout = ''''\<rparr>"
  obtain d1 where f: "expect_dev M16_E_OK ''format'' m16_format (init_dev s0) = s0\<lparr>t_dev := d1\<rparr>" "fs_dev d1"
      "fs_consistent d1 (home d1)" "dev_fail_after d1 < 0" "files_left (home d1) = 12" "\<And>nm. file_of d1 nm = Inl M16_E_NOENT"
    using init_format [of "''format''" s0] by blast
  obtain d2 where h: "m16_write_file (Some d1) (Some (c_string ''hello.txt'')) (Some hello) 9 = (M16_E_OK, Some d2)" "fs_dev d2"
      "fs_consistent d2 (home d2)" "dev_fail_after d2 < 0" "files_left (home d2) = 11" "file_of d2 (c_string ''hello.txt'') = Inr hello"
      "file_of d2 (c_string ''crash.txt'') = Inl M16_E_NOENT"
    using write_file_step [OF f(2-4) test_names(1), of 9 hello] f(5,6) hello_facts test_names_differ by auto
  obtain d3 d4 where c: "m16_write_file_ex (Some d2) (Some (c_string ''crash.txt'')) (Some crashy) 12 True = (M16_E_OK, Some d3)"
      "m16_journal_recover (Some d3) = (M16_E_OK, Some d4)" "fs_dev d4" "fs_consistent d4 (home d4)"
      "file_of d4 (c_string ''crash.txt'') = Inr crashy"
    using logged_creation_recovers [OF h(2-4,7) _ test_names(2), of 12 crashy] h(5) hello_facts(2) by auto
  define s1 where "s1 = s0\<lparr>t_dev := d4, t_out := patch 0 crashy (patch 0 hello out), t_out_size := 12\<rparr>"
  obtain d5 where g: "expect_dev M16_E_OK ''format for corrupt test'' m16_format (init_dev s1) = s1\<lparr>t_dev := d5\<rparr>" "fs_dev d5"
      "fs_consistent d5 (home d5)" "dev_fail_after d5 < 0" "files_left (home d5) = 12" "\<And>nm. file_of d5 nm = Inl M16_E_NOENT"
    using init_format [of "''format for corrupt test''" s1] by blast
  obtain d6 where b: "m16_write_file_ex (Some d5) (Some (c_string ''bad.txt'')) (Some crashy) 12 True = (M16_E_OK, Some d6)"
    using create_checked [OF g(2-4) g(6) _ test_names(3), of 12 crashy] g(5) hello_facts(2) by auto
  obtain d7 where r: "m16_journal_recover (Some (t_dev (damage (s1\<lparr>t_dev := d6\<rparr>)))) = (M16_E_CORRUPT, Some d7)"
    using logged_creation [OF g(2,3) test_names(3) _ _ b g(4)] damage_rejected [of "s1\<lparr>t_dev := d6\<rparr>"] hello_facts(2) by auto
  let ?h = "s0\<lparr>t_dev := d2, t_out := patch 0 hello out, t_out_size := 9\<rparr>"
  have o: "t_out s0 = out" by (simp add: s0_def)
  have read1: "expect_read (c_string ''hello.txt'') msg (s0\<lparr>t_dev := d2\<rparr>) = ?h" for msg
    using expect_read_passed [of "s0\<lparr>t_dev := d2\<rparr>" _ hello msg] h(2,3,6) assms hello_facts(1) o by simp
  have read2: "expect_read (c_string ''crash.txt'') msg (?h\<lparr>t_dev := d4\<rparr>) = s1" for msg
    using expect_read_passed [of "?h\<lparr>t_dev := d4\<rparr>" _ crashy msg] c(3-5) assms hello_facts(2)
    by (simp add: s1_def patch_def hello_facts)
  have first: "fold (\<lambda>f s. f s) (take 14 m16_calls) s0 = s1"
    using f(1-3) h(1-3) c(1-4) read1 read2
    by (simp add: m16_calls_def fsck_passed expect_dev_passed hello_facts expect_size_def expect_bytes_def expect_passed
          patch_front s1_def)
  have second: "fold (\<lambda>f s. f s) (drop 14 m16_calls) s1 = (damage (s1\<lparr>t_dev := d6\<rparr>))\<lparr>t_dev := d7\<rparr>"
    using g(1) b r by (simp add: m16_calls_def expect_dev_passed hello_facts)
  have "fold (\<lambda>f s. f s) m16_calls s0 = (damage (s1\<lparr>t_dev := d6\<rparr>))\<lparr>t_dev := d7\<rparr>"
    using first second by (metis append_take_drop_id fold_append comp_apply)
  then show ?thesis by (simp add: m16_host_main_def Let_def damage_def s1_def s0_def)
qed

theorem m16_self_test_passes_witness:
  "m16_host_main demo_dev (replicate 64 0xCC) = (0, ''M16 host tests PASS'' @ [CHR 0x0A])"
  by (rule m16_self_test_passes) simp

end
