(* ===== verification/Mcsfs1.thy ===== *)
theory Mcsfs1
  imports MCS_Prelude
begin

text \<open>
  \<open>fs/mcsfs1/mcsfs1.c\<close>: the file system MCSFS1 without journal. A device of 512-byte blocks holds a superblock, two
  bitmaps (inodes, blocks), four blocks of inodes, the root directory and data blocks; a file has up to eight direct
  blocks.

  The device is reached through the functions of \<open>struct mcsfs1_blkdev\<close>, which are parameters on the state \<open>'c\<close> of the
  object that \<open>ctx\<close> points to. A computation takes that state and returns \<open>Inl rc\<close> for the status it returns early
  with, or \<open>Inr\<close> of its result, and the new state. Blocks, inodes (60 bytes) and directory entries (32 bytes)
  are the byte buffers of the source, read and written at the offsets of the C structs.
\<close>

section \<open>Data\<close>

definition MCSFS1_BLOCK_SIZE :: nat where [mcs_consts]: "MCSFS1_BLOCK_SIZE = 512"
definition MCSFS1_MAGIC :: u32 where [mcs_consts]: "MCSFS1_MAGIC = 0x31465343"
definition MCSFS1_VERSION :: u32 where [mcs_consts]: "MCSFS1_VERSION = 1"
definition MCSFS1_MAX_INODES :: u32 where [mcs_consts]: "MCSFS1_MAX_INODES = 32"
definition MCSFS1_DIRECT_BLOCKS :: nat where [mcs_consts]: "MCSFS1_DIRECT_BLOCKS = 8"
definition MCSFS1_MAX_NAME :: nat where [mcs_consts]: "MCSFS1_MAX_NAME = 27"
definition MCSFS1_ROOT_INO :: u32 where [mcs_consts]: "MCSFS1_ROOT_INO = 1"
definition MCSFS1_MODE_FILE :: u16 where [mcs_consts]: "MCSFS1_MODE_FILE = 1"
definition MCSFS1_MODE_DIR :: u16 where [mcs_consts]: "MCSFS1_MODE_DIR = 2"
definition MCSFS1_ERR_OK :: int where [mcs_consts]: "MCSFS1_ERR_OK = 0"
definition MCSFS1_ERR_INVAL :: int where [mcs_consts]: "MCSFS1_ERR_INVAL = - 1"
definition MCSFS1_ERR_IO :: int where [mcs_consts]: "MCSFS1_ERR_IO = - 2"
definition MCSFS1_ERR_NOSPC :: int where [mcs_consts]: "MCSFS1_ERR_NOSPC = - 3"
definition MCSFS1_ERR_EXIST :: int where [mcs_consts]: "MCSFS1_ERR_EXIST = - 4"
definition MCSFS1_ERR_NOENT :: int where [mcs_consts]: "MCSFS1_ERR_NOENT = - 5"
definition MCSFS1_ERR_NAMETOOLONG :: int where [mcs_consts]: "MCSFS1_ERR_NAMETOOLONG = - 6"
definition MCSFS1_ERR_CORRUPT :: int where [mcs_consts]: "MCSFS1_ERR_CORRUPT = - 7"
definition MCSFS1_ERR_ISDIR :: int where [mcs_consts]: "MCSFS1_ERR_ISDIR = - 8"
definition MCSFS1_ERR_RANGE :: int where [mcs_consts]: "MCSFS1_ERR_RANGE = - 9"

definition MCSFS1_SB_LBA :: u32 where [mcs_consts]: "MCSFS1_SB_LBA = 0"
definition MCSFS1_INODE_BMAP_LBA :: u32 where [mcs_consts]: "MCSFS1_INODE_BMAP_LBA = 1"
definition MCSFS1_BLOCK_BMAP_LBA :: u32 where [mcs_consts]: "MCSFS1_BLOCK_BMAP_LBA = 2"
definition MCSFS1_INODE_TABLE_LBA :: u32 where [mcs_consts]: "MCSFS1_INODE_TABLE_LBA = 3"
definition MCSFS1_INODE_TABLE_BLOCKS :: u32 where [mcs_consts]: "MCSFS1_INODE_TABLE_BLOCKS = 4"
definition MCSFS1_ROOT_DIR_LBA :: u32 where [mcs_consts]: "MCSFS1_ROOT_DIR_LBA = 7"
definition MCSFS1_DATA_START_LBA :: u32 where [mcs_consts]: "MCSFS1_DATA_START_LBA = 8"
definition MCSFS1_MIN_BLOCKS :: u32 where [mcs_consts]: "MCSFS1_MIN_BLOCKS = 16"
definition MCSFS1_DIRENT_COUNT :: nat where [mcs_consts]: "MCSFS1_DIRENT_COUNT = 16"

text \<open>\<open>bd_behind\<close> is no field of the C struct: it is the byte that follows the block buffer of \<open>find_dirent\<close> on the
  stack, which that function reads for a name of 27 characters in the last slot. Its value is arbitrary.\<close>

record 'c mcsfs1_blkdev =
  bd_block_count :: u32
  bd_read :: "('c \<Rightarrow> u32 \<Rightarrow> int \<times> bytes \<times> 'c) option"
  bd_write :: "('c \<Rightarrow> u32 \<Rightarrow> bytes \<Rightarrow> int \<times> 'c) option"
  bd_flush :: "('c \<Rightarrow> int \<times> 'c) option"
  bd_behind :: u8

record 'c mcsfs1_mount_t =
  mnt_dev :: "'c mcsfs1_blkdev option"
  mnt_block_count :: u32
  mnt_data_start :: u32

text \<open>The fields of \<open>struct mcsfs1_super_disk\<close>, \<open>mcsfs1_inode_disk\<close> (60 bytes) and \<open>mcsfs1_dirent_disk\<close> (32 bytes).\<close>

definition sbf_magic :: "bytes \<Rightarrow> u32" where "sbf_magic b = rd32 b 0"
definition sbf_version :: "bytes \<Rightarrow> u32" where "sbf_version b = rd32 b 4"
definition sbf_block_size :: "bytes \<Rightarrow> u32" where "sbf_block_size b = rd32 b 8"
definition sbf_block_count :: "bytes \<Rightarrow> u32" where "sbf_block_count b = rd32 b 12"
definition sbf_inode_count :: "bytes \<Rightarrow> u32" where "sbf_inode_count b = rd32 b 16"
definition sbf_inode_bmap_lba :: "bytes \<Rightarrow> u32" where "sbf_inode_bmap_lba b = rd32 b 20"
definition sbf_block_bmap_lba :: "bytes \<Rightarrow> u32" where "sbf_block_bmap_lba b = rd32 b 24"
definition sbf_inode_table_lba :: "bytes \<Rightarrow> u32" where "sbf_inode_table_lba b = rd32 b 28"
definition sbf_root_ino :: "bytes \<Rightarrow> u32" where "sbf_root_ino b = rd32 b 36"
definition sbf_root_dir_lba :: "bytes \<Rightarrow> u32" where "sbf_root_dir_lba b = rd32 b 40"
definition sbf_data_start_lba :: "bytes \<Rightarrow> u32" where "sbf_data_start_lba b = rd32 b 44"
definition sbf_clean :: "bytes \<Rightarrow> u32" where "sbf_clean b = rd32 b 48"

definition INODE_BYTES :: nat where [mcs_consts]: "INODE_BYTES = 60"
definition DIRENT_BYTES :: nat where [mcs_consts]: "DIRENT_BYTES = 32"

definition in_mode :: "bytes \<Rightarrow> u16" where "in_mode b = rd16 b 0"
definition in_size :: "bytes \<Rightarrow> u32" where "in_size b = rd32 b 4"
definition in_direct :: "bytes \<Rightarrow> nat \<Rightarrow> u32" where "in_direct b i = rd32 b (8 + 4 * i)"

definition make_inode :: "u16 \<Rightarrow> u16 \<Rightarrow> u32 \<Rightarrow> u32 \<Rightarrow> bytes" where
  "make_inode mode links sz direct0 =
     wr32 (wr32 (wr16 (wr16 (replicate INODE_BYTES 0) 0 mode) 2 links) 4 sz) 8 direct0"

definition de_ino :: "bytes \<Rightarrow> nat \<Rightarrow> u32" where "de_ino blk i = rd32 blk (32 * i)"

section \<open>Helpers\<close>

type_synonym ('c, 'a) fsm = "'c \<Rightarrow> (int + 'a) \<times> 'c"

text \<open>\<open>rc = m; if (rc != 0) return rc;\<close> and then the rest.\<close>

definition fs_then :: "('c, 'a) fsm \<Rightarrow> ('a \<Rightarrow> ('c, 'b) fsm) \<Rightarrow> ('c, 'b) fsm" where
  "fs_then m k = (\<lambda>c. case m c of (Inl rc, c') \<Rightarrow> (Inl rc, c') | (Inr x, c') \<Rightarrow> k x c')"

definition fs_return :: "'a \<Rightarrow> ('c, 'a) fsm" where
  "fs_return x = (\<lambda>c. (Inr x, c))"

definition fs_fail :: "int \<Rightarrow> ('c, 'a) fsm" where
  "fs_fail rc = (\<lambda>c. (Inl rc, c))"

definition mcsfs_memset :: "bytes \<Rightarrow> nat \<Rightarrow> u8 \<Rightarrow> nat \<Rightarrow> bytes" where
  "mcsfs_memset d off v n = fill_loop off d v n"

definition mcsfs_memcpy :: "bytes \<Rightarrow> nat \<Rightarrow> bytes \<Rightarrow> nat \<Rightarrow> nat \<Rightarrow> bytes" where
  "mcsfs_memcpy d doff s soff n = copy_loop doff d soff s n"

text \<open>Only whether the result is zero is used.\<close>

definition mcsfs_memcmp :: "bytes \<Rightarrow> bytes \<Rightarrow> nat \<Rightarrow> int" where
  "mcsfs_memcmp a b n =
     (case first_index (\<lambda>i. a ! i \<noteq> b ! i) 0 n of
        None \<Rightarrow> 0
      | Some i \<Rightarrow> int (unat (a ! i)) - int (unat (b ! i)))"

definition mcsfs_strlen_bound :: "bytes option \<Rightarrow> nat \<Rightarrow> nat" where
  "mcsfs_strlen_bound s n = (case s of None \<Rightarrow> n | Some s \<Rightarrow> strnlen s n)"

definition valid_name :: "bytes option \<Rightarrow> int + nat" where
  "valid_name name =
     (let len = mcsfs_strlen_bound name (MCSFS1_MAX_NAME + 1) in
      if len = 0 \<or> MCSFS1_MAX_NAME < len then Inl MCSFS1_ERR_NAMETOOLONG else Inr len)"

definition dev_read :: "'c mcsfs1_blkdev option \<Rightarrow> u32 \<Rightarrow> ('c, bytes) fsm" where
  "dev_read dev lba c =
     (case dev of
        None \<Rightarrow> (Inl MCSFS1_ERR_INVAL, c)
      | Some d \<Rightarrow>
          (case bd_read d of
             None \<Rightarrow> (Inl MCSFS1_ERR_INVAL, c)
           | Some rd \<Rightarrow>
               if bd_block_count d \<le> lba then (Inl MCSFS1_ERR_RANGE, c)
               else (case rd c lba of (rc, buf, c') \<Rightarrow> (if rc \<noteq> 0 then Inl rc else Inr buf, c'))))"

definition dev_write :: "'c mcsfs1_blkdev option \<Rightarrow> u32 \<Rightarrow> bytes \<Rightarrow> ('c, unit) fsm" where
  "dev_write dev lba buf c =
     (case dev of
        None \<Rightarrow> (Inl MCSFS1_ERR_INVAL, c)
      | Some d \<Rightarrow>
          (case bd_write d of
             None \<Rightarrow> (Inl MCSFS1_ERR_INVAL, c)
           | Some wr \<Rightarrow>
               if bd_block_count d \<le> lba then (Inl MCSFS1_ERR_RANGE, c)
               else (case wr c lba buf of (rc, c') \<Rightarrow> (if rc \<noteq> 0 then Inl rc else Inr (), c'))))"

definition dev_flush :: "'c mcsfs1_blkdev option \<Rightarrow> ('c, unit) fsm" where
  "dev_flush dev c =
     (case dev of
        None \<Rightarrow> (Inl MCSFS1_ERR_INVAL, c)
      | Some d \<Rightarrow>
          (case bd_flush d of
             None \<Rightarrow> (Inl MCSFS1_ERR_INVAL, c)
           | Some fl \<Rightarrow> (case fl c of (rc, c') \<Rightarrow> (if rc \<noteq> 0 then Inl rc else Inr (), c'))))"

definition bit_of :: "u32 \<Rightarrow> u8" where
  "bit_of idx = push_bit (unat (idx mod 8)) 1"

definition bit_set :: "bytes \<Rightarrow> u32 \<Rightarrow> bytes" where
  "bit_set bm idx = (let i = unat (idx div 8) in bm[i := (bm ! i) OR bit_of idx])"

definition bit_clear :: "bytes \<Rightarrow> u32 \<Rightarrow> bytes" where
  "bit_clear bm idx = (let i = unat (idx div 8) in bm[i := (bm ! i) AND NOT (bit_of idx)])"

definition bit_test :: "bytes \<Rightarrow> u32 \<Rightarrow> bool" where
  "bit_test bm idx = ((bm ! unat (idx div 8)) AND bit_of idx \<noteq> 0)"

definition load_super :: "'c mcsfs1_blkdev option \<Rightarrow> ('c, bytes) fsm" where
  "load_super dev =
     fs_then (dev_read dev MCSFS1_SB_LBA) (\<lambda>sb.
       if sbf_magic sb \<noteq> MCSFS1_MAGIC \<or> sbf_version sb \<noteq> MCSFS1_VERSION \<or> sbf_block_size sb \<noteq> of_nat MCSFS1_BLOCK_SIZE then
         fs_fail MCSFS1_ERR_CORRUPT
       else if sbf_block_count sb \<noteq> bd_block_count (the dev) \<or> sbf_inode_count sb \<noteq> MCSFS1_MAX_INODES then
         fs_fail MCSFS1_ERR_CORRUPT
       else if sbf_inode_bmap_lba sb \<noteq> MCSFS1_INODE_BMAP_LBA \<or> sbf_block_bmap_lba sb \<noteq> MCSFS1_BLOCK_BMAP_LBA \<or>
               sbf_inode_table_lba sb \<noteq> MCSFS1_INODE_TABLE_LBA then fs_fail MCSFS1_ERR_CORRUPT
       else if sbf_root_ino sb \<noteq> MCSFS1_ROOT_INO \<or> sbf_root_dir_lba sb \<noteq> MCSFS1_ROOT_DIR_LBA \<or>
               sbf_data_start_lba sb \<noteq> MCSFS1_DATA_START_LBA then fs_fail MCSFS1_ERR_CORRUPT
       else if sbf_block_count sb \<le> sbf_data_start_lba sb then fs_fail MCSFS1_ERR_CORRUPT
       else fs_return sb)"

text \<open>The block and the offset of an inode.\<close>

definition inode_place :: "u32 \<Rightarrow> u32 \<times> nat" where
  "inode_place ino =
     (let idx = ino - 1; per_block = of_nat (MCSFS1_BLOCK_SIZE div INODE_BYTES) in
      (MCSFS1_INODE_TABLE_LBA + idx div per_block, unat (idx mod per_block) * INODE_BYTES))"

definition read_inode :: "'c mcsfs1_blkdev option \<Rightarrow> u32 \<Rightarrow> ('c, bytes) fsm" where
  "read_inode dev ino =
     (if ino = 0 \<or> MCSFS1_MAX_INODES < ino then fs_fail MCSFS1_ERR_INVAL
      else
        let (lba, off) = inode_place ino in
        if MCSFS1_DATA_START_LBA \<le> lba then fs_fail MCSFS1_ERR_CORRUPT
        else fs_then (dev_read dev lba) (\<lambda>block.
               fs_return (mcsfs_memcpy (replicate INODE_BYTES 0) 0 block off INODE_BYTES)))"

definition write_inode :: "'c mcsfs1_blkdev option \<Rightarrow> u32 \<Rightarrow> bytes \<Rightarrow> ('c, unit) fsm" where
  "write_inode dev ino inode =
     (if ino = 0 \<or> MCSFS1_MAX_INODES < ino then fs_fail MCSFS1_ERR_INVAL
      else
        let (lba, off) = inode_place ino in
        if MCSFS1_DATA_START_LBA \<le> lba then fs_fail MCSFS1_ERR_CORRUPT
        else fs_then (dev_read dev lba) (\<lambda>block. dev_write dev lba (mcsfs_memcpy block off inode 0 INODE_BYTES)))"

definition load_bmaps :: "'c mcsfs1_blkdev option \<Rightarrow> ('c, bytes \<times> bytes) fsm" where
  "load_bmaps dev =
     fs_then (dev_read dev MCSFS1_INODE_BMAP_LBA) (\<lambda>ib.
     fs_then (dev_read dev MCSFS1_BLOCK_BMAP_LBA) (\<lambda>bb. fs_return (ib, bb)))"

definition store_bmaps :: "'c mcsfs1_blkdev option \<Rightarrow> bytes \<Rightarrow> bytes \<Rightarrow> ('c, unit) fsm" where
  "store_bmaps dev ib bb =
     fs_then (dev_write dev MCSFS1_INODE_BMAP_LBA ib) (\<lambda>_. dev_write dev MCSFS1_BLOCK_BMAP_LBA bb)"

text \<open>The bytes from the name of a directory entry on: to the end of the block, and what lies behind it.\<close>

definition de_name_from :: "u8 \<Rightarrow> bytes \<Rightarrow> nat \<Rightarrow> bytes" where
  "de_name_from behind blk i = drop (32 * i + 5) (blk @ [behind])"

text \<open>The result is the slot and the inode number.\<close>

definition find_dirent :: "'c mcsfs1_blkdev option \<Rightarrow> bytes option \<Rightarrow> ('c, nat \<times> u32) fsm" where
  "find_dirent dev name =
     (case valid_name name of
        Inl rc \<Rightarrow> fs_fail rc
      | Inr name_len \<Rightarrow>
          fs_then (dev_read dev MCSFS1_ROOT_DIR_LBA) (\<lambda>block.
            case first_index (\<lambda>i. de_ino block i \<noteq> 0 \<and>
                   mcsfs_strlen_bound (Some (de_name_from (bd_behind (the dev)) block i)) (MCSFS1_MAX_NAME + 1) = name_len \<and>
                   mcsfs_memcmp (de_name_from (bd_behind (the dev)) block i) (the name) name_len = 0)
                 0 MCSFS1_DIRENT_COUNT of
              Some i \<Rightarrow> fs_return (i, de_ino block i)
            | None \<Rightarrow> fs_fail MCSFS1_ERR_NOENT))"

definition alloc_inode_block :: "'c mcsfs1_blkdev option \<Rightarrow> ('c, u32 \<times> u32) fsm" where
  "alloc_inode_block dev =
     fs_then (load_bmaps dev) (\<lambda>(ib, bb).
       case first_index (\<lambda>i. \<not> bit_test ib (of_nat i)) 2 (unat MCSFS1_MAX_INODES + 1) of
         None \<Rightarrow> fs_fail MCSFS1_ERR_NOSPC
       | Some ino \<Rightarrow>
           (case first_index (\<lambda>b. \<not> bit_test bb (of_nat b)) (unat MCSFS1_DATA_START_LBA) (unat (bd_block_count (the dev))) of
              None \<Rightarrow> fs_fail MCSFS1_ERR_NOSPC
            | Some lba \<Rightarrow>
                fs_then (store_bmaps dev (bit_set ib (of_nat ino)) (bit_set bb (of_nat lba))) (\<lambda>_.
                  fs_return (of_nat ino, of_nat lba))))"

definition alloc_data_block :: "'c mcsfs1_blkdev option \<Rightarrow> ('c, u32) fsm" where
  "alloc_data_block dev =
     fs_then (load_bmaps dev) (\<lambda>(ib, bb).
       case first_index (\<lambda>b. \<not> bit_test bb (of_nat b)) (unat MCSFS1_DATA_START_LBA) (unat (bd_block_count (the dev))) of
         None \<Rightarrow> fs_fail MCSFS1_ERR_NOSPC
       | Some b \<Rightarrow> fs_then (store_bmaps dev ib (bit_set bb (of_nat b))) (\<lambda>_. fs_return (of_nat b)))"

definition free_inode_and_blocks :: "'c mcsfs1_blkdev option \<Rightarrow> u32 \<Rightarrow> bytes \<Rightarrow> ('c, unit) fsm" where
  "free_inode_and_blocks dev ino inode =
     fs_then (load_bmaps dev) (\<lambda>(ib, bb).
       store_bmaps dev (bit_clear ib ino)
         (fold (\<lambda>i bb. if in_direct inode i \<noteq> 0 \<and> in_direct inode i < bd_block_count (the dev)
                       then bit_clear bb (in_direct inode i) else bb) [0..<MCSFS1_DIRECT_BLOCKS] bb))"

section \<open>Operations\<close>

fun zero_blocks :: "'c mcsfs1_blkdev option \<Rightarrow> nat list \<Rightarrow> ('c, unit) fsm" where
  "zero_blocks dev [] = fs_return ()"
| "zero_blocks dev (lba # lbas) =
     fs_then (dev_write dev (of_nat lba) (replicate MCSFS1_BLOCK_SIZE 0)) (\<lambda>_. zero_blocks dev lbas)"

definition super_image :: "u32 \<Rightarrow> bytes" where
  "super_image count =
     (let b = replicate MCSFS1_BLOCK_SIZE 0; b = wr32 b 0 MCSFS1_MAGIC; b = wr32 b 4 MCSFS1_VERSION;
          b = wr32 b 8 (of_nat MCSFS1_BLOCK_SIZE); b = wr32 b 12 count; b = wr32 b 16 MCSFS1_MAX_INODES;
          b = wr32 b 20 MCSFS1_INODE_BMAP_LBA; b = wr32 b 24 MCSFS1_BLOCK_BMAP_LBA; b = wr32 b 28 MCSFS1_INODE_TABLE_LBA;
          b = wr32 b 32 MCSFS1_INODE_TABLE_BLOCKS; b = wr32 b 36 MCSFS1_ROOT_INO; b = wr32 b 40 MCSFS1_ROOT_DIR_LBA;
          b = wr32 b 44 MCSFS1_DATA_START_LBA
      in wr32 b 48 1)"

definition mcsfs1_format :: "'c mcsfs1_blkdev option \<Rightarrow> ('c, unit) fsm" where
  "mcsfs1_format dev =
     (if dev = None \<or> bd_block_count (the dev) < MCSFS1_MIN_BLOCKS \<or>
         of_nat (MCSFS1_BLOCK_SIZE * 8) < bd_block_count (the dev) then fs_fail MCSFS1_ERR_INVAL
      else
        fs_then (zero_blocks dev [0..<unat (bd_block_count (the dev))]) (\<lambda>_.
        fs_then (dev_write dev MCSFS1_SB_LBA (super_image (bd_block_count (the dev)))) (\<lambda>_.
          let ib = bit_set (bit_set (replicate MCSFS1_BLOCK_SIZE 0) 0) MCSFS1_ROOT_INO;
              bb = fold (\<lambda>b m. bit_set m (of_nat b)) [0..<unat MCSFS1_DATA_START_LBA] (replicate MCSFS1_BLOCK_SIZE 0);
              bb = bit_set bb MCSFS1_ROOT_DIR_LBA
          in fs_then (store_bmaps dev ib bb) (\<lambda>_.
             fs_then (write_inode dev MCSFS1_ROOT_INO
               (make_inode MCSFS1_MODE_DIR 1 (of_nat MCSFS1_BLOCK_SIZE) MCSFS1_ROOT_DIR_LBA)) (\<lambda>_.
             fs_then (dev_write dev MCSFS1_ROOT_DIR_LBA (replicate MCSFS1_BLOCK_SIZE 0)) (\<lambda>_.
             dev_flush dev))))))"

definition mcsfs1_mount :: "'c mcsfs1_mount_t option \<Rightarrow> 'c mcsfs1_blkdev option \<Rightarrow> ('c, 'c mcsfs1_mount_t) fsm" where
  "mcsfs1_mount mnt dev =
     (if mnt = None \<or> dev = None then fs_fail MCSFS1_ERR_INVAL
      else
        fs_then (load_super dev) (\<lambda>sb.
        fs_then (read_inode dev MCSFS1_ROOT_INO) (\<lambda>root.
          if in_mode root \<noteq> MCSFS1_MODE_DIR \<or> in_direct root 0 \<noteq> MCSFS1_ROOT_DIR_LBA then fs_fail MCSFS1_ERR_CORRUPT
          else fs_return ((the mnt)\<lparr>mnt_dev := dev, mnt_block_count := sbf_block_count sb,
                 mnt_data_start := sbf_data_start_lba sb\<rparr>))))"

definition fill_dirent :: "bytes \<Rightarrow> nat \<Rightarrow> u32 \<Rightarrow> bytes \<Rightarrow> nat \<Rightarrow> bytes" where
  "fill_dirent blk slot ino name name_len =
     (let b = wr32 blk (32 * slot) ino; b = b[32 * slot + 4 := ucast MCSFS1_MODE_FILE];
          b = mcsfs_memset b (32 * slot + 5) 0 MCSFS1_MAX_NAME
      in mcsfs_memcpy b (32 * slot + 5) name 0 name_len)"

text \<open>The part of \<open>mcsfs1_create\<close> behind the read of the directory block.\<close>

definition create_entry :: "'c mcsfs1_blkdev option \<Rightarrow> bytes \<Rightarrow> nat \<Rightarrow> bytes \<Rightarrow> ('c, unit) fsm" where
  "create_entry dev name name_len dir_block =
     (case first_index (\<lambda>i. de_ino dir_block i = 0) 0 MCSFS1_DIRENT_COUNT of
        None \<Rightarrow> fs_fail MCSFS1_ERR_NOSPC
      | Some free_slot \<Rightarrow>
          fs_then (alloc_inode_block dev) (\<lambda>(ino, first_data).
          fs_then (write_inode dev ino (make_inode MCSFS1_MODE_FILE 1 0 first_data)) (\<lambda>_.
          fs_then (dev_write dev MCSFS1_ROOT_DIR_LBA (fill_dirent dir_block free_slot ino name name_len)) (\<lambda>_.
          dev_flush dev))))"

definition mcsfs1_create :: "'c mcsfs1_mount_t option \<Rightarrow> bytes option \<Rightarrow> ('c, unit) fsm" where
  "mcsfs1_create mnt name =
     (if mnt = None \<or> mnt_dev (the mnt) = None then fs_fail MCSFS1_ERR_INVAL
      else
        let dev = mnt_dev (the mnt) in
        (case valid_name name of
           Inl rc \<Rightarrow> fs_fail rc
         | Inr name_len \<Rightarrow>
             (\<lambda>c. case find_dirent dev name c of
                (Inr _, c) \<Rightarrow> (Inl MCSFS1_ERR_EXIST, c)
              | (Inl _, c) \<Rightarrow>
                  fs_then (dev_read dev MCSFS1_ROOT_DIR_LBA) (create_entry dev (the name) name_len) c)))"

fun alloc_missing :: "'c mcsfs1_blkdev option \<Rightarrow> bytes \<Rightarrow> nat list \<Rightarrow> ('c, bytes) fsm" where
  "alloc_missing dev inode [] = fs_return inode"
| "alloc_missing dev inode (i # is) =
     (if in_direct inode i = 0 then
        fs_then (alloc_data_block dev) (\<lambda>b. alloc_missing dev (wr32 inode (8 + 4 * i) b) is)
      else alloc_missing dev inode is)"

fun write_blocks :: "'c mcsfs1_blkdev option \<Rightarrow> bytes \<Rightarrow> bytes \<Rightarrow> nat \<Rightarrow> nat \<Rightarrow> nat list \<Rightarrow> ('c, unit) fsm" where
  "write_blocks dev inode buf len written [] = fs_return ()"
| "write_blocks dev inode buf len written (i # is) =
     (let remain = len - written; chunk = (if MCSFS1_BLOCK_SIZE < remain then MCSFS1_BLOCK_SIZE else remain);
          block = replicate MCSFS1_BLOCK_SIZE 0;
          block = (if chunk \<noteq> 0 then mcsfs_memcpy block 0 buf written chunk else block)
      in fs_then (dev_write dev (in_direct inode i) block) (\<lambda>_. write_blocks dev inode buf len (written + chunk) is))"

text \<open>Lengths up to 4096 are left after the first check, so natural numbers serve for them. \<open>write_file\<close> is the
  part behind the read of the inode.\<close>

definition write_file :: "'c mcsfs1_blkdev option \<Rightarrow> bytes \<Rightarrow> u32 \<Rightarrow> u32 \<Rightarrow> bytes \<Rightarrow> ('c, unit) fsm" where
  "write_file dev buf len ino inode =
     (let blocks_needed = (unat len + MCSFS1_BLOCK_SIZE - 1) div MCSFS1_BLOCK_SIZE;
          blocks_needed = (if blocks_needed = 0 then 1 else blocks_needed) in
      if in_mode inode \<noteq> MCSFS1_MODE_FILE then fs_fail MCSFS1_ERR_ISDIR
      else
        fs_then (alloc_missing dev inode [0..<blocks_needed]) (\<lambda>inode.
        fs_then (write_blocks dev inode buf (unat len) 0 [0..<blocks_needed]) (\<lambda>_.
        fs_then (write_inode dev ino (wr32 inode 4 len)) (\<lambda>_.
        dev_flush dev))))"

definition mcsfs1_write :: "'c mcsfs1_mount_t option \<Rightarrow> bytes option \<Rightarrow> bytes option \<Rightarrow> u32 \<Rightarrow> ('c, unit) fsm" where
  "mcsfs1_write mnt name buf len =
     (if mnt = None \<or> mnt_dev (the mnt) = None \<or> buf = None \<and> len \<noteq> 0 then fs_fail MCSFS1_ERR_INVAL
      else if of_nat (MCSFS1_DIRECT_BLOCKS * MCSFS1_BLOCK_SIZE) < len then fs_fail MCSFS1_ERR_RANGE
      else
        let dev = mnt_dev (the mnt) in
        fs_then (find_dirent dev name) (\<lambda>(_, ino).
        fs_then (read_inode dev ino) (write_file dev (case buf of None \<Rightarrow> [] | Some b \<Rightarrow> b) len ino)))"

fun read_blocks :: "'c mcsfs1_blkdev option \<Rightarrow> bytes \<Rightarrow> bytes \<Rightarrow> nat \<Rightarrow> nat \<Rightarrow> nat list \<Rightarrow> 'c \<Rightarrow> (int + unit) \<times> bytes \<times> 'c" where
  "read_blocks dev inode buf copied remain [] c = (Inr (), buf, c)"
| "read_blocks dev inode buf copied remain (i # is) c =
     (if remain = 0 then (Inr (), buf, c)
      else if in_direct inode i = 0 then (Inl MCSFS1_ERR_CORRUPT, buf, c)
      else
        (case dev_read dev (in_direct inode i) c of
           (Inl rc, c) \<Rightarrow> (Inl rc, buf, c)
         | (Inr block, c) \<Rightarrow>
             let chunk = (if MCSFS1_BLOCK_SIZE < remain then MCSFS1_BLOCK_SIZE else remain) in
             read_blocks dev inode (mcsfs_memcpy buf copied block 0 chunk) (copied + chunk) (remain - chunk) is c))"

text \<open>The result, the caller's buffer, \<open>*out_len\<close> and the device.\<close>

definition mcsfs1_read ::
  "'c mcsfs1_mount_t option \<Rightarrow> bytes option \<Rightarrow> bytes option \<Rightarrow> u32 \<Rightarrow> u32 option \<Rightarrow> 'c \<Rightarrow>
   (int + unit) \<times> bytes option \<times> u32 option \<times> 'c" where
  "mcsfs1_read mnt name buf cap out_len c =
     (if mnt = None \<or> mnt_dev (the mnt) = None \<or> buf = None \<or> out_len = None then (Inl MCSFS1_ERR_INVAL, buf, out_len, c)
      else
        let dev = mnt_dev (the mnt) in
        (case fs_then (find_dirent dev name) (\<lambda>(_, ino). read_inode dev ino) c of
           (Inl rc, c) \<Rightarrow> (Inl rc, buf, out_len, c)
         | (Inr inode, c) \<Rightarrow>
             if in_mode inode \<noteq> MCSFS1_MODE_FILE then (Inl MCSFS1_ERR_ISDIR, buf, out_len, c)
             else if cap < in_size inode then (Inl MCSFS1_ERR_RANGE, buf, out_len, c)
             else
               (case read_blocks dev inode (the buf) 0 (unat (in_size inode)) [0..<MCSFS1_DIRECT_BLOCKS] c of
                  (Inl rc, b, c) \<Rightarrow> (Inl rc, Some b, out_len, c)
                | (Inr _, b, c) \<Rightarrow> (Inr (), Some b, Some (in_size inode), c))))"

definition mcsfs1_unlink :: "'c mcsfs1_mount_t option \<Rightarrow> bytes option \<Rightarrow> ('c, unit) fsm" where
  "mcsfs1_unlink mnt name =
     (if mnt = None \<or> mnt_dev (the mnt) = None then fs_fail MCSFS1_ERR_INVAL
      else
        let dev = mnt_dev (the mnt) in
        fs_then (find_dirent dev name) (\<lambda>(slot, ino).
        fs_then (read_inode dev ino) (\<lambda>inode.
        fs_then (dev_read dev MCSFS1_ROOT_DIR_LBA) (\<lambda>dir_block.
        fs_then (dev_write dev MCSFS1_ROOT_DIR_LBA (mcsfs_memset dir_block (32 * slot) 0 DIRENT_BYTES)) (\<lambda>_.
        fs_then (free_inode_and_blocks dev ino inode) (\<lambda>_.
        dev_flush dev))))))"

definition mcsfs1_fsck :: "'c mcsfs1_blkdev option \<Rightarrow> ('c, unit) fsm" where
  "mcsfs1_fsck dev =
     fs_then (load_super dev) (\<lambda>sb.
     fs_then (read_inode dev MCSFS1_ROOT_INO) (\<lambda>root.
       if in_mode root \<noteq> MCSFS1_MODE_DIR then fs_fail MCSFS1_ERR_CORRUPT
       else if in_direct root 0 \<noteq> MCSFS1_ROOT_DIR_LBA then fs_fail MCSFS1_ERR_CORRUPT
       else if of_nat (MCSFS1_DIRECT_BLOCKS * MCSFS1_BLOCK_SIZE) < in_size root then fs_fail MCSFS1_ERR_CORRUPT
       else if bd_block_count (the dev) \<le> in_direct root 0 then fs_fail MCSFS1_ERR_CORRUPT
       else if sbf_clean sb \<noteq> 1 then fs_fail MCSFS1_ERR_CORRUPT
       else
         fs_then (dev_read dev MCSFS1_INODE_BMAP_LBA) (\<lambda>ib.
         fs_then (dev_read dev MCSFS1_BLOCK_BMAP_LBA) (\<lambda>bb.
           if first_index (\<lambda>b. \<not> bit_test bb (of_nat b)) 0 (unat MCSFS1_DATA_START_LBA) \<noteq> None then fs_fail MCSFS1_ERR_CORRUPT
           else
             fs_then (dev_read dev MCSFS1_ROOT_DIR_LBA) (\<lambda>dirblk.
               if first_index (\<lambda>i. de_ino dirblk i \<noteq> 0 \<and>
                    (MCSFS1_MAX_INODES < de_ino dirblk i \<or> \<not> bit_test ib (de_ino dirblk i))) 0 MCSFS1_DIRENT_COUNT \<noteq> None
               then fs_fail MCSFS1_ERR_CORRUPT
               else fs_return ())))))"

section \<open>The device\<close>

text \<open>What the file system relies on: reads and writes inside the device succeed, a block holds what was written to it
  last, and flushing keeps the contents.\<close>

locale fs_device =
  fixes dev :: "'c mcsfs1_blkdev" and ok :: "'c \<Rightarrow> bool" and blk :: "'c \<Rightarrow> u32 \<Rightarrow> bytes"
    and rd :: "'c \<Rightarrow> u32 \<Rightarrow> int \<times> bytes \<times> 'c" and wr :: "'c \<Rightarrow> u32 \<Rightarrow> bytes \<Rightarrow> int \<times> 'c" and fl :: "'c \<Rightarrow> int \<times> 'c"
  assumes calls: "bd_read dev = Some rd" "bd_write dev = Some wr" "bd_flush dev = Some fl"
    and rd_ok: "ok c \<Longrightarrow> lba < bd_block_count dev \<Longrightarrow> \<exists>c'. rd c lba = (0, blk c lba, c') \<and> ok c' \<and> blk c' = blk c"
    and wr_ok: "ok c \<Longrightarrow> lba < bd_block_count dev \<Longrightarrow> length b = 512 \<Longrightarrow>
      \<exists>c'. wr c lba b = (0, c') \<and> ok c' \<and> blk c' = (blk c)(lba := b)"
    and fl_ok: "ok c \<Longrightarrow> \<exists>c'. fl c = (0, c') \<and> ok c' \<and> blk c' = blk c"
    and blk_length: "ok c \<Longrightarrow> length (blk c lba) = 512"

text \<open>A computation started on a device with contents \<open>D\<close> ends with result \<open>r\<close> and contents \<open>D'\<close>.\<close>

definition gives :: "('c \<Rightarrow> bool) \<Rightarrow> ('c \<Rightarrow> u32 \<Rightarrow> bytes) \<Rightarrow> ('c, 'a) fsm \<Rightarrow> (u32 \<Rightarrow> bytes) \<Rightarrow> int + 'a \<Rightarrow> (u32 \<Rightarrow> bytes) \<Rightarrow> bool" where
  "gives ok blk m D r D' \<longleftrightarrow> (\<forall>c. ok c \<and> blk c = D \<longrightarrow> (\<exists>c'. m c = (r, c') \<and> ok c' \<and> blk c' = D'))"

lemma gives_return: "gives ok blk (fs_return x) D (Inr x) D"
  by (simp add: gives_def fs_return_def)

lemma gives_fail: "gives ok blk (fs_fail e) D (Inl e) D"
  by (simp add: gives_def fs_fail_def)

lemma gives_then:
  assumes "gives ok blk m D (Inr x) D1" "gives ok blk (k x) D1 r D2"
  shows "gives ok blk (fs_then m k) D r D2"
  unfolding gives_def fs_then_def
proof (intro allI impI)
  fix c assume "ok c \<and> blk c = D"
  then obtain c1 where c1: "m c = (Inr x, c1)" "ok c1 \<and> blk c1 = D1" using assms(1) unfolding gives_def by metis
  then obtain c2 where "k x c1 = (r, c2)" "ok c2 \<and> blk c2 = D2" using assms(2) unfolding gives_def by metis
  then show "\<exists>c'. (case m c of (Inl rc, c') \<Rightarrow> (Inl rc, c') | (Inr x, c') \<Rightarrow> k x c') = (r, c') \<and> ok c' \<and> blk c' = D2"
    using c1 by auto
qed

lemma gives_stop:
  assumes "gives ok blk m D (Inl e) D1"
  shows "gives ok blk (fs_then m k) D (Inl e) D1"
  unfolding gives_def fs_then_def
proof (intro allI impI)
  fix c assume "ok c \<and> blk c = D"
  then obtain c1 where "m c = (Inl e, c1)" "ok c1 \<and> blk c1 = D1" using assms unfolding gives_def by metis
  then show "\<exists>c'. (case m c of (Inl rc, c') \<Rightarrow> (Inl rc, c') | (Inr x, c') \<Rightarrow> k x c') = (Inl e, c') \<and> ok c' \<and> blk c' = D1"
    by auto
qed

lemma gives_probe:
  assumes "gives ok blk m D r1 D1" "isl r1 \<Longrightarrow> gives ok blk k D1 r D2" "\<not> isl r1 \<Longrightarrow> r = Inl e \<and> D2 = D1"
  shows "gives ok blk (\<lambda>c. case m c of (Inr _, c) \<Rightarrow> (Inl e, c) | (Inl _, c) \<Rightarrow> k c) D r D2"
  unfolding gives_def
proof (intro allI impI)
  fix c assume "ok c \<and> blk c = D"
  then obtain c1 where "m c = (r1, c1)" "ok c1 \<and> blk c1 = D1" using assms(1) unfolding gives_def by metis
  then show "\<exists>c'. (case m c of (Inr _, c) \<Rightarrow> (Inl e, c) | (Inl _, c) \<Rightarrow> k c) = (r, c') \<and> ok c' \<and> blk c' = D2"
    using assms(2,3) unfolding gives_def by (cases r1) auto
qed

section \<open>The view of the contents\<close>

definition place :: "nat \<Rightarrow> u32 \<times> nat" where
  "place k = (3 + of_nat ((k - 1) div 8), (k - 1) mod 8 * 60)"

definition inode_at :: "(u32 \<Rightarrow> bytes) \<Rightarrow> nat \<Rightarrow> bytes" where
  "inode_at D k = slice (snd (place k)) 60 (D (fst (place k)))"

definition put_inode :: "(u32 \<Rightarrow> bytes) \<Rightarrow> nat \<Rightarrow> bytes \<Rightarrow> u32 \<Rightarrow> bytes" where
  "put_inode D k b = D(fst (place k) := patch (snd (place k)) b (D (fst (place k))))"

definition is_ino :: "nat \<Rightarrow> bool" where
  "is_ino k \<longleftrightarrow> 1 \<le> k \<and> k \<le> 32"

lemma is_ino_word: "is_ino k \<Longrightarrow> unat (of_nat k :: u32) = k"
  by (simp add: is_ino_def unat_of_nat)

lemma inode_place_of_nat:
  assumes "is_ino k"
  shows "inode_place (of_nat k) = place k" "fst (place k) < 7" "3 \<le> fst (place k)"
    "snd (place k) + 60 \<le> 512" "unat (fst (place k)) = 3 + (k - 1) div 8"
proof -
  have k: "unat (of_nat k - 1 :: u32) = k - 1"
    using assms is_ino_word [OF assms] by (simp add: is_ino_def unat_sub word_le_nat_alt)
  have "unat ((of_nat k - 1) div 8 :: u32) = (k - 1) div 8" "unat ((of_nat k - 1) mod 8 :: u32) = (k - 1) mod 8"
    by (simp_all add: unat_div unat_mod k)
  moreover have lt: "(k - 1) div 8 < 4" using assms by (auto simp: is_ino_def)
  then have "unat (of_nat ((k - 1) div 8) :: u32) = (k - 1) div 8" by (simp add: unat_of_nat)
  ultimately have "(of_nat k - 1) div 8 = (of_nat ((k - 1) div 8) :: u32)" by (simp add: word_unat_eq_iff)
  then show "inode_place (of_nat k) = place k"
    using \<open>unat ((of_nat k - 1) mod 8 :: u32) = (k - 1) mod 8\<close> by (simp add: inode_place_def place_def Let_def mcs_consts)
  have u: "unat (3 + of_nat ((k - 1) div 8) :: u32) = 3 + (k - 1) div 8"
    using lt \<open>unat (of_nat ((k - 1) div 8) :: u32) = (k - 1) div 8\<close> by (simp add: unat_word_ariths)
  then show "fst (place k) < 7" "3 \<le> fst (place k)"
    using lt by (simp_all add: place_def word_less_nat_alt word_le_nat_alt)
  show "unat (fst (place k)) = 3 + (k - 1) div 8" using u by (simp add: place_def)
  have "(k - 1) mod 8 < 8" by simp
  then show "snd (place k) + 60 \<le> 512" unfolding place_def snd_conv by linarith
qed

lemma place_apart:
  assumes "is_ino k" "is_ino j" "k \<noteq> j" "fst (place k) = fst (place j)"
  shows "snd (place k) + 60 \<le> snd (place j) \<or> snd (place j) + 60 \<le> snd (place k)"
proof -
  have "(k - 1) div 8 = (j - 1) div 8"
    using assms(4) inode_place_of_nat(5) [OF assms(1)] inode_place_of_nat(5) [OF assms(2)] by simp
  then have "(k - 1) mod 8 \<noteq> (j - 1) mod 8"
    using assms(1-3) div_mult_mod_eq [of "k - 1" 8] div_mult_mod_eq [of "j - 1" 8] by (auto simp: is_ino_def)
  then have "Suc ((k - 1) mod 8) \<le> (j - 1) mod 8 \<or> Suc ((j - 1) mod 8) \<le> (k - 1) mod 8" by linarith
  then show ?thesis unfolding place_def snd_conv by auto
qed

lemma inode_at_put:
  assumes "is_ino k" "is_ino j" "length b = 60" "\<forall>l. length (D l) = 512"
  shows "inode_at (put_inode D k b) j = (if j = k then b else inode_at D j)"
proof (cases "j = k")
  case True
  then show ?thesis using assms inode_place_of_nat(4) [OF assms(1)] by (simp add: inode_at_def put_inode_def)
next
  case False
  then show ?thesis
    using assms place_apart [OF assms(1,2)] inode_place_of_nat(4) [OF assms(1)] inode_place_of_nat(4) [OF assms(2)]
    by (auto simp: inode_at_def put_inode_def slice_patch_other)
qed

lemma put_inode_other:
  assumes "is_ino k" "l < 3 \<or> 7 \<le> l"
  shows "put_inode D k b l = D l"
proof -
  have "fst (place k) \<noteq> l"
    using inode_place_of_nat(2,3) [OF assms(1)] assms(2) by auto
  then show ?thesis by (auto simp: put_inode_def)
qed

lemma put_inode_length:
  "is_ino k \<Longrightarrow> length b = 60 \<Longrightarrow> \<forall>l. length (D l) = 512 \<Longrightarrow> length (put_inode D k b l) = 512"
  using inode_place_of_nat(4) [of k] by (simp add: put_inode_def)

subsection \<open>Bitmaps\<close>

lemma bit_of_iff: "bit (bit_of k) n \<longleftrightarrow> n = unat k mod 8"
  by (auto simp: bit_of_def bit_simps unat_mod)

lemma bit_test_iff: "bit_test bm k \<longleftrightarrow> bit (bm ! (unat k div 8)) (unat k mod 8)"
proof -
  have "bit (w AND bit_of k) n \<longleftrightarrow> bit w n \<and> n = unat k mod 8" for w :: u8 and n
    by (simp only: bit_and_iff bit_of_iff)
  then have "w AND bit_of k \<noteq> 0 \<longleftrightarrow> bit w (unat k mod 8)" for w :: u8
    by (metis bit_0_eq bot_apply bot_bool_def bit_word_eqI)
  then show ?thesis by (simp add: bit_test_def unat_div)
qed

lemma length_bits [simp]: "length (bit_set bm k) = length bm" "length (bit_clear bm k) = length bm"
  by (simp_all add: bit_set_def bit_clear_def Let_def)

lemma same_bit: "unat j div 8 = unat k div 8 \<Longrightarrow> unat j mod 8 = unat k mod 8 \<longleftrightarrow> j = (k :: u32)"
  by (metis div_mult_mod_eq word_unat_eq_iff)

lemma bit_test_set: "unat k < 8 * length bm \<Longrightarrow> bit_test (bit_set bm k) j \<longleftrightarrow> j = k \<or> bit_test bm j"
  using same_bit [of j k]
  by (cases "unat j div 8 = unat k div 8")
     (auto simp: bit_test_iff bit_set_def Let_def unat_div bit_or_iff bit_of_iff)

lemma bit_test_clear: "unat k < 8 * length bm \<Longrightarrow> bit_test (bit_clear bm k) j \<longleftrightarrow> j \<noteq> k \<and> bit_test bm j"
  using same_bit [of j k]
  by (cases "unat j div 8 = unat k div 8")
     (auto simp: bit_test_iff bit_clear_def Let_def unat_div bit_and_iff bit_not_iff bit_of_iff)

subsection \<open>Names and directory entries\<close>

definition name_fits :: "bytes \<Rightarrow> bool" where
  "name_fits nm \<longleftrightarrow> 0 \<notin> set nm \<and> 1 \<le> length nm \<and> length nm \<le> 26"

definition name_len_ok :: "bytes \<Rightarrow> bool" where
  "name_len_ok nm \<longleftrightarrow> 1 \<le> length nm \<and> length nm \<le> 27"

text \<open>A C string and what may follow it in memory.\<close>

definition c_string :: "bytes option \<Rightarrow> bytes \<Rightarrow> bool" where
  "c_string name nm \<longleftrightarrow> 0 \<notin> set nm \<and> (\<exists>r. name = Some (nm @ 0 # r))"

definition dslot :: "(u32 \<Rightarrow> bytes) \<Rightarrow> nat \<Rightarrow> u32" where
  "dslot D i = de_ino (D 7) i"

definition dfield :: "(u32 \<Rightarrow> bytes) \<Rightarrow> nat \<Rightarrow> bytes" where
  "dfield D i = slice (32 * i + 5) 27 (D 7)"

definition dname :: "(u32 \<Rightarrow> bytes) \<Rightarrow> nat \<Rightarrow> bytes" where
  "dname D i = takeWhile (\<lambda>x. x \<noteq> 0) (dfield D i)"

definition used :: "(u32 \<Rightarrow> bytes) \<Rightarrow> nat \<Rightarrow> bool" where
  "used D i \<longleftrightarrow> i < 16 \<and> dslot D i \<noteq> 0"

definition slot_of :: "(u32 \<Rightarrow> bytes) \<Rightarrow> bytes \<Rightarrow> nat option" where
  "slot_of D nm = first_index (\<lambda>i. dslot D i \<noteq> 0 \<and> dname D i = nm) 0 16"

lemma strnlen_prefix:
  assumes "0 \<notin> set xs" "length xs < n"
  shows "strnlen (xs @ 0 # r) n = length xs"
proof (rule strnlen_eq)
  show "(xs @ 0 # r) ! j \<noteq> 0" if "j < length xs" for j using that assms(1) by (auto simp: nth_append dest: nth_mem)
qed (use assms(2) in simp_all)

lemma valid_name_c:
  "c_string name nm \<Longrightarrow> valid_name name = (if 1 \<le> length nm \<and> length nm \<le> 27 then Inr (length nm) else Inl MCSFS1_ERR_NAMETOOLONG)"
proof -
  assume "c_string name nm"
  then obtain r where n: "name = Some (nm @ 0 # r)" "0 \<notin> set nm" by (auto simp: c_string_def)
  have "strnlen (nm @ 0 # r) 28 = 28" if "28 \<le> length nm"
  proof (rule strnlen_full)
    fix j :: nat
    assume "j < 28"
    then have "(nm @ 0 # r) ! j \<in> set nm" using that by (simp add: nth_append)
    then show "(nm @ 0 # r) ! j \<noteq> 0" using n(2) by metis
  qed
  then show ?thesis using n strnlen_prefix [of nm 28 r]
    by (cases "length nm < 28") (auto simp: valid_name_def mcsfs_strlen_bound_def MCSFS1_MAX_NAME_def Let_def Suc_le_eq)
qed

lemma memcmp_zero: "mcsfs_memcmp a b n = 0 \<longleftrightarrow> (\<forall>i < n. a ! i = b ! i)"
proof (cases "first_index (\<lambda>i. a ! i \<noteq> b ! i) 0 n")
  case None
  then have "mcsfs_memcmp a b n = 0" by (simp add: mcsfs_memcmp_def)
  moreover have "\<forall>i < n. a ! i = b ! i" using None by (auto simp: first_index_None_iff)
  ultimately show ?thesis by simp
next
  case (Some i)
  then have "i < n" "a ! i \<noteq> b ! i" by (auto simp: first_index_Some_iff)
  moreover from this(2) have "int (unat (a ! i)) - int (unat (b ! i)) \<noteq> 0"
    by (metis eq_iff_diff_eq_0 of_nat_eq_iff word_unat_eq_iff)
  ultimately show ?thesis using Some by (auto simp: mcsfs_memcmp_def)
qed

lemma field_split:
  assumes "length (D 7) = 512" "i < 16" "length (dname D i) \<le> 26"
  obtains r where "de_name_from behind (D 7) i = dname D i @ 0 # r" "0 \<notin> set (dname D i)"
proof -
  have l: "length (dfield D i) = 27" using assms(1,2) by (simp add: dfield_def)
  have "takeWhile (\<lambda>x. x \<noteq> 0) (dfield D i) \<noteq> dfield D i"
  proof
    assume "takeWhile (\<lambda>x. x \<noteq> 0) (dfield D i) = dfield D i"
    then have "length (dname D i) = 27" using l unfolding dname_def by metis
    then show False using assms(3) by simp
  qed
  then have "dropWhile (\<lambda>x. x \<noteq> 0) (dfield D i) \<noteq> []" by (metis append_Nil2 takeWhile_dropWhile_id)
  then obtain r1 where r1: "dropWhile (\<lambda>x. x \<noteq> 0) (dfield D i) = 0 # r1"
    by (metis (mono_tags, lifting) hd_dropWhile list.collapse)
  have f: "dfield D i = dname D i @ 0 # r1" unfolding dname_def r1 [symmetric] by simp
  have "de_name_from behind (D 7) i = dfield D i @ drop (32 * i + 32) (D 7) @ [behind]"
  proof -
    have "slice (32 * i + 5) 27 (D 7) @ drop (32 * i + 32) (D 7) = drop (32 * i + 5) (D 7)"
      using append_take_drop_id [of 27 "drop (32 * i + 5) (D 7)"] by (simp add: slice_def add.commute)
    moreover have "de_name_from behind (D 7) i = drop (32 * i + 5) (D 7) @ [behind]"
      using assms(1,2) by (simp add: de_name_from_def)
    ultimately show ?thesis unfolding dfield_def by (metis append.assoc)
  qed
  then have "de_name_from behind (D 7) i = dname D i @ 0 # r1 @ drop (32 * i + 32) (D 7) @ [behind]" using f by simp
  moreover have "0 \<notin> set (dname D i)" unfolding dname_def by (auto dest: set_takeWhileD)
  ultimately show thesis using that by blast
qed

lemma entry_matches:
  assumes "length (D 7) = 512" "i < 16" "length (dname D i) \<le> 26" "c_string name nm"
  shows "mcsfs_strlen_bound (Some (de_name_from behind (D 7) i)) 28 = length nm \<and>
      mcsfs_memcmp (de_name_from behind (D 7) i) (the name) (length nm) = 0 \<longleftrightarrow> dname D i = nm"
proof -
  obtain r where r: "de_name_from behind (D 7) i = dname D i @ 0 # r" "0 \<notin> set (dname D i)"
    by (rule field_split [OF assms(1-3)])
  obtain s where s: "name = Some (nm @ 0 # s)" using assms(4) by (auto simp: c_string_def)
  have "strnlen (dname D i @ 0 # r) 28 = length (dname D i)" using r(2) assms(3) by (intro strnlen_prefix) simp_all
  moreover have "(\<forall>j < length nm. (dname D i @ 0 # r) ! j = (nm @ 0 # s) ! j) \<longleftrightarrow> dname D i = nm"
    if "length (dname D i) = length nm"
    using that by (auto simp: nth_append intro: nth_equalityI)
  ultimately show ?thesis by (auto simp: mcsfs_strlen_bound_def r(1) memcmp_zero s)
qed

section \<open>The invariant and the files\<close>

definition file_inode :: "(u32 \<Rightarrow> bytes) \<Rightarrow> nat \<Rightarrow> bytes" where
  "file_inode D i = inode_at D (unat (dslot D i))"

text \<open>The number of blocks for a length, as \<open>mcsfs1_write\<close> computes it.\<close>

definition needed :: "nat \<Rightarrow> nat" where
  "needed n = (if (n + 511) div 512 = 0 then 1 else (n + 511) div 512)"

definition block_good :: "u32 \<Rightarrow> (u32 \<Rightarrow> bytes) \<Rightarrow> u32 \<Rightarrow> bool" where
  "block_good n D b \<longleftrightarrow> b = 0 \<or> 8 \<le> b \<and> b < n \<and> bit_test (D 2) b"

definition slot_ok :: "u32 \<Rightarrow> (u32 \<Rightarrow> bytes) \<Rightarrow> nat \<Rightarrow> bool" where
  "slot_ok n D i \<longleftrightarrow>
     2 \<le> dslot D i \<and> dslot D i \<le> 32 \<and> bit_test (D 1) (dslot D i) \<and> name_fits (dname D i) \<and>
     in_mode (file_inode D i) = MCSFS1_MODE_FILE \<and> unat (in_size (file_inode D i)) \<le> 4096 \<and>
     (\<forall>j < 8. block_good n D (in_direct (file_inode D i) j)) \<and>
     (\<forall>j < needed (unat (in_size (file_inode D i))). in_direct (file_inode D i) j \<noteq> 0)"

definition root_image :: bytes where
  "root_image = make_inode MCSFS1_MODE_DIR 1 (of_nat MCSFS1_BLOCK_SIZE) MCSFS1_ROOT_DIR_LBA"

definition fs_ok :: "u32 \<Rightarrow> (u32 \<Rightarrow> bytes) \<Rightarrow> bool" where
  "fs_ok n D \<longleftrightarrow>
     (\<forall>l. length (D l) = 512) \<and> 16 \<le> n \<and> n \<le> 4096 \<and> D 0 = super_image n \<and> inode_at D 1 = root_image \<and>
     (\<forall>b < 8. bit_test (D 2) b) \<and> (\<forall>i. used D i \<longrightarrow> slot_ok n D i) \<and>
     (\<forall>i j. used D i \<longrightarrow> used D j \<longrightarrow> i \<noteq> j \<longrightarrow> dslot D i \<noteq> dslot D j \<and> dname D i \<noteq> dname D j) \<and>
     (\<forall>i i' j j'. used D i \<longrightarrow> used D i' \<longrightarrow> j < 8 \<longrightarrow> j' < 8 \<longrightarrow> in_direct (file_inode D i) j \<noteq> 0 \<longrightarrow>
        in_direct (file_inode D i) j = in_direct (file_inode D i') j' \<longrightarrow> i = i' \<and> j = j')"

definition content :: "(u32 \<Rightarrow> bytes) \<Rightarrow> nat \<Rightarrow> bytes" where
  "content D i =
     (let b = file_inode D i; n = unat (in_size b) in take n (concat (map (\<lambda>j. D (in_direct b j)) [0..<needed n])))"

definition files1 :: "(u32 \<Rightarrow> bytes) \<Rightarrow> bytes \<Rightarrow> bytes option" where
  "files1 D nm = map_option (content D) (slot_of D nm)"

lemma fs_okD:
  assumes "fs_ok n D"
  shows "length (D l) = 512" "16 \<le> n" "n \<le> 4096" "D 0 = super_image n" "inode_at D 1 = root_image"
    "b < 8 \<Longrightarrow> bit_test (D 2) b" "used D i \<Longrightarrow> slot_ok n D i"
    "used D i \<Longrightarrow> used D j \<Longrightarrow> i \<noteq> j \<Longrightarrow> dslot D i \<noteq> dslot D j \<and> dname D i \<noteq> dname D j"
    "used D i \<Longrightarrow> used D i' \<Longrightarrow> k < 8 \<Longrightarrow> k' < 8 \<Longrightarrow> in_direct (file_inode D i) k \<noteq> 0 \<Longrightarrow>
       in_direct (file_inode D i) k = in_direct (file_inode D i') k' \<Longrightarrow> i = i' \<and> k = k'"
  using assms unfolding fs_ok_def by blast+

lemma slot_okD:
  assumes "slot_ok n D i"
  shows "is_ino (unat (dslot D i))" "1 < unat (dslot D i)" "bit_test (D 1) (dslot D i)" "name_fits (dname D i)"
    "in_mode (file_inode D i) = MCSFS1_MODE_FILE" "unat (in_size (file_inode D i)) \<le> 4096"
    "j < 8 \<Longrightarrow> block_good n D (in_direct (file_inode D i) j)"
    "j < needed (unat (in_size (file_inode D i))) \<Longrightarrow> in_direct (file_inode D i) j \<noteq> 0"
  using assms by (auto simp: slot_ok_def is_ino_def word_le_nat_alt)

lemma needed_bound: "n \<le> 4096 \<Longrightarrow> 1 \<le> needed n \<and> needed n \<le> 8 \<and> n \<le> 512 * needed n"
  by (auto simp: needed_def)

lemma slot_of_Some: "slot_of D nm = Some i \<Longrightarrow> used D i \<and> dname D i = nm"
  by (auto simp: slot_of_def used_def first_index_Some_iff)

lemma slot_of_None: "slot_of D nm = None \<Longrightarrow> used D i \<Longrightarrow> dname D i \<noteq> nm"
  by (auto simp: slot_of_def used_def first_index_None_iff)

lemma slot_of_used: "fs_ok n D \<Longrightarrow> used D i \<Longrightarrow> slot_of D (dname D i) = Some i"
  using fs_okD(8) [of n D] slot_of_Some [of D "dname D i"] slot_of_None [of D "dname D i" i]
  by (cases "slot_of D (dname D i)") blast+

text \<open>A file that a change does not touch keeps its place and its contents.\<close>

lemma slot_frame:
  assumes s: "slot_ok n D i" and same: "dslot D' i = dslot D i" "dname D' i = dname D i"
      "inode_at D' (unat (dslot D i)) = inode_at D (unat (dslot D i))" "bit_test (D' 1) (dslot D i)"
    and b: "\<And>j. j < 8 \<Longrightarrow> in_direct (file_inode D i) j \<noteq> 0 \<Longrightarrow>
      bit_test (D' 2) (in_direct (file_inode D i) j) \<and> D' (in_direct (file_inode D i) j) = D (in_direct (file_inode D i) j)"
  shows "slot_ok n D' i" "content D' i = content D i" "file_inode D' i = file_inode D i"
proof -
  show f: "file_inode D' i = file_inode D i" using same by (simp add: file_inode_def)
  show "slot_ok n D' i" using s same b unfolding slot_ok_def f block_good_def by auto
  let ?n = "unat (in_size (file_inode D i))"
  have "needed ?n \<le> 8" using needed_bound [OF slot_okD(6) [OF s]] by simp
  then have "map (\<lambda>j. D' (in_direct (file_inode D i) j)) [0..<needed ?n] = map (\<lambda>j. D (in_direct (file_inode D i) j)) [0..<needed ?n]"
    using b slot_okD(8) [OF s] by (intro map_cong) auto
  then show "content D' i = content D i" unfolding content_def f Let_def by metis
qed

text \<open>Under the invariant a name has one slot, so the search for it is determined by its result.\<close>

lemma slot_of_iff: "fs_ok n D \<Longrightarrow> slot_of D nm = Some i \<longleftrightarrow> used D i \<and> dname D i = nm"
  using slot_of_used [of n D i] slot_of_Some [of D nm i] by metis

lemma files1_Some: "fs_ok n D \<Longrightarrow> used D i \<Longrightarrow> dname D i = nm \<Longrightarrow> files1 D nm = Some (content D i)"
  using slot_of_iff [of n D nm i] by (simp add: files1_def)

lemma files1_None: "(\<And>i. used D i \<Longrightarrow> dname D i \<noteq> nm) \<Longrightarrow> files1 D nm = None"
  using slot_of_Some [of D nm] by (cases "slot_of D nm") (auto simp: files1_def)

text \<open>A change of one slot: what the rest of the directory must keep, and what the new slot must bring.\<close>

definition others_kept :: "nat \<Rightarrow> (u32 \<Rightarrow> bytes) \<Rightarrow> (u32 \<Rightarrow> bytes) \<Rightarrow> bool" where
  "others_kept s D D' \<longleftrightarrow>
     (\<forall>i < 16. i \<noteq> s \<longrightarrow> dslot D' i = dslot D i) \<and>
     (\<forall>i. used D i \<longrightarrow> i \<noteq> s \<longrightarrow> dname D' i = dname D i \<and>
        inode_at D' (unat (dslot D i)) = inode_at D (unat (dslot D i)) \<and> bit_test (D' 1) (dslot D i) \<and>
        (\<forall>j < 8. in_direct (file_inode D i) j \<noteq> 0 \<longrightarrow> bit_test (D' 2) (in_direct (file_inode D i) j) \<and>
           D' (in_direct (file_inode D i) j) = D (in_direct (file_inode D i) j)))"

definition new_apart :: "nat \<Rightarrow> (u32 \<Rightarrow> bytes) \<Rightarrow> (u32 \<Rightarrow> bytes) \<Rightarrow> bool" where
  "new_apart s D D' \<longleftrightarrow>
     (\<forall>i. used D i \<longrightarrow> i \<noteq> s \<longrightarrow> dslot D i \<noteq> dslot D' s \<and> dname D i \<noteq> dname D' s \<and>
        (\<forall>j < 8. \<forall>k < 8. in_direct (file_inode D' s) j \<noteq> 0 \<longrightarrow>
           in_direct (file_inode D i) k \<noteq> in_direct (file_inode D' s) j)) \<and>
     (\<forall>j < 8. \<forall>k < 8. in_direct (file_inode D' s) j \<noteq> 0 \<longrightarrow>
        in_direct (file_inode D' s) j = in_direct (file_inode D' s) k \<longrightarrow> j = k)"

lemma kept_slot:
  assumes f: "fs_ok n D" and k: "others_kept s D D'" and i: "used D' i" "i \<noteq> s"
  shows "used D i" "slot_ok n D' i" "content D' i = content D i" "file_inode D' i = file_inode D i"
    "dslot D' i = dslot D i" "dname D' i = dname D i"
proof -
  show e: "dslot D' i = dslot D i" using k i by (simp add: others_kept_def used_def)
  then show u: "used D i" using i(1) by (simp add: used_def)
  with k i(2) have o: "dname D' i = dname D i"
      "inode_at D' (unat (dslot D i)) = inode_at D (unat (dslot D i))" "bit_test (D' 1) (dslot D i)"
    and b: "\<And>j. j < 8 \<Longrightarrow> in_direct (file_inode D i) j \<noteq> 0 \<Longrightarrow>
      bit_test (D' 2) (in_direct (file_inode D i) j) \<and> D' (in_direct (file_inode D i) j) = D (in_direct (file_inode D i) j)"
    unfolding others_kept_def by blast+
  show "dname D' i = dname D i" by (rule o(1))
  note fr = slot_frame [OF fs_okD(7) [OF f u] e o b]
  show "slot_ok n D' i" by (rule fr(1))
  show "content D' i = content D i" by (rule fr(2))
  show "file_inode D' i = file_inode D i" by (rule fr(3))
qed

lemma new_apartD:
  assumes "new_apart s D D'"
  shows "used D i \<Longrightarrow> i \<noteq> s \<Longrightarrow> dslot D i \<noteq> dslot D' s" "used D i \<Longrightarrow> i \<noteq> s \<Longrightarrow> dname D i \<noteq> dname D' s"
    "used D i \<Longrightarrow> i \<noteq> s \<Longrightarrow> j < 8 \<Longrightarrow> k < 8 \<Longrightarrow> in_direct (file_inode D' s) j \<noteq> 0 \<Longrightarrow>
       in_direct (file_inode D i) k \<noteq> in_direct (file_inode D' s) j"
    "j < 8 \<Longrightarrow> k < 8 \<Longrightarrow> in_direct (file_inode D' s) j \<noteq> 0 \<Longrightarrow>
       in_direct (file_inode D' s) j = in_direct (file_inode D' s) k \<Longrightarrow> j = k"
  using assms unfolding new_apart_def by blast+

lemma fs_ok_update:
  assumes f: "fs_ok n D"
    and base: "\<And>l. length (D' l) = 512" "D' 0 = D 0" "inode_at D' 1 = inode_at D 1" "\<And>b. b < 8 \<Longrightarrow> bit_test (D' 2) b"
    and k: "others_kept s D D'" and new: "used D' s \<Longrightarrow> slot_ok n D' s \<and> new_apart s D D'"
  shows "fs_ok n D'"
  unfolding fs_ok_def
proof (intro conjI allI impI)
  note ks = kept_slot [OF f k]
  show "D' 0 = super_image n" "inode_at D' 1 = root_image" "16 \<le> n" "n \<le> 4096"
    using fs_okD [OF f] base by simp_all
  show "slot_ok n D' i" if "used D' i" for i using ks(2) [OF that] new that by (cases "i = s") auto
  fix i j
  assume u: "used D' i" "used D' j" and ne: "i \<noteq> j"
  consider "i = s" "j \<noteq> s" | "j = s" "i \<noteq> s" | "i \<noteq> s" "j \<noteq> s" using ne by blast
  then have "dslot D' i \<noteq> dslot D' j \<and> dname D' i \<noteq> dname D' j"
  proof cases
    case 1
    then show ?thesis using ks [OF u(2)] u new new_apartD(1,2) [of s D D' j] by metis
  next
    case 2
    then show ?thesis using ks [OF u(1)] u new new_apartD(1,2) [of s D D' i] by metis
  next
    case 3
    then show ?thesis using ks [OF u(1)] ks [OF u(2)] fs_okD(8) [OF f, of i j] ne by metis
  qed
  then show "dslot D' i \<noteq> dslot D' j" "dname D' i \<noteq> dname D' j" by simp_all
next
  note ks = kept_slot [OF f k]
  fix i i' j j'
  assume u: "used D' i" "used D' i'" and lt: "j < (8 :: nat)" "j' < (8 :: nat)"
    and nz: "in_direct (file_inode D' i) j \<noteq> 0" and eq: "in_direct (file_inode D' i) j = in_direct (file_inode D' i') j'"
  have "(i = s \<longleftrightarrow> i' = s)"
    using ks(1,4) [OF u(1)] ks(1,4) [OF u(2)] new u new_apartD(3) [of s D D'] lt nz eq by metis
  then have "i = i' \<and> j = j'"
    using ks(1,4) [OF u(1)] ks(1,4) [OF u(2)] new u new_apartD(4) [of s D D' j j'] fs_okD(9) [OF f, of i i' j j'] lt nz eq
    by metis
  then show "i = i'" "j = j'" by simp_all
qed (use base in auto)

lemma files1_update:
  assumes f: "fs_ok n D" "fs_ok n D'" and k: "others_kept s D D'"
  shows "files1 D' nm = (if used D' s \<and> dname D' s = nm then Some (content D' s)
    else if used D s \<and> dname D s = nm then None else files1 D nm)"
proof (cases "\<exists>i. used D' i \<and> dname D' i = nm")
  case True
  then obtain i where i: "used D' i" "dname D' i = nm" by blast
  show ?thesis
  proof (cases "i = s")
    case False
    note ks = kept_slot [OF f(1) k i(1) False]
    have "\<not> (used D' s \<and> dname D' s = nm)" using fs_okD(8) [OF f(2) i(1), of s] False i(2) by auto
    moreover have "\<not> (used D s \<and> dname D s = nm)" using fs_okD(8) [OF f(1) ks(1), of s] False i(2) ks(6) by auto
    ultimately show ?thesis using files1_Some [OF f(2) i] files1_Some [OF f(1) ks(1)] ks i(2) by auto
  qed (use i files1_Some [OF f(2) i] in simp)
next
  case False
  have "files1 D nm = None" if "\<not> (used D s \<and> dname D s = nm)"
  proof (rule files1_None)
    fix i assume i: "used D i"
    show "dname D i \<noteq> nm"
    proof (cases "i = s")
      case False
      then have "used D' i" "dname D' i = dname D i" using k i by (auto simp: others_kept_def used_def)
      then show ?thesis using \<open>\<not> (\<exists>i. used D' i \<and> dname D' i = nm)\<close> by auto
    qed (use that i in auto)
  qed
  then show ?thesis using False files1_None [of D' nm] by auto
qed

subsection \<open>A directory entry\<close>

definition entry :: "u32 \<Rightarrow> bytes \<Rightarrow> bytes" where
  "entry ino nm = le_bytes 4 ino @ [1] @ nm @ replicate (27 - length nm) 0"

lemma length_entry [simp]: "length nm \<le> 27 \<Longrightarrow> length (entry ino nm) = 32"
  by (simp add: entry_def)

lemma fill_dirent_patch:
  assumes "length blk = 512" "s < 16" "length nm \<le> 27"
  shows "fill_dirent blk s ino (nm @ 0 # r) (length nm) = patch (32 * s) (entry ino nm) blk"
proof -
  have "32 * s + 32 \<le> 512" using assms(2) by simp
  then show ?thesis
    using assms unfolding fill_dirent_def Let_def mcsfs_memset_def mcsfs_memcpy_def mcs_consts
    by (intro nth_equalityI)
       (auto simp: nth_copy_loop nth_fill_loop nth_patch wr32_def entry_def nth_append nth_list_update add.commute [of _ 5])
qed

lemma slice_entry:
  assumes "length blk = 512" "length e = 32" "s < 16" "i < 16" "off + n \<le> 32"
  shows "slice (32 * i + off) n (patch (32 * s) e blk) = (if i = s then slice off n e else slice (32 * i + off) n blk)"
proof (cases "i = s")
  case True
  then show ?thesis using assms by (intro nth_equalityI) (auto simp: nth_patch)
next
  case False
  then have "Suc i \<le> s \<or> Suc s \<le> i" by linarith
  then have "32 * i + 32 \<le> 32 * s \<or> 32 * s + 32 \<le> 32 * i" by linarith
  then show ?thesis using assms False by (auto intro!: slice_patch_other)
qed

lemma slot_patch:
  assumes "length (D 7) = 512" "D' 7 = patch (32 * s) e (D 7)" "length e = 32" "s < 16" "i < 16"
  shows "dslot D' i = (if i = s then rd32 e 0 else dslot D i)"
    "dname D' i = (if i = s then takeWhile (\<lambda>x. x \<noteq> 0) (slice 5 27 e) else dname D i)"
  using slice_entry [OF assms(1,3-5), of 0 4] slice_entry [OF assms(1,3-5), of 5 27]
  by (simp_all add: dslot_def de_ino_def rd32_def dname_def dfield_def assms(2))

lemma entry_fields:
  assumes "length nm \<le> 27" "0 \<notin> set nm"
  shows "rd32 (entry ino nm) 0 = ino" "takeWhile (\<lambda>x. x \<noteq> 0) (slice 5 27 (entry ino nm)) = nm"
proof -
  have "slice 0 4 (entry ino nm) = le_bytes 4 ino" by (simp add: slice_def entry_def)
  then show "rd32 (entry ino nm) 0 = ino" by (simp add: rd32_def)
  have "slice 5 27 (entry ino nm) = nm @ replicate (27 - length nm) 0"
    using assms(1) by (simp add: slice_def entry_def)
  moreover have "takeWhile (\<lambda>x. x \<noteq> 0) nm = nm" using assms(2) by (auto simp: takeWhile_eq_all_conv)
  ultimately show "takeWhile (\<lambda>x. x \<noteq> 0) (slice 5 27 (entry ino nm)) = nm"
    using assms(2) by (simp add: takeWhile_append takeWhile_replicate)
qed

lemma make_inode_fields:
  "length (make_inode m l z d) = 60" "in_mode (make_inode m l z d) = m" "in_size (make_inode m l z d) = z"
  "j < 8 \<Longrightarrow> in_direct (make_inode m l z d) j = (if j = 0 then d else 0)"
proof -
  show "length (make_inode m l z d) = 60" "in_mode (make_inode m l z d) = m" "in_size (make_inode m l z d) = z"
    by (simp_all add: make_inode_def in_mode_def in_size_def mcs_consts)
  show "in_direct (make_inode m l z d) j = (if j = 0 then d else 0)" if "j < 8"
    using that by (cases "j = 0") (simp_all add: make_inode_def in_direct_def mcs_consts)
qed

subsection \<open>Free inodes and blocks\<close>

definition free_inode :: "(u32 \<Rightarrow> bytes) \<Rightarrow> nat option" where
  "free_inode D = first_index (\<lambda>i. \<not> bit_test (D 1) (of_nat i)) 2 33"

definition free_block :: "u32 \<Rightarrow> (u32 \<Rightarrow> bytes) \<Rightarrow> nat option" where
  "free_block n D = first_index (\<lambda>b. \<not> bit_test (D 2) (of_nat b)) 8 (unat n)"

definition open_slot :: "(u32 \<Rightarrow> bytes) \<Rightarrow> nat option" where
  "open_slot D = first_index (\<lambda>i. dslot D i = 0) 0 16"

definition free_set :: "u32 \<Rightarrow> (u32 \<Rightarrow> bytes) \<Rightarrow> u32 set" where
  "free_set n D = {b. 8 \<le> b \<and> b < n \<and> \<not> bit_test (D 2) b}"

lemma free_inodeD:
  assumes "free_inode D = Some k"
  shows "is_ino k" "2 \<le> k" "\<not> bit_test (D 1) (of_nat k)" "unat (of_nat k :: u32) = k" "2 \<le> (of_nat k :: u32)" "(of_nat k :: u32) \<le> 32"
proof -
  show i: "is_ino k" "2 \<le> k" "\<not> bit_test (D 1) (of_nat k)"
    using first_index_SomeD [OF assms [unfolded free_inode_def]] by (simp_all add: is_ino_def)
  show u: "unat (of_nat k :: u32) = k" by (rule is_ino_word [OF i(1)])
  show "2 \<le> (of_nat k :: u32)" "(of_nat k :: u32) \<le> 32" using i u by (simp_all add: word_le_nat_alt is_ino_def)
qed

lemma free_blockD:
  assumes "free_block n D = Some b" "n \<le> 4096"
  shows "8 \<le> (of_nat b :: u32)" "of_nat b < n" "\<not> bit_test (D 2) (of_nat b)" "unat (of_nat b :: u32) < 4096"
proof -
  have b: "8 \<le> b" "b < unat n" "\<not> bit_test (D 2) (of_nat b)"
    using first_index_SomeD [OF assms(1) [unfolded free_block_def]] by simp_all
  have n: "unat n \<le> 4096" using assms(2) by (simp add: word_le_nat_alt)
  then have "unat (of_nat b :: u32) = b" using b(2) by (simp add: unat_of_nat)
  then show "8 \<le> (of_nat b :: u32)" "of_nat b < n" "unat (of_nat b :: u32) < 4096" "\<not> bit_test (D 2) (of_nat b)"
    using b n by (simp_all add: word_le_nat_alt word_less_nat_alt)
qed

lemma free_block_None:
  assumes "free_block n D = None"
  shows "free_set n D = {}"
proof -
  have "bit_test (D 2) b" if "8 \<le> b" "b < n" for b :: u32
    using first_index_NoneD [OF assms [unfolded free_block_def], of "unat b"] that
    by (simp add: word_le_nat_alt word_less_nat_alt)
  then show ?thesis by (auto simp: free_set_def)
qed

lemma card_free_set:
  assumes "free_block n D = Some b" "n \<le> 4096" "length (D 2) = 512"
  shows "card (free_set n D) = Suc (card (free_set n (D(2 := bit_set (D 2) (of_nat b)))))"
proof -
  note fb = free_blockD [OF assms(1,2)]
  have "free_set n (D(2 := bit_set (D 2) (of_nat b))) = free_set n D - {of_nat b}"
    using bit_test_set [of "of_nat b" "D 2"] fb(4) assms(3) by (auto simp: free_set_def)
  moreover have "of_nat b \<in> free_set n D" using fb by (simp add: free_set_def)
  ultimately show ?thesis by (simp add: card_Suc_Diff1 del: card_Diff_insert)
qed

lemma block_of_slot:
  assumes "fs_ok n D" "used D i" "j < 8" "in_direct (file_inode D i) j \<noteq> 0"
  shows "8 \<le> in_direct (file_inode D i) j" "in_direct (file_inode D i) j < n" "bit_test (D 2) (in_direct (file_inode D i) j)"
  using slot_okD(7) [OF fs_okD(7) [OF assms(1,2)] assms(3)] assms(4) by (simp_all add: block_good_def)

lemma inode_at_cong:
  assumes "is_ino j" "\<And>l. 3 \<le> l \<Longrightarrow> l < 7 \<Longrightarrow> D' l = D l"
  shows "inode_at D' j = inode_at D j"
  using inode_place_of_nat(2,3) [OF assms(1)] assms(2) by (simp add: inode_at_def)

lemma bitmap_bound: "length bm = 512 \<Longrightarrow> unat k < 4096 \<Longrightarrow> unat k < 8 * length bm"
  by simp

subsection \<open>The effect of creating a file\<close>

definition created :: "(u32 \<Rightarrow> bytes) \<Rightarrow> nat \<Rightarrow> nat \<Rightarrow> nat \<Rightarrow> bytes \<Rightarrow> u32 \<Rightarrow> bytes" where
  "created D s k b nm =
     (put_inode (D(1 := bit_set (D 1) (of_nat k), 2 := bit_set (D 2) (of_nat b))) k
        (make_inode MCSFS1_MODE_FILE 1 0 (of_nat b)))
     (7 := patch (32 * s) (entry (of_nat k) nm) (D 7))"

lemma created_view:
  assumes f: "fs_ok n D" and s: "s < 16" and k: "free_inode D = Some k" and b: "free_block n D = Some b" and nm: "name_fits nm"
  shows "length (created D s k b nm l) = 512" "l = 0 \<or> 8 \<le> l \<Longrightarrow> created D s k b nm l = D l"
    "is_ino j \<Longrightarrow> inode_at (created D s k b nm) j =
       (if j = k then make_inode MCSFS1_MODE_FILE 1 0 (of_nat b) else inode_at D j)"
    "bit_test (created D s k b nm 1) x \<longleftrightarrow> x = of_nat k \<or> bit_test (D 1) x"
    "bit_test (created D s k b nm 2) x \<longleftrightarrow> x = of_nat b \<or> bit_test (D 2) x"
    "i < 16 \<Longrightarrow> dslot (created D s k b nm) i = (if i = s then of_nat k else dslot D i)"
    "i < 16 \<Longrightarrow> dname (created D s k b nm) i = (if i = s then nm else dname D i)"
proof -
  let ?D1 = "D(1 := bit_set (D 1) (of_nat k), 2 := bit_set (D 2) (of_nat b))"
  let ?v = "make_inode MCSFS1_MODE_FILE 1 0 (of_nat b)"
  note k' = free_inodeD [OF k] and b' = free_blockD [OF b fs_okD(3) [OF f]]
  have len: "\<forall>l. length (D l) = 512" using fs_okD(1) [OF f] by simp
  then have len1: "\<forall>l. length (?D1 l) = 512" by simp
  have e: "length (entry (of_nat k) nm) = 32" using nm by (simp add: name_fits_def)
  have low: "put_inode ?D1 k ?v l = ?D1 l" if "l < 3 \<or> 7 \<le> l" for l by (rule put_inode_other [OF k'(1) that])
  show "length (created D s k b nm l) = 512"
    using put_inode_length [OF k'(1) make_inode_fields(1), where D = ?D1] len1 e s len by (simp add: created_def)
  show "created D s k b nm l = D l" if "l = 0 \<or> 8 \<le> l"
    using that low [of l] by (auto simp: created_def word_le_nat_alt word_less_nat_alt)
  show "inode_at (created D s k b nm) j = (if j = k then ?v else inode_at D j)" if j: "is_ino j"
  proof -
    have "inode_at (created D s k b nm) j = inode_at (put_inode ?D1 k ?v) j"
      by (rule inode_at_cong [OF j]) (auto simp: created_def)
    also have "\<dots> = (if j = k then ?v else inode_at ?D1 j)"
      by (rule inode_at_put [OF k'(1) j make_inode_fields(1) len1])
    also have "inode_at ?D1 j = inode_at D j" by (rule inode_at_cong [OF j]) (auto simp: word_le_nat_alt)
    finally show ?thesis .
  qed
  have one: "created D s k b nm 1 = bit_set (D 1) (of_nat k)" and two: "created D s k b nm 2 = bit_set (D 2) (of_nat b)"
    using low [of 1] low [of 2] by (simp_all add: created_def)
  have "unat (of_nat k :: u32) < 4096" using k'(1,4) by (simp add: is_ino_def)
  then show "bit_test (created D s k b nm 1) x \<longleftrightarrow> x = of_nat k \<or> bit_test (D 1) x"
    unfolding one by (intro bit_test_set bitmap_bound) (simp_all add: len)
  show "bit_test (created D s k b nm 2) x \<longleftrightarrow> x = of_nat b \<or> bit_test (D 2) x"
    unfolding two by (intro bit_test_set bitmap_bound) (simp_all add: len b')
  have seven: "created D s k b nm 7 = patch (32 * s) (entry (of_nat k) nm) (D 7)" by (simp add: created_def)
  have fits: "length nm \<le> 27" "0 \<notin> set nm" using nm by (auto simp: name_fits_def)
  note sp = slot_patch [where D = D and D' = "created D s k b nm", OF fs_okD(1) [OF f] seven e s, of i] and ef = entry_fields [OF fits]
  show "i < 16 \<Longrightarrow> dslot (created D s k b nm) i = (if i = s then of_nat k else dslot D i)"
    "i < 16 \<Longrightarrow> dname (created D s k b nm) i = (if i = s then nm else dname D i)"
    using sp by (simp_all add: ef)
qed

lemma created_ok:
  assumes f: "fs_ok n D" and s: "s < 16" "dslot D s = 0" and k: "free_inode D = Some k" and b: "free_block n D = Some b"
    and nm: "name_fits nm" "slot_of D nm = None"
  shows "fs_ok n (created D s k b nm)" "files1 (created D s k b nm) = (files1 D)(nm \<mapsto> [])"
proof -
  let ?D = "created D s k b nm"
  let ?v = "make_inode MCSFS1_MODE_FILE 1 0 (of_nat b)"
  note v = created_view [OF f s(1) k b nm(1)]
  note k' = free_inodeD [OF k] and b' = free_blockD [OF b fs_okD(3) [OF f]]
  have ino: "is_ino (unat (dslot D i))" "unat (dslot D i) \<noteq> k" "dslot D i \<noteq> of_nat k" if "used D i" for i
  proof -
    note so = slot_okD [OF fs_okD(7) [OF f that]]
    show "is_ino (unat (dslot D i))" by (rule so(1))
    show "dslot D i \<noteq> of_nat k" using so(3) k'(3) by metis
    then show "unat (dslot D i) \<noteq> k" using k'(4) by (metis word_unat_eq_iff)
  qed
  have us: "used ?D s" "\<not> used D s" using s v(6) k'(5) by (auto simp: used_def)
  have fi: "file_inode ?D s = ?v" using v(3) [OF k'(1)] v(6) s(1) k'(4) by (simp add: file_inode_def)
  have kept: "others_kept s D ?D"
    unfolding others_kept_def
  proof (intro conjI allI impI)
    fix i j assume u: "used D i" and "j < (8 :: nat)" "in_direct (file_inode D i) j \<noteq> 0"
    note bs = block_of_slot [OF f this]
    show "bit_test (?D 2) (in_direct (file_inode D i) j)" using bs(3) v(5) by simp
    show "?D (in_direct (file_inode D i) j) = D (in_direct (file_inode D i) j)" using bs(1) v(2) by simp
  next
    fix i assume u: "used D i" "i \<noteq> s"
    then have "i < 16" by (simp add: used_def)
    then show "dname ?D i = dname D i" using v(7) u(2) by simp
    show "inode_at ?D (unat (dslot D i)) = inode_at D (unat (dslot D i))" using v(3) ino u(1) by simp
    show "bit_test (?D 1) (dslot D i)" using v(4) slot_okD(3) [OF fs_okD(7) [OF f u(1)]] by simp
  qed (use v(6) in simp)
  have good: "slot_ok n ?D s"
    using v s k' nm(1) b' make_inode_fields
    unfolding slot_ok_def fi by (auto simp: block_good_def needed_def)
  have apart: "new_apart s D ?D"
    unfolding new_apart_def fi
  proof (intro conjI allI impI)
    fix i assume u: "used D i" "i \<noteq> s"
    show "dslot D i \<noteq> dslot ?D s" using ino(3) [OF u(1)] v(6) s(1) by simp
    show "dname D i \<noteq> dname ?D s" using slot_of_None [OF nm(2) u(1)] v(7) s(1) by simp
    fix j l :: nat assume j: "j < 8" "l < 8" "in_direct ?v j \<noteq> 0"
    then have e: "in_direct ?v j = of_nat b" using make_inode_fields(4) [OF j(1)] by (simp split: if_splits)
    show "in_direct (file_inode D i) l \<noteq> in_direct ?v j"
      using block_of_slot(3) [OF f u(1) j(2)] b'(3) j(3) e by metis
  qed (use make_inode_fields(4) in \<open>simp split: if_splits\<close>)
  show ok: "fs_ok n ?D"
    using v(1,2) v(3) [of 1] v(5) fs_okD(6) [OF f] k'(2) kept good apart by (intro fs_ok_update [OF f]) (auto simp: is_ino_def)
  have "content ?D s = []" unfolding content_def fi by (simp add: make_inode_fields)
  then show "files1 ?D = (files1 D)(nm \<mapsto> [])"
    using files1_update [OF f ok kept] us v(7) s(1) by (auto simp: fun_eq_iff)
qed

subsection \<open>Taking more blocks\<close>

definition grown :: "(u32 \<Rightarrow> bytes) \<Rightarrow> (u32 \<Rightarrow> bytes) \<Rightarrow> bool" where
  "grown D D' \<longleftrightarrow> (\<forall>l. l \<noteq> 2 \<longrightarrow> D' l = D l) \<and> length (D' 2) = 512 \<and> (\<forall>k. bit_test (D 2) k \<longrightarrow> bit_test (D' 2) k)"

text \<open>\<open>b'\<close> is the inode \<open>b\<close> with fresh blocks, at the places \<open>is\<close> at least where none was.\<close>

definition extended :: "u32 \<Rightarrow> (u32 \<Rightarrow> bytes) \<Rightarrow> (u32 \<Rightarrow> bytes) \<Rightarrow> bytes \<Rightarrow> bytes \<Rightarrow> nat list \<Rightarrow> bool" where
  "extended n D D' b b' is \<longleftrightarrow>
     length b' = 60 \<and> in_mode b' = in_mode b \<and> (\<forall>j \<in> set is. in_direct b' j \<noteq> 0) \<and>
     (\<forall>j < 8. in_direct b' j \<noteq> in_direct b j \<longrightarrow>
        in_direct b j = 0 \<and> 8 \<le> in_direct b' j \<and> in_direct b' j < n \<and>
        \<not> bit_test (D 2) (in_direct b' j) \<and> bit_test (D' 2) (in_direct b' j)) \<and>
     (\<forall>j < 8. \<forall>k < 8. in_direct b' j \<noteq> in_direct b j \<longrightarrow> in_direct b' j = in_direct b' k \<longrightarrow> j = k)"

text \<open>Running out of space: all blocks are taken, and fewer were free than are asked for.\<close>

definition no_space :: "u32 \<Rightarrow> (u32 \<Rightarrow> bytes) \<Rightarrow> (u32 \<Rightarrow> bytes) \<Rightarrow> nat list \<Rightarrow> int \<Rightarrow> bool" where
  "no_space n D D' js e \<longleftrightarrow> e = MCSFS1_ERR_NOSPC \<and> free_set n D' = {} \<and> card (free_set n D) < length js"

lemma grown_trans: "grown D D1 \<Longrightarrow> grown D1 D2 \<Longrightarrow> grown D D2"
  by (simp add: grown_def)

lemma grown_step: "length (D 2) = 512 \<Longrightarrow> unat b < 4096 \<Longrightarrow> grown D (D(2 := bit_set (D 2) b))"
  using bit_test_set [of b "D 2"] by (simp add: grown_def)

lemma grown_view:
  assumes "grown D D'"
  shows "dslot D' i = dslot D i" "dname D' i = dname D i" "slot_of D' nm = slot_of D nm" "used D' i = used D i"
    "is_ino k \<Longrightarrow> inode_at D' k = inode_at D k"
proof -
  have e: "\<And>l. l \<noteq> 2 \<Longrightarrow> D' l = D l" using assms by (simp add: grown_def)
  then show d: "dslot D' i = dslot D i" "dname D' i = dname D i" for i by (simp_all add: dslot_def dname_def dfield_def)
  show "slot_of D' nm = slot_of D nm" "used D' i = used D i" by (simp_all add: slot_of_def used_def d)
  show "is_ino k \<Longrightarrow> inode_at D' k = inode_at D k" by (rule inode_at_cong) (auto simp: word_le_nat_alt intro!: e)
qed

lemma grown_ok:
  assumes f: "fs_ok n D" and g: "grown D D'"
  shows "fs_ok n D'" "files1 D' = files1 D"
proof -
  note v = grown_view [OF g]
  have e: "\<And>l. l \<noteq> 2 \<Longrightarrow> D' l = D l" "length (D' 2) = 512" "\<And>k. bit_test (D 2) k \<Longrightarrow> bit_test (D' 2) k"
    using g by (auto simp: grown_def)
  have kept: "others_kept 16 D D'"
    unfolding others_kept_def
  proof (intro conjI allI impI)
    fix i j assume u: "used D i" and "j < (8 :: nat)" "in_direct (file_inode D i) j \<noteq> 0"
    note bs = block_of_slot [OF f this]
    show "bit_test (D' 2) (in_direct (file_inode D i) j)" by (rule e(3)) (rule bs(3))
    show "D' (in_direct (file_inode D i) j) = D (in_direct (file_inode D i) j)"
      by (rule e(1)) (use bs(1) in \<open>auto simp: word_le_nat_alt\<close>)
  next
    fix i assume u: "used D i"
    note so = slot_okD [OF fs_okD(7) [OF f u]]
    show "inode_at D' (unat (dslot D i)) = inode_at D (unat (dslot D i))" by (rule v(5)) (rule so(1))
    show "bit_test (D' 1) (dslot D i)" using so(3) e(1) [of 1] by simp
  qed (simp_all add: v)
  have "length (D' l) = 512" for l using e(1,2) fs_okD(1) [OF f] by (cases "l = 2") auto
  moreover have "D' 0 = D 0" using e(1) [of 0] by simp
  moreover have "inode_at D' 1 = inode_at D 1" by (rule v(5)) (simp add: is_ino_def)
  ultimately show ok: "fs_ok n D'"
    using fs_okD(6) [OF f] e(3) kept by (intro fs_ok_update [OF f, of D' 16]) (auto simp: used_def)
  show "files1 D' = files1 D" using files1_update [OF f ok kept] by (auto simp: fun_eq_iff used_def)
qed

lemma inode_wr_direct:
  assumes "length b = 60" "i < 8" "j < 8"
  shows "in_direct (wr32 b (8 + 4 * i) x) j = (if j = i then x else in_direct b j)" "in_mode (wr32 b (8 + 4 * i) x) = in_mode b"
proof -
  consider "j = i" | "Suc j \<le> i" | "Suc i \<le> j" by linarith
  then show "in_direct (wr32 b (8 + 4 * i) x) j = (if j = i then x else in_direct b j)"
    using assms by cases (simp_all add: in_direct_def)
  show "in_mode (wr32 b (8 + 4 * i) x) = in_mode b" using assms by (simp add: in_mode_def)
qed

lemma inode_wr_size:
  assumes "length b = 60"
  shows "in_size (wr32 b 4 z) = z" "in_mode (wr32 b 4 z) = in_mode b" "j < 8 \<Longrightarrow> in_direct (wr32 b 4 z) j = in_direct b j"
  using assms by (simp_all add: in_direct_def in_size_def in_mode_def)

lemma extended_Cons:
  assumes ext: "extended n (D(2 := bit_set (D 2) x)) D' (wr32 b (8 + 4 * i) x) b' is" and b: "length b = 60" "i < 8"
    and good: "\<And>k. k < 8 \<Longrightarrow> in_direct b k \<noteq> 0 \<Longrightarrow> bit_test (D 2) (in_direct b k)" and z: "in_direct b i = 0"
    and x: "8 \<le> x" "x < n" "\<not> bit_test (D 2) x" "unat x < 4096" and D: "length (D 2) = 512"
    and g: "grown (D(2 := bit_set (D 2) x)) D'"
  shows "extended n D D' b b' (i # is)"
proof -
  let ?b = "wr32 b (8 + 4 * i) x"
  have w: "in_direct ?b j = (if j = i then x else in_direct b j)" if "j < 8" for j
    using inode_wr_direct(1) [OF b that] .
  have x0: "x \<noteq> 0" using x(1) by auto
  have t: "bit_test (bit_set (D 2) x) k \<longleftrightarrow> k = x \<or> bit_test (D 2) k" for k using bit_test_set [of x "D 2"] x(4) D by simp
  have e: "length b' = 60" "in_mode b' = in_mode b" "\<And>j. j \<in> set is \<Longrightarrow> in_direct b' j \<noteq> 0"
    "\<And>j. j < 8 \<Longrightarrow> in_direct b' j \<noteq> in_direct ?b j \<Longrightarrow> in_direct ?b j = 0 \<and> 8 \<le> in_direct b' j \<and> in_direct b' j < n \<and>
        \<not> bit_test (bit_set (D 2) x) (in_direct b' j) \<and> bit_test (D' 2) (in_direct b' j)"
    "\<And>j k. j < 8 \<Longrightarrow> k < 8 \<Longrightarrow> in_direct b' j \<noteq> in_direct ?b j \<Longrightarrow> in_direct b' j = in_direct b' k \<Longrightarrow> j = k"
    using ext inode_wr_direct(2) [OF b b(2)] unfolding extended_def by (auto simp: fun_upd_same)
  have bi: "in_direct b' i = x" using e(4) [OF b(2)] w [OF b(2)] x0 by auto
  have xg: "bit_test (D' 2) x" using g t by (simp add: grown_def)
  show ?thesis
    unfolding extended_def
  proof (intro conjI ballI allI impI)
    fix j assume j: "j < 8" "in_direct b' j \<noteq> in_direct b j"
    have c: "j = i \<or> in_direct b' j \<noteq> in_direct ?b j" using j w by auto
    show "in_direct b j = 0" "8 \<le> in_direct b' j" "in_direct b' j < n" "\<not> bit_test (D 2) (in_direct b' j)"
      "bit_test (D' 2) (in_direct b' j)"
      using c bi z x xg e(4) [OF j(1)] t w [OF j(1)] by (auto split: if_splits)
    fix k assume k: "k < 8" "in_direct b' j = in_direct b' k"
    show "j = k"
    proof (cases "in_direct b' j = in_direct ?b j \<and> in_direct b' k = in_direct ?b k")
      case True
      then have "j = i" using c by simp
      then show ?thesis using True w [OF k(1)] k bi good [OF k(1)] x(3) x0 by (auto split: if_splits)
    next
      case False
      then show ?thesis using e(5) [OF j(1) k(1)] e(5) [OF k(1) j(1)] k by metis
    qed
  qed (use e(1-3) bi x0 in auto)
qed

subsection \<open>The effect of writing a file\<close>

text \<open>Block \<open>j\<close> of a buffer, padded with zeros, and the device after the blocks \<open>js\<close> are written.\<close>

definition chunk :: "bytes \<Rightarrow> nat \<Rightarrow> nat \<Rightarrow> bytes" where
  "chunk buf len j = patch 0 (slice (min len (512 * j)) (min 512 (len - min len (512 * j))) buf) (replicate 512 0)"

definition put_blocks :: "bytes \<Rightarrow> bytes \<Rightarrow> nat \<Rightarrow> nat list \<Rightarrow> (u32 \<Rightarrow> bytes) \<Rightarrow> u32 \<Rightarrow> bytes" where
  "put_blocks b buf len js D = fold (\<lambda>j D. D(in_direct b j := chunk buf len j)) js D"

lemma length_chunk: "len \<le> length buf \<Longrightarrow> length (chunk buf len j) = 512"
  by (simp add: chunk_def slice_def)

lemma put_blocks_other: "l \<notin> in_direct b ` set js \<Longrightarrow> put_blocks b buf len js D l = D l"
  by (induction js arbitrary: D) (auto simp: put_blocks_def)

lemma put_blocks_at:
  "distinct js \<Longrightarrow> inj_on (in_direct b) (set js) \<Longrightarrow> j \<in> set js \<Longrightarrow> put_blocks b buf len js D (in_direct b j) = chunk buf len j"
proof (induction js arbitrary: D)
  case (Cons a js)
  let ?D = "D(in_direct b a := chunk buf len a)"
  have "put_blocks b buf len (a # js) D = put_blocks b buf len js ?D" by (simp add: put_blocks_def)
  moreover have "in_direct b a \<notin> in_direct b ` set js" using Cons.prems by (auto simp: inj_on_def)
  ultimately show ?case
    using Cons put_blocks_other [of "in_direct b a" b js buf len ?D] by (cases "j = a") (auto simp: inj_on_def)
qed simp

lemma length_put_blocks:
  "len \<le> length buf \<Longrightarrow> \<forall>l. length (D l) = 512 \<Longrightarrow> length (put_blocks b buf len js D l) = 512"
  by (induction js arbitrary: D) (simp_all add: put_blocks_def length_chunk)

lemma blocks_concat:
  assumes "\<And>j. j < n \<Longrightarrow> length (f j) = 512"
  shows "length (concat (map f [0..<n])) = 512 * n \<and> (\<forall>i < 512 * n. concat (map f [0..<n]) ! i = f (i div 512) ! (i mod 512))"
  using assms
proof (induction n)
  case (Suc n)
  then have l: "length (concat (map f [0..<n])) = 512 * n"
    and v: "\<And>i. i < 512 * n \<Longrightarrow> concat (map f [0..<n]) ! i = f (i div 512) ! (i mod 512)" by auto
  have "(concat (map f [0..<n]) @ f n) ! i = f (i div 512) ! (i mod 512)" if "i < 512 * Suc n" for i
  proof (cases "i < 512 * n")
    case False
    then obtain d where d: "i = 512 * n + d" by (metis le_iff_add not_less)
    then have "d < 512" using that by simp
    then have "i div 512 = n" "i mod 512 = d" unfolding d by simp_all
    then show ?thesis using l d by (simp add: nth_append)
  qed (use l v in \<open>simp add: nth_append\<close>)
  then show ?case using Suc.prems l by simp
qed simp

lemma chunks_concat:
  assumes "len \<le> length buf" "len \<le> 512 * n"
  shows "take len (concat (map (chunk buf len) [0..<n])) = take len buf"
proof (rule nth_equalityI)
  note bc = blocks_concat [of n "chunk buf len", OF length_chunk [OF assms(1)]]
  show "length (take len (concat (map (chunk buf len) [0..<n]))) = length (take len buf)" using bc assms by simp
  fix i assume "i < length (take len (concat (map (chunk buf len) [0..<n])))"
  then have i: "i < len" by simp
  have q: "512 * (i div 512) + i mod 512 = i" "i mod 512 < 512" by simp_all
  have m: "min len (512 * (i div 512)) = 512 * (i div 512)" "i mod 512 < min 512 (len - 512 * (i div 512))"
    using i q by linarith+
  have "chunk buf len (i div 512) ! (i mod 512) = buf ! i"
    using m i assms(1) mult_div_mod_eq [of 512 i] unfolding chunk_def m(1) by (simp add: nth_patch slice_def)
  then show "take len (concat (map (chunk buf len) [0..<n])) ! i = take len buf ! i"
    using bc i assms(2) by simp
qed

definition written :: "(u32 \<Rightarrow> bytes) \<Rightarrow> nat \<Rightarrow> bytes \<Rightarrow> bytes \<Rightarrow> nat \<Rightarrow> u32 \<Rightarrow> bytes" where
  "written D s b buf len =
     put_inode (put_blocks b buf len [0..<needed len] D) (unat (dslot D s)) (wr32 b 4 (of_nat len))"

lemma extended_blocks:
  assumes f: "fs_ok n D" and s: "used D s" and g: "grown D D1" and e: "extended n D D1 (file_inode D s) b js" and j: "j < 8"
      "in_direct b j \<noteq> 0"
  shows "8 \<le> in_direct b j" "in_direct b j < n" "bit_test (D1 2) (in_direct b j)"
    "k < 8 \<Longrightarrow> in_direct b j = in_direct b k \<Longrightarrow> j = k"
    "used D i \<Longrightarrow> i \<noteq> s \<Longrightarrow> k < 8 \<Longrightarrow> in_direct (file_inode D i) k \<noteq> in_direct b j"
proof -
  let ?o = "file_inode D s"
  have gb: "\<And>x. bit_test (D 2) x \<Longrightarrow> bit_test (D1 2) x" using g by (simp add: grown_def)
  have e4: "\<And>j. j < 8 \<Longrightarrow> in_direct b j \<noteq> in_direct ?o j \<Longrightarrow> in_direct ?o j = 0 \<and> 8 \<le> in_direct b j \<and> in_direct b j < n \<and>
        \<not> bit_test (D 2) (in_direct b j) \<and> bit_test (D1 2) (in_direct b j)"
    and e5: "\<And>j k. j < 8 \<Longrightarrow> k < 8 \<Longrightarrow> in_direct b j \<noteq> in_direct ?o j \<Longrightarrow> in_direct b j = in_direct b k \<Longrightarrow> j = k"
    using e unfolding extended_def by blast+
  note bo = block_of_slot [OF f s]
  show "8 \<le> in_direct b j" "in_direct b j < n" "bit_test (D1 2) (in_direct b j)"
    using e4 [OF j(1)] bo [OF j(1)] gb j(2) by metis+
  show "j = k" if "k < 8" "in_direct b j = in_direct b k"
    using e5 [OF j(1) that(1)] e5 [OF that(1) j(1)] fs_okD(9) [OF f s s j(1) that(1)] j(2) that by metis
  show "in_direct (file_inode D i) k \<noteq> in_direct b j" if "used D i" "i \<noteq> s" "k < 8"
    using e4 [OF j(1)] block_of_slot(3) [OF f that(1,3)] fs_okD(9) [OF f s that(1) j(1) that(3)] j(2) that by metis
qed

lemma written_view:
  assumes f: "fs_ok n D" and s: "used D s" and len: "len \<le> length buf" "len \<le> 4096" and b: "length b = 60"
    and high: "\<forall>j < needed len. 8 \<le> in_direct b j"
  shows "length (written D s b buf len l) = 512" "l < 3 \<or> l = 7 \<Longrightarrow> written D s b buf len l = D l"
    "8 \<le> l \<Longrightarrow> written D s b buf len l = put_blocks b buf len [0..<needed len] D l"
    "is_ino k \<Longrightarrow> inode_at (written D s b buf len) k = (if k = unat (dslot D s) then wr32 b 4 (of_nat len) else inode_at D k)"
    "dslot (written D s b buf len) i = dslot D i" "dname (written D s b buf len) i = dname D i"
proof -
  let ?P = "put_blocks b buf len [0..<needed len] D"
  let ?v = "wr32 b 4 (of_nat len)"
  have ino: "is_ino (unat (dslot D s))" by (rule slot_okD(1) [OF fs_okD(7) [OF f s]])
  have l60: "length ?v = 60" using b by simp
  have lenP: "\<forall>l. length (?P l) = 512" using length_put_blocks [OF len(1)] fs_okD(1) [OF f] by blast
  have low: "?P l = D l" if "l < 8" for l
    by (rule put_blocks_other) (use high that in \<open>fastforce simp: word_le_nat_alt word_less_nat_alt\<close>)
  show "length (written D s b buf len l) = 512" unfolding written_def by (rule put_inode_length [OF ino l60 lenP])
  show low': "written D s b buf len l = D l" if "l < 3 \<or> l = 7" for l
  proof -
    have "l < 3 \<or> 7 \<le> l" "l < 8" using that by (auto simp: word_less_nat_alt)
    then show ?thesis using put_inode_other [OF ino] low unfolding written_def by metis
  qed
  show "written D s b buf len l = ?P l" if "8 \<le> l"
    unfolding written_def by (rule put_inode_other [OF ino]) (use that in \<open>auto simp: word_le_nat_alt\<close>)
  show "inode_at (written D s b buf len) k = (if k = unat (dslot D s) then ?v else inode_at D k)" if k: "is_ino k"
  proof -
    have "inode_at ?P k = inode_at D k" by (rule inode_at_cong [OF k]) (auto intro!: low simp: word_less_nat_alt)
    then show ?thesis unfolding written_def using inode_at_put [OF ino k l60 lenP] by simp
  qed
  show "dslot (written D s b buf len) i = dslot D i" "dname (written D s b buf len) i = dname D i"
    by (simp_all add: dslot_def dname_def dfield_def low')
qed

text \<open>A write, step by step: \<open>D1\<close> is the disk with the blocks allocated, \<open>b\<close> the inode with them.\<close>

lemma written_basics:
  assumes f: "fs_ok n D" and s: "used D s" and g: "grown D D1" and e: "extended n D D1 (file_inode D s) b [0..<needed len]"
    and len: "len \<le> 4096"
  shows "used D1 s" "length b = 60" "\<And>j. j < needed len \<Longrightarrow> in_direct b j \<noteq> 0" "in_mode b = in_mode (file_inode D s)"
    "\<And>i. used D i \<Longrightarrow> file_inode D1 i = file_inode D i" "\<forall>j < needed len. 8 \<le> in_direct b j"
proof -
  note gv = grown_view [OF g]
  show "used D1 s" using s gv by simp
  show "length b = 60" "in_mode b = in_mode (file_inode D s)" using e by (auto simp: extended_def)
  show nz: "\<And>j. j < needed len \<Longrightarrow> in_direct b j \<noteq> 0" using e by (auto simp: extended_def)
  show "file_inode D1 i = file_inode D i" if "used D i" for i
    using slot_okD(1) [OF fs_okD(7) [OF f that]] gv by (simp add: file_inode_def)
  show "\<forall>j < needed len. 8 \<le> in_direct b j" using extended_blocks(1) [OF f s g e] nz needed_bound [OF len] by simp
qed

lemma written_keeps_others:
  assumes f: "fs_ok n D" and s: "used D s" and g: "grown D D1" and e: "extended n D D1 (file_inode D s) b [0..<needed len]"
    and len: "len \<le> length buf" "len \<le> 4096"
  shows "others_kept s D1 (written D1 s b buf len)"
proof -
  let ?D = "written D1 s b buf len"
  note f1 = grown_ok [OF f g] and gv = grown_view [OF g] and w = written_basics [OF f s g e len(2)]
  note eb = extended_blocks [OF f s g e] and v = written_view [OF f1(1) w(1) len w(2,6)]
  have nb: "needed len \<le> 8" using needed_bound [OF len(2)] by simp
  show ?thesis
    unfolding others_kept_def
  proof (intro conjI allI impI)
    fix i j assume u: "used D1 i" "i \<noteq> s" and j: "j < (8 :: nat)" "in_direct (file_inode D1 i) j \<noteq> 0"
    note bs = block_of_slot [OF f1(1) u(1) j]
    show "bit_test (?D 2) (in_direct (file_inode D1 i) j)" using bs(3) v(2) [of 2] by simp
    have u': "used D i" using u gv by simp
    have "in_direct (file_inode D1 i) j \<noteq> in_direct b k" if "k < needed len" for k
      using eb(5) [OF _ w(3) [OF that] u' u(2) j(1)] that nb w(5) [OF u'] by simp
    then have "in_direct (file_inode D1 i) j \<notin> in_direct b ` set [0..<needed len]"
      by (metis atLeastLessThan_iff imageE set_upt)
    then show "?D (in_direct (file_inode D1 i) j) = D1 (in_direct (file_inode D1 i) j)"
      using v(3) [OF bs(1)] put_blocks_other by metis
  next
    fix i assume u: "used D1 i" "i \<noteq> s"
    note so' = slot_okD [OF fs_okD(7) [OF f1(1) u(1)]]
    have "unat (dslot D1 i) \<noteq> unat (dslot D1 s)" using fs_okD(8) [OF f1(1) u(1) w(1) u(2)] by (simp add: word_unat_eq_iff)
    then show "inode_at ?D (unat (dslot D1 i)) = inode_at D1 (unat (dslot D1 i))" using v(4) [OF so'(1)] by simp
    show "bit_test (?D 1) (dslot D1 i)" using so'(3) v(2) [of 1] by simp
  qed (simp_all add: v)
qed

lemma written_ok:
  assumes f: "fs_ok n D" and s: "used D s" and g: "grown D D1" and e: "extended n D D1 (file_inode D s) b [0..<needed len]"
    and len: "len \<le> length buf" "len \<le> 4096"
  shows "fs_ok n (written D1 s b buf len)" "files1 (written D1 s b buf len) = (files1 D)(dname D s \<mapsto> take len buf)"
proof -
  let ?D = "written D1 s b buf len"
  let ?v = "wr32 b 4 (of_nat len)"
  note f1 = grown_ok [OF f g] and gv = grown_view [OF g] and w = written_basics [OF f s g e len(2)]
  have nb: "needed len \<le> 8" "len \<le> 512 * needed len" using needed_bound [OF len(2)] by simp_all
  note eb = extended_blocks [OF f s g e] and v = written_view [OF f1(1) w(1) len w(2,6)]
  note so = slot_okD [OF fs_okD(7) [OF f1(1) w(1)]] and kept = written_keeps_others [OF f s g e len]
  have fi: "file_inode ?D s = ?v" using v(4) [OF so(1)] v(5) by (simp add: file_inode_def)
  have sz: "unat (of_nat len :: u32) = len" using len(2) by (simp add: unat_of_nat)
  have dir: "in_direct ?v j = in_direct b j" if "j < 8" for j by (rule inode_wr_size(3) [OF w(2) that])
  have "in_mode ?v = MCSFS1_MODE_FILE" using w(4) so(5) w(5) [OF s] inode_wr_size(2) [OF w(2)] by simp
  moreover have "block_good n ?D (in_direct ?v j)" if "j < 8" for j
    using eb(1-3) [OF that] dir [OF that] v(2) [of 2] by (auto simp: block_good_def)
  moreover have "2 \<le> dslot D1 s \<and> dslot D1 s \<le> 32" using fs_okD(7) [OF f1(1) w(1)] by (simp add: slot_ok_def)
  ultimately have good: "slot_ok n ?D s"
    using so v(2) [of 1] v(5,6) w(3) nb(1) dir sz len(2) inode_wr_size(1) [OF w(2)] unfolding slot_ok_def fi by auto
  have apart: "new_apart s D1 ?D"
    unfolding new_apart_def fi
    using fs_okD(8) [OF f1(1) _ w(1)] v(5,6) eb(4,5) w(5) gv(4) dir by simp
  have "?D 0 = D1 0" using v(2) [of 0] by simp
  moreover have "inode_at ?D 1 = inode_at D1 1" using v(4) [of 1] so(2) by (auto simp: is_ino_def)
  moreover have "bit_test (?D 2) x" if "x < 8" for x using v(2) [of 2] fs_okD(6) [OF f1(1) that] by simp
  ultimately show ok: "fs_ok n ?D" using v(1) kept good apart by (intro fs_ok_update [OF f1(1)]) auto
  have inj: "inj_on (in_direct b) {0..<needed len}" using eb(4) w(3) nb(1) by (fastforce simp: inj_on_def)
  have "map (\<lambda>j. ?D (in_direct ?v j)) [0..<needed len] = map (chunk buf len) [0..<needed len]"
    using nb(1) dir v(3) w(6) put_blocks_at [of "[0..<needed len]" b] inj by (auto intro!: map_cong)
  then have "content ?D s = take len buf"
    unfolding content_def fi Let_def inode_wr_size(1) [OF w(2)] sz using chunks_concat [OF len(1) nb(2)] by metis
  then show "files1 ?D = (files1 D)(dname D s \<mapsto> take len buf)"
    using files1_update [OF f1(1) ok kept] w(1) v(5,6) gv f1(2) by (auto simp: fun_eq_iff used_def)
qed

subsection \<open>The effect of removing a file\<close>

definition clear_blocks :: "u32 \<Rightarrow> bytes \<Rightarrow> nat list \<Rightarrow> bytes \<Rightarrow> bytes" where
  "clear_blocks n b js bb =
     fold (\<lambda>i bb. if in_direct b i \<noteq> 0 \<and> in_direct b i < n then bit_clear bb (in_direct b i) else bb) js bb"

lemma bit_test_clear_blocks:
  assumes "n \<le> 4096" "length bb = 512"
  shows "length (clear_blocks n b js bb) = 512 \<and>
    (\<forall>x. bit_test (clear_blocks n b js bb) x \<longleftrightarrow> bit_test bb x \<and> \<not> (\<exists>j \<in> set js. in_direct b j = x \<and> x \<noteq> 0 \<and> x < n))"
  using assms(2)
proof (induction js arbitrary: bb)
  case (Cons j js)
  show ?case
  proof (cases "in_direct b j \<noteq> 0 \<and> in_direct b j < n")
    case True
    then have "unat (in_direct b j) < 8 * length bb" using assms(1) Cons.prems by (simp add: word_less_nat_alt word_le_nat_alt)
    then show ?thesis using Cons.IH [of "bit_clear bb (in_direct b j)"] Cons.prems True bit_test_clear
      by (auto simp: clear_blocks_def)
  next
    case False
    then show ?thesis using Cons.IH [OF Cons.prems] by (auto simp: clear_blocks_def)
  qed
qed (simp add: clear_blocks_def)

definition removed :: "u32 \<Rightarrow> (u32 \<Rightarrow> bytes) \<Rightarrow> nat \<Rightarrow> u32 \<Rightarrow> bytes" where
  "removed n D s =
     D(7 := patch (32 * s) (replicate 32 0) (D 7), 1 := bit_clear (D 1) (dslot D s),
       2 := clear_blocks n (file_inode D s) [0..<8] (D 2))"

lemma removed_ok:
  assumes f: "fs_ok n D" and s: "used D s"
  shows "fs_ok n (removed n D s)" "files1 (removed n D s) = (files1 D)(dname D s := None)"
proof -
  let ?D = "removed n D s"
  note so = slot_okD [OF fs_okD(7) [OF f s]]
  have s16: "s < 16" using s by (simp add: used_def)
  have seven: "?D 7 = patch (32 * s) (replicate 32 0) (D 7)" and other: "\<And>l. l \<noteq> 1 \<Longrightarrow> l \<noteq> 2 \<Longrightarrow> l \<noteq> 7 \<Longrightarrow> ?D l = D l"
    by (simp_all add: removed_def)
  note sp = slot_patch [where D = D and D' = ?D, OF fs_okD(1) [OF f] seven _ s16]
  have sl: "dslot ?D i = (if i = s then 0 else dslot D i)" "i \<noteq> s \<Longrightarrow> dname ?D i = dname D i" if "i < 16" for i
    using sp [OF _ that] by auto
  have nu: "\<not> used ?D s" using sl(1) [OF s16] by (simp add: used_def)
  have "unat (dslot D s) < 8 * length (D 1)" using so(1) fs_okD(1) [OF f, of 1] by (simp add: is_ino_def)
  then have t1: "bit_test (?D 1) x \<longleftrightarrow> x \<noteq> dslot D s \<and> bit_test (D 1) x" for x by (simp add: removed_def bit_test_clear)
  note cb = bit_test_clear_blocks [OF fs_okD(3) [OF f] fs_okD(1) [OF f, of 2], of "file_inode D s" "[0..<8]"]
  then have t2: "bit_test (?D 2) x \<longleftrightarrow> bit_test (D 2) x \<and> \<not> (\<exists>j < 8. in_direct (file_inode D s) j = x \<and> x \<noteq> 0 \<and> x < n)" for x
    by (auto simp: removed_def)
  have ino: "inode_at ?D k = inode_at D k" if "is_ino k" for k
    by (rule inode_at_cong [OF that], rule other) (auto simp: word_le_nat_alt)
  have kept: "others_kept s D ?D"
    unfolding others_kept_def
  proof (intro conjI allI impI)
    fix i j assume u: "used D i" "i \<noteq> s" and j: "j < (8 :: nat)" "in_direct (file_inode D i) j \<noteq> 0"
    note bs = block_of_slot [OF f u(1) j]
    have "in_direct (file_inode D s) k \<noteq> in_direct (file_inode D i) j" if "k < 8" for k
      using fs_okD(9) [OF f u(1) s j(1) that j(2)] u(2) by metis
    then show "bit_test (?D 2) (in_direct (file_inode D i) j)" using bs(3) t2 by blast
    show "?D (in_direct (file_inode D i) j) = D (in_direct (file_inode D i) j)"
      by (rule other) (use bs(1) in \<open>auto simp: word_le_nat_alt\<close>)
  next
    fix i assume u: "used D i" "i \<noteq> s"
    then have "i < 16" by (simp add: used_def)
    then show "dname ?D i = dname D i" using sl(2) u(2) by simp
    note so' = slot_okD [OF fs_okD(7) [OF f u(1)]]
    show "inode_at ?D (unat (dslot D i)) = inode_at D (unat (dslot D i))" by (rule ino) (rule so'(1))
    show "bit_test (?D 1) (dslot D i)" using so'(3) t1 fs_okD(8) [OF f u(1) s u(2)] by simp
  qed (use sl(1) in simp)
  have len: "length (?D l) = 512" for l
  proof -
    have "length (patch (32 * s) (replicate 32 0) (D 7)) = 512" using fs_okD(1) [OF f, of 7] s16 by simp
    then show ?thesis using fs_okD(1) [OF f, of l] fs_okD(1) [OF f, of 1] cb by (simp add: removed_def)
  qed
  have low: "bit_test (?D 2) x" if "x < 8" for x
    using fs_okD(6) [OF f that] t2 block_of_slot(1) [OF f s] that by (auto simp: not_le [symmetric])
  show ok: "fs_ok n ?D"
    using len other [of 0] ino [of 1] low kept nu by (intro fs_ok_update [OF f, of ?D s]) (auto simp: is_ino_def)
  show "files1 ?D = (files1 D)(dname D s := None)"
    using files1_update [OF f ok kept] nu s by (auto simp: fun_eq_iff)
qed

subsection \<open>The superblock and the root\<close>

lemma block_fields:
  assumes "length bs = 512"
  shows "off \<le> 508 \<Longrightarrow> length (wr32 bs off v) = 512" "off \<le> 508 \<Longrightarrow> rd32 (wr32 bs off v) off = v"
    "off \<le> 508 \<Longrightarrow> o2 \<le> 508 \<Longrightarrow> o2 + 4 \<le> off \<or> off + 4 \<le> o2 \<Longrightarrow> rd32 (wr32 bs off v) o2 = rd32 bs o2"
  using assms by simp_all

lemma super_fields:
  "sbf_magic (super_image n) = MCSFS1_MAGIC" "sbf_version (super_image n) = MCSFS1_VERSION"
  "sbf_block_size (super_image n) = of_nat MCSFS1_BLOCK_SIZE" "sbf_block_count (super_image n) = n"
  "sbf_inode_count (super_image n) = MCSFS1_MAX_INODES" "sbf_inode_bmap_lba (super_image n) = MCSFS1_INODE_BMAP_LBA"
  "sbf_block_bmap_lba (super_image n) = MCSFS1_BLOCK_BMAP_LBA" "sbf_inode_table_lba (super_image n) = MCSFS1_INODE_TABLE_LBA"
  "sbf_root_ino (super_image n) = MCSFS1_ROOT_INO" "sbf_root_dir_lba (super_image n) = MCSFS1_ROOT_DIR_LBA"
  "sbf_data_start_lba (super_image n) = MCSFS1_DATA_START_LBA" "sbf_clean (super_image n) = 1" "length (super_image n) = 512"
  by (simp_all add: super_image_def Let_def MCSFS1_BLOCK_SIZE_def block_fields sbf_magic_def sbf_version_def sbf_block_size_def
        sbf_block_count_def sbf_inode_count_def sbf_inode_bmap_lba_def sbf_block_bmap_lba_def sbf_inode_table_lba_def
        sbf_root_ino_def sbf_root_dir_lba_def sbf_data_start_lba_def sbf_clean_def
      del: length_wr rd_wr_same rd_wr32_other)

lemma root_fields:
  "in_mode root_image = MCSFS1_MODE_DIR" "in_size root_image = 512" "in_direct root_image 0 = MCSFS1_ROOT_DIR_LBA"
  "length root_image = 60"
  by (simp_all add: root_image_def make_inode_fields MCSFS1_BLOCK_SIZE_def)

subsection \<open>The effect of formatting\<close>

definition zeroed :: "nat list \<Rightarrow> (u32 \<Rightarrow> bytes) \<Rightarrow> u32 \<Rightarrow> bytes" where
  "zeroed js D = fold (\<lambda>j D. D(of_nat j := replicate 512 0)) js D"

lemma zeroed_at: "zeroed js D l = (if \<exists>j \<in> set js. of_nat j = l then replicate 512 0 else D l)"
  by (induction js arbitrary: D) (auto simp: zeroed_def)

definition fresh_ib :: bytes where
  "fresh_ib = bit_set (bit_set (replicate MCSFS1_BLOCK_SIZE 0) 0) MCSFS1_ROOT_INO"

definition fresh_bb :: bytes where
  "fresh_bb = bit_set (fold (\<lambda>b m. bit_set m (of_nat b)) [0..<unat MCSFS1_DATA_START_LBA] (replicate MCSFS1_BLOCK_SIZE 0))
     MCSFS1_ROOT_DIR_LBA"

lemma set_bits:
  "length m = 512 \<Longrightarrow> \<forall>j \<in> set js. j < 4096 \<Longrightarrow> length (fold (\<lambda>b m. bit_set m (of_nat b)) js m) = 512 \<and>
   (\<forall>x. bit_test (fold (\<lambda>b m. bit_set m (of_nat b)) js m) x \<longleftrightarrow> bit_test m x \<or> (\<exists>j \<in> set js. x = of_nat j))"
proof (induction js arbitrary: m)
  case (Cons j js)
  have "unat (of_nat j :: u32) < 8 * length m" using Cons.prems by (simp add: unat_of_nat)
  from bit_test_set [OF this] show ?case using Cons by auto
qed simp

lemma fresh_map_lengths: "length fresh_ib = 512" "length fresh_bb = 512"
  using set_bits [of "replicate 512 0" "[0..<8]"]
  by (simp_all add: fresh_ib_def fresh_bb_def MCSFS1_BLOCK_SIZE_def MCSFS1_DATA_START_LBA_def)

lemma fresh_bb_bits: "b < 8 \<Longrightarrow> bit_test fresh_bb b"
proof -
  assume "b < 8"
  then have "\<exists>j \<in> set [0..<8]. b = of_nat j" by (intro bexI [of _ "unat b"]) (simp_all add: word_less_nat_alt)
  then show ?thesis
    using set_bits [of "replicate 512 0" "[0..<8]"]
    by (simp add: fresh_bb_def MCSFS1_BLOCK_SIZE_def MCSFS1_DATA_START_LBA_def MCSFS1_ROOT_DIR_LBA_def bit_test_set)
qed

definition formatted :: "u32 \<Rightarrow> (u32 \<Rightarrow> bytes) \<Rightarrow> u32 \<Rightarrow> bytes" where
  "formatted n D =
     (put_inode ((zeroed [0..<unat n] D)(0 := super_image n, 1 := fresh_ib, 2 := fresh_bb)) 1 root_image)(7 := replicate 512 0)"

lemma formatted_ok:
  assumes n: "16 \<le> n" "n \<le> 4096" and len: "\<forall>l. length (D l) = 512"
  shows "fs_ok n (formatted n D)" "files1 (formatted n D) = Map.empty"
proof -
  let ?D = "formatted n D"
  let ?D2 = "(zeroed [0..<unat n] D)(0 := super_image n, 1 := fresh_ib, 2 := fresh_bb)"
  have one: "is_ino 1" by (simp add: is_ino_def)
  have l2: "\<forall>l. length (?D2 l) = 512" using len fresh_map_lengths by (auto simp: zeroed_at super_fields)
  have low: "put_inode ?D2 1 root_image l = ?D2 l" if "l < 3" for l by (rule put_inode_other [OF one]) (use that in simp)
  have nu: "\<not> used ?D i" for i
    by (auto simp: used_def dslot_def de_ino_def formatted_def intro!: rd_zeros)
  have "length (?D l) = 512" for l
    using put_inode_length [OF one root_fields(4), where D = ?D2] l2 by (simp add: formatted_def)
  moreover have "?D 0 = super_image n" "?D 2 = fresh_bb" using low [of 0] low [of 2] by (simp_all add: formatted_def)
  moreover have "inode_at ?D 1 = root_image"
  proof -
    have "inode_at ?D 1 = inode_at (put_inode ?D2 1 root_image) 1"
      by (rule inode_at_cong [OF one]) (auto simp: formatted_def)
    then show ?thesis using inode_at_put [OF one one root_fields(4), where D = ?D2] l2 by simp
  qed
  ultimately show "fs_ok n ?D" using n nu fresh_bb_bits by (simp add: fs_ok_def)
  show "files1 ?D = Map.empty" using nu files1_None [of ?D] by (auto simp: fun_eq_iff)
qed

subsection \<open>A name of 27 characters\<close>

lemma low_byte_zero:
  assumes "b = 0"
  shows "unat (le_word (b # bs) :: u32) mod 256 = 0"
proof -
  have "take_bit 8 (le_word (b # bs) :: u32) = 0"
    using assms by (intro bit_word_eqI) (auto simp: bit_take_bit_iff bit_le_word simp del: le_word.simps)
  then have "take_bit 8 (unat (le_word (b # bs) :: u32)) = 0" by (metis unsigned_0 unsigned_take_bit_eq)
  then show ?thesis by (simp add: take_bit_eq_mod del: le_word.simps)
qed

lemma ino_low_byte:
  assumes "length (D 7) = 512" "i < 16" "0 < unat (dslot D i)" "unat (dslot D i) < 256"
  shows "D 7 ! (32 * i) \<noteq> 0"
proof
  assume z: "D 7 ! (32 * i) = 0"
  have "slice (32 * i) 4 (D 7) = D 7 ! (32 * i) # slice (32 * i + 1) 3 (D 7)"
    using assms(1,2) slice_join [of "32 * i" 1 "D 7" 3] by (simp add: slice_def take_Suc_conv_app_nth hd_drop_conv_nth take_Suc)
  then have "unat (dslot D i) mod 256 = 0"
    using low_byte_zero [OF z] by (simp add: dslot_def de_ino_def rd32_def)
  then show False using assms(3,4) by simp
qed

lemma long_name_length:
  fixes D D' :: "u32 \<Rightarrow> bytes"
  assumes D: "length (D 7) = 512" and s: "s < 15" and e: "D' 7 = patch (32 * s) (entry ino nm) (D 7)"
    and nm: "length nm = 27" "0 \<notin> set nm" and nxt: "D 7 ! (32 * Suc s) \<noteq> 0"
  shows "strnlen (de_name_from behind (D' 7) s) 28 = 28"
proof (rule strnlen_full)
  fix j :: nat assume j: "j < 28"
  have le: "length (entry ino nm) = 32" using nm by simp
  have at: "de_name_from behind (D' 7) s ! j = patch (32 * s) (entry ino nm) (D 7) ! (32 * s + 5 + j)"
  proof -
    have "32 * s + 5 + j < 512" using s j by simp
    moreover from this have "length (patch (32 * s) (entry ino nm) (D 7)) = 512" using D s le by simp
    ultimately show ?thesis unfolding de_name_from_def e by (subst nth_drop) (simp_all add: nth_append)
  qed
  show "de_name_from behind (D' 7) s ! j \<noteq> 0"
  proof (cases "j = 27")
    case True
    then show ?thesis using at D s le nxt by (simp add: nth_patch)
  next
    case False
    then have "de_name_from behind (D' 7) s ! j = nm ! j"
      using at D s le j nm(1) by (simp add: nth_patch, simp add: entry_def nth_append)
    moreover have "nm ! j \<in> set nm" using False j nm(1) by simp
    ultimately show ?thesis using nm(2) by metis
  qed
qed

end
