(* ===== verification/Mcsfs1_Files.thy ===== *)
theory Mcsfs1_Files
  imports Mcsfs1
begin

text \<open>
  What the functions of \<open>fs/mcsfs1/mcsfs1.c\<close> do to the contents of the device and to the files on it.
\<close>

section \<open>What the functions do to the contents\<close>

context fs_device
begin

abbreviation G where "G \<equiv> gives ok blk"
abbreviation N where "N \<equiv> bd_block_count dev"

lemma read_gives: "lba < N \<Longrightarrow> G (dev_read (Some dev) lba) D (Inr (D lba)) D"
  using rd_ok by (fastforce simp: gives_def dev_read_def calls)

lemma write_gives: "lba < N \<Longrightarrow> length b = 512 \<Longrightarrow> G (dev_write (Some dev) lba b) D (Inr ()) (D(lba := b))"
  using wr_ok by (fastforce simp: gives_def dev_write_def calls)

lemma flush_gives: "G (dev_flush (Some dev)) D (Inr ()) D"
  using fl_ok by (fastforce simp: gives_def dev_flush_def calls)

lemma read_inode_gives:
  assumes k: "is_ino k" and n: "16 \<le> N" and l: "\<forall>l. length (D l) = 512"
  shows "G (read_inode (Some dev) (of_nat k)) D (Inr (inode_at D k)) D"
proof -
  note p = inode_place_of_nat [OF k]
  have lt: "fst (place k) < N" using p(2) n by (simp add: word_less_nat_alt word_le_nat_alt)
  have "\<not> 8 \<le> fst (place k)" using p(2) by (simp add: word_less_nat_alt word_le_nat_alt)
  moreover have "(of_nat k :: u32) \<noteq> 0" "\<not> 32 < (of_nat k :: u32)"
    using k is_ino_word [OF k] by (auto simp: is_ino_def word_less_nat_alt)
  moreover have "mcsfs_memcpy (replicate INODE_BYTES 0) 0 (D (fst (place k))) (snd (place k)) INODE_BYTES = inode_at D k"
    using p(4) l by (simp add: mcsfs_memcpy_def copy_loop_patch mcs_consts inode_at_def patch_def)
  ultimately have "read_inode (Some dev) (of_nat k) = fs_then (dev_read (Some dev) (fst (place k)))
      (\<lambda>block. fs_return (mcsfs_memcpy (replicate INODE_BYTES 0) 0 block (snd (place k)) INODE_BYTES))"
    and e: "mcsfs_memcpy (replicate INODE_BYTES 0) 0 (D (fst (place k))) (snd (place k)) INODE_BYTES = inode_at D k"
    by (simp_all add: read_inode_def p(1) split_beta Let_def mcs_consts)
  then show ?thesis using gives_return [of ok blk "inode_at D k" D] by (simp only:) (rule gives_then [OF read_gives [OF lt]], simp only: e)
qed

lemma write_inode_gives:
  assumes k: "is_ino k" and n: "16 \<le> N" and l: "\<forall>l. length (D l) = 512" "length b = 60"
  shows "G (write_inode (Some dev) (of_nat k) b) D (Inr ()) (put_inode D k b)"
proof -
  note p = inode_place_of_nat [OF k]
  have lt: "fst (place k) < N" using p(2) n by (simp add: word_less_nat_alt word_le_nat_alt)
  have "\<not> 8 \<le> fst (place k)" using p(2) by (simp add: word_less_nat_alt word_le_nat_alt)
  moreover have "(of_nat k :: u32) \<noteq> 0" "\<not> 32 < (of_nat k :: u32)"
    using k is_ino_word [OF k] by (auto simp: is_ino_def word_less_nat_alt)
  moreover have c: "mcsfs_memcpy (D (fst (place k))) (snd (place k)) b 0 INODE_BYTES =
      patch (snd (place k)) b (D (fst (place k)))"
    using p(4) l by (simp add: mcsfs_memcpy_def copy_loop_patch mcs_consts)
  moreover have len: "length (patch (snd (place k)) b (D (fst (place k)))) = 512" using p(4) l by simp
  ultimately have e: "write_inode (Some dev) (of_nat k) b = fs_then (dev_read (Some dev) (fst (place k)))
      (\<lambda>block. dev_write (Some dev) (fst (place k)) (mcsfs_memcpy block (snd (place k)) b 0 INODE_BYTES))"
    by (simp add: write_inode_def p(1) split_beta Let_def mcs_consts)
  show ?thesis
    unfolding e put_inode_def by (rule gives_then [OF read_gives [OF lt]]) (simp only: c write_gives [OF lt len])
qed

lemma small_lba: "16 \<le> N \<Longrightarrow> 0 < N" "16 \<le> N \<Longrightarrow> 1 < N" "16 \<le> N \<Longrightarrow> 2 < N" "16 \<le> N \<Longrightarrow> 7 < N"
  by (simp_all add: word_less_nat_alt word_le_nat_alt)

lemma load_bmaps_gives: "16 \<le> N \<Longrightarrow> G (load_bmaps (Some dev)) D (Inr (D 1, D 2)) D"
  unfolding load_bmaps_def mcs_consts
  by (intro gives_then [OF read_gives] gives_return small_lba) simp_all

lemma store_bmaps_gives:
  "16 \<le> N \<Longrightarrow> length ib = 512 \<Longrightarrow> length bb = 512 \<Longrightarrow> G (store_bmaps (Some dev) ib bb) D (Inr ()) (D(1 := ib, 2 := bb))"
  unfolding store_bmaps_def mcs_consts
  by (intro gives_then [OF write_gives] write_gives small_lba) simp_all

lemma find_dirent_gives:
  assumes f: "fs_ok N D" and nm: "c_string name nm"
  shows "G (find_dirent (Some dev) name) D
    (if \<not> (1 \<le> length nm \<and> length nm \<le> 27) then Inl MCSFS1_ERR_NAMETOOLONG
     else case slot_of D nm of None \<Rightarrow> Inl MCSFS1_ERR_NOENT | Some i \<Rightarrow> Inr (i, dslot D i)) D"
proof (cases "1 \<le> length nm \<and> length nm \<le> 27")
  case False
  then show ?thesis using gives_fail [of ok blk MCSFS1_ERR_NAMETOOLONG D] by (auto simp: find_dirent_def valid_name_c [OF nm])
next
  case True
  let ?p = "\<lambda>i. de_ino (D 7) i \<noteq> 0 \<and>
    mcsfs_strlen_bound (Some (de_name_from (bd_behind dev) (D 7) i)) (MCSFS1_MAX_NAME + 1) = length nm \<and>
    mcsfs_memcmp (de_name_from (bd_behind dev) (D 7) i) (the name) (length nm) = 0"
  have "first_index ?p 0 16 = slot_of D nm"
    unfolding slot_of_def
  proof (rule first_index_cong)
    fix i assume "(i :: nat) < 16"
    show "?p i = (dslot D i \<noteq> 0 \<and> dname D i = nm)"
    proof (cases "dslot D i = 0")
      case False
      then have "used D i" using \<open>i < 16\<close> by (simp add: used_def)
      then have "length (dname D i) \<le> 26" using slot_okD(4) [OF fs_okD(7) [OF f]] by (simp add: name_fits_def)
      then show ?thesis
        using entry_matches [OF fs_okD(1) [OF f] \<open>i < 16\<close> _ nm, where behind = "bd_behind dev"] False by (simp add: dslot_def MCSFS1_MAX_NAME_def)
    qed (simp add: dslot_def)
  qed
  moreover have "7 < N" using small_lba fs_okD(2) [OF f] by blast
  ultimately show ?thesis
    using True unfolding find_dirent_def valid_name_c [OF nm]
    by (cases "slot_of D nm")
       (auto simp: mcs_consts dslot_def intro!: gives_then [OF read_gives] intro: gives_return gives_fail)
qed

lemma alloc_data_block_gives:
  assumes f: "fs_ok N D"
  shows "G (alloc_data_block (Some dev)) D
    (case free_block N D of None \<Rightarrow> Inl MCSFS1_ERR_NOSPC | Some b \<Rightarrow> Inr (of_nat b))
    (case free_block N D of None \<Rightarrow> D | Some b \<Rightarrow> D(2 := bit_set (D 2) (of_nat b)))"
proof -
  note lb = load_bmaps_gives [OF fs_okD(2) [OF f]]
  have fb: "first_index (\<lambda>b. \<not> bit_test (D 2) (of_nat b)) (unat MCSFS1_DATA_START_LBA) (unat N) = free_block N D"
    by (simp add: free_block_def mcs_consts)
  show ?thesis
  proof (cases "free_block N D")
    case None
    then show ?thesis
      unfolding alloc_data_block_def by (intro gives_then [OF lb]) (simp add: fb gives_fail)
  next
    case (Some b)
    have "G (store_bmaps (Some dev) (D 1) (bit_set (D 2) (of_nat b))) D (Inr ()) (D(2 := bit_set (D 2) (of_nat b)))"
      using store_bmaps_gives [OF fs_okD(2) [OF f], of "D 1" "bit_set (D 2) (of_nat b)" D] fs_okD(1) [OF f] by simp
    then show ?thesis
      unfolding alloc_data_block_def by (intro gives_then [OF lb]) (simp add: fb Some gives_then gives_return)
  qed
qed

lemma alloc_inode_block_gives:
  assumes f: "fs_ok N D"
  shows "G (alloc_inode_block (Some dev)) D
    (case free_inode D of None \<Rightarrow> Inl MCSFS1_ERR_NOSPC
     | Some k \<Rightarrow> (case free_block N D of None \<Rightarrow> Inl MCSFS1_ERR_NOSPC | Some b \<Rightarrow> Inr (of_nat k, of_nat b)))
    (case free_inode D of None \<Rightarrow> D
     | Some k \<Rightarrow> (case free_block N D of None \<Rightarrow> D
         | Some b \<Rightarrow> D(1 := bit_set (D 1) (of_nat k), 2 := bit_set (D 2) (of_nat b))))"
proof -
  note lb = load_bmaps_gives [OF fs_okD(2) [OF f]]
  have fb: "first_index (\<lambda>b. \<not> bit_test (D 2) (of_nat b)) (unat MCSFS1_DATA_START_LBA) (unat N) = free_block N D"
    and fi: "first_index (\<lambda>i. \<not> bit_test (D 1) (of_nat i)) 2 (Suc (unat MCSFS1_MAX_INODES)) = free_inode D"
    by (simp_all add: free_block_def free_inode_def mcs_consts)
  have st: "G (store_bmaps (Some dev) (bit_set (D 1) k) (bit_set (D 2) b)) D (Inr ())
      (D(1 := bit_set (D 1) k, 2 := bit_set (D 2) b))" for k b
    using store_bmaps_gives [OF fs_okD(2) [OF f], of "bit_set (D 1) k" "bit_set (D 2) b" D] fs_okD(1) [OF f] by simp
  show ?thesis
    unfolding alloc_inode_block_def
    by (intro gives_then [OF lb])
       (auto simp: fb fi split: option.splits intro: gives_fail gives_then [OF st] gives_return)
qed

lemma create_entry_unfold:
  "create_entry (Some dev) (nm @ 0 # rest) (length nm) (D 7) = (case open_slot D of
      None \<Rightarrow> fs_fail MCSFS1_ERR_NOSPC
    | Some s \<Rightarrow>
        fs_then (alloc_inode_block (Some dev)) (\<lambda>(ino, first_data).
        fs_then (write_inode (Some dev) ino (make_inode MCSFS1_MODE_FILE 1 0 first_data)) (\<lambda>_.
        fs_then (dev_write (Some dev) MCSFS1_ROOT_DIR_LBA (fill_dirent (D 7) s ino (nm @ 0 # rest) (length nm))) (\<lambda>_.
        dev_flush (Some dev)))))"
  by (simp add: create_entry_def open_slot_def dslot_def MCSFS1_DIRENT_COUNT_def)

lemma create_entry_enters:
  assumes f: "fs_ok N D" and len: "length nm \<le> 27"
    and s: "open_slot D = Some s" and k: "free_inode D = Some k" and b: "free_block N D = Some b"
  shows "G (create_entry (Some dev) (nm @ 0 # rest) (length nm) (D 7)) D (Inr ()) (created D s k b nm)"
proof -
  have s': "s < 16" using first_index_SomeD [OF s [unfolded open_slot_def]] by simp
  let ?D1 = "D(1 := bit_set (D 1) (of_nat k), 2 := bit_set (D 2) (of_nat b))"
  let ?v = "make_inode MCSFS1_MODE_FILE 1 0 (of_nat b)"
  have wi: "G (write_inode (Some dev) (of_nat k) ?v) ?D1 (Inr ()) (put_inode ?D1 k ?v)"
    using fs_okD(1) [OF f] by (intro write_inode_gives free_inodeD(1) [OF k] fs_okD(2) [OF f] make_inode_fields) simp
  have wd: "G (dev_write (Some dev) MCSFS1_ROOT_DIR_LBA (fill_dirent (D 7) s (of_nat k) (nm @ 0 # rest) (length nm)))
      (put_inode ?D1 k ?v) (Inr ()) (created D s k b nm)"
    unfolding created_def MCSFS1_ROOT_DIR_LBA_def fill_dirent_patch [OF fs_okD(1) [OF f] s' len]
    by (rule write_gives) (use small_lba(4) fs_okD(1,2) [OF f] s' len in simp_all)
  have "G (alloc_inode_block (Some dev)) D (Inr (of_nat k, of_nat b)) ?D1" using alloc_inode_block_gives [OF f] k b by simp
  then show ?thesis
    unfolding create_entry_unfold s option.case by (rule gives_then) (simp, rule gives_then [OF wi gives_then [OF wd flush_gives]])
qed

lemma create_entry_gives:
  assumes f: "fs_ok N D" and nm: "name_fits nm" "slot_of D nm = None"
  shows "\<exists>r D'. G (create_entry (Some dev) (nm @ 0 # rest) (length nm) (D 7)) D r D' \<and> fs_ok N D' \<and>
    (if open_slot D = None \<or> free_inode D = None \<or> free_block N D = None then r = Inl MCSFS1_ERR_NOSPC \<and> D' = D
     else r = Inr () \<and> files1 D' = (files1 D)(nm \<mapsto> []))"
proof (cases "open_slot D = None \<or> free_inode D = None \<or> free_block N D = None")
  case True
  then have "G (create_entry (Some dev) (nm @ 0 # rest) (length nm) (D 7)) D (Inl MCSFS1_ERR_NOSPC) D"
    unfolding create_entry_unfold using alloc_inode_block_gives [OF f]
    by (auto split: option.splits intro: gives_fail gives_stop)
  then show ?thesis using f True by auto
next
  case False
  then obtain s k b where s: "open_slot D = Some s" and k: "free_inode D = Some k" and b: "free_block N D = Some b" by auto
  have s': "s < 16" "dslot D s = 0" using first_index_SomeD [OF s [unfolded open_slot_def]] by simp_all
  have "length nm \<le> 27" using nm by (simp add: name_fits_def)
  from create_entry_enters [OF f this s k b, of rest] show ?thesis using created_ok [OF f s' k b nm] False by auto
qed

lemma create_reaches_entry:
  assumes f: "fs_ok N D" and nm: "c_string name nm" "name_len_ok nm" and m: "mnt_dev m = Some dev"
    and new: "slot_of D nm = None" and rest: "name = Some (nm @ 0 # rest)"
    and ce: "G (create_entry (Some dev) (nm @ 0 # rest) (length nm) (D 7)) D r D'"
  shows "G (mcsfs1_create (Some m) name) D r D'"
proof -
  note fd = find_dirent_gives [OF f nm(1)]
  have th: "the name = nm @ 0 # rest" using rest by simp
  have rd: "G (dev_read (Some dev) MCSFS1_ROOT_DIR_LBA) D (Inr (D 7)) D"
    unfolding MCSFS1_ROOT_DIR_LBA_def by (rule read_gives) (use small_lba fs_okD(2) [OF f] in blast)
  have "mcsfs1_create (Some m) name = (\<lambda>c. case find_dirent (Some dev) name c of
      (Inr _, c) \<Rightarrow> (Inl MCSFS1_ERR_EXIST, c)
    | (Inl _, c) \<Rightarrow> fs_then (dev_read (Some dev) MCSFS1_ROOT_DIR_LBA) (create_entry (Some dev) (the name) (length nm)) c)"
    using nm(2) by (simp add: mcsfs1_create_def m valid_name_c [OF nm(1)] Let_def name_len_ok_def)
  then show ?thesis
    unfolding th
    by (simp only:, intro gives_probe [OF fd])
       (use nm(2) new gives_then [where k = "create_entry (Some dev) (nm @ 0 # rest) (length nm)", OF rd ce]
         in \<open>auto simp: name_len_ok_def\<close>)
qed

lemma create_exists:
  assumes f: "fs_ok N D" and nm: "c_string name nm" "name_len_ok nm" and m: "mnt_dev m = Some dev" and old: "slot_of D nm = Some i"
  shows "G (mcsfs1_create (Some m) name) D (Inl MCSFS1_ERR_EXIST) D"
proof -
  have "mcsfs1_create (Some m) name = (\<lambda>c. case find_dirent (Some dev) name c of
      (Inr _, c) \<Rightarrow> (Inl MCSFS1_ERR_EXIST, c)
    | (Inl _, c) \<Rightarrow> fs_then (dev_read (Some dev) MCSFS1_ROOT_DIR_LBA) (create_entry (Some dev) (the name) (length nm)) c)"
    using nm(2) by (simp add: mcsfs1_create_def m valid_name_c [OF nm(1)] Let_def name_len_ok_def)
  then show ?thesis
    by (simp only:, intro gives_probe [OF find_dirent_gives [OF f nm(1)]]) (use nm(2) old in \<open>auto simp: name_len_ok_def\<close>)
qed

lemma create_gives:
  assumes f: "fs_ok N D" and nm: "c_string name nm" and m: "mnt_dev m = Some dev" and fits: "name_fits nm"
  shows "\<exists>r D'. G (mcsfs1_create (Some m) name) D r D' \<and> fs_ok N D' \<and>
    (if files1 D nm \<noteq> None then r = Inl MCSFS1_ERR_EXIST \<and> D' = D
     else if open_slot D = None \<or> free_inode D = None \<or> free_block N D = None then r = Inl MCSFS1_ERR_NOSPC \<and> D' = D
     else r = Inr () \<and> files1 D' = (files1 D)(nm \<mapsto> []))"
proof (cases "slot_of D nm")
  case (Some i)
  then show ?thesis
    using create_exists [OF f nm _ m Some] fits f by (auto simp: files1_def name_fits_def name_len_ok_def)
next
  case None
  obtain rest where rest: "name = Some (nm @ 0 # rest)" using nm by (auto simp: c_string_def)
  have "name_len_ok nm" using fits by (simp add: name_fits_def name_len_ok_def)
  then show ?thesis
    using create_reaches_entry [OF f nm _ m None rest] create_entry_gives [OF f fits None, of rest] None
    by (fastforce simp: files1_def)
qed

subsection \<open>Finding a file\<close>

lemma missing_gives:
  "fs_ok N D \<Longrightarrow> c_string name nm \<Longrightarrow> name_len_ok nm \<Longrightarrow> files1 D nm = None \<Longrightarrow>
   G (fs_then (find_dirent (Some dev) name) k) D (Inl MCSFS1_ERR_NOENT) D"
  using find_dirent_gives [of D name nm] by (intro gives_stop) (simp add: files1_def name_len_ok_def)

lemma found_gives:
  assumes f: "fs_ok N D" and nm: "c_string name nm" "name_len_ok nm" and s: "slot_of D nm = Some s"
    and k: "G (k s (dslot D s) (file_inode D s)) D r D'"
  shows "G (fs_then (find_dirent (Some dev) name) (\<lambda>(i, ino). fs_then (read_inode (Some dev) ino) (k i ino))) D r D'"
proof -
  have u: "used D s" using slot_of_Some [OF s] by simp
  have "G (find_dirent (Some dev) name) D (Inr (s, dslot D s)) D"
    using find_dirent_gives [OF f nm(1)] nm(2) s by (simp add: name_len_ok_def)
  moreover have "G (read_inode (Some dev) (dslot D s)) D (Inr (file_inode D s)) D"
    using read_inode_gives [OF slot_okD(1) [OF fs_okD(7) [OF f u]] fs_okD(2) [OF f]] fs_okD(1) [OF f] by (simp add: file_inode_def)
  then have "G (fs_then (read_inode (Some dev) (dslot D s)) (k s (dslot D s))) D r D'" using k by (rule gives_then)
  ultimately show ?thesis by (auto intro: gives_then)
qed

subsection \<open>Write\<close>

lemma alloc_missing_gives:
  assumes "fs_ok N D" "length b = 60" "set js \<subseteq> {..<8}"
    and "\<And>k. k < 8 \<Longrightarrow> in_direct b k \<noteq> 0 \<Longrightarrow> bit_test (D 2) (in_direct b k)"
  shows "\<exists>r D'. G (alloc_missing (Some dev) b js) D r D' \<and> grown D D' \<and>
    (case r of Inl e \<Rightarrow> no_space N D D' js e | Inr b' \<Rightarrow> extended N D D' b b' js)"
  using assms
proof (induction js arbitrary: b D)
  case Nil
  have "grown D D" using fs_okD(1) [OF Nil(1)] by (simp add: grown_def)
  moreover have "extended N D D b b []" using Nil(2) by (simp add: extended_def)
  ultimately show ?case using gives_return [of ok blk b D] by (intro exI [of _ "Inr b"] exI [of _ D]) simp
next
  case (Cons i js)
  note f = Cons.prems(1) and b60 = Cons.prems(2) and good = Cons.prems(4)
  have i: "i < 8" and js: "set js \<subseteq> {..<8}" using Cons.prems(3) by auto
  show ?case
  proof (cases "in_direct b i = 0")
    case False
    obtain r D' where r: "G (alloc_missing (Some dev) b js) D r D'" "grown D D'"
      "case r of Inl e \<Rightarrow> no_space N D D' js e | Inr b' \<Rightarrow> extended N D D' b b' js"
      using Cons.IH [OF f b60 js good] by blast
    have "extended N D D' b b' (i # js)" if "extended N D D' b b' js" for b'
      using that False i by (auto simp: extended_def)
    then show ?thesis using r False by (intro exI [of _ r] exI [of _ D']) (auto simp: no_space_def split: sum.splits)
  next
    case True
    note ad = alloc_data_block_gives [OF f]
    show ?thesis
    proof (cases "free_block N D")
      case None
      have "grown D D" using fs_okD(1) [OF f] by (simp add: grown_def)
      then show ?thesis
        using True None ad free_block_None [OF None]
        by (intro exI [of _ "Inl MCSFS1_ERR_NOSPC"] exI [of _ D]) (auto simp: no_space_def intro: gives_stop)
    next
      case (Some x)
      let ?x = "of_nat x :: u32"
      let ?D = "D(2 := bit_set (D 2) ?x)"
      let ?b = "wr32 b (8 + 4 * i) ?x"
      have b60': "length ?b = 60" using b60 i by simp
      note fb = free_blockD [OF Some fs_okD(3) [OF f]]
      have g: "grown D ?D" using grown_step [where D = D, OF _ fb(4)] fs_okD(1) [OF f] by simp
      have good': "bit_test (?D 2) (in_direct ?b k)" if "k < 8" "in_direct ?b k \<noteq> 0" for k
        using that good [of k] inode_wr_direct(1) [OF b60 i that(1), of ?x] bit_test_set [of ?x "D 2"] fb(4) fs_okD(1) [OF f, of 2]
        by (auto split: if_splits)
      obtain r D' where r: "G (alloc_missing (Some dev) ?b js) ?D r D'" "grown ?D D'"
        "case r of Inl e \<Rightarrow> no_space N ?D D' js e | Inr b' \<Rightarrow> extended N ?D D' ?b b' js"
        using Cons.IH [of ?D ?b, OF grown_ok(1) [OF f g] b60' js good'] by blast
      have "G (alloc_missing (Some dev) b (i # js)) D r D'"
        using gives_then [where k = "\<lambda>y. alloc_missing (Some dev) (wr32 b (8 + 4 * i) y) js"] ad Some r(1) True by auto
      moreover have "extended N D D' b b' (i # js)" if "extended N ?D D' ?b b' js" for b'
        by (rule extended_Cons [OF that b60 i good True fb fs_okD(1) [OF f] r(2)])
      ultimately show ?thesis
        using r grown_trans [OF g r(2)] card_free_set [where D = D, OF Some fs_okD(3) [OF f] fs_okD(1) [OF f]]
        by (intro exI [of _ r] exI [of _ D']) (auto simp: no_space_def split: sum.splits)
    qed
  qed
qed

lemma write_blocks_gives:
  assumes "\<And>j. j < nb \<Longrightarrow> in_direct b j < N" "len \<le> length buf" "k \<le> nb"
  shows "G (write_blocks (Some dev) b buf len (min len (512 * k)) [k..<nb]) D (Inr ()) (put_blocks b buf len [k..<nb] D)"
  using assms(3)
proof (induction "nb - k" arbitrary: k D)
  case 0
  then show ?case using gives_return [of ok blk "()" D] by (simp add: put_blocks_def)
next
  case (Suc m)
  then have k: "k < nb" by simp
  let ?w = "min len (512 * k)"
  let ?c = "min 512 (len - ?w)"
  have sum: "?w + ?c = min len (512 * Suc k)" by (auto simp: min_def)
  have "mcsfs_memcpy (replicate 512 0) 0 buf ?w ?c = chunk buf len k"
    unfolding mcsfs_memcpy_def chunk_def by (rule copy_loop_patch) (use assms(2) in \<open>auto simp: min_def\<close>)
  moreover have "replicate 512 0 = chunk buf len k" if "?c = 0" using that by (simp add: chunk_def slice_def patch_def)
  ultimately have e: "write_blocks (Some dev) b buf len ?w [k..<nb] =
      fs_then (dev_write (Some dev) (in_direct b k) (chunk buf len k))
        (\<lambda>_. write_blocks (Some dev) b buf len (min len (512 * Suc k)) [Suc k..<nb])"
    using upt_conv_Cons [OF k] sum unfolding MCSFS1_BLOCK_SIZE_def
    by (auto simp: Let_def MCSFS1_BLOCK_SIZE_def min_def add.commute split: if_splits)
  have p: "put_blocks b buf len [k..<nb] D = put_blocks b buf len [Suc k..<nb] (D(in_direct b k := chunk buf len k))"
    using upt_conv_Cons [OF k] by (simp add: put_blocks_def)
  show ?case
    unfolding e p
    by (rule gives_then [OF write_gives [OF assms(1) [OF k] length_chunk [OF assms(2)]]], rule Suc.hyps(1))
       (use Suc.hyps(2) k in simp_all)
qed

text \<open>A write, once the blocks it needs are allocated: data, inode and flush.\<close>

lemma write_file_body:
  fixes len :: u32
  shows "write_file (Some dev) bs len ino inode =
    (if in_mode inode \<noteq> MCSFS1_MODE_FILE then fs_fail MCSFS1_ERR_ISDIR
     else fs_then (alloc_missing (Some dev) inode [0..<needed (unat len)]) (\<lambda>inode.
          fs_then (write_blocks (Some dev) inode bs (unat len) 0 [0..<needed (unat len)]) (\<lambda>_.
          fs_then (write_inode (Some dev) ino (wr32 inode 4 len)) (\<lambda>_. dev_flush (Some dev)))))"
  by (simp add: write_file_def needed_def MCSFS1_BLOCK_SIZE_def Let_def add.commute)

lemma write_data_gives:
  fixes len :: u32
  assumes f: "fs_ok N D" and u: "used D s" and g: "grown D D1"
    and ex: "extended N D D1 (file_inode D s) b' [0..<needed (unat len)]"
    and len: "unat len \<le> length bs" "unat len \<le> 4096"
  shows "G (fs_then (write_blocks (Some dev) b' bs (unat len) 0 [0..<needed (unat len)]) (\<lambda>_.
      fs_then (write_inode (Some dev) (dslot D s) (wr32 b' 4 len)) (\<lambda>_. dev_flush (Some dev)))) D1 (Inr ())
    (written D1 s b' bs (unat len))"
proof -
  let ?n = "unat len"
  let ?D2 = "put_blocks b' bs ?n [0..<needed ?n] D1"
  note so = slot_okD [OF fs_okD(7) [OF f u]]
  have b': "length b' = 60" "\<And>j. j < needed ?n \<Longrightarrow> in_direct b' j \<noteq> 0" using ex by (auto simp: extended_def)
  have lt: "in_direct b' j < N" if "j < needed ?n" for j
    using extended_blocks(2) [OF f u g ex _ b'(2) [OF that]] that needed_bound [OF len(2)] by simp
  have wb: "G (write_blocks (Some dev) b' bs ?n 0 [0..<needed ?n]) D1 (Inr ()) ?D2"
    using write_blocks_gives [where k = 0, OF lt len(1)] by simp
  have l2: "\<forall>l. length (?D2 l) = 512"
    using length_put_blocks [OF len(1)] fs_okD(1) [OF grown_ok(1) [OF f g]] by blast
  have "G (write_inode (Some dev) (of_nat (unat (dslot D s))) (wr32 b' 4 len)) ?D2 (Inr ()) (written D1 s b' bs ?n)"
    unfolding written_def using write_inode_gives [OF so(1) fs_okD(2) [OF f] l2, of "wr32 b' 4 len"] b'(1) grown_view(1) [OF g]
    by simp
  then have wi: "G (write_inode (Some dev) (dslot D s) (wr32 b' 4 len)) ?D2 (Inr ()) (written D1 s b' bs ?n)" by simp
  show ?thesis by (rule gives_then [OF wb], rule gives_then [OF wi flush_gives])
qed

lemma write_file_gives:
  assumes f: "fs_ok N D" and nm: "c_string name nm" "name_len_ok nm" and m: "mnt_dev m = Some dev"
    and len: "unat len \<le> length bs" "unat len \<le> 4096" and buf: "buf = Some bs \<or> buf = None \<and> bs = []"
  shows "\<exists>r D'. G (mcsfs1_write (Some m) name buf len) D r D' \<and> fs_ok N D' \<and>
    (if files1 D nm = None then r = Inl MCSFS1_ERR_NOENT \<and> D' = D
     else r = Inr () \<and> files1 D' = (files1 D)(nm \<mapsto> take (unat len) bs) \<or>
          r = Inl MCSFS1_ERR_NOSPC \<and> files1 D' = files1 D \<and> free_set N D' = {} \<and> card (free_set N D) < needed (unat len))"
proof -
  let ?n = "unat len"
  let ?rest = "\<lambda>_ :: nat. write_file (Some dev) bs len"
  have b: "(case buf of None \<Rightarrow> [] | Some b \<Rightarrow> b) = bs" "\<not> (buf = None \<and> len \<noteq> 0)"
    using buf len(1) by (auto simp: unat_eq_zero)
  have "\<not> 4096 < len" using len(2) by (simp add: word_less_nat_alt)
  then have e: "mcsfs1_write (Some m) name buf len =
      fs_then (find_dirent (Some dev) name) (\<lambda>(i, ino). fs_then (read_inode (Some dev) ino) (?rest i ino))"
    using b(2) unfolding mcsfs1_write_def b(1) by (auto simp: m mcs_consts Let_def)
  show ?thesis
  proof (cases "slot_of D nm")
    case None
    then show ?thesis using missing_gives [OF f nm] f unfolding e by (fastforce simp: files1_def)
  next
    case (Some s)
    then have u: "used D s" "dname D s = nm" using slot_of_Some by blast+
    have nb: "needed ?n \<le> 8" using needed_bound [OF len(2)] by simp
    then have sub: "set [0..<needed ?n] \<subseteq> {..<8}" by auto
    note so = slot_okD [OF fs_okD(7) [OF f u(1)]]
    have l60: "length (file_inode D s) = 60"
      using inode_place_of_nat(4) [OF so(1)] fs_okD(1) [OF f] by (simp add: file_inode_def inode_at_def)
    obtain r D1 where r: "G (alloc_missing (Some dev) (file_inode D s) [0..<needed ?n]) D r D1" "grown D D1"
      "case r of Inl e \<Rightarrow> no_space N D D1 [0..<needed ?n] e | Inr b' \<Rightarrow> extended N D D1 (file_inode D s) b' [0..<needed ?n]"
      using alloc_missing_gives [OF f l60 sub block_of_slot(3) [OF f u(1)]] by blast
    note go = found_gives [where k = ?rest, OF f nm Some]
    show ?thesis
    proof (cases r)
      case (Inl e')
      then have "G (?rest s (dslot D s) (file_inode D s)) D (Inl MCSFS1_ERR_NOSPC) D1"
        unfolding write_file_body using r so(5) gives_stop by (fastforce simp: no_space_def)
      then show ?thesis
        using go grown_ok [OF f r(2)] r(3) Inl Some unfolding e by (fastforce simp: files1_def no_space_def)
    next
      case (Inr b')
      then have ex: "extended N D D1 (file_inode D s) b' [0..<needed ?n]" using r(3) by simp
      note w = written_ok [OF f u(1) r(2) ex len]
      have "G (?rest s (dslot D s) (file_inode D s)) D (Inr ()) (written D1 s b' bs ?n)"
        unfolding write_file_body using so(5)
        by simp (rule gives_then [OF r(1) [unfolded Inr]], rule write_data_gives [OF f u(1) r(2) ex len])
      then show ?thesis using go w Some u(2) unfolding e by (fastforce simp: files1_def)
    qed
  qed
qed

subsection \<open>Read\<close>

text \<open>One block copied into the buffer, byte by byte.\<close>

lemma chunk_copied:
  assumes i: "i < length buf" and sz: "sz \<le> length buf" "512 * k < sz" "k < 8"
  defines "ch \<equiv> min 512 (sz - 512 * k)"
  shows "mcsfs_memcpy buf (512 * k) src 0 ch ! i =
    (if 512 * k \<le> i \<and> i < 512 * Suc k \<and> i < sz then src ! (i mod 512) else buf ! i)"
    "512 * k \<le> i \<Longrightarrow> i < 512 * Suc k \<Longrightarrow> i div 512 = k"
proof -
  have "i mod 512 = i - 512 * k" if "512 * k \<le> i" "i < 512 * Suc k"
  proof -
    define e where "e = i - 512 * k"
    have "i = 512 * k + e" "e < 512" using that by (simp_all add: e_def)
    then show ?thesis by simp
  qed
  then show "mcsfs_memcpy buf (512 * k) src 0 ch ! i =
    (if 512 * k \<le> i \<and> i < 512 * Suc k \<and> i < sz then src ! (i mod 512) else buf ! i)"
    using i sz by (auto simp: ch_def mcsfs_memcpy_def nth_copy_loop min_def split: if_splits)
  show "512 * k \<le> i \<Longrightarrow> i < 512 * Suc k \<Longrightarrow> i div 512 = k" by simp
qed

lemma read_blocks_ok:
  assumes b: "\<forall>j < needed sz. in_direct b j \<noteq> 0 \<and> in_direct b j < N" and sz: "sz \<le> length buf" and "k \<le> 8" "ok c"
  shows "\<exists>buf' c'. read_blocks (Some dev) b buf (min sz (512 * k)) (sz - min sz (512 * k)) [k..<8] c = (Inr (), buf', c') \<and>
    ok c' \<and> blk c' = blk c \<and> length buf' = length buf \<and>
    (\<forall>i < length buf. buf' ! i = (if 512 * k \<le> i \<and> i < sz \<and> i < 4096 then blk c (in_direct b (i div 512)) ! (i mod 512) else buf ! i))"
  using assms(2-)
proof (induction "8 - k" arbitrary: k buf c)
  case 0
  then show ?case by auto
next
  case (Suc m)
  then have k: "k < 8" by simp
  show ?case
  proof (cases "512 * k < sz")
    case False
    then have "sz - min sz (512 * k) = 0" by simp
    then show ?thesis using Suc.prems(3) False upt_conv_Cons [OF k] by auto
  next
    case True
    note lt = True
    let ?d = "in_direct b k"
    let ?ch = "min 512 (sz - 512 * k)"
    let ?buf = "mcsfs_memcpy buf (512 * k) (blk c ?d) 0 ?ch"
    have "k < needed sz" using True by (auto simp: needed_def)
    then have d: "?d \<noteq> 0" "?d < N" using b by blast+
    obtain c1 where c1: "dev_read (Some dev) ?d c = (Inr (blk c ?d), c1)" "ok c1" "blk c1 = blk c"
      using read_gives [OF d(2), of "blk c"] Suc.prems(3) unfolding gives_def by blast
    have m: "min sz (512 * k) = 512 * k" "512 * k + ?ch = min sz (512 * Suc k)" "sz - 512 * k - ?ch = sz - min sz (512 * Suc k)"
      using True by auto
    have "read_blocks (Some dev) b buf (min sz (512 * k)) (sz - min sz (512 * k)) [k..<8] c =
        read_blocks (Some dev) b ?buf (min sz (512 * Suc k)) (sz - min sz (512 * Suc k)) [Suc k..<8] c1"
      unfolding m(1) m(2,3) [symmetric] upt_conv_Cons [OF k]
      using True d(1) c1(1) by (simp add: MCSFS1_BLOCK_SIZE_def Let_def min_def)
    moreover have lb: "length ?buf = length buf" by (simp add: mcsfs_memcpy_def)
    moreover have m8: "m = 8 - Suc k" and p: "sz \<le> length ?buf" "Suc k \<le> 8" using Suc.hyps(2) Suc.prems(1) k lb by simp_all
    moreover obtain buf' c' where r: "read_blocks (Some dev) b ?buf (min sz (512 * Suc k)) (sz - min sz (512 * Suc k)) [Suc k..<8] c1 = (Inr (), buf', c')"
      "ok c'" "blk c' = blk c1" "length buf' = length ?buf"
      "\<And>i. i < length ?buf \<Longrightarrow> buf' ! i = (if 512 * Suc k \<le> i \<and> i < sz \<and> i < 4096 then blk c1 (in_direct b (i div 512)) ! (i mod 512) else ?buf ! i)"
      using Suc.hyps(1) [OF m8 p c1(2)] by blast
    moreover have "buf' ! i = (if 512 * k \<le> i \<and> i < sz \<and> i < 4096 then blk c (in_direct b (i div 512)) ! (i mod 512) else buf ! i)"
      if i: "i < length buf" for i
      using r(5) [of i] chunk_copied(1) [OF i Suc.prems(1) True k, of "blk c ?d"] chunk_copied(2) [OF i Suc.prems(1) True k]
        i c1(3) k lb by auto
    ultimately show ?thesis using c1(3) by (intro exI [of _ buf'] exI [of _ c']) simp
  qed
qed

lemma content_nth:
  assumes f: "fs_ok n D" and u: "used D s"
  shows "length (content D s) = unat (in_size (file_inode D s))"
    "i < length (content D s) \<Longrightarrow> content D s ! i = D (in_direct (file_inode D s) (i div 512)) ! (i mod 512)"
proof -
  let ?n = "unat (in_size (file_inode D s))"
  have "?n \<le> 512 * needed ?n" using needed_bound [OF slot_okD(6) [OF fs_okD(7) [OF f u]]] by simp
  moreover note blocks_concat [of "needed ?n" "\<lambda>j. D (in_direct (file_inode D s) j)", OF fs_okD(1) [OF f]]
  ultimately show "length (content D s) = ?n"
    "i < length (content D s) \<Longrightarrow> content D s ! i = D (in_direct (file_inode D s) (i div 512)) ! (i mod 512)"
    by (simp_all add: content_def Let_def)
qed

lemma read_file_gives:
  assumes f: "fs_ok N (blk c)" and c: "ok c" and nm: "c_string name nm" "name_len_ok nm" and m: "mnt_dev m = Some dev"
    and cap: "unat cap \<le> length buf"
  shows "\<exists>c'. ok c' \<and> blk c' = blk c \<and> mcsfs1_read (Some m) name (Some buf) cap (Some out) c =
    (case files1 (blk c) nm of
       None \<Rightarrow> (Inl MCSFS1_ERR_NOENT, Some buf, Some out, c')
     | Some bs \<Rightarrow> if unat cap < length bs then (Inl MCSFS1_ERR_RANGE, Some buf, Some out, c')
                  else (Inr (), Some (patch 0 bs buf), Some (of_nat (length bs)), c'))"
proof (cases "slot_of (blk c) nm")
  case None
  then show ?thesis
    using missing_gives [OF f nm, of "\<lambda>(_, ino). read_inode (Some dev) ino"] c unfolding gives_def
    by (fastforce simp: files1_def mcsfs1_read_def m)
next
  case (Some s)
  let ?D = "blk c"
  let ?b = "file_inode ?D s"
  have u: "used ?D s" "dname ?D s = nm" using slot_of_Some [OF Some] by simp_all
  note so = slot_okD [OF fs_okD(7) [OF f u(1)]] and cn = content_nth [OF f u(1)]
  have ret: "fs_then m fs_return = m" for m :: "('a, bytes) fsm"
    by (auto simp: fs_then_def fs_return_def fun_eq_iff split: prod.splits sum.splits)
  obtain c1 where c1: "fs_then (find_dirent (Some dev) name) (\<lambda>(_, ino). read_inode (Some dev) ino) c = (Inr ?b, c1)"
      "ok c1" "blk c1 = ?D"
    using found_gives [OF f nm Some, of "\<lambda>_ _. fs_return" "Inr ?b" ?D] gives_return [of ok blk ?b ?D] c
    unfolding ret gives_def by blast
  let ?n = "unat (in_size ?b)"
  have files: "files1 ?D nm = Some (content ?D s)" by (rule files1_Some [OF f u])
  show ?thesis
  proof (cases "unat cap < ?n")
    case True
    then show ?thesis
      using c1 so(5) files cn(1) by (intro exI [of _ c1]) (simp add: mcsfs1_read_def m word_less_nat_alt)
  next
    case False
    have blocks: "\<forall>j < needed ?n. in_direct ?b j \<noteq> 0 \<and> in_direct ?b j < N"
    proof (intro allI impI)
      fix j assume j: "j < needed ?n"
      then have "j < 8" using needed_bound [OF so(6)] by simp
      then show "in_direct ?b j \<noteq> 0 \<and> in_direct ?b j < N" using so(7) so(8) [OF j] unfolding block_good_def by blast
    qed
    obtain buf' c' where r: "read_blocks (Some dev) ?b buf 0 ?n [0..<8] c1 = (Inr (), buf', c')" "ok c'" "blk c' = blk c1"
      "length buf' = length buf"
      "\<And>i. i < length buf \<Longrightarrow> buf' ! i = (if i < ?n \<and> i < 4096 then blk c1 (in_direct ?b (i div 512)) ! (i mod 512) else buf ! i)"
      using read_blocks_ok [where k = 0 and buf = buf and c = c1 and sz = ?n, OF blocks] False cap c1(2) by auto
    have "buf' = patch 0 (content ?D s) buf"
      using r(4,5) cn so(6) False cap c1(3) by (intro nth_equalityI) (auto simp: nth_patch)
    then show ?thesis
      using c1 so(5) files cn(1) False r
      by (intro exI [of _ c']) (simp add: mcsfs1_read_def m word_less_nat_alt MCSFS1_DIRECT_BLOCKS_def)
  qed
qed

subsection \<open>Unlink\<close>

lemma free_inode_gives:
  assumes f: "fs_ok N D"
  shows "G (free_inode_and_blocks (Some dev) ino b) (D(7 := e)) (Inr ())
    (D(7 := e, 1 := bit_clear (D 1) ino, 2 := clear_blocks N b [0..<8] (D 2)))"
proof -
  let ?D = "D(7 := e)"
  note cb = bit_test_clear_blocks [OF fs_okD(3) [OF f] fs_okD(1) [OF f, of 2], of b "[0..<8]"]
  have "G (store_bmaps (Some dev) (bit_clear (D 1) ino) (clear_blocks N b [0..<8] (D 2))) ?D (Inr ())
      (?D(1 := bit_clear (D 1) ino, 2 := clear_blocks N b [0..<8] (D 2)))"
    using cb fs_okD(1) [OF f, of 1] by (intro store_bmaps_gives fs_okD(2) [OF f]) simp_all
  then show ?thesis
    unfolding free_inode_and_blocks_def
    by (intro gives_then [OF load_bmaps_gives [OF fs_okD(2) [OF f]]]) (simp add: clear_blocks_def MCSFS1_DIRECT_BLOCKS_def)
qed

lemma unlink_gives:
  assumes f: "fs_ok N D" and nm: "c_string name nm" "name_len_ok nm" and m: "mnt_dev m = Some dev"
  shows "\<exists>r D'. G (mcsfs1_unlink (Some m) name) D r D' \<and> fs_ok N D' \<and>
    (if files1 D nm = None then r = Inl MCSFS1_ERR_NOENT \<and> D' = D
     else r = Inr () \<and> files1 D' = (files1 D)(nm := None))"
proof -
  let ?rest = "\<lambda>slot ino inode.
    fs_then (dev_read (Some dev) MCSFS1_ROOT_DIR_LBA) (\<lambda>dir_block.
    fs_then (dev_write (Some dev) MCSFS1_ROOT_DIR_LBA (mcsfs_memset dir_block (32 * slot) 0 DIRENT_BYTES)) (\<lambda>_.
    fs_then (free_inode_and_blocks (Some dev) ino inode) (\<lambda>_. dev_flush (Some dev))))"
  have e: "mcsfs1_unlink (Some m) name =
      fs_then (find_dirent (Some dev) name) (\<lambda>(i, ino). fs_then (read_inode (Some dev) ino) (?rest i ino))"
    by (simp add: mcsfs1_unlink_def m Let_def)
  show ?thesis
  proof (cases "slot_of D nm")
    case None
    then show ?thesis using missing_gives [OF f nm] f unfolding e by (fastforce simp: files1_def)
  next
    case (Some s)
    then have u: "used D s" "dname D s = nm" using slot_of_Some by blast+
    have s16: "32 * s + 32 \<le> 512" using u(1) by (simp add: used_def)
    have seven: "7 < N" using small_lba(4) fs_okD(2) [OF f] by blast
    let ?p = "patch (32 * s) (replicate 32 0) (D 7)"
    have ms: "mcsfs_memset (D 7) (32 * s) 0 DIRENT_BYTES = ?p"
      unfolding mcsfs_memset_def DIRENT_BYTES_def by (rule fill_loop_patch) (use s16 fs_okD(1) [OF f, of 7] in simp)
    have len: "length ?p = 512" using s16 fs_okD(1) [OF f, of 7] by simp
    have "G (?rest s (dslot D s) (file_inode D s)) D (Inr ()) (removed N D s)"
      unfolding MCSFS1_ROOT_DIR_LBA_def removed_def
      by (rule gives_then [OF read_gives [OF seven]], unfold ms, rule gives_then [OF write_gives [OF seven len]],
          rule gives_then [OF free_inode_gives [OF f] flush_gives])
    then show ?thesis
      using found_gives [where k = ?rest, OF f nm Some] removed_ok [OF f u(1)] u(2) Some unfolding e by (fastforce simp: files1_def)
  qed
qed

subsection \<open>Mount and check\<close>

lemma load_super_gives:
  assumes f: "fs_ok N D"
  shows "G (load_super (Some dev)) D (Inr (D 0)) D"
proof -
  have n: "\<not> N \<le> MCSFS1_DATA_START_LBA" "0 < N"
    using fs_okD(2) [OF f] by (auto simp: word_le_nat_alt word_less_nat_alt MCSFS1_DATA_START_LBA_def)
  show ?thesis
    unfolding load_super_def MCSFS1_SB_LBA_def
    by (rule gives_then [OF read_gives [OF n(2)]]) (simp add: fs_okD(4) [OF f] super_fields n(1) gives_return)
qed

lemma root_gives: "fs_ok N D \<Longrightarrow> G (read_inode (Some dev) MCSFS1_ROOT_INO) D (Inr root_image) D"
  using read_inode_gives [of 1 D] fs_okD(1,2,5) [of N D] by (simp add: is_ino_def MCSFS1_ROOT_INO_def)

lemma mount_gives:
  assumes f: "fs_ok N D"
  shows "G (mcsfs1_mount (Some m) (Some dev)) D
    (Inr (m\<lparr>mnt_dev := Some dev, mnt_block_count := N, mnt_data_start := MCSFS1_DATA_START_LBA\<rparr>)) D"
proof -
  have "sbf_block_count (D 0) = N" "sbf_data_start_lba (D 0) = MCSFS1_DATA_START_LBA"
    by (simp_all add: fs_okD(4) [OF f] super_fields)
  then show ?thesis
    unfolding mcsfs1_mount_def
    by (simp, intro gives_then [OF load_super_gives [OF f]] gives_then [OF root_gives [OF f]])
       (simp add: root_fields gives_return)
qed

lemma fsck_gives:
  assumes f: "fs_ok N D"
  shows "G (mcsfs1_fsck (Some dev)) D (Inr ()) D"
proof -
  have bits: "first_index (\<lambda>b. \<not> bit_test (D 2) (of_nat b)) 0 (unat MCSFS1_DATA_START_LBA) = None"
    using fs_okD(6) [OF f] by (auto simp: first_index_None_iff MCSFS1_DATA_START_LBA_def word_less_nat_alt unat_of_nat)
  have "first_index (\<lambda>i. de_ino (D 7) i \<noteq> 0 \<and> (MCSFS1_MAX_INODES < de_ino (D 7) i \<or> \<not> bit_test (D 1) (de_ino (D 7) i))) 0
      MCSFS1_DIRENT_COUNT = None"
    unfolding first_index_None_iff
  proof (intro allI impI notI)
    fix i assume "i < MCSFS1_DIRENT_COUNT" and
      b: "de_ino (D 7) i \<noteq> 0 \<and> (MCSFS1_MAX_INODES < de_ino (D 7) i \<or> \<not> bit_test (D 1) (de_ino (D 7) i))"
    then have "used D i" by (simp add: used_def dslot_def MCSFS1_DIRENT_COUNT_def)
    then have "slot_ok N D i" by (rule fs_okD(7) [OF f])
    then show False using b by (auto simp: slot_ok_def dslot_def MCSFS1_MAX_INODES_def)
  qed
  moreover have n: "1 < N" "2 < N" "7 < N" "\<not> N \<le> 7" using small_lba fs_okD(2) [OF f] by (auto simp: word_le_nat_alt)
  ultimately have rest: "G (fs_then (dev_read (Some dev) MCSFS1_INODE_BMAP_LBA) (\<lambda>ib.
      fs_then (dev_read (Some dev) MCSFS1_BLOCK_BMAP_LBA) (\<lambda>bb.
        if first_index (\<lambda>b. \<not> bit_test bb (of_nat b)) 0 (unat MCSFS1_DATA_START_LBA) \<noteq> None then fs_fail MCSFS1_ERR_CORRUPT
        else fs_then (dev_read (Some dev) MCSFS1_ROOT_DIR_LBA) (\<lambda>dirblk.
          if first_index (\<lambda>i. de_ino dirblk i \<noteq> 0 \<and>
                (MCSFS1_MAX_INODES < de_ino dirblk i \<or> \<not> bit_test ib (de_ino dirblk i))) 0 MCSFS1_DIRENT_COUNT \<noteq> None
          then fs_fail MCSFS1_ERR_CORRUPT else fs_return ())))) D (Inr ()) D"
    unfolding MCSFS1_INODE_BMAP_LBA_def MCSFS1_BLOCK_BMAP_LBA_def MCSFS1_ROOT_DIR_LBA_def
    by (intro gives_then [OF read_gives [OF n(1)]] gives_then [OF read_gives [OF n(2)]])
       (simp add: bits, intro gives_then [OF read_gives [OF n(3)]], simp add: gives_return)
  have "\<not> of_nat (MCSFS1_DIRECT_BLOCKS * MCSFS1_BLOCK_SIZE) < in_size root_image" "\<not> N \<le> in_direct root_image 0"
      "sbf_clean (D 0) = 1"
    using n(4) fs_okD(4) [OF f] by (simp_all add: root_fields super_fields MCSFS1_DIRECT_BLOCKS_def MCSFS1_BLOCK_SIZE_def MCSFS1_ROOT_DIR_LBA_def)
  then show ?thesis
    unfolding mcsfs1_fsck_def
    by (intro gives_then [OF load_super_gives [OF f]] gives_then [OF root_gives [OF f]])
       (simp only: root_fields rest option.sel simp_thms if_False)
qed

subsection \<open>Format\<close>

lemma zero_blocks_gives:
  "\<forall>j \<in> set js. (of_nat j :: u32) < N \<Longrightarrow> G (zero_blocks (Some dev) js) D (Inr ()) (zeroed js D)"
proof (induction js arbitrary: D)
  case Nil
  then show ?case using gives_return [of ok blk "()" D] by (simp add: zeroed_def)
next
  case (Cons j js)
  have "zeroed (j # js) D = zeroed js (D(of_nat j := replicate 512 0))" by (simp add: zeroed_def)
  moreover have "G (dev_write (Some dev) (of_nat j) (replicate 512 0)) D (Inr ()) (D(of_nat j := replicate 512 0))"
    by (rule write_gives) (use Cons.prems in simp_all)
  ultimately show ?case
    unfolding zero_blocks.simps MCSFS1_BLOCK_SIZE_def using Cons by (auto intro!: gives_then)
qed

lemma format_gives:
  assumes n: "16 \<le> N" "N \<le> 4096" and len: "\<forall>l. length (D l) = 512"
  shows "G (mcsfs1_format (Some dev)) D (Inr ()) (formatted N D)"
proof -
  let ?z = "replicate 512 0 :: bytes"
  let ?js = "[0..<unat N]"
  let ?D1 = "(zeroed ?js D)(0 := super_image N)"
  let ?D2 = "?D1(1 := fresh_ib, 2 := fresh_bb)"
  have zb: "G (zero_blocks (Some dev) ?js) D (Inr ()) (zeroed ?js D)"
  proof (rule zero_blocks_gives, intro ballI)
    fix j assume "j \<in> set ?js"
    then have j: "j < unat N" by simp
    then have "unat (of_nat j :: u32) = j" using unat_bound [of N] by (simp add: unat_of_nat)
    then show "(of_nat j :: u32) < N" using j by (simp add: word_less_nat_alt)
  qed
  have "\<forall>l. length (?D2 l) = 512" using len fresh_map_lengths by (auto simp: zeroed_at super_fields)
  then have wi: "G (write_inode (Some dev) MCSFS1_ROOT_INO root_image) ?D2 (Inr ()) (put_inode ?D2 1 root_image)"
    using write_inode_gives [of 1 ?D2 root_image] n(1) root_fields(4) by (simp add: is_ino_def MCSFS1_ROOT_INO_def)
  have "\<not> N < 16" "\<not> 4096 < N" using n by auto
  then have e: "mcsfs1_format (Some dev) =
      fs_then (zero_blocks (Some dev) ?js) (\<lambda>_.
      fs_then (dev_write (Some dev) 0 (super_image N)) (\<lambda>_.
      fs_then (store_bmaps (Some dev) fresh_ib fresh_bb) (\<lambda>_.
      fs_then (write_inode (Some dev) MCSFS1_ROOT_INO root_image) (\<lambda>_.
      fs_then (dev_write (Some dev) 7 ?z) (\<lambda>_. dev_flush (Some dev))))))"
    unfolding mcsfs1_format_def fresh_ib_def fresh_bb_def root_image_def
    by (simp add: Let_def MCSFS1_MIN_BLOCKS_def MCSFS1_BLOCK_SIZE_def MCSFS1_SB_LBA_def MCSFS1_ROOT_DIR_LBA_def)
  note sl = small_lba(1,4) [OF n(1)]
  show ?thesis
    unfolding e formatted_def
    by (intro gives_then [OF zb] gives_then [OF write_gives [OF sl(1)]] gives_then [OF store_bmaps_gives [OF n(1)]]
          gives_then [OF wi] gives_then [OF write_gives [OF sl(2)]] flush_gives)
       (simp_all add: fresh_map_lengths super_fields)
qed

subsection \<open>A name of 27 characters\<close>

lemma find_misses_long_name:
  assumes f: "fs_ok N D" and s: "s < 15" "used D (Suc s)" and nm: "c_string name nm" "length nm = 27"
    and e: "D' 7 = patch (32 * s) (entry ino nm) (D 7)"
  shows "G (find_dirent (Some dev) name) D' (Inl MCSFS1_ERR_NOENT) D'"
proof -
  have nz: "0 \<notin> set nm" using nm(1) by (simp add: c_string_def)
  have le: "length (entry ino nm) = 32" and s16: "s < 16" using nm(2) s(1) by simp_all
  have D7: "length (D' 7) = 512" using fs_okD(1) [OF f, of 7] e le s(1) by simp
  note so = slot_okD [OF fs_okD(7) [OF f s(2)]]
  have "D 7 ! (32 * Suc s) \<noteq> 0"
    using so(1) s(1) fs_okD(1) [OF f, of 7] by (intro ino_low_byte) (simp_all add: is_ino_def)
  note long = long_name_length [where behind = "bd_behind dev" and D = D and D' = D', OF fs_okD(1) [OF f] s(1) e nm(2) nz this]
  let ?p = "\<lambda>i. de_ino (D' 7) i \<noteq> 0 \<and>
    mcsfs_strlen_bound (Some (de_name_from (bd_behind dev) (D' 7) i)) (MCSFS1_MAX_NAME + 1) = 27 \<and>
    mcsfs_memcmp (de_name_from (bd_behind dev) (D' 7) i) (the name) 27 = 0"
  have "\<not> ?p i" if i: "i < 16" for i
  proof (cases "i = s")
    case True
    then show ?thesis using long by (simp add: mcsfs_strlen_bound_def MCSFS1_MAX_NAME_def)
  next
    case False
    note sp = slot_patch [where D = D and D' = D', OF fs_okD(1) [OF f] e le s16 i]
    show ?thesis
    proof
      assume p: "?p i"
      then have "used D i" using sp(1) False i by (simp add: used_def dslot_def)
      then have l26: "length (dname D' i) \<le> 26"
        using slot_okD(4) [OF fs_okD(7) [OF f]] sp(2) False by (simp add: name_fits_def)
      have "dname D' i = nm"
        using entry_matches [where behind = "bd_behind dev", OF D7 i l26 nm(1)] p nm(2) by (simp add: MCSFS1_MAX_NAME_def)
      then show False using l26 nm(2) by simp
    qed
  qed
  then have "first_index ?p 0 MCSFS1_DIRENT_COUNT = None" by (simp add: first_index_None_iff MCSFS1_DIRENT_COUNT_def)
  moreover have "7 < N" using small_lba fs_okD(2) [OF f] by blast
  moreover have "valid_name name = Inr 27" using valid_name_c [OF nm(1)] nm(2) by simp
  ultimately show ?thesis
    unfolding find_dirent_def MCSFS1_ROOT_DIR_LBA_def by (auto intro!: gives_then [OF read_gives] intro: gives_fail)
qed

lemma long_name_lost:
  assumes f: "fs_ok N D" and s: "open_slot D = Some s" "used D (Suc s)" and k: "free_inode D = Some k" and b: "free_block N D = Some b"
    and nm: "c_string name nm" "length nm = 27" and m: "mnt_dev m = Some dev"
  shows "G (mcsfs1_create (Some m) name) D (Inr ()) (created D s k b nm)"
    "G (find_dirent (Some dev) name) (created D s k b nm) (Inl MCSFS1_ERR_NOENT) (created D s k b nm)"
proof -
  obtain rest where rest: "name = Some (nm @ 0 # rest)" using nm(1) by (auto simp: c_string_def)
  have "slot_of D nm = None"
    using slot_of_Some [of D nm] slot_okD(4) [OF fs_okD(7) [OF f]] nm(2) by (cases "slot_of D nm") (fastforce simp: name_fits_def)+
  moreover have "name_len_ok nm" "length nm \<le> 27" using nm(2) by (simp_all add: name_len_ok_def)
  ultimately show "G (mcsfs1_create (Some m) name) D (Inr ()) (created D s k b nm)"
    using create_reaches_entry [OF f nm(1) _ m _ rest] create_entry_enters [OF f _ s(1) k b] by blast
  have "s < 15" using s(2) by (simp add: used_def)
  then show "G (find_dirent (Some dev) name) (created D s k b nm) (Inl MCSFS1_ERR_NOENT) (created D s k b nm)"
    by (rule find_misses_long_name [OF f _ s(2) nm, where ino = "of_nat k"]) (simp add: created_def)
qed

end

section \<open>Sequences of calls\<close>

datatype fs_call = Create bytes | Write bytes bytes | Read bytes u32 | Unlink bytes | Fsck
datatype fs_answer = Code int | Data bytes

fun code_of :: "(int + unit) \<times> 'c \<Rightarrow> fs_answer \<times> 'c" where
  "code_of (Inl e, c) = (Code e, c)"
| "code_of (Inr _, c) = (Code MCSFS1_ERR_OK, c)"

text \<open>A program that calls the file system; a read starts with a cleared buffer of the capacity it gives.\<close>

fun exec1 :: "'c mcsfs1_mount_t \<Rightarrow> fs_call \<Rightarrow> 'c \<Rightarrow> fs_answer \<times> 'c" where
  "exec1 m (Create nm) c = code_of (mcsfs1_create (Some m) (Some (nm @ [0])) c)"
| "exec1 m (Write nm bs) c = code_of (mcsfs1_write (Some m) (Some (nm @ [0])) (Some bs) (of_nat (length bs)) c)"
| "exec1 m (Read nm cap) c =
     (case mcsfs1_read (Some m) (Some (nm @ [0])) (Some (replicate (unat cap) 0)) cap (Some 0) c of
        (Inr _, Some buf, Some n, c) \<Rightarrow> (Data (take (unat n) buf), c)
      | (Inl e, _, _, c) \<Rightarrow> (Code e, c)
      | (Inr _, _, _, c) \<Rightarrow> (Code MCSFS1_ERR_OK, c))"
| "exec1 m (Unlink nm) c = code_of (mcsfs1_unlink (Some m) (Some (nm @ [0])) c)"
| "exec1 m Fsck c = code_of (mcsfs1_fsck (mnt_dev m) c)"

fun call_ok :: "fs_call \<Rightarrow> bool" where
  "call_ok (Create nm) \<longleftrightarrow> name_fits nm"
| "call_ok (Write nm bs) \<longleftrightarrow> name_fits nm \<and> length bs \<le> 4096"
| "call_ok (Read nm cap) \<longleftrightarrow> name_fits nm"
| "call_ok (Unlink nm) \<longleftrightarrow> name_fits nm"
| "call_ok Fsck \<longleftrightarrow> True"

text \<open>What a call may answer and how it changes the files. Space is the only cause for \<open>MCSFS1_ERR_NOSPC\<close>.\<close>

fun call_spec :: "u32 \<Rightarrow> fs_call \<Rightarrow> (u32 \<Rightarrow> bytes) \<Rightarrow> fs_answer \<Rightarrow> (u32 \<Rightarrow> bytes) \<Rightarrow> bool" where
  "call_spec n (Create nm) D r D' \<longleftrightarrow>
     (if files1 D nm \<noteq> None then r = Code MCSFS1_ERR_EXIST \<and> D' = D
      else if open_slot D = None \<or> free_inode D = None \<or> free_block n D = None then r = Code MCSFS1_ERR_NOSPC \<and> D' = D
      else r = Code MCSFS1_ERR_OK \<and> files1 D' = (files1 D)(nm \<mapsto> []))"
| "call_spec n (Write nm bs) D r D' \<longleftrightarrow>
     (if files1 D nm = None then r = Code MCSFS1_ERR_NOENT \<and> D' = D
      else r = Code MCSFS1_ERR_OK \<and> files1 D' = (files1 D)(nm \<mapsto> bs) \<or>
           r = Code MCSFS1_ERR_NOSPC \<and> files1 D' = files1 D \<and> free_set n D' = {} \<and> card (free_set n D) < needed (length bs))"
| "call_spec n (Read nm cap) D r D' \<longleftrightarrow>
     D' = D \<and> (case files1 D nm of None \<Rightarrow> r = Code MCSFS1_ERR_NOENT
                | Some bs \<Rightarrow> r = (if unat cap < length bs then Code MCSFS1_ERR_RANGE else Data bs))"
| "call_spec n (Unlink nm) D r D' \<longleftrightarrow>
     (if files1 D nm = None then r = Code MCSFS1_ERR_NOENT \<and> D' = D
      else r = Code MCSFS1_ERR_OK \<and> files1 D' = (files1 D)(nm := None))"
| "call_spec n Fsck D r D' \<longleftrightarrow> r = Code MCSFS1_ERR_OK \<and> D' = D"

fun follows :: "u32 \<Rightarrow> fs_call list \<Rightarrow> (u32 \<Rightarrow> bytes) \<Rightarrow> fs_answer list \<Rightarrow> (u32 \<Rightarrow> bytes) \<Rightarrow> bool" where
  "follows n [] D rs D' \<longleftrightarrow> rs = [] \<and> D' = D"
| "follows n (c # cs) D rs D' \<longleftrightarrow>
     (\<exists>r rs' D1. rs = r # rs' \<and> call_spec n c D r D1 \<and> fs_ok n D1 \<and> follows n cs D1 rs' D')"

lemma c_string_append: "name_fits nm \<Longrightarrow> c_string (Some (nm @ [0])) nm" "name_fits nm \<Longrightarrow> name_len_ok nm"
  by (auto simp: c_string_def name_fits_def name_len_ok_def)

text \<open>From a computation on the contents to the run on a device.\<close>

lemma gives_run:
  assumes "gives ok blk m (blk c) r D'" "ok c"
  obtains c' where "m c = (r, c')" "ok c'" "blk c' = D'"
  using assms unfolding gives_def by blast

context fs_device
begin

text \<open>Each call answers as specified.\<close>

lemma create_follows:
  assumes m: "mnt_dev m = Some dev" and c: "ok c" and f: "fs_ok N (blk c)" and call: "call_ok (Create nm)"
  shows "\<exists>r c'. exec1 m (Create nm) c = (r, c') \<and> ok c' \<and> fs_ok N (blk c') \<and> call_spec N (Create nm) (blk c) r (blk c')"
proof -
  have nm: "name_fits nm" using call by simp
  obtain r D' where r: "G (mcsfs1_create (Some m) (Some (nm @ [0]))) (blk c) r D'" "fs_ok N D'"
    "if files1 (blk c) nm \<noteq> None then r = Inl MCSFS1_ERR_EXIST \<and> D' = blk c
     else if open_slot (blk c) = None \<or> free_inode (blk c) = None \<or> free_block N (blk c) = None then r = Inl MCSFS1_ERR_NOSPC \<and> D' = blk c
     else r = Inr () \<and> files1 D' = (files1 (blk c))(nm \<mapsto> [])"
    using create_gives [OF f c_string_append(1) [OF nm] m nm] by blast
  obtain c' where "mcsfs1_create (Some m) (Some (nm @ [0])) c = (r, c')" "ok c'" "blk c' = D'" by (rule gives_run [OF r(1) c])
  then show ?thesis using r by (cases r) (auto split: if_splits)
qed

lemma write_follows:
  assumes m: "mnt_dev m = Some dev" and c: "ok c" and f: "fs_ok N (blk c)" and call: "call_ok (Write nm bs)"
  shows "\<exists>r c'. exec1 m (Write nm bs) c = (r, c') \<and> ok c' \<and> fs_ok N (blk c') \<and> call_spec N (Write nm bs) (blk c) r (blk c')"
proof -
  have nm: "name_fits nm" and bs: "length bs \<le> 4096" using call by simp_all
  have len: "unat (of_nat (length bs) :: u32) = length bs" using bs by (simp add: unat_of_nat)
  obtain r D' where r: "G (mcsfs1_write (Some m) (Some (nm @ [0])) (Some bs) (of_nat (length bs))) (blk c) r D'" "fs_ok N D'"
    "if files1 (blk c) nm = None then r = Inl MCSFS1_ERR_NOENT \<and> D' = blk c
     else r = Inr () \<and> files1 D' = (files1 (blk c))(nm \<mapsto> bs) \<or>
          r = Inl MCSFS1_ERR_NOSPC \<and> files1 D' = files1 (blk c) \<and> free_set N D' = {} \<and> card (free_set N (blk c)) < needed (length bs)"
    using write_file_gives [OF f c_string_append [OF nm] m, of "of_nat (length bs)" bs "Some bs"] bs
    unfolding len take_all [OF order_refl] by blast
  obtain c' where "mcsfs1_write (Some m) (Some (nm @ [0])) (Some bs) (of_nat (length bs)) c = (r, c')" "ok c'" "blk c' = D'"
    by (rule gives_run [OF r(1) c])
  then show ?thesis using r by (cases r) (auto split: if_splits)
qed

lemma read_follows:
  assumes m: "mnt_dev m = Some dev" and c: "ok c" and f: "fs_ok N (blk c)" and call: "call_ok (Read nm cap)"
  shows "\<exists>r c'. exec1 m (Read nm cap) c = (r, c') \<and> ok c' \<and> fs_ok N (blk c') \<and> call_spec N (Read nm cap) (blk c) r (blk c')"
proof -
  have nm: "name_fits nm" using call by simp
  obtain c' where c': "ok c'" "blk c' = blk c"
    and rd: "mcsfs1_read (Some m) (Some (nm @ [0])) (Some (replicate (unat cap) 0)) cap (Some 0) c =
      (case files1 (blk c) nm of
         None \<Rightarrow> (Inl MCSFS1_ERR_NOENT, Some (replicate (unat cap) 0), Some 0, c')
       | Some bs \<Rightarrow> if unat cap < length bs then (Inl MCSFS1_ERR_RANGE, Some (replicate (unat cap) 0), Some 0, c')
                    else (Inr (), Some (patch 0 bs (replicate (unat cap) 0)), Some (of_nat (length bs)), c'))"
    using read_file_gives [OF f c c_string_append [OF nm] m, of cap "replicate (unat cap) 0" 0] by auto
  have "take (unat (of_nat (length bs) :: u32)) (patch 0 bs (replicate (unat cap) 0)) = bs" if "\<not> unat cap < length bs" for bs
  proof -
    have "length bs < 2 ^ 32" using that unat_bound [of cap] by simp
    then have "unat (of_nat (length bs) :: u32) = length bs" by (simp add: unat_of_nat)
    then show ?thesis by (simp add: patch_def)
  qed
  then show ?thesis using rd c' f by (auto split: option.splits)
qed

lemma unlink_follows:
  assumes m: "mnt_dev m = Some dev" and c: "ok c" and f: "fs_ok N (blk c)" and call: "call_ok (Unlink nm)"
  shows "\<exists>r c'. exec1 m (Unlink nm) c = (r, c') \<and> ok c' \<and> fs_ok N (blk c') \<and> call_spec N (Unlink nm) (blk c) r (blk c')"
proof -
  have nm: "name_fits nm" using call by simp
  obtain r D' where r: "G (mcsfs1_unlink (Some m) (Some (nm @ [0]))) (blk c) r D'" "fs_ok N D'"
    "if files1 (blk c) nm = None then r = Inl MCSFS1_ERR_NOENT \<and> D' = blk c
     else r = Inr () \<and> files1 D' = (files1 (blk c))(nm := None)"
    using unlink_gives [OF f c_string_append [OF nm] m] by blast
  obtain c' where "mcsfs1_unlink (Some m) (Some (nm @ [0])) c = (r, c')" "ok c'" "blk c' = D'" by (rule gives_run [OF r(1) c])
  then show ?thesis using r by (cases r) (auto split: if_splits)
qed

lemma exec1_follows:
  assumes m: "mnt_dev m = Some dev" and c: "ok c" and f: "fs_ok N (blk c)" and call: "call_ok call"
  shows "\<exists>r c'. exec1 m call c = (r, c') \<and> ok c' \<and> fs_ok N (blk c') \<and> call_spec N call (blk c) r (blk c')"
proof (cases call)
  case Fsck
  obtain c' where "mcsfs1_fsck (Some dev) c = (Inr (), c')" "ok c'" "blk c' = blk c" by (rule gives_run [OF fsck_gives [OF f] c])
  then show ?thesis using Fsck f m by auto
qed (use create_follows [OF m c f] write_follows [OF m c f] read_follows [OF m c f] unlink_follows [OF m c f] call in \<open>simp_all only:\<close>)

lemma run_follows:
  assumes "mnt_dev m = Some dev" "ok c" "fs_ok N (blk c)" "\<forall>call \<in> set calls. call_ok call"
  shows "ok (snd (run_calls (exec1 m) calls c)) \<and> fs_ok N (blk (snd (run_calls (exec1 m) calls c))) \<and>
    follows N calls (blk c) (fst (run_calls (exec1 m) calls c)) (blk (snd (run_calls (exec1 m) calls c)))"
  using assms(2-)
proof (induction calls arbitrary: c)
  case (Cons call calls)
  obtain r c' where "exec1 m call c = (r, c')" "ok c'" "fs_ok N (blk c')" "call_spec N call (blk c) r (blk c')"
    using exec1_follows [OF assms(1) Cons.prems(1,2), of call] Cons.prems(3) by fastforce
  then show ?case using Cons.IH [of c'] Cons.prems(3) by (auto simp: split_beta Let_def)
qed simp

end

end
