(* ===== verification/Mcsfs1_Disk.thy ===== *)
theory Mcsfs1_Disk
  imports Mcsfs1_Files
begin

text \<open>
  MCSFS1 on devices: the RAM disk of \<open>tests/m15/test_mcsfs1.c\<close> meets the contract of a device, and the properties of
  \<open>fs/mcsfs1/mcsfs1.c\<close> on any device that does.
\<close>

section \<open>The RAM disk of the host test\<close>

text \<open>\<open>tests/m15/test_mcsfs1.c\<close> runs the file system on an array of 128 blocks.\<close>

definition RAMBLK_BLOCKS :: u32 where "RAMBLK_BLOCKS = 128"

record m15_disk =
  disk :: "bytes list"
  flush_count :: u32

definition ram_read :: "m15_disk \<Rightarrow> u32 \<Rightarrow> int \<times> bytes \<times> m15_disk" where
  "ram_read w lba = (if RAMBLK_BLOCKS \<le> lba then (- 1, [], w) else (0, disk w ! unat lba, w))"

definition ram_write :: "m15_disk \<Rightarrow> u32 \<Rightarrow> bytes \<Rightarrow> int \<times> m15_disk" where
  "ram_write w lba buf512 =
     (if RAMBLK_BLOCKS \<le> lba then (- 1, w) else (0, w\<lparr>disk := (disk w)[unat lba := take 512 buf512]\<rparr>))"

definition ram_flush :: "m15_disk \<Rightarrow> int \<times> m15_disk" where
  "ram_flush w = (0, w\<lparr>flush_count := flush_count w + 1\<rparr>)"

definition m15_dev :: "u8 \<Rightarrow> m15_disk mcsfs1_blkdev" where
  "m15_dev behind =
     \<lparr>bd_block_count = RAMBLK_BLOCKS, bd_read = Some ram_read, bd_write = Some ram_write, bd_flush = Some ram_flush,
      bd_behind = behind\<rparr>"

definition m15_ok :: "m15_disk \<Rightarrow> bool" where
  "m15_ok w \<longleftrightarrow> length (disk w) = 128 \<and> (\<forall>b \<in> set (disk w). length b = 512)"

definition m15_blk :: "m15_disk \<Rightarrow> u32 \<Rightarrow> bytes" where
  "m15_blk w lba = (if lba < 128 then disk w ! unat lba else replicate 512 0)"

definition m15_of :: "(u32 \<Rightarrow> bytes) \<Rightarrow> m15_disk" where
  "m15_of D = \<lparr>disk = map (\<lambda>i. D (of_nat i)) [0..<128], flush_count = 0\<rparr>"

interpretation m15: fs_device "m15_dev behind" m15_ok m15_blk ram_read ram_write ram_flush for behind
proof
  show "bd_read (m15_dev behind) = Some ram_read" "bd_write (m15_dev behind) = Some ram_write" "bd_flush (m15_dev behind) = Some ram_flush"
    by (simp_all add: m15_dev_def)
  fix c :: m15_disk and lba :: u32 and b :: bytes
  assume c: "m15_ok c"
  show "\<exists>c'. ram_flush c = (0, c') \<and> m15_ok c' \<and> m15_blk c' = m15_blk c"
    using c by (auto simp: ram_flush_def m15_ok_def m15_blk_def fun_eq_iff)
  show "length (m15_blk c lba) = 512" using c by (auto simp: m15_ok_def m15_blk_def word_less_nat_alt)
  assume "lba < bd_block_count (m15_dev behind)"
  then have lba: "lba < 128" by (simp add: m15_dev_def RAMBLK_BLOCKS_def)
  then have "\<not> 128 \<le> lba" by simp
  then show "\<exists>c'. ram_read c lba = (0, m15_blk c lba, c') \<and> m15_ok c' \<and> m15_blk c' = m15_blk c"
    using c lba by (simp add: ram_read_def m15_blk_def RAMBLK_BLOCKS_def)
  assume b: "length b = 512"
  have "m15_ok (c\<lparr>disk := (disk c)[unat lba := b]\<rparr>)"
    using c b by (auto simp: m15_ok_def dest!: set_update_subset_insert [THEN subsetD])
  moreover have "m15_blk (c\<lparr>disk := (disk c)[unat lba := b]\<rparr>) = (m15_blk c)(lba := b)"
  proof
    fix l
    have "unat l = unat lba \<longleftrightarrow> l = lba" by (simp add: word_unat_eq_iff)
    then show "m15_blk (c\<lparr>disk := (disk c)[unat lba := b]\<rparr>) l = ((m15_blk c)(lba := b)) l"
      using c lba by (auto simp: m15_blk_def m15_ok_def nth_list_update word_less_nat_alt)
  qed
  ultimately show "\<exists>c'. ram_write c lba b = (0, c') \<and> m15_ok c' \<and> m15_blk c' = (m15_blk c)(lba := b)"
    using \<open>\<not> 128 \<le> lba\<close> b by (simp add: ram_write_def RAMBLK_BLOCKS_def)
qed

lemma m15_count [simp]: "bd_block_count (m15_dev behind) = 128"
  by (simp add: m15_dev_def RAMBLK_BLOCKS_def)

subsection \<open>Disks for examples\<close>

lemma m15_of_view:
  assumes "\<forall>l. length (D l) = 512" "\<And>l. \<not> l < 128 \<Longrightarrow> D l = replicate 512 0"
  shows "m15_ok (m15_of D)" "m15_blk (m15_of D) = D"
proof -
  show "m15_ok (m15_of D)" using assms(1) by (auto simp: m15_ok_def m15_of_def)
  show "m15_blk (m15_of D) = D"
    using assms(2) by (auto simp: m15_blk_def m15_of_def fun_eq_iff word_less_nat_alt)
qed

definition fresh_disk :: "u32 \<Rightarrow> bytes" where
  "fresh_disk = formatted 128 (\<lambda>_. replicate 512 0)"

definition one_file_disk :: "u32 \<Rightarrow> bytes" where
  "one_file_disk = created fresh_disk 1 2 8 [98]"

lemma fresh_disk_ok: "fs_ok 128 fresh_disk" "files1 fresh_disk = Map.empty" "\<not> l < 128 \<Longrightarrow> fresh_disk l = replicate 512 0"
proof -
  show "fs_ok 128 fresh_disk" "files1 fresh_disk = Map.empty"
    unfolding fresh_disk_def by (rule formatted_ok; simp)+
  assume l: "\<not> l < 128"
  then have "l \<noteq> 0" "l \<noteq> 1" "l \<noteq> 2" "l \<noteq> 7" "l < 3 \<or> 7 \<le> l" by (auto simp: word_le_nat_alt word_less_nat_alt)
  then show "fresh_disk l = replicate 512 0"
    using put_inode_other [of 1 l] by (simp add: fresh_disk_def formatted_def zeroed_at is_ino_def)
qed

lemma fresh_bits:
  assumes "unat x < 4096"
  shows "2 \<le> x \<Longrightarrow> \<not> bit_test (fresh_disk 1) x" "8 \<le> x \<Longrightarrow> \<not> bit_test (fresh_disk 2) x" "dslot fresh_disk i = 0"
proof -
  have z: "\<not> bit_test (replicate 512 0) x" using assms by (simp add: bit_test_def unat_div)
  have "fresh_disk 1 = fresh_ib" "fresh_disk 2 = fresh_bb" "fresh_disk 7 = replicate 512 0"
    using put_inode_other [of 1 1] put_inode_other [of 1 2] by (simp_all add: fresh_disk_def formatted_def is_ino_def)
  then show "2 \<le> x \<Longrightarrow> \<not> bit_test (fresh_disk 1) x" "8 \<le> x \<Longrightarrow> \<not> bit_test (fresh_disk 2) x" "dslot fresh_disk i = 0"
    using z set_bits [of "replicate 512 0" "[0..<8]"]
    by (auto simp: fresh_ib_def fresh_bb_def MCSFS1_BLOCK_SIZE_def MCSFS1_ROOT_INO_def MCSFS1_ROOT_DIR_LBA_def
        MCSFS1_DATA_START_LBA_def bit_test_set dslot_def de_ino_def rd32_def slice_def word_le_nat_alt unat_of_nat)
qed

lemma fresh_free: "free_inode fresh_disk = Some 2" "free_block 128 fresh_disk = Some 8"
  using fresh_bits(1) [of 2] fresh_bits(2) [of 8] by (simp_all add: free_inode_def free_block_def first_index_Some_iff)

lemma one_file_ok: "fs_ok 128 one_file_disk" "files1 one_file_disk = [[98] \<mapsto> []]"
  "\<not> l < 128 \<Longrightarrow> one_file_disk l = replicate 512 0"
proof -
  have nm: "name_fits [98]" by (simp add: name_fits_def)
  have new: "slot_of fresh_disk [98] = None" using fresh_disk_ok(2) by (simp add: files1_def fun_eq_iff)
  note c = created_ok [OF fresh_disk_ok(1) _ fresh_bits(3) fresh_free nm new, of 1 0]
  show "fs_ok 128 one_file_disk" "files1 one_file_disk = [[98] \<mapsto> []]"
    using c by (simp_all add: one_file_disk_def fresh_disk_ok(2))
  assume l: "\<not> l < 128"
  then have "8 \<le> l" by (auto simp: word_le_nat_alt word_less_nat_alt)
  then show "one_file_disk l = replicate 512 0"
    using created_view(2) [OF fresh_disk_ok(1) _ fresh_free nm, of 1 l] fresh_disk_ok(3) [OF l] by (simp add: one_file_disk_def)
qed

lemma fresh_device: "m15_ok (m15_of fresh_disk)" "m15_blk (m15_of fresh_disk) = fresh_disk"
  by (rule m15_of_view; simp add: fs_okD(1) [OF fresh_disk_ok(1)] fresh_disk_ok(3))+

lemma one_file_device: "m15_ok (m15_of one_file_disk)" "m15_blk (m15_of one_file_disk) = one_file_disk"
  by (rule m15_of_view; simp add: fs_okD(1) [OF one_file_ok(1)] one_file_ok(3))+

lemma one_file_view:
  "open_slot one_file_disk = Some 0" "used one_file_disk 1" "free_inode one_file_disk = Some 3" "free_block 128 one_file_disk = Some 9"
proof -
  have nm: "name_fits [98]" by (simp add: name_fits_def)
  note v = created_view [OF fresh_disk_ok(1) _ fresh_free nm, of 1, folded one_file_disk_def]
  show "open_slot one_file_disk = Some 0" "used one_file_disk 1"
    using v(6) [of 0] v(6) [of 1] fresh_bits(3) [of 0] by (simp_all add: open_slot_def first_index_Some_iff used_def)
  have "\<not> bit_test (one_file_disk 1) 3" "bit_test (one_file_disk 1) 2" using v(4) [of 3] v(4) [of 2] fresh_bits(1) [of 3] by simp_all
  moreover have "\<not> bit_test (one_file_disk 2) 9" "bit_test (one_file_disk 2) 8" using v(5) [of 9] v(5) [of 8] fresh_bits(2) [of 9] by simp_all
  moreover have "j = 2 \<or> 3 \<le> j" if "2 \<le> j" for j :: nat using that by auto
  moreover have "j = 8 \<or> 9 \<le> j" if "8 \<le> j" for j :: nat using that by auto
  ultimately show "free_inode one_file_disk = Some 3" "free_block 128 one_file_disk = Some 9"
    by (auto simp: free_inode_def free_block_def first_index_Some_iff)
      (metis not_less of_nat_numeral)+
qed

section \<open>Properties\<close>

text \<open>C7: On any device that keeps what is written to it, a program that starts on a consistent MCSFS1 file system and calls
  create, write, read, unlink and fsck in any order, with names of 1 to 26 characters and up to 4096 bytes per write,
  sees a map from names to contents. Every answer is the one the map prescribes: a missing, existing or too big file
  gives its error and changes nothing, and a write or create fails with no space only when the device has too few free
  blocks, inodes or directory slots, leaving the files as they were. The file system stays consistent throughout.\<close>

theorem mcsfs1_calls_follow_files:
  assumes "fs_device dev ok blk rd wr fl" "mnt_dev m = Some dev" "ok c" "fs_ok (bd_block_count dev) (blk c)"
    and "\<forall>call \<in> set calls. call_ok call"
  shows "ok (snd (run_calls (exec1 m) calls c)) \<and> fs_ok (bd_block_count dev) (blk (snd (run_calls (exec1 m) calls c))) \<and>
    follows (bd_block_count dev) calls (blk c) (fst (run_calls (exec1 m) calls c)) (blk (snd (run_calls (exec1 m) calls c)))"
  by (rule fs_device.run_follows [OF assms])

theorem mcsfs1_calls_follow_files_witness:
  "follows 128 [Create [97], Write [97] [1, 2], Read [97] 10, Create [97], Unlink [97], Fsck] fresh_disk
     (fst (run_calls (exec1 \<lparr>mnt_dev = Some (m15_dev 0), mnt_block_count = 128, mnt_data_start = 8\<rparr>)
        [Create [97], Write [97] [1, 2], Read [97] 10, Create [97], Unlink [97], Fsck] (m15_of fresh_disk)))
     (m15_blk (snd (run_calls (exec1 \<lparr>mnt_dev = Some (m15_dev 0), mnt_block_count = 128, mnt_data_start = 8\<rparr>)
        [Create [97], Write [97] [1, 2], Read [97] 10, Create [97], Unlink [97], Fsck] (m15_of fresh_disk))))"
proof -
  note v = fresh_device
  let ?m = "\<lparr>mnt_dev = Some (m15_dev 0), mnt_block_count = 128, mnt_data_start = 8\<rparr> :: m15_disk mcsfs1_mount_t"
  let ?calls = "[Create [97], Write [97] [1, 2], Read [97] 10, Create [97], Unlink [97], Fsck]"
  have m: "mnt_dev ?m = Some (m15_dev 0)" by simp
  have f: "fs_ok (bd_block_count (m15_dev 0)) (m15_blk (m15_of fresh_disk))" using v(2) fresh_disk_ok(1) by simp
  have ok: "\<forall>call \<in> set ?calls. call_ok call" by (simp add: name_fits_def)
  from mcsfs1_calls_follow_files [OF m15.fs_device_axioms m v(1) f ok, THEN conjunct2, THEN conjunct2]
  show ?thesis unfolding v(2) m15_count .
qed

text \<open>C30: Formatting any device of 16 to 4096 blocks, whatever it held before, succeeds and leaves a consistent file system
  without files; mounting it fills the mount record with the device and its sizes, and the check accepts it.\<close>

theorem mcsfs1_format_mount:
  assumes "fs_device dev ok blk rd wr fl" "ok c" "16 \<le> bd_block_count dev" "bd_block_count dev \<le> 4096"
  shows "\<exists>c1 c2 c3. mcsfs1_format (Some dev) c = (Inr (), c1) \<and> fs_ok (bd_block_count dev) (blk c1) \<and> files1 (blk c1) = Map.empty \<and>
    mcsfs1_mount (Some m) (Some dev) c1 =
      (Inr (m\<lparr>mnt_dev := Some dev, mnt_block_count := bd_block_count dev, mnt_data_start := 8\<rparr>), c2) \<and>
    mcsfs1_fsck (Some dev) c2 = (Inr (), c3) \<and> ok c3 \<and> blk c3 = blk c1"
proof -
  have len: "\<forall>l. length (blk c l) = 512" using fs_device.blk_length [OF assms(1,2)] by blast
  let ?D = "formatted (bd_block_count dev) (blk c)"
  note f = formatted_ok [OF assms(3,4) len]
  obtain c1 where c1: "mcsfs1_format (Some dev) c = (Inr (), c1)" "ok c1" "blk c1 = ?D"
    by (rule gives_run [OF fs_device.format_gives [OF assms(1,3,4) len] assms(2)])
  have f1: "fs_ok (bd_block_count dev) (blk c1)" using f(1) c1(3) by simp
  obtain c2 where c2: "mcsfs1_mount (Some m) (Some dev) c1 =
      (Inr (m\<lparr>mnt_dev := Some dev, mnt_block_count := bd_block_count dev, mnt_data_start := MCSFS1_DATA_START_LBA\<rparr>), c2)"
      "ok c2" "blk c2 = blk c1"
    by (rule gives_run [OF fs_device.mount_gives [OF assms(1) f1] c1(2)])
  have f2: "fs_ok (bd_block_count dev) (blk c2)" using f1 c2(3) by simp
  obtain c3 where "mcsfs1_fsck (Some dev) c2 = (Inr (), c3)" "ok c3" "blk c3 = blk c2"
    by (rule gives_run [OF fs_device.fsck_gives [OF assms(1) f2] c2(2)])
  then show ?thesis using c1 c2 f1 f(2) by (simp add: MCSFS1_DATA_START_LBA_def)
qed

theorem mcsfs1_format_mount_witness:
  "\<exists>c1. mcsfs1_format (Some (m15_dev 0)) (m15_of (\<lambda>_. replicate 512 7)) = (Inr (), c1) \<and> files1 (m15_blk c1) = Map.empty"
proof -
  have "m15_ok (m15_of (\<lambda>_. replicate 512 7))" by (simp add: m15_ok_def m15_of_def)
  then show ?thesis using mcsfs1_format_mount [OF m15.fs_device_axioms [of 0]] by auto
qed

text \<open>C8: What is written to an existing file is read back. On a consistent file system with at least as many free blocks as
  the data needs, the write succeeds, every other file keeps its contents, and a read into any buffer with room returns
  the data at the start of the buffer, leaves the rest of it alone, and reports the length.\<close>

theorem mcsfs1_write_read:
  assumes "fs_device dev ok blk rd wr fl" "mnt_dev m = Some dev" "ok c" "fs_ok (bd_block_count dev) (blk c)"
    and "name_fits nm" "files1 (blk c) nm \<noteq> None" "length bs \<le> 4096"
    and "needed (length bs) \<le> card (free_set (bd_block_count dev) (blk c))" "length bs \<le> unat cap" "unat cap \<le> length buf"
  shows "\<exists>c1 c2. mcsfs1_write (Some m) (Some (nm @ [0])) (Some bs) (of_nat (length bs)) c = (Inr (), c1) \<and>
    files1 (blk c1) = (files1 (blk c))(nm \<mapsto> bs) \<and>
    mcsfs1_read (Some m) (Some (nm @ [0])) (Some buf) cap (Some out) c1 =
      (Inr (), Some (bs @ drop (length bs) buf), Some (of_nat (length bs)), c2)"
proof -
  have len: "unat (of_nat (length bs) :: u32) = length bs" using assms(7) by (simp add: unat_of_nat)
  note cs = c_string_append [OF assms(5)]
  obtain r D' where r: "gives ok blk (mcsfs1_write (Some m) (Some (nm @ [0])) (Some bs) (of_nat (length bs))) (blk c) r D'"
    "fs_ok (bd_block_count dev) D'" "r = Inr () \<and> files1 D' = (files1 (blk c))(nm \<mapsto> bs)"
    using fs_device.write_file_gives [OF assms(1,4) cs assms(2), of "of_nat (length bs)" bs "Some bs"] assms(6-8)
    unfolding len take_all [OF order_refl] by force
  obtain c1 where c1: "mcsfs1_write (Some m) (Some (nm @ [0])) (Some bs) (of_nat (length bs)) c = (r, c1)" "ok c1" "blk c1 = D'"
    by (rule gives_run [OF r(1) assms(3)])
  have f1: "fs_ok (bd_block_count dev) (blk c1)" using r(2) c1(3) by simp
  from fs_device.read_file_gives [OF assms(1) f1 c1(2) cs assms(2,10), of out]
  show ?thesis using c1 r(3) assms(9) by (auto simp: patch_def)
qed

theorem mcsfs1_write_read_witness:
  "\<exists>c1 c2. mcsfs1_write (Some \<lparr>mnt_dev = Some (m15_dev 0), mnt_block_count = 128, mnt_data_start = 8\<rparr>) (Some [98, 0])
     (Some [1, 2, 3]) 3 (m15_of one_file_disk) = (Inr (), c1) \<and>
   mcsfs1_read (Some \<lparr>mnt_dev = Some (m15_dev 0), mnt_block_count = 128, mnt_data_start = 8\<rparr>) (Some [98, 0])
     (Some [9, 9, 9, 9, 9]) 5 (Some 0) c1 = (Inr (), Some [1, 2, 3, 9, 9], Some 3, c2)"
proof -
  note v = one_file_device
  have "9 \<in> free_set 128 one_file_disk" using free_blockD [OF one_file_view(4)] by (simp add: free_set_def)
  then have "needed 3 \<le> card (free_set 128 one_file_disk)"
    using card_gt_0_iff [of "free_set 128 one_file_disk"] by (auto simp: needed_def Suc_le_eq)
  then have need: "needed (length [1, 2, 3 :: u8]) \<le> card (free_set (bd_block_count (m15_dev 0)) (m15_blk (m15_of one_file_disk)))"
    using v(2) by (simp add: numeral_3_eq_3)
  let ?m = "\<lparr>mnt_dev = Some (m15_dev 0), mnt_block_count = 128, mnt_data_start = 8\<rparr> :: m15_disk mcsfs1_mount_t"
  have m: "mnt_dev ?m = Some (m15_dev 0)" by simp
  have f: "fs_ok (bd_block_count (m15_dev 0)) (m15_blk (m15_of one_file_disk))" using v(2) one_file_ok(1) by simp
  have nm: "name_fits [98]" "files1 (m15_blk (m15_of one_file_disk)) [98] \<noteq> None" using v(2) one_file_ok(2) by (simp_all add: name_fits_def)
  from mcsfs1_write_read [OF m15.fs_device_axioms m v(1) f nm _ need, of 5 "[9, 9, 9, 9, 9]" 0]
  show ?thesis by auto
qed

text \<open>C31: A file with a name of 27 characters, the longest that create accepts, can be lost at once. If the first free
  directory slot is followed by a slot in use, create succeeds, and a read of the same name then answers that there is
  no such file: the comparison takes the length of the stored name with a bound of 28 and runs into the inode number of
  the next entry.\<close>

theorem mcsfs1_long_name_lost:
  assumes "fs_device dev ok blk rd wr fl" "mnt_dev m = Some dev" "ok c" "fs_ok (bd_block_count dev) (blk c)"
    and "open_slot (blk c) = Some s" "used (blk c) (Suc s)" "free_inode (blk c) \<noteq> None" "free_block (bd_block_count dev) (blk c) \<noteq> None"
    and "length nm = 27" "0 \<notin> set nm"
  shows "\<exists>c1 c2. mcsfs1_create (Some m) (Some (nm @ [0])) c = (Inr (), c1) \<and>
    mcsfs1_read (Some m) (Some (nm @ [0])) (Some buf) cap (Some out) c1 = (Inl MCSFS1_ERR_NOENT, Some buf, Some out, c2)"
proof -
  obtain k b where k: "free_inode (blk c) = Some k" and b: "free_block (bd_block_count dev) (blk c) = Some b" using assms(7,8) by blast
  have nm: "c_string (Some (nm @ [0])) nm" using assms(10) by (simp add: c_string_def)
  note l = fs_device.long_name_lost [OF assms(1,4,5,6) k b nm assms(9,2)]
  obtain c1 where c1: "mcsfs1_create (Some m) (Some (nm @ [0])) c = (Inr (), c1)" "ok c1" "blk c1 = created (blk c) s k b nm"
    by (rule gives_run [OF l(1) assms(3)])
  have "gives ok blk (fs_then (find_dirent (Some dev) (Some (nm @ [0]))) (\<lambda>(_, ino). read_inode (Some dev) ino)) (blk c1)
      (Inl MCSFS1_ERR_NOENT) (blk c1)"
    unfolding c1(3) by (rule gives_stop [OF l(2)])
  then obtain c2 where "fs_then (find_dirent (Some dev) (Some (nm @ [0]))) (\<lambda>(_, ino). read_inode (Some dev) ino) c1 = (Inl MCSFS1_ERR_NOENT, c2)"
    using c1(2) by (rule gives_run)
  then show ?thesis using c1(1) assms(2) by (simp add: mcsfs1_read_def)
qed

theorem mcsfs1_long_name_lost_witness:
  "\<exists>c1 c2. mcsfs1_create (Some \<lparr>mnt_dev = Some (m15_dev 0), mnt_block_count = 128, mnt_data_start = 8\<rparr>) (Some (replicate 27 97 @ [0]))
     (m15_of one_file_disk) = (Inr (), c1) \<and>
   mcsfs1_read (Some \<lparr>mnt_dev = Some (m15_dev 0), mnt_block_count = 128, mnt_data_start = 8\<rparr>) (Some (replicate 27 97 @ [0]))
     (Some [0]) 1 (Some 0) c1 = (Inl MCSFS1_ERR_NOENT, Some [0], Some 0, c2)"
proof -
  note v = one_file_device
  show ?thesis
    by (rule mcsfs1_long_name_lost [OF m15.fs_device_axioms [of 0] _ v(1), where s = 0])
       (use v(2) one_file_ok(1) one_file_view in simp_all)
qed

text \<open>Create, write, read and unlink refuse a name that is empty or longer than 27 characters with the same error, and a
  write of more than 4096 bytes, each before the device is touched.\<close>

theorem mcsfs1_refuses_names:
  assumes "mnt_dev m = Some dev" "c_string name nm" "length nm = 0 \<or> 27 < length nm"
  shows "mcsfs1_create (Some m) name c = (Inl MCSFS1_ERR_NAMETOOLONG, c) \<and>
    mcsfs1_unlink (Some m) name c = (Inl MCSFS1_ERR_NAMETOOLONG, c) \<and>
    mcsfs1_read (Some m) name (Some buf) cap (Some out) c = (Inl MCSFS1_ERR_NAMETOOLONG, Some buf, Some out, c) \<and>
    mcsfs1_write (Some m) name (Some bs) len c = (Inl (if 4096 < len then MCSFS1_ERR_RANGE else MCSFS1_ERR_NAMETOOLONG), c)"
proof -
  have v: "valid_name name = Inl MCSFS1_ERR_NAMETOOLONG" using valid_name_c [OF assms(2)] assms(3) by auto
  then have "find_dirent (Some dev) name c = (Inl MCSFS1_ERR_NAMETOOLONG, c)" by (simp add: find_dirent_def fs_fail_def)
  then show ?thesis
    using v assms(1)
    by (simp add: mcsfs1_create_def mcsfs1_unlink_def mcsfs1_read_def mcsfs1_write_def fs_then_def fs_fail_def Let_def
        MCSFS1_DIRECT_BLOCKS_def MCSFS1_BLOCK_SIZE_def)
qed

theorem mcsfs1_refuses_names_witness:
  "mcsfs1_create (Some \<lparr>mnt_dev = Some (m15_dev 0), mnt_block_count = 128, mnt_data_start = 8\<rparr>) (Some (replicate 32 97 @ [0]))
     (m15_of fresh_disk) = (Inl MCSFS1_ERR_NAMETOOLONG, m15_of fresh_disk)"
  using mcsfs1_refuses_names [of "\<lparr>mnt_dev = Some (m15_dev 0), mnt_block_count = 128, mnt_data_start = 8\<rparr>" "m15_dev 0"
      "Some (replicate 32 97 @ [0])" "replicate 32 97"]
  by (simp add: c_string_def)

end
