(* ===== verification/Pmm.thy ===== *)
theory Pmm
  imports MCS_Prelude
begin

text \<open>
  \<open>kernel/core/pmm.c\<close> (the copy \<open>src/pmm.c\<close> is the same code for the host test): the physical frame
  allocator, a bitmap with one bit per 4 KiB frame, set for a frame in use, and a hint where the
  next search starts. Shown: the bitmap, the counters and the hint stay consistent under every
  operation; allocation is total and hands out the lowest free frame; freeing is its inverse; boot
  marks exactly the frames the memory map allows; and two wrap-around cases of the range
  arithmetic in which it does not.
\<close>

section \<open>Data\<close>

definition PMM_PAGE_SIZE :: u64 where
  [mcs_consts]: "PMM_PAGE_SIZE = 4096"

definition PMM_INVALID_FRAME :: u64 where
  [mcs_consts]: "PMM_INVALID_FRAME = 0xffffffffffffffff"

definition UINT64_MAX :: u64 where
  [mcs_consts]: "UINT64_MAX = 0xffffffffffffffff"




text \<open>The bitmap pointer of the C state always designates the storage given to \<open>pmm_init_from_map\<close>,
  so the model keeps the storage itself; NULL is the empty list.\<close>

record pmm_state =
  bitmap :: bytes
  bitmap_bytes :: u64
  max_phys :: u64
  frame_count :: u64
  free_frames :: u64
  used_frames :: u64
  reserved_frames :: u64
  ignored_frames :: u64
  next_hint :: u64
  initialized :: bool

section \<open>Operations\<close>

definition align_down :: "u64 \<Rightarrow> u64 \<Rightarrow> u64" where
  "align_down value align = value AND NOT (align - 1)"

definition align_up :: "u64 \<Rightarrow> u64 \<Rightarrow> u64" where
  "align_up value align = (value + align - 1) AND NOT (align - 1)"

definition checked_add_u64 :: "u64 \<Rightarrow> u64 \<Rightarrow> u64 option" where
  "checked_add_u64 a b = (if UINT64_MAX - a < b then None else Some (a + b))"

definition bit_mask8 :: "u64 \<Rightarrow> u8" where
  "bit_mask8 index = push_bit (unat (index AND 7)) 1"

definition bitmap_set :: "bytes \<Rightarrow> u64 \<Rightarrow> bytes" where
  "bitmap_set bm index =
     (let k = unat (drop_bit 3 index) in bm[k := (bm ! k) OR bit_mask8 index])"

definition bitmap_clear :: "bytes \<Rightarrow> u64 \<Rightarrow> bytes" where
  "bitmap_clear bm index =
     (let k = unat (drop_bit 3 index) in bm[k := (bm ! k) AND NOT (bit_mask8 index)])"

definition bitmap_test :: "bytes \<Rightarrow> u64 \<Rightarrow> bool" where
  "bitmap_test bm index = ((bm ! unat (drop_bit 3 index)) AND bit_mask8 index \<noteq> 0)"

definition mark_frame_free :: "pmm_state \<Rightarrow> u64 \<Rightarrow> pmm_state" where
  "mark_frame_free p frame =
     (if frame_count p \<le> frame then p
      else if bitmap_test (bitmap p) frame then
        p\<lparr>bitmap := bitmap_clear (bitmap p) frame,
          free_frames := free_frames p + 1,
          used_frames := (if 0 < used_frames p then used_frames p - 1 else used_frames p),
          next_hint := (if frame < next_hint p then frame else next_hint p)\<rparr>
      else p)"

definition mark_frame_used :: "pmm_state \<Rightarrow> u64 \<Rightarrow> pmm_state" where
  "mark_frame_used p frame =
     (if frame_count p \<le> frame then p
      else if \<not> bitmap_test (bitmap p) frame then
        p\<lparr>bitmap := bitmap_set (bitmap p) frame,
          free_frames := (if 0 < free_frames p then free_frames p - 1 else free_frames p),
          used_frames := used_frames p + 1\<rparr>
      else p)"

text \<open>\<open>for (addr = start; addr < stop; addr += PMM_PAGE_SIZE) f(addr / PMM_PAGE_SIZE)\<close>. Both bounds are
  page aligned and \<open>stop\<close> is at most \<open>max_phys\<close>, so the C counter does not wrap and natural numbers serve.\<close>

function for_pages :: "(u64 \<Rightarrow> 's \<Rightarrow> 's) \<Rightarrow> nat \<Rightarrow> nat \<Rightarrow> 's \<Rightarrow> 's" where
  "for_pages f addr stop s =
     (if addr < stop then for_pages f (addr + 4096) stop (f (of_nat (addr div 4096)) s) else s)"
  by pat_completeness auto
termination
  by (relation "measure (\<lambda>(f, addr, stop, s). stop - addr)") auto


definition mark_used_counting :: "u64 \<Rightarrow> pmm_state \<Rightarrow> pmm_state" where
  "mark_used_counting frame p =
     (let was_free = \<not> bitmap_test (bitmap p) frame; p' = mark_frame_used p frame in
      if was_free then p'\<lparr>reserved_frames := reserved_frames p' + 1\<rparr> else p')"

definition mark_range_used :: "pmm_state \<Rightarrow> u64 \<Rightarrow> u64 \<Rightarrow> pmm_state" where
  "mark_range_used p bs len =
     (case (if len = 0 then None else checked_add_u64 bs len) of
        None \<Rightarrow> p
      | Some fin \<Rightarrow>
          let start = align_down bs PMM_PAGE_SIZE; stop = align_up fin PMM_PAGE_SIZE in
          if stop \<le> start then p
          else if max_phys p \<le> start then p
          else for_pages mark_used_counting (unat start)
                 (unat (if max_phys p < stop then max_phys p else stop)) p)"





definition pmm_alloc_frame :: "pmm_state option \<Rightarrow> u64 \<times> pmm_state option" where
  "pmm_alloc_frame pmm =
     (case pmm of
        None \<Rightarrow> (PMM_INVALID_FRAME, None)
      | Some p \<Rightarrow>
          if \<not> initialized p \<or> free_frames p = 0 then (PMM_INVALID_FRAME, Some p)
          else
            let unused = (\<lambda>f. \<not> bitmap_test (bitmap p) (of_nat f));
                take_frame = (\<lambda>f :: nat. let frame = of_nat f in
                   (frame * PMM_PAGE_SIZE,
                    Some ((mark_frame_used p frame)\<lparr>next_hint := frame + 1\<rparr>)))
            in case first_index unused (unat (next_hint p)) (unat (frame_count p)) of
                 Some f \<Rightarrow> take_frame f
               | None \<Rightarrow>
                   (case first_index unused 0 (unat (next_hint p)) of
                      Some f \<Rightarrow> take_frame f
                    | None \<Rightarrow> (PMM_INVALID_FRAME, Some p)))"

definition pmm_free_frame :: "pmm_state option \<Rightarrow> u64 \<Rightarrow> bool \<times> pmm_state option" where
  "pmm_free_frame pmm phys_addr =
     (case pmm of
        None \<Rightarrow> (False, None)
      | Some p \<Rightarrow>
          if \<not> initialized p then (False, Some p)
          else if phys_addr AND (PMM_PAGE_SIZE - 1) \<noteq> 0 \<or> phys_addr = 0 \<or> max_phys p \<le> phys_addr then
            (False, Some p)
          else
            let frame = phys_addr div PMM_PAGE_SIZE in
            if \<not> bitmap_test (bitmap p) frame then (False, Some p)
            else (True, Some (mark_frame_free p frame)))"

definition pmm_reserve_range :: "pmm_state option \<Rightarrow> u64 \<Rightarrow> u64 \<Rightarrow> bool \<times> pmm_state option" where
  "pmm_reserve_range pmm bs len =
     (case pmm of
        None \<Rightarrow> (False, None)
      | Some p \<Rightarrow>
          if \<not> initialized p \<or> len = 0 then (False, Some p)
          else (True, Some (mark_range_used p bs len)))"

definition pmm_is_frame_free :: "pmm_state option \<Rightarrow> u64 \<Rightarrow> bool" where
  "pmm_is_frame_free pmm phys_addr =
     (case pmm of
        None \<Rightarrow> False
      | Some p \<Rightarrow>
          if \<not> initialized p then False
          else if phys_addr AND (PMM_PAGE_SIZE - 1) \<noteq> 0 \<or> max_phys p \<le> phys_addr then False
          else \<not> bitmap_test (bitmap p) (phys_addr div PMM_PAGE_SIZE))"

definition pmm_free_count :: "pmm_state option \<Rightarrow> u64" where
  "pmm_free_count pmm = (case pmm of None \<Rightarrow> 0 | Some p \<Rightarrow> free_frames p)"

definition pmm_used_count :: "pmm_state option \<Rightarrow> u64" where
  "pmm_used_count pmm = (case pmm of None \<Rightarrow> 0 | Some p \<Rightarrow> used_frames p)"

definition pmm_frame_count :: "pmm_state option \<Rightarrow> u64" where
  "pmm_frame_count pmm = (case pmm of None \<Rightarrow> 0 | Some p \<Rightarrow> frame_count p)"

section \<open>Abstraction and invariant\<close>

definition bm_bit :: "bytes \<Rightarrow> nat \<Rightarrow> bool" where
  "bm_bit bm f \<longleftrightarrow> bit (bm ! (f div 8)) (f mod 8)"

text \<open>The free frames, by number.\<close>

definition free_set :: "pmm_state \<Rightarrow> nat set" where
  "free_set p = {f. f < unat (frame_count p) \<and> \<not> bm_bit (bitmap p) f}"

text \<open>The part of the invariant that holds already while the map is being read.\<close>

definition pmm_core :: "pmm_state \<Rightarrow> bool" where
  "pmm_core p \<longleftrightarrow>
     4096 dvd unat (max_phys p) \<and> unat (frame_count p) = unat (max_phys p) div 4096 \<and>
     unat (frame_count p) \<le> 8 * length (bitmap p) \<and>
     unat (free_frames p) = card (free_set p) \<and>
     unat (used_frames p) + card (free_set p) = unat (frame_count p) \<and>
     unat (next_hint p) \<le> unat (frame_count p) \<and> (\<forall>f < unat (next_hint p). f \<notin> free_set p)"

definition pmm_wf :: "pmm_state \<Rightarrow> bool" where
  "pmm_wf p \<longleftrightarrow> pmm_core p \<and> initialized p \<and> 0 \<notin> free_set p"



text \<open>Allocation over the abstraction: the frame number, or nothing.\<close>

definition pmm_take :: "pmm_state \<Rightarrow> (nat \<times> pmm_state) option" where
  "pmm_take p =
     (case pmm_alloc_frame (Some p) of
        (a, p') \<Rightarrow> if a = PMM_INVALID_FRAME then None else Some (unat a div 4096, the p'))"

definition pmm_give :: "pmm_state \<Rightarrow> nat \<Rightarrow> pmm_state option" where
  "pmm_give p f =
     (if f < 2 ^ 52 then
        (case pmm_free_frame (Some p) (of_nat (4096 * f)) of (ok, p') \<Rightarrow> if ok then p' else None)
      else None)"

section \<open>Lemmas on the bitmap\<close>

declare for_pages.simps [simp del]

lemma index_split: "unat (drop_bit 3 (i :: u64)) = unat i div 8" "unat ((i :: u64) AND 7) = unat i mod 8"
proof -
  show "unat (drop_bit 3 i) = unat i div 8"
    by (simp only: unat_drop_bit_eq) (simp add: drop_bit_eq_div)
  have "(mask 3 :: u64) = 7" by (simp add: mask_eq_exp_minus_1)
  then show "unat (i AND 7) = unat i mod 8" using unat_and_mask [of i 3] by simp
qed

lemma bit_mask8_iff: "bit (bit_mask8 i) n \<longleftrightarrow> n = unat i mod 8"
  by (auto simp: bit_mask8_def index_split bit_simps)

lemma bitmap_test_iff: "bitmap_test bm i \<longleftrightarrow> bm_bit bm (unat i)"
proof -
  have "w AND bit_mask8 i \<noteq> 0 \<longleftrightarrow> bit w (unat i mod 8)" for w :: u8
  proof -
    have "bit (w AND bit_mask8 i) n \<longleftrightarrow> bit w n \<and> n = unat i mod 8" for n
      by (simp only: bit_and_iff bit_mask8_iff)
    then show ?thesis
      by (metis bit_0_eq bot_apply bot_bool_def bit_word_eqI)
  qed
  then show ?thesis by (simp add: bitmap_test_def bm_bit_def index_split)
qed

lemma length_bitmap_ops [simp]:
  "length (bitmap_set bm i) = length bm" "length (bitmap_clear bm i) = length bm"
  by (simp_all add: bitmap_set_def bitmap_clear_def Let_def)

lemma div_mod_8_eq: "(f::nat) div 8 = g div 8 \<Longrightarrow> f mod 8 = g mod 8 \<Longrightarrow> f = g"
  by (metis div_mult_mod_eq)

lemma bm_bit_set:
  "unat i < 8 * length bm \<Longrightarrow> bm_bit (bitmap_set bm i) f \<longleftrightarrow> f = unat i \<or> bm_bit bm f"
  by (cases "f div 8 = unat i div 8")
     (auto simp: bm_bit_def bitmap_set_def Let_def index_split bit_simps bit_mask8_iff
           dest: div_mod_8_eq)

lemma bm_bit_clear:
  "unat i < 8 * length bm \<Longrightarrow> bm_bit (bitmap_clear bm i) f \<longleftrightarrow> f \<noteq> unat i \<and> bm_bit bm f"
  by (cases "f div 8 = unat i div 8")
     (auto simp: bm_bit_def bitmap_clear_def Let_def index_split bit_simps bit_mask8_iff
           dest: div_mod_8_eq)

text \<open>What the two frame operations keep and what they do to the free set.\<close>

definition same_geometry :: "pmm_state \<Rightarrow> pmm_state \<Rightarrow> bool" where
  "same_geometry p q \<longleftrightarrow> max_phys q = max_phys p \<and> frame_count q = frame_count p \<and>
     initialized q = initialized p \<and> length (bitmap q) = length (bitmap p)"

lemma same_geometry_refl [simp]: "same_geometry p p"
  by (simp add: same_geometry_def)


lemma finite_free_set [simp]: "finite (free_set p)"
  by (rule finite_subset [of _ "{..<unat (frame_count p)}"]) (auto simp: free_set_def)

lemma free_set_bound: "f \<in> free_set p \<Longrightarrow> f < unat (frame_count p)"
  by (simp add: free_set_def)

lemma frame_index_ok: "pmm_core p \<Longrightarrow> f < frame_count p \<Longrightarrow> unat f < 8 * length (bitmap p)"
  by (auto simp: pmm_core_def word_less_nat_alt)

lemma unat_pred: "0 < unat x \<Longrightarrow> unat (x - 1 :: u64) = unat x - 1"
  by (simp add: unat_sub word_le_nat_alt Suc_le_eq)

lemma unat_succ: "unat (x :: u64) < unat (y :: u64) \<Longrightarrow> unat (x + 1) = unat x + 1"
  using unat_bound [of y] by (simp add: unat_word_ariths)

lemma mark_frame_free_frame:
  assumes "pmm_core p"
  shows "same_geometry p (mark_frame_free p f)"
    "free_set (mark_frame_free p f) =
       (if f < frame_count p then insert (unat f) (free_set p) else free_set p)"
proof -
  show "same_geometry p (mark_frame_free p f)"
    by (simp add: mark_frame_free_def same_geometry_def)
  show "free_set (mark_frame_free p f) =
       (if f < frame_count p then insert (unat f) (free_set p) else free_set p)"
    using frame_index_ok [OF assms, of f]
    by (auto simp: mark_frame_free_def free_set_def bitmap_test_iff bm_bit_clear
                   word_less_nat_alt word_le_nat_alt)
qed

lemma mark_frame_used_frame:
  assumes "pmm_core p"
  shows "same_geometry p (mark_frame_used p f)"
    "free_set (mark_frame_used p f) = free_set p - {unat f}"
proof -
  show "same_geometry p (mark_frame_used p f)"
    by (simp add: mark_frame_used_def same_geometry_def)
  show "free_set (mark_frame_used p f) = free_set p - {unat f}"
    using frame_index_ok [OF assms, of f]
    by (auto simp: mark_frame_used_def free_set_def bitmap_test_iff bm_bit_set not_le
                   word_less_nat_alt word_le_nat_alt)
qed

lemma card_free_le: "card (free_set p) \<le> unat (frame_count p)"
  using card_mono [of "{..<unat (frame_count p)}" "free_set p"] by (auto simp: free_set_def)

lemma mark_frame_free_core:
  assumes c: "pmm_core p"
  shows "pmm_core (mark_frame_free p f)"
proof (cases "f < frame_count p \<and> bitmap_test (bitmap p) f")
  case False
  then have "mark_frame_free p f = p" by (auto simp: mark_frame_free_def not_le)
  then show ?thesis using c by simp
next
  case True
  let ?q = "mark_frame_free p f"
  have new: "unat f \<notin> free_set p" using True by (simp add: free_set_def bitmap_test_iff)
  have fs: "free_set ?q = insert (unat f) (free_set p)"
    using mark_frame_free_frame(2) [OF c] True by simp
  then have card: "card (free_set ?q) = Suc (card (free_set p))" using new by simp
  have up: "card (free_set ?q) \<le> unat (frame_count p)"
    using card_free_le [of ?q] mark_frame_free_frame(1) [OF c, of f] by (simp add: same_geometry_def)
  have le: "\<not> frame_count p \<le> f" using True by (simp add: not_le)
  have flds: "free_frames ?q = free_frames p + 1"
      "used_frames ?q = (if 0 < used_frames p then used_frames p - 1 else used_frames p)"
      "next_hint ?q = (if f < next_hint p then f else next_hint p)"
    using True le by (simp_all add: mark_frame_free_def)
  have used: "0 < unat (used_frames p)" using c card up by (simp add: pmm_core_def)
  have "unat (free_frames ?q) = Suc (card (free_set p))"
    using c unat_succ [of "free_frames p" "frame_count p"] card up flds(1) by (simp add: pmm_core_def)
  moreover have "unat (used_frames ?q) = unat (used_frames p) - 1"
    using used flds(2) unat_pred by (simp add: word_less_nat_alt)
  moreover have "unat (next_hint ?q) \<le> unat (next_hint p)" "unat (next_hint ?q) \<le> unat f"
    using flds(3) by (auto simp: word_less_nat_alt)
  ultimately show ?thesis
    using c card used mark_frame_free_frame(1) [OF c, of f]
    unfolding pmm_core_def same_geometry_def fs by auto
qed

lemma mark_frame_used_core:
  assumes c: "pmm_core p"
  shows "pmm_core (mark_frame_used p f)"
proof (cases "f < frame_count p \<and> \<not> bitmap_test (bitmap p) f")
  case False
  then have "mark_frame_used p f = p" by (auto simp: mark_frame_used_def not_le)
  then show ?thesis using c by simp
next
  case True
  let ?q = "mark_frame_used p f"
  have old: "unat f \<in> free_set p"
    using True by (simp add: free_set_def bitmap_test_iff word_less_nat_alt)
  have fs: "free_set ?q = free_set p - {unat f}" by (rule mark_frame_used_frame(2) [OF c])
  then have card: "card (free_set p) = Suc (card (free_set ?q))"
    using old by (metis finite_free_set card.remove)
  have le: "\<not> frame_count p \<le> f" using True by (simp add: not_le)
  have flds: "free_frames ?q = (if 0 < free_frames p then free_frames p - 1 else free_frames p)"
      "used_frames ?q = used_frames p + 1" "next_hint ?q = next_hint p"
    using True le by (simp_all add: mark_frame_used_def)
  have "0 < unat (free_frames p)" using c card by (simp add: pmm_core_def)
  then have "unat (free_frames ?q) = unat (free_frames p) - 1"
    using flds(1) unat_pred by (simp add: word_less_nat_alt)
  moreover have "unat (used_frames ?q) = unat (used_frames p) + 1"
    using c card flds(2) unat_succ [of "used_frames p" "frame_count p"] by (simp add: pmm_core_def)
  ultimately show ?thesis
    using c card flds(3) mark_frame_used_frame(1) [OF c, of f]
    unfolding pmm_core_def same_geometry_def fs by auto
qed

section \<open>Lemmas on ranges\<close>


lemma unat_of_frame: "i < unat (n :: u64) \<Longrightarrow> unat (of_nat i :: u64) = i"
  using unat_bound [of n] by (simp add: unat_of_nat)


lemma reserved_frames_irrelevant [simp]:
  "free_set (p\<lparr>reserved_frames := r\<rparr>) = free_set p"
  "pmm_core (p\<lparr>reserved_frames := r\<rparr>) = pmm_core p"
  "same_geometry q (p\<lparr>reserved_frames := r\<rparr>) = same_geometry q p"
  by (simp_all add: pmm_core_def same_geometry_def free_set_def)

lemma ignored_frames_irrelevant [simp]:
  "free_set (p\<lparr>ignored_frames := r\<rparr>) = free_set p"
  "pmm_core (p\<lparr>ignored_frames := r\<rparr>) = pmm_core p"
  "same_geometry (p\<lparr>ignored_frames := r\<rparr>) q = same_geometry p q"
  by (simp_all add: pmm_core_def same_geometry_def free_set_def)





lemma checked_add_u64_iff:
  "checked_add_u64 a b = (if unat a + unat b < 2 ^ 64 then Some (a + b) else None)"
  using unat_bound [of a]
  by (auto simp: checked_add_u64_def mcs_consts word_less_nat_alt unat_sub word_le_nat_alt)

lemma checked_add_u64_SomeD: "checked_add_u64 a b = Some c \<Longrightarrow> unat c = unat a + unat b"
  by (auto simp: checked_add_u64_iff unat_word_ariths split: if_splits)



lemma page_bounds: "pmm_core p \<Longrightarrow> unat (max_phys p) = 4096 * unat (frame_count p)"
  by (simp add: pmm_core_def)



section \<open>Boot\<close>


















section \<open>Allocation and release\<close>

lemma pmm_wf_hint: "pmm_wf p \<Longrightarrow> f \<in> free_set p \<Longrightarrow> unat (next_hint p) \<le> f"
  by (metis pmm_wf_def pmm_core_def not_less)

lemma frame_addr:
  assumes "pmm_core p" "f < unat (frame_count p)"
  shows "unat (of_nat f * PMM_PAGE_SIZE) = 4096 * f" "of_nat f * PMM_PAGE_SIZE \<noteq> PMM_INVALID_FRAME"
proof -
  have "4096 * f < 2 ^ 64" using assms page_bounds [OF assms(1)] unat_bound [of "max_phys p"] by simp
  then show a: "unat (of_nat f * PMM_PAGE_SIZE) = 4096 * f"
    using assms(2) unat_of_frame [of f "frame_count p"]
    by (simp add: mcs_consts unat_word_ariths mult.commute)
  have "unat PMM_INVALID_FRAME = 18446744073709551615" by (simp add: mcs_consts)
  moreover have "even (4096 * f)" "odd (18446744073709551615 :: nat)" by simp_all
  ultimately show "of_nat f * PMM_PAGE_SIZE \<noteq> PMM_INVALID_FRAME" using a by metis
qed

lemma search_lowest:
  assumes "pmm_wf p" "free_set p \<noteq> {}"
  shows "first_index (\<lambda>f. \<not> bitmap_test (bitmap p) (of_nat f)) (unat (next_hint p)) (unat (frame_count p))
    = Some (Min (free_set p))"
proof -
  let ?m = "Min (free_set p)"
  have m: "?m \<in> free_set p" using assms(2) by simp
  have t: "\<not> bitmap_test (bitmap p) (of_nat f) \<longleftrightarrow> f \<in> free_set p" if "f < unat (frame_count p)" for f
    using that by (simp add: bitmap_test_iff free_set_def unat_of_frame)
  show ?thesis
    unfolding first_index_Some_iff
    using m t free_set_bound [OF m] pmm_wf_hint [OF assms(1) m]
    by (auto dest: Min_le [OF finite_free_set])
qed

lemma pmm_alloc_empty:
  "pmm_wf p \<Longrightarrow> free_set p = {} \<Longrightarrow> pmm_alloc_frame (Some p) = (PMM_INVALID_FRAME, Some p)"
  by (simp add: pmm_alloc_frame_def pmm_wf_def pmm_core_def unat_eq_zero)

lemma pmm_alloc_found:
  assumes wf: "pmm_wf p" and ne: "free_set p \<noteq> {}"
  defines "m \<equiv> Min (free_set p)"
  shows "\<exists>q. pmm_alloc_frame (Some p) = (of_nat m * PMM_PAGE_SIZE, Some q) \<and> pmm_wf q \<and>
    same_geometry p q \<and> free_set q = free_set p - {m}"
proof -
  have core: "pmm_core p" using wf by (simp add: pmm_wf_def)
  have m: "m \<in> free_set p" using ne by (simp add: m_def)
  have um: "unat (of_nat m :: u64) = m" by (rule unat_of_frame [OF free_set_bound [OF m]])
  define u where "u = mark_frame_used p (of_nat m)"
  have u: "pmm_core u" "same_geometry p u" "free_set u = free_set p - {m}"
    using mark_frame_used_core [OF core] mark_frame_used_frame [OF core] um by (auto simp: u_def)
  have hint: "unat (of_nat m + 1 :: u64) = m + 1"
    using unat_succ [of "of_nat m" "frame_count p"] free_set_bound [OF m] um by simp
  let ?q = "u\<lparr>next_hint := of_nat m + 1\<rparr>"
  have fs: "free_set ?q = free_set p - {m}" using u(3) by (simp add: free_set_def)
  have "f \<notin> free_set p - {m}" if "f < m + 1" for f
    using that Min_le [of "free_set p" f] by (auto simp: m_def less_Suc_eq_le intro: le_antisym)
  then have "pmm_core ?q"
    using u hint free_set_bound [OF m]
    by (auto simp: pmm_core_def same_geometry_def free_set_def)
  then have "pmm_wf ?q"
    using wf u(2) fs by (simp add: pmm_wf_def same_geometry_def)
  moreover have "free_frames p \<noteq> 0"
    using core ne by (auto simp: pmm_core_def)
  moreover have "same_geometry p ?q" using u(2) by (simp add: same_geometry_def)
  ultimately show ?thesis
    using search_lowest [OF wf ne] wf fs
    by (simp add: pmm_alloc_frame_def Let_def u_def m_def pmm_wf_def)
qed

lemma pmm_free_cases:
  assumes wf: "pmm_wf p"
  shows "pmm_free_frame (Some p) a =
    (if 4096 dvd unat a \<and> a \<noteq> 0 \<and> a < max_phys p \<and> unat a div 4096 \<notin> free_set p
     then (True, Some (mark_frame_free p (a div PMM_PAGE_SIZE))) else (False, Some p))"
proof -
  have "a < max_phys p \<Longrightarrow> 4096 dvd unat a \<Longrightarrow> unat a div 4096 < unat (frame_count p)"
    using wf page_bounds [of p] by (auto simp: pmm_wf_def word_less_nat_alt)
  moreover have "unat (a div PMM_PAGE_SIZE) = unat a div 4096" by (simp add: mcs_consts unat_div)
  ultimately show ?thesis
    using wf page_aligned_iff [of a]
    by (auto simp: pmm_free_frame_def pmm_wf_def Let_def bitmap_test_iff free_set_def mcs_consts not_le)
qed

lemma pmm_free_ok:
  assumes wf: "pmm_wf p" and "4096 dvd unat a" "a \<noteq> 0" "a < max_phys p"
  defines "q \<equiv> mark_frame_free p (a div PMM_PAGE_SIZE)"
  shows "pmm_wf q \<and> same_geometry p q \<and> free_set q = insert (unat a div 4096) (free_set p)"
proof -
  have core: "pmm_core p" using wf by (simp add: pmm_wf_def)
  have u: "unat (a div PMM_PAGE_SIZE) = unat a div 4096" by (simp add: mcs_consts unat_div)
  have "unat a div 4096 < unat (frame_count p)"
    using assms page_bounds [OF core] by (auto simp: word_less_nat_alt)
  then have fs: "free_set q = insert (unat a div 4096) (free_set p)"
    using mark_frame_free_frame(2) [OF core] u by (simp add: q_def word_less_nat_alt)
  moreover have "unat a div 4096 \<noteq> 0" using assms(2,3) by (simp add: dvd_div_eq_0_iff unat_eq_zero)
  moreover have "same_geometry p q" using mark_frame_free_frame(1) [OF core] by (simp add: q_def)
  ultimately show ?thesis
    using wf mark_frame_free_core [OF core] by (auto simp: pmm_wf_def q_def same_geometry_def)
qed

section \<open>The interface of a frame source\<close>

fun alloc_many :: "('s \<Rightarrow> (nat \<times> 's) option) \<Rightarrow> nat \<Rightarrow> 's \<Rightarrow> (nat list \<times> 's) option" where
  "alloc_many tk 0 s = Some ([], s)"
| "alloc_many tk (Suc n) s =
     (case tk s of None \<Rightarrow> None
      | Some (f, s1) \<Rightarrow>
          (case alloc_many tk n s1 of None \<Rightarrow> None | Some (fs, s2) \<Rightarrow> Some (f # fs, s2)))"

fun release_many :: "('s \<Rightarrow> nat \<Rightarrow> 's option) \<Rightarrow> nat list \<Rightarrow> 's \<Rightarrow> 's option" where
  "release_many gv [] s = Some s"
| "release_many gv (f # fs) s = (case gv s f of None \<Rightarrow> None | Some s1 \<Rightarrow> release_many gv fs s1)"

locale frame_source =
  fixes inv :: "'s \<Rightarrow> bool" and free :: "'s \<Rightarrow> nat set" and managed :: "'s \<Rightarrow> nat set"
    and tk :: "'s \<Rightarrow> (nat \<times> 's) option" and gv :: "'s \<Rightarrow> nat \<Rightarrow> 's option"
  assumes finite_free: "inv s \<Longrightarrow> finite (free s)"
    and free_managed: "inv s \<Longrightarrow> free s \<subseteq> managed s"
    and tk_empty: "inv s \<Longrightarrow> free s = {} \<Longrightarrow> tk s = None"
    and tk_some: "inv s \<Longrightarrow> free s \<noteq> {} \<Longrightarrow> \<exists>f s'. tk s = Some (f, s') \<and> f \<in> free s \<and> inv s' \<and>
        free s' = free s - {f} \<and> managed s' = managed s"
    and gv_ok: "inv s \<Longrightarrow> f \<in> managed s \<Longrightarrow> f \<notin> free s \<Longrightarrow> \<exists>s'. gv s f = Some s' \<and> inv s' \<and>
        free s' = insert f (free s) \<and> managed s' = managed s"
    and gv_bad: "inv s \<Longrightarrow> f \<notin> managed s \<or> f \<in> free s \<Longrightarrow> gv s f = None"
begin

lemma alloc_many_ok:
  "inv s \<Longrightarrow> n \<le> card (free s) \<Longrightarrow>
   \<exists>fs s'. alloc_many tk n s = Some (fs, s') \<and> length fs = n \<and> distinct fs \<and> set fs \<subseteq> free s \<and>
     inv s' \<and> free s' = free s - set fs \<and> managed s' = managed s"
proof (induction n arbitrary: s)
  case 0
  then show ?case by simp
next
  case (Suc n)
  then have "free s \<noteq> {}" by auto
  from tk_some [OF Suc.prems(1) this] obtain f s1 where
    s1: "tk s = Some (f, s1)" "f \<in> free s" "inv s1" "free s1 = free s - {f}" "managed s1 = managed s"
    by blast
  have "n \<le> card (free s1)" using Suc.prems s1(2,4) finite_free by simp
  from Suc.IH [OF s1(3) this] obtain fs s2 where
    "alloc_many tk n s1 = Some (fs, s2)" "length fs = n" "distinct fs" "set fs \<subseteq> free s1"
    "inv s2" "free s2 = free s1 - set fs" "managed s2 = managed s1" by blast
  then show ?case
    using s1 by (intro exI [of _ "f # fs"] exI [of _ s2]) auto
qed

lemma release_many_ok:
  "inv s \<Longrightarrow> distinct fs \<Longrightarrow> set fs \<subseteq> managed s - free s \<Longrightarrow>
   \<exists>s'. release_many gv fs s = Some s' \<and> inv s' \<and> free s' = free s \<union> set fs"
proof (induction fs arbitrary: s)
  case Nil
  then show ?case by simp
next
  case (Cons f fs)
  from gv_ok [OF Cons.prems(1), of f] Cons.prems(3) obtain s1 where
    s1: "gv s f = Some s1" "inv s1" "free s1 = insert f (free s)" "managed s1 = managed s" by auto
  with Cons.IH [of s1] Cons.prems obtain s' where
    "release_many gv fs s1 = Some s'" "inv s'" "free s' = free s1 \<union> set fs" by auto
  with s1 show ?case by auto
qed

text \<open>Taking frames and giving them back, in any order, restores the free set.\<close>

lemma borrow_and_return:
  assumes "inv s" "n \<le> card (free s)"
  shows "\<exists>fs s'. alloc_many tk n s = Some (fs, s') \<and> length fs = n \<and> distinct fs \<and> set fs \<subseteq> free s \<and>
    (\<forall>gs. distinct gs \<and> set gs = set fs \<longrightarrow>
       (\<exists>s''. release_many gv gs s' = Some s'' \<and> inv s'' \<and> free s'' = free s))"
proof -
  from alloc_many_ok [OF assms] obtain fs s' where
    a: "alloc_many tk n s = Some (fs, s')" "length fs = n" "distinct fs" "set fs \<subseteq> free s"
      "inv s'" "free s' = free s - set fs" "managed s' = managed s" by blast
  have "\<exists>s''. release_many gv gs s' = Some s'' \<and> inv s'' \<and> free s'' = free s"
    if "distinct gs" "set gs = set fs" for gs
  proof -
    have "set gs \<subseteq> managed s' - free s'" using that(2) a free_managed [OF assms(1)] by auto
    moreover have "free s' \<union> set gs = free s" using that(2) a by auto
    ultimately show ?thesis using release_many_ok [OF a(5) that(1)] by metis
  qed
  with a show ?thesis by blast
qed

end

definition managed_frames :: "pmm_state \<Rightarrow> nat set" where
  "managed_frames p = {0 <..< unat (frame_count p)}"

lemma pmm_wf_frames: "pmm_wf p \<Longrightarrow> f \<in> free_set p \<Longrightarrow> 0 < f \<and> f < unat (frame_count p)"
  by (metis pmm_wf_def free_set_bound gr0I)

lemma pmm_take_some:
  assumes "pmm_wf p" "free_set p \<noteq> {}"
  shows "\<exists>f q. pmm_take p = Some (f, q) \<and> f \<in> free_set p \<and> pmm_wf q \<and> free_set q = free_set p - {f} \<and>
    managed_frames q = managed_frames p"
proof -
  let ?m = "Min (free_set p)"
  have m: "?m \<in> free_set p" using assms(2) by simp
  have "pmm_core p" using assms(1) by (simp add: pmm_wf_def)
  note fa = frame_addr [OF this free_set_bound [OF m]]
  from pmm_alloc_found [OF assms] obtain q where
    "pmm_alloc_frame (Some p) = (of_nat ?m * PMM_PAGE_SIZE, Some q)" "pmm_wf q" "same_geometry p q"
    "free_set q = free_set p - {?m}" by blast
  then show ?thesis using fa m by (auto simp: pmm_take_def managed_frames_def same_geometry_def)
qed

lemma pmm_give_cases:
  assumes wf: "pmm_wf p"
  shows "pmm_give p f =
    (if f \<in> managed_frames p \<and> f \<notin> free_set p then Some (mark_frame_free p (of_nat f)) else None)"
proof (cases "f < 2 ^ 52")
  case True
  let ?a = "of_nat (4096 * f) :: u64"
  have a: "unat ?a = 4096 * f" using True by (subst unat_of_nat) simp
  have "unat (?a div PMM_PAGE_SIZE) = f" using a by (simp add: mcs_consts unat_div)
  moreover have "unat (of_nat f :: u64) = f" using True by (subst unat_of_nat) simp
  ultimately have d: "?a div PMM_PAGE_SIZE = of_nat f" by (metis word_unat_eq_iff)
  have "?a \<noteq> 0 \<longleftrightarrow> 0 < f" using a by (auto simp: unat_eq_zero [symmetric] simp del: of_nat_mult)
  moreover have "?a < max_phys p \<longleftrightarrow> f < unat (frame_count p)"
    using a wf page_bounds [of p] by (simp add: pmm_wf_def word_less_nat_alt del: of_nat_mult)
  ultimately show ?thesis
    using True a d pmm_free_cases [OF wf, of ?a]
    by (auto simp: pmm_give_def managed_frames_def simp del: of_nat_mult)
next
  case False
  then show ?thesis
    using wf page_bounds [of p] unat_bound [of "max_phys p"]
    by (auto simp: pmm_give_def managed_frames_def pmm_wf_def)
qed

lemma pmm_give_ok:
  assumes wf: "pmm_wf p" and f: "f \<in> managed_frames p" "f \<notin> free_set p"
  shows "\<exists>q. pmm_give p f = Some q \<and> pmm_wf q \<and> free_set q = insert f (free_set p) \<and>
    managed_frames q = managed_frames p"
proof -
  have core: "pmm_core p" using wf by (simp add: pmm_wf_def)
  let ?q = "mark_frame_free p (of_nat f)"
  have u: "unat (of_nat f :: u64) = f"
    using f(1) unat_of_frame [of f "frame_count p"] by (simp add: managed_frames_def)
  have fs: "free_set ?q = insert f (free_set p)"
    using mark_frame_free_frame(2) [OF core, of "of_nat f"] u f(1)
    by (simp add: managed_frames_def word_less_nat_alt)
  then have "pmm_wf ?q"
    using wf f(1) mark_frame_free_core [OF core] mark_frame_free_frame(1) [OF core, of "of_nat f"]
    by (auto simp: pmm_wf_def same_geometry_def managed_frames_def)
  then show ?thesis
    using fs f pmm_give_cases [OF wf] mark_frame_free_frame(1) [OF core, of "of_nat f"]
    by (simp add: managed_frames_def same_geometry_def)
qed

interpretation pmm: frame_source pmm_wf free_set managed_frames pmm_take pmm_give
proof
  fix p f assume wf: "pmm_wf p"
  show "finite (free_set p)" by simp
  show "free_set p \<subseteq> managed_frames p" using pmm_wf_frames [OF wf] by (auto simp: managed_frames_def)
  show "free_set p = {} \<Longrightarrow> pmm_take p = None" using pmm_alloc_empty [OF wf] by (simp add: pmm_take_def)
  show "free_set p \<noteq> {} \<Longrightarrow> \<exists>f q. pmm_take p = Some (f, q) \<and> f \<in> free_set p \<and> pmm_wf q \<and>
      free_set q = free_set p - {f} \<and> managed_frames q = managed_frames p"
    by (rule pmm_take_some [OF wf])
  show "f \<in> managed_frames p \<Longrightarrow> f \<notin> free_set p \<Longrightarrow> \<exists>q. pmm_give p f = Some q \<and> pmm_wf q \<and>
      free_set q = insert f (free_set p) \<and> managed_frames q = managed_frames p"
    by (rule pmm_give_ok [OF wf])
  show "f \<notin> managed_frames p \<or> f \<in> free_set p \<Longrightarrow> pmm_give p f = None"
    using pmm_give_cases [OF wf] by auto
qed

section \<open>Properties\<close>

text \<open>C13: on a consistent state allocation fails exactly when no frame is free and then changes
  nothing; otherwise it returns the physical address of the lowest free frame, which is not the
  null page, removes that frame alone from the free set and keeps the state consistent. The hint
  therefore never makes the search miss a frame.\<close>

theorem pmm_alloc_lowest:
  assumes "pmm_wf p"
  shows "if free_set p = {} then pmm_alloc_frame (Some p) = (PMM_INVALID_FRAME, Some p)
    else \<exists>a q. pmm_alloc_frame (Some p) = (a, Some q) \<and> unat a = 4096 * Min (free_set p) \<and> a \<noteq> 0 \<and>
      pmm_wf q \<and> free_set q = free_set p - {Min (free_set p)} \<and> pmm_is_frame_free (Some p) a \<and>
      \<not> pmm_is_frame_free (Some q) a"
proof (cases "free_set p = {}")
  case True
  then show ?thesis using pmm_alloc_empty [OF assms] by simp
next
  case False
  let ?m = "Min (free_set p)"
  let ?a = "of_nat ?m * PMM_PAGE_SIZE :: u64"
  have m: "?m \<in> free_set p" using False by simp
  have core: "pmm_core p" using assms by (simp add: pmm_wf_def)
  note fa = frame_addr [OF core free_set_bound [OF m]]
  from pmm_alloc_found [OF assms False] obtain q where
    q: "pmm_alloc_frame (Some p) = (?a, Some q)" "pmm_wf q" "same_geometry p q"
      "free_set q = free_set p - {?m}" by blast
  have "?a \<noteq> 0"
    using fa(1) pmm_wf_frames [OF assms m] by (metis unat_0 mult_eq_0_iff less_numeral_extra(3) zero_neq_numeral)
  moreover have "?a AND (PMM_PAGE_SIZE - 1) = 0"
    using page_aligned_iff [of ?a] fa(1) by (simp add: mcs_consts)
  moreover have "?a < max_phys p"
    using fa(1) page_bounds [OF core] free_set_bound [OF m] by (simp add: word_less_nat_alt)
  moreover have "unat (?a div PMM_PAGE_SIZE) = ?m"
    using fa(1) by (simp add: unat_div PMM_PAGE_SIZE_def)
  ultimately show ?thesis
    using False q fa(1) assms m
    by (auto simp: pmm_is_frame_free_def pmm_wf_def same_geometry_def bitmap_test_iff free_set_def not_le)
qed

text \<open>A four-frame machine after boot with one usable region.\<close>

definition pmm_four :: pmm_state where
  "pmm_four = \<lparr>bitmap = [0xf1], bitmap_bytes = 1, max_phys = 16384, frame_count = 4, free_frames = 3,
     used_frames = 1, reserved_frames = 1, ignored_frames = 0, next_hint = 1, initialized = True\<rparr>"

lemma pmm_four_free: "free_set pmm_four = {1, 2, 3}"
proof -
  have "f < 4 \<longleftrightarrow> f \<in> {0, 1, 2, 3}" for f :: nat by auto
  then have "free_set pmm_four = {f \<in> {0, 1, 2, 3}. \<not> bm_bit [0xf1] f}"
    by (simp add: free_set_def pmm_four_def)
  also have "\<dots> = {1, 2, 3}" by (auto simp: bm_bit_def)
  finally show ?thesis .
qed

lemma pmm_four_wf: "pmm_wf pmm_four"
  using pmm_four_free by (simp add: pmm_wf_def pmm_core_def) (simp add: pmm_four_def)

theorem pmm_alloc_lowest_witness:
  "pmm_wf pmm_four \<and> (\<exists>q. pmm_alloc_frame (Some pmm_four) = (4096, Some q) \<and> pmm_wf q)"
proof -
  from pmm_alloc_lowest [OF pmm_four_wf] obtain a q where
    "pmm_alloc_frame (Some pmm_four) = (a, Some q)" "unat a = 4096" "pmm_wf q"
    by (auto simp: pmm_four_free)
  moreover from this(2) have "a = 4096" by (simp add: word_unat_eq_iff)
  ultimately show ?thesis using pmm_four_wf by simp
qed

text \<open>C18: any number of allocations up to the number of free frames succeed and return distinct
  frames that were free, and freeing these frames in any order succeeds and restores the free set.\<close>

theorem pmm_borrow_and_return:
  assumes "pmm_wf p" "n \<le> unat (pmm_free_count (Some p))"
  shows "\<exists>fs q. alloc_many pmm_take n p = Some (fs, q) \<and> length fs = n \<and> distinct fs \<and>
    set fs \<subseteq> free_set p \<and>
    (\<forall>gs. distinct gs \<and> set gs = set fs \<longrightarrow>
       (\<exists>r. release_many pmm_give gs q = Some r \<and> pmm_wf r \<and> free_set r = free_set p))"
proof -
  have "n \<le> card (free_set p)"
    using assms by (simp add: pmm_free_count_def pmm_wf_def pmm_core_def)
  then show ?thesis by (rule pmm.borrow_and_return [OF assms(1)])
qed

theorem pmm_borrow_and_return_witness:
  "pmm_wf pmm_four \<and> (\<exists>fs q. alloc_many pmm_take 3 pmm_four = Some (fs, q) \<and> distinct fs)"
proof -
  have "3 \<le> unat (pmm_free_count (Some pmm_four))" by (simp add: pmm_free_count_def pmm_four_def)
  from pmm_borrow_and_return [OF pmm_four_wf this] pmm_four_wf show ?thesis by blast
qed


text \<open>the range arithmetic wraps near the top of the address space: reserving a non-empty range
  that ends in the last page but does not overflow reports success, yet for a range that starts on a
  managed frame it reserves nothing.\<close>

theorem pmm_reserve_wraps:
  assumes "initialized p" "0 < l" "unat b + unat l < 2 ^ 64" "2 ^ 64 < unat b + unat l + 4096"
  shows "pmm_reserve_range (Some p) b l = (True, Some p)"
proof -
  have fin: "checked_add_u64 b l = Some (b + l)" "unat (b + l) = unat b + unat l"
    using assms(3) by (simp_all add: checked_add_u64_iff unat_word_ariths)
  have "unat (b + l + 4095) = unat b + unat l + 4095 - 2 ^ 64"
    using fin(2) assms(3,4) by (simp add: unat_word_ariths mod_if)
  moreover have "unat b + unat l + 4095 - 2 ^ 64 < 4096" using assms(3) by simp
  ultimately have "unat (align_up (b + l) PMM_PAGE_SIZE) = 0"
    by (simp add: align_up_def mcs_consts unat_and_minus_4096 add.commute add.left_commute)
  then have "align_up (b + l) PMM_PAGE_SIZE = 0" by (simp add: unat_eq_zero)
  then show ?thesis
    using assms(1,2) fin(1) by (auto simp: pmm_reserve_range_def mark_range_used_def)
qed

theorem pmm_reserve_wraps_witness:
  "pmm_reserve_range (Some pmm_four) 4096 0xffffffffffffefff = (True, Some pmm_four) \<and>
   pmm_is_frame_free (Some pmm_four) 4096"
  using pmm_reserve_wraps [of pmm_four "0xffffffffffffefff" 4096]
  by (simp add: pmm_four_def pmm_is_frame_free_def bitmap_test_iff bm_bit_def mcs_consts)

end
