(* ===== verification/Vmm.thy ===== *)
theory Vmm
  imports Pmm
begin

text \<open>
  \<open>src/vmm.c\<close>: four-level x86-64 page tables. The frame allocator, the frame release and the translation of a
  physical address to a pointer are functions that the creator of an address space supplies; they are parameters of
  the model, functions on the state of the object that \<open>ctx\<close> points to.

  A table is the list of its 512 entries, held in a map from pointers to tables; \<open>phys_to_virt\<close> answers \<open>None\<close> for
  NULL. \<open>invlpg\<close> is recorded in a list of invalidated addresses. The register accesses of the file
  (\<open>vmm_read_cr3\<close>, \<open>vmm_write_cr3\<close>, \<open>vmm_read_cr2\<close>) are single instructions without state of their own and are
  left out.
\<close>

section \<open>Data\<close>

definition VMM_PAGE_SIZE :: u64 where [mcs_consts]: "VMM_PAGE_SIZE = 4096"
definition VMM_ENTRIES_PER_TABLE :: nat where [mcs_consts]: "VMM_ENTRIES_PER_TABLE = 512"
definition VMM_INVALID_PHYS :: u64 where [mcs_consts]: "VMM_INVALID_PHYS = NOT 0"
definition VMM_PTE_PRESENT :: u64 where [mcs_consts]: "VMM_PTE_PRESENT = 0x1"
definition VMM_PTE_WRITABLE :: u64 where [mcs_consts]: "VMM_PTE_WRITABLE = 0x2"
definition VMM_PTE_USER :: u64 where [mcs_consts]: "VMM_PTE_USER = 0x4"
definition VMM_PTE_WRITE_THROUGH :: u64 where [mcs_consts]: "VMM_PTE_WRITE_THROUGH = 0x8"
definition VMM_PTE_CACHE_DISABLE :: u64 where [mcs_consts]: "VMM_PTE_CACHE_DISABLE = 0x10"
definition VMM_PTE_HUGE :: u64 where [mcs_consts]: "VMM_PTE_HUGE = 0x80"
definition VMM_PTE_GLOBAL :: u64 where [mcs_consts]: "VMM_PTE_GLOBAL = 0x100"
definition VMM_PTE_NO_EXECUTE :: u64 where [mcs_consts]: "VMM_PTE_NO_EXECUTE = 0x8000000000000000"
definition VMM_PTE_ADDR_MASK :: u64 where [mcs_consts]: "VMM_PTE_ADDR_MASK = 0x000FFFFFFFFFF000"

datatype vmm_status = VMM_MAP_OK | VMM_ERR_INVAL | VMM_ERR_NOMEM | VMM_ERR_EXISTS | VMM_ERR_NOT_FOUND

record 'c vmm_space =
  root_paddr :: u64
  alloc_frame :: "('c \<Rightarrow> u64 \<times> 'c) option"
  free_frame :: "('c \<Rightarrow> u64 \<Rightarrow> 'c) option"
  phys_to_virt :: "('c \<Rightarrow> u64 \<Rightarrow> u64 option) option"

record 'c vmm_world =
  w_ctx :: 'c
  w_mem :: "u64 \<Rightarrow> u64 list"
  w_invlpg :: "u64 list"

record vmm_mapping =
  m_vaddr :: u64
  m_paddr :: u64
  m_flags :: u64

section \<open>Operations\<close>

definition vmm_zero_page :: "u64 list \<Rightarrow> u64 list" where
  "vmm_zero_page page = fill_loop 0 page 0 VMM_ENTRIES_PER_TABLE"

definition vmm_is_aligned_4k :: "u64 \<Rightarrow> bool" where
  "vmm_is_aligned_4k v = (v AND (VMM_PAGE_SIZE - 1) = 0)"

definition vmm_is_canonical :: "u64 \<Rightarrow> bool" where
  "vmm_is_canonical vaddr =
     (let sign = drop_bit 47 vaddr AND 1; upper = drop_bit 48 vaddr in
      if sign \<noteq> 0 then upper = 0xFFFF else upper = 0)"

definition idx_pml4 :: "u64 \<Rightarrow> nat" where
  "idx_pml4 vaddr = unat (drop_bit 39 vaddr AND 0x1FF)"

definition idx_pdpt :: "u64 \<Rightarrow> nat" where
  "idx_pdpt vaddr = unat (drop_bit 30 vaddr AND 0x1FF)"

definition idx_pd :: "u64 \<Rightarrow> nat" where
  "idx_pd vaddr = unat (drop_bit 21 vaddr AND 0x1FF)"

definition idx_pt :: "u64 \<Rightarrow> nat" where
  "idx_pt vaddr = unat (drop_bit 12 vaddr AND 0x1FF)"

definition table_from_phys :: "'c vmm_space option \<Rightarrow> 'c \<Rightarrow> u64 \<Rightarrow> u64 option" where
  "table_from_phys space c paddr =
     (case space of
        None \<Rightarrow> None
      | Some s \<Rightarrow>
          (case phys_to_virt s of
             None \<Rightarrow> None
           | Some p2v \<Rightarrow> if \<not> vmm_is_aligned_4k paddr then None else p2v c paddr))"

definition get_or_alloc_next_table ::
  "'c vmm_space \<Rightarrow> u64 \<Rightarrow> nat \<Rightarrow> 'c vmm_world \<Rightarrow> (vmm_status + u64) \<times> 'c vmm_world" where
  "get_or_alloc_next_table space table index w =
     (let entry = w_mem w table ! index in
      if entry AND VMM_PTE_PRESENT \<noteq> 0 then
        if entry AND VMM_PTE_HUGE \<noteq> 0 then (Inl VMM_ERR_EXISTS, w)
        else (case table_from_phys (Some space) (w_ctx w) (entry AND VMM_PTE_ADDR_MASK) of
                None \<Rightarrow> (Inl VMM_ERR_INVAL, w)
              | Some nxt \<Rightarrow> (Inr nxt, w))
      else
        (case alloc_frame space of
           None \<Rightarrow> (Inl VMM_ERR_NOMEM, w)
         | Some alloc \<Rightarrow>
             let (new_paddr, c) = alloc (w_ctx w); w = w\<lparr>w_ctx := c\<rparr> in
             if new_paddr = VMM_INVALID_PHYS \<or> \<not> vmm_is_aligned_4k new_paddr then (Inl VMM_ERR_NOMEM, w)
             else
               (case table_from_phys (Some space) (w_ctx w) new_paddr of
                  None \<Rightarrow>
                    (Inl VMM_ERR_INVAL,
                     (case free_frame space of None \<Rightarrow> w | Some free \<Rightarrow> w\<lparr>w_ctx := free (w_ctx w) new_paddr\<rparr>))
                | Some new_table \<Rightarrow>
                    let m = (w_mem w)(new_table := vmm_zero_page (w_mem w new_table));
                        e = (new_paddr AND VMM_PTE_ADDR_MASK) OR VMM_PTE_PRESENT OR VMM_PTE_WRITABLE
                    in (Inr new_table, w\<lparr>w_mem := m(table := (m table)[index := e])\<rparr>))))"

definition vmm_space_init ::
  "'c vmm_space option \<Rightarrow> u64 \<Rightarrow> ('c \<Rightarrow> u64 \<times> 'c) option \<Rightarrow> ('c \<Rightarrow> u64 \<Rightarrow> 'c) option \<Rightarrow>
   ('c \<Rightarrow> u64 \<Rightarrow> u64 option) option \<Rightarrow> vmm_status \<times> 'c vmm_space option" where
  "vmm_space_init space root alloc free p2v =
     (if space = None \<or> p2v = None \<or> \<not> vmm_is_aligned_4k root then (VMM_ERR_INVAL, space)
      else (VMM_MAP_OK,
            Some ((the space)\<lparr>root_paddr := root, alloc_frame := alloc, free_frame := free, phys_to_virt := p2v\<rparr>)))"

definition vmm_allowed :: u64 where
  "vmm_allowed = VMM_PTE_WRITABLE OR VMM_PTE_USER OR VMM_PTE_WRITE_THROUGH OR VMM_PTE_CACHE_DISABLE OR VMM_PTE_GLOBAL OR
     VMM_PTE_NO_EXECUTE"

text \<open>\<open>rc = f(...); if (rc != VMM_MAP_OK) return rc;\<close>\<close>

definition on_table ::
  "(vmm_status + u64) \<times> 'c vmm_world \<Rightarrow> (u64 \<Rightarrow> 'c vmm_world \<Rightarrow> vmm_status \<times> 'c vmm_world) \<Rightarrow> vmm_status \<times> 'c vmm_world" where
  "on_table r k = (case r of (Inl rc, w) \<Rightarrow> (rc, w) | (Inr t, w) \<Rightarrow> k t w)"

definition vmm_map_page ::
  "'c vmm_space option \<Rightarrow> u64 \<Rightarrow> u64 \<Rightarrow> u64 \<Rightarrow> 'c vmm_world \<Rightarrow> vmm_status \<times> 'c vmm_world" where
  "vmm_map_page space vaddr paddr flags w =
     (if space = None \<or> \<not> vmm_is_canonical vaddr \<or> \<not> vmm_is_aligned_4k vaddr \<or> \<not> vmm_is_aligned_4k paddr then
        (VMM_ERR_INVAL, w)
      else
        let s = the space in
        (case table_from_phys space (w_ctx w) (root_paddr s) of
           None \<Rightarrow> (VMM_ERR_INVAL, w)
         | Some pml4 \<Rightarrow>
             on_table (get_or_alloc_next_table s pml4 (idx_pml4 vaddr) w) (\<lambda>pdpt w.
             on_table (get_or_alloc_next_table s pdpt (idx_pdpt vaddr) w) (\<lambda>pd w.
             on_table (get_or_alloc_next_table s pd (idx_pd vaddr) w) (\<lambda>pt w.
               let pti = idx_pt vaddr in
               if w_mem w pt ! pti AND VMM_PTE_PRESENT \<noteq> 0 then (VMM_ERR_EXISTS, w)
               else
                 (VMM_MAP_OK,
                  w\<lparr>w_mem := (w_mem w)(pt := (w_mem w pt)[pti :=
                      (paddr AND VMM_PTE_ADDR_MASK) OR VMM_PTE_PRESENT OR (flags AND vmm_allowed)])\<rparr>))))))"

text \<open>One level of the walk that query and unmap share: the entry must be present and not a large page, and its
  table must have a pointer.\<close>

definition next_table :: "'c vmm_space option \<Rightarrow> 'c vmm_world \<Rightarrow> u64 \<Rightarrow> vmm_status + u64" where
  "next_table space w e =
     (if e AND VMM_PTE_PRESENT = 0 \<or> e AND VMM_PTE_HUGE \<noteq> 0 then Inl VMM_ERR_NOT_FOUND
      else (case table_from_phys space (w_ctx w) (e AND VMM_PTE_ADDR_MASK) of
              None \<Rightarrow> Inl VMM_ERR_INVAL
            | Some t \<Rightarrow> Inr t))"

definition bind_table :: "vmm_status + u64 \<Rightarrow> (u64 \<Rightarrow> vmm_status + u64) \<Rightarrow> vmm_status + u64" where
  "bind_table r k = (case r of Inl rc \<Rightarrow> Inl rc | Inr t \<Rightarrow> k t)"

text \<open>The walk from the root to the last-level table.\<close>

definition walk_tables :: "'c vmm_space option \<Rightarrow> 'c vmm_world \<Rightarrow> u64 \<Rightarrow> vmm_status + u64" where
  "walk_tables space w vaddr =
     (case table_from_phys space (w_ctx w) (root_paddr (the space)) of
        None \<Rightarrow> Inl VMM_ERR_INVAL
      | Some pml4 \<Rightarrow>
          bind_table (next_table space w (w_mem w pml4 ! idx_pml4 vaddr)) (\<lambda>pdpt.
          bind_table (next_table space w (w_mem w pdpt ! idx_pdpt vaddr)) (\<lambda>pd.
          next_table space w (w_mem w pd ! idx_pd vaddr))))"

definition vmm_query_page ::
  "'c vmm_space option \<Rightarrow> u64 \<Rightarrow> vmm_mapping option \<Rightarrow> 'c vmm_world \<Rightarrow> vmm_status \<times> vmm_mapping option" where
  "vmm_query_page space vaddr out w =
     (if space = None \<or> out = None \<or> \<not> vmm_is_canonical vaddr \<or> \<not> vmm_is_aligned_4k vaddr then (VMM_ERR_INVAL, out)
      else
        (case walk_tables space w vaddr of
           Inl rc \<Rightarrow> (rc, out)
         | Inr pt \<Rightarrow>
             let e = w_mem w pt ! idx_pt vaddr in
             if e AND VMM_PTE_PRESENT = 0 then (VMM_ERR_NOT_FOUND, out)
             else (VMM_MAP_OK, Some ((the out)\<lparr>m_vaddr := vaddr, m_paddr := e AND VMM_PTE_ADDR_MASK,
                     m_flags := e AND NOT VMM_PTE_ADDR_MASK\<rparr>))))"

definition vmm_invalidate_page :: "u64 \<Rightarrow> 'c vmm_world \<Rightarrow> 'c vmm_world" where
  "vmm_invalidate_page vaddr w = w\<lparr>w_invlpg := w_invlpg w @ [vaddr]\<rparr>"

definition vmm_unmap_page :: "'c vmm_space option \<Rightarrow> u64 \<Rightarrow> 'c vmm_world \<Rightarrow> vmm_status \<times> 'c vmm_world" where
  "vmm_unmap_page space vaddr w =
     (if space = None \<or> \<not> vmm_is_canonical vaddr \<or> \<not> vmm_is_aligned_4k vaddr then (VMM_ERR_INVAL, w)
      else
        (case walk_tables space w vaddr of
           Inl rc \<Rightarrow> (rc, w)
         | Inr pt \<Rightarrow>
             let pti = idx_pt vaddr in
             if w_mem w pt ! pti AND VMM_PTE_PRESENT = 0 then (VMM_ERR_NOT_FOUND, w)
             else
               (VMM_MAP_OK,
                vmm_invalidate_page vaddr (w\<lparr>w_mem := (w_mem w)(pt := (w_mem w pt)[pti := 0])\<rparr>))))"

section \<open>Specification\<close>

text \<open>The table at a path of indices, the index used last first; the entry that maps a page; and the address space as
  a map from page addresses to frame and flags.\<close>

definition present :: "u64 \<Rightarrow> bool" where
  "present e \<longleftrightarrow> e AND VMM_PTE_PRESENT \<noteq> 0"

fun table_at :: "'c vmm_space \<Rightarrow> 'c vmm_world \<Rightarrow> nat list \<Rightarrow> u64 option" where
  "table_at s w [] = Some (root_paddr s)"
| "table_at s w (i # p) =
     (case table_at s w p of
        None \<Rightarrow> None
      | Some t \<Rightarrow>
          (case the (phys_to_virt s) (w_ctx w) t of
             None \<Rightarrow> None
           | Some v \<Rightarrow>
               let e = w_mem w v ! i in
               if present e \<and> e AND VMM_PTE_HUGE = 0 then Some (e AND VMM_PTE_ADDR_MASK) else None))"

definition page_path :: "u64 \<Rightarrow> nat list" where
  "page_path v = [idx_pd v, idx_pdpt v, idx_pml4 v]"

definition pte :: "'c vmm_space \<Rightarrow> 'c vmm_world \<Rightarrow> u64 \<Rightarrow> u64 option" where
  "pte s w v =
     (case table_at s w (page_path v) of
        None \<Rightarrow> None
      | Some t \<Rightarrow>
          (case the (phys_to_virt s) (w_ctx w) t of
             None \<Rightarrow> None
           | Some ptr \<Rightarrow> if present (w_mem w ptr ! idx_pt v) then Some (w_mem w ptr ! idx_pt v) else None))"

definition page_addr :: "u64 \<Rightarrow> bool" where
  "page_addr v \<longleftrightarrow> vmm_is_canonical v \<and> vmm_is_aligned_4k v"

definition vspace :: "'c vmm_space \<Rightarrow> 'c vmm_world \<Rightarrow> u64 \<Rightarrow> (u64 \<times> u64) option" where
  "vspace s w v =
     (if page_addr v then map_option (\<lambda>e. (e AND VMM_PTE_ADDR_MASK, e AND NOT VMM_PTE_ADDR_MASK)) (pte s w v) else None)"

definition small :: "nat list \<Rightarrow> bool" where
  "small p \<longleftrightarrow> list_all (\<lambda>i. i < 512) p"

definition frame_ok :: "u64 \<Rightarrow> bool" where
  "frame_ok p \<longleftrightarrow> p AND VMM_PTE_ADDR_MASK = p"

text \<open>The contract of the supplied functions: the allocator hands out frames that are not held, as long as it has
  any; every held frame has a pointer, and different frames have different pointers.\<close>

locale page_frames =
  fixes good :: "'c \<Rightarrow> bool" and held :: "'c \<Rightarrow> u64 set" and avail :: "'c \<Rightarrow> nat"
    and alloc :: "'c \<Rightarrow> u64 \<times> 'c" and p2v :: "'c \<Rightarrow> u64 \<Rightarrow> u64 option"
  assumes alloc_none: "good c \<Longrightarrow> avail c = 0 \<Longrightarrow> alloc c = (VMM_INVALID_PHYS, c)"
    and alloc_new: "good c \<Longrightarrow> 0 < avail c \<Longrightarrow> \<exists>p c'. alloc c = (p, c') \<and> p \<noteq> VMM_INVALID_PHYS \<and> good c' \<and> p \<notin> held c \<and>
      held c' = insert p (held c) \<and> avail c' = avail c - 1 \<and> frame_ok p \<and> p2v c' = p2v c"
    and p2v_total: "good c \<Longrightarrow> p \<in> held c \<Longrightarrow> \<exists>v. p2v c p = Some v"
    and p2v_inj: "good c \<Longrightarrow> p2v c p = Some v \<Longrightarrow> p2v c q = Some v \<Longrightarrow> p = q"

text \<open>The invariant of an address space: its tables are held frames with 512 entries, no table is reached along two
  paths, and no entry above the last level is a large page or open to user mode.\<close>

definition vm_ok :: "('c \<Rightarrow> bool) \<Rightarrow> ('c \<Rightarrow> u64 set) \<Rightarrow> 'c vmm_space \<Rightarrow> 'c vmm_world \<Rightarrow> bool" where
  "vm_ok good held s w \<longleftrightarrow>
     good (w_ctx w) \<and>
     (\<forall>p t. length p \<le> 3 \<longrightarrow> small p \<longrightarrow> table_at s w p = Some t \<longrightarrow> t \<in> held (w_ctx w) \<and> frame_ok t) \<and>
     (\<forall>v. length (w_mem w v) = VMM_ENTRIES_PER_TABLE) \<and>
     (\<forall>p q t. length p \<le> 3 \<longrightarrow> length q \<le> 3 \<longrightarrow> small p \<longrightarrow> small q \<longrightarrow> table_at s w p = Some t \<longrightarrow>
        table_at s w q = Some t \<longrightarrow> p = q) \<and>
     (\<forall>p t v i. length p \<le> 2 \<longrightarrow> small p \<longrightarrow> table_at s w p = Some t \<longrightarrow> the (phys_to_virt s) (w_ctx w) t = Some v \<longrightarrow>
        i < 512 \<longrightarrow> present (w_mem w v ! i) \<longrightarrow> w_mem w v ! i AND VMM_PTE_HUGE = 0 \<and> w_mem w v ! i AND VMM_PTE_USER = 0)"

text \<open>The walk of the processor through the tables in physical memory, in supervisor or in user mode: an entry is
  followed when it is present and, in user mode, has the user bit; the result is the frame of the page. An access to a
  large page, which the code never makes, is left out.\<close>

definition cpu_level :: "bool \<Rightarrow> u64 \<Rightarrow> u64 option" where
  "cpu_level user e =
     (if present e \<and> (user \<longrightarrow> e AND VMM_PTE_USER \<noteq> 0) \<and> e AND VMM_PTE_HUGE = 0 then Some (e AND VMM_PTE_ADDR_MASK) else None)"

definition cpu_leaf :: "bool \<Rightarrow> u64 \<Rightarrow> u64 option" where
  "cpu_leaf user e = (if present e \<and> (user \<longrightarrow> e AND VMM_PTE_USER \<noteq> 0) then Some (e AND VMM_PTE_ADDR_MASK) else None)"

definition cpu_translate :: "(u64 \<Rightarrow> u64 list) \<Rightarrow> u64 \<Rightarrow> bool \<Rightarrow> u64 \<Rightarrow> u64 option" where
  "cpu_translate frames root user x =
     Option.bind (cpu_level user (frames root ! idx_pml4 x)) (\<lambda>pdpt.
     Option.bind (cpu_level user (frames pdpt ! idx_pdpt x)) (\<lambda>pd.
     Option.bind (cpu_level user (frames pd ! idx_pd x)) (\<lambda>pt.
     cpu_leaf user (frames pt ! idx_pt x))))"

text \<open>The abstract address space: a map from page addresses to frame and flags, and the calls on it. Frames are not
  part of it, so the refinement below is stated for call sequences the free frames suffice for.\<close>

datatype vmm_call = VMap u64 u64 u64 | VUnmap u64 | VQuery u64

type_synonym vmm_answer = "vmm_status \<times> vmm_mapping option"

definition blank_mapping :: vmm_mapping where
  "blank_mapping = \<lparr>m_vaddr = 0, m_paddr = 0, m_flags = 0\<rparr>"

fun vmm_exec :: "'c vmm_space \<Rightarrow> vmm_call \<Rightarrow> 'c vmm_world \<Rightarrow> vmm_answer \<times> 'c vmm_world" where
  "vmm_exec s (VMap x pa fl) w = (let (rc, w') = vmm_map_page (Some s) x pa fl w in ((rc, None), w'))"
| "vmm_exec s (VUnmap x) w = (let (rc, w') = vmm_unmap_page (Some s) x w in ((rc, None), w'))"
| "vmm_exec s (VQuery x) w = (vmm_query_page (Some s) x (Some blank_mapping) w, w)"

fun av_exec :: "vmm_call \<Rightarrow> (u64 \<rightharpoonup> u64 \<times> u64) \<Rightarrow> vmm_answer \<times> (u64 \<rightharpoonup> u64 \<times> u64)" where
  "av_exec (VMap x pa fl) m =
     (if \<not> page_addr x \<or> \<not> vmm_is_aligned_4k pa then ((VMM_ERR_INVAL, None), m)
      else if m x \<noteq> None then ((VMM_ERR_EXISTS, None), m)
      else ((VMM_MAP_OK, None), m(x \<mapsto> (pa AND VMM_PTE_ADDR_MASK, VMM_PTE_PRESENT OR (fl AND vmm_allowed)))))"
| "av_exec (VUnmap x) m =
     (if \<not> page_addr x then ((VMM_ERR_INVAL, None), m)
      else if m x = None then ((VMM_ERR_NOT_FOUND, None), m)
      else ((VMM_MAP_OK, None), m(x := None)))"
| "av_exec (VQuery x) m =
     (if \<not> page_addr x then ((VMM_ERR_INVAL, Some blank_mapping), m)
      else case m x of
        None \<Rightarrow> ((VMM_ERR_NOT_FOUND, Some blank_mapping), m)
      | Some (pa, fl) \<Rightarrow> ((VMM_MAP_OK, Some \<lparr>m_vaddr = x, m_paddr = pa, m_flags = fl\<rparr>), m))"

section \<open>Facts on entries and addresses\<close>

lemma mask_bits:
  "(x AND VMM_PTE_ADDR_MASK) AND VMM_PTE_PRESENT = 0" "(x AND VMM_PTE_ADDR_MASK) AND VMM_PTE_HUGE = 0"
  "(x AND VMM_PTE_ADDR_MASK) AND VMM_PTE_USER = 0" "(x AND vmm_allowed) AND VMM_PTE_PRESENT = 0"
  "(x AND vmm_allowed) AND VMM_PTE_HUGE = 0" "(x AND vmm_allowed) AND VMM_PTE_ADDR_MASK = 0"
  "(x AND vmm_allowed) AND NOT VMM_PTE_ADDR_MASK = x AND vmm_allowed"
  by (simp_all add: and.assoc vmm_allowed_def mcs_consts)

lemma table_entry_facts:
  fixes n :: u64
  defines "e \<equiv> (n AND VMM_PTE_ADDR_MASK) OR VMM_PTE_PRESENT OR VMM_PTE_WRITABLE"
  shows "present e" "e AND VMM_PTE_HUGE = 0" "e AND VMM_PTE_USER = 0" "frame_ok n \<Longrightarrow> e AND VMM_PTE_ADDR_MASK = n"
proof -
  note d = bit.conj_disj_distrib2
  have "e AND VMM_PTE_PRESENT = 1" unfolding e_def d mask_bits by (simp add: mcs_consts)
  then show "present e" by (simp add: present_def)
  show "e AND VMM_PTE_HUGE = 0" "e AND VMM_PTE_USER = 0" unfolding e_def d mask_bits by (simp_all add: mcs_consts)
  have "e AND VMM_PTE_ADDR_MASK = n AND VMM_PTE_ADDR_MASK" unfolding e_def d by (simp add: and.assoc mcs_consts)
  then show "frame_ok n \<Longrightarrow> e AND VMM_PTE_ADDR_MASK = n" by (simp add: frame_ok_def)
qed

lemma leaf_entry_facts:
  fixes p fl :: u64
  defines "e \<equiv> (p AND VMM_PTE_ADDR_MASK) OR VMM_PTE_PRESENT OR (fl AND vmm_allowed)"
  shows "present e" "e AND VMM_PTE_ADDR_MASK = p AND VMM_PTE_ADDR_MASK"
    "e AND NOT VMM_PTE_ADDR_MASK = VMM_PTE_PRESENT OR (fl AND vmm_allowed)"
proof -
  note d = bit.conj_disj_distrib2
  have "e AND VMM_PTE_PRESENT = 1" unfolding e_def d mask_bits by (simp add: mcs_consts)
  then show "present e" by (simp add: present_def)
  show "e AND VMM_PTE_ADDR_MASK = p AND VMM_PTE_ADDR_MASK" unfolding e_def d mask_bits by (simp add: and.assoc mcs_consts)
  have "(p AND VMM_PTE_ADDR_MASK) AND NOT VMM_PTE_ADDR_MASK = 0" by (simp add: and.assoc mcs_consts)
  then show "e AND NOT VMM_PTE_ADDR_MASK = VMM_PTE_PRESENT OR (fl AND vmm_allowed)"
    unfolding e_def d mask_bits by (simp add: mcs_consts)
qed

lemma frame_ok_aligned: "frame_ok p \<Longrightarrow> vmm_is_aligned_4k p"
proof -
  assume "frame_ok p"
  then have "p AND 4095 = (p AND VMM_PTE_ADDR_MASK) AND 4095" by (simp add: frame_ok_def)
  also have "\<dots> = 0" by (simp add: and.assoc mcs_consts)
  finally show ?thesis by (simp add: vmm_is_aligned_4k_def mcs_consts)
qed

lemma idx_bound: "idx_pml4 v < 512" "idx_pdpt v < 512" "idx_pd v < 512" "idx_pt v < 512"
proof -
  have "unat (x AND 0x1FF :: u64) < 512" for x
    using unat_and_mask [of x 9] by (simp add: mask_eq_exp_minus_1)
  then show "idx_pml4 v < 512" "idx_pdpt v < 512" "idx_pd v < 512" "idx_pt v < 512"
    by (simp_all add: idx_pml4_def idx_pdpt_def idx_pd_def idx_pt_def)
qed

text \<open>A page address is determined by its four indices.\<close>

lemma bit_1FF: "bit (0x1FF :: u64) k \<longleftrightarrow> k < 9"
proof -
  have "(0x1FF :: u64) = mask 9" by (simp add: mask_eq_exp_minus_1)
  moreover have "bit (mask 9 :: u64) k \<longleftrightarrow> k < 9" by (auto simp: bit_mask_iff)
  ultimately show ?thesis by (simp only:)
qed

lemma idx_bits:
  "idx_pml4 v = idx_pml4 u \<Longrightarrow> 39 \<le> k \<Longrightarrow> k < 48 \<Longrightarrow> bit v k = bit u k"
  "idx_pdpt v = idx_pdpt u \<Longrightarrow> 30 \<le> k \<Longrightarrow> k < 39 \<Longrightarrow> bit v k = bit u k"
  "idx_pd v = idx_pd u \<Longrightarrow> 21 \<le> k \<Longrightarrow> k < 30 \<Longrightarrow> bit v k = bit u k"
  "idx_pt v = idx_pt u \<Longrightarrow> 12 \<le> k \<Longrightarrow> k < 21 \<Longrightarrow> bit v k = bit u k"
proof -
  have *: "bit v k = bit u k" if eq: "unat (drop_bit n v AND 0x1FF) = unat (drop_bit n u AND 0x1FF)" and k: "n \<le> k" "k < n + 9" for n
  proof -
    have "bit (drop_bit n v AND 0x1FF) (k - n) = bit (drop_bit n u AND 0x1FF) (k - n)"
      using eq by (simp only: word_unat_eq_iff [symmetric])
    then have "bit (drop_bit n v) (k - n) = bit (drop_bit n u) (k - n)"
      unfolding bit_and_iff bit_1FF using k by (simp add: less_diff_conv2)
    then show ?thesis using k by (simp add: bit_simps)
  qed
  show "idx_pml4 v = idx_pml4 u \<Longrightarrow> 39 \<le> k \<Longrightarrow> k < 48 \<Longrightarrow> bit v k = bit u k"
    "idx_pdpt v = idx_pdpt u \<Longrightarrow> 30 \<le> k \<Longrightarrow> k < 39 \<Longrightarrow> bit v k = bit u k"
    "idx_pd v = idx_pd u \<Longrightarrow> 21 \<le> k \<Longrightarrow> k < 30 \<Longrightarrow> bit v k = bit u k"
    "idx_pt v = idx_pt u \<Longrightarrow> 12 \<le> k \<Longrightarrow> k < 21 \<Longrightarrow> bit v k = bit u k"
    using * [of 39] * [of 30] * [of 21] * [of 12] by (auto simp: idx_pml4_def idx_pdpt_def idx_pd_def idx_pt_def)
qed

lemma aligned_low_bits: "vmm_is_aligned_4k v \<Longrightarrow> k < 12 \<Longrightarrow> \<not> bit v k"
proof
  assume "vmm_is_aligned_4k v" "k < 12" "bit v k"
  then have "v AND mask 12 = 0" by (simp add: vmm_is_aligned_4k_def mcs_consts mask_12)
  then have "\<not> bit (v AND mask 12) k" by simp
  then show False using \<open>k < 12\<close> \<open>bit v k\<close> by (simp add: bit_simps)
qed

lemma canonical_high_bits: "vmm_is_canonical v \<Longrightarrow> 48 \<le> k \<Longrightarrow> k < 64 \<Longrightarrow> bit v k = bit v 47"
proof -
  assume c: "vmm_is_canonical v" and k: "48 \<le> k" "k < 64"
  have sign: "drop_bit 47 v AND 1 \<noteq> 0 \<longleftrightarrow> bit v 47"
    using and_exp_eq_0_iff_not_bit [of "drop_bit 47 v" 0] by (simp add: bit_simps)
  have ff: "(0xFFFF :: u64) = mask 16" by (simp add: mask_eq_exp_minus_1)
  have up: "bit v k = bit (drop_bit 48 v) (k - 48)" using k by (simp add: bit_simps)
  show ?thesis
  proof (cases "bit v 47")
    case True
    then have "drop_bit 48 v = mask 16" using c sign unfolding vmm_is_canonical_def Let_def ff by simp
    moreover have "bit (mask 16 :: u64) (k - 48)" using k by (simp add: bit_mask_iff less_diff_conv2)
    ultimately show ?thesis using up True by (simp only:)
  next
    case False
    then have "drop_bit 48 v = 0" using c sign unfolding vmm_is_canonical_def Let_def by simp
    then show ?thesis using up False by (simp only: bit_0_eq bot_apply) simp
  qed
qed

lemma page_eq:
  assumes "page_addr v" "page_addr u" "page_path v = page_path u" "idx_pt v = idx_pt u"
  shows "v = u"
proof (rule bit_word_eqI)
  fix k assume k: "k < LENGTH(64)"
  have idx: "idx_pml4 v = idx_pml4 u" "idx_pdpt v = idx_pdpt u" "idx_pd v = idx_pd u" using assms(3) by (auto simp: page_path_def)
  note b = idx_bits(1) [OF idx(1)] idx_bits(2) [OF idx(2)] idx_bits(3) [OF idx(3)] idx_bits(4) [OF assms(4)]
  consider "k < 12" | "12 \<le> k" "k < 21" | "21 \<le> k" "k < 30" | "30 \<le> k" "k < 39" | "39 \<le> k" "k < 48" | "48 \<le> k" by linarith
  then show "bit v k = bit u k"
  proof cases
    case 6
    then show ?thesis
      using canonical_high_bits [of v k] canonical_high_bits [of u k] b(1) [of 47] assms(1,2) k by (simp add: page_addr_def)
  qed (use b aligned_low_bits assms(1,2) in \<open>auto simp: page_addr_def\<close>)
qed

section \<open>The invariant\<close>

lemma small_simps [simp]: "small []" "small (i # p) \<longleftrightarrow> i < 512 \<and> small p"
  by (simp_all add: small_def)

lemma small_page_path [simp]: "small (page_path v)" "length (page_path v) = 3"
  by (simp_all add: page_path_def idx_bound)

lemma vm_okD:
  assumes "vm_ok good held s w"
  shows "good (w_ctx w)"
    "length p \<le> 3 \<Longrightarrow> small p \<Longrightarrow> table_at s w p = Some t \<Longrightarrow> t \<in> held (w_ctx w)"
    "length p \<le> 3 \<Longrightarrow> small p \<Longrightarrow> table_at s w p = Some t \<Longrightarrow> frame_ok t"
    "length (w_mem w v) = 512"
    "length p \<le> 3 \<Longrightarrow> length q \<le> 3 \<Longrightarrow> small p \<Longrightarrow> small q \<Longrightarrow> table_at s w p = Some t \<Longrightarrow> table_at s w q = Some t \<Longrightarrow> p = q"
    "length p \<le> 2 \<Longrightarrow> small p \<Longrightarrow> table_at s w p = Some t \<Longrightarrow> the (phys_to_virt s) (w_ctx w) t = Some v \<Longrightarrow> i < 512 \<Longrightarrow>
       present (w_mem w v ! i) \<Longrightarrow> w_mem w v ! i AND VMM_PTE_HUGE = 0 \<and> w_mem w v ! i AND VMM_PTE_USER = 0"
  using assms unfolding vm_ok_def VMM_ENTRIES_PER_TABLE_def by blast+

lemma table_at_prefix: "table_at s w (i # p) = Some t \<Longrightarrow> \<exists>u. table_at s w p = Some u"
  by (auto split: option.splits)

text \<open>Writing entry \<open>i\<close> of the table at path \<open>p\<close>.\<close>

definition set_entry :: "'c vmm_world \<Rightarrow> u64 \<Rightarrow> nat \<Rightarrow> u64 \<Rightarrow> 'c vmm_world" where
  "set_entry w v i e = w\<lparr>w_mem := (w_mem w)(v := (w_mem w v)[i := e])\<rparr>"

lemma set_entry_simps [simp]:
  "w_ctx (set_entry w v i e) = w_ctx w" "w_invlpg (set_entry w v i e) = w_invlpg w"
  "w_mem (set_entry w v i e) = (w_mem w)(v := (w_mem w v)[i := e])"
  by (simp_all add: set_entry_def)

lemma invalidate_simps [simp]:
  "w_ctx (vmm_invalidate_page x w) = w_ctx w" "w_mem (vmm_invalidate_page x w) = w_mem w"
  "w_invlpg (vmm_invalidate_page x w) = w_invlpg w @ [x]"
  by (simp_all add: vmm_invalidate_page_def)

text \<open>From \<open>w\<close> to \<open>w'\<close> a new table \<open>n\<close>, with pointer \<open>nv\<close>, is added below entry \<open>i\<close> of the table \<open>t\<close> at path \<open>p\<close>.\<close>

definition adds_table ::
  "('c \<Rightarrow> u64 \<Rightarrow> u64 option) \<Rightarrow> ('c \<Rightarrow> u64 set) \<Rightarrow> 'c vmm_space \<Rightarrow> 'c vmm_world \<Rightarrow> nat list \<Rightarrow> u64 \<Rightarrow> u64 \<Rightarrow> nat \<Rightarrow> u64 \<Rightarrow> u64 \<Rightarrow> 'c \<Rightarrow>
   'c vmm_world \<Rightarrow> bool" where
  "adds_table p2v held s w p t v i n nv c w' \<longleftrightarrow>
     phys_to_virt s = Some p2v \<and> length p \<le> 2 \<and> small p \<and> table_at s w p = Some t \<and> p2v (w_ctx w) t = Some v \<and>
     i < 512 \<and> \<not> present (w_mem w v ! i) \<and>
     n \<notin> held (w_ctx w) \<and> frame_ok n \<and> p2v (w_ctx w) n = Some nv \<and> p2v c = p2v (w_ctx w) \<and>
     w' = w\<lparr>w_ctx := c, w_mem := (w_mem w)(nv := replicate 512 0,
        v := (w_mem w v)[i := (n AND VMM_PTE_ADDR_MASK) OR VMM_PTE_PRESENT OR VMM_PTE_WRITABLE])\<rparr>"

lemma adds_tableD:
  assumes "adds_table p2v held s w p t v i n nv c w'"
  shows "phys_to_virt s = Some p2v" "length p \<le> 2" "small p" "table_at s w p = Some t" "p2v (w_ctx w) t = Some v"
    "i < 512" "\<not> present (w_mem w v ! i)" "n \<notin> held (w_ctx w)" "frame_ok n" "p2v (w_ctx w) n = Some nv" "p2v c = p2v (w_ctx w)"
    "w' = w\<lparr>w_ctx := c, w_mem := (w_mem w)(nv := replicate 512 0,
        v := (w_mem w v)[i := (n AND VMM_PTE_ADDR_MASK) OR VMM_PTE_PRESENT OR VMM_PTE_WRITABLE])\<rparr>"
  using assms by (simp_all add: adds_table_def)

context page_frames
begin

lemma pointer_path:
  assumes ok: "vm_ok good held s w" and sp: "phys_to_virt s = Some p2v"
    and p: "length p \<le> 3" "small p" "table_at s w p = Some t" "p2v (w_ctx w) t = Some v"
    and q: "length q \<le> 3" "small q" "table_at s w q = Some u" "p2v (w_ctx w) u = Some v"
  shows "p = q"
proof -
  have "t = u" using p2v_inj [OF vm_okD(1) [OF ok] p(4) q(4)] .
  then show ?thesis using vm_okD(5) [OF ok p(1) q(1) p(2) q(2) p(3)] q(3) by simp
qed

text \<open>Writing a last-level entry moves no table.\<close>

lemma leaf_keeps_tables:
  assumes ok: "vm_ok good held s w" and sp: "phys_to_virt s = Some p2v"
    and p: "length p = 3" "small p" "table_at s w p = Some t" "p2v (w_ctx w) t = Some v"
    and q: "length q \<le> 3" "small q"
  shows "table_at s (set_entry w v i e) q = table_at s w q"
  using q
proof (induction q)
  case (Cons j q)
  then have IH: "table_at s (set_entry w v i e) q = table_at s w q" and l: "length q \<le> 2" "small q" by auto
  have "u = v \<Longrightarrow> False" if "table_at s w q = Some a" "p2v (w_ctx w) a = Some u" for a u
    using pointer_path [OF ok sp, of q a u p t] that p l by auto
  then show ?case using IH sp by (auto split: option.splits simp: Let_def)
qed simp

lemma leaf_ok:
  assumes ok: "vm_ok good held s w" and sp: "phys_to_virt s = Some p2v"
    and p: "length p = 3" "small p" "table_at s w p = Some t" "p2v (w_ctx w) t = Some v"
  shows "vm_ok good held s (set_entry w v i e)"
proof -
  note keep = leaf_keeps_tables [OF ok sp p, of _ i e]
  have ent: "(if u = v then (w_mem w v)[i := e] else w_mem w u) = w_mem w u"
    if "length q \<le> 2" "small q" "table_at s w q = Some a" "p2v (w_ctx w) a = Some u" for q a u
    using pointer_path [OF ok sp, of q a u p t] that p by auto
  show ?thesis
    unfolding vm_ok_def
  proof (intro conjI allI impI, goal_cases)
    case 1 then show ?case using vm_okD(1) [OF ok] by simp
  next
    case (2 q a) then show ?case using vm_okD(2) [OF ok, of q a] keep [of q] by simp
  next
    case (3 q a) then show ?case using vm_okD(3) [OF ok, of q a] keep [of q] by simp
  next
    case (4 u) then show ?case using vm_okD(4) [OF ok] by (simp add: VMM_ENTRIES_PER_TABLE_def)
  next
    case (5 q q' a) then show ?case using vm_okD(5) [OF ok, of q q' a] keep [of q] keep [of q'] by simp
  next
    case (6 q a u j)
    then show ?case using vm_okD(6) [OF ok, of q a u j] keep [of q] ent [of q a u] sp by simp
  next
    case (7 q a u j)
    then show ?case using vm_okD(6) [OF ok, of q a u j] keep [of q] ent [of q a u] sp by simp
  qed
qed

lemma leaf_pte:
  assumes ok: "vm_ok good held s w" and sp: "phys_to_virt s = Some p2v"
    and t: "table_at s w (page_path x) = Some t" "p2v (w_ctx w) t = Some v"
  shows "pte s (set_entry w v (idx_pt x) e) y =
    (if page_path y = page_path x \<and> idx_pt y = idx_pt x then (if present e then Some e else None) else pte s w y)"
proof -
  note len = vm_okD(4) [OF ok, of v]
  have keep: "table_at s (set_entry w v (idx_pt x) e) (page_path y) = table_at s w (page_path y)"
    using leaf_keeps_tables [OF ok sp _ _ t, of "page_path y"] by simp
  show ?thesis
  proof (cases "page_path y = page_path x")
    case True
    then show ?thesis unfolding pte_def keep using t len sp idx_bound(4) by (auto simp: nth_list_update)
  next
    case False
    have "u = v \<Longrightarrow> False" if "table_at s w (page_path y) = Some a" "p2v (w_ctx w) a = Some u" for a u
      using pointer_path [OF ok sp, of "page_path y" a u "page_path x" t] that t False by simp
    then show ?thesis unfolding pte_def keep using False sp by (auto split: option.splits)
  qed
qed

lemma add_table_tables:
  assumes ok: "vm_ok good held s w" and add: "adds_table p2v held s w p t v i n nv c w'"
    and q: "length q \<le> 3" "small q"
  shows "table_at s w' q = (if q = i # p then Some n else table_at s w q)"
  using q
proof (induction q)
  case (Cons j q)
  note sp = adds_tableD(1) [OF add] and p = adds_tableD(2-5) [OF add] and i = adds_tableD(6,7) [OF add]
    and new = adds_tableD(8-11) [OF add] and w' = adds_tableD(12) [OF add]
  from Cons have IH: "table_at s w' q = (if q = i # p then Some n else table_at s w q)" and l: "length q \<le> 2" "small q" "j < 512" by auto
  have nv: "nv \<noteq> v"
    using p2v_inj [OF vm_okD(1) [OF ok] new(3), of t] p vm_okD(2) [OF ok, of p t] new(1) by auto
  have none: "table_at s w (i # p) = None" using p i sp by simp
  show ?case
  proof (cases "q = i # p")
    case True
    then show ?thesis using IH none l new(3,4) nv sp by (simp add: w' present_def)
  next
    case False
    show ?thesis
    proof (cases "table_at s w q")
      case None
      then show ?thesis using IH False p by auto
    next
      case (Some a)
      have a: "a \<in> held (w_ctx w)" using vm_okD(2) [OF ok _ l(2) Some] l(1) by simp
      obtain u where u: "p2v (w_ctx w) a = Some u" using p2v_total [OF vm_okD(1) [OF ok] a] by blast
      have un: "u \<noteq> nv" using p2v_inj [OF vm_okD(1) [OF ok] u, of n] new a by auto
      have uv: "u = v \<Longrightarrow> q = p" using pointer_path [OF ok sp, of q a u p t] Some u p l by auto
      have qp: "q = p \<Longrightarrow> u = v" using Some u p by auto
      note e = table_entry_facts [of n]
      show ?thesis
      proof (cases "q = p \<and> j = i")
        case True
        then show ?thesis
          using IH False Some u sp new e qp vm_okD(4) [OF ok, of v] i(1) by (simp add: w' Let_def)
      next
        case other: False
        have "w_mem w' u ! j = w_mem w u ! j"
          using un uv other by (cases "u = v") (auto simp: w')
        then show ?thesis using IH False Some u sp new other by (auto simp: w' Let_def)
      qed
    qed
  qed
qed (simp add: adds_tableD(12) [OF add])

text \<open>A new table behind a free entry: the entries of the old tables, and those of the middle levels, which are neither huge
  nor open to the user.\<close>

lemma add_table_entries:
  assumes ok: "vm_ok good held s w" and add: "adds_table p2v held s w p t v i n nv c w'"
  shows "nv \<noteq> v" and "the (phys_to_virt s) (w_ctx w') = p2v (w_ctx w)"
    and "\<And>q a. table_at s w q = Some a \<Longrightarrow> length q \<le> 3 \<Longrightarrow> small q \<Longrightarrow> a \<noteq> n"
    and "\<And>q a u j. length q \<le> 3 \<Longrightarrow> small q \<Longrightarrow> table_at s w q = Some a \<Longrightarrow> p2v (w_ctx w) a = Some u \<Longrightarrow> j < 512 \<Longrightarrow>
      u \<noteq> nv \<and> w_mem w' u ! j = (if q = p \<and> j = i then (n AND VMM_PTE_ADDR_MASK) OR VMM_PTE_PRESENT OR VMM_PTE_WRITABLE
        else w_mem w u ! j)"
proof -
  note sp = adds_tableD(1) [OF add] and p = adds_tableD(2-5) [OF add] and i = adds_tableD(6,7) [OF add]
    and new = adds_tableD(8-11) [OF add] and w' = adds_tableD(12) [OF add]
  show nv: "nv \<noteq> v"
    using p2v_inj [OF vm_okD(1) [OF ok] new(3), of t] p vm_okD(2) [OF ok, of p t] new(1) by auto
  show "the (phys_to_virt s) (w_ctx w') = p2v (w_ctx w)" using sp new(4) by (simp add: w')
  show notn: "table_at s w q = Some a \<Longrightarrow> length q \<le> 3 \<Longrightarrow> small q \<Longrightarrow> a \<noteq> n" for q a
    using vm_okD(2) [OF ok, of q a] new(1) by auto
  fix q a u and j :: nat
  assume q: "length q \<le> 3" "small q" "table_at s w q = Some a" "p2v (w_ctx w) a = Some u" "j < 512"
  have "u = v \<longleftrightarrow> q = p" using pointer_path [OF ok sp, of q a u p t] q p by auto
  moreover have "u \<noteq> nv" using p2v_inj [OF vm_okD(1) [OF ok] q(4), of n] new(3) notn [OF q(3,1,2)] by auto
  ultimately show "u \<noteq> nv \<and> w_mem w' u ! j = (if q = p \<and> j = i then (n AND VMM_PTE_ADDR_MASK) OR VMM_PTE_PRESENT OR VMM_PTE_WRITABLE
      else w_mem w u ! j)"
    using vm_okD(4) [OF ok, of v] i(1) q(5) by (auto simp: w' nth_list_update)
qed

lemma add_table_middle:
  assumes ok: "vm_ok good held s w" and add: "adds_table p2v held s w p t v i n nv c w'"
    and q: "length q \<le> 2" "small q" "table_at s w' q = Some a" "the (phys_to_virt s) (w_ctx w') a = Some u" "j < 512"
      "present (w_mem w' u ! j)"
  shows "w_mem w' u ! j AND VMM_PTE_HUGE = 0 \<and> w_mem w' u ! j AND VMM_PTE_USER = 0"
proof -
  note sp = adds_tableD(1) [OF add] and p = adds_tableD(2-5) [OF add] and i = adds_tableD(6,7) [OF add]
    and new = adds_tableD(8-11) [OF add] and w' = adds_tableD(12) [OF add]
  note T = add_table_tables [OF ok add] and A = add_table_entries [OF ok add]
  show ?thesis
  proof (cases "q = i # p")
    case True
    then have "u = nv" using q T [of q] new(3) unfolding A(2) by simp
    then show ?thesis using q(5,6) A(1) by (simp add: w' present_def)
  next
    case False
    then have a: "table_at s w q = Some a" "p2v (w_ctx w) a = Some u" using q T [of q] unfolding A(2) by simp_all
    note ent = A(4) [of q a u j]
    show ?thesis
    proof (cases "q = p \<and> j = i")
      case True
      then show ?thesis using ent a q table_entry_facts(2,3) [of n] by simp
    next
      case False
      then have same: "w_mem w' u ! j = w_mem w u ! j" using ent a q by auto
      show ?thesis using vm_okD(6) [OF ok q(1,2) a(1), of u j] a(2) q(5,6) sp unfolding same by simp
    qed
  qed
qed

lemma add_table_pte:
  assumes ok: "vm_ok good held s w" and add: "adds_table p2v held s w p t v i n nv c w'"
  shows "pte s w' y = pte s w y"
proof -
  note sp = adds_tableD(1) [OF add] and p = adds_tableD(2-5) [OF add] and i = adds_tableD(6,7) [OF add]
    and new = adds_tableD(8-11) [OF add] and w' = adds_tableD(12) [OF add]
  note T = add_table_tables [OF ok add] and A = add_table_entries [OF ok add]
  show ?thesis
  proof (cases "page_path y = i # p")
    case True
    then have t: "table_at s w (page_path y) = None" "table_at s w' (page_path y) = Some n" using p i sp T [of "page_path y"] by simp_all
    have z: "w_mem w' nv = replicate 512 0" using A(1) by (simp add: w')
    show ?thesis unfolding pte_def t A(2) option.case new(3) z using idx_bound(4) by (simp add: present_def)
  next
    case False
    then have same: "table_at s w' (page_path y) = table_at s w (page_path y)" using T [of "page_path y"] by simp
    have "page_path y \<noteq> p" using p(1) small_page_path(2) [of y] by auto
    then have "w_mem w' u ! idx_pt y = w_mem w u ! idx_pt y"
      if "table_at s w (page_path y) = Some a" "p2v (w_ctx w) a = Some u" for a u
      using A(4) [of "page_path y" a u "idx_pt y"] that idx_bound(4) by simp
    then show ?thesis using same sp new(4) by (auto simp: pte_def w' split: option.splits)
  qed
qed

lemma add_table_ok:
  assumes ok: "vm_ok good held s w" and add: "adds_table p2v held s w p t v i n nv c w'"
    and c: "good c" "held c = insert n (held (w_ctx w))"
  shows "vm_ok good held s w' \<and> pte s w' = pte s w"
proof
  note new = adds_tableD(9) [OF add] and w' = adds_tableD(12) [OF add]
  note T = add_table_tables [OF ok add] and notn = add_table_entries(3) [OF ok add]
  note mid = add_table_middle [OF ok add]
  show "vm_ok good held s w'"
    unfolding vm_ok_def
  proof (intro conjI allI impI, goal_cases)
    case 1 then show ?case using c by (simp add: w')
  next
    case (2 q a) then show ?case using vm_okD(2) [OF ok, of q a] T [of q] c by (auto simp: w' split: if_splits)
  next
    case (3 q a) then show ?case using vm_okD(3) [OF ok, of q a] T [of q] new by (auto split: if_splits)
  next
    case (4 u) then show ?case using vm_okD(4) [OF ok] by (simp add: w' VMM_ENTRIES_PER_TABLE_def)
  next
    case (5 q q' a)
    then show ?case using vm_okD(5) [OF ok, of q q' a] T [of q] T [of q'] notn [of q a] notn [of q' a] by (auto split: if_splits)
  next
    case (6 q a u j)
    then show ?case using mid [of q a u j] by blast
  next
    case (7 q a u j)
    then show ?case using mid [of q a u j] by blast
  qed
  show "pte s w' = pte s w" using add_table_pte [OF ok add] by (rule ext)
qed

lemma table_pointer:
  assumes ok: "vm_ok good held s w" and sp: "phys_to_virt s = Some p2v"
    and p: "length p \<le> 3" "small p" "table_at s w p = Some t"
  obtains v where "p2v (w_ctx w) t = Some v" "table_from_phys (Some s) (w_ctx w) t = Some v"
proof -
  obtain v where v: "p2v (w_ctx w) t = Some v" using p2v_total [OF vm_okD(1) [OF ok] vm_okD(2) [OF ok p]] by blast
  moreover have "table_from_phys (Some s) (w_ctx w) t = Some v"
    using v frame_ok_aligned [OF vm_okD(3) [OF ok p]] sp by (simp add: table_from_phys_def)
  ultimately show thesis by (rule that)
qed

lemma next_level:
  assumes ok: "vm_ok good held s w" and sp: "alloc_frame s = Some alloc" "phys_to_virt s = Some p2v"
    and p: "length p \<le> 2" "small p" "table_at s w p = Some t" "p2v (w_ctx w) t = Some v" and i: "i < 512"
  obtains res w' where "get_or_alloc_next_table s v i w = (res, w')" "vm_ok good held s w'" "pte s w' = pte s w"
    "w_invlpg w' = w_invlpg w" "avail (w_ctx w) \<le> avail (w_ctx w') + 1"
    "\<And>rc. res = Inl rc \<Longrightarrow> rc = VMM_ERR_NOMEM \<and> avail (w_ctx w) = 0 \<and> avail (w_ctx w') = 0 \<and> table_at s w (i # p) = None"
    "\<And>v'. res = Inr v' \<Longrightarrow> \<exists>t'. table_at s w' (i # p) = Some t' \<and> p2v (w_ctx w') t' = Some v'"
proof (cases "present (w_mem w v ! i)")
  case True
  let ?e = "w_mem w v ! i"
  have huge: "?e AND VMM_PTE_HUGE = 0" using vm_okD(6) [OF ok p(1-3), of v i] p(4) sp i True by simp
  then have t': "table_at s w (i # p) = Some (?e AND VMM_PTE_ADDR_MASK)" using p sp True by simp
  obtain v' where v': "p2v (w_ctx w) (?e AND VMM_PTE_ADDR_MASK) = Some v'"
    "table_from_phys (Some s) (w_ctx w) (?e AND VMM_PTE_ADDR_MASK) = Some v'"
    using table_pointer [OF ok sp(2) _ _ t'] p i by auto
  have call: "get_or_alloc_next_table s v i w = (Inr v', w)"
    using True huge v'(2) by (simp add: get_or_alloc_next_table_def present_def)
  show thesis by (rule that [OF call ok]) (use t' v' in \<open>auto simp del: table_at.simps\<close>)
next
  case False
  show thesis
  proof (cases "avail (w_ctx w) = 0")
    case True
    have call: "get_or_alloc_next_table s v i w = (Inl VMM_ERR_NOMEM, w)"
      using False sp alloc_none [OF vm_okD(1) [OF ok] True] by (simp add: get_or_alloc_next_table_def present_def)
    have "table_at s w (i # p) = None" using p sp False by simp
    then show thesis by (intro that [OF call ok]) (use True in \<open>simp_all del: table_at.simps\<close>)
  next
    case room: False
    obtain n c where n: "alloc (w_ctx w) = (n, c)" "n \<noteq> VMM_INVALID_PHYS" "good c" "n \<notin> held (w_ctx w)"
      "held c = insert n (held (w_ctx w))" "avail c = avail (w_ctx w) - 1" "frame_ok n" "p2v c = p2v (w_ctx w)"
      using alloc_new [OF vm_okD(1) [OF ok]] room by blast
    obtain nv where nv: "p2v (w_ctx w) n = Some nv" using p2v_total [OF n(3), of n] n(5,8) by auto
    define w' where "w' = w\<lparr>w_ctx := c, w_mem := (w_mem w)(nv := replicate 512 0,
        v := (w_mem w v)[i := (n AND VMM_PTE_ADDR_MASK) OR VMM_PTE_PRESENT OR VMM_PTE_WRITABLE])\<rparr>"
    have ne: "nv \<noteq> v"
      using p2v_inj [OF vm_okD(1) [OF ok] nv, of t] p vm_okD(2) [OF ok _ p(2,3)] n(4) by auto
    have zero: "vmm_zero_page (w_mem w nv) = replicate 512 0"
      using vm_okD(4) [OF ok, of nv] by (simp add: vmm_zero_page_def VMM_ENTRIES_PER_TABLE_def fill_loop_whole)
    have call: "get_or_alloc_next_table s v i w = (Inr nv, w')"
      using False sp n(1,2,8) nv frame_ok_aligned [OF n(7)] ne
      by (simp add: get_or_alloc_next_table_def present_def table_from_phys_def w'_def zero Let_def)
    have add: "adds_table p2v held s w p t v i n nv c w'" using sp(2) p i False n(4,7,8) nv w'_def by (simp add: adds_table_def)
    note a = add_table_ok [OF ok add n(3,5)]
    have t': "table_at s w' (i # p) = Some n"
      using add_table_tables [OF ok add, of "i # p"] p i by simp
    show thesis
      by (rule that [OF call conjunct1 [OF a] conjunct2 [OF a]])
        (use t' nv n(6,8) in \<open>auto simp: w'_def simp del: table_at.simps\<close>)
  qed
qed

text \<open>The walk of query and unmap, and the creating walk of map.\<close>

lemma next_table_path:
  assumes ok: "vm_ok good held s w" and sp: "phys_to_virt s = Some p2v"
    and p: "length p \<le> 2" "small p" "table_at s w p = Some t" "p2v (w_ctx w) t = Some v" and i: "i < 512"
  shows "case next_table (Some s) w (w_mem w v ! i) of
      Inl rc \<Rightarrow> rc = VMM_ERR_NOT_FOUND \<and> table_at s w (i # p) = None
    | Inr v' \<Rightarrow> \<exists>t'. table_at s w (i # p) = Some t' \<and> p2v (w_ctx w) t' = Some v'"
proof (cases "table_at s w (i # p)")
  case None
  then show ?thesis using p sp by (auto simp: next_table_def present_def split: if_splits)
next
  case (Some t')
  then have e: "present (w_mem w v ! i)" "w_mem w v ! i AND VMM_PTE_HUGE = 0" "t' = w_mem w v ! i AND VMM_PTE_ADDR_MASK"
    using p sp by (auto simp: Let_def split: if_splits)
  obtain v' where "p2v (w_ctx w) t' = Some v'" "table_from_phys (Some s) (w_ctx w) t' = Some v'"
    using table_pointer [OF ok sp _ _ Some] p i by auto
  then show ?thesis using e Some by (auto simp: next_table_def present_def simp del: table_at.simps)
qed

lemma walk_path:
  assumes ok: "vm_ok good held s w" and sp: "phys_to_virt s = Some p2v"
  shows "case walk_tables (Some s) w x of
      Inl rc \<Rightarrow> rc = VMM_ERR_NOT_FOUND \<and> table_at s w (page_path x) = None
    | Inr pt \<Rightarrow> \<exists>t. table_at s w (page_path x) = Some t \<and> p2v (w_ctx w) t = Some pt"
proof -
  obtain v4 where v4: "p2v (w_ctx w) (root_paddr s) = Some v4" "table_from_phys (Some s) (w_ctx w) (root_paddr s) = Some v4"
    using table_pointer [OF ok sp, of "[]"] by auto
  have none: "table_at s w p = None \<Longrightarrow> table_at s w (i # p) = None" for i p by simp
  note n4 = next_table_path [OF ok sp, of "[]" _ v4 "idx_pml4 x", OF _ _ _ v4(1)]
  show ?thesis
  proof (cases "next_table (Some s) w (w_mem w v4 ! idx_pml4 x)")
    case (Inl rc)
    then have "rc = VMM_ERR_NOT_FOUND" "table_at s w [idx_pml4 x] = None" using n4 idx_bound by auto
    then show ?thesis using Inl v4(2) none by (simp add: walk_tables_def bind_table_def page_path_def del: table_at.simps)
  next
    case (Inr v3)
    then obtain t3 where t3: "table_at s w [idx_pml4 x] = Some t3" "p2v (w_ctx w) t3 = Some v3" using n4 idx_bound by auto
    note n3 = next_table_path [OF ok sp _ _ t3, of "idx_pdpt x"]
    show ?thesis
    proof (cases "next_table (Some s) w (w_mem w v3 ! idx_pdpt x)")
      case (Inl rc)
      then have "rc = VMM_ERR_NOT_FOUND" "table_at s w [idx_pdpt x, idx_pml4 x] = None" using n3 idx_bound by auto
      then show ?thesis
        using Inl Inr v4(2) none by (simp add: walk_tables_def bind_table_def page_path_def del: table_at.simps)
    next
      case Inr3: (Inr v2)
      then obtain t2 where t2: "table_at s w [idx_pdpt x, idx_pml4 x] = Some t2" "p2v (w_ctx w) t2 = Some v2"
        using n3 idx_bound by auto
      have "walk_tables (Some s) w x = next_table (Some s) w (w_mem w v2 ! idx_pd x)"
        using Inr Inr3 v4(2) by (simp add: walk_tables_def bind_table_def)
      then show ?thesis
        using next_table_path [OF ok sp _ _ t2, of "idx_pd x"] idx_bound unfolding page_path_def by simp
    qed
  qed
qed

lemma query_exact:
  assumes ok: "vm_ok good held s w" and sp: "phys_to_virt s = Some p2v"
  shows "vmm_query_page (Some s) x (Some out) w =
    (if \<not> page_addr x then (VMM_ERR_INVAL, Some out)
     else case vspace s w x of
        None \<Rightarrow> (VMM_ERR_NOT_FOUND, Some out)
      | Some (pa, fl) \<Rightarrow> (VMM_MAP_OK, Some (out\<lparr>m_vaddr := x, m_paddr := pa, m_flags := fl\<rparr>)))"
  using walk_path [OF ok sp, of x] sp
  by (auto simp: vmm_query_page_def vspace_def pte_def page_addr_def present_def Let_def split: sum.splits)

lemma unmap_exact:
  assumes ok: "vm_ok good held s w" and sp: "phys_to_virt s = Some p2v"
  obtains w' where "vmm_unmap_page (Some s) x w =
      (if \<not> page_addr x then VMM_ERR_INVAL else if vspace s w x = None then VMM_ERR_NOT_FOUND else VMM_MAP_OK, w')"
    "vm_ok good held s w'" "vspace s w' = (vspace s w)(x := None)" "w_ctx w' = w_ctx w"
    "w_invlpg w' = w_invlpg w @ (if vspace s w x = None then [] else [x])"
proof (cases "vspace s w x")
  case None
  then have "vmm_unmap_page (Some s) x w = (if \<not> page_addr x then VMM_ERR_INVAL else VMM_ERR_NOT_FOUND, w)"
    using walk_path [OF ok sp, of x] sp
    by (auto simp: vmm_unmap_page_def vspace_def pte_def page_addr_def present_def split: sum.splits if_splits)
  moreover have "vspace s w = (vspace s w)(x := None)" using None by (simp add: fun_upd_idem)
  ultimately show thesis using that [of w] ok None by simp
next
  case (Some y)
  then have pa: "page_addr x" and e: "pte s w x \<noteq> None" by (auto simp: vspace_def split: if_splits)
  obtain t pt where t: "table_at s w (page_path x) = Some t" "p2v (w_ctx w) t = Some pt"
    "walk_tables (Some s) w x = Inr pt" "present (w_mem w pt ! idx_pt x)"
    using e walk_path [OF ok sp, of x] sp by (auto simp: pte_def split: option.splits if_splits sum.splits)
  let ?u = "set_entry w pt (idx_pt x) 0" and ?w = "vmm_invalidate_page x (set_entry w pt (idx_pt x) 0)"
  have call: "vmm_unmap_page (Some s) x w = (VMM_MAP_OK, ?w)"
    using pa t by (simp add: vmm_unmap_page_def page_addr_def present_def set_entry_def)
  have tab: "table_at s ?w q = table_at s ?u q" for q
    by (induction q) (auto split: option.splits)
  have okw: "vm_ok good held s ?w"
    using leaf_ok [OF ok sp _ _ t(1,2), of "idx_pt x" 0] unfolding vm_ok_def tab by simp
  have pw: "pte s ?w y = pte s ?u y" for y unfolding pte_def tab invalidate_simps ..
  have "vspace s ?w = (vspace s w)(x := None)"
  proof
    fix y
    show "vspace s ?w y = ((vspace s w)(x := None)) y"
      using leaf_pte [OF ok sp t(1,2), of 0 y] page_eq [of y x] pa by (auto simp: vspace_def pw present_def)
  qed
  then show thesis using that [of ?w] call pa Some okw by auto
qed

text \<open>The creating walk: three levels, none of which changes what is mapped.\<close>

definition walk_step :: "'c vmm_space \<Rightarrow> u64 \<Rightarrow> 'c vmm_world \<Rightarrow> (vmm_status + u64) \<times> 'c vmm_world \<Rightarrow> nat list \<Rightarrow> nat \<Rightarrow> bool" where
  "walk_step s x w r p k \<longleftrightarrow>
     (case r of (res, w') \<Rightarrow>
        vm_ok good held s w' \<and> pte s w' = pte s w \<and> w_invlpg w' = w_invlpg w \<and> avail (w_ctx w) \<le> avail (w_ctx w') + k \<and>
        (case res of
           Inl rc \<Rightarrow> rc = VMM_ERR_NOMEM \<and> avail (w_ctx w) < k \<and> avail (w_ctx w') = 0 \<and> pte s w x = None
         | Inr v \<Rightarrow> \<exists>t. table_at s w' p = Some t \<and> p2v (w_ctx w') t = Some v))"

lemma pte_tables:
  assumes "table_at s w p = None" "p \<in> {[idx_pml4 x], [idx_pdpt x, idx_pml4 x], page_path x}"
  shows "pte s w x = None"
proof -
  have up: "table_at s w q = None \<Longrightarrow> table_at s w (i # q) = None" for i q by simp
  have "table_at s w (page_path x) = None" using assms up unfolding page_path_def by blast
  then show ?thesis by (simp add: pte_def)
qed

lemma walk_step_next:
  assumes sp: "alloc_frame s = Some alloc" "phys_to_virt s = Some p2v"
    and st: "walk_step s x w (Inr v, w1) p k" and p: "length p \<le> 2" "small p" and i: "i < 512"
    and path: "i # p \<in> {[idx_pml4 x], [idx_pdpt x, idx_pml4 x], page_path x}"
  shows "walk_step s x w (get_or_alloc_next_table s v i w1) (i # p) (k + 1)"
proof -
  obtain t where t: "table_at s w1 p = Some t" "p2v (w_ctx w1) t = Some v" "vm_ok good held s w1" "pte s w1 = pte s w"
    "w_invlpg w1 = w_invlpg w" "avail (w_ctx w) \<le> avail (w_ctx w1) + k"
    using st by (auto simp: walk_step_def)
  obtain res w' where n: "get_or_alloc_next_table s v i w1 = (res, w')" "vm_ok good held s w'" "pte s w' = pte s w1"
    "w_invlpg w' = w_invlpg w1" "avail (w_ctx w1) \<le> avail (w_ctx w') + 1"
    "\<And>rc. res = Inl rc \<Longrightarrow> rc = VMM_ERR_NOMEM \<and> avail (w_ctx w1) = 0 \<and> avail (w_ctx w') = 0 \<and> table_at s w1 (i # p) = None"
    "\<And>v'. res = Inr v' \<Longrightarrow> \<exists>t'. table_at s w' (i # p) = Some t' \<and> p2v (w_ctx w') t' = Some v'"
    using next_level [OF t(3) sp p t(1,2) i] by blast
  show ?thesis
  proof (cases res)
    case (Inl rc)
    have "pte s w1 x = None" using pte_tables [OF _ path] n(6) [OF Inl] by blast
    then have "pte s w x = None" using t(4) by simp
    then show ?thesis using n(2-5) n(6) [OF Inl] t(4-6) Inl by (simp add: walk_step_def n(1) del: table_at.simps)
  next
    case (Inr v')
    then show ?thesis using n(2-5) n(7) [OF Inr] t(4-6) by (simp add: walk_step_def n(1) del: table_at.simps)
  qed
qed

text \<open>What \<open>vmm_map_page\<close> may answer and leave behind.\<close>

definition map_result :: "'c vmm_space \<Rightarrow> u64 \<Rightarrow> u64 \<Rightarrow> u64 \<Rightarrow> 'c vmm_world \<Rightarrow> vmm_status \<times> 'c vmm_world \<Rightarrow> bool" where
  "map_result s x pa fl w r \<longleftrightarrow>
     (case r of (rc, w') \<Rightarrow>
        vm_ok good held s w' \<and> w_invlpg w' = w_invlpg w \<and>
        (rc = (if vspace s w x \<noteq> None then VMM_ERR_EXISTS else VMM_MAP_OK) \<or>
         rc = VMM_ERR_NOMEM \<and> vspace s w x = None \<and> avail (w_ctx w) < 3 \<and> avail (w_ctx w') = 0) \<and>
        avail (w_ctx w) \<le> avail (w_ctx w') + 3 \<and>
        vspace s w' = (if rc = VMM_MAP_OK then
          (vspace s w)(x \<mapsto> (pa AND VMM_PTE_ADDR_MASK, VMM_PTE_PRESENT OR (fl AND vmm_allowed))) else vspace s w))"

lemma same_pte: "pte s w' = pte s w \<Longrightarrow> vspace s w' = vspace s w"
  by (auto simp: vspace_def fun_eq_iff)

lemma walk_fails:
  assumes "walk_step s x w (Inl rc, w') p k" "k \<le> 3"
  shows "map_result s x pa fl w (rc, w')"
  using assms same_pte [of s w' w] by (auto simp: walk_step_def map_result_def vspace_def)

lemma walk_done:
  assumes st: "walk_step s x w (Inr pt, w') (page_path x) k" "k \<le> 3" and sp: "phys_to_virt s = Some p2v" and x: "page_addr x"
  shows "map_result s x pa fl w
    (if w_mem w' pt ! idx_pt x AND VMM_PTE_PRESENT \<noteq> 0 then (VMM_ERR_EXISTS, w')
     else (VMM_MAP_OK, set_entry w' pt (idx_pt x) ((pa AND VMM_PTE_ADDR_MASK) OR VMM_PTE_PRESENT OR (fl AND vmm_allowed))))"
proof -
  obtain t where t: "table_at s w' (page_path x) = Some t" "p2v (w_ctx w') t = Some pt" and ok: "vm_ok good held s w'"
    and eq: "pte s w' = pte s w" "w_invlpg w' = w_invlpg w" "avail (w_ctx w) \<le> avail (w_ctx w') + 3"
    using st by (auto simp: walk_step_def)
  have mapped: "vspace s w x \<noteq> None \<longleftrightarrow> w_mem w' pt ! idx_pt x AND VMM_PTE_PRESENT \<noteq> 0"
    unfolding vspace_def eq(1) [symmetric] using x t sp by (simp add: pte_def present_def)
  let ?e = "(pa AND VMM_PTE_ADDR_MASK) OR VMM_PTE_PRESENT OR (fl AND vmm_allowed)"
  note e = leaf_entry_facts [of pa fl]
  have "vspace s (set_entry w' pt (idx_pt x) ?e) y =
      ((vspace s w)(x \<mapsto> (pa AND VMM_PTE_ADDR_MASK, VMM_PTE_PRESENT OR (fl AND vmm_allowed)))) y" for y
    using leaf_pte [OF ok sp t, of ?e y] page_eq [of y x] x e by (auto simp: vspace_def eq(1))
  then have "vspace s (set_entry w' pt (idx_pt x) ?e) =
      (vspace s w)(x \<mapsto> (pa AND VMM_PTE_ADDR_MASK, VMM_PTE_PRESENT OR (fl AND vmm_allowed)))" by (rule ext)
  then show ?thesis
    using mapped ok same_pte [OF eq(1)] eq(2,3) leaf_ok [OF ok sp _ _ t, of "idx_pt x" ?e]
    by (simp add: map_result_def)
qed

lemma map_exact:
  assumes ok: "vm_ok good held s w" and sp: "alloc_frame s = Some alloc" "phys_to_virt s = Some p2v"
    and args: "page_addr x" "vmm_is_aligned_4k pa"
  shows "map_result s x pa fl w (vmm_map_page (Some s) x pa fl w)"
proof -
  obtain v4 where v4: "p2v (w_ctx w) (root_paddr s) = Some v4" "table_from_phys (Some s) (w_ctx w) (root_paddr s) = Some v4"
    using table_pointer [OF ok sp(2), of "[]"] by auto
  define fin where "fin = (\<lambda>pt (w :: 'c vmm_world). if w_mem w pt ! idx_pt x AND VMM_PTE_PRESENT \<noteq> 0 then (VMM_ERR_EXISTS, w)
    else (VMM_MAP_OK, set_entry w pt (idx_pt x) ((pa AND VMM_PTE_ADDR_MASK) OR VMM_PTE_PRESENT OR (fl AND vmm_allowed))))"
  have call: "vmm_map_page (Some s) x pa fl w =
      on_table (get_or_alloc_next_table s v4 (idx_pml4 x) w) (\<lambda>pdpt w.
      on_table (get_or_alloc_next_table s pdpt (idx_pdpt x) w) (\<lambda>pd w.
      on_table (get_or_alloc_next_table s pd (idx_pd x) w) fin))"
    unfolding vmm_map_page_def fin_def set_entry_def Let_def using args v4(2) by (simp add: page_addr_def)
  have st0: "walk_step s x w (Inr v4, w) [] 0" using ok v4 by (simp add: walk_step_def)
  obtain r1 w1 where r1: "get_or_alloc_next_table s v4 (idx_pml4 x) w = (r1, w1)" by fastforce
  have st1: "walk_step s x w (r1, w1) [idx_pml4 x] 1"
    using walk_step_next [OF sp st0, of "idx_pml4 x"] idx_bound r1 by simp
  show ?thesis
  proof (cases r1)
    case (Inl rc)
    then show ?thesis using walk_fails [OF st1 [unfolded Inl]] r1 by (simp add: call on_table_def)
  next
    case 1: (Inr v3)
    obtain r2 w2 where r2: "get_or_alloc_next_table s v3 (idx_pdpt x) w1 = (r2, w2)" by fastforce
    have st2: "walk_step s x w (r2, w2) [idx_pdpt x, idx_pml4 x] 2"
      using walk_step_next [OF sp st1 [unfolded 1], of "idx_pdpt x"] idx_bound r2 by (simp add: numeral_2_eq_2)
    show ?thesis
    proof (cases r2)
      case (Inl rc)
      then show ?thesis using walk_fails [OF st2 [unfolded Inl]] r1 r2 1 by (simp add: call on_table_def)
    next
      case 2: (Inr v2)
      obtain r3 w3 where r3: "get_or_alloc_next_table s v2 (idx_pd x) w2 = (r3, w3)" by fastforce
      have st3: "walk_step s x w (r3, w3) (page_path x) 3"
        using walk_step_next [OF sp st2 [unfolded 2], of "idx_pd x"] idx_bound r3 by (simp add: page_path_def)
      show ?thesis
      proof (cases r3)
        case (Inl rc)
        then show ?thesis using walk_fails [OF st3 [unfolded Inl]] r1 r2 r3 1 2 by (simp add: call on_table_def)
      next
        case 3: (Inr v1)
        then show ?thesis
          using walk_done [OF st3 [unfolded 3] _ sp(2) args(1), of pa fl] r1 r2 r3 1 2 by (simp add: call on_table_def fin_def)
      qed
    qed
  qed
qed

text \<open>Mapping a page that is mapped changes nothing at all.\<close>

lemma next_table_present: "next_table (Some s) w (w_mem w v ! i) = Inr v' \<Longrightarrow> get_or_alloc_next_table s v i w = (Inr v', w)"
  by (auto simp: next_table_def get_or_alloc_next_table_def split: if_splits option.splits)

lemma map_mapped:
  assumes ok: "vm_ok good held s w" and sp: "phys_to_virt s = Some p2v" and x: "page_addr x" "vmm_is_aligned_4k pa"
    and m: "vspace s w x \<noteq> None"
  shows "vmm_map_page (Some s) x pa fl w = (VMM_ERR_EXISTS, w)"
proof -
  obtain pt where pt: "walk_tables (Some s) w x = Inr pt" "present (w_mem w pt ! idx_pt x)"
    using walk_path [OF ok sp, of x] m sp by (auto simp: vspace_def pte_def split: sum.splits if_splits option.splits)
  then obtain v4 v3 v2 where "table_from_phys (Some s) (w_ctx w) (root_paddr s) = Some v4"
    "next_table (Some s) w (w_mem w v4 ! idx_pml4 x) = Inr v3" "next_table (Some s) w (w_mem w v3 ! idx_pdpt x) = Inr v2"
    "next_table (Some s) w (w_mem w v2 ! idx_pd x) = Inr pt"
    by (auto simp: walk_tables_def bind_table_def split: option.splits sum.splits)
  then show ?thesis
    using x pt(2) by (simp add: vmm_map_page_def page_addr_def next_table_present on_table_def present_def Let_def)
qed

lemma map_rejects:
  "\<not> page_addr x \<or> \<not> vmm_is_aligned_4k pa \<Longrightarrow> vmm_map_page (Some s) x pa fl w = (VMM_ERR_INVAL, w)"
  by (auto simp: vmm_map_page_def page_addr_def)

text \<open>A zeroed root table is the empty address space.\<close>

lemma fresh_space:
  assumes g: "good (w_ctx w)" and r: "root_paddr s \<in> held (w_ctx w)" "frame_ok (root_paddr s)"
    and sp: "phys_to_virt s = Some p2v" and len: "\<forall>v. length (w_mem w v) = VMM_ENTRIES_PER_TABLE"
    and z: "p2v (w_ctx w) (root_paddr s) = Some v" "w_mem w v = replicate VMM_ENTRIES_PER_TABLE 0"
  shows "vm_ok good held s w" "vspace s w = Map.empty"
proof -
  have none: "i < 512 \<Longrightarrow> small p \<Longrightarrow> table_at s w (i # p) = None" for i p
  proof (induction p arbitrary: i)
    case Nil
    then show ?case using sp z by (simp add: present_def VMM_ENTRIES_PER_TABLE_def)
  next
    case (Cons j p)
    then have "table_at s w (j # p) = None" by simp
    then show ?case by simp
  qed
  have root: "small p \<Longrightarrow> table_at s w p = Some t \<Longrightarrow> p = [] \<and> t = root_paddr s" for p t
    by (cases p) (simp_all add: none del: table_at.simps(2))
  show "vm_ok good held s w"
    unfolding vm_ok_def
  proof (intro conjI allI impI)
    fix p t u i
    assume "small p" "table_at s w p = Some t" "the (phys_to_virt s) (w_ctx w) t = Some u" "i < (512::nat)"
      and e: "present (w_mem w u ! i)"
    then have "w_mem w u ! i = 0" using root z sp by (auto simp: VMM_ENTRIES_PER_TABLE_def)
    then show "w_mem w u ! i AND VMM_PTE_HUGE = 0" "w_mem w u ! i AND VMM_PTE_USER = 0" by simp_all
  qed (use g r len root in \<open>auto dest: root\<close>)
  have "pte s w x = None" for x
    using none [of "idx_pd x" "[idx_pdpt x, idx_pml4 x]"] idx_bound by (simp add: pte_def page_path_def)
  then show "vspace s w = Map.empty" by (auto simp: vspace_def)
qed

lemma call_refines:
  assumes ok: "vm_ok good held s w" and sp: "alloc_frame s = Some alloc" "phys_to_virt s = Some p2v"
    and room: "3 \<le> avail (w_ctx w)"
  shows "fst (vmm_exec s c w) = fst (av_exec c (vspace s w)) \<and>
    vspace s (snd (vmm_exec s c w)) = snd (av_exec c (vspace s w)) \<and> vm_ok good held s (snd (vmm_exec s c w)) \<and>
    avail (w_ctx w) \<le> avail (w_ctx (snd (vmm_exec s c w))) + 3"
proof (cases c)
  case (VMap x pa fl)
  show ?thesis
  proof (cases "page_addr x \<and> vmm_is_aligned_4k pa")
    case True
    then show ?thesis
      using map_exact [OF ok sp, of x pa fl] room VMap
      by (auto simp: map_result_def split_beta split: if_splits)
  next
    case False
    then show ?thesis using VMap ok map_rejects [of x pa s fl w] by auto
  qed
next
  case (VUnmap x)
  obtain w' where w': "vmm_unmap_page (Some s) x w =
      (if \<not> page_addr x then VMM_ERR_INVAL else if vspace s w x = None then VMM_ERR_NOT_FOUND else VMM_MAP_OK, w')"
    "vm_ok good held s w'" "vspace s w' = (vspace s w)(x := None)" "w_ctx w' = w_ctx w"
    using unmap_exact [OF ok sp(2), of x] by blast
  have "\<not> page_addr x \<Longrightarrow> vspace s w x = None" by (simp add: vspace_def)
  then show ?thesis using w' VUnmap by (auto simp: fun_upd_idem)
next
  case (VQuery x)
  then show ?thesis using query_exact [OF ok sp(2), of x blank_mapping] ok
    by (auto simp: blank_mapping_def split: option.splits)
qed

lemma calls_refine:
  assumes sp: "alloc_frame s = Some alloc" "phys_to_virt s = Some p2v"
  shows "vm_ok good held s w \<Longrightarrow> 3 * length cs \<le> avail (w_ctx w) \<Longrightarrow>
    fst (run_calls (vmm_exec s) cs w) = fst (run_calls av_exec cs (vspace s w)) \<and>
    vspace s (snd (run_calls (vmm_exec s) cs w)) = snd (run_calls av_exec cs (vspace s w)) \<and>
    vm_ok good held s (snd (run_calls (vmm_exec s) cs w))"
proof (induction cs arbitrary: w)
  case (Cons c cs)
  have "3 \<le> avail (w_ctx w)" using Cons.prems(2) by simp
  note c = call_refines [OF Cons.prems(1) sp this, of c]
  then show ?case using Cons.IH [of "snd (vmm_exec s c w)"] Cons.prems(2)
    by (simp add: split_beta Let_def)
qed simp

text \<open>The invariant needs no frames to be left.\<close>

lemma call_keeps:
  assumes ok: "vm_ok good held s w" and sp: "alloc_frame s = Some alloc" "phys_to_virt s = Some p2v"
  shows "vm_ok good held s (snd (vmm_exec s c w))"
proof (cases c)
  case (VMap x pa fl)
  show ?thesis
  proof (cases "page_addr x \<and> vmm_is_aligned_4k pa")
    case True
    then show ?thesis using map_exact [OF ok sp, of x pa fl] VMap by (auto simp: map_result_def split_beta)
  next
    case False
    then show ?thesis using VMap ok map_rejects [of x pa s fl w] by auto
  qed
next
  case (VUnmap x)
  show ?thesis by (rule unmap_exact [OF ok sp(2), of x]) (simp add: VUnmap)
qed (simp add: ok)

lemma calls_keep:
  assumes sp: "alloc_frame s = Some alloc" "phys_to_virt s = Some p2v"
  shows "vm_ok good held s w \<Longrightarrow> vm_ok good held s (snd (run_calls (vmm_exec s) cs w))"
  by (induction cs arbitrary: w) (simp_all add: split_beta Let_def call_keeps [OF _ sp])

text \<open>What the processor finds on its walk.\<close>

lemma level_walks:
  assumes ok: "vm_ok good held s w" and sp: "phys_to_virt s = Some p2v"
    and p: "length p \<le> 2" "small p" "table_at s w p = Some t" "p2v (w_ctx w) t = Some v" and i: "i < 512"
  shows "cpu_level False (w_mem w v ! i) = table_at s w (i # p)" "cpu_level True (w_mem w v ! i) = None"
  using vm_okD(6) [OF ok p(1-3), of v i] p sp i by (auto simp: cpu_level_def)

lemma cpu_walk:
  assumes ok: "vm_ok good held s w" and sp: "phys_to_virt s = Some p2v"
    and fr: "\<And>a v. p2v (w_ctx w) a = Some v \<Longrightarrow> frames a = w_mem w v"
  shows "cpu_translate frames (root_paddr s) False x = map_option (\<lambda>e. e AND VMM_PTE_ADDR_MASK) (pte s w x)"
    "cpu_translate frames (root_paddr s) True x = None"
proof -
  have lev: "cpu_level False (frames t ! i) = table_at s w (i # p)" "cpu_level True (frames t ! i) = None"
    if p: "length p \<le> 2" "small p" "table_at s w p = Some t" "i < 512" for p t i
  proof -
    have "length p \<le> 3" using p(1) by simp
    then obtain v where v: "p2v (w_ctx w) t = Some v" by (rule table_pointer [OF ok sp _ p(2,3)])
    show "cpu_level False (frames t ! i) = table_at s w (i # p)" "cpu_level True (frames t ! i) = None"
      using level_walks [OF ok sp p(1-3) v p(4)] fr [OF v] by (simp_all del: table_at.simps)
  qed
  show "cpu_translate frames (root_paddr s) True x = None"
    using lev(2) [of "[]" "root_paddr s" "idx_pml4 x"] idx_bound by (simp add: cpu_translate_def)
  have "cpu_translate frames (root_paddr s) False x =
      Option.bind (table_at s w (page_path x)) (\<lambda>t. cpu_leaf False (frames t ! idx_pt x))"
  proof -
    have up: "table_at s w q = None \<Longrightarrow> table_at s w (i # q) = None" for i q by simp
    show ?thesis
      using lev(1) [of "[]" "root_paddr s" "idx_pml4 x"] lev(1) [of "[idx_pml4 x]" _ "idx_pdpt x"]
        lev(1) [of "[idx_pdpt x, idx_pml4 x]" _ "idx_pd x"] idx_bound up
      by (cases "table_at s w [idx_pml4 x]"; cases "table_at s w [idx_pdpt x, idx_pml4 x]")
         (simp_all add: cpu_translate_def page_path_def del: table_at.simps(2))
  qed
  also have "\<dots> = map_option (\<lambda>e. e AND VMM_PTE_ADDR_MASK) (pte s w x)"
  proof (cases "table_at s w (page_path x)")
    case (Some t)
    obtain v where "p2v (w_ctx w) t = Some v" by (rule table_pointer [OF ok sp _ _ Some]) simp_all
    then show ?thesis using Some sp fr by (simp add: pte_def cpu_leaf_def)
  qed (simp add: pte_def)
  finally show "cpu_translate frames (root_paddr s) False x = map_option (\<lambda>e. e AND VMM_PTE_ADDR_MASK) (pte s w x)" .
qed

end

section \<open>Page tables from the physical frame allocator\<close>

text \<open>The kernel's frame allocator behind \<open>alloc_frame\<close> and \<open>free_frame\<close>, and a direct map of physical memory at
  \<open>off\<close> behind \<open>phys_to_virt\<close>. The allocator must manage at most \<open>2 ^ 40\<close> frames, the physical addresses a table
  entry can hold, and no frame may be mapped at address zero.\<close>

definition pmm_vmm_alloc :: "pmm_state \<Rightarrow> u64 \<times> pmm_state" where
  "pmm_vmm_alloc p = (case pmm_alloc_frame (Some p) of (a, q) \<Rightarrow> (a, the q))"

definition pmm_vmm_free :: "pmm_state \<Rightarrow> u64 \<Rightarrow> pmm_state" where
  "pmm_vmm_free p a = the (snd (pmm_free_frame (Some p) a))"

definition direct_map :: "u64 \<Rightarrow> pmm_state \<Rightarrow> u64 \<Rightarrow> u64 option" where
  "direct_map off p a = (if off + a = 0 then None else Some (off + a))"

definition held_frames :: "pmm_state \<Rightarrow> u64 set" where
  "held_frames p = {a. \<exists>f < unat (frame_count p). f \<notin> free_set p \<and> a = of_nat f * PMM_PAGE_SIZE}"

definition pmm_direct :: "u64 \<Rightarrow> pmm_state \<Rightarrow> bool" where
  "pmm_direct off p \<longleftrightarrow> pmm_wf p \<and> unat (frame_count p) \<le> 2 ^ 40 \<and>
     (\<forall>f < unat (frame_count p). off + of_nat f * PMM_PAGE_SIZE \<noteq> 0)"

lemma invalid_phys: "VMM_INVALID_PHYS = PMM_INVALID_FRAME"
  by (simp add: mcs_consts)

lemma frame_ok_addr:
  assumes "f < 2 ^ 40"
  shows "frame_ok (of_nat f * PMM_PAGE_SIZE)"
proof -
  let ?a = "of_nat f * PMM_PAGE_SIZE :: u64"
  have a: "?a = push_bit 12 (of_nat f)" by (simp add: push_bit_eq_mult mcs_consts)
  have hi: "bit f k \<Longrightarrow> k < 40" for k
  proof -
    assume "bit f k"
    then have "\<not> f < 2 ^ k" unfolding bit_iff_odd using div_less [of f "2 ^ k"] by fastforce
    then have "2 ^ k \<le> f" by simp
    then have "(2::nat) ^ k < 2 ^ 40" using assms by linarith
    then show "k < 40" by (rule power_less_imp_less_exp [rotated]) simp
  qed
  have m: "VMM_PTE_ADDR_MASK = push_bit 12 (mask 40)" by (simp add: mcs_consts mask_eq_exp_minus_1)
  show ?thesis unfolding frame_ok_def a m
    by (rule bit_word_eqI) (auto simp: bit_simps dest: hi)
qed

lemma pmm_direct_alloc:
  assumes g: "pmm_direct off p" and ne: "0 < card (free_set p)"
  shows "\<exists>a q. pmm_vmm_alloc p = (a, q) \<and> a \<noteq> VMM_INVALID_PHYS \<and> pmm_direct off q \<and> a \<notin> held_frames p \<and>
    held_frames q = insert a (held_frames p) \<and> card (free_set q) = card (free_set p) - 1 \<and> frame_ok a \<and>
    direct_map off q = direct_map off p"
proof -
  let ?m = "Min (free_set p)"
  have wf: "pmm_wf p" and core: "pmm_core p" using g by (simp_all add: pmm_direct_def pmm_wf_def)
  have m: "?m \<in> free_set p" using ne by (metis Min_in card_gt_0_iff)
  obtain q where q: "pmm_alloc_frame (Some p) = (of_nat ?m * PMM_PAGE_SIZE, Some q)" "pmm_wf q" "same_geometry p q"
    "free_set q = free_set p - {?m}"
    using pmm_alloc_found [OF wf] m by blast
  have um: "unat (of_nat ?m * PMM_PAGE_SIZE) = 4096 * ?m" by (rule frame_addr(1) [OF core free_set_bound [OF m]])
  have fc: "frame_count q = frame_count p" using q(3) by (simp add: same_geometry_def)
  have "held_frames q = insert (of_nat ?m * PMM_PAGE_SIZE) (held_frames p)"
    using free_set_bound [OF m] by (auto simp: held_frames_def fc q(4))
  moreover have "of_nat ?m * PMM_PAGE_SIZE \<notin> held_frames p"
  proof
    assume "of_nat ?m * PMM_PAGE_SIZE \<in> held_frames p"
    then obtain f where f: "f < unat (frame_count p)" "f \<notin> free_set p" "of_nat ?m * PMM_PAGE_SIZE = of_nat f * PMM_PAGE_SIZE"
      unfolding held_frames_def by blast
    have "4096 * f = 4096 * ?m" using frame_addr(1) [OF core f(1)] um unfolding f(3) by simp
    then show False using f(2) m by simp
  qed
  moreover have "of_nat ?m * PMM_PAGE_SIZE \<noteq> VMM_INVALID_PHYS"
    using frame_addr(2) [OF core free_set_bound [OF m]] by (simp add: invalid_phys)
  moreover have "frame_ok (of_nat ?m * PMM_PAGE_SIZE)"
    using frame_ok_addr free_set_bound [OF m] g by (simp add: pmm_direct_def)
  moreover have "card (free_set q) = card (free_set p) - 1" using m q(4) by simp
  ultimately show ?thesis using q(1,2) g fc
    by (auto simp: pmm_vmm_alloc_def pmm_direct_def direct_map_def fun_eq_iff)
qed

interpretation pv: page_frames "pmm_direct off" held_frames "\<lambda>p. card (free_set p)" pmm_vmm_alloc "direct_map off" for off
proof
  fix p a b v assume g: "pmm_direct off p"
  show "card (free_set p) = 0 \<Longrightarrow> pmm_vmm_alloc p = (VMM_INVALID_PHYS, p)"
    using g pmm_alloc_empty [of p] by (simp add: pmm_direct_def pmm_vmm_alloc_def invalid_phys)
  show "a \<in> held_frames p \<Longrightarrow> \<exists>v. direct_map off p a = Some v"
    using g by (auto simp: held_frames_def pmm_direct_def direct_map_def)
  show "direct_map off p a = Some v \<Longrightarrow> direct_map off p b = Some v \<Longrightarrow> a = b"
    by (auto simp: direct_map_def split: if_splits)
qed (rule pmm_direct_alloc)

text \<open>An address space over the frame allocator, consistent in every table.\<close>

definition pmm_vm_ok :: "u64 \<Rightarrow> pmm_state vmm_space \<Rightarrow> pmm_state vmm_world \<Rightarrow> bool" where
  "pmm_vm_ok off s w \<longleftrightarrow> vm_ok (pmm_direct off) held_frames s w \<and> alloc_frame s = Some pmm_vmm_alloc \<and>
     phys_to_virt s = Some (direct_map off)"

text \<open>A held frame, cleared, that is to become a root table.\<close>

definition root_ready :: "u64 \<Rightarrow> u64 \<Rightarrow> pmm_state vmm_world \<Rightarrow> bool" where
  "root_ready off root w \<longleftrightarrow> pmm_direct off (w_ctx w) \<and> root \<in> held_frames (w_ctx w) \<and>
     (\<forall>v. length (w_mem w v) = VMM_ENTRIES_PER_TABLE) \<and> w_mem w (off + root) = replicate VMM_ENTRIES_PER_TABLE 0"

lemma init_space:
  assumes "root_ready off root w"
  obtains s where
    "vmm_space_init (Some s0) root (Some pmm_vmm_alloc) (Some pmm_vmm_free) (Some (direct_map off)) = (VMM_MAP_OK, Some s)"
    "pmm_vm_ok off s w" "vspace s w = Map.empty"
proof -
  have g: "pmm_direct off (w_ctx w)" and h: "root \<in> held_frames (w_ctx w)" using assms by (simp_all add: root_ready_def)
  have fo: "frame_ok root" using g h frame_ok_addr by (fastforce simp: held_frames_def pmm_direct_def)
  have v: "direct_map off (w_ctx w) root = Some (off + root)"
    using g h by (auto simp: held_frames_def pmm_direct_def direct_map_def)
  let ?s = "s0\<lparr>root_paddr := root, alloc_frame := Some pmm_vmm_alloc, free_frame := Some pmm_vmm_free,
    phys_to_virt := Some (direct_map off)\<rparr>"
  have "vmm_space_init (Some s0) root (Some pmm_vmm_alloc) (Some pmm_vmm_free) (Some (direct_map off)) = (VMM_MAP_OK, Some ?s)"
    using frame_ok_aligned [OF fo] by (simp add: vmm_space_init_def)
  moreover have "pmm_vm_ok off ?s w" "vspace ?s w = Map.empty"
    using pv.fresh_space [OF g, of ?s "off + root"] h fo v assms by (simp_all add: pmm_vm_ok_def root_ready_def)
  ultimately show thesis by (rule that)
qed

text \<open>The walk of the processor over the direct map.\<close>

lemma direct_walk:
  assumes "pmm_vm_ok off s w"
  shows "cpu_translate (\<lambda>a. w_mem w (off + a)) (root_paddr s) False x = map_option (\<lambda>e. e AND VMM_PTE_ADDR_MASK) (pte s w x)"
    "cpu_translate (\<lambda>a. w_mem w (off + a)) (root_paddr s) True x = None"
proof -
  have ok: "vm_ok (pmm_direct off) held_frames s w" and sp: "phys_to_virt s = Some (direct_map off)"
    using assms by (simp_all add: pmm_vm_ok_def)
  have fr: "direct_map off (w_ctx w) a = Some v \<Longrightarrow> w_mem w (off + a) = w_mem w v" for a v
    by (simp add: direct_map_def split: if_splits)
  note walk = pv.cpu_walk [OF ok sp, of "\<lambda>a. w_mem w (off + a)" x, OF fr]
  show "cpu_translate (\<lambda>a. w_mem w (off + a)) (root_paddr s) False x = map_option (\<lambda>e. e AND VMM_PTE_ADDR_MASK) (pte s w x)"
    "cpu_translate (\<lambda>a. w_mem w (off + a)) (root_paddr s) True x = None" by (rule walk; assumption)+
qed

section \<open>Properties\<close>

text \<open>C35: an address space set up on a cleared root frame of the physical frame allocator, with physical memory
  mapped at a fixed offset, behaves as a map from page addresses to frame and flags: every sequence of map, unmap
  and query calls, for which three free frames per call are available, gets exactly the answers of that map
  (invalid arguments, page already mapped, page not mapped, the mapping itself), and the entries the tables hold
  at the end are those of the map.\<close>

theorem vmm_calls_refine_map:
  assumes "root_ready off root w" "3 * length cs \<le> unat (pmm_free_count (Some (w_ctx w)))"
  shows "\<exists>s. vmm_space_init (Some s0) root (Some pmm_vmm_alloc) (Some pmm_vmm_free) (Some (direct_map off)) = (VMM_MAP_OK, Some s) \<and>
    fst (run_calls (vmm_exec s) cs w) = fst (run_calls av_exec cs Map.empty) \<and>
    vspace s (snd (run_calls (vmm_exec s) cs w)) = snd (run_calls av_exec cs Map.empty) \<and>
    pmm_vm_ok off s (snd (run_calls (vmm_exec s) cs w))"
proof -
  obtain s where i: "vmm_space_init (Some s0) root (Some pmm_vmm_alloc) (Some pmm_vmm_free) (Some (direct_map off)) =
      (VMM_MAP_OK, Some s)" "pmm_vm_ok off s w" "vspace s w = Map.empty"
    by (rule init_space [OF assms(1)])
  have free: "3 * length cs \<le> card (free_set (w_ctx w))"
    using assms by (simp add: pmm_free_count_def root_ready_def pmm_direct_def pmm_wf_def pmm_core_def)
  show ?thesis
    using pv.calls_refine [of s off w cs] free i unfolding pmm_vm_ok_def by simp
qed

definition vm_start :: "pmm_state vmm_world" where
  "vm_start = \<lparr>w_ctx = pmm_four, w_mem = (\<lambda>_. replicate 512 0), w_invlpg = []\<rparr>"

definition blank_space :: "pmm_state vmm_space" where
  "blank_space = \<lparr>root_paddr = 0, alloc_frame = None, free_frame = None, phys_to_virt = None\<rparr>"

lemma vm_start_ready: "root_ready 0xffff800000000000 0 vm_start"
proof -
  have "off + of_nat f * PMM_PAGE_SIZE \<noteq> 0" if "f < 4" "off = 0xffff800000000000" for f :: nat and off :: u64
  proof -
    have "f \<in> {0, 1, 2, 3}" using that(1) by auto
    then show ?thesis using that(2) by (auto simp: mcs_consts)
  qed
  then have "pmm_direct 0xffff800000000000 pmm_four"
    using pmm_four_wf by (simp add: pmm_direct_def pmm_four_def)
  moreover have "0 \<in> held_frames pmm_four"
    unfolding held_frames_def pmm_four_free by (rule CollectI, rule exI [of _ 0]) (simp add: pmm_four_def)
  ultimately show ?thesis by (simp add: root_ready_def vm_start_def mcs_consts)
qed

theorem vmm_calls_refine_map_witness:
  "\<exists>s. vmm_space_init (Some blank_space) 0 (Some pmm_vmm_alloc) (Some pmm_vmm_free) (Some (direct_map 0xffff800000000000)) =
      (VMM_MAP_OK, Some s) \<and>
    fst (run_calls (vmm_exec s) [VMap 0x400000 0x7000 VMM_PTE_WRITABLE] vm_start) = [(VMM_MAP_OK, None)] \<and>
    vspace s (snd (run_calls (vmm_exec s) [VMap 0x400000 0x7000 VMM_PTE_WRITABLE] vm_start)) = [0x400000 \<mapsto> (0x7000, 3)]"
proof -
  have "3 * length [VMap 0x400000 0x7000 VMM_PTE_WRITABLE] \<le> unat (pmm_free_count (Some (w_ctx vm_start)))"
    by (simp add: pmm_free_count_def vm_start_def pmm_four_def)
  note r = vmm_calls_refine_map [OF vm_start_ready this, of blank_space]
  have "page_addr 0x400000" "vmm_is_aligned_4k 0x7000"
    by (simp_all add: page_addr_def vmm_is_canonical_def vmm_is_aligned_4k_def mcs_consts drop_bit_eq_div)
  then have "run_calls av_exec [VMap 0x400000 0x7000 VMM_PTE_WRITABLE] Map.empty =
      ([(VMM_MAP_OK, None)], [0x400000 \<mapsto> (0x7000, 3)])"
    by (simp add: vmm_allowed_def mcs_consts)
  with r show ?thesis by auto
qed




text \<open>C39: user mode never gets at a page. Set up an address space on a cleared root frame of the physical frame
  allocator and make any calls, mapping pages with \<open>VMM_PTE_USER\<close> among them. In supervisor mode the processor
  then translates exactly the pages that are mapped, to their frames; in user mode it translates none, whatever
  flags they were mapped with: \<open>get_or_alloc_next_table\<close> creates the entries above the last level without the user bit,
  and the processor wants it in every entry on the way.\<close>

theorem vmm_user_page_closed:
  assumes "root_ready off root w"
  shows "\<exists>s. vmm_space_init (Some s0) root (Some pmm_vmm_alloc) (Some pmm_vmm_free) (Some (direct_map off)) = (VMM_MAP_OK, Some s) \<and>
    (let w' = snd (run_calls (vmm_exec s) cs w); frames = (\<lambda>a. w_mem w' (off + a)) in
       (\<forall>x. page_addr x \<longrightarrow> cpu_translate frames root False x = map_option fst (vspace s w' x)) \<and>
       (\<forall>x. cpu_translate frames root True x = None))"
proof -
  obtain s where i: "vmm_space_init (Some s0) root (Some pmm_vmm_alloc) (Some pmm_vmm_free) (Some (direct_map off)) =
      (VMM_MAP_OK, Some s)" "pmm_vm_ok off s w"
    by (rule init_space [OF assms])
  have root: "root_paddr s = root" using i(1) by (auto simp: vmm_space_init_def split: if_splits)
  define w' where "w' = snd (run_calls (vmm_exec s) cs w)"
  have ok: "pmm_vm_ok off s w'" using pv.calls_keep [of s off w cs] i(2) by (simp add: pmm_vm_ok_def w'_def)
  note walk = direct_walk [OF ok, unfolded root]
  show ?thesis using i(1) walk by (auto simp: Let_def vspace_def option.map_comp comp_def simp flip: w'_def)
qed

theorem vmm_user_page_closed_witness:
  "\<exists>s w. w = snd (run_calls (vmm_exec s) [VMap 0x400000 0x7000 VMM_PTE_USER] vm_start) \<and>
     vspace s w 0x400000 = Some (0x7000, 5) \<and>
     cpu_translate (\<lambda>a. w_mem w (0xffff800000000000 + a)) 0 False 0x400000 = Some 0x7000 \<and>
     cpu_translate (\<lambda>a. w_mem w (0xffff800000000000 + a)) 0 True 0x400000 = None"
proof -
  let ?cs = "[VMap 0x400000 0x7000 VMM_PTE_USER]"
  obtain s where s: "vmm_space_init (Some blank_space) 0 (Some pmm_vmm_alloc) (Some pmm_vmm_free)
      (Some (direct_map 0xffff800000000000)) = (VMM_MAP_OK, Some s)"
    "\<And>x. page_addr x \<Longrightarrow> cpu_translate (\<lambda>a. w_mem (snd (run_calls (vmm_exec s) ?cs vm_start)) (0xffff800000000000 + a)) 0 False x =
      map_option fst (vspace s (snd (run_calls (vmm_exec s) ?cs vm_start)) x)"
    "\<And>x. cpu_translate (\<lambda>a. w_mem (snd (run_calls (vmm_exec s) ?cs vm_start)) (0xffff800000000000 + a)) 0 True x = None"
    using vmm_user_page_closed [OF vm_start_ready, of blank_space ?cs] unfolding Let_def by blast
  obtain s' where s': "vmm_space_init (Some blank_space) 0 (Some pmm_vmm_alloc) (Some pmm_vmm_free)
      (Some (direct_map 0xffff800000000000)) = (VMM_MAP_OK, Some s')"
    "pmm_vm_ok 0xffff800000000000 s' vm_start" "vspace s' vm_start = Map.empty"
    by (rule init_space [OF vm_start_ready, of blank_space])
  have a: "page_addr 0x400000" "vmm_is_aligned_4k 0x7000"
    by (simp_all add: page_addr_def vmm_is_canonical_def vmm_is_aligned_4k_def mcs_consts drop_bit_eq_div)
  have "vspace s (snd (run_calls (vmm_exec s) ?cs vm_start)) 0x400000 = Some (0x7000, 5)"
    using pv.calls_refine [of s "0xffff800000000000" vm_start ?cs] s(1) s' a
    by (simp add: pmm_vm_ok_def vm_start_def pmm_four_free vmm_allowed_def mcs_consts)
  then show ?thesis using s(2) [OF a(1)] s(3) by (intro exI [of _ s]) simp
qed

end
