(* ===== verification/Kmem.thy ===== *)
theory Kmem
  imports MCS_Prelude
begin

text \<open>
  \<open>kernel/mm/kmem.c\<close>: the kernel heap, a region tiled by blocks. A block is a 48-byte header, doubly linked to its
  neighbours in address order, and its payload. Allocation is first fit and splits a block that is large enough;
  release merges a block with the free blocks after and before it.

  Addresses and sizes are 64-bit words. The headers are kept in a map from addresses to headers (the unused fields
  \<open>reserved\<close> and \<open>reserved2\<close> are left out), the payload bytes in a separate map: a caller that stays inside its payload
  cannot write a header, because headers and payloads do not overlap, which is shown below. The header read at an address
  inside a payload is not tied to the payload's bytes: \<open>kmem_memset\<close> in \<open>kmem_calloc\<close> leaves it, where the code clears it.
  Such headers matter only to a release of a pointer that was never handed out, and the theorem on executions
  lets the memory outside the headers in use change in any way that imitates no header, so it covers both. Loops over the list
  may run forever on a list that is not well formed; they are partial functions and \<open>None\<close> is such a run. It is
  shown that on a well-formed heap every call returns.
\<close>

section \<open>Data\<close>

definition KMEM_ALIGN :: u64 where [mcs_consts]: "KMEM_ALIGN = 16"
definition KMEM_MAGIC :: u64 where [mcs_consts]: "KMEM_MAGIC = 0x4d43534f53484541"
definition KMEM_MIN_SPLIT :: u64 where [mcs_consts]: "KMEM_MIN_SPLIT = 32"
definition SIZE_MAX :: u64 where [mcs_consts]: "SIZE_MAX = 0xffffffffffffffff"

text \<open>\<open>sizeof(kmem_block_t)\<close> on x86-64.\<close>

definition HEADER_BYTES :: u64 where [mcs_consts]: "HEADER_BYTES = 48"

record kmem_block =
  b_magic :: u64
  b_size :: u64
  b_free :: bool
  b_prev :: u64
  b_next :: u64

record kmem_state =
  g_heap_base :: u64
  g_heap_end :: u64
  g_head :: u64
  g_initialized :: bool
  k_hdr :: "u64 \<Rightarrow> kmem_block"
  k_bytes :: "u64 \<Rightarrow> u8"

record kmem_stats =
  total_bytes :: u64
  used_bytes :: u64
  free_bytes :: u64
  block_count :: u64
  free_count :: u64
  largest_free :: u64

section \<open>Operations\<close>

definition kmem_align_up_size :: "u64 \<Rightarrow> u64 \<Rightarrow> u64" where
  "kmem_align_up_size v align =
     (if align = 0 then v
      else let mask = align - 1 in
        if align AND mask \<noteq> 0 then 0
        else if SIZE_MAX - mask < v then 0
        else (v + mask) AND NOT mask)"

definition kmem_align_up_ptr :: "u64 \<Rightarrow> u64 \<Rightarrow> u64" where
  "kmem_align_up_ptr v align =
     (let mask = align - 1 in
      if align AND mask \<noteq> 0 then 0
      else if SIZE_MAX - mask < v then 0
      else (v + mask) AND NOT mask)"

fun kmem_memset :: "(u64 \<Rightarrow> u8) \<Rightarrow> u64 \<Rightarrow> u8 \<Rightarrow> nat \<Rightarrow> u64 \<Rightarrow> u8" where
  "kmem_memset m p c 0 = m"
| "kmem_memset m p c (Suc n) = kmem_memset (m(p := c)) (p + 1) c n"

definition kmem_payload :: "u64 \<Rightarrow> u64" where
  "kmem_payload block = block + HEADER_BYTES"

definition kmem_header_from_payload :: "u64 \<Rightarrow> u64" where
  "kmem_header_from_payload ptr = ptr - HEADER_BYTES"

definition kmem_ptr_in_heap :: "kmem_state \<Rightarrow> u64 \<Rightarrow> bool" where
  "kmem_ptr_in_heap s p \<longleftrightarrow> g_initialized s \<and> g_heap_base s \<le> p \<and> p < g_heap_end s"

text \<open>An assignment to fields of the header at an address.\<close>

definition upd_hdr :: "u64 \<Rightarrow> (kmem_block \<Rightarrow> kmem_block) \<Rightarrow> kmem_state \<Rightarrow> kmem_state" where
  "upd_hdr a f s = s\<lparr>k_hdr := (k_hdr s)(a := f (k_hdr s a))\<rparr>"

definition kmem_split_if_useful :: "u64 \<Rightarrow> u64 \<Rightarrow> kmem_state \<Rightarrow> kmem_state" where
  "kmem_split_if_useful block wanted s =
     (let header = kmem_align_up_size HEADER_BYTES KMEM_ALIGN; bsz = b_size (k_hdr s block) in
      if header = 0 then s
      else if bsz < wanted + header + KMEM_MIN_SPLIT then s
      else
        let new_addr = kmem_align_up_ptr (kmem_payload block + wanted) KMEM_ALIGN in
        if new_addr = 0 then s
        else if g_heap_end s \<le> new_addr + HEADER_BYTES then s
        else
          let consumed = new_addr - kmem_payload block in
          if bsz \<le> consumed + HEADER_BYTES + KMEM_MIN_SPLIT then s
          else
            let nxt = b_next (k_hdr s block);
                s1 = upd_hdr new_addr (\<lambda>b. b\<lparr>b_magic := KMEM_MAGIC, b_size := bsz - consumed - HEADER_BYTES,
                       b_free := True, b_prev := block, b_next := nxt\<rparr>) s;
                nxt = b_next (k_hdr s1 block);
                s2 = (if nxt \<noteq> 0 then upd_hdr nxt (\<lambda>b. b\<lparr>b_prev := new_addr\<rparr>) s1 else s1)
            in upd_hdr block (\<lambda>b. b\<lparr>b_next := new_addr, b_size := wanted\<rparr>) s2)"

partial_function (option) kmem_coalesce_forward :: "u64 \<Rightarrow> kmem_state \<Rightarrow> kmem_state option" where
  "kmem_coalesce_forward block s =
     (if block = 0 \<or> b_next (k_hdr s block) = 0 \<or> \<not> b_free (k_hdr s (b_next (k_hdr s block))) then Some s
      else
        let nxt = b_next (k_hdr s block);
            expected = kmem_align_up_ptr (kmem_payload block + b_size (k_hdr s block)) KMEM_ALIGN in
        if expected \<noteq> nxt then Some s
        else
          let s1 = upd_hdr block (\<lambda>b. b\<lparr>b_size := b_size b + (HEADER_BYTES + b_size (k_hdr s nxt))\<rparr>) s;
              s2 = upd_hdr block (\<lambda>b. b\<lparr>b_next := b_next (k_hdr s1 nxt)\<rparr>) s1;
              n2 = b_next (k_hdr s2 nxt);
              s3 = (if n2 \<noteq> 0 then upd_hdr n2 (\<lambda>b. b\<lparr>b_prev := block\<rparr>) s2 else s2);
              s4 = upd_hdr nxt (\<lambda>b. b\<lparr>b_magic := 0, b_size := 0, b_prev := 0, b_next := 0\<rparr>) s3
          in kmem_coalesce_forward block s4)"

function validate_loop :: "kmem_state \<Rightarrow> u64 \<Rightarrow> u64 \<Rightarrow> nat \<Rightarrow> u64 \<Rightarrow> int" where
  "validate_loop s prev cursor guard cur =
     (if cur = 0 then 0
      else if 1048576 < guard + 1 then - 3
      else if cur \<noteq> cursor then - 4
      else if cur < g_heap_base s \<or> g_heap_end s < cur + HEADER_BYTES then - 5
      else if b_magic (k_hdr s cur) \<noteq> KMEM_MAGIC then - 6
      else if b_prev (k_hdr s cur) \<noteq> prev then - 7
      else if g_heap_end s - kmem_payload cur < b_size (k_hdr s cur) then - 8
      else
        let cursor = kmem_align_up_ptr (kmem_payload cur + b_size (k_hdr s cur)) KMEM_ALIGN in
        if cursor = 0 \<or> g_heap_end s < cursor then - 9
        else validate_loop s cur cursor (guard + 1) (b_next (k_hdr s cur)))"
  by pat_completeness auto
termination
  by (relation "measure (\<lambda>(s, prev, cursor, guard, cur). 1048576 - guard)") auto

definition kmem_validate :: "kmem_state \<Rightarrow> int" where
  "kmem_validate s =
     (if \<not> g_initialized s \<or> g_heap_base s = 0 \<or> g_heap_end s \<le> g_heap_base s \<or> g_head s = 0 then - 1
      else if g_head s \<noteq> g_heap_base s then - 2
      else validate_loop s 0 (g_heap_base s) 0 (g_head s))"

definition kmem_init :: "u64 \<Rightarrow> u64 \<Rightarrow> kmem_state \<Rightarrow> int \<times> kmem_state" where
  "kmem_init bs nbytes s =
     (if bs = 0 \<or> nbytes < HEADER_BYTES + KMEM_MIN_SPLIT then (- 1, s)
      else
        let start = kmem_align_up_ptr bs KMEM_ALIGN in
        if start = 0 \<or> start < bs then (- 2, s)
        else
          let lost = start - bs in
          if nbytes \<le> lost + HEADER_BYTES + KMEM_MIN_SPLIT then (- 3, s)
          else
            let usable = (nbytes - lost) AND NOT (KMEM_ALIGN - 1) in
            if usable \<le> HEADER_BYTES + KMEM_MIN_SPLIT then (- 4, s)
            else
              let s1 = s\<lparr>g_heap_base := start, g_heap_end := start + usable, g_head := start\<rparr>;
                  s2 = upd_hdr start (\<lambda>b. b\<lparr>b_magic := KMEM_MAGIC, b_size := usable - HEADER_BYTES, b_free := True,
                         b_prev := 0, b_next := 0\<rparr>) s1;
                  s3 = s2\<lparr>g_initialized := True\<rparr>
              in (kmem_validate s3, s3))"

partial_function (option) alloc_loop :: "u64 \<Rightarrow> u64 \<Rightarrow> kmem_state \<Rightarrow> (u64 \<times> kmem_state) option" where
  "alloc_loop cur wanted s =
     (if cur = 0 then Some (0, s)
      else if b_magic (k_hdr s cur) \<noteq> KMEM_MAGIC then Some (0, s)
      else if b_free (k_hdr s cur) \<and> wanted \<le> b_size (k_hdr s cur) then
        Some (kmem_payload cur, upd_hdr cur (\<lambda>b. b\<lparr>b_free := False\<rparr>) (kmem_split_if_useful cur wanted s))
      else alloc_loop (b_next (k_hdr s cur)) wanted s)"

definition kmem_alloc :: "u64 \<Rightarrow> kmem_state \<Rightarrow> (u64 \<times> kmem_state) option" where
  "kmem_alloc nbytes s =
     (if \<not> g_initialized s \<or> nbytes = 0 then Some (0, s)
      else
        let wanted = kmem_align_up_size nbytes KMEM_ALIGN in
        if wanted = 0 then Some (0, s) else alloc_loop (g_head s) wanted s)"

definition kmem_calloc :: "u64 \<Rightarrow> u64 \<Rightarrow> kmem_state \<Rightarrow> (u64 \<times> kmem_state) option" where
  "kmem_calloc count nbytes s =
     (if count \<noteq> 0 \<and> SIZE_MAX div count < nbytes then Some (0, s)
      else
        let total_size = count * nbytes in
        (case kmem_alloc total_size s of
           None \<Rightarrow> None
         | Some (ptr, s) \<Rightarrow>
             Some (ptr, if ptr \<noteq> 0 then s\<lparr>k_bytes := kmem_memset (k_bytes s) ptr 0 (unat total_size)\<rparr> else s)))"

definition kmem_free_checked :: "u64 \<Rightarrow> kmem_state \<Rightarrow> (int \<times> kmem_state) option" where
  "kmem_free_checked ptr s =
     (if ptr = 0 then Some (0, s)
      else if \<not> kmem_ptr_in_heap s ptr then Some (- 1, s)
      else if ptr AND (KMEM_ALIGN - 1) \<noteq> 0 then Some (- 2, s)
      else
        let block = kmem_header_from_payload ptr in
        if \<not> kmem_ptr_in_heap s block \<or> b_magic (k_hdr s block) \<noteq> KMEM_MAGIC then Some (- 3, s)
        else if b_free (k_hdr s block) then Some (- 4, s)
        else
          (case kmem_coalesce_forward block (upd_hdr block (\<lambda>b. b\<lparr>b_free := True\<rparr>) s) of
             None \<Rightarrow> None
           | Some s1 \<Rightarrow>
               (case (if b_prev (k_hdr s1 block) \<noteq> 0 \<and> b_free (k_hdr s1 (b_prev (k_hdr s1 block)))
                      then kmem_coalesce_forward (b_prev (k_hdr s1 block)) s1 else Some s1) of
                  None \<Rightarrow> None
                | Some s2 \<Rightarrow> Some (kmem_validate s2, s2))))"

partial_function (option) stats_loop :: "kmem_state \<Rightarrow> u64 \<Rightarrow> kmem_stats \<Rightarrow> kmem_stats option" where
  "stats_loop s cur out =
     (if cur = 0 then Some out
      else
        let sz = b_size (k_hdr s cur); out = out\<lparr>block_count := block_count out + 1\<rparr> in
        if b_free (k_hdr s cur) then
          let out = out\<lparr>free_count := free_count out + 1, free_bytes := free_bytes out + sz\<rparr> in
          stats_loop s (b_next (k_hdr s cur)) (if largest_free out < sz then out\<lparr>largest_free := sz\<rparr> else out)
        else stats_loop s (b_next (k_hdr s cur)) (out\<lparr>used_bytes := used_bytes out + sz\<rparr>))"

definition kmem_get_stats :: "kmem_stats option \<Rightarrow> kmem_state \<Rightarrow> kmem_stats option option" where
  "kmem_get_stats out s =
     (case out of
        None \<Rightarrow> Some None
      | Some o1 \<Rightarrow>
          let o2 = o1\<lparr>total_bytes := 0, used_bytes := 0, free_bytes := 0, block_count := 0, free_count := 0,
                     largest_free := 0\<rparr> in
          if \<not> g_initialized s then Some (Some o2)
          else map_option Some (stats_loop s (g_head s) (o2\<lparr>total_bytes := g_heap_end s - g_heap_base s\<rparr>)))"

section \<open>Specification\<close>

text \<open>A heap is a list of blocks in address order, each with its payload size and whether it is free. First fit and
  release on such lists:\<close>

type_synonym blocks = "(nat \<times> bool) list"

fun span :: "blocks \<Rightarrow> nat" where
  "span [] = 0"
| "span ((n, f) # bs) = 48 + n + span bs"

text \<open>The offset of the payload that first fit chooses, and the list after the allocation.\<close>

fun fit :: "nat \<Rightarrow> blocks \<Rightarrow> (nat \<times> blocks) option" where
  "fit w [] = None"
| "fit w ((n, f) # bs) =
     (if f \<and> w \<le> n then
        Some (48, if w + 80 < n then (w, False) # (n - w - 48, True) # bs else (n, False) # bs)
      else map_option (\<lambda>(k, bs'). (48 + n + k, (n, f) # bs')) (fit w bs))"

fun join :: "blocks \<Rightarrow> blocks" where
  "join ((n, f) # (m, True) # bs) = join ((n + 48 + m, f) # bs)"
| "join bs = bs"

text \<open>Release of the block at a header offset: merge it with what follows, then the block before it, if that is
  free, with the result.\<close>

fun release :: "nat \<Rightarrow> blocks \<Rightarrow> blocks" where
  "release k [] = []"
| "release k ((n, f) # bs) =
     (if k = 0 then join ((n, True) # bs)
      else let bs' = release (k - (48 + n)) bs in if f \<and> k = 48 + n then join ((n, f) # bs') else (n, f) # bs')"

text \<open>The live allocations: payload offset and size of the blocks in use.\<close>

fun live :: "nat \<Rightarrow> blocks \<Rightarrow> (nat \<times> nat) set" where
  "live a [] = {}"
| "live a ((n, f) # bs) = (if f then {} else {(a + 48, n)}) \<union> live (a + 48 + n) bs"

text \<open>The representation: headers linked in both directions, each where the one before ends.
  The first 32 bytes of the address space are left out: a heap there that reached to its other end would make the
  sums of \<open>kmem_split_if_useful\<close> wrap.\<close>

definition nxt :: "nat \<Rightarrow> blocks \<Rightarrow> u64" where
  "nxt a bs = (if bs = [] then 0 else of_nat a)"

fun chain :: "(u64 \<Rightarrow> kmem_block) \<Rightarrow> u64 \<Rightarrow> nat \<Rightarrow> blocks \<Rightarrow> bool" where
  "chain h p a [] \<longleftrightarrow> True"
| "chain h p a ((n, f) # bs) \<longleftrightarrow>
     b_magic (h (of_nat a)) = KMEM_MAGIC \<and> b_size (h (of_nat a)) = of_nat n \<and> b_free (h (of_nat a)) = f \<and>
     b_prev (h (of_nat a)) = p \<and> b_next (h (of_nat a)) = nxt (a + 48 + n) bs \<and> chain h (of_nat a) (a + 48 + n) bs"

definition sizes_ok :: "blocks \<Rightarrow> bool" where
  "sizes_ok bs \<longleftrightarrow> list_all (\<lambda>(n, f). 16 dvd n \<and> 16 \<le> n) bs"

fun merged :: "blocks \<Rightarrow> bool" where
  "merged ((n, f) # (m, g) # bs) \<longleftrightarrow> \<not> (f \<and> g) \<and> merged ((m, g) # bs)"
| "merged bs \<longleftrightarrow> True"

definition heap_is :: "kmem_state \<Rightarrow> blocks \<Rightarrow> bool" where
  "heap_is s bs \<longleftrightarrow>
     g_initialized s \<and> g_head s = g_heap_base s \<and> 32 \<le> unat (g_heap_base s) \<and> 16 dvd unat (g_heap_base s) \<and>
     unat (g_heap_end s) = unat (g_heap_base s) + span bs \<and> bs \<noteq> [] \<and> sizes_ok bs \<and> merged bs \<and>
     chain (k_hdr s) 0 (unat (g_heap_base s)) bs"

section \<open>Lemmas on words and lists\<close>

lemma upd_hdr_simps [simp]:
  "k_hdr (upd_hdr a f s) = (k_hdr s)(a := f (k_hdr s a))" "g_heap_base (upd_hdr a f s) = g_heap_base s"
  "g_heap_end (upd_hdr a f s) = g_heap_end s" "g_head (upd_hdr a f s) = g_head s"
  "g_initialized (upd_hdr a f s) = g_initialized s" "k_bytes (upd_hdr a f s) = k_bytes s"
  by (simp_all add: upd_hdr_def)

lemma unat64 [simp]: "x < 2 ^ 64 \<Longrightarrow> unat (of_nat x :: u64) = x"
  by (simp add: unat_of_nat)

lemma less64: "x < 2 ^ 64 \<Longrightarrow> y < 2 ^ 64 \<Longrightarrow> (of_nat x :: u64) < of_nat y \<longleftrightarrow> x < y"
  by (simp add: word_less_nat_alt unat_of_nat)

lemma le64: "x < 2 ^ 64 \<Longrightarrow> y < 2 ^ 64 \<Longrightarrow> (of_nat x :: u64) \<le> of_nat y \<longleftrightarrow> x \<le> y"
  by (simp add: word_le_nat_alt unat_of_nat)

lemma eq64: "x < 2 ^ 64 \<Longrightarrow> y < 2 ^ 64 \<Longrightarrow> (of_nat x :: u64) = of_nat y \<longleftrightarrow> x = y"
  by (simp add: word_unat_eq_iff unat_of_nat)

lemma zero64: "x < 2 ^ 64 \<Longrightarrow> (of_nat x :: u64) = 0 \<longleftrightarrow> x = 0"
  using eq64 [of x 0] by simp

lemmas word64 = less64 le64 eq64 zero64

lemma mask_4: "(mask 4 :: u64) = 15"
  by (simp add: mask_eq_exp_minus_1)

lemma unat_and_15: "unat (x AND 15 :: u64) = unat x mod 16"
  using unat_and_mask [of x 4] by (simp add: mask_4)

lemma unat_and_minus_16: "unat (x AND - 16 :: u64) = 16 * (unat x div 16)"
  using unat_and_not_mask [of x 4] by (simp add: mask_4 minus_mod_eq_mult_div)

lemma align_up_cases:
  "kmem_align_up_ptr v KMEM_ALIGN = (if unat v + 15 < 2 ^ 64 then of_nat (16 * ((unat v + 15) div 16)) else 0)"
proof -
  have le: "SIZE_MAX - 15 < v \<longleftrightarrow> \<not> unat v + 15 < 2 ^ 64"
    by (auto simp: mcs_consts word_less_nat_alt)
  have "(v + 15) AND - 16 = of_nat (16 * ((unat v + 15) div 16))" if "unat v + 15 < 2 ^ 64"
  proof -
    have u: "unat (v + 15) = unat v + 15" using that by (simp add: unat_word_ariths)
    have "16 * ((unat v + 15) div 16) < 2 ^ 64" using that by linarith
    then show ?thesis by (simp only: word_unat_eq_iff unat_and_minus_16 u unat64)
  qed
  then show ?thesis using le by (simp add: kmem_align_up_ptr_def KMEM_ALIGN_def)
qed

lemma align_up_size_eq: "kmem_align_up_size v KMEM_ALIGN = kmem_align_up_ptr v KMEM_ALIGN"
  by (simp add: kmem_align_up_size_def kmem_align_up_ptr_def KMEM_ALIGN_def)

lemma aligned_room: "16 dvd x \<Longrightarrow> x < 2 ^ 64 \<Longrightarrow> x + 15 < (2 ^ 64 :: nat)"
  by (elim dvdE) simp

lemma align_up_id: "16 dvd x \<Longrightarrow> x < 2 ^ 64 \<Longrightarrow> kmem_align_up_ptr (of_nat x) KMEM_ALIGN = of_nat x"
proof -
  assume x: "16 dvd x" "x < 2 ^ 64"
  then have "16 * ((x + 15) div 16) = x" by (elim dvdE) simp
  then show ?thesis using aligned_room [OF x] x(2) by (simp add: align_up_cases)
qed

lemma header_aligned: "kmem_align_up_size HEADER_BYTES KMEM_ALIGN = 48"
  by (simp add: align_up_size_eq align_up_cases HEADER_BYTES_def)

lemma payload_of_nat: "kmem_payload (of_nat a) = of_nat (a + 48)"
  by (simp add: kmem_payload_def mcs_consts)

lemma span_append [simp]: "span (xs @ ys) = span xs + span ys"
  by (induction xs rule: span.induct) auto

lemma sizes_ok_simps [simp]:
  "sizes_ok []" "sizes_ok ((n, f) # bs) \<longleftrightarrow> 16 dvd n \<and> 16 \<le> n \<and> sizes_ok bs"
  "sizes_ok (xs @ ys) \<longleftrightarrow> sizes_ok xs \<and> sizes_ok ys"
  by (simp_all add: sizes_ok_def)

lemma sizes_ok_span: "sizes_ok bs \<Longrightarrow> 16 dvd span bs"
proof (induction bs rule: span.induct)
  case (2 n f bs)
  have "(16::nat) dvd 48" by simp
  then show ?case using 2 by simp
qed simp

lemma nxt_simps [simp]: "nxt a [] = 0" "nxt a (b # bs) = of_nat a"
  by (simp_all add: nxt_def)

text \<open>A chain reads only the headers inside its span.\<close>

lemma blocks_frame:
  "\<forall>x. a \<le> x \<longrightarrow> x < a + span bs \<longrightarrow> h' (of_nat x) = h (of_nat x) \<Longrightarrow> chain h' p a bs = chain h p a bs"
proof (induction h p a bs rule: chain.induct)
  case (2 h p a n f bs)
  have "h' (of_nat a) = h (of_nat a)" using 2(2) by simp
  moreover have "chain h' (of_nat a) (a + 48 + n) bs = chain h (of_nat a) (a + 48 + n) bs"
    using 2 by (intro 2(1)) auto
  ultimately show ?case by simp
qed simp

lemma chain_upd_below:
  assumes "b < a" "a + span bs < 2 ^ 64"
  shows "chain (h(of_nat b := v)) p a bs = chain h p a bs"
  using assms by (intro blocks_frame) (auto simp: eq64)

text \<open>Changing the link back of the first header of a chain.\<close>

lemma chain_relink:
  assumes "bs \<noteq> []" "a + span bs < 2 ^ 64" "chain h p a bs"
  shows "chain (h(of_nat a := (h (of_nat a))\<lparr>b_prev := q\<rparr>)) q a bs"
proof -
  obtain n f bs' where bs: "bs = (n, f) # bs'" using assms(1) by (cases bs) auto
  show ?thesis using assms(2,3) by (simp add: bs chain_upd_below)
qed

definition same_regs :: "kmem_state \<Rightarrow> kmem_state \<Rightarrow> bool" where
  "same_regs s s' \<longleftrightarrow> g_heap_base s' = g_heap_base s \<and> g_heap_end s' = g_heap_end s \<and> g_head s' = g_head s \<and>
     g_initialized s' = g_initialized s \<and> k_bytes s' = k_bytes s"

lemma same_regs_simps [simp]: "same_regs s s" "same_regs s (upd_hdr a f s') = same_regs s s'"
  by (simp_all add: same_regs_def)

definition same_below :: "nat \<Rightarrow> kmem_state \<Rightarrow> kmem_state \<Rightarrow> bool" where
  "same_below a s s' \<longleftrightarrow> same_regs s s' \<and> (\<forall>x < a. k_hdr s' (of_nat x) = k_hdr s (of_nat x))"

section \<open>The operations on a well-formed list\<close>

lemma coalesce_stop: "b_next (k_hdr s b) = 0 \<or> \<not> b_free (k_hdr s (b_next (k_hdr s b))) \<Longrightarrow> kmem_coalesce_forward b s = Some s"
  by (subst kmem_coalesce_forward.simps) auto

lemma coalesce_step:
  assumes c: "chain (k_hdr s) p a ((n, f) # (m, True) # bs)" and a: "0 < a" "16 dvd a"
    and ok: "sizes_ok ((n, f) # (m, True) # bs)" and lim: "a + span ((n, f) # (m, True) # bs) < 2 ^ 64"
  obtains s' where "kmem_coalesce_forward (of_nat a) s = kmem_coalesce_forward (of_nat a) s'"
    "chain (k_hdr s') p a ((n + 48 + m, f) # bs)" "same_below a s s'"
proof -
  let ?A = "of_nat a :: u64" and ?B = "of_nat (a + 48 + n) :: u64" and ?C = "of_nat (a + 48 + n + 48 + m) :: u64"
  define s2 where "s2 = upd_hdr ?A (\<lambda>b. b\<lparr>b_next := b_next (k_hdr s ?B)\<rparr>)
    (upd_hdr ?A (\<lambda>b. b\<lparr>b_size := b_size b + (HEADER_BYTES + b_size (k_hdr s ?B))\<rparr>) s)"
  define s3 where "s3 = (if bs \<noteq> [] then upd_hdr ?C (\<lambda>b. b\<lparr>b_prev := ?A\<rparr>) s2 else s2)"
  define s4 where "s4 = upd_hdr ?B (\<lambda>b. b\<lparr>b_magic := 0, b_size := 0, b_prev := 0, b_next := 0\<rparr>) s3"
  have "16 dvd a + 48 + n" using a ok by simp
  moreover have lt: "a + 48 + n < 2 ^ 64" "a < 2 ^ 64" "a + 48 + n + 48 + m < 2 ^ 64" using lim by auto
  ultimately have ex: "kmem_align_up_ptr (kmem_payload ?A + b_size (k_hdr s ?A)) KMEM_ALIGN = ?B"
    using c align_up_id [of "a + 48 + n"] by (simp add: payload_of_nat)
  have ne: "?A \<noteq> 0" "?B \<noteq> 0" "?A \<noteq> ?B" "?C \<noteq> ?A" "?C \<noteq> ?B" "bs \<noteq> [] \<Longrightarrow> ?C \<noteq> 0"
    using lt a by (simp_all add: eq64 zero64 del: of_nat_add)
  have link: "b_next (k_hdr s ?A) = ?B" "b_free (k_hdr s ?B)" "b_next (k_hdr s ?B) = nxt (a + 48 + n + 48 + m) bs"
    "b_size (k_hdr s ?B) = of_nat m"
    using c by auto
  have "kmem_coalesce_forward ?A s = kmem_coalesce_forward ?A s4"
    unfolding s4_def s3_def s2_def
    by (subst kmem_coalesce_forward.simps)
       (use ne link ex in \<open>cases bs; simp add: Let_def del: of_nat_add\<close>)
  moreover have "chain (k_hdr s4) p a ((n + 48 + m, f) # bs)"
  proof -
    have hA: "k_hdr s4 ?A = (k_hdr s ?A)\<lparr>b_size := of_nat (n + 48 + m), b_next := nxt (a + 48 + n + 48 + m) bs\<rparr>"
      unfolding s4_def s3_def s2_def using ne link c
      by (simp add: mcs_consts add.assoc del: of_nat_add) simp
    have tail: "chain (k_hdr s4) ?A (a + 48 + n + 48 + m) bs"
    proof (cases "bs = []")
      case False
      have c0: "chain (k_hdr s) ?B (a + 48 + n + 48 + m) bs" using c by simp
      have lim': "a + 48 + n + 48 + m + span bs < 2 ^ 64" using lim by simp
      have eq: "k_hdr s4 = (((k_hdr s)(?C := (k_hdr s ?C)\<lparr>b_prev := ?A\<rparr>))(?A := k_hdr s4 ?A))(?B := k_hdr s4 ?B)"
        using False ne by (auto simp: s4_def s3_def s2_def fun_eq_iff)
      have "a < a + 48 + n + 48 + m" "a + 48 + n < a + 48 + n + 48 + m" by simp_all
      then show ?thesis
        using chain_relink [OF False lim' c0, of ?A] chain_upd_below [OF _ lim'] by (subst eq) (simp only:)
    qed simp
    show ?thesis using c hA tail by (simp add: add.assoc)
  qed
  moreover have "same_below a s s4"
  proof -
    have "of_nat x \<noteq> ?A" "of_nat x \<noteq> ?B" "of_nat x \<noteq> ?C" if "x < a" for x
      using that lt by (simp_all add: eq64 del: of_nat_add)
    then show ?thesis by (auto simp: same_below_def s4_def s3_def s2_def)
  qed
  ultimately show thesis by (rule that)
qed

lemma same_below_trans: "same_below a s s' \<Longrightarrow> same_below a s' s'' \<Longrightarrow> same_below a s s''"
  by (simp add: same_below_def same_regs_def)

lemma same_below_mono: "same_below b s s' \<Longrightarrow> a \<le> b \<Longrightarrow> same_below a s s'"
  by (auto simp: same_below_def)

lemma coalesce_join:
  assumes "chain (k_hdr s) p a ((n, f) # bs)" "0 < a" "16 dvd a" "sizes_ok ((n, f) # bs)" "a + span ((n, f) # bs) < 2 ^ 64"
  shows "\<exists>s'. kmem_coalesce_forward (of_nat a) s = Some s' \<and> chain (k_hdr s') p a (join ((n, f) # bs)) \<and> same_below a s s'"
  using assms
proof (induction bs arbitrary: n s)
  case Nil
  then have "kmem_coalesce_forward (of_nat a) s = Some s" by (intro coalesce_stop) simp
  then show ?case using Nil by (auto simp: same_below_def)
next
  case (Cons b bs)
  obtain m g where b: "b = (m, g)" by (cases b)
  show ?case
  proof (cases g)
    case True
    obtain s1 where s1: "kmem_coalesce_forward (of_nat a) s = kmem_coalesce_forward (of_nat a) s1"
      "chain (k_hdr s1) p a ((n + 48 + m, f) # bs)" "same_below a s s1"
      by (rule coalesce_step [of s p a n f m bs]) (use Cons.prems b True in simp_all)
    have "(16::nat) dvd 48" by simp
    then have "sizes_ok ((n + 48 + m, f) # bs)" using Cons.prems(4) by (simp add: b)
    then show ?thesis using Cons.IH [OF s1(2)] Cons.prems s1 same_below_trans [OF s1(3)] True by (auto simp: b)
  next
    case False
    then have "kmem_coalesce_forward (of_nat a) s = Some s" using Cons.prems(1) by (intro coalesce_stop) (simp add: b)
    then show ?thesis using Cons.prems(1) False by (auto simp: b same_below_def)
  qed
qed

lemma split_cond:
  assumes "a + 48 + n \<le> unat e" "w \<le> n" "32 \<le> a" "16 dvd a" "16 dvd w" and n: "b_size (k_hdr s (of_nat a)) = of_nat n"
    and e: "g_heap_end s = e"
  shows "kmem_split_if_useful (of_nat a) (of_nat w) s =
    (if w + 80 < n then
       let new = of_nat (a + 48 + w); nx = b_next (k_hdr s (of_nat a));
           s1 = upd_hdr new (\<lambda>b. b\<lparr>b_magic := KMEM_MAGIC, b_size := of_nat (n - w - 48), b_free := True,
                  b_prev := of_nat a, b_next := nx\<rparr>) s;
           s2 = (if nx \<noteq> 0 then upd_hdr nx (\<lambda>b. b\<lparr>b_prev := new\<rparr>) s1 else s1)
       in upd_hdr (of_nat a) (\<lambda>b. b\<lparr>b_next := new, b_size := of_nat w\<rparr>) s2
     else s)"
proof -
  have lt: "a + 48 + n < 2 ^ 64" using assms(1) unat_bound [of e] by simp
  have dv: "16 dvd a + 48 + w" using assms by simp
  then have new: "kmem_align_up_ptr (kmem_payload (of_nat a) + of_nat w) KMEM_ALIGN = of_nat (a + 48 + w)"
    using align_up_id [of "a + 48 + w"] lt assms(2) by (simp add: payload_of_nat)
  have c4: "of_nat (a + 48 + w) - kmem_payload (of_nat a) = (of_nat w :: u64)" by (simp add: payload_of_nat)
  show ?thesis
  proof (cases "w + 80 < n")
    case True
    have c1: "\<not> (of_nat n :: u64) < of_nat w + 48 + KMEM_MIN_SPLIT"
      using less64 [of n "w + 80"] True lt by (simp add: mcs_consts add.commute)
    have c2: "(of_nat (a + 48 + w) :: u64) \<noteq> 0" using zero64 [of "a + 48 + w"] lt assms(2,3) by (simp del: of_nat_add)
    have c3: "\<not> e \<le> of_nat (a + 48 + w) + HEADER_BYTES"
    proof -
      have "unat (of_nat (a + 48 + w + 48) :: u64) = a + 48 + w + 48" using lt True by (intro unat64) simp
      then show ?thesis using assms(1) True by (simp add: mcs_consts word_le_nat_alt)
    qed
    have c5: "\<not> (of_nat n :: u64) \<le> of_nat w + HEADER_BYTES + KMEM_MIN_SPLIT"
      using le64 [of n "w + 80"] True lt by (simp add: mcs_consts add.commute)
    have c6: "of_nat n - of_nat w - HEADER_BYTES = (of_nat (n - w - 48) :: u64)"
      using True by (simp add: mcs_consts of_nat_diff)
    have ne: "(of_nat (a + 48 + w) :: u64) \<noteq> of_nat a"
      using eq64 [of "a + 48 + w" a] lt assms(2) by (simp del: of_nat_add)
    show ?thesis
      unfolding kmem_split_if_useful_def Let_def header_aligned n e new c4
      using True c1 c2 c3 c5 c6 ne by (simp del: of_nat_add of_nat_diff)
  next
    case False
    have "w + 80 < 2 ^ 64" using lt assms(2,3) by simp
    then have "(of_nat n :: u64) \<le> of_nat w + HEADER_BYTES + KMEM_MIN_SPLIT"
      using le64 [of n "w + 80"] False lt by (simp add: mcs_consts add.commute)
    then show ?thesis using False unfolding kmem_split_if_useful_def Let_def header_aligned n e new c4 by simp
  qed
qed

lemma split_chain:
  assumes c: "chain (k_hdr s) p a ((n, True) # bs)" and w: "w \<le> n" "16 dvd w" and a: "32 \<le> a" "16 dvd a"
    and lim: "a + span ((n, True) # bs) \<le> unat (g_heap_end s)"
  shows "chain (k_hdr (upd_hdr (of_nat a) (\<lambda>b. b\<lparr>b_free := False\<rparr>) (kmem_split_if_useful (of_nat a) (of_nat w) s))) p a
      (if w + 80 < n then (w, False) # (n - w - 48, True) # bs else (n, False) # bs) \<and>
    same_below a s (upd_hdr (of_nat a) (\<lambda>b. b\<lparr>b_free := False\<rparr>) (kmem_split_if_useful (of_nat a) (of_nat w) s))"
proof -
  let ?A = "of_nat a :: u64" and ?B = "of_nat (a + 48 + w) :: u64" and ?C = "of_nat (a + 48 + n) :: u64"
  let ?s = "upd_hdr ?A (\<lambda>b. b\<lparr>b_free := False\<rparr>) (kmem_split_if_useful ?A (of_nat w) s)"
  have lim2: "a + span ((n, True) # bs) < 2 ^ 64" using lim unat_bound [of "g_heap_end s"] by simp
  have lim': "a + 48 + n + span bs < 2 ^ 64" using lim2 by simp
  have lt: "a < 2 ^ 64" "a + 48 + w < 2 ^ 64" "a + 48 + n < 2 ^ 64" using lim2 w by auto
  have below: "of_nat x \<noteq> ?A" "of_nat x \<noteq> ?B" "of_nat x \<noteq> ?C" if "x < a" for x
    using that lt by (simp_all add: eq64 del: of_nat_add)
  have tail: "chain (k_hdr s) ?A (a + 48 + n) bs" and nx: "b_next (k_hdr s ?A) = nxt (a + 48 + n) bs" using c by simp_all
  note sc = split_cond [of a n "g_heap_end s" w s, OF _ w(1) a w(2)]
  show ?thesis
  proof (cases "w + 80 < n")
    case False
    then have "kmem_split_if_useful ?A (of_nat w) s = s" using sc c lim by simp
    then show ?thesis using False c below chain_upd_below [OF _ lim', of a] by (simp add: same_below_def del: of_nat_add)
  next
    case True
    have ne: "?A \<noteq> ?B" "?C \<noteq> ?A" "?C \<noteq> ?B" "?C \<noteq> 0" using lt a True by (simp_all add: eq64 zero64 del: of_nat_add)
    have split: "?s = (let s1 = upd_hdr ?B (\<lambda>b. b\<lparr>b_magic := KMEM_MAGIC, b_size := of_nat (n - w - 48), b_free := True,
                    b_prev := ?A, b_next := nxt (a + 48 + n) bs\<rparr>) s;
             s2 = (if bs \<noteq> [] then upd_hdr ?C (\<lambda>b. b\<lparr>b_prev := ?B\<rparr>) s1 else s1)
         in upd_hdr ?A (\<lambda>b. b\<lparr>b_free := False\<rparr>) (upd_hdr ?A (\<lambda>b. b\<lparr>b_next := ?B, b_size := of_nat w\<rparr>) s2))"
      using sc c lim nx ne True by (cases bs) (simp_all add: Let_def del: of_nat_add of_nat_diff)
    have hA: "k_hdr ?s ?A = (k_hdr s ?A)\<lparr>b_next := ?B, b_size := of_nat w, b_free := False\<rparr>"
      unfolding split using ne by (simp add: Let_def del: of_nat_add of_nat_diff)
    have hB: "k_hdr ?s ?B = (k_hdr s ?B)\<lparr>b_magic := KMEM_MAGIC, b_size := of_nat (n - w - 48), b_free := True,
        b_prev := ?A, b_next := nxt (a + 48 + n) bs\<rparr>"
      unfolding split using ne by (simp add: Let_def del: of_nat_add of_nat_diff)
    have "chain (k_hdr ?s) ?B (a + 48 + n) bs"
    proof (cases "bs = []")
      case bs: False
      have eq: "k_hdr ?s = (((k_hdr s)(?C := (k_hdr s ?C)\<lparr>b_prev := ?B\<rparr>))(?A := k_hdr ?s ?A))(?B := k_hdr ?s ?B)"
        unfolding split using bs ne by (auto simp: Let_def fun_eq_iff simp del: of_nat_add of_nat_diff)
      have "a < a + 48 + n" "a + 48 + w < a + 48 + n" using True by simp_all
      then show ?thesis
        using chain_relink [OF bs lim' tail, of ?B] chain_upd_below [OF _ lim'] by (subst eq) (simp only:)
    qed simp
    moreover have idx: "a + 48 + w + 48 + (n - w - 48) = a + 48 + n" using True by simp
    ultimately have "chain (k_hdr ?s) p a ((w, False) # (n - w - 48, True) # bs)"
      unfolding chain.simps nxt_simps idx using c hA hB by (simp del: of_nat_add of_nat_diff upd_hdr_simps)
    moreover have "same_below a s ?s" unfolding split using below by (simp add: same_below_def Let_def del: of_nat_add of_nat_diff)
    ultimately show ?thesis using True by simp
  qed
qed

lemma alloc_loop_fit:
  assumes "chain (k_hdr s) p a bs" "w \<noteq> 0" "16 dvd w" "32 \<le> a" "16 dvd a" "sizes_ok bs" "a + span bs \<le> unat (g_heap_end s)"
    "w < 2 ^ 64"
  shows "case fit w bs of
      None \<Rightarrow> alloc_loop (nxt a bs) (of_nat w) s = Some (0, s)
    | Some (k, bs') \<Rightarrow> \<exists>s'. alloc_loop (nxt a bs) (of_nat w) s = Some (of_nat (a + k), s') \<and> chain (k_hdr s') p a bs' \<and>
        same_below a s s'"
  using assms
proof (induction w bs arbitrary: a p rule: fit.induct)
  case (1 w)
  then show ?case by (subst alloc_loop.simps) simp
next
  case (2 w n f bs)
  let ?A = "of_nat a :: u64"
  have lt: "a + 48 + n + span bs < 2 ^ 64" using "2.prems"(7) unat_bound [of "g_heap_end s"] by simp
  have A: "?A \<noteq> 0" using zero64 [of a] lt "2.prems"(4) by simp
  have le: "(of_nat w :: u64) \<le> of_nat n \<longleftrightarrow> w \<le> n" using le64 [of w n] lt "2.prems"(8) by simp
  show ?case
  proof (cases "f \<and> w \<le> n")
    case True
    let ?s = "upd_hdr ?A (\<lambda>b. b\<lparr>b_free := False\<rparr>) (kmem_split_if_useful ?A (of_nat w) s)"
    have "alloc_loop ?A (of_nat w) s = Some (of_nat (a + 48), ?s)"
      using "2.prems"(1) A True le by (subst alloc_loop.simps) (simp add: payload_of_nat del: of_nat_add)
    moreover have "chain (k_hdr s) p a ((n, True) # bs)" using "2.prems"(1) True by simp
    ultimately show ?thesis using split_chain [of s p a n bs w] "2.prems" True by (simp del: of_nat_add upd_hdr_simps)
  next
    case False
    have step: "alloc_loop ?A (of_nat w) s = alloc_loop (nxt (a + 48 + n) bs) (of_nat w) s"
      using "2.prems"(1) A False le by (subst alloc_loop.simps) auto
    have al: "16 dvd a + 48 + n" using "2.prems"(5,6) by simp
    note IH = "2.IH" [OF False, of ?A "a + 48 + n"]
    have IH': "case fit w bs of
        None \<Rightarrow> alloc_loop (nxt (a + 48 + n) bs) (of_nat w) s = Some (0, s)
      | Some (k, bs') \<Rightarrow> \<exists>s'. alloc_loop (nxt (a + 48 + n) bs) (of_nat w) s = Some (of_nat (a + 48 + n + k), s') \<and>
          chain (k_hdr s') ?A (a + 48 + n) bs' \<and> same_below (a + 48 + n) s s'"
      using IH "2.prems" al by (simp del: of_nat_add)
    show ?thesis
    proof (cases "fit w bs")
      case None
      then have "fit w ((n, f) # bs) = None" using False by auto
      then show ?thesis using IH' step None by (simp del: fit.simps)
    next
      case (Some r)
      obtain k bs' where r: "r = (k, bs')" by (cases r)
      obtain s' where s': "alloc_loop (nxt (a + 48 + n) bs) (of_nat w) s = Some (of_nat (a + 48 + n + k), s')"
        "chain (k_hdr s') ?A (a + 48 + n) bs'" "same_below (a + 48 + n) s s'" using IH' Some r by auto
      have "bs' \<noteq> [] \<and> bs \<noteq> []" using Some r by (cases bs) (auto split: if_splits)
      moreover have "k_hdr s' ?A = k_hdr s ?A" using s'(3) by (auto simp: same_below_def)
      ultimately have "chain (k_hdr s') p a ((n, f) # bs')" using s'(2) "2.prems"(1) by (simp add: nxt_def)
      moreover have "fit w ((n, f) # bs) = Some (48 + n + k, (n, f) # bs')" using False Some r by auto
      ultimately show ?thesis
        using s'(1) step same_below_mono [OF s'(3), of a] by (simp add: add.assoc del: fit.simps)
    qed
  qed
qed

text \<open>Replacing the end of a chain.\<close>

fun lastp :: "u64 \<Rightarrow> nat \<Rightarrow> blocks \<Rightarrow> u64" where
  "lastp p a [] = p"
| "lastp p a ((n, f) # bs) = lastp (of_nat a) (a + 48 + n) bs"

lemma lastp_snoc [simp]: "lastp p a (xs @ [(n, f)]) = of_nat (a + span xs)"
  by (induction p a xs rule: lastp.induct) (simp_all add: add.assoc)

lemma chain_suffix: "chain h p a (xs @ ys) \<Longrightarrow> chain h (lastp p a xs) (a + span xs) ys"
  by (induction p a xs rule: lastp.induct) (simp_all add: add.assoc)

lemma chain_replace:
  assumes "chain h p a (xs @ ys)" "\<forall>x < a + span xs. h' (of_nat x) = h (of_nat x)"
    "chain h' (lastp p a xs) (a + span xs) ys'" "ys = [] \<longleftrightarrow> ys' = []"
  shows "chain h' p a (xs @ ys')"
  using assms
proof (induction p a xs rule: lastp.induct)
  case (2 p a n f xs)
  have "chain h' (of_nat a) (a + 48 + n) (xs @ ys')"
    using 2(2-5) by (intro 2(1)) (simp_all add: add.assoc)
  moreover have "h' (of_nat a) = h (of_nat a)" using 2(3) by simp
  ultimately show ?case using 2(2,5) by (simp add: nxt_def)
qed simp

section \<open>Lemmas on block lists\<close>

lemma span_join [simp]: "span (join bs) = span bs"
  by (induction bs rule: join.induct) auto

lemma join_Nil [simp]: "join bs = [] \<longleftrightarrow> bs = []"
  by (induction bs rule: join.induct) auto

lemma sizes_ok_join: "sizes_ok bs \<Longrightarrow> sizes_ok (join bs)"
proof (induction bs rule: join.induct)
  case (1 n f m bs)
  have "(16::nat) dvd 48" by simp
  then show ?case using 1 by simp
qed auto

lemma join_head: "\<exists>m bs'. join ((n, f) # bs) = (m, f) # bs'"
proof (induction "(n, f) # bs" arbitrary: n bs rule: join.induct)
  case (1 n m bs)
  then show ?case by simp
qed auto

lemma join_used: "bs = [] \<or> \<not> snd (hd bs) \<Longrightarrow> join (b # bs) = b # bs"
  by (cases b; cases bs; cases "hd bs") auto

lemma merged_Cons: "merged (b # bs) \<longleftrightarrow> merged bs \<and> (bs = [] \<or> \<not> (snd b \<and> snd (hd bs)))"
  by (cases b; cases bs) auto

lemma merged_append:
  "merged (xs @ ys) \<longleftrightarrow> merged xs \<and> merged ys \<and> (xs = [] \<or> ys = [] \<or> \<not> (snd (last xs) \<and> snd (hd ys)))"
  by (induction xs) (auto simp: merged_Cons)

lemma merged_join:
  assumes "merged bs"
  shows "merged (join ((n, True) # bs))"
proof (cases "bs = [] \<or> \<not> snd (hd bs)")
  case True
  then show ?thesis using assms by (simp add: join_used merged_Cons)
next
  case False
  then obtain m bs' where bs: "bs = (m, True) # bs'" by (cases bs) auto
  then have "bs' = [] \<or> \<not> snd (hd bs')" "merged bs'" using assms by (auto simp: merged_Cons)
  then show ?thesis by (simp add: bs join_used merged_Cons)
qed

definition merge_back :: "blocks \<Rightarrow> blocks \<Rightarrow> blocks" where
  "merge_back xs ys = (if xs \<noteq> [] \<and> snd (last xs) then butlast xs @ join (last xs # ys) else xs @ ys)"

lemma release_split: "release (span xs) (xs @ (n, f) # ys) = merge_back xs (join ((n, True) # ys))"
proof (induction xs rule: span.induct)
  case (2 m g xs)
  have "0 < span xs" if "xs \<noteq> []" using that by (cases xs rule: span.cases) auto
  then show ?case using 2 by (auto simp: merge_back_def Let_def)
qed (simp add: merge_back_def)

lemma span_merge_back [simp]: "span (merge_back xs ys) = span xs + span ys"
  by (cases xs rule: rev_cases) (auto simp: merge_back_def split: prod.splits)

lemma span_pair: "span (b # bs) = 48 + fst b + span bs"
  by (cases b) simp

lemma sizes_ok_pair: "sizes_ok (b # bs) \<longleftrightarrow> sizes_ok [b] \<and> sizes_ok bs"
  by (cases b) simp

lemma sizes_ok_merge_back: "sizes_ok xs \<Longrightarrow> sizes_ok ys \<Longrightarrow> sizes_ok (merge_back xs ys)"
  by (cases xs rule: rev_cases) (auto simp: merge_back_def sizes_ok_pair [of _ ys] intro!: sizes_ok_join)

lemma merged_merge_back:
  assumes "merged xs" "merged ys" "ys \<noteq> []"
  shows "merged (merge_back xs ys)"
proof (cases "xs \<noteq> [] \<and> snd (last xs)")
  case True
  then obtain zs m where xs: "xs = zs @ [(m, True)]" by (cases xs rule: rev_cases) auto
  obtain k r where j: "join ((m, True) # ys) = (k, True) # r" using join_head by blast
  have "merged zs" "zs = [] \<or> \<not> snd (last zs)" using assms(1) by (auto simp: xs merged_append)
  then show ?thesis using merged_join [OF assms(2), of m] by (auto simp: xs merge_back_def merged_append j)
next
  case False
  then show ?thesis using assms by (auto simp: merge_back_def merged_append)
qed

lemma live_append [simp]: "live a (xs @ ys) = live a xs \<union> live (a + span xs) ys"
  by (induction a xs rule: live.induct) (auto simp: add.assoc)

lemma live_join: "live a (join ((n, True) # bs)) = live (a + 48 + n) bs"
proof (induction "(n, True) # bs" arbitrary: n bs rule: join.induct)
  case (1 n m bs)
  then show ?case by (simp add: add.assoc)
qed auto

lemma live_merge_back: "live a (merge_back xs (join ((n, True) # ys))) = live a xs \<union> live (a + span xs + 48 + n) ys"
proof (cases "xs \<noteq> [] \<and> snd (last xs)")
  case True
  then obtain zs m where xs: "xs = zs @ [(m, True)]" by (cases xs rule: rev_cases) auto
  show ?thesis by (simp add: merge_back_def xs live_join add.assoc)
next
  case False
  then show ?thesis by (auto simp: merge_back_def live_join add.assoc)
qed

lemma live_range: "(x, n) \<in> live a bs \<Longrightarrow> a + 48 \<le> x \<and> x + n \<le> a + span bs"
  by (induction a bs rule: live.induct) (auto split: if_splits)

lemma live_disjoint:
  "(x, n) \<in> live a bs \<Longrightarrow> (y, m) \<in> live a bs \<Longrightarrow> (x, n) \<noteq> (y, m) \<Longrightarrow> x + n + 48 \<le> y \<or> y + m + 48 \<le> x"
proof (induction a bs rule: live.induct)
  case (2 a k f bs)
  then show ?case using live_range [of _ _ "a + 48 + k" bs] by (fastforce split: if_splits)
qed simp

lemma live_split: "(x, n) \<in> live a bs \<Longrightarrow> \<exists>xs ys. bs = xs @ (n, False) # ys \<and> x = a + span xs + 48"
proof (induction a bs rule: live.induct)
  case (2 a k f bs)
  show ?case
  proof (cases "(x, n) \<in> live (a + 48 + k) bs")
    case True
    then obtain xs ys where "bs = xs @ (n, False) # ys" "x = a + 48 + k + span xs + 48" using 2(1) by blast
    then show ?thesis by (intro exI [of _ "(k, f) # xs"] exI [of _ ys]) simp
  next
    case False
    then show ?thesis using 2(2) by (intro exI [of _ "[]"] exI [of _ bs]) (auto split: if_splits)
  qed
qed simp

lemma live_sizes: "sizes_ok bs \<Longrightarrow> (x, n) \<in> live a bs \<Longrightarrow> 16 dvd a \<Longrightarrow> 16 dvd x \<and> 16 dvd n \<and> 16 \<le> n"
proof (induction a bs rule: live.induct)
  case (2 a k f bs)
  have "(16::nat) dvd 48" by simp
  then show ?case using 2 by (auto split: if_splits)
qed simp

text \<open>What first fit does to a block list.\<close>

lemma fit_facts:
  assumes "fit w bs = Some (k, bs')"
  shows "bs' \<noteq> []" "span bs' = span bs" "sizes_ok bs \<Longrightarrow> 16 dvd w \<Longrightarrow> 16 \<le> w \<Longrightarrow> sizes_ok bs'" "48 \<le> k"
    "\<exists>m \<ge> w. live a bs' = insert (a + k, m) (live a bs) \<and> (a + k, m) \<notin> live a bs"
  using assms
proof (induction w bs arbitrary: k bs' a rule: fit.induct)
  case (2 w n f bs)
  {
    case 1
    then show ?case using 2 by (auto split: if_splits)
  next
    case 2
    then show ?case using "2.IH"(2) by (fastforce split: if_splits)
  next
    case 3
    have "(16::nat) dvd 48" by simp
    then show ?case using 3 "2.IH"(3) by (auto split: if_splits)
  next
    case 4
    then show ?case using "2.IH"(4) by (fastforce split: if_splits)
  next
    case 5
    show ?case
    proof (cases "f \<and> w \<le> n")
      case True
      have "a + 48 + w + 48 + (n - w - 48) = a + 48 + n" if "w + 80 < n" using that by simp
      then have "live a bs' = insert (a + 48, if w + 80 < n then w else n) (live a ((n, f) # bs))" "k = 48"
        using 5 True by (auto simp: ac_simps split: if_splits)
      moreover have "(a + 48, m) \<notin> live a ((n, f) # bs)" for m
        using True live_range [of "a + 48" m "a + 48 + n" bs] by auto
      ultimately show ?thesis using True by (intro exI [of _ "if w + 80 < n then w else n"]) auto
    next
      case False
      then obtain k0 bs0 where r: "fit w bs = Some (k0, bs0)" "k = 48 + n + k0" "bs' = (n, f) # bs0" using 5 by auto
      obtain m where m: "m \<ge> w" "live (a + 48 + n) bs0 = insert (a + 48 + n + k0, m) (live (a + 48 + n) bs)"
        "(a + 48 + n + k0, m) \<notin> live (a + 48 + n) bs"
        using "2.IH"(5) [OF False r(1), of "a + 48 + n"] by blast
      have "0 < n + k0" using "2.IH"(4) [OF False r(1)] by simp
      then show ?thesis using m r by (intro exI [of _ m]) (auto simp: add.assoc)
    qed
  }
qed auto

lemma fit_merged:
  assumes "fit w bs = Some (k, bs')" "merged bs"
  shows "merged bs' \<and> (snd (hd bs') \<longrightarrow> snd (hd bs))"
  using assms
proof (induction w bs arbitrary: k bs' rule: fit.induct)
  case (2 w n f bs)
  show ?case
  proof (cases "f \<and> w \<le> n")
    case True
    then show ?thesis using 2(2,3) by (cases "bs = []") (auto simp: merged_Cons split: if_splits)
  next
    case False
    then obtain k0 bs0 where r: "fit w bs = Some (k0, bs0)" "bs' = (n, f) # bs0" using 2(2) by auto
    have "bs \<noteq> []" using r(1) by auto
    then show ?thesis using "2.IH" [OF False r(1)] 2(3) r by (auto simp: merged_Cons)
  qed
qed simp

lemma fit_none: "fit w bs = None \<longleftrightarrow> (\<forall>(n, f) \<in> set bs. f \<longrightarrow> n < w)"
  by (induction w bs rule: fit.induct) auto

text \<open>Releasing what was just allocated restores the list.\<close>

lemma fit_release:
  assumes "fit w bs = Some (k, bs')" "merged bs"
  shows "release (k - 48) bs' = bs"
  using assms
proof (induction w bs arbitrary: k bs' rule: fit.induct)
  case (2 w n f bs)
  show ?case
  proof (cases "f \<and> w \<le> n")
    case True
    then have "bs = [] \<or> \<not> snd (hd bs)" using 2(3) by (auto simp: merged_Cons)
    then show ?thesis using 2(2) True by (auto simp: join_used split: if_splits)
  next
    case False
    then obtain k0 bs0 where r: "fit w bs = Some (k0, bs0)" "k = 48 + n + k0" "bs' = (n, f) # bs0" using 2(2) by auto
    have k0: "48 \<le> k0" by (rule fit_facts(4) [OF r(1)])
    have IH: "release (k0 - 48) bs0 = bs" using "2.IH" [OF False r(1)] 2(3) by (simp add: merged_Cons)
    have "\<not> f" if "k0 = 48"
    proof -
      have "snd (hd bs) \<and> bs \<noteq> []" using r(1) that fit_facts(4) [of w "tl bs"]
        by (cases bs rule: span.cases) (auto split: if_splits)
      then show ?thesis using 2(3) by (auto simp: merged_Cons)
    qed
    then show ?thesis using r(2,3) IH k0 by (auto simp: Let_def)
  qed
qed simp

section \<open>The operations refine first fit and release\<close>

lemma validate_chain:
  assumes "chain (k_hdr s) p a bs" "32 \<le> a" "16 dvd a" "sizes_ok bs" "a + span bs = unat (g_heap_end s)"
    "unat (g_heap_base s) \<le> a"
  shows "validate_loop s p (of_nat a) g (nxt a bs) = (if bs = [] \<or> g + length bs \<le> 1048576 then 0 else - 3)"
  using assms
proof (induction bs arbitrary: p a g)
  case Nil
  then show ?case by simp
next
  case (Cons b bs)
  obtain n f where b: "b = (n, f)" by (cases b)
  let ?A = "of_nat a :: u64" and ?N = "of_nat (a + 48 + n) :: u64"
  have lt: "a + 48 + n + span bs < 2 ^ 64" using Cons.prems(5) unat_bound [of "g_heap_end s"] by (simp add: b)
  have al: "16 dvd a + 48 + n" using Cons.prems(3,4) by (simp add: b)
  have hd: "b_magic (k_hdr s ?A) = KMEM_MAGIC" "b_size (k_hdr s ?A) = of_nat n" "b_prev (k_hdr s ?A) = p"
    "b_next (k_hdr s ?A) = nxt (a + 48 + n) bs" "chain (k_hdr s) ?A (a + 48 + n) bs"
    using Cons.prems(1) by (simp_all add: b)
  have c0: "?A \<noteq> 0" "?N \<noteq> 0" using zero64 [of a] zero64 [of "a + 48 + n"] lt Cons.prems(2) by auto
  have c5: "\<not> ?A < g_heap_base s" "\<not> g_heap_end s < ?A + HEADER_BYTES"
  proof -
    show "\<not> ?A < g_heap_base s" using Cons.prems(6) lt by (simp add: word_less_nat_alt)
    have "unat (of_nat (a + 48) :: u64) = a + 48" using lt by (intro unat64) simp
    then show "\<not> g_heap_end s < ?A + HEADER_BYTES" using Cons.prems(5) by (simp add: word_less_nat_alt b mcs_consts)
  qed
  have c8: "\<not> g_heap_end s - kmem_payload ?A < of_nat n"
  proof -
    have u: "unat (of_nat (a + 48) :: u64) = a + 48" using lt by (intro unat64) simp
    have "of_nat (a + 48) \<le> g_heap_end s" using Cons.prems(5) u by (simp add: word_le_nat_alt b)
    then have "unat (g_heap_end s - of_nat (a + 48)) = n + span bs" using Cons.prems(5) u by (simp add: unat_sub b)
    then show ?thesis using lt by (simp add: payload_of_nat word_less_nat_alt del: of_nat_add)
  qed
  have nx: "kmem_align_up_ptr (kmem_payload ?A + of_nat n) KMEM_ALIGN = ?N"
    using align_up_id [OF al] lt by (simp add: payload_of_nat)
  have c9: "\<not> g_heap_end s < ?N" using lt Cons.prems(5) unat64 [of "a + 48 + n"] by (simp add: word_less_nat_alt b del: of_nat_add unat64)
  have IH: "validate_loop s ?A ?N (g + 1) (nxt (a + 48 + n) bs) =
      (if bs = [] \<or> g + 1 + length bs \<le> 1048576 then 0 else - 3)"
    using Cons.IH [OF hd(5), of "g + 1"] al Cons.prems(2,4-6) by (simp add: b)
  have step: "validate_loop s p ?A g ?A =
      (if 1048576 < g + 1 then - 3 else validate_loop s ?A ?N (g + 1) (nxt (a + 48 + n) bs))"
    by (subst validate_loop.simps)
       (simp only: hd c0 c5 c8 c9 nx Let_def if_False simp_thms if_cancel refl)
  show ?case unfolding nxt_simps step IH by (auto simp: b)
qed

lemma heap_isD:
  assumes "heap_is s bs"
  shows "g_initialized s" "g_head s = nxt (unat (g_heap_base s)) bs" "32 \<le> unat (g_heap_base s)"
    "16 dvd unat (g_heap_base s)" "unat (g_heap_base s) + span bs = unat (g_heap_end s)" "bs \<noteq> []" "sizes_ok bs"
    "merged bs" "chain (k_hdr s) 0 (unat (g_heap_base s)) bs"
  using assms by (auto simp: heap_is_def nxt_def)

lemma heap_isI:
  assumes "heap_is s bs" "same_regs s s'" "chain (k_hdr s') 0 (unat (g_heap_base s)) bs'" "span bs' = span bs" "bs' \<noteq> []"
    "sizes_ok bs'" "merged bs'"
  shows "heap_is s' bs'"
  using assms by (simp add: heap_is_def same_regs_def)

lemma validate_heap:
  assumes "heap_is s bs"
  shows "kmem_validate s = (if length bs \<le> 1048576 then 0 else - 3)"
proof -
  have "span bs > 0" using heap_isD(6) [OF assms] by (cases bs rule: span.cases) auto
  then have "g_heap_base s \<noteq> 0" "\<not> g_heap_end s \<le> g_heap_base s"
    using heap_isD(3,5) [OF assms] by (auto simp: word_le_nat_alt)
  then show ?thesis
    using validate_chain [OF heap_isD(9,3,4,7,5) [OF assms], of 0] heap_isD(1,2,6) [OF assms] assms
    by (simp add: kmem_validate_def heap_is_def nxt_def)
qed

text \<open>The number of bytes a request is rounded up to.\<close>

definition rounded :: "u64 \<Rightarrow> nat" where
  "rounded n = 16 * ((unat n + 15) div 16)"

lemma rounded_facts: "n \<noteq> 0 \<Longrightarrow> 16 \<le> rounded n" "16 dvd rounded n" "unat n \<le> rounded n"
proof -
  assume "n \<noteq> 0"
  then have "0 < unat n" by (simp add: unat_gt_0)
  then show "16 \<le> rounded n" by (simp add: rounded_def)
qed (auto simp: rounded_def)

lemma fit_le: "fit w bs = Some r \<Longrightarrow> w \<le> span bs"
  by (induction w bs arbitrary: r rule: fit.induct) (fastforce split: if_splits)+

lemma alloc_fit:
  assumes h: "heap_is s bs" and n: "n \<noteq> 0"
  shows "case fit (rounded n) bs of
      None \<Rightarrow> kmem_alloc n s = Some (0, s)
    | Some (k, bs') \<Rightarrow> \<exists>s'. kmem_alloc n s = Some (of_nat (unat (g_heap_base s) + k), s') \<and> heap_is s' bs' \<and> same_regs s s'"
proof (cases "unat n + 15 < 2 ^ 64")
  case True
  have w: "rounded n < 2 ^ 64" using True by (simp add: rounded_def)
  have "kmem_align_up_size n KMEM_ALIGN = of_nat (rounded n)"
    using True by (simp add: align_up_size_eq align_up_cases rounded_def)
  moreover have "(of_nat (rounded n) :: u64) \<noteq> 0" using zero64 [OF w] rounded_facts(1) [OF n] by simp
  ultimately have call: "kmem_alloc n s = alloc_loop (nxt (unat (g_heap_base s)) bs) (of_nat (rounded n)) s"
    using n heap_isD(1,2) [OF h] by (simp add: kmem_alloc_def)
  note loop = alloc_loop_fit [OF heap_isD(9) [OF h] _ rounded_facts(2) heap_isD(3,4,7) [OF h] _ w]
  show ?thesis
  proof (cases "fit (rounded n) bs")
    case None
    then show ?thesis using loop heap_isD(5) [OF h] rounded_facts(1) [OF n] call by simp
  next
    case (Some r)
    obtain k bs' where r: "r = (k, bs')" by (cases r)
    obtain s' where s': "alloc_loop (nxt (unat (g_heap_base s)) bs) (of_nat (rounded n)) s =
        Some (of_nat (unat (g_heap_base s) + k), s')" "chain (k_hdr s') 0 (unat (g_heap_base s)) bs'"
      "same_below (unat (g_heap_base s)) s s'"
      using loop heap_isD(5) [OF h] rounded_facts(1) [OF n] Some r by auto
    note f = fit_facts [OF Some [unfolded r]] fit_merged [OF Some [unfolded r] heap_isD(8) [OF h]]
    have "heap_is s' bs'"
      using heap_isI [OF h _ s'(2)] s'(3) f heap_isD(7) [OF h] rounded_facts [of n] n by (simp add: same_below_def)
    then show ?thesis using Some r s' call by (simp add: same_below_def del: of_nat_add)
  qed
next
  case False
  have "fit (rounded n) bs = None"
  proof (rule ccontr)
    assume "fit (rounded n) bs \<noteq> None"
    then have "rounded n \<le> span bs" using fit_le by blast
    moreover have "span bs + 32 \<le> unat (g_heap_end s)" using heap_isD(3,5) [OF h] by simp
    ultimately show False using False rounded_facts(3) [of n] unat_bound [of "g_heap_end s"] by simp
  qed
  then show ?thesis using False n by (simp add: kmem_alloc_def align_up_size_eq align_up_cases)
qed

lemma merge_step:
  assumes c: "chain (k_hdr s) 0 a (xs @ (n, f) # ys)" and a: "32 \<le> a" "16 dvd a" and ok: "sizes_ok (xs @ (n, f) # ys)"
    and lim: "a + span (xs @ (n, f) # ys) < 2 ^ 64"
  obtains s' where "kmem_coalesce_forward (of_nat (a + span xs)) s = Some s'" "chain (k_hdr s') 0 a (xs @ join ((n, f) # ys))"
    "same_below (a + span xs) s s'"
proof -
  have al: "16 dvd a + span xs" using a ok sizes_ok_span [of xs] by simp
  obtain s' where s': "kmem_coalesce_forward (of_nat (a + span xs)) s = Some s'"
    "chain (k_hdr s') (lastp 0 a xs) (a + span xs) (join ((n, f) # ys))" "same_below (a + span xs) s s'"
    using coalesce_join [OF chain_suffix [OF c]] al a ok lim by (auto simp: add.assoc)
  have "chain (k_hdr s') 0 a (xs @ join ((n, f) # ys))"
    by (rule chain_replace [OF c _ s'(2)]) (use s'(3) in \<open>simp_all add: same_below_def\<close>)
  then show thesis using that s' by blast
qed

lemma payload_header:
  assumes h: "heap_is s (xs @ (n, f) # ys)"
  defines "b \<equiv> unat (g_heap_base s) + span xs"
  shows "of_nat (b + 48) \<noteq> (0 :: u64)" "kmem_ptr_in_heap s (of_nat (b + 48))" "kmem_ptr_in_heap s (of_nat b)"
    "kmem_header_from_payload (of_nat (b + 48)) = of_nat b" "of_nat (b + 48) AND (KMEM_ALIGN - 1) = (0 :: u64)"
    "b_magic (k_hdr s (of_nat b)) = KMEM_MAGIC" "b_free (k_hdr s (of_nat b)) = f"
proof -
  note hd = heap_isD [OF h]
  have end_eq: "unat (g_heap_end s) = b + 48 + n + span ys" using hd(5) by (simp add: b_def)
  then have lt: "b + 48 + n + span ys < 2 ^ 64" using unat_bound [of "g_heap_end s"] by simp
  have u: "unat (of_nat (b + 48) :: u64) = b + 48" "unat (of_nat b :: u64) = b"
    using lt unat64 [of "b + 48"] unat64 [of b] by linarith+
  have ge: "unat (g_heap_base s) \<le> b" "16 \<le> n" using hd(7) by (simp_all add: b_def)
  show "of_nat (b + 48) \<noteq> (0 :: u64)" "kmem_ptr_in_heap s (of_nat (b + 48))" "kmem_ptr_in_heap s (of_nat b)"
    using u end_eq hd(1) ge
    by (auto simp: kmem_ptr_in_heap_def word_le_nat_alt word_less_nat_alt simp del: of_nat_add)
  show "kmem_header_from_payload (of_nat (b + 48)) = of_nat b" by (simp add: kmem_header_from_payload_def mcs_consts)
  have "16 dvd b + 48" using hd(4,7) sizes_ok_span [of xs] by (simp add: b_def)
  then show "of_nat (b + 48) AND (KMEM_ALIGN - 1) = (0 :: u64)"
    using u(1) unat_and_15 [of "of_nat (b + 48)"] by (simp add: mcs_consts unat_eq_zero [symmetric] del: of_nat_add)
  show "b_magic (k_hdr s (of_nat b)) = KMEM_MAGIC" "b_free (k_hdr s (of_nat b)) = f"
    using chain_suffix [OF hd(9)] by (simp_all add: b_def del: of_nat_add)
qed

text \<open>The steps of a release: the block is marked free, and once joined to the free block behind it, to the one before.\<close>

lemma mark_free_chain:
  assumes h: "heap_is s (xs @ (n, False) # ys)"
  shows "chain (k_hdr (upd_hdr (of_nat (unat (g_heap_base s) + span xs)) (\<lambda>b. b\<lparr>b_free := True\<rparr>) s)) 0 (unat (g_heap_base s))
    (xs @ (n, True) # ys)"
proof -
  let ?a = "unat (g_heap_base s)" and ?b = "unat (g_heap_base s) + span xs"
  note hd = heap_isD [OF h]
  have lt: "?b + 48 + n + span ys < 2 ^ 64" using hd(5) unat_bound [of "g_heap_end s"] by simp
  have cB: "chain (k_hdr s) (lastp 0 ?a xs) ?b ((n, False) # ys)" by (rule chain_suffix [OF hd(9)])
  have "of_nat x \<noteq> (of_nat ?b :: u64)" if "x < ?b" for x using eq64 [of x ?b] lt that by (simp del: of_nat_add)
  then show ?thesis
    using chain_replace [OF hd(9), of _ "(n, True) # ys"] cB chain_upd_below [of ?b "?b + 48 + n" ys] lt
    by (simp del: of_nat_add)
qed

lemma coalesce_before:
  assumes c: "chain (k_hdr s) 0 a (xs @ (m, True) # rs)" and a: "32 \<le> a" "16 dvd a"
    and ok: "sizes_ok xs" "sizes_ok ((m, True) # rs)" and lim: "a + span (xs @ (m, True) # rs) < 2 ^ 64"
  defines "B \<equiv> of_nat (a + span xs) :: u64"
  obtains s' where "(if b_prev (k_hdr s B) \<noteq> 0 \<and> b_free (k_hdr s (b_prev (k_hdr s B)))
      then kmem_coalesce_forward (b_prev (k_hdr s B)) s else Some s) = Some s'"
    "chain (k_hdr s') 0 a (merge_back xs ((m, True) # rs))" "same_regs s s'"
proof (cases xs rule: rev_cases)
  have prev: "b_prev (k_hdr s B) = lastp 0 a xs" using chain_suffix [OF c] by (simp add: B_def del: of_nat_add)
  case Nil
  then show thesis using that [of s] prev c by (simp add: merge_back_def)
next
  have prev: "b_prev (k_hdr s B) = lastp 0 a xs" using chain_suffix [OF c] by (simp add: B_def del: of_nat_add)
  case (snoc zs z)
  obtain k g where z: "z = (k, g)" by (cases z)
  have pr: "b_prev (k_hdr s B) = of_nat (a + span zs)" using prev lastp_snoc [of 0 a zs k g] by (simp only: snoc z)
  have c1: "chain (k_hdr s) 0 a (zs @ (k, g) # (m, True) # rs)" using c by (simp add: snoc z)
  have fr: "b_free (k_hdr s (of_nat (a + span zs))) = g" using chain_suffix [OF c1] by (simp del: of_nat_add)
  have nz: "(of_nat (a + span zs) :: u64) \<noteq> 0" using zero64 [of "a + span zs"] lim a by (simp add: snoc z del: of_nat_add)
  show thesis
  proof (cases g)
    case True
    obtain s' where "kmem_coalesce_forward (of_nat (a + span zs)) s = Some s'"
      "chain (k_hdr s') 0 a (zs @ join ((k, g) # (m, True) # rs))" "same_below (a + span zs) s s'"
      by (rule merge_step [OF c1 a]) (use ok lim in \<open>simp_all add: snoc z add.assoc\<close>)
    then show thesis
      using that [of s'] True pr fr nz by (simp add: merge_back_def snoc z same_below_def del: of_nat_add join.simps)
  next
    case False
    then show thesis using that [of s] pr fr c by (simp add: merge_back_def snoc z del: of_nat_add)
  qed
qed

lemma free_release:
  assumes h: "heap_is s (xs @ (n, False) # ys)"
  defines "bs' \<equiv> release (span xs) (xs @ (n, False) # ys)"
  obtains s' where "kmem_free_checked (of_nat (unat (g_heap_base s) + span xs + 48)) s =
      Some (if length bs' \<le> 1048576 then 0 else - 3, s')" "heap_is s' bs'" "same_regs s s'"
proof -
  let ?a = "unat (g_heap_base s)"
  let ?b = "?a + span xs" and ?B = "of_nat (unat (g_heap_base s) + span xs) :: u64"
  note hd = heap_isD [OF h]
  have sz: "sizes_ok xs" "16 dvd n" "16 \<le> n" "sizes_ok ys" using hd(7) by simp_all
  have lt: "?b + 48 + n + span ys < 2 ^ 64" using hd(5) unat_bound [of "g_heap_end s"] by simp
  define s0 where "s0 = upd_hdr ?B (\<lambda>b. b\<lparr>b_free := True\<rparr>) s"
  note c0 = mark_free_chain [OF h, folded s0_def]
  obtain s1 where s1: "kmem_coalesce_forward ?B s0 = Some s1" "chain (k_hdr s1) 0 ?a (xs @ join ((n, True) # ys))"
    "same_below ?b s0 s1"
    by (rule merge_step [OF c0 hd(3,4)]) (use hd(7) lt in \<open>simp_all add: add.assoc\<close>)
  obtain m r where j: "join ((n, True) # ys) = (m, True) # r" using join_head by blast
  have sj: "sizes_ok (join ((n, True) # ys))" using sz by (intro sizes_ok_join) simp
  have "?a + span (xs @ join ((n, True) # ys)) < 2 ^ 64" using lt by (simp add: add.assoc)
  note before = coalesce_before [OF s1(2) [unfolded j] hd(3,4) sz(1) sj [unfolded j] this [unfolded j], folded j]
  obtain s2 where s2: "(if b_prev (k_hdr s1 ?B) \<noteq> 0 \<and> b_free (k_hdr s1 (b_prev (k_hdr s1 ?B)))
      then kmem_coalesce_forward (b_prev (k_hdr s1 ?B)) s1 else Some s1) = Some s2"
    "chain (k_hdr s2) 0 ?a (merge_back xs (join ((n, True) # ys)))" "same_regs s1 s2" by (rule before)
  have bs': "bs' = merge_back xs (join ((n, True) # ys))" by (simp add: bs'_def release_split)
  have regs: "same_regs s s2" using s1(3) s2(3) by (simp add: same_below_def same_regs_def s0_def)
  have "merged xs" "merged ys" using hd(8) by (auto simp: merged_append merged_Cons)
  then have mg: "merged bs'" unfolding bs' by (intro merged_merge_back merged_join) simp_all
  have hs2: "heap_is s2 bs'"
  proof (rule heap_isI [OF h regs s2(2) [folded bs'] _ _ _ mg])
    show "span bs' = span (xs @ (n, False) # ys)" by (simp add: bs')
    show "bs' \<noteq> []" by (simp add: bs' merge_back_def)
    show "sizes_ok bs'" unfolding bs' by (rule sizes_ok_merge_back [OF sz(1) sj])
  qed
  have "kmem_free_checked (of_nat (?b + 48)) s = Some (kmem_validate s2, s2)"
    using payload_header [OF h] s1(1) s2(1) unfolding s0_def kmem_free_checked_def Let_def
    by (auto split: if_splits simp del: of_nat_add)
  then show thesis using validate_heap [OF hs2] by (intro that [OF _ hs2 regs]) simp
qed

text \<open>Releasing the payload of a free block is refused.\<close>

lemma free_twice:
  assumes "heap_is s (xs @ (n, True) # ys)"
  shows "kmem_free_checked (of_nat (unat (g_heap_base s) + span xs + 48)) s = Some (- 4, s)"
  using payload_header [OF assms] by (simp add: kmem_free_checked_def Let_def del: of_nat_add)

lemma unat_minus_15: "unat (x AND NOT (KMEM_ALIGN - 1)) = 16 * (unat x div 16)"
  using unat_and_minus_16 [of x] by (simp add: KMEM_ALIGN_def)

text \<open>Setting up the heap: one free block over the aligned part of the region.\<close>

lemma init_heap:
  assumes b: "32 \<le> unat b" "unat b + unat n < 2 ^ 64"
    and room: "112 \<le> unat n"
  defines "a \<equiv> 16 * ((unat b + 15) div 16)"
  defines "u \<equiv> 16 * ((unat b + unat n - a) div 16)"
  obtains s' where "kmem_init b n s = (0, s')" "heap_is s' [(u - 48, True)]" "unat (g_heap_base s') = a"
    "unat (g_heap_end s') = a + u" "k_bytes s' = k_bytes s"
proof -
  have a: "unat b \<le> a" "a < unat b + 16" "16 dvd a" using b by (auto simp: a_def)
  have u: "u \<le> unat b + unat n - a" "unat b + unat n - a < u + 16" "16 dvd u" by (auto simp: u_def)
  have u80: "80 < u" using u a room by linarith
  have start: "kmem_align_up_ptr b KMEM_ALIGN = of_nat a" using b room by (simp add: align_up_cases a_def)
  have ua: "unat (of_nat a :: u64) = a" using a b room by (intro unat64) linarith
  have lost: "unat (of_nat a - b) = a - unat b" using a(1) ua by (simp add: unat_sub word_le_nat_alt)
  have nl: "unat (n - (of_nat a - b)) = unat n - (a - unat b)"
    using lost a room by (simp add: unat_sub word_le_nat_alt)
  have usable: "(n - (of_nat a - b)) AND NOT (KMEM_ALIGN - 1) = of_nat u"
  proof -
    have "unat n - (a - unat b) = unat b + unat n - a" using a room by simp
    moreover have "u < 2 ^ 64" using u(1) b by simp
    ultimately show ?thesis using unat_minus_15 [of "n - (of_nat a - b)"] nl unat64 [of u]
      unfolding word_unat_eq_iff u_def [symmetric] by (simp add: u_def)
  qed
  have uu: "unat (of_nat u :: u64) = u" using u(1) b by (intro unat64) simp
  define s3 where "s3 = (upd_hdr (of_nat a) (\<lambda>b. b\<lparr>b_magic := KMEM_MAGIC, b_size := of_nat u - HEADER_BYTES, b_free := True,
      b_prev := 0, b_next := 0\<rparr>) (s\<lparr>g_heap_base := of_nat a, g_heap_end := of_nat a + of_nat u, g_head := of_nat a\<rparr>))
      \<lparr>g_initialized := True\<rparr>"
  have call: "kmem_init b n s = (kmem_validate s3, s3)"
  proof -
    have "b \<noteq> 0" "(of_nat a :: u64) \<noteq> 0" using b(1) a(1) ua by auto
    moreover have "\<not> n < HEADER_BYTES + KMEM_MIN_SPLIT" using room by (simp add: mcs_consts word_less_nat_alt)
    moreover have "\<not> of_nat a < b" using a(1) ua by (simp add: word_less_nat_alt)
    moreover have "\<not> n \<le> of_nat a - b + HEADER_BYTES + KMEM_MIN_SPLIT"
    proof -
      have "unat (of_nat a - b + 80) = a - unat b + 80" using lost a by (simp add: unat_word_ariths)
      then show ?thesis using room a by (simp add: mcs_consts word_le_nat_alt add.assoc)
    qed
    moreover have "\<not> of_nat u \<le> HEADER_BYTES + KMEM_MIN_SPLIT" using u80 uu by (simp add: mcs_consts word_le_nat_alt)
    ultimately show ?thesis by (simp add: kmem_init_def Let_def start usable s3_def)
  qed
  have eend: "unat (of_nat a + of_nat u :: u64) = a + u"
  proof -
    have "a + u < 2 ^ 64" using u(1) a(2) b room by linarith
    then show ?thesis using unat64 [of "a + u"] by simp
  qed
  have "heap_is s3 [(u - 48, True)]"
  proof -
    have "(16::nat) dvd 48" by simp
    then have "16 dvd u - 48" using u(3) by (rule dvd_diff_nat [rotated])
    moreover have "of_nat u - HEADER_BYTES = (of_nat (u - 48) :: u64)" using u80 by (simp add: mcs_consts of_nat_diff)
    ultimately show ?thesis using a b(1) ua eend u80 by (simp add: heap_is_def s3_def)
  qed
  then show thesis using that [of s3] call validate_heap [of s3] ua eend by (simp add: s3_def)
qed

text \<open>The headers determine the block list.\<close>

lemma chain_unique:
  assumes "chain h p a bs" "chain h q a bs'" "a + span bs < 2 ^ 64" "a + span bs' < 2 ^ 64" "bs = [] \<longleftrightarrow> bs' = []"
  shows "bs = bs'"
  using assms
proof (induction bs arbitrary: p q a bs')
  case (Cons b bs)
  obtain n f where b: "b = (n, f)" by (cases b)
  obtain m g bs0 where b': "bs' = (m, g) # bs0" using Cons.prems(5) by (cases bs') auto
  have "(of_nat n :: u64) = of_nat m" "f = g" using Cons.prems(1,2) by (simp_all add: b b')
  then have nm: "n = m" using eq64 [of n m] Cons.prems(3,4) by (simp add: b b')
  have "(of_nat (a + 48 + n) :: u64) \<noteq> 0" using zero64 [of "a + 48 + n"] Cons.prems(3) by (simp add: b del: of_nat_add)
  then have "bs = [] \<longleftrightarrow> bs0 = []" using Cons.prems(1,2) nm by (auto simp: b b' nxt_def split: if_splits)
  then show ?case using Cons.IH [of "of_nat a" "a + 48 + n" "of_nat a" bs0] Cons.prems(1-4) nm \<open>f = g\<close>
    by (simp add: b b' add.assoc)
qed simp

lemma heap_is_unique: "heap_is s bs \<Longrightarrow> heap_is s bs' \<Longrightarrow> bs = bs'"
  using chain_unique [OF heap_isD(9) heap_isD(9), of s bs bs'] heap_isD(5,6) [of s bs] heap_isD(5,6) [of s bs']
    unat_bound [of "g_heap_end s"] by simp

lemma memset_at:
  "n \<le> 2 ^ 64 \<Longrightarrow> kmem_memset m p c n x = (if unat (x - p) < n then c else m x)"
proof (induction n arbitrary: m p)
  case (Suc n)
  have "unat (x - (p + 1)) = unat (x - p) - 1" if "x \<noteq> p"
  proof -
    have "1 \<le> x - p" using that by (simp add: word_le_nat_alt Suc_le_eq unat_gt_0)
    then show ?thesis using unat_sub [of 1 "x - p"] by (simp add: diff_diff_eq)
  qed
  moreover have "x \<noteq> p \<Longrightarrow> 0 < unat (x - p)" by (simp add: unat_gt_0)
  ultimately show ?case using Suc by (cases "x = p") auto
qed simp

text \<open>Sums over a block list.\<close>

definition used_sum :: "blocks \<Rightarrow> nat" where
  "used_sum bs = sum_list (map fst (filter (\<lambda>b. \<not> snd b) bs))"

definition free_sum :: "blocks \<Rightarrow> nat" where
  "free_sum bs = sum_list (map fst (filter snd bs))"

definition free_number :: "blocks \<Rightarrow> nat" where
  "free_number bs = length (filter snd bs)"

fun max_free :: "blocks \<Rightarrow> nat" where
  "max_free [] = 0"
| "max_free ((n, f) # bs) = (if f then max n (max_free bs) else max_free bs)"

lemmas sums = used_sum_def free_sum_def free_number_def

lemma span_sums: "span bs = used_sum bs + free_sum bs + 48 * length bs"
  by (induction bs rule: span.induct) (auto simp: sums)

lemma max_free_le: "max_free bs \<le> free_sum bs"
  by (induction bs rule: max_free.induct) (auto simp: sums)

lemma stats_chain:
  assumes "chain (k_hdr s) p a bs" "0 < a" "a + span bs < 2 ^ 64" "l < 2 ^ 64"
  shows "stats_loop s (nxt a bs) (o1\<lparr>largest_free := of_nat l\<rparr>) =
    Some (o1\<lparr>used_bytes := used_bytes o1 + of_nat (used_sum bs), free_bytes := free_bytes o1 + of_nat (free_sum bs),
      block_count := block_count o1 + of_nat (length bs), free_count := free_count o1 + of_nat (free_number bs),
      largest_free := of_nat (max l (max_free bs))\<rparr>)"
  using assms
proof (induction bs arbitrary: p a o1 l)
  case Nil
  then show ?case by (subst stats_loop.simps) (simp add: sums)
next
  case (Cons b bs)
  obtain n f where b: "b = (n, f)" by (cases b)
  let ?A = "of_nat a :: u64"
  have A: "?A \<noteq> 0" using zero64 [of a] Cons.prems(2,3) by simp
  have n: "n < 2 ^ 64" using Cons.prems(3) by (simp add: b)
  have hd: "b_size (k_hdr s ?A) = of_nat n" "b_free (k_hdr s ?A) = f" "b_next (k_hdr s ?A) = nxt (a + 48 + n) bs"
    "chain (k_hdr s) ?A (a + 48 + n) bs" using Cons.prems(1) by (simp_all add: b)
  have lim: "a + 48 + n + span bs < 2 ^ 64" using Cons.prems(3) by (simp add: b)
  show ?case
  proof (cases f)
    case True
    let ?o = "o1\<lparr>block_count := block_count o1 + 1, free_count := free_count o1 + 1, free_bytes := free_bytes o1 + of_nat n\<rparr>"
    have swap: "o1\<lparr>largest_free := x, block_count := y, free_count := z, free_bytes := v\<rparr> =
        o1\<lparr>block_count := y, free_count := z, free_bytes := v, largest_free := x\<rparr>" for x y z v by simp
    have "stats_loop s ?A (o1\<lparr>largest_free := of_nat l\<rparr>) =
        stats_loop s (nxt (a + 48 + n) bs) (?o\<lparr>largest_free := of_nat (max l n)\<rparr>)"
      using A hd True less64 [OF Cons.prems(4) n] by (subst stats_loop.simps) (cases "l < n"; simp add: Let_def swap max_def)
    moreover have "max l n < 2 ^ 64" using Cons.prems(4) n by simp
    ultimately show ?thesis using Cons.IH [OF hd(4) _ lim, of "max l n" ?o] True
      by (simp add: b sums max.assoc add.assoc)
  next
    case False
    let ?o = "o1\<lparr>block_count := block_count o1 + 1, used_bytes := used_bytes o1 + of_nat n\<rparr>"
    have swap: "o1\<lparr>largest_free := x, block_count := y, used_bytes := z\<rparr> =
        o1\<lparr>block_count := y, used_bytes := z, largest_free := x\<rparr>" for x y z by simp
    have "stats_loop s ?A (o1\<lparr>largest_free := of_nat l\<rparr>) =
        stats_loop s (nxt (a + 48 + n) bs) (?o\<lparr>largest_free := of_nat l\<rparr>)"
      using A hd False by (subst stats_loop.simps) (simp add: Let_def swap)
    then show ?thesis using Cons.IH [OF hd(4) _ lim Cons.prems(4), of ?o] False
      by (simp add: b sums add.assoc)
  qed
qed

section \<open>The interface of a heap\<close>

text \<open>What a client relies on: an allocation adds one region of at least the size asked for to the live regions,
  which never overlap; a live region can be released and only it disappears.\<close>

fun alloc_all :: "(nat \<Rightarrow> 's \<Rightarrow> (nat \<times> 's) option) \<Rightarrow> nat list \<Rightarrow> 's \<Rightarrow> (nat list \<times> 's) option" where
  "alloc_all al [] s = Some ([], s)"
| "alloc_all al (n # ns) s =
     (case al n s of
        None \<Rightarrow> None
      | Some (x, s) \<Rightarrow> map_option (\<lambda>(xs, s). (x # xs, s)) (alloc_all al ns s))"

fun free_all :: "(nat \<Rightarrow> 's \<Rightarrow> 's option) \<Rightarrow> nat list \<Rightarrow> 's \<Rightarrow> 's option" where
  "free_all fr [] s = Some s"
| "free_all fr (x # xs) s = (case fr x s of None \<Rightarrow> None | Some s \<Rightarrow> free_all fr xs s)"

locale heap_allocator =
  fixes ok :: "'s \<Rightarrow> bool" and regions :: "'s \<Rightarrow> (nat \<times> nat) set"
    and al :: "nat \<Rightarrow> 's \<Rightarrow> (nat \<times> 's) option" and fr :: "nat \<Rightarrow> 's \<Rightarrow> 's option"
  assumes al_some: "ok s \<Longrightarrow> al n s = Some (x, s') \<Longrightarrow>
      ok s' \<and> (\<exists>m \<ge> n. regions s' = insert (x, m) (regions s) \<and> (x, m) \<notin> regions s)"
    and apart: "ok s \<Longrightarrow> (x, n) \<in> regions s \<Longrightarrow> (y, m) \<in> regions s \<Longrightarrow> (x, n) \<noteq> (y, m) \<Longrightarrow> x + n \<le> y \<or> y + m \<le> x"
    and nonempty: "ok s \<Longrightarrow> (x, n) \<in> regions s \<Longrightarrow> 0 < n"
    and fr_live: "ok s \<Longrightarrow> (x, n) \<in> regions s \<Longrightarrow> \<exists>s'. fr x s = Some s' \<and> ok s' \<and> regions s' = regions s - {(x, n)}"
begin

lemma same_region: "ok s \<Longrightarrow> (x, n) \<in> regions s \<Longrightarrow> (x, m) \<in> regions s \<Longrightarrow> n = m"
  using apart [of s x n x m] nonempty [of s x n] nonempty [of s x m] by auto

lemma alloc_all_regions:
  "ok s \<Longrightarrow> alloc_all al ns s = Some (xs, s') \<Longrightarrow>
   \<exists>ms. ok s' \<and> length xs = length ns \<and> length ms = length ns \<and> (\<forall>i < length ns. ns ! i \<le> ms ! i) \<and>
     regions s' = regions s \<union> set (zip xs ms) \<and> distinct (zip xs ms) \<and> set (zip xs ms) \<inter> regions s = {}"
proof (induction ns arbitrary: s xs)
  case (Cons n ns)
  then obtain x s1 ys where s1: "al n s = Some (x, s1)" "alloc_all al ns s1 = Some (ys, s')" "xs = x # ys"
    by (auto split: option.splits)
  obtain m where m: "ok s1" "m \<ge> n" "regions s1 = insert (x, m) (regions s)" "(x, m) \<notin> regions s"
    using al_some [OF Cons.prems(1) s1(1)] by blast
  obtain ms where ms: "ok s'" "length ys = length ns" "length ms = length ns" "\<forall>i < length ns. ns ! i \<le> ms ! i"
    "regions s' = regions s1 \<union> set (zip ys ms)" "distinct (zip ys ms)" "set (zip ys ms) \<inter> regions s1 = {}"
    using Cons.IH [OF m(1) s1(2)] by blast
  show ?case
    using m ms s1(3) by (intro exI [of _ "m # ms"]) (auto simp: All_less_Suc2)
qed simp

lemma free_all_regions:
  "ok s \<Longrightarrow> distinct qs \<Longrightarrow> set qs \<subseteq> fst ` regions s \<Longrightarrow>
   \<exists>s'. free_all fr qs s = Some s' \<and> ok s' \<and> regions s' = {r \<in> regions s. fst r \<notin> set qs}"
proof (induction qs arbitrary: s)
  case (Cons q qs)
  then obtain n where n: "(q, n) \<in> regions s" by auto
  obtain s1 where s1: "fr q s = Some s1" "ok s1" "regions s1 = regions s - {(q, n)}" using fr_live [OF Cons.prems(1) n] by blast
  have one: "m \<noteq> n \<Longrightarrow> (q, m) \<notin> regions s" for m using same_region [OF Cons.prems(1) n] by blast
  have sub: "set qs \<subseteq> fst ` regions s1"
  proof
    fix y assume y: "y \<in> set qs"
    then obtain k where "(y, k) \<in> regions s" using Cons.prems(3) by auto
    moreover have "y \<noteq> q" using Cons.prems(2) y by auto
    ultimately have "(y, k) \<in> regions s1" using s1(3) by simp
    then show "y \<in> fst ` regions s1" by force
  qed
  have "distinct qs" using Cons.prems(2) by simp
  from Cons.IH [OF s1(2) this sub] obtain s' where
    "free_all fr qs s1 = Some s'" "ok s'" "regions s' = {r \<in> regions s1. fst r \<notin> set qs}" by blast
  moreover have "{r \<in> regions s1. fst r \<notin> set qs} = {r \<in> regions s. fst r \<notin> set (q # qs)}"
    using one by (auto simp: s1(3))
  ultimately show ?case using s1(1) by simp
qed simp

text \<open>Regions from a series of allocations are disjoint, and releasing them in any order restores the live regions.\<close>

lemma borrow_regions:
  assumes ok: "ok s" and a: "alloc_all al ns s = Some (xs, s')"
  shows "\<exists>ms. length xs = length ns \<and> length ms = length ns \<and> (\<forall>i < length ns. ns ! i \<le> ms ! i) \<and>
    (\<forall>i < length ns. \<forall>j < length ns. i \<noteq> j \<longrightarrow> xs ! i + ms ! i \<le> xs ! j \<or> xs ! j + ms ! j \<le> xs ! i) \<and>
    (\<forall>qs. distinct qs \<and> set qs = set xs \<longrightarrow> (\<exists>s''. free_all fr qs s' = Some s'' \<and> ok s'' \<and> regions s'' = regions s))"
proof -
  obtain ms where ms: "ok s'" "length xs = length ns" "length ms = length ns" "\<forall>i < length ns. ns ! i \<le> ms ! i"
    "regions s' = regions s \<union> set (zip xs ms)" "distinct (zip xs ms)" "set (zip xs ms) \<inter> regions s = {}"
    using alloc_all_regions [OF ok a] by blast
  have dis: "xs ! i + ms ! i \<le> xs ! j \<or> xs ! j + ms ! j \<le> xs ! i" if ij: "i < length ns" "j < length ns" "i \<noteq> j" for i j
  proof -
    have m: "(xs ! i, ms ! i) \<in> regions s'" "(xs ! j, ms ! j) \<in> regions s'"
      using ms(2,3,5) ij by (auto simp: set_zip)
    have "zip xs ms ! i \<noteq> zip xs ms ! j" using ms(2,3,6) ij by (subst nth_eq_iff_index_eq) auto
    then show ?thesis using apart [OF ms(1) m] ms(2,3) ij by simp
  qed
  have "\<exists>s''. free_all fr qs s' = Some s'' \<and> ok s'' \<and> regions s'' = regions s" if q: "distinct qs" "set qs = set xs" for qs
  proof -
    have fst_zip: "fst ` set (zip xs ms) = set xs" using ms(2,3) by (metis list.set_map map_fst_zip)
    then have "set qs \<subseteq> fst ` regions s'" using q(2) ms(5) by auto
    then obtain s'' where "free_all fr qs s' = Some s''" "ok s''" "regions s'' = {r \<in> regions s'. fst r \<notin> set qs}"
      using free_all_regions [OF ms(1) q(1)] by blast
    moreover have "fst r \<notin> set xs" if "r \<in> regions s" for r
    proof
      assume "fst r \<in> set xs"
      then obtain m where m: "(fst r, m) \<in> set (zip xs ms)" using fst_zip by (metis imageE prod.collapse)
      then have "snd r = m" using same_region [OF ms(1), of "fst r" "snd r" m] that ms(5) by simp
      then show False using m that ms(7) by (metis disjoint_iff prod.collapse)
    qed
    moreover have "r \<in> set (zip xs ms) \<Longrightarrow> fst r \<in> set xs" for r using fst_zip by (metis imageI)
    ultimately show ?thesis using ms(5) q(2) by (intro exI [of _ s'']) auto
  qed
  then show ?thesis using ms(2-4) dis by blast
qed

end

text \<open>The kernel heap as such an allocator. The validator gives up after 1048576 blocks; the smallest block takes 64
  bytes, so heaps of up to 64 MiB stay below that.\<close>

definition kmem_ok :: "kmem_state \<Rightarrow> bool" where
  "kmem_ok s \<longleftrightarrow> (\<exists>bs. heap_is s bs \<and> span bs \<le> 2 ^ 26)"

definition kmem_regions :: "kmem_state \<Rightarrow> (nat \<times> nat) set" where
  "kmem_regions s = {r. \<exists>bs. heap_is s bs \<and> r \<in> live (unat (g_heap_base s)) bs}"

definition kmem_take :: "nat \<Rightarrow> kmem_state \<Rightarrow> (nat \<times> kmem_state) option" where
  "kmem_take n s =
     (if n < 2 ^ 64 then
        (case kmem_alloc (of_nat n) s of
           None \<Rightarrow> None
         | Some (p, s') \<Rightarrow> if p = 0 then None else Some (unat p, s'))
      else None)"

definition kmem_give :: "nat \<Rightarrow> kmem_state \<Rightarrow> kmem_state option" where
  "kmem_give x s =
     (case kmem_free_checked (of_nat x) s of
        None \<Rightarrow> None
      | Some (rc, s') \<Rightarrow> if rc = 0 then Some s' else None)"

lemma kmem_regions_eq: "heap_is s bs \<Longrightarrow> kmem_regions s = live (unat (g_heap_base s)) bs"
  using heap_is_unique by (auto simp: kmem_regions_def)

lemma blocks_bound: "sizes_ok bs \<Longrightarrow> 64 * length bs \<le> span bs"
  by (induction bs rule: span.induct) auto

lemma kmem_take_some:
  assumes h: "heap_is s bs" and t: "kmem_take n s = Some (x, s')"
  obtains k bs' where "fit (rounded (of_nat n)) bs = Some (k, bs')" "x = unat (g_heap_base s) + k" "heap_is s' bs'" "same_regs s s'"
    "n \<le> rounded (of_nat n)"
proof -
  have n: "n < 2 ^ 64" using t by (simp add: kmem_take_def split: if_splits)
  then obtain p where p: "kmem_alloc (of_nat n) s = Some (p, s')" "p \<noteq> 0" "x = unat p"
    using t by (auto simp: kmem_take_def split: option.splits if_splits)
  have nz: "(of_nat n :: u64) \<noteq> 0" using p by (auto simp: kmem_alloc_def split: if_splits)
  obtain k bs' where f: "fit (rounded (of_nat n)) bs = Some (k, bs')"
    using alloc_fit [OF h nz] p by (cases "fit (rounded (of_nat n)) bs") auto
  then have a: "kmem_alloc (of_nat n) s = Some (of_nat (unat (g_heap_base s) + k), s')" "heap_is s' bs'" "same_regs s s'"
    using alloc_fit [OF h nz] p(1) by auto
  obtain m where "live (unat (g_heap_base s)) bs' = insert (unat (g_heap_base s) + k, m) (live (unat (g_heap_base s)) bs)"
    using fit_facts(5) [OF f] by blast
  then have "unat (g_heap_base s) + k + m \<le> unat (g_heap_base s) + span bs'" using live_range by (metis insertI1)
  then have "unat (g_heap_base s) + k < 2 ^ 64"
    using heap_isD(5) [OF a(2)] a(3) unat_bound [of "g_heap_end s'"] by (simp add: same_regs_def)
  then have "x = unat (g_heap_base s) + k" using p a(1) unat64 [of "unat (g_heap_base s) + k"] by (simp del: of_nat_add)
  moreover have "n \<le> rounded (of_nat n)" using rounded_facts(3) [of "of_nat n"] n by simp
  ultimately show thesis using that f a by blast
qed

lemma kmem_give_live:
  assumes h: "heap_is s bs" "span bs \<le> 2 ^ 26" and x: "(x, n) \<in> live (unat (g_heap_base s)) bs"
  obtains s' bs' where "kmem_give x s = Some s'" "heap_is s' bs'" "span bs' = span bs" "same_regs s s'"
    "live (unat (g_heap_base s)) bs' = live (unat (g_heap_base s)) bs - {(x, n)}"
proof -
  let ?a = "unat (g_heap_base s)"
  obtain xs ys where b: "bs = xs @ (n, False) # ys" "x = ?a + span xs + 48" using live_split [OF x] by blast
  define bs' where "bs' = release (span xs) bs"
  obtain s' where s': "kmem_free_checked (of_nat x) s = Some (if length bs' \<le> 1048576 then 0 else - 3, s')"
    "heap_is s' bs'" "same_regs s s'"
    using free_release [OF h(1) [unfolded b(1)]] unfolding bs'_def b by blast
  have sp: "span bs' = span bs" by (simp add: bs'_def b release_split)
  have "length bs' \<le> 1048576" using blocks_bound [OF heap_isD(7) [OF s'(2)]] sp h(2) by simp
  then have g: "kmem_give x s = Some s'" using s'(1) by (simp add: kmem_give_def)
  have l': "live ?a bs' = live ?a xs \<union> live (?a + span xs + 48 + n) ys" by (simp add: bs'_def b release_split live_merge_back)
  have n0: "0 < n" using heap_isD(7) [OF h(1)] by (simp add: b)
  have "(x, n) \<notin> live ?a xs" "(x, n) \<notin> live (?a + span xs + 48 + n) ys"
    using live_range [of x n ?a xs] live_range [of x n "?a + span xs + 48 + n" ys] n0 by (auto simp: b)
  then have "live ?a bs' = live ?a bs - {(x, n)}" by (auto simp: l' b)
  then show thesis using that g s' sp by blast
qed

interpretation km: heap_allocator kmem_ok kmem_regions kmem_take kmem_give
proof
  fix s n x s'
  assume ok: "kmem_ok s"
  then obtain bs where h: "heap_is s bs" "span bs \<le> 2 ^ 26" by (auto simp: kmem_ok_def)
  note reg = kmem_regions_eq [OF h(1)]
  {
    assume "kmem_take n s = Some (x, s')"
    then obtain k bs' where k: "fit (rounded (of_nat n)) bs = Some (k, bs')" "x = unat (g_heap_base s) + k"
      "heap_is s' bs'" "same_regs s s'" "n \<le> rounded (of_nat n)" by (rule kmem_take_some [OF h(1)])
    note f = fit_facts [OF k(1)]
    have "kmem_regions s' = live (unat (g_heap_base s)) bs'" using kmem_regions_eq [OF k(3)] k(4) by (simp add: same_regs_def)
    moreover have "kmem_ok s'" using k(3) f(2) h(2) by (auto simp: kmem_ok_def)
    moreover obtain m where "rounded (of_nat n) \<le> m"
      "live (unat (g_heap_base s)) bs' = insert (x, m) (kmem_regions s)" "(x, m) \<notin> kmem_regions s"
      using f(5) [of "unat (g_heap_base s)"] k(2) reg by auto
    ultimately show "kmem_ok s' \<and> (\<exists>m \<ge> n. kmem_regions s' = insert (x, m) (kmem_regions s) \<and> (x, m) \<notin> kmem_regions s)"
      using k(5) le_trans by blast
  }
  show "(x, n) \<in> kmem_regions s \<Longrightarrow> (y, m) \<in> kmem_regions s \<Longrightarrow> (x, n) \<noteq> (y, m) \<Longrightarrow> x + n \<le> y \<or> y + m \<le> x" for y m
    using live_disjoint [of x n "unat (g_heap_base s)" bs y m] reg by auto
  show "(x, n) \<in> kmem_regions s \<Longrightarrow> 0 < n"
    using live_sizes [OF heap_isD(7) [OF h(1)]] heap_isD(4) [OF h(1)] reg by fastforce
  show "(x, n) \<in> kmem_regions s \<Longrightarrow> \<exists>s'. kmem_give x s = Some s' \<and> kmem_ok s' \<and> kmem_regions s' = kmem_regions s - {(x, n)}"
  proof -
    assume "(x, n) \<in> kmem_regions s"
    then have "(x, n) \<in> live (unat (g_heap_base s)) bs" using reg by simp
    from kmem_give_live [OF h this] obtain s' bs' where g: "kmem_give x s = Some s'" "heap_is s' bs'" "span bs' = span bs"
      "same_regs s s'" "live (unat (g_heap_base s)) bs' = live (unat (g_heap_base s)) bs - {(x, n)}" by blast
    moreover have "kmem_regions s' = live (unat (g_heap_base s)) bs'" using kmem_regions_eq [OF g(2)] g(4) by (simp add: same_regs_def)
    moreover have "kmem_ok s'" using g(2,3) h(2) by (auto simp: kmem_ok_def)
    ultimately show ?thesis using reg by auto
  qed
qed

section \<open>Properties\<close>

definition blank_kmem :: kmem_state where
  "blank_kmem = \<lparr>g_heap_base = 0, g_heap_end = 0, g_head = 0, g_initialized = False,
     k_hdr = (\<lambda>_. \<lparr>b_magic = 0, b_size = 0, b_free = False, b_prev = 0, b_next = 0\<rparr>), k_bytes = (\<lambda>_. 0xAA)\<rparr>"

definition demo_heap :: kmem_state where
  "demo_heap = snd (kmem_init 4096 4096 blank_kmem)"

lemma demo_heap_is: "heap_is demo_heap [(4048, True)]" "unat (g_heap_base demo_heap) = 4096"
proof -
  obtain s' where "kmem_init 4096 4096 blank_kmem = (0, s')" "heap_is s' [(4048, True)]" "unat (g_heap_base s') = 4096"
    by (rule init_heap [of 4096 4096 blank_kmem]) simp_all
  then show "heap_is demo_heap [(4048, True)]" "unat (g_heap_base demo_heap) = 4096" by (simp_all add: demo_heap_def)
qed

lemma demo_fit: "fit (rounded 100) [(4048, True)] = Some (48, [(112, False), (3888, True)])"
  by (simp add: rounded_def)

lemma demo_alloc: "\<exists>s'. kmem_alloc 100 demo_heap = Some (4144, s')"
  using alloc_fit [OF demo_heap_is(1), of 100] by (auto simp: demo_fit demo_heap_is(2) simp del: fit.simps)

text \<open>C32: on a well-formed heap every call returns and the linked headers behave as a list of blocks: an allocation is
  first fit on that list, with the remainder split off when it is worth a block, and fails exactly when no free
  block is large enough (requests whose rounding overflows included); releasing the payload of a block in use
  merges it with its free neighbours; and the list left behind is well formed again. The status of a release is 0,
  or the validator's -3 when more than 1048576 blocks remain.\<close>

theorem kmem_refines_blocks:
  assumes h: "heap_is s bs"
  shows "(case (if n = 0 then None else fit (rounded n) bs) of
       None \<Rightarrow> kmem_alloc n s = Some (0, s)
     | Some (k, bs') \<Rightarrow> \<exists>s'. kmem_alloc n s = Some (of_nat (unat (g_heap_base s) + k), s') \<and> heap_is s' bs') \<and>
    (\<forall>xs m ys. bs = xs @ (m, False) # ys \<longrightarrow>
       (\<exists>s'. kmem_free_checked (of_nat (unat (g_heap_base s) + span xs + 48)) s =
            Some (if length (release (span xs) bs) \<le> 1048576 then 0 else - 3, s') \<and> heap_is s' (release (span xs) bs)))"
proof (intro conjI allI impI)
  show "case (if n = 0 then None else fit (rounded n) bs) of
       None \<Rightarrow> kmem_alloc n s = Some (0, s)
     | Some (k, bs') \<Rightarrow> \<exists>s'. kmem_alloc n s = Some (of_nat (unat (g_heap_base s) + k), s') \<and> heap_is s' bs'"
    using alloc_fit [OF h, of n] by (cases "n = 0") (auto simp: kmem_alloc_def split: option.splits)
  fix xs m ys
  assume b: "bs = xs @ (m, False) # ys"
  show "\<exists>s'. kmem_free_checked (of_nat (unat (g_heap_base s) + span xs + 48)) s =
      Some (if length (release (span xs) bs) \<le> 1048576 then 0 else - 3, s') \<and> heap_is s' (release (span xs) bs)"
    using free_release [OF h [unfolded b]] unfolding b by blast
qed

theorem kmem_refines_blocks_witness:
  "\<exists>s'. kmem_alloc 100 demo_heap = Some (4144, s') \<and> heap_is s' [(112, False), (3888, True)]"
  using kmem_refines_blocks [OF demo_heap_is(1), of 100] by (simp add: demo_fit demo_heap_is(2) del: fit.simps)

text \<open>releasing an allocation right after it was made restores the list of blocks exactly: nothing is leaked and
  nothing stays split.\<close>

theorem kmem_alloc_free_restores:
  assumes h: "heap_is s bs" and a: "kmem_alloc n s = Some (p, s')" "p \<noteq> 0"
  shows "\<exists>s''. kmem_free_checked p s' = Some (if length bs \<le> 1048576 then 0 else - 3, s'') \<and> heap_is s'' bs"
proof -
  have n: "n \<noteq> 0" using a by (auto simp: kmem_alloc_def split: if_splits)
  obtain k bs' where f: "fit (rounded n) bs = Some (k, bs')"
    using alloc_fit [OF h n] a by (cases "fit (rounded n) bs") auto
  then have r: "p = of_nat (unat (g_heap_base s) + k)" "heap_is s' bs'" "same_regs s s'"
    using alloc_fit [OF h n] a(1) by auto
  let ?a = "unat (g_heap_base s)"
  obtain m where "live ?a bs' = insert (?a + k, m) (live ?a bs)" using fit_facts(5) [OF f] by blast
  then obtain xs ys where b: "bs' = xs @ (m, False) # ys" "?a + k = ?a + span xs + 48"
    using live_split [of "?a + k" m ?a bs'] by auto
  have k: "span xs = k - 48" using b(2) by simp
  have "release (span xs) bs' = bs" unfolding k by (rule fit_release [OF f heap_isD(8) [OF h]])
  then show ?thesis
    using free_release [OF r(2) [unfolded b(1)]] b r(1,3) unfolding same_regs_def by metis
qed

theorem kmem_alloc_free_restores_witness:
  "\<exists>s' s''. kmem_alloc 100 demo_heap = Some (4144, s') \<and> kmem_free_checked 4144 s' = Some (0, s'') \<and> heap_is s'' [(4048, True)]"
proof -
  obtain s' where a: "kmem_alloc 100 demo_heap = Some (4144, s')"
    using demo_alloc by blast
  show ?thesis using kmem_alloc_free_restores [OF demo_heap_is(1) a] a by simp
qed

text \<open>C33: any series of allocations that succeeds on a heap of at most 64 MiB returns pairwise disjoint regions, each at
  least as long as asked for, and freeing them in any order succeeds and restores the set of live regions.\<close>

theorem kmem_borrow_and_return:
  assumes "kmem_ok s" "alloc_all kmem_take ns s = Some (xs, s')"
  shows "\<exists>ms. length xs = length ns \<and> length ms = length ns \<and> (\<forall>i < length ns. ns ! i \<le> ms ! i) \<and>
    (\<forall>i < length ns. \<forall>j < length ns. i \<noteq> j \<longrightarrow> xs ! i + ms ! i \<le> xs ! j \<or> xs ! j + ms ! j \<le> xs ! i) \<and>
    (\<forall>qs. distinct qs \<and> set qs = set xs \<longrightarrow>
       (\<exists>s''. free_all kmem_give qs s' = Some s'' \<and> kmem_ok s'' \<and> kmem_regions s'' = kmem_regions s))"
  by (rule km.borrow_regions [OF assms])

theorem kmem_borrow_and_return_witness:
  "\<exists>s' s''. alloc_all kmem_take [100] demo_heap = Some ([4144], s') \<and> free_all kmem_give [4144] s' = Some s'' \<and>
     kmem_regions s'' = kmem_regions demo_heap"
proof -
  obtain s' where "kmem_alloc 100 demo_heap = Some (4144, s')"
    using demo_alloc by blast
  then have a: "alloc_all kmem_take [100] demo_heap = Some ([4144], s')" by (simp add: kmem_take_def)
  have "kmem_ok demo_heap" unfolding kmem_ok_def using demo_heap_is(1) by (intro exI [of _ "[(4048, True)]"]) simp
  then obtain s'' where "free_all kmem_give [4144] s' = Some s''" "kmem_regions s'' = kmem_regions demo_heap"
    using kmem_borrow_and_return [OF _ a] by (metis distinct_singleton)
  then show ?thesis using a by blast
qed

text \<open>a zeroed allocation refuses a product that does not fit in 64 bits; otherwise it allocates as the plain
  call does and clears exactly the bytes asked for, and no other byte of memory.\<close>

theorem kmem_calloc_clears:
  assumes h: "heap_is s bs" and c: "kmem_calloc count size1 s = Some (p, s')"
  shows "if unat count * unat size1 < 2 ^ 64 then
      (\<exists>s1. kmem_alloc (count * size1) s = Some (p, s1) \<and> s' = s1\<lparr>k_bytes := k_bytes s'\<rparr> \<and>
         (\<forall>x. k_bytes s' x = (if p \<noteq> 0 \<and> unat (x - p) < unat count * unat size1 then 0 else k_bytes s x)))
    else p = 0 \<and> s' = s"
proof -
  have over: "(count \<noteq> 0 \<and> SIZE_MAX div count < size1) \<longleftrightarrow> \<not> unat count * unat size1 < 2 ^ 64"
  proof (cases "count = 0")
    case False
    then have c0: "0 < unat count" by (simp add: unat_gt_0)
    have "unat (SIZE_MAX div count) = (2 ^ 64 - 1) div unat count" by (simp add: unat_div mcs_consts)
    moreover have "(2 ^ 64 - 1) div unat count < unat size1 \<longleftrightarrow> 2 ^ 64 - 1 < unat size1 * unat count"
      using c0 by (rule div_less_iff_less_mult)
    ultimately show ?thesis using False by (auto simp: word_less_nat_alt mult.commute)
  qed simp
  show ?thesis
  proof (cases "unat count * unat size1 < 2 ^ 64")
    case True
    then have u: "unat (count * size1) = unat count * unat size1" by (simp add: unat_word_ariths)
    obtain s1 where s1: "kmem_alloc (count * size1) s = Some (p, s1)"
      "s' = (if p \<noteq> 0 then s1\<lparr>k_bytes := kmem_memset (k_bytes s1) p 0 (unat (count * size1))\<rparr> else s1)"
      using c over True by (auto simp: kmem_calloc_def Let_def split: option.splits)
    have "k_bytes s1 = k_bytes s"
      using alloc_fit [OF h, of "count * size1"] s1(1)
      by (cases "count * size1 = 0") (auto simp: kmem_alloc_def same_regs_def split: option.splits)
    then show ?thesis using True s1 u by (auto simp: memset_at)
  next
    case False
    then show ?thesis using c over by (auto simp: kmem_calloc_def)
  qed
qed

theorem kmem_calloc_clears_witness:
  "\<exists>s'. kmem_calloc 10 10 demo_heap = Some (4144, s') \<and> k_bytes s' 4200 = 0 \<and> k_bytes demo_heap 4200 = 0xAA"
proof -
  obtain s1 where "kmem_alloc 100 demo_heap = Some (4144, s1)"
    using demo_alloc by blast
  then obtain s' where c: "kmem_calloc 10 10 demo_heap = Some (4144, s')" by (auto simp: kmem_calloc_def mcs_consts)
  have "k_bytes demo_heap 4200 = 0xAA" by (simp add: demo_heap_def kmem_init_def Let_def blank_kmem_def)
  then show ?thesis using kmem_calloc_clears [OF demo_heap_is(1) c] c by auto
qed

text \<open>C40: the statistics are exact: used and free bytes, the numbers of blocks and the largest free block are those of
  the block list, and used bytes, free bytes and 48 bytes per block add up to the size of the heap.\<close>

theorem kmem_stats_exact:
  assumes h: "heap_is s bs"
  shows "\<exists>st. kmem_get_stats (Some o1) s = Some (Some st) \<and> unat (total_bytes st) = span bs \<and>
    unat (used_bytes st) = used_sum bs \<and> unat (free_bytes st) = free_sum bs \<and> unat (block_count st) = length bs \<and>
    unat (free_count st) = free_number bs \<and> unat (largest_free st) = max_free bs \<and>
    unat (total_bytes st) = unat (used_bytes st) + unat (free_bytes st) + 48 * unat (block_count st)"
proof -
  define o2 where "o2 = o1\<lparr>used_bytes := 0, free_bytes := 0, block_count := 0, free_count := 0, largest_free := 0,
    total_bytes := g_heap_end s - g_heap_base s\<rparr>"
  have o2: "o2\<lparr>largest_free := of_nat 0\<rparr> = o2" "used_bytes o2 = 0" "free_bytes o2 = 0" "block_count o2 = 0"
    "free_count o2 = 0" "total_bytes o2 = g_heap_end s - g_heap_base s" by (simp_all add: o2_def)
  have lt: "unat (g_heap_base s) + span bs < 2 ^ 64" using heap_isD(5) [OF h] unat_bound [of "g_heap_end s"] by simp
  have small: "used_sum bs < 2 ^ 64" "free_sum bs < 2 ^ 64" "length bs < 2 ^ 64" "max_free bs < 2 ^ 64"
    using lt span_sums [of bs] max_free_le [of bs] by auto
  moreover have "free_number bs < 2 ^ 64" using small(3) length_filter_le [of snd bs] unfolding free_number_def by linarith
  moreover have "unat (g_heap_end s - g_heap_base s) = span bs"
    using heap_isD(5) [OF h] by (simp add: unat_sub word_le_nat_alt)
  moreover have "kmem_get_stats (Some o1) s = map_option Some (stats_loop s (nxt (unat (g_heap_base s)) bs) o2)"
    using heap_isD(1,2) [OF h] by (simp add: kmem_get_stats_def Let_def o2_def)
  ultimately show ?thesis
    using stats_chain [OF heap_isD(9) [OF h] _ lt, of 0 o2, unfolded o2(1)] heap_isD(3) [OF h] span_sums [of bs] o2(2-6)
    by simp
qed

theorem kmem_stats_exact_witness:
  "\<exists>st o1. kmem_get_stats (Some o1) demo_heap = Some (Some st) \<and> unat (largest_free st) = 4048 \<and> unat (total_bytes st) = 4096"
proof -
  from kmem_stats_exact [OF demo_heap_is(1), of "\<lparr>total_bytes = 0, used_bytes = 0, free_bytes = 0, block_count = 0,
    free_count = 0, largest_free = 0\<rparr>"] show ?thesis by (simp add: sums) blast
qed

text \<open>
  Executions. The heap is set up on a region outside the first 32 bytes and the last of the address space that holds no
  header yet (a static array starts zeroed), and is then called any number of times, with any pointer released: one
  from inside a payload, one of a block already released, one of a block merged away, whose header the merge has erased.
  Between the calls memory that is not a header may be written, as long as no bytes that imitate a header appear there:
  the magic number is all that tells a header from a payload.

  The invariant beside the shape of the heap: where the magic number stands and the free flag is clear, there is a live
  allocation.
\<close>

definition is_used :: "kmem_state \<Rightarrow> u64 \<Rightarrow> bool" where
  "is_used s a \<longleftrightarrow> b_magic (k_hdr s a) = KMEM_MAGIC \<and> \<not> b_free (k_hdr s a)"

definition kmem_sound :: "kmem_state \<Rightarrow> blocks \<Rightarrow> bool" where
  "kmem_sound s bs \<longleftrightarrow> heap_is s bs \<and>
     (\<forall>a. kmem_ptr_in_heap s a \<and> is_used s a \<longrightarrow> (\<exists>n. (unat a + 48, n) \<in> live (unat (g_heap_base s)) bs))"

inductive kmem_reach :: "kmem_state \<Rightarrow> bool" where
  reach_init: "32 \<le> unat b \<Longrightarrow> unat b + unat n < 2 ^ 64 \<Longrightarrow> 112 \<le> unat n \<Longrightarrow>
    (\<And>a. unat b \<le> unat a \<Longrightarrow> unat a < unat b + unat n \<Longrightarrow> b_magic (k_hdr s a) \<noteq> KMEM_MAGIC) \<Longrightarrow>
    kmem_reach (snd (kmem_init b n s))"
| reach_alloc: "kmem_reach s \<Longrightarrow> kmem_alloc n s = Some (p, s') \<Longrightarrow> kmem_reach s'"
| reach_calloc: "kmem_reach s \<Longrightarrow> kmem_calloc c n s = Some (p, s') \<Longrightarrow> kmem_reach s'"
| reach_free: "kmem_reach s \<Longrightarrow> kmem_free_checked p s = Some (rc, s') \<Longrightarrow> kmem_reach s'"
| reach_store: "kmem_reach s \<Longrightarrow> b_magic (k_hdr s a) \<noteq> KMEM_MAGIC \<Longrightarrow> b_magic h \<noteq> KMEM_MAGIC \<Longrightarrow>
    kmem_reach (s\<lparr>k_hdr := (k_hdr s)(a := h), k_bytes := m\<rparr>)"

text \<open>Which headers the operations can turn into blocks in use: none by merging, none by splitting, one by allocating.\<close>

lemma coalesce_used:
  assumes "kmem_coalesce_forward block s = Some s'" "is_used s' a"
  shows "is_used s a"
proof -
  have eq: "is_used (upd_hdr x g s) a = is_used s a"
    if "\<And>h. b_magic (g h) = b_magic h" "\<And>h. b_free (g h) = b_free h" for x g s
    using that by (simp add: is_used_def)
  have zero: "is_used (upd_hdr x (\<lambda>b. b\<lparr>b_magic := 0, b_size := 0, b_prev := 0, b_next := 0\<rparr>) s) a \<Longrightarrow> is_used s a" for x s
    by (auto simp: is_used_def mcs_consts split: if_splits)
  have "is_used s' a \<longrightarrow> is_used s a"
  proof (rule kmem_coalesce_forward.raw_induct [OF _ assms(1), where P = "\<lambda>block s s'. is_used s' a \<longrightarrow> is_used s a"], goal_cases)
    case (1 f block s s')
    then show ?case by (auto simp: Let_def eq split: if_splits dest!: 1(1) zero)
  qed
  then show ?thesis using assms(2) by simp
qed

lemma split_used: "is_used (kmem_split_if_useful block w s) a \<Longrightarrow> is_used s a"
  by (auto simp: kmem_split_if_useful_def is_used_def Let_def split: if_splits)

lemma alloc_loop_used:
  assumes "alloc_loop cur w s = Some (p, s')" "is_used s' a"
  shows "is_used s a \<or> p = kmem_payload a"
proof -
  have new: "a = cur" if "is_used (upd_hdr cur (\<lambda>b. b\<lparr>b_free := False\<rparr>) t) a" "\<not> is_used t a" for cur t
    using that by (auto simp: is_used_def split: if_splits)
  have "is_used (snd (p, s')) a \<longrightarrow> is_used s a \<or> fst (p, s') = kmem_payload a"
  proof (rule alloc_loop.raw_induct [OF _ assms(1), where
      P = "\<lambda>cur w s r. is_used (snd r) a \<longrightarrow> is_used s a \<or> fst r = kmem_payload a"], goal_cases)
    case (1 f cur w s r)
    have "r = (0, s) \<or> r = (kmem_payload cur, upd_hdr cur (\<lambda>b. b\<lparr>b_free := False\<rparr>) (kmem_split_if_useful cur w s)) \<or>
        f (b_next (k_hdr s cur)) w s = Some r" using 1(2) by (auto split: if_splits)
    then show ?case
      using 1(1) [of "b_next (k_hdr s cur)" w s r] new [of cur "kmem_split_if_useful cur w s"] split_used [of cur w s a]
      by (metis fst_conv snd_conv)
  qed
  then show ?thesis using assms(2) by simp
qed

lemma alloc_used: "kmem_alloc n s = Some (p, s') \<Longrightarrow> is_used s' a \<Longrightarrow> is_used s a \<or> p = kmem_payload a"
  using alloc_loop_used [of "g_head s"] by (auto simp: kmem_alloc_def Let_def split: if_splits)

text \<open>The invariant holds after the set-up and is kept by every call.\<close>

lemma soundD: "kmem_sound s bs \<Longrightarrow> heap_is s bs"
  by (simp add: kmem_sound_def)

lemma init_sound:
  assumes b: "32 \<le> unat b" "unat b + unat n < 2 ^ 64" "112 \<le> unat n"
    and fresh: "\<And>a. unat b \<le> unat a \<Longrightarrow> unat a < unat b + unat n \<Longrightarrow> b_magic (k_hdr s a) \<noteq> KMEM_MAGIC"
  shows "\<exists>bs. kmem_sound (snd (kmem_init b n s)) bs"
proof -
  define a where "a = 16 * ((unat b + 15) div 16)"
  define u where "u = 16 * ((unat b + unat n - a) div 16)"
  obtain s' where s': "kmem_init b n s = (0, s')" "heap_is s' [(u - 48, True)]" "unat (g_heap_base s') = a"
    "unat (g_heap_end s') = a + u"
    by (rule init_heap [OF b(1,2,3), of s, folded a_def, folded u_def])
  have in_region: "unat b \<le> a" "a + u \<le> unat b + unat n" using b(3) by (auto simp: a_def u_def)
  have "\<not> is_used s' x" if x: "kmem_ptr_in_heap s' x" for x
  proof
    assume used: "is_used s' x"
    have "k_hdr s' x = k_hdr s x \<or> b_free (k_hdr s' x)"
      using s'(1) by (auto simp: kmem_init_def Let_def split: if_splits)
    then have "b_magic (k_hdr s x) = KMEM_MAGIC" using used by (auto simp: is_used_def)
    then show False using fresh [of x] x in_region s'(3,4) by (simp add: kmem_ptr_in_heap_def word_le_nat_alt word_less_nat_alt)
  qed
  then show ?thesis using s' by (auto simp: kmem_sound_def)
qed

lemma alloc_sound:
  assumes s: "kmem_sound s bs"
  shows "\<exists>p s' bs'. kmem_alloc n s = Some (p, s') \<and> kmem_sound s' bs'"
proof (cases "n = 0 \<or> fit (rounded n) bs = None")
  case True
  then show ?thesis using alloc_fit [OF soundD [OF s], of n] s by (auto simp: kmem_alloc_def)
next
  case False
  then obtain k bs' where f: "fit (rounded n) bs = Some (k, bs')" by auto
  let ?a = "unat (g_heap_base s)"
  obtain s' where s': "kmem_alloc n s = Some (of_nat (?a + k), s')" "heap_is s' bs'" "same_regs s s'"
    using alloc_fit [OF soundD [OF s], of n] False f by auto
  obtain m where m: "live ?a bs' = insert (?a + k, m) (live ?a bs)" using fit_facts(5) [OF f] by blast
  have "(?a + k, m) \<in> live ?a bs'" using m by simp
  then have lt: "?a + k < 2 ^ 64" using live_range [of "?a + k" m ?a bs'] heap_isD(5) [OF s'(2)] s'(3) unat_bound [of "g_heap_end s'"]
    by (simp add: same_regs_def)
  have "\<exists>l. (unat x + 48, l) \<in> live ?a bs'" if x: "kmem_ptr_in_heap s x" "is_used s' x" for x
  proof (cases "is_used s x")
    case True
    then show ?thesis using s x(1) m by (auto simp: kmem_sound_def)
  next
    case False
    then have "of_nat (?a + k) = kmem_payload x" using alloc_used [OF s'(1) x(2)] by simp
    then have "x = of_nat (?a + k) - 48" by (simp add: kmem_payload_def mcs_consts)
    then have "unat x = ?a + k - 48" using lt fit_facts(4) [OF f] unat64 [of "?a + k - 48"] by (simp add: of_nat_diff)
    then show ?thesis using m fit_facts(4) [OF f] by auto
  qed
  then show ?thesis using s' by (auto simp: kmem_sound_def same_regs_def kmem_ptr_in_heap_def)
qed

lemma bytes_sound: "kmem_sound s bs \<Longrightarrow> kmem_sound (s\<lparr>k_bytes := m\<rparr>) bs"
  by (simp add: kmem_sound_def heap_is_def is_used_def kmem_ptr_in_heap_def)

lemma calloc_sound:
  assumes "kmem_sound s bs"
  shows "\<exists>p s' bs'. kmem_calloc c n s = Some (p, s') \<and> kmem_sound s' bs'"
  using alloc_sound [OF assms, of "c * n"] assms bytes_sound by (fastforce simp: kmem_calloc_def Let_def)

lemma free_live_sound:
  assumes s: "kmem_sound s (xs @ (n, False) # ys)"
  shows "\<exists>rc s' bs'. kmem_free_checked (of_nat (unat (g_heap_base s) + span xs + 48)) s = Some (rc, s') \<and>
    kmem_sound s' bs' \<and> rc \<in> {- 3, 0}"
proof -
  let ?a = "unat (g_heap_base s)" and ?bs' = "release (span xs) (xs @ (n, False) # ys)"
  let ?B = "of_nat (unat (g_heap_base s) + span xs) :: u64"
  note h = soundD [OF s]
  obtain rc s' where s': "kmem_free_checked (of_nat (?a + span xs + 48)) s = Some (rc, s')" "rc \<in> {- 3, 0}"
    "heap_is s' ?bs'" "same_regs s s'"
    by (rule free_release [OF h]) auto
  have lt: "unat ?B = ?a + span xs"
    using heap_isD(5) [OF h] unat_bound [of "g_heap_end s"] by (intro unat64) simp
  have live': "live ?a ?bs' = live ?a xs \<union> live (?a + span xs + 48 + n) ys" by (simp add: release_split live_merge_back)
  have "\<exists>l. (unat x + 48, l) \<in> live ?a ?bs'" if x: "kmem_ptr_in_heap s x" "is_used s' x" for x
  proof -
    have "is_used s x \<and> x \<noteq> ?B"
    proof -
      have "is_used (upd_hdr ?B (\<lambda>b. b\<lparr>b_free := True\<rparr>) s) x"
        using s'(1) x(2) payload_header [OF h] by (auto simp: kmem_free_checked_def Let_def split: if_splits option.splits
          dest: coalesce_used simp del: of_nat_add)
      then show ?thesis by (auto simp: is_used_def split: if_splits)
    qed
    moreover from this obtain l where "(unat x + 48, l) \<in> live ?a (xs @ (n, False) # ys)" using s x(1) by (auto simp: kmem_sound_def)
    moreover have "unat x \<noteq> ?a + span xs" using calculation(1) word_unat_eq_iff [of x ?B] lt by auto
    ultimately show ?thesis unfolding live' by auto
  qed
  then show ?thesis using s' by (auto simp: kmem_sound_def same_regs_def kmem_ptr_in_heap_def)
qed

lemma free_sound:
  assumes s: "kmem_sound s bs"
  shows "\<exists>rc s' bs'. kmem_free_checked p s = Some (rc, s') \<and> kmem_sound s' bs' \<and> rc \<in> {- 4, - 3, - 2, - 1, 0}"
proof (cases "kmem_ptr_in_heap s (p - HEADER_BYTES) \<and> is_used s (p - HEADER_BYTES)")
  case True
  then obtain n where "(unat (p - HEADER_BYTES) + 48, n) \<in> live (unat (g_heap_base s)) bs" using s by (auto simp: kmem_sound_def)
  then obtain xs ys where x: "bs = xs @ (n, False) # ys" "unat (p - HEADER_BYTES) = unat (g_heap_base s) + span xs"
    using live_split by fastforce
  have "p - HEADER_BYTES = of_nat (unat (g_heap_base s) + span xs)" unfolding x(2) [symmetric] by simp
  then have "p = of_nat (unat (g_heap_base s) + span xs + 48)" by (simp add: mcs_consts algebra_simps)
  then show ?thesis using free_live_sound [of s xs n ys] s x(1) by fastforce
next
  case False
  have "kmem_free_checked p s \<in> {Some (0, s), Some (- 1, s), Some (- 2, s), Some (- 3, s), Some (- 4, s)}"
    using False by (auto simp: kmem_free_checked_def kmem_header_from_payload_def is_used_def Let_def)
  then show ?thesis using s by auto
qed

lemma store_sound:
  assumes s: "kmem_sound s bs" and old: "b_magic (k_hdr s a) \<noteq> KMEM_MAGIC" and new: "b_magic h \<noteq> KMEM_MAGIC"
  shows "kmem_sound (s\<lparr>k_hdr := (k_hdr s)(a := h), k_bytes := m\<rparr>) bs"
proof -
  have "chain (k_hdr s) p x bs \<Longrightarrow> chain ((k_hdr s)(a := h)) p x bs" for p x
    using old by (induction "k_hdr s" p x bs rule: chain.induct) auto
  then show ?thesis using s new by (auto simp: kmem_sound_def heap_is_def is_used_def kmem_ptr_in_heap_def)
qed

lemma reach_sound: "kmem_reach s \<Longrightarrow> \<exists>bs. kmem_sound s bs"
proof (induction rule: kmem_reach.induct)
  case (reach_init b n s)
  then show ?case by (rule init_sound)
next
  case (reach_alloc s n p s')
  then show ?case using alloc_sound [of s _ n] by fastforce
next
  case (reach_calloc s c n p s')
  then show ?case using calloc_sound [of s _ c n] by fastforce
next
  case (reach_free s p rc s')
  then show ?case using free_sound [of s _ p] by fastforce
qed (blast intro: store_sound)

text \<open>C34: the heap is set up on a region of at least 112 bytes outside the first 32 bytes and the last of the address
  space and without bytes that look like a header. Whatever sequence of allocations, zeroed allocations and releases
  of any pointers follows, with stores in between that imitate no header, its state is well formed: some list of blocks
  tiles the heap exactly, no two neighbouring blocks are free, and the validator answers 0 (or -3 beyond 1048576
  blocks). From every such state each call returns, and a release answers with one of its five codes.\<close>

theorem kmem_always_well_formed:
  assumes r: "kmem_reach s"
  shows "(\<exists>bs. heap_is s bs \<and> merged bs \<and> unat (g_heap_end s) = unat (g_heap_base s) + span bs \<and>
      kmem_validate s = (if length bs \<le> 1048576 then 0 else - 3)) \<and>
    (\<forall>n. \<exists>p s'. kmem_alloc n s = Some (p, s')) \<and>
    (\<forall>c n. \<exists>p s'. kmem_calloc c n s = Some (p, s')) \<and>
    (\<forall>p. \<exists>rc s'. kmem_free_checked p s = Some (rc, s') \<and> rc \<in> {- 4, - 3, - 2, - 1, 0})"
proof -
  obtain bs where s: "kmem_sound s bs" using reach_sound [OF r] by blast
  note h = soundD [OF s]
  have "\<exists>rc s'. kmem_free_checked p s = Some (rc, s') \<and> rc \<in> {- 4, - 3, - 2, - 1, 0}" for p
    using free_sound [OF s] by blast
  moreover have "\<exists>p s'. kmem_alloc n s = Some (p, s')" "\<exists>p s'. kmem_calloc c n s = Some (p, s')" for c n
    using alloc_sound [OF s] calloc_sound [OF s] by blast+
  ultimately show ?thesis using validate_heap [OF h] heap_isD(5,8) [OF h] h by auto
qed

theorem kmem_always_well_formed_witness:
  "kmem_reach demo_heap \<and> (\<exists>p s'. kmem_alloc 5000 demo_heap = Some (p, s')) \<and>
   (\<exists>p s'. kmem_calloc 10 10 demo_heap = Some (p, s')) \<and> (\<exists>rc s'. kmem_free_checked 4200 demo_heap = Some (rc, s'))"
proof -
  have "kmem_reach demo_heap" unfolding demo_heap_def by (rule reach_init) (simp_all add: blank_kmem_def mcs_consts)
  with kmem_always_well_formed [OF this] show ?thesis by blast
qed

end
