(* ===== verification/Libmem.thy ===== *)
theory Libmem
  imports MCS_Prelude
begin

text \<open>
  \<open>kernel/lib/memory.c\<close>: the memory functions the compiler may call. Memory is a map from addresses to bytes, pointers
  are addresses, and \<open>*d++ = *s++\<close> is a step of a loop over the count; pointers advance with the wrap-around of 64 bits.
\<close>

type_synonym memory = "u64 \<Rightarrow> u8"

section \<open>The functions\<close>

text \<open>Each returns the memory; \<open>dest\<close>, which the C functions return, is the argument.\<close>

fun set_loop :: "memory \<Rightarrow> u64 \<Rightarrow> u8 \<Rightarrow> nat \<Rightarrow> memory" where
  "set_loop m d v 0 = m"
| "set_loop m d v (Suc n) = set_loop (m(d := v)) (d + 1) v n"

definition memset :: "memory \<Rightarrow> u64 \<Rightarrow> 32 word \<Rightarrow> u64 \<Rightarrow> memory" where
  "memset m dest v count = set_loop m dest (ucast v) (unat count)"

fun up_loop :: "memory \<Rightarrow> u64 \<Rightarrow> u64 \<Rightarrow> nat \<Rightarrow> memory" where
  "up_loop m d s 0 = m"
| "up_loop m d s (Suc n) = up_loop (m(d := m s)) (d + 1) (s + 1) n"

definition memcpy :: "memory \<Rightarrow> u64 \<Rightarrow> u64 \<Rightarrow> u64 \<Rightarrow> memory" where
  "memcpy m dest src count = up_loop m dest src (unat count)"

fun down_loop :: "memory \<Rightarrow> u64 \<Rightarrow> u64 \<Rightarrow> nat \<Rightarrow> memory" where
  "down_loop m d s 0 = m"
| "down_loop m d s (Suc n) = down_loop (m(d - 1 := m (s - 1))) (d - 1) (s - 1) n"

definition memmove :: "memory \<Rightarrow> u64 \<Rightarrow> u64 \<Rightarrow> u64 \<Rightarrow> memory" where
  "memmove m dest src count =
     (if dest = src \<or> count = 0 then m
      else if dest < src then up_loop m dest src (unat count)
      else down_loop m (dest + count) (src + count) (unat count))"

section \<open>What they do\<close>

text \<open>The bytes of a region are its offsets from the start.\<close>

definition inside :: "u64 \<Rightarrow> nat \<Rightarrow> u64 \<Rightarrow> bool" where
  "inside d n a \<longleftrightarrow> unat (a - d) < n"

lemma unat_minus_1: "unat (- 1 :: u64) = 18446744073709551615"
  by (simp add: unsigned_minus_1_eq_mask mask_eq_exp_minus_1)

lemma inside_Suc: "n < 2 ^ 64 \<Longrightarrow> inside d (Suc n) a \<longleftrightarrow> a = d \<or> inside (d + 1) n a \<and> a \<noteq> d"
proof -
  assume n: "n < 2 ^ 64"
  have e: "a - (d + 1) = a - d - 1" by simp
  show ?thesis
  proof (cases "a = d")
    case False
    then have "a - d \<noteq> 0" by simp
    then have "unat (a - (d + 1)) = unat (a - d) - 1" "0 < unat (a - d)"
      unfolding e by (simp_all add: unat_gt_0 unat_minus_one)
    then show ?thesis using False by (auto simp: inside_def)
  qed (simp add: inside_def)
qed

lemma set_loop_at: "n < 2 ^ 64 \<Longrightarrow> set_loop m d v n a = (if inside d n a then v else m a)"
proof (induction m d v n rule: set_loop.induct)
  case (2 m d v n)
  have "\<not> inside (d + 1) n d" using "2.prems" by (simp add: inside_def unat_minus_1)
  moreover have "set_loop (m(d := v)) (d + 1) v n a = (if inside (d + 1) n a then v else (m(d := v)) a)"
    by (rule "2.IH") (use "2.prems" in simp)
  ultimately show ?case using inside_Suc [of n d a] "2.prems" by auto
qed (simp add: inside_def)

text \<open>Copying upwards reads no byte it has overwritten, if no byte of the source behind the current one lies in the
  part of the destination already written; for a destination below the source this holds whatever the overlap.\<close>

lemma up_loop_at:
  assumes "n \<le> 2 ^ 64" "\<And>i j. i < j \<Longrightarrow> j < n \<Longrightarrow> d + of_nat i \<noteq> s + of_nat j"
  shows "up_loop m d s n a = (if inside d n a then m (s + (a - d)) else m a)"
  using assms
proof (induction m d s n arbitrary: rule: up_loop.induct)
  case (2 m d s n)
  have IH: "up_loop (m(d := m s)) (d + 1) (s + 1) n a =
      (if inside (d + 1) n a then (m(d := m s)) (s + 1 + (a - (d + 1))) else (m(d := m s)) a)"
  proof (rule "2.IH")
    show "n \<le> 2 ^ 64" using "2.prems"(1) by simp
    fix i j :: nat assume "i < j" "j < n"
    then show "d + 1 + of_nat i \<noteq> s + 1 + of_nat j" using "2.prems"(2) [of "Suc i" "Suc j"] by (simp add: algebra_simps)
  qed
  have e: "s + 1 + (a - (d + 1)) = s + (a - d)" by simp
  have ins: "inside d (Suc n) a \<longleftrightarrow> a = d \<or> inside (d + 1) n a \<and> a \<noteq> d"
    using inside_Suc [of n d a] "2.prems"(1) by simp
  have "s + (a - d) \<noteq> d" if "inside (d + 1) n a" "a \<noteq> d"
  proof -
    have "unat (a - d) < Suc n" "0 < unat (a - d)"
      using that ins by (auto simp: inside_def unat_gt_0)
    then show ?thesis using "2.prems"(2) [of 0 "unat (a - d)"] by auto
  qed
  moreover have "\<not> inside (d + 1) n d"
    using "2.prems"(1) by (simp add: inside_def unat_minus_1)
  ultimately show ?case unfolding up_loop.simps IH e ins by auto
qed (simp add: inside_def)

lemma inside_top: "n < 2 ^ 64 \<Longrightarrow> inside d (Suc n) a \<longleftrightarrow> inside d n a \<or> a = d + of_nat n"
proof -
  assume n: "n < 2 ^ 64"
  have "unat (a - d) = n \<longleftrightarrow> a = d + of_nat n"
  proof
    assume "unat (a - d) = n"
    then have "a - d = of_nat n" by auto
    then show "a = d + of_nat n" by (simp add: algebra_simps)
  qed (use n in \<open>simp add: unat_of_nat\<close>)
  then show ?thesis by (auto simp: inside_def less_Suc_eq)
qed

lemma down_loop_at:
  assumes "n \<le> 2 ^ 64" "\<And>i j. i < j \<Longrightarrow> j < n \<Longrightarrow> s + of_nat i \<noteq> d + of_nat j"
  shows "down_loop m (d + of_nat n) (s + of_nat n) n a = (if inside d n a then m (s + (a - d)) else m a)"
  using assms
proof (induction n arbitrary: m)
  case (Suc n)
  let ?m = "m(d + of_nat n := m (s + of_nat n))"
  have step: "down_loop m (d + of_nat (Suc n)) (s + of_nat (Suc n)) (Suc n) = down_loop ?m (d + of_nat n) (s + of_nat n) n"
    by (simp add: algebra_simps)
  have IH: "down_loop ?m (d + of_nat n) (s + of_nat n) n a = (if inside d n a then ?m (s + (a - d)) else ?m a)"
    by (rule Suc.IH) (use Suc.prems in simp_all)
  have "s + (a - d) \<noteq> d + of_nat n" if "inside d n a"
    using Suc.prems(2) [of "unat (a - d)" n] that by (simp add: inside_def)
  moreover have "\<not> inside d n (d + of_nat n)" using Suc.prems(1) by (simp add: inside_def unat_of_nat)
  ultimately show ?case unfolding step IH using inside_top [of n d a] Suc.prems(1) by auto
qed (simp add: inside_def)

text \<open>Two addresses of regions that do not run past the end of the address space.\<close>

lemma unat_offset: "unat d + n \<le> 2 ^ 64 \<Longrightarrow> i < n \<Longrightarrow> unat (d + of_nat i :: u64) = unat d + i"
  by (simp add: unat_word_ariths unat_of_nat)

section \<open>Properties\<close>

text \<open>C25: Moving a block of memory copies it whatever the overlap of source and destination: afterwards each byte of the
  destination is the byte the source had before, and no other byte has changed. Copying upwards gives the same for
  blocks that do not overlap, or whose destination is below the source.\<close>

theorem memmove_exact:
  assumes "unat dest + unat count \<le> 2 ^ 64" "unat src + unat count \<le> 2 ^ 64"
  shows "memmove m dest src count a = (if inside dest (unat count) a then m (src + (a - dest)) else m a) \<and>
    (dest \<le> src \<or> unat src + unat count \<le> unat dest \<longrightarrow> memcpy m dest src count = memmove m dest src count)"
proof -
  let ?n = "unat count"
  note o = unat_offset [OF assms(1)] unat_offset [OF assms(2)]
  have n: "?n \<le> 2 ^ 64" using unat_bound [of count] by simp
  have ne: "x \<noteq> y" if "unat x \<noteq> unat y" for x y :: u64 using that by auto
  have up: "up_loop m dest src ?n b = (if inside dest ?n b then m (src + (b - dest)) else m b)"
    if "dest \<le> src \<or> unat src + ?n \<le> unat dest" for b
    by (rule up_loop_at [OF n], rule ne) (use that o in \<open>auto simp: word_le_nat_alt\<close>)
  have down: "down_loop m (dest + of_nat ?n) (src + of_nat ?n) ?n b = (if inside dest ?n b then m (src + (b - dest)) else m b)"
    if "src \<le> dest" for b
    by (rule down_loop_at [OF n], rule ne) (use that o in \<open>auto simp: word_le_nat_alt\<close>)
  have same: "m b = (if inside dest ?n b then m (src + (b - dest)) else m b)" if "dest = src \<or> count = 0" for b
    using that by (auto simp: inside_def)
  have mv: "memmove m dest src count b = (if inside dest ?n b then m (src + (b - dest)) else m b)" for b
  proof -
    consider "dest = src \<or> count = 0" | "dest \<noteq> src" "count \<noteq> 0" "dest < src" | "dest \<noteq> src" "count \<noteq> 0" "\<not> dest < src" by blast
    then show ?thesis
    proof cases
      case 1
      then show ?thesis using same [of b] by (simp add: memmove_def)
    next
      case 2
      then show ?thesis using up [of b] less_imp_le [of dest src] by (simp add: memmove_def)
    next
      case 3
      then show ?thesis using down [of b] by (simp add: memmove_def)
    qed
  qed
  moreover have "memcpy m dest src count = memmove m dest src count"
    if "dest \<le> src \<or> unat src + ?n \<le> unat dest"
    using up [OF that] mv by (auto simp: memcpy_def fun_eq_iff)
  ultimately show ?thesis by blast
qed

theorem memmove_exact_witness:
  "memmove (\<lambda>a. ucast a) 12 10 4 13 = 11 \<and> memcpy (\<lambda>a. ucast a) 10 12 4 = memmove (\<lambda>a. ucast a) 10 12 4"
  using memmove_exact [of 12 4 10 "\<lambda>a. ucast a" 13] memmove_exact [of 10 4 12 "\<lambda>a. ucast a" 0] by (simp add: inside_def)

end
