(* ===== verification/Console.thy ===== *)
theory Console
  imports MCS_Prelude "HOL-Library.Sublist"
begin

text \<open>
  The machine as the kernel sees it and the console on it: port I/O (\<open>io.h\<close>, \<open>cpu.h\<close>), the serial line
  (\<open>kernel/core/serial.c\<close>), the log (\<open>log.c\<close>) and the panic path (\<open>panic.c\<close>).

  The processor is seen through its effects: the bytes written to ports, in order, the interrupt flag and the loaded
  descriptor table. What it answers is a parameter: \<open>hw_in hw n p\<close> is what the \<open>n\<close>-th port read of the run yields when
  it reads port \<open>p\<close>. A function returns, halts the processor for good, or spins: the value \<open>None\<close> is a lock that is
  never released while the function waits for it, which on one processor is the case when its holder is the code that
  was interrupted. Interrupts do not arrive inside the functions of this theory; what a trap does to interrupted code is
  seen by running the trap dispatcher in the state that code has reached, which the theories \<open>Interrupts\<close> and
  \<open>Boot\<close> do.
\<close>

unbundle bit_operations_syntax

section \<open>State\<close>

record x86_64_idt_entry =
  offset_low :: u16
  selector :: u16
  ist :: u8
  type_attributes :: u8
  offset_mid :: u16
  offset_high :: u32
  reserved :: u32

record x86_64_idtr =
  idtr_limit :: u16
  idtr_base :: u64

record machine =
  port_writes :: "(u16 \<times> u8) list"
  port_reads :: nat
  int_flag :: bool
  log_lock :: bool
  serial_lock :: bool
  g_ticks :: u64
  trap_count :: u64
  idt :: "x86_64_idt_entry list"
  idtr :: x86_64_idtr
  loaded_idtr :: x86_64_idtr

record hardware =
  hw_in :: "nat \<Rightarrow> u16 \<Rightarrow> u8"
  hw_rflags :: "machine \<Rightarrow> u64"
  hw_cr2 :: u64

datatype 's ending = Returns 's | Halts 's

type_synonym 's program = "'s \<Rightarrow> 's ending option"
type_synonym prog = "machine program"

text \<open>\<open>p; q\<close>, and a step that always returns.\<close>

definition then_do :: "'s program \<Rightarrow> 's program \<Rightarrow> 's program" where
  "then_do p q = (\<lambda>w. case p w of None \<Rightarrow> None | Some (Halts w') \<Rightarrow> Some (Halts w') | Some (Returns w') \<Rightarrow> q w')"

definition step :: "('s \<Rightarrow> 's) \<Rightarrow> 's program" where
  "step f = (\<lambda>w. Some (Returns (f w)))"

fun sequence :: "'s program list \<Rightarrow> 's program" where
  "sequence [] = (\<lambda>w. Some (Returns w))"
| "sequence (p # ps) = then_do p (sequence ps)"

section \<open>Ports (io.h, cpu.h)\<close>

definition outb :: "u16 \<Rightarrow> u8 \<Rightarrow> machine \<Rightarrow> machine" where
  "outb port value w = w\<lparr>port_writes := port_writes w @ [(port, value)]\<rparr>"

definition inb :: "hardware \<Rightarrow> u16 \<Rightarrow> machine \<Rightarrow> u8 \<times> machine" where
  "inb hw port w = (hw_in hw (port_reads w) port, w\<lparr>port_reads := Suc (port_reads w)\<rparr>)"

definition io_wait :: "machine \<Rightarrow> machine" where
  "io_wait w = outb 0x80 0 w"

definition cpu_cli :: "machine \<Rightarrow> machine" where
  "cpu_cli w = w\<lparr>int_flag := False\<rparr>"

definition cpu_sti :: "machine \<Rightarrow> machine" where
  "cpu_sti w = w\<lparr>int_flag := True\<rparr>"

definition cpu_halt_forever :: prog where
  "cpu_halt_forever w = Some (Halts (cpu_cli w))"

section \<open>serial.c\<close>

definition COM1_PORT :: u16 where "COM1_PORT = 0x3F8"

definition serial_tx_ready :: "hardware \<Rightarrow> machine \<Rightarrow> bool \<times> machine" where
  "serial_tx_ready hw w = (case inb hw (COM1_PORT + 5) w of (v, w') \<Rightarrow> (v AND 0x20 \<noteq> 0, w'))"

definition serial_init :: "machine \<Rightarrow> machine" where
  "serial_init w =
     outb (COM1_PORT + 4) 0x0B (outb (COM1_PORT + 2) 0xC7 (outb (COM1_PORT + 3) 0x03 (outb (COM1_PORT + 1) 0x00
       (outb (COM1_PORT + 0) 0x03 (outb (COM1_PORT + 3) 0x80 (outb (COM1_PORT + 1) 0x00 w))))))"

text \<open>The wait of \<open>serial_putc\<close>: whether the line became ready before the timeout.\<close>

fun wait_tx :: "hardware \<Rightarrow> nat \<Rightarrow> machine \<Rightarrow> bool \<times> machine" where
  "wait_tx hw timeout w =
     (case serial_tx_ready hw w of
        (True, w') \<Rightarrow> (True, w')
      | (False, w') \<Rightarrow> (case timeout of 0 \<Rightarrow> (False, w') | Suc t \<Rightarrow> wait_tx hw t w'))"

declare wait_tx.simps [simp del]

definition serial_putc :: "hardware \<Rightarrow> char \<Rightarrow> machine \<Rightarrow> machine" where
  "serial_putc hw c w = (case wait_tx hw 1000000 w of (True, w') \<Rightarrow> outb COM1_PORT (of_char c) w' | (False, w') \<Rightarrow> w')"

fun write_chars :: "hardware \<Rightarrow> string \<Rightarrow> machine \<Rightarrow> machine" where
  "write_chars hw [] w = w"
| "write_chars hw (c # s) w =
     (let w = (if c = CHR 0x0A then serial_putc hw (CHR 0x0D) w else w) in write_chars hw s (serial_putc hw c w))"

partial_function (option) spin_serial :: "machine \<Rightarrow> machine option" where
  "spin_serial w = (if serial_lock w then spin_serial w else Some (w\<lparr>serial_lock := True\<rparr>))"

definition serial_write :: "hardware \<Rightarrow> string option \<Rightarrow> prog" where
  "serial_write hw s w =
     (case s of
        None \<Rightarrow> Some (Returns w)
      | Some s \<Rightarrow> map_option (\<lambda>w. Returns ((write_chars hw s w)\<lparr>serial_lock := False\<rparr>)) (spin_serial w))"

section \<open>log.c\<close>

partial_function (option) lock :: "machine \<Rightarrow> machine option" where
  "lock w = (if log_lock w then lock w else Some (w\<lparr>log_lock := True\<rparr>))"

definition unlock :: "machine \<Rightarrow> machine" where
  "unlock w = w\<lparr>log_lock := False\<rparr>"

definition locked :: "prog \<Rightarrow> prog" where
  "locked p w = (case lock w of None \<Rightarrow> None | Some w \<Rightarrow> then_do p (step unlock) w)"

definition log_init :: "machine \<Rightarrow> machine" where
  "log_init w = serial_init w"

definition log_write :: "hardware \<Rightarrow> string option \<Rightarrow> prog" where
  "log_write hw s = (if s = None then step id else locked (serial_write hw s))"

definition log_writeln :: "hardware \<Rightarrow> string option \<Rightarrow> prog" where
  "log_writeln hw s =
     (if s = None then step id
      else locked (then_do (serial_write hw s) (serial_write hw (Some [CHR 0x0D, CHR 0x0A]))))"

definition log_putc :: "hardware \<Rightarrow> char \<Rightarrow> machine \<Rightarrow> machine" where
  "log_putc hw c w = serial_putc hw c w"

definition hex_digits :: string where
  "hex_digits = ''0123456789abcdef''"

definition hex_nibble :: "u64 \<Rightarrow> nat \<Rightarrow> char" where
  "hex_nibble value shift = hex_digits ! unat (drop_bit shift value AND 0xF)"

definition log_hex64 :: "hardware \<Rightarrow> u64 \<Rightarrow> prog" where
  "log_hex64 hw value =
     then_do (log_write hw (Some ''0x''))
       (step (fold (\<lambda>i. log_putc hw (hex_nibble value (60 - 4 * i))) [0..<16]))"

definition log_key_value_hex64 :: "hardware \<Rightarrow> string option \<Rightarrow> u64 \<Rightarrow> prog" where
  "log_key_value_hex64 hw key value =
     sequence [log_write hw key, log_write hw (Some ''=''), log_hex64 hw value, step (log_putc hw (CHR 0x0A))]"

section \<open>panic.c\<close>

definition MCSOS_NAME :: string where "MCSOS_NAME = ''MCSOS''"
definition MCSOS_VERSION :: string where "MCSOS_VERSION = ''260502''"
definition MCSOS_MILESTONE :: string where "MCSOS_MILESTONE = ''M4''"

definition digit_char :: "u32 \<Rightarrow> char" where
  "digit_char d = char_of (48 + unat d)"

text \<open>The loop that fills \<open>buf\<close>, last digit first; eleven places are enough for ten digits.\<close>

fun dec_digits :: "nat \<Rightarrow> u32 \<Rightarrow> string" where
  "dec_digits 0 value = []"
| "dec_digits (Suc room) value =
     (if value = 0 then [] else digit_char (value mod 10) # dec_digits room (value div 10))"

definition log_dec_u32 :: "hardware \<Rightarrow> u32 \<Rightarrow> machine \<Rightarrow> machine" where
  "log_dec_u32 hw value w =
     (if value = 0 then log_putc hw (CHR ''0'') w
      else fold (log_putc hw) (rev (dec_digits 11 value)) w)"

text \<open>The report, between the \<open>cli\<close> and the halt.\<close>

definition panic_lines :: "hardware \<Rightarrow> string option \<Rightarrow> u32 \<Rightarrow> string option \<Rightarrow> u64 \<Rightarrow> u64 \<Rightarrow> prog list" where
  "panic_lines hw file line reason code rflags =
     [log_writeln hw (Some []),
      log_writeln hw (Some ''================ MCSOS KERNEL PANIC ================''),
      log_write hw (Some ''system=''), log_write hw (Some MCSOS_NAME),
      log_write hw (Some '' version=''), log_write hw (Some MCSOS_VERSION),
      log_write hw (Some '' milestone=''), log_writeln hw (Some MCSOS_MILESTONE),
      log_write hw (Some ''reason=''), log_writeln hw (Some (case reason of None \<Rightarrow> ''<null>'' | Some r \<Rightarrow> r)),
      log_write hw (Some ''location=''), log_write hw (Some (case file of None \<Rightarrow> ''<unknown>'' | Some f \<Rightarrow> f)),
      log_write hw (Some '':''), step (log_dec_u32 hw line), step (log_putc hw (CHR 0x0A)),
      log_key_value_hex64 hw (Some ''panic_code'') code,
      log_key_value_hex64 hw (Some ''rflags_before_cli'') rflags,
      log_writeln hw (Some ''state=halted''),
      log_writeln hw (Some ''===================================================='')]"

definition kernel_panic_at :: "hardware \<Rightarrow> string option \<Rightarrow> u32 \<Rightarrow> string option \<Rightarrow> u64 \<Rightarrow> prog" where
  "kernel_panic_at hw file line reason code w =
     (let rflags = hw_rflags hw w in
      sequence (step cpu_cli # panic_lines hw file line reason code rflags @ [cpu_halt_forever]) w)"

text \<open>\<open>KERNEL_ASSERT\<close>, with the place and the text of the condition.\<close>

definition kernel_assert :: "hardware \<Rightarrow> string \<Rightarrow> u32 \<Rightarrow> string \<Rightarrow> bool \<Rightarrow> prog" where
  "kernel_assert hw file line expr holds =
     (if holds then step id else kernel_panic_at hw (Some file) line (Some (''assertion failed: '' @ expr)) 0xA55E4710)"

section \<open>What is printed\<close>

definition idle :: "machine \<Rightarrow> bool" where
  "idle w \<longleftrightarrow> \<not> log_lock w \<and> \<not> serial_lock w"

definition line_ready :: "hardware \<Rightarrow> bool" where
  "line_ready hw \<longleftrightarrow> (\<forall>n. hw_in hw n (COM1_PORT + 5) AND 0x20 \<noteq> 0)"

definition prints :: "hardware \<Rightarrow> string \<Rightarrow> machine \<Rightarrow> machine \<Rightarrow> bool" where
  "prints hw text w w' \<longleftrightarrow>
     (\<exists>out k. w' = w\<lparr>port_writes := port_writes w @ map (\<lambda>c. (COM1_PORT, of_char c)) out, port_reads := k\<rparr> \<and>
        subseq out text \<and> (line_ready hw \<longrightarrow> out = text))"

definition outputs :: "hardware \<Rightarrow> prog \<Rightarrow> string \<Rightarrow> bool" where
  "outputs hw p text \<longleftrightarrow> (\<forall>w. idle w \<longrightarrow> (\<exists>w'. p w = Some (Returns w') \<and> prints hw text w w'))"

definition crlf :: "string \<Rightarrow> string" where
  "crlf s = concat (map (\<lambda>c. if c = CHR 0x0A then [CHR 0x0D, CHR 0x0A] else [c]) s)"

lemma prints_refl [simp]: "prints hw [] w w"
  unfolding prints_def by (intro exI [of _ "[]"] exI [of _ "port_reads w"]) simp

lemma prints_trans:
  assumes "prints hw a w w'" "prints hw b w' w''"
  shows "prints hw (a @ b) w w''"
proof -
  obtain o1 k1 where 1: "w' = w\<lparr>port_writes := port_writes w @ map (\<lambda>c. (COM1_PORT, of_char c)) o1, port_reads := k1\<rparr>"
      "subseq o1 a" "line_ready hw \<longrightarrow> o1 = a" using assms(1) unfolding prints_def by blast
  obtain o2 k2 where 2: "w'' = w'\<lparr>port_writes := port_writes w' @ map (\<lambda>c. (COM1_PORT, of_char c)) o2, port_reads := k2\<rparr>"
      "subseq o2 b" "line_ready hw \<longrightarrow> o2 = b" using assms(2) unfolding prints_def by blast
  show ?thesis unfolding prints_def
    by (rule exI [of _ "o1 @ o2"], rule exI [of _ k2]) (use 1 2 in \<open>simp add: list_emb_append_mono\<close>)
qed

lemma prints_keeps:
  assumes "prints hw text w w'"
  shows "int_flag w' = int_flag w" "log_lock w' = log_lock w" "serial_lock w' = serial_lock w"
    "g_ticks w' = g_ticks w" "trap_count w' = trap_count w" "idt w' = idt w" "idtr w' = idtr w"
    "loaded_idtr w' = loaded_idtr w" "idle w' = idle w"
    "filter (\<lambda>(p, v). p \<noteq> COM1_PORT) (port_writes w') = filter (\<lambda>(p, v). p \<noteq> COM1_PORT) (port_writes w)"
  using assms by (auto simp: prints_def idle_def filter_empty_conv)

lemma prints_update:
  "prints hw text (w\<lparr>log_lock := b\<rparr>) w' \<Longrightarrow> prints hw text (w\<lparr>log_lock := c\<rparr>) (w'\<lparr>log_lock := c\<rparr>)"
  "prints hw text (w\<lparr>serial_lock := b\<rparr>) w' \<Longrightarrow> prints hw text (w\<lparr>serial_lock := c\<rparr>) (w'\<lparr>serial_lock := c\<rparr>)"
  unfolding prints_def by (cases w, fastforce)+

lemma wait_tx_reads: "\<exists>k. snd (wait_tx hw t w) = w\<lparr>port_reads := k\<rparr>"
proof (induction t arbitrary: w)
  case 0
  show ?case by (simp add: wait_tx.simps serial_tx_ready_def inb_def split: bool.splits) blast
next
  case (Suc t)
  obtain k where "snd (wait_tx hw t (w\<lparr>port_reads := Suc (port_reads w)\<rparr>)) = w\<lparr>port_reads := k\<rparr>"
    using Suc [of "w\<lparr>port_reads := Suc (port_reads w)\<rparr>"] by auto
  then show ?case by (subst wait_tx.simps) (auto simp: serial_tx_ready_def inb_def split: bool.splits)
qed

lemma wait_tx_ready: "line_ready hw \<Longrightarrow> fst (wait_tx hw t w)"
  by (subst wait_tx.simps) (simp add: serial_tx_ready_def inb_def line_ready_def)

lemma serial_putc_prints: "prints hw [c] w (serial_putc hw c w)"
proof -
  obtain ok w' where e: "wait_tx hw 1000000 w = (ok, w')" by fastforce
  obtain k where k: "w' = w\<lparr>port_reads := k\<rparr>" using wait_tx_reads [of hw 1000000 w] unfolding e by auto
  show ?thesis
  proof (cases ok)
    case True
    then show ?thesis unfolding prints_def
      by (intro exI [of _ "[c]"] exI [of _ k]) (simp add: serial_putc_def e k outb_def)
  next
    case False
    then have "\<not> line_ready hw" using wait_tx_ready [of hw 1000000 w] by (auto simp: e)
    then show ?thesis using False unfolding prints_def
      by (intro exI [of _ "[]"] exI [of _ k]) (simp add: serial_putc_def e k)
  qed
qed

lemma fold_putc_prints: "prints hw (map f xs) w (fold (\<lambda>x. log_putc hw (f x)) xs w)"
proof (induction xs arbitrary: w)
  case (Cons x xs)
  show ?case using prints_trans [OF serial_putc_prints Cons.IH, of "f x" w] by (simp add: log_putc_def)
qed simp

lemma write_chars_prints: "prints hw (crlf s) w (write_chars hw s w)"
proof (induction s arbitrary: w)
  case (Cons c s)
  let ?v = "if c = CHR 0x0A then serial_putc hw (CHR 0x0D) w else w"
  have "prints hw (if c = CHR 0x0A then [CHR 0x0D] else []) w ?v" by (simp add: serial_putc_prints)
  from prints_trans [OF prints_trans [OF this serial_putc_prints] Cons.IH, of c]
  show ?case by (cases "c = CHR 0x0A") (simp_all add: crlf_def)
qed (simp add: crlf_def)

lemma spin_serial_free: "\<not> serial_lock w \<Longrightarrow> spin_serial w = Some (w\<lparr>serial_lock := True\<rparr>)"
  by (simp add: spin_serial.simps)

lemma lock_free: "\<not> log_lock w \<Longrightarrow> lock w = Some (w\<lparr>log_lock := True\<rparr>)"
  by (simp add: lock.simps)

lemma spin_serial_held:
  assumes "serial_lock w"
  shows "spin_serial w = None"
proof (rule ccontr)
  assume "spin_serial w \<noteq> None"
  then obtain r where r: "spin_serial w = Some r" by blast
  have "\<not> serial_lock w"
    by (rule spin_serial.raw_induct [where P = "\<lambda>w r. \<not> serial_lock w", OF _ r]) (auto split: if_splits)
  with assms show False by simp
qed

lemma lock_held:
  assumes "log_lock w"
  shows "lock w = None"
proof (rule ccontr)
  assume "lock w \<noteq> None"
  then obtain r where r: "lock w = Some r" by blast
  have "\<not> log_lock w"
    by (rule lock.raw_induct [where P = "\<lambda>w r. \<not> log_lock w", OF _ r]) (auto split: if_splits)
  with assms show False by simp
qed

lemma serial_write_prints:
  assumes "\<not> serial_lock w"
  shows "\<exists>w'. serial_write hw (Some s) w = Some (Returns w') \<and> prints hw (crlf s) w w'"
proof -
  have w: "w\<lparr>serial_lock := False\<rparr> = w" using assms by simp
  show ?thesis
    using prints_update(2) [OF write_chars_prints [of hw s "w\<lparr>serial_lock := True\<rparr>"], of False]
    by (simp add: serial_write_def spin_serial_free assms w)
qed

lemma locked_outputs:
  assumes "\<And>w. \<not> serial_lock w \<Longrightarrow> \<exists>w'. p w = Some (Returns w') \<and> prints hw text w w'"
  shows "outputs hw (locked p) text"
  unfolding outputs_def
proof (intro allI impI)
  fix w assume i: "idle w"
  then have w: "w\<lparr>log_lock := False\<rparr> = w" by (simp add: idle_def)
  from i have "\<not> serial_lock (w\<lparr>log_lock := True\<rparr>)" by (simp add: idle_def)
  from assms [OF this] obtain w' where "p (w\<lparr>log_lock := True\<rparr>) = Some (Returns w')" "prints hw text (w\<lparr>log_lock := True\<rparr>) w'"
    by blast
  then show "\<exists>w'. locked p w = Some (Returns w') \<and> prints hw text w w'"
    using i prints_update(1) [where w = w and b = True and c = False]
    by (simp add: locked_def lock_free idle_def then_do_def step_def unlock_def w)
qed

section \<open>Composition\<close>

lemma outputsD: "outputs hw p t \<Longrightarrow> idle w \<Longrightarrow> \<exists>w'. p w = Some (Returns w') \<and> prints hw t w w'"
  by (simp add: outputs_def)

lemma outputs_then:
  assumes "outputs hw p a" "outputs hw q b"
  shows "outputs hw (then_do p q) (a @ b)"
  unfolding outputs_def
proof (intro allI impI)
  fix w assume i: "idle w"
  obtain w' where 1: "p w = Some (Returns w')" "prints hw a w w'" using assms(1) i unfolding outputs_def by blast
  then obtain w'' where 2: "q w' = Some (Returns w'')" "prints hw b w' w''"
    using assms(2) i prints_keeps(9) [OF 1(2)] unfolding outputs_def by blast
  show "\<exists>w'. then_do p q w = Some (Returns w') \<and> prints hw (a @ b) w w'"
    using 1 2 prints_trans by (auto simp: then_do_def)
qed

lemma outputs_nil: "outputs hw (sequence []) []"
  by (simp add: outputs_def)

lemma outputs_cons: "outputs hw p a \<Longrightarrow> outputs hw (sequence ps) b \<Longrightarrow> outputs hw (sequence (p # ps)) (a @ b)"
  by (simp add: outputs_then)

lemma outputs_step: "(\<And>w. prints hw text w (f w)) \<Longrightarrow> outputs hw (step f) text"
  by (simp add: outputs_def step_def)

lemma outputs_skip: "outputs hw (step id) []"
  by (rule outputs_step) simp

lemma log_write_outputs: "outputs hw (log_write hw (Some s)) (crlf s)"
  unfolding log_write_def using serial_write_prints by (simp add: locked_outputs)

lemma log_writeln_outputs: "outputs hw (log_writeln hw (Some s)) (crlf s @ [CHR 0x0D, CHR 0x0D, CHR 0x0A])"
proof -
  have c: "crlf [CHR 0x0D, CHR 0x0A] = [CHR 0x0D, CHR 0x0D, CHR 0x0A]" by (simp add: crlf_def)
  have "\<exists>w'. then_do (serial_write hw (Some s)) (serial_write hw (Some [CHR 0x0D, CHR 0x0A])) w = Some (Returns w') \<and>
      prints hw (crlf s @ [CHR 0x0D, CHR 0x0D, CHR 0x0A]) w w'" if f: "\<not> serial_lock w" for w
  proof -
    obtain w' where 1: "serial_write hw (Some s) w = Some (Returns w')" "prints hw (crlf s) w w'"
      using serial_write_prints [OF f] by blast
    obtain w'' where "serial_write hw (Some [CHR 0x0D, CHR 0x0A]) w' = Some (Returns w'')"
        "prints hw (crlf [CHR 0x0D, CHR 0x0A]) w' w''"
      using serial_write_prints [of w' hw] f prints_keeps(3) [OF 1(2)] by blast
    with 1 show ?thesis unfolding c using prints_trans by (auto simp: then_do_def)
  qed
  then show ?thesis unfolding log_writeln_def by (simp add: locked_outputs)
qed

section \<open>Numbers\<close>

definition hex_text :: "u64 \<Rightarrow> string" where
  "hex_text v = map (\<lambda>i. hex_nibble v (60 - 4 * i)) [0..<16]"

definition hex_digit_value :: "char \<Rightarrow> nat" where
  "hex_digit_value c = length (takeWhile (\<lambda>d. d \<noteq> c) hex_digits)"

definition hex_value :: "string \<Rightarrow> nat" where
  "hex_value s = fold (\<lambda>c n. 16 * n + hex_digit_value c) s 0"

definition dec_text :: "u32 \<Rightarrow> string" where
  "dec_text v = (if v = 0 then ''0'' else rev (dec_digits 11 v))"

definition dec_value :: "string \<Rightarrow> nat" where
  "dec_value s = fold (\<lambda>c n. 10 * n + (of_char c - 48)) s 0"

lemma hex_digit_value_nth: "k < 16 \<Longrightarrow> hex_digit_value (hex_digits ! k) = k"
proof -
  assume "k < 16"
  then have "k \<in> set [0..<16]" by simp
  moreover have "\<forall>k\<in>set [0..<16]. hex_digit_value (hex_digits ! k) = k"
    by (simp add: upt_rec hex_digit_value_def hex_digits_def)
  ultimately show ?thesis by blast
qed

lemma hex_nibble_value: "hex_digit_value (hex_nibble v shift) = unat v div 2 ^ shift mod 16"
proof -
  have "unat (drop_bit shift v AND 0xF) = unat v div 2 ^ shift mod 16"
    using unat_and_mask [of "drop_bit shift v" 4] unat_drop_bit_eq [of shift v]
    by (simp add: mask_eq_exp_minus_1 drop_bit_eq_div [of shift "unat v"])
  moreover have "unat v div 2 ^ shift mod 16 < 16" by simp
  ultimately show ?thesis unfolding hex_nibble_def by (simp add: hex_digit_value_nth)
qed

lemma hex_prefix_value:
  assumes "k \<le> 16"
  shows "hex_value (map (\<lambda>i. hex_nibble v (60 - 4 * i)) [0..<k]) = unat v div 2 ^ (64 - 4 * k)"
  using assms
proof (induction k)
  case 0
  have "unat v < 2 ^ 64" using unat_bound [of v] by simp
  then show ?case by (simp add: hex_value_def)
next
  case (Suc k)
  have e: "64 - 4 * k = (60 - 4 * k) + 4" "64 - 4 * Suc k = 60 - 4 * k" using Suc.prems by simp_all
  have "unat v div 2 ^ (64 - 4 * k) = unat v div 2 ^ (60 - 4 * k) div 16"
    unfolding e(1) power_add by (simp add: div_mult2_eq)
  then show ?case using Suc by (simp add: hex_value_def hex_nibble_value e(2))
qed

lemma hex_text_value: "length (hex_text v) = 16" "hex_value (hex_text v) = unat v"
  using hex_prefix_value [of 16 v] by (simp_all add: hex_text_def)

lemma digit_char_value: "d < 10 \<Longrightarrow> of_char (digit_char d) - 48 = unat d"
  by (simp add: digit_char_def word_less_nat_alt)

lemma dec_digits_value:
  "unat v < 10 ^ room \<Longrightarrow> foldr (\<lambda>c n. 10 * n + (of_char c - 48)) (dec_digits room v) 0 = unat v"
proof (induction room arbitrary: v)
  case (Suc room)
  have "unat (v div 10) < 10 ^ room" using Suc.prems by (simp add: unat_div less_mult_imp_div_less mult.commute)
  from Suc.IH [OF this] have i: "foldr (\<lambda>c n. 10 * n + (of_char c - 48)) (dec_digits room (v div 10)) 0 = unat v div 10"
    by (simp add: unat_div)
  have "v mod 10 < 10" by (rule word_mod_less_divisor) simp
  from digit_char_value [OF this] have "of_char (digit_char (v mod 10)) - 48 = unat v mod 10" by (simp add: unat_mod)
  with i show ?case by (simp only: dec_digits.simps foldr.simps o_apply split: if_split) simp
qed simp

lemma dec_text_value: "dec_value (dec_text v) = unat v"
proof -
  have "unat v < 10 ^ 11" using unat_bound [of v] by simp
  then show ?thesis using dec_digits_value [of v 11]
    by (simp add: dec_text_def dec_value_def foldr_conv_fold [symmetric] fold_rev)
qed

section \<open>Reports\<close>

definition line_text :: "string \<Rightarrow> string" where
  "line_text s = crlf s @ [CHR 0x0D, CHR 0x0D, CHR 0x0A]"

definition key_text :: "string \<Rightarrow> u64 \<Rightarrow> string" where
  "key_text key v = crlf key @ ''=0x'' @ hex_text v @ [CHR 0x0A]"

lemma log_hex64_outputs: "outputs hw (log_hex64 hw v) (''0x'' @ hex_text v)"
proof -
  have "outputs hw (step (fold (\<lambda>i. log_putc hw (hex_nibble v (60 - 4 * i))) [0..<16])) (hex_text v)"
    unfolding hex_text_def by (rule outputs_step) (rule fold_putc_prints)
  from outputs_then [OF log_write_outputs [of hw "''0x''"] this] show ?thesis
    by (simp add: log_hex64_def crlf_def)
qed

lemma log_putc_outputs: "outputs hw (step (log_putc hw c)) [c]"
  by (rule outputs_step) (simp add: log_putc_def serial_putc_prints)

lemma log_key_value_outputs: "outputs hw (log_key_value_hex64 hw (Some key) v) (key_text key v)"
  using outputs_cons [OF log_write_outputs outputs_cons [OF log_write_outputs outputs_cons [OF log_hex64_outputs
    outputs_cons [OF log_putc_outputs outputs_nil]]], of hw key "''=''" v "CHR 0x0A"]
  by (simp add: log_key_value_hex64_def key_text_def crlf_def)

lemma log_dec_outputs: "outputs hw (step (log_dec_u32 hw v)) (dec_text v)"
proof (rule outputs_step)
  fix w
  show "prints hw (dec_text v) w (log_dec_u32 hw v w)"
    using fold_putc_prints [of hw "\<lambda>c. c" "rev (dec_digits 11 v)" w]
    by (simp add: log_dec_u32_def dec_text_def log_putc_def serial_putc_prints)
qed

lemma writeln_outputs: "outputs hw (log_writeln hw (Some s)) (line_text s)"
  by (simp add: line_text_def log_writeln_outputs)

lemmas outputs_rules = outputs_cons outputs_nil outputs_then outputs_skip log_write_outputs writeln_outputs
  log_hex64_outputs log_key_value_outputs log_putc_outputs log_dec_outputs

definition panic_report :: "string option \<Rightarrow> u32 \<Rightarrow> string option \<Rightarrow> u64 \<Rightarrow> u64 \<Rightarrow> string" where
  "panic_report file line reason code rflags =
     line_text [] @ line_text ''================ MCSOS KERNEL PANIC ================'' @
     crlf ''system='' @ crlf MCSOS_NAME @ crlf '' version='' @ crlf MCSOS_VERSION @
     crlf '' milestone='' @ line_text MCSOS_MILESTONE @
     crlf ''reason='' @ line_text (case reason of None \<Rightarrow> ''<null>'' | Some r \<Rightarrow> r) @
     crlf ''location='' @ crlf (case file of None \<Rightarrow> ''<unknown>'' | Some f \<Rightarrow> f) @ crlf '':'' @ dec_text line @ [CHR 0x0A] @
     key_text ''panic_code'' code @ key_text ''rflags_before_cli'' rflags @
     line_text ''state=halted'' @ line_text ''===================================================='' @ []"

lemma then_do_assoc: "then_do (then_do p q) r = then_do p (then_do q r)"
  by (auto simp: then_do_def fun_eq_iff split: option.splits ending.splits)

lemma then_do_skip: "then_do p (\<lambda>w. Some (Returns w)) = p" "then_do (\<lambda>w. Some (Returns w)) p = p"
  by (auto simp: then_do_def fun_eq_iff split: option.splits ending.splits)

lemma then_do_step [simp]: "then_do (step f) q w = q (f w)"
  by (simp add: then_do_def step_def)

lemma then_do_returns: "p w = Some (Returns w') \<Longrightarrow> then_do p q w = q w'"
  by (simp add: then_do_def)

lemma then_do_stuck: "p w = None \<Longrightarrow> then_do p q w = None"
  by (simp add: then_do_def)

lemma then_do_halted: "p w = Some (Halts w') \<Longrightarrow> then_do p q w = Some (Halts w')"
  by (simp add: then_do_def)

lemma then_do_halts:
  "\<exists>w'. p w = Some (Halts w') \<and> P w' \<Longrightarrow> \<exists>w'. then_do p q w = Some (Halts w') \<and> P w'"
  by (auto simp: then_do_def)

lemma sequence_snoc: "sequence (ps @ [q]) = then_do (sequence ps) q"
  by (induction ps) (simp_all add: then_do_assoc then_do_skip)

lemma prints_cli: "prints hw t w w' \<Longrightarrow> prints hw t (cpu_cli w) (cpu_cli w')"
  unfolding prints_def cpu_cli_def by (cases w) fastforce

lemma sequence_halts:
  assumes "outputs hw (sequence ps) t" "idle w"
  shows "\<exists>w'. sequence (ps @ [cpu_halt_forever]) w = Some (Halts (cpu_cli w')) \<and> prints hw t w w'"
proof -
  obtain w' where "sequence ps w = Some (Returns w')" "prints hw t w w'" using assms unfolding outputs_def by blast
  then show ?thesis unfolding sequence_snoc by (auto simp: then_do_def cpu_halt_forever_def)
qed

lemma panic_halts:
  assumes "idle w"
  shows "\<exists>w'. kernel_panic_at hw file line reason code w = Some (Halts w') \<and>
    prints hw (panic_report file line reason code (hw_rflags hw w)) (cpu_cli w) w'"
proof -
  let ?r = "hw_rflags hw w"
  let ?ps = "panic_lines hw file line reason code ?r"
  have o: "outputs hw (sequence ?ps) (panic_report file line reason code ?r)"
    unfolding panic_report_def panic_lines_def by (intro outputs_rules)
  have "idle (cpu_cli w)" using assms by (simp add: idle_def cpu_cli_def)
  from sequence_halts [OF o this] obtain w' where
    w': "sequence (?ps @ [cpu_halt_forever]) (cpu_cli w) = Some (Halts (cpu_cli w'))"
      "prints hw (panic_report file line reason code ?r) (cpu_cli w) w'" by blast
  have "int_flag w' = False" using prints_keeps(1) [OF w'(2)] by (simp add: cpu_cli_def)
  then have "cpu_cli w' = w'" by (simp add: cpu_cli_def)
  then show ?thesis using w' by (simp add: kernel_panic_at_def Let_def)
qed

lemma panic_outcome:
  "idle w \<Longrightarrow> \<exists>w'. kernel_panic_at hw file line reason code w = Some (Halts w') \<and> \<not> int_flag w'"
  using panic_halts prints_keeps(1) by (fastforce simp: cpu_cli_def)

section \<open>Printing lines\<close>

text \<open>The contract of a log that boot code prints lines with: when it is free, a line is printed and the log is free again.\<close>

locale line_printer =
  fixes free :: "'s \<Rightarrow> bool" and shown :: "string \<Rightarrow> 's \<Rightarrow> 's \<Rightarrow> bool"
    and put_line :: "string \<Rightarrow> 's program" and as_text :: "string \<Rightarrow> string"
  assumes put_line_shown: "free w \<Longrightarrow> \<exists>w'. put_line s w = Some (Returns w') \<and> shown (as_text s) w w' \<and> free w'"
    and shown_nothing: "shown [] w w"
    and shown_append: "shown a w w' \<Longrightarrow> shown b w' w'' \<Longrightarrow> shown (a @ b) w w''"
begin

lemma put_lines:
  "free w \<Longrightarrow> \<exists>w'. sequence (map put_line ls) w = Some (Returns w') \<and> shown (concat (map as_text ls)) w w' \<and> free w'"
proof (induction ls arbitrary: w)
  case Nil
  then show ?case by (simp add: shown_nothing)
next
  case (Cons l ls)
  obtain w1 where w1: "put_line l w = Some (Returns w1)" "shown (as_text l) w w1" "free w1"
    using put_line_shown [OF Cons.prems] by blast
  obtain w2 where "sequence (map put_line ls) w1 = Some (Returns w2)" "shown (concat (map as_text ls)) w1 w2" "free w2"
    using Cons.IH [OF w1(3)] by blast
  with w1 show ?case using shown_append by (auto simp: then_do_returns)
qed

end

interpretation log: line_printer idle "prints hw" "\<lambda>s. log_writeln hw (Some s)" line_text for hw
proof unfold_locales
  fix w s assume "idle w"
  then obtain w' where "log_writeln hw (Some s) w = Some (Returns w')" "prints hw (line_text s) w w'"
    using outputsD [OF writeln_outputs] by blast
  then show "\<exists>w'. log_writeln hw (Some s) w = Some (Returns w') \<and> prints hw (line_text s) w w' \<and> idle w'"
    using \<open>idle w\<close> prints_keeps(9) by blast
qed (simp_all add: prints_trans)

section \<open>Held locks\<close>

lemma serial_write_stuck: "serial_lock w \<Longrightarrow> serial_write hw (Some s) w = None"
  by (simp add: serial_write_def spin_serial_held)

lemma locked_stuck:
  assumes "\<not> idle w" "\<And>w. serial_lock w \<Longrightarrow> p w = None"
  shows "locked p w = None"
proof (cases "log_lock w")
  case True
  then show ?thesis by (simp add: locked_def lock_held)
next
  case False
  then have "serial_lock (w\<lparr>log_lock := True\<rparr>)" using assms(1) by (simp add: idle_def)
  from assms(2) [OF this] False show ?thesis by (simp add: locked_def lock_free then_do_def)
qed

lemma log_write_stuck: "\<not> idle w \<Longrightarrow> log_write hw (Some s) w = None"
  unfolding log_write_def by (simp add: locked_stuck serial_write_stuck)

lemma log_writeln_stuck: "\<not> idle w \<Longrightarrow> log_writeln hw (Some s) w = None"
  unfolding log_writeln_def by (simp add: locked_stuck serial_write_stuck then_do_def)

lemma panic_stuck: "\<not> idle w \<Longrightarrow> kernel_panic_at hw file line reason code w = None"
  using log_writeln_stuck [of "cpu_cli w" hw "[]"]
  by (simp add: kernel_panic_at_def panic_lines_def Let_def then_do_def [of "log_writeln hw (Some [])"] idle_def cpu_cli_def)

lemma kernel_assert_holds [simp]: "kernel_assert hw file line expr True = step id"
  by (simp add: kernel_assert_def)

lemma kernel_assert_fails:
  "idle w \<Longrightarrow> \<exists>w'. kernel_assert hw file line expr False w = Some (Halts w') \<and> \<not> int_flag w'"
  by (simp add: kernel_assert_def panic_outcome)

text \<open>The kernel image at its entry: static storage is zero, interrupts are off; and a line that is always ready.\<close>

definition machine_at_entry :: machine where
  "machine_at_entry =
     \<lparr>port_writes = [], port_reads = 0, int_flag = False, log_lock = False, serial_lock = False, g_ticks = 0, trap_count = 0,
      idt = replicate 256 \<lparr>offset_low = 0, selector = 0, ist = 0, type_attributes = 0, offset_mid = 0, offset_high = 0, reserved = 0\<rparr>,
      idtr = \<lparr>idtr_limit = 0, idtr_base = 0\<rparr>, loaded_idtr = \<lparr>idtr_limit = 0, idtr_base = 0\<rparr>\<rparr>"

definition ready_line :: hardware where
  "ready_line = \<lparr>hw_in = \<lambda>n p. 0x20, hw_rflags = \<lambda>w. 2, hw_cr2 = 0\<rparr>"

lemma machine_at_entry_ok: "idle machine_at_entry" "length (idt machine_at_entry) = 256" "\<not> int_flag machine_at_entry"
  "port_writes machine_at_entry = []" "trap_count machine_at_entry = 0" "g_ticks machine_at_entry = 0"
  by (simp_all add: machine_at_entry_def idle_def)

lemma ready_line_ready: "line_ready ready_line"
  by (simp add: line_ready_def ready_line_def)

section \<open>Properties\<close>

text \<open>C17: A panic with the console free always ends with the processor halted and interrupts off. What reaches the
  serial line is the report, in order, with characters missing only where the line was not ready in time: the reason,
  the place with its line number in decimal, the code and the flags in hexadecimal. With a line that is always ready it is
  the whole report. The numbers read back as the values given.\<close>

theorem panic_reports_and_halts:
  assumes "idle w"
  shows "\<exists>w'. kernel_panic_at hw file line reason code w = Some (Halts w') \<and> \<not> int_flag w' \<and>
    prints hw (panic_report file line reason code (hw_rflags hw w)) (cpu_cli w) w' \<and>
    dec_value (dec_text line) = unat line \<and> hex_value (hex_text code) = unat code \<and> length (hex_text code) = 16"
proof -
  obtain w' where w': "kernel_panic_at hw file line reason code w = Some (Halts w')"
      "prints hw (panic_report file line reason code (hw_rflags hw w)) (cpu_cli w) w'"
    using panic_halts [OF assms] by blast
  have "\<not> int_flag w'" using prints_keeps(1) [OF w'(2)] by (simp add: cpu_cli_def)
  with w' show ?thesis using hex_text_value dec_text_value by blast
qed

theorem panic_reports_and_halts_witness:
  "\<exists>w'. kernel_panic_at ready_line None 1024 None 7 machine_at_entry = Some (Halts w') \<and>
     port_writes w' = map (\<lambda>c. (COM1_PORT, of_char c)) (panic_report None 1024 None 7 2)"
  using panic_reports_and_halts [OF machine_at_entry_ok(1), of ready_line None 1024 None 7] ready_line_ready
  by (auto simp: prints_def cpu_cli_def machine_at_entry_ok) (simp add: ready_line_def)

end
