(* ===== verification/Interrupts.thy ===== *)
theory Interrupts
  imports Console
begin

text \<open>
  Interrupts: the interrupt controllers (\<open>kernel/core/pic.c\<close>), the timer (\<open>pit.c\<close>), the interrupt descriptor table
  (\<open>kernel/arch/x86_64/idt.c\<close>, \<open>syscall_arch.c\<close>) and the trap dispatcher (\<open>kernel/core/trap.c\<close>). The assembly stubs
  that build the trap frame are represented by their addresses.
\<close>

unbundle bit_operations_syntax

section \<open>pic.c\<close>

definition PIC1_COMMAND :: u16 where [mcs_consts]: "PIC1_COMMAND = 0x20"
definition PIC1_DATA :: u16 where [mcs_consts]: "PIC1_DATA = 0x21"
definition PIC2_COMMAND :: u16 where [mcs_consts]: "PIC2_COMMAND = 0xA0"
definition PIC2_DATA :: u16 where [mcs_consts]: "PIC2_DATA = 0xA1"
definition PIC_EOI :: u8 where [mcs_consts]: "PIC_EOI = 0x20"
definition PIC1_OFFSET :: "32 word" where [mcs_consts]: "PIC1_OFFSET = 0x20"
definition PIC2_OFFSET :: "32 word" where [mcs_consts]: "PIC2_OFFSET = 0x28"

definition pic_remap :: "hardware \<Rightarrow> 32 word \<Rightarrow> 32 word \<Rightarrow> machine \<Rightarrow> machine" where
  "pic_remap hw offset1 offset2 w =
     (case inb hw PIC1_DATA w of (master_mask, w) \<Rightarrow>
      case inb hw PIC2_DATA w of (slave_mask, w) \<Rightarrow>
        let w = io_wait (outb PIC1_COMMAND 0x11 w); w = io_wait (outb PIC2_COMMAND 0x11 w);
            w = io_wait (outb PIC1_DATA (ucast offset1) w); w = io_wait (outb PIC2_DATA (ucast offset2) w);
            w = io_wait (outb PIC1_DATA 4 w); w = io_wait (outb PIC2_DATA 2 w);
            w = io_wait (outb PIC1_DATA 0x01 w); w = io_wait (outb PIC2_DATA 0x01 w)
        in outb PIC2_DATA slave_mask (outb PIC1_DATA master_mask w))"

definition pic_mask_all :: "machine \<Rightarrow> machine" where
  "pic_mask_all w = outb PIC2_DATA 0xFF (outb PIC1_DATA 0xFF w)"

text \<open>\<open>1 << irq\<close> is an \<open>int\<close>; for \<open>irq\<close> of 32 and more the shift is undefined in C.\<close>

definition pic_unmask_irq :: "hardware \<Rightarrow> u8 \<Rightarrow> machine \<Rightarrow> machine" where
  "pic_unmask_irq hw irq w =
     (let port = (if irq < 8 then PIC1_DATA else PIC2_DATA); irq = (if irq < 8 then irq else irq - 8) in
      case inb hw port w of (v, w) \<Rightarrow> outb port (ucast ((ucast v :: u32) AND NOT (push_bit (unat irq) 1))) w)"

definition pic_send_eoi :: "u8 \<Rightarrow> machine \<Rightarrow> machine" where
  "pic_send_eoi irq w = outb PIC1_COMMAND PIC_EOI (if 8 \<le> irq then outb PIC2_COMMAND PIC_EOI w else w)"

section \<open>pit.c\<close>

definition PIT_COMMAND :: u16 where [mcs_consts]: "PIT_COMMAND = 0x43"
definition PIT_CHANNEL0 :: u16 where [mcs_consts]: "PIT_CHANNEL0 = 0x40"
definition PIT_BASE_FREQUENCY :: u32 where [mcs_consts]: "PIT_BASE_FREQUENCY = 1193182"

text \<open>A frequency of 0 is a division by zero: the processor enters the trap handler, which does not return here.\<close>

definition pit_configure_hz :: "u32 \<Rightarrow> prog" where
  "pit_configure_hz hz w =
     (if hz = 0 then None
      else
        let divisor = (ucast (PIT_BASE_FREQUENCY div hz) :: u16) in
        Some (Returns (outb PIT_CHANNEL0 (ucast (drop_bit 8 divisor AND 0xFF))
          (outb PIT_CHANNEL0 (ucast (divisor AND 0xFF)) (outb PIT_COMMAND 0x36 w)))))"

definition timer_on_irq0 :: "hardware \<Rightarrow> prog" where
  "timer_on_irq0 hw =
     sequence
       [step (\<lambda>w. w\<lparr>g_ticks := g_ticks w + 1\<rparr>),
        (\<lambda>w. if g_ticks w mod 100 = 0 then serial_write hw (Some (''[MCSOS:TIMER] tick'' @ [CHR 0x0A])) w else Some (Returns w)),
        step (outb 0x20 0x20)]"

section \<open>idt.c and syscall\_arch.c\<close>

definition X86_64_IDT_VECTOR_COUNT :: nat where [mcs_consts]: "X86_64_IDT_VECTOR_COUNT = 256"
definition X86_64_KERNEL_CODE_SELECTOR :: u16 where [mcs_consts]: "X86_64_KERNEL_CODE_SELECTOR = 0x28"
definition X86_64_IDT_GATE_INTERRUPT :: u8 where [mcs_consts]: "X86_64_IDT_GATE_INTERRUPT = 0x8E"
definition X86_64_IDT_GATE_TRAP :: u8 where [mcs_consts]: "X86_64_IDT_GATE_TRAP = 0x8F"
definition IDT_GATE_TRAP :: u8 where [mcs_consts]: "IDT_GATE_TRAP = 0x8F"

definition x86_64_idt_set_gate :: "u8 \<Rightarrow> u64 \<Rightarrow> u8 \<Rightarrow> machine \<Rightarrow> machine" where
  "x86_64_idt_set_gate vector handler attributes w =
     w\<lparr>idt := (idt w)[unat vector :=
       \<lparr>offset_low = ucast (handler AND 0xFFFF), selector = X86_64_KERNEL_CODE_SELECTOR, ist = 0,
        type_attributes = attributes, offset_mid = ucast (drop_bit 16 handler AND 0xFFFF),
        offset_high = ucast (drop_bit 32 handler AND 0xFFFFFFFF), reserved = 0\<rparr>]\<rparr>"

text \<open>The stubs of \<open>isr.S\<close> and the place of the table in memory are given by the linker. The size of an entry is 16.\<close>

record image_symbols =
  exception_stubs :: "nat \<Rightarrow> u64"
  int80_stub :: u64
  idt_address :: u64
  kernel_start :: u64
  kernel_end :: u64

definition lidt :: "machine \<Rightarrow> machine" where
  "lidt w = w\<lparr>loaded_idtr := idtr w\<rparr>"

definition x86_64_idt_base_for_test :: "machine \<Rightarrow> u64" where
  "x86_64_idt_base_for_test w = idtr_base (idtr w)"

definition x86_64_idt_limit_for_test :: "machine \<Rightarrow> u16" where
  "x86_64_idt_limit_for_test w = idtr_limit (idtr w)"

definition x86_64_idt_init :: "hardware \<Rightarrow> image_symbols \<Rightarrow> prog" where
  "x86_64_idt_init hw syms =
     sequence
       [step (fold (\<lambda>i. x86_64_idt_set_gate (of_nat i) 0 0) [0..<X86_64_IDT_VECTOR_COUNT]),
        step (fold (\<lambda>vector. x86_64_idt_set_gate (of_nat vector) (exception_stubs syms vector)
                (if vector = 3 then X86_64_IDT_GATE_TRAP else X86_64_IDT_GATE_INTERRUPT)) [0..<48]),
        step (\<lambda>w. w\<lparr>idtr := \<lparr>idtr_limit = of_nat (16 * X86_64_IDT_VECTOR_COUNT - 1), idtr_base = idt_address syms\<rparr>\<rparr>),
        kernel_assert hw ''kernel/arch/x86_64/idt.c'' 51 ''sizeof(x86_64_idt_entry_t) == 16u'' True,
        (\<lambda>w. kernel_assert hw ''kernel/arch/x86_64/idt.c'' 53
           ''idtr.limit == (uint16_t)((X86_64_IDT_VECTOR_COUNT * sizeof(x86_64_idt_entry_t)) - 1u)''
           (idtr_limit (idtr w) = of_nat (X86_64_IDT_VECTOR_COUNT * 16 - 1)) w),
        step lidt,
        (\<lambda>w. log_key_value_hex64 hw (Some ''idt_base'') (idtr_base (idtr w)) w),
        (\<lambda>w. log_key_value_hex64 hw (Some ''idt_limit'') (ucast (idtr_limit (idtr w))) w),
        log_writeln hw (Some ''[M4] IDT loaded'')]"

definition syscall_arch_init :: "image_symbols \<Rightarrow> machine \<Rightarrow> machine" where
  "syscall_arch_init syms w = x86_64_idt_set_gate 0x80 (int80_stub syms) IDT_GATE_TRAP w"

section \<open>trap.c\<close>

record x86_64_trap_frame =
  tf_r15 :: u64
  tf_r14 :: u64
  tf_r13 :: u64
  tf_r12 :: u64
  tf_r11 :: u64
  tf_r10 :: u64
  tf_r9 :: u64
  tf_r8 :: u64
  tf_rsi :: u64
  tf_rdi :: u64
  tf_rbp :: u64
  tf_rdx :: u64
  tf_rcx :: u64
  tf_rbx :: u64
  tf_rax :: u64
  tf_vector :: u64
  tf_error_code :: u64
  tf_rip :: u64
  tf_cs :: u64
  tf_rflags :: u64

definition exception_names :: "string list" where
  "exception_names =
     [''#DE Divide Error'', ''#DB Debug'', ''NMI Interrupt'', ''#BP Breakpoint'', ''#OF Overflow'', ''#BR Bound Range Exceeded'',
      ''#UD Invalid Opcode'', ''#NM Device Not Available'', ''#DF Double Fault'', ''Coprocessor Segment Overrun'',
      ''#TS Invalid TSS'', ''#NP Segment Not Present'', ''#SS Stack Segment Fault'', ''#GP General Protection Fault'',
      ''#PF Page Fault'', ''Reserved'', ''#MF x87 Floating-Point Exception'', ''#AC Alignment Check'', ''#MC Machine Check'',
      ''#XM SIMD Floating-Point Exception'', ''#VE Virtualization Exception'', ''#CP Control Protection Exception'',
      ''Reserved'', ''Reserved'', ''Reserved'', ''Reserved'', ''Reserved'', ''Reserved'',
      ''#HV Hypervisor Injection Exception'', ''#VC VMM Communication Exception'', ''#SX Security Exception'', ''Reserved'']"

definition trap_name :: "u64 \<Rightarrow> string" where
  "trap_name vector = (if vector < 32 then exception_names ! unat vector else ''external-or-user-defined-interrupt'')"

definition flag_word :: "bool \<Rightarrow> u64" where
  "flag_word b = (if b then 1 else 0)"

definition page_fault_dump :: "hardware \<Rightarrow> u64 \<Rightarrow> x86_64_trap_frame \<Rightarrow> prog" where
  "page_fault_dump hw error_code tf =
     sequence
       [log_writeln hw (Some ''#PF page fault''),
        log_key_value_hex64 hw (Some ''cr2'') (hw_cr2 hw),
        log_key_value_hex64 hw (Some ''error'') error_code,
        log_key_value_hex64 hw (Some ''rip'') (tf_rip tf),
        log_key_value_hex64 hw (Some ''present_protection'') (flag_word (error_code AND 1 \<noteq> 0)),
        log_key_value_hex64 hw (Some ''write'') (flag_word (error_code AND 2 \<noteq> 0)),
        log_key_value_hex64 hw (Some ''user'') (flag_word (error_code AND 4 \<noteq> 0)),
        log_key_value_hex64 hw (Some ''reserved'') (flag_word (error_code AND 8 \<noteq> 0)),
        log_key_value_hex64 hw (Some ''instruction_fetch'') (flag_word (error_code AND 16 \<noteq> 0))]"

definition m4_trap_count_for_test :: "machine \<Rightarrow> u64" where
  "m4_trap_count_for_test w = trap_count w"

definition log_trap_frame :: "hardware \<Rightarrow> x86_64_trap_frame \<Rightarrow> prog" where
  "log_trap_frame hw frame =
     sequence
       [log_key_value_hex64 hw (Some ''trap_vector'') (tf_vector frame),
        log_key_value_hex64 hw (Some ''trap_error'') (tf_error_code frame),
        log_key_value_hex64 hw (Some ''trap_rip'') (tf_rip frame),
        log_key_value_hex64 hw (Some ''trap_cs'') (tf_cs frame),
        log_key_value_hex64 hw (Some ''trap_rflags'') (tf_rflags frame),
        log_key_value_hex64 hw (Some ''trap_rax'') (tf_rax frame),
        log_key_value_hex64 hw (Some ''trap_rbx'') (tf_rbx frame),
        log_key_value_hex64 hw (Some ''trap_rcx'') (tf_rcx frame),
        log_key_value_hex64 hw (Some ''trap_rdx'') (tf_rdx frame)]"

text \<open>What the dispatcher does with the vector, behind the log of the frame.\<close>

definition trap_action :: "hardware \<Rightarrow> x86_64_trap_frame \<Rightarrow> prog" where
  "trap_action hw frame =
     (let vector = tf_vector frame in
      if 32 \<le> vector \<and> vector \<le> 47 then
        then_do (if vector = 32 then timer_on_irq0 hw else step id) (step (pic_send_eoi (ucast (vector - 32))))
      else
        then_do
          (if vector = 14 then
             then_do (page_fault_dump hw (tf_error_code frame) frame)
               (kernel_panic_at hw (Some ''kernel/core/trap.c'') 107 (Some ''page fault'') (tf_error_code frame))
           else step id)
          (if vector = 3 then log_writeln hw (Some ''[M4] breakpoint handled; returning with iretq'')
           else kernel_panic_at hw (Some ''kernel/core/trap.c'') 115 (Some ''unrecoverable CPU exception'') vector))"

definition x86_64_trap_dispatch :: "hardware \<Rightarrow> x86_64_trap_frame option \<Rightarrow> prog" where
  "x86_64_trap_dispatch hw frame =
     then_do (kernel_assert hw ''kernel/core/trap.c'' 88 (''frame != (x86_64_trap_frame_t *'' @ '')0'') (frame \<noteq> None))
       (sequence
          [step (\<lambda>w. w\<lparr>trap_count := trap_count w + 1\<rparr>),
           log_write hw (Some ''[M4] trap dispatch: ''),
           log_writeln hw (Some (trap_name (tf_vector (the frame)))),
           log_trap_frame hw (the frame),
           trap_action hw (the frame)])"

section \<open>The processor\<close>

text \<open>The address the processor jumps to, the present bit and the privilege level it takes from a gate.\<close>

definition gate_handler :: "x86_64_idt_entry \<Rightarrow> u64" where
  "gate_handler e = ucast (offset_low e) OR push_bit 16 (ucast (offset_mid e)) OR push_bit 32 (ucast (offset_high e))"

definition gate_present :: "x86_64_idt_entry \<Rightarrow> bool" where
  "gate_present e \<longleftrightarrow> type_attributes e AND 0x80 \<noteq> 0"

definition gate_dpl :: "x86_64_idt_entry \<Rightarrow> u8" where
  "gate_dpl e = drop_bit 5 (type_attributes e) AND 3"

definition gate_masks :: "x86_64_idt_entry \<Rightarrow> bool" where
  "gate_masks e \<longleftrightarrow> type_attributes e AND 1 = 0"

text \<open>An interrupt or exception as the processor takes it: it reads the gate of the vector in the loaded table, clears the
  interrupt flag if the gate says so and enters the stub, which pushes the vector and calls the dispatcher (\<open>isr.S\<close>); the
  \<open>iretq\<close> behind it restores the flag. A gate that is absent or leads elsewhere does not reach the dispatcher: \<open>None\<close>.\<close>

definition leads_to_stub :: "image_symbols \<Rightarrow> nat \<Rightarrow> machine \<Rightarrow> bool" where
  "leads_to_stub syms v w \<longleftrightarrow>
     idtr_base (loaded_idtr w) = idt_address syms \<and> 16 * v + 15 \<le> unat (idtr_limit (loaded_idtr w)) \<and>
     gate_present (idt w ! v) \<and> gate_handler (idt w ! v) = exception_stubs syms v"

definition cpu_interrupt :: "hardware \<Rightarrow> image_symbols \<Rightarrow> nat \<Rightarrow> x86_64_trap_frame \<Rightarrow> prog" where
  "cpu_interrupt hw syms v frame w =
     (if leads_to_stub syms v w then
        then_do (x86_64_trap_dispatch hw (Some (frame\<lparr>tf_vector := of_nat v\<rparr>))) (step (\<lambda>w'. w'\<lparr>int_flag := int_flag w\<rparr>))
          (w\<lparr>int_flag := int_flag w \<and> \<not> gate_masks (idt w ! v)\<rparr>)
      else None)"

text \<open>\<open>int3\<close>, with the registers of the interrupted code as an argument.\<close>

definition x86_64_trigger_breakpoint_for_test :: "hardware \<Rightarrow> image_symbols \<Rightarrow> x86_64_trap_frame \<Rightarrow> prog" where
  "x86_64_trigger_breakpoint_for_test hw syms frame = cpu_interrupt hw syms 3 frame"

text \<open>The timer interrupts that arrive at one point of the code, in order: \<open>arrivals w\<close> are the registers they find, when the
  machine has come to the state \<open>w\<close>. With the interrupt flag clear none is taken.\<close>

type_synonym arrivals = "machine \<Rightarrow> x86_64_trap_frame list"

definition timer_interrupts :: "hardware \<Rightarrow> image_symbols \<Rightarrow> arrivals \<Rightarrow> prog" where
  "timer_interrupts hw syms arrivals w =
     (if int_flag w then sequence (map (cpu_interrupt hw syms 32) (arrivals w)) w else Some (Returns w))"

text \<open>Statements with a point where interrupts \<open>irq\<close> arrive in front of each.\<close>

fun interruptible :: "'s program \<Rightarrow> 's program list \<Rightarrow> 's program" where
  "interruptible irq [] = sequence []"
| "interruptible irq (p # ps) = then_do irq (then_do p (interruptible irq ps))"

section \<open>Traps\<close>

definition device_writes :: "machine \<Rightarrow> (u16 \<times> u8) list" where
  "device_writes w = filter (\<lambda>(p, v). p \<noteq> COM1_PORT) (port_writes w)"

definition is_irq :: "u64 \<Rightarrow> bool" where
  "is_irq vector \<longleftrightarrow> 32 \<le> vector \<and> vector \<le> 47"

definition eoi_writes :: "u64 \<Rightarrow> (u16 \<times> u8) list" where
  "eoi_writes vector =
     (if vector = 32 then [(0x20, 0x20)] else []) @ (if 40 \<le> vector then [(0xA0, 0x20)] else []) @ [(0x20, 0x20)]"

lemma prints_device_writes: "prints hw t w w' \<Longrightarrow> device_writes w' = device_writes w"
  unfolding device_writes_def by (rule prints_keeps)

lemma device_writes_outb [simp]:
  "device_writes (outb p v w) = device_writes w @ (if p = COM1_PORT then [] else [(p, v)])"
  by (simp add: device_writes_def outb_def)

lemma device_writes_updates [simp]:
  "device_writes (w\<lparr>g_ticks := n\<rparr>) = device_writes w" "device_writes (w\<lparr>trap_count := n\<rparr>) = device_writes w"
  "device_writes (cpu_cli w) = device_writes w"
  by (simp_all add: device_writes_def cpu_cli_def)

lemma idle_updates [simp]:
  "idle (w\<lparr>g_ticks := n\<rparr>) = idle w" "idle (w\<lparr>trap_count := n\<rparr>) = idle w" "idle (cpu_cli w) = idle w" "idle (outb p v w) = idle w"
  by (simp_all add: idle_def cpu_cli_def outb_def)

lemma cpu_cli_keeps [simp]:
  "int_flag (cpu_cli w) = False" "g_ticks (cpu_cli w) = g_ticks w" "trap_count (cpu_cli w) = trap_count w"
  "idt (cpu_cli w) = idt w" "idtr (cpu_cli w) = idtr w" "loaded_idtr (cpu_cli w) = loaded_idtr w"
  by (simp_all add: cpu_cli_def)

lemma outb_keeps [simp]:
  "int_flag (outb p v w) = int_flag w" "log_lock (outb p v w) = log_lock w" "serial_lock (outb p v w) = serial_lock w"
  "g_ticks (outb p v w) = g_ticks w" "trap_count (outb p v w) = trap_count w" "idt (outb p v w) = idt w"
  "idtr (outb p v w) = idtr w" "loaded_idtr (outb p v w) = loaded_idtr w"
  by (simp_all add: outb_def)

definition tick_text :: "u64 \<Rightarrow> string" where
  "tick_text n = (if n mod 100 = 0 then crlf (''[MCSOS:TIMER] tick'' @ [CHR 0x0A]) else [])"

lemma timer_outcome:
  assumes "idle w"
  shows "\<exists>w'. timer_on_irq0 hw w = Some (Returns (outb 0x20 0x20 w')) \<and>
    prints hw (tick_text (g_ticks w + 1)) (w\<lparr>g_ticks := g_ticks w + 1\<rparr>) w'"
proof -
  let ?w = "w\<lparr>g_ticks := g_ticks w + 1\<rparr>"
  let ?s = "''[MCSOS:TIMER] tick'' @ [CHR 0x0A]"
  have f: "\<not> serial_lock ?w" using assms by (simp add: idle_def)
  obtain w' where w': "serial_write hw (Some ?s) ?w = Some (Returns w')" "prints hw (crlf ?s) ?w w'"
    using serial_write_prints [OF f] by blast
  show ?thesis
  proof (cases "g_ticks ?w mod 100 = 0")
    case True
    then have "timer_on_irq0 hw w = Some (Returns (outb 0x20 0x20 w'))"
      using w'(1) by (simp add: timer_on_irq0_def then_do_def step_def)
    with w'(2) True show ?thesis by (auto simp: tick_text_def)
  next
    case False
    then have "timer_on_irq0 hw w = Some (Returns (outb 0x20 0x20 ?w))"
      by (simp add: timer_on_irq0_def then_do_def step_def)
    with prints_refl [of hw ?w] False show ?thesis by (auto simp: tick_text_def)
  qed
qed

lemma irq_outcome:
  assumes "idle w" "is_irq (tf_vector fr)"
  shows "\<exists>w'. trap_action hw fr w = Some (Returns w') \<and> int_flag w' = int_flag w \<and> trap_count w' = trap_count w \<and> idle w' \<and>
    g_ticks w' = g_ticks w + (if tf_vector fr = 32 then 1 else 0) \<and>
    device_writes w' = device_writes w @ eoi_writes (tf_vector fr)"
proof -
  let ?v = "tf_vector fr"
  have v: "32 \<le> ?v \<and> ?v \<le> 47" using assms(2) by (simp add: is_irq_def)
  then have "unat ?v < 48" "32 \<le> unat ?v" by (simp_all add: word_le_nat_alt)
  then have "8 \<le> (ucast (?v - 32) :: u8) \<longleftrightarrow> 40 \<le> ?v"
    by (simp add: word_le_nat_alt unsigned_ucast_eq take_bit_eq_mod unat_sub) arith
  then have e: "device_writes (pic_send_eoi (ucast (?v - 32)) w) =
      device_writes w @ (if 40 \<le> ?v then [(0xA0, 0x20)] else []) @ [(0x20, 0x20)]" for w
    by (simp add: pic_send_eoi_def mcs_consts COM1_PORT_def)
  have k: "int_flag (pic_send_eoi i w) = int_flag w" "trap_count (pic_send_eoi i w) = trap_count w"
      "idle (pic_send_eoi i w) = idle w" "g_ticks (pic_send_eoi i w) = g_ticks w" for i w
    by (simp_all add: pic_send_eoi_def idle_def)
  show ?thesis
  proof (cases "?v = 32")
    case True
    obtain w' where t: "timer_on_irq0 hw w = Some (Returns (outb 0x20 0x20 w'))"
        "prints hw (tick_text (g_ticks w + 1)) (w\<lparr>g_ticks := g_ticks w + 1\<rparr>) w'" using timer_outcome [OF assms(1)] by blast
    note p = prints_keeps [OF t(2)] prints_device_writes [OF t(2)]
    have "trap_action hw fr w = Some (Returns (pic_send_eoi 0 (outb 0x20 0x20 w')))"
      using True by (simp add: trap_action_def then_do_def step_def t)
    then show ?thesis using True p e [of "outb 0x20 0x20 w'"] assms(1)
      by (simp add: k eoi_writes_def COM1_PORT_def)
  next
    case False
    then have "trap_action hw fr w = Some (Returns (pic_send_eoi (ucast (?v - 32)) w))"
      using v by (simp add: trap_action_def) (simp add: step_def)
    then show ?thesis using False e [of w] assms(1) by (simp add: k eoi_writes_def)
  qed
qed


definition resumes :: "u64 \<Rightarrow> bool" where
  "resumes vector \<longleftrightarrow> vector = 3 \<or> is_irq vector"

text \<open>What the dispatcher prints of every frame, before it acts on it.\<close>

definition trap_report :: "x86_64_trap_frame \<Rightarrow> string" where
  "trap_report fr =
     crlf ''[M4] trap dispatch: '' @ line_text (trap_name (tf_vector fr)) @
     (key_text ''trap_vector'' (tf_vector fr) @ key_text ''trap_error'' (tf_error_code fr) @
      key_text ''trap_rip'' (tf_rip fr) @ key_text ''trap_cs'' (tf_cs fr) @ key_text ''trap_rflags'' (tf_rflags fr) @
      key_text ''trap_rax'' (tf_rax fr) @ key_text ''trap_rbx'' (tf_rbx fr) @ key_text ''trap_rcx'' (tf_rcx fr) @
      key_text ''trap_rdx'' (tf_rdx fr) @ []) @ []"

lemma log_trap_frame_outputs:
  "outputs hw (log_trap_frame hw fr)
     (key_text ''trap_vector'' (tf_vector fr) @ key_text ''trap_error'' (tf_error_code fr) @
      key_text ''trap_rip'' (tf_rip fr) @ key_text ''trap_cs'' (tf_cs fr) @ key_text ''trap_rflags'' (tf_rflags fr) @
      key_text ''trap_rax'' (tf_rax fr) @ key_text ''trap_rbx'' (tf_rbx fr) @ key_text ''trap_rcx'' (tf_rcx fr) @
      key_text ''trap_rdx'' (tf_rdx fr) @ [])"
  unfolding log_trap_frame_def by (intro outputs_rules)

lemma page_fault_dump_outputs: "\<exists>t. outputs hw (page_fault_dump hw code fr) t"
  unfolding page_fault_dump_def by (rule exI, (rule outputs_rules)+)

lemma trap_dispatch_report:
  assumes "idle w"
  shows "\<exists>w'. x86_64_trap_dispatch hw (Some fr) w = trap_action hw fr w' \<and>
    prints hw (trap_report fr) (w\<lparr>trap_count := trap_count w + 1\<rparr>) w'"
proof -
  let ?w = "w\<lparr>trap_count := trap_count w + 1\<rparr>"
  let ?ps = "[log_write hw (Some ''[M4] trap dispatch: ''), log_writeln hw (Some (trap_name (tf_vector fr))), log_trap_frame hw fr]"
  have "outputs hw (sequence ?ps) (trap_report fr)"
    unfolding trap_report_def by (intro outputs_rules log_trap_frame_outputs)
  from outputsD [OF this, of ?w] assms
  obtain w' where "sequence ?ps ?w = Some (Returns w')" "prints hw (trap_report fr) ?w w'" by auto
  moreover have "x86_64_trap_dispatch hw (Some fr) w = sequence (?ps @ [trap_action hw fr]) ?w"
    by (simp add: x86_64_trap_dispatch_def)
  ultimately show ?thesis unfolding sequence_snoc by (auto intro: then_do_returns)
qed

lemma exception_outcome:
  assumes "idle w" "\<not> resumes (tf_vector fr)"
  shows "\<exists>t w'. trap_action hw fr w = Some (Halts w') \<and> prints hw t (cpu_cli w) w'"
proof -
  let ?v = "tf_vector fr" and ?c = "tf_error_code fr"
  have v: "?v \<noteq> 3" "\<not> (32 \<le> ?v \<and> ?v \<le> 47)" using assms(2) by (simp_all add: resumes_def is_irq_def)
  show ?thesis
  proof (cases "?v = 14")
    case True
    obtain t where "outputs hw (page_fault_dump hw ?c fr) t" using page_fault_dump_outputs by blast
    then obtain w' where d: "page_fault_dump hw ?c fr w = Some (Returns w')" "prints hw t w w'"
      using assms(1) unfolding outputs_def by blast
    obtain r w'' where h: "kernel_panic_at hw (Some ''kernel/core/trap.c'') 107 (Some ''page fault'') ?c w' = Some (Halts w'')"
        "prints hw r (cpu_cli w') w''"
      using panic_halts assms(1) prints_keeps(9) [OF d(2)] by blast
    have "trap_action hw fr w = Some (Halts w'')" using True d(1) h(1) by (simp add: trap_action_def then_do_def)
    moreover have "prints hw (t @ r) (cpu_cli w) w''" by (rule prints_trans [OF prints_cli [OF d(2)] h(2)])
    ultimately show ?thesis by blast
  next
    case False
    then have "trap_action hw fr w = kernel_panic_at hw (Some ''kernel/core/trap.c'') 115 (Some ''unrecoverable CPU exception'') ?v w"
      using v by (auto simp: trap_action_def Let_def)
    then show ?thesis using panic_halts [OF assms(1)] by metis
  qed
qed

lemma breakpoint_returns:
  assumes "idle w" "tf_vector fr = 3"
  shows "\<exists>w'. x86_64_trap_dispatch hw (Some fr) w = Some (Returns w') \<and>
    prints hw (trap_report fr @ line_text ''[M4] breakpoint handled; returning with iretq'') (w\<lparr>trap_count := trap_count w + 1\<rparr>) w'"
proof -
  obtain w1 where w1: "x86_64_trap_dispatch hw (Some fr) w = trap_action hw fr w1"
      "prints hw (trap_report fr) (w\<lparr>trap_count := trap_count w + 1\<rparr>) w1"
    using trap_dispatch_report [OF assms(1)] by blast
  have i: "idle w1" using prints_keeps(9) [OF w1(2)] assms(1) by simp
  have "trap_action hw fr w1 = log_writeln hw (Some ''[M4] breakpoint handled; returning with iretq'') w1"
    using assms(2) by (simp add: trap_action_def)
  moreover obtain w' where "log_writeln hw (Some ''[M4] breakpoint handled; returning with iretq'') w1 = Some (Returns w')"
      "prints hw (line_text ''[M4] breakpoint handled; returning with iretq'') w1 w'"
    using outputsD [OF writeln_outputs i] by blast
  ultimately show ?thesis using w1(1) prints_trans [OF w1(2)] by auto
qed

lemma trap_frame_outcome:
  assumes "idle w"
  shows "\<exists>w'. x86_64_trap_dispatch hw (Some fr) w = Some (if resumes (tf_vector fr) then Returns w' else Halts w') \<and>
      int_flag w' = (resumes (tf_vector fr) \<and> int_flag w) \<and> trap_count w' = trap_count w + 1 \<and> idle w' \<and>
      g_ticks w' = g_ticks w + (if tf_vector fr = 32 then 1 else 0) \<and>
      device_writes w' = device_writes w @ (if is_irq (tf_vector fr) then eoi_writes (tf_vector fr) else [])"
proof -
  let ?v = "tf_vector fr" and ?w = "w\<lparr>trap_count := trap_count w + 1\<rparr>"
  obtain w1 where w1: "x86_64_trap_dispatch hw (Some fr) w = trap_action hw fr w1" "prints hw (trap_report fr) ?w w1"
    using trap_dispatch_report [OF assms] by blast
  note p = prints_keeps [OF w1(2)] prints_device_writes [OF w1(2)]
  have i: "idle w1" using p assms by simp
  consider "is_irq ?v" | "?v = 3" "\<not> is_irq ?v" | "\<not> resumes ?v" unfolding resumes_def by blast
  then show ?thesis
  proof cases
    case 1
    then show ?thesis using irq_outcome [OF i 1, of hw] w1(1) p assms by (auto simp: resumes_def)
  next
    case 2
    obtain t w' where w': "x86_64_trap_dispatch hw (Some fr) w = Some (Returns w')" "prints hw t ?w w'"
      using breakpoint_returns [OF assms 2(1)] by blast
    show ?thesis using w'(1) prints_keeps [OF w'(2)] prints_device_writes [OF w'(2)] 2 assms by (simp add: resumes_def)
  next
    case 3
    obtain t w' where w': "trap_action hw fr w1 = Some (Halts w')" "prints hw t (cpu_cli w1) w'"
      using exception_outcome [OF i 3] by blast
    note q = prints_keeps [OF w'(2)] prints_device_writes [OF w'(2)]
    have "?v \<noteq> 32" "\<not> is_irq ?v" using 3 by (auto simp: resumes_def is_irq_def)
    then show ?thesis using w'(1) w1(1) p q 3 assms by simp
  qed
qed

lemma null_frame_halts: "idle w \<Longrightarrow> \<exists>w'. x86_64_trap_dispatch hw None w = Some (Halts w') \<and> \<not> int_flag w'"
  unfolding x86_64_trap_dispatch_def by (rule then_do_halts) (simp add: kernel_assert_fails)

section \<open>Descriptor table\<close>

definition gate_for :: "u64 \<Rightarrow> u8 \<Rightarrow> x86_64_idt_entry" where
  "gate_for handler attributes =
     \<lparr>offset_low = ucast (handler AND 0xFFFF), selector = X86_64_KERNEL_CODE_SELECTOR, ist = 0,
      type_attributes = attributes, offset_mid = ucast (drop_bit 16 handler AND 0xFFFF),
      offset_high = ucast (drop_bit 32 handler AND 0xFFFFFFFF), reserved = 0\<rparr>"

lemma gate_handler_gate_for: "gate_handler (gate_for handler attributes) = handler"
proof -
  have m: "(0xFFFF :: u64) = mask 16" "(0xFFFFFFFF :: u64) = mask 32" by (simp_all add: mask_eq_exp_minus_1)
  show ?thesis
  proof (rule bit_word_eqI)
    fix n assume "n < LENGTH(64)"
    then show "bit (gate_handler (gate_for handler attributes)) n = bit handler n"
      unfolding gate_handler_def gate_for_def m by (cases "n < 32") (auto simp: bit_simps)
  qed
qed

lemma set_gate_idt:
  "x86_64_idt_set_gate vector handler attributes w = w\<lparr>idt := (idt w)[unat vector := gate_for handler attributes]\<rparr>"
  by (simp add: x86_64_idt_set_gate_def gate_for_def)

lemma fold_set_gate:
  assumes "n \<le> 256" "length (idt w) = 256"
  shows "fold (\<lambda>i. x86_64_idt_set_gate (of_nat i) (h i) (a i)) [0..<n] w =
    w\<lparr>idt := map (\<lambda>i. gate_for (h i) (a i)) [0..<n] @ drop n (idt w)\<rparr>"
  using assms
proof (induction n)
  case (Suc n)
  have u: "unat (of_nat n :: u8) = n" using Suc.prems by (simp add: unat_of_nat)
  have d: "drop n (idt w) = idt w ! n # drop (Suc n) (idt w)" using Suc.prems by (simp add: Cons_nth_drop_Suc)
  show ?case using Suc by (simp add: set_gate_idt u d list_update_append)
qed simp

definition boot_gates :: "image_symbols \<Rightarrow> x86_64_idt_entry list" where
  "boot_gates syms =
     map (\<lambda>i. gate_for (exception_stubs syms i) (if i = 3 then X86_64_IDT_GATE_TRAP else X86_64_IDT_GATE_INTERRUPT)) [0..<48] @
     replicate 208 (gate_for 0 0)"

definition idt_text :: "image_symbols \<Rightarrow> string" where
  "idt_text syms =
     (key_text ''idt_base'' (idt_address syms) @ key_text ''idt_limit'' 4095) @ line_text ''[M4] IDT loaded''"

lemma idt_init_outcome:
  assumes "idle w" "length (idt w) = 256"
  shows "\<exists>w'. x86_64_idt_init hw syms w = Some (Returns w') \<and>
    prints hw (idt_text syms) (w\<lparr>idt := boot_gates syms, idtr := \<lparr>idtr_limit = 4095, idtr_base = idt_address syms\<rparr>,
      loaded_idtr := \<lparr>idtr_limit = 4095, idtr_base = idt_address syms\<rparr>\<rparr>) w'"
proof -
  let ?r = "\<lparr>idtr_limit = 4095, idtr_base = idt_address syms\<rparr>"
  let ?w = "w\<lparr>idt := boot_gates syms, idtr := ?r, loaded_idtr := ?r\<rparr>"
  have g: "fold (\<lambda>vector. x86_64_idt_set_gate (of_nat vector) (exception_stubs syms vector)
        (if vector = 3 then X86_64_IDT_GATE_TRAP else X86_64_IDT_GATE_INTERRUPT)) [0..<48]
      (fold (\<lambda>i. x86_64_idt_set_gate (of_nat i) 0 0) [0..<X86_64_IDT_VECTOR_COUNT] w) = w\<lparr>idt := boot_gates syms\<rparr>"
    using assms(2) by (simp add: fold_set_gate X86_64_IDT_VECTOR_COUNT_def boot_gates_def map_replicate_const)
  have i: "idle ?w" using assms(1) by (simp add: idle_def)
  obtain w1 where w1: "log_key_value_hex64 hw (Some ''idt_base'') (idt_address syms) ?w = Some (Returns w1)"
      "prints hw (key_text ''idt_base'' (idt_address syms)) ?w w1"
    using outputsD [OF log_key_value_outputs i] by blast
  have i1: "idle w1" "idtr w1 = ?r" using i prints_keeps(7,9) [OF w1(2)] by simp_all
  obtain w2 where w2: "log_key_value_hex64 hw (Some ''idt_limit'') 4095 w1 = Some (Returns w2)"
      "prints hw (key_text ''idt_limit'' 4095) w1 w2"
    using outputsD [OF log_key_value_outputs i1(1)] by blast
  obtain w3 where w3: "log_writeln hw (Some ''[M4] IDT loaded'') w2 = Some (Returns w3)"
      "prints hw (line_text ''[M4] IDT loaded'') w2 w3"
    using outputsD [OF writeln_outputs] i1(1) prints_keeps(9) [OF w2(2)] by blast
  have "x86_64_idt_init hw syms w = Some (Returns w3)"
    unfolding x86_64_idt_init_def sequence.simps then_do_step g
    by (simp add: then_do_def step_def lidt_def X86_64_IDT_VECTOR_COUNT_def w1(1) w2(1) w3(1) i1(2))
  then show ?thesis using prints_trans [OF prints_trans [OF w1(2) w2(2)] w3(2)] unfolding idt_text_def by blast
qed

lemma bytes_of_u16:
  "unat (ucast (d AND 0xFF) :: u8) = unat (d :: u16) mod 256" "unat (ucast (drop_bit 8 d AND 0xFF) :: u8) = unat d div 256"
proof -
  have "unat (drop_bit 8 d) = unat d div 256" using unat_drop_bit_eq [of 8 d] drop_bit_eq_div [of 8 "unat d"] by simp
  moreover have "unat d div 256 < 256" using unat_bound [of d] by simp
  ultimately show "unat (ucast (drop_bit 8 d AND 0xFF) :: u8) = unat d div 256"
    using unat_and_mask [of "drop_bit 8 d" 8] by (simp add: mask_eq_exp_minus_1 unsigned_ucast_eq take_bit_eq_mod)
  show "unat (ucast (d AND 0xFF) :: u8) = unat d mod 256"
    using unat_and_mask [of d 8] by (simp add: mask_eq_exp_minus_1 unsigned_ucast_eq take_bit_eq_mod)
qed

definition example_image :: image_symbols where
  "example_image = \<lparr>exception_stubs = \<lambda>v. 0xFFFFFFFF80000100 + of_nat (16 * v), int80_stub = 0xFFFFFFFF80000400,
     idt_address = 0xFFFFFFFF80001000, kernel_start = 0xFFFFFFFF80000000, kernel_end = 0xFFFFFFFF80004000\<rparr>"

section \<open>Code with timer interrupts\<close>

definition console :: "machine \<Rightarrow> u8 list" where
  "console w = map snd (filter (\<lambda>(p, v). p = COM1_PORT) (port_writes w))"

lemma console_prints: "line_ready hw \<Longrightarrow> prints hw t w w' \<Longrightarrow> console w' = console w @ map of_char t"
  by (auto simp: prints_def console_def filter_id_conv o_def)

lemma console_updates [simp]:
  "console (w\<lparr>g_ticks := n\<rparr>) = console w" "console (w\<lparr>trap_count := n\<rparr>) = console w" "console (w\<lparr>int_flag := b\<rparr>) = console w"
  "console (cpu_cli w) = console w" "console (outb p v w) = console w @ (if p = COM1_PORT then [v] else [])"
  by (simp_all add: console_def cpu_cli_def outb_def)

lemma int_flag_irrelevant [simp]:
  "device_writes (w\<lparr>int_flag := b\<rparr>) = device_writes w" "idle (w\<lparr>int_flag := b\<rparr>) = idle w"
  by (simp_all add: device_writes_def idle_def)

text \<open>A run of interruptible code as a list of events: the timer interrupts taken at a point and the text printed behind it.
  The output of a run that starts at tick \<open>n\<close> weaves the reports of the interrupts into the texts.\<close>

type_synonym event = "x86_64_trap_frame list \<times> string"

fun reports :: "u64 \<Rightarrow> x86_64_trap_frame list \<Rightarrow> string" where
  "reports n [] = []"
| "reports n (fr # frs) = trap_report fr @ tick_text (n + 1) @ reports (n + 1) frs"

fun woven :: "u64 \<Rightarrow> event list \<Rightarrow> string" where
  "woven n [] = []"
| "woven n ((frs, t) # es) = reports n frs @ t @ woven (n + of_nat (length frs)) es"

definition irq_count :: "event list \<Rightarrow> nat" where
  "irq_count es = sum_list (map (\<lambda>e. length (fst e)) es)"

text \<open>The events are what \<open>arrivals\<close> prescribes, one per point, and print \<open>ts\<close>.\<close>

definition came :: "arrivals \<Rightarrow> string list \<Rightarrow> event list \<Rightarrow> bool" where
  "came arrivals ts es \<longleftrightarrow>
     (\<forall>e \<in> set es. \<exists>w. fst e = map (\<lambda>fr. fr\<lparr>tf_vector := 32\<rparr>) (arrivals w)) \<and> filter (\<lambda>t. t \<noteq> []) (map snd es) = ts"

text \<open>What a run with \<open>b\<close> breakpoints does to the machine, and what code that leaves the interrupt set-up alone keeps.\<close>

definition passes :: "hardware \<Rightarrow> nat \<Rightarrow> event list \<Rightarrow> machine \<Rightarrow> machine \<Rightarrow> bool" where
  "passes hw b es w w' \<longleftrightarrow>
     idle w' = idle w \<and> trap_count w' = trap_count w + of_nat (b + irq_count es) \<and> g_ticks w' = g_ticks w + of_nat (irq_count es) \<and>
     device_writes w' = device_writes w @ replicate (2 * irq_count es) (0x20, 0x20) \<and>
     (line_ready hw \<longrightarrow> console w' = console w @ map of_char (woven (g_ticks w) es))"

definition keeps :: "machine \<Rightarrow> machine \<Rightarrow> bool" where
  "keeps w w' \<longleftrightarrow> int_flag w' = int_flag w \<and> idt w' = idt w \<and> idtr w' = idtr w \<and> loaded_idtr w' = loaded_idtr w"

lemma keeps_refl [simp]: "keeps w w"
  by (simp add: keeps_def)

lemma keeps_trans [trans]: "keeps w w' \<Longrightarrow> keeps w' w'' \<Longrightarrow> keeps w w''"
  by (simp add: keeps_def)

lemma prints_keep: "prints hw t w w' \<Longrightarrow> keeps w w'"
  using prints_keeps [of hw t w w'] by (simp add: keeps_def)

lemma irq_count_simps [simp]:
  "irq_count [] = 0" "irq_count (e # es) = length (fst e) + irq_count es" "irq_count (es @ fs) = irq_count es + irq_count fs"
  by (simp_all add: irq_count_def)

lemma woven_append: "woven n (es @ fs) = woven n es @ woven (n + of_nat (irq_count es)) fs"
  by (induction n es rule: woven.induct) (simp_all add: add.assoc)

lemma passes_append:
  assumes "passes hw b es w w'" "passes hw c fs w' w''"
  shows "passes hw (b + c) (es @ fs) w w''"
  using assms by (simp add: passes_def woven_append algebra_simps replicate_add)

lemma passes_event:
  assumes "passes hw b [(frs, [])] w w'" "passes hw c [([], t)] w' w''"
  shows "passes hw (b + c) [(frs, t)] w w''"
  using passes_append [OF assms] by (simp add: passes_def)

lemma prints_passes: "prints hw t w w' \<Longrightarrow> passes hw 0 [([], t)] w w'"
  using prints_keeps [of hw t w w'] prints_device_writes [of hw t w w'] console_prints [of hw t w w'] by (simp add: passes_def)

lemma passes_cli: "passes hw 0 [] w (cpu_cli w)"
  by (simp add: passes_def)

definition serving :: "image_symbols \<Rightarrow> machine \<Rightarrow> bool" where
  "serving syms w \<longleftrightarrow>
     idle w \<and> int_flag w \<and> leads_to_stub syms 3 w \<and> leads_to_stub syms 32 w \<and>
     idtr w = \<lparr>idtr_limit = 4095, idtr_base = idt_address syms\<rparr> \<and> loaded_idtr w = idtr w"

lemma serving_passes: "passes hw b es w w' \<Longrightarrow> keeps w w' \<Longrightarrow> serving syms w' = serving syms w"
  by (simp add: passes_def serving_def leads_to_stub_def keeps_def)

lemma replicate_2: "replicate 2 x = [x, x]"
  by (simp add: numeral_2_eq_2)

text \<open>One timer interrupt, and all that arrive at a point.\<close>

lemma timer_trap:
  assumes "idle w" "tf_vector fr = 32"
  shows "\<exists>w'. x86_64_trap_dispatch hw (Some fr) w = Some (Returns w') \<and> keeps w w' \<and> passes hw 0 [([fr], [])] w w'"
proof -
  obtain w1 where w1: "x86_64_trap_dispatch hw (Some fr) w = trap_action hw fr w1"
      "prints hw (trap_report fr) (w\<lparr>trap_count := trap_count w + 1\<rparr>) w1"
    using trap_dispatch_report [OF assms(1)] by blast
  have i: "idle w1" using prints_keeps(9) [OF w1(2)] assms(1) by simp
  obtain w2 where w2: "timer_on_irq0 hw w1 = Some (Returns (outb 0x20 0x20 w2))"
      "prints hw (tick_text (g_ticks w1 + 1)) (w1\<lparr>g_ticks := g_ticks w1 + 1\<rparr>) w2"
    using timer_outcome [OF i] by blast
  let ?w = "outb 0x20 0x20 (outb 0x20 0x20 w2)"
  have "trap_action hw fr w1 = Some (Returns ?w)"
    using assms(2) w2(1) by (simp add: trap_action_def then_do_def step_def pic_send_eoi_def mcs_consts)
  moreover have "passes hw 0 [([fr], [])] w ?w"
    using prints_passes [OF w1(2)] prints_passes [OF w2(2)] by (simp add: passes_def COM1_PORT_def replicate_2)
  moreover have "keeps w ?w" using prints_keep [OF w1(2)] prints_keep [OF w2(2)] by (simp add: keeps_def)
  ultimately show ?thesis using w1(1) by auto
qed

lemma timer_interrupt:
  assumes "serving syms w"
  shows "\<exists>w'. cpu_interrupt hw syms 32 fr w = Some (Returns w') \<and> keeps w w' \<and>
    passes hw 0 [([fr\<lparr>tf_vector := 32\<rparr>], [])] w w'"
proof -
  let ?w = "w\<lparr>int_flag := int_flag w \<and> \<not> gate_masks (idt w ! 32)\<rparr>" and ?fr = "fr\<lparr>tf_vector := 32\<rparr>"
  have "idle ?w" using assms by (simp add: serving_def)
  from timer_trap [OF this, of ?fr] obtain w' where
    w': "x86_64_trap_dispatch hw (Some ?fr) ?w = Some (Returns w')" "keeps ?w w'" "passes hw 0 [([?fr], [])] ?w w'" by auto
  have "cpu_interrupt hw syms 32 fr w = Some (Returns (w'\<lparr>int_flag := int_flag w\<rparr>))"
    using assms w'(1) by (simp add: cpu_interrupt_def serving_def then_do_def step_def)
  moreover have "passes hw 0 [([?fr], [])] w (w'\<lparr>int_flag := int_flag w\<rparr>)" using w'(3) by (simp add: passes_def)
  moreover have "keeps w (w'\<lparr>int_flag := int_flag w\<rparr>)" using w'(2) by (simp add: keeps_def)
  ultimately show ?thesis by auto
qed

lemma timer_interrupt_list:
  assumes "serving syms w"
  shows "\<exists>w'. sequence (map (cpu_interrupt hw syms 32) frs) w = Some (Returns w') \<and> keeps w w' \<and>
    passes hw 0 [(map (\<lambda>fr. fr\<lparr>tf_vector := 32\<rparr>) frs, [])] w w'"
  using assms
proof (induction frs arbitrary: w)
  case Nil
  then show ?case by (simp add: passes_def)
next
  case (Cons fr frs)
  obtain w1 where w1: "cpu_interrupt hw syms 32 fr w = Some (Returns w1)" "keeps w w1"
      "passes hw 0 [([fr\<lparr>tf_vector := 32\<rparr>], [])] w w1"
    using timer_interrupt [OF Cons.prems] by blast
  have "serving syms w1" using serving_passes [OF w1(3,2)] Cons.prems by simp
  from Cons.IH [OF this] obtain w2 where w2: "sequence (map (cpu_interrupt hw syms 32) frs) w1 = Some (Returns w2)"
      "keeps w1 w2" "passes hw 0 [(map (\<lambda>fr. fr\<lparr>tf_vector := 32\<rparr>) frs, [])] w1 w2" by blast
  show ?case using w1(1,2) w2(1,2) passes_append [OF w1(3) w2(3)] by (auto simp: then_do_def passes_def add.assoc intro: keeps_trans)
qed

definition ran :: "hardware \<Rightarrow> arrivals \<Rightarrow> nat \<Rightarrow> string list \<Rightarrow> machine \<Rightarrow> machine \<Rightarrow> bool" where
  "ran hw arrivals b ts w w' \<longleftrightarrow> (\<exists>es. passes hw b es w w' \<and> came arrivals ts es)"

lemma ran_trans:
  assumes "ran hw arrivals b ts w w'" "ran hw arrivals c us w' w''"
  shows "ran hw arrivals (b + c) (ts @ us) w w''"
proof -
  obtain es fs where "passes hw b es w w'" "came arrivals ts es" "passes hw c fs w' w''" "came arrivals us fs"
    using assms unfolding ran_def by blast
  then have "passes hw (b + c) (es @ fs) w w''" "came arrivals (ts @ us) (es @ fs)"
    using passes_append by (auto simp: came_def)
  then show ?thesis unfolding ran_def by blast
qed

text \<open>Runs that leave the interrupt set-up alone.\<close>

definition passed :: "hardware \<Rightarrow> arrivals \<Rightarrow> nat \<Rightarrow> string list \<Rightarrow> machine \<Rightarrow> machine \<Rightarrow> bool" where
  "passed hw arrivals b ts w w' \<longleftrightarrow> keeps w w' \<and> ran hw arrivals b ts w w'"

lemma passed_trans:
  "passed hw arrivals b ts w w' \<Longrightarrow> passed hw arrivals c us w' w'' \<Longrightarrow> passed hw arrivals (b + c) (ts @ us) w w''"
  unfolding passed_def using keeps_trans ran_trans by blast

lemma passed_refl: "passed hw arrivals 0 [] w w"
  unfolding passed_def ran_def by (intro conjI exI [of _ "[]"]) (simp_all add: passes_def came_def)

lemma serving_passed: "passed hw arrivals b ts w w' \<Longrightarrow> serving syms w' = serving syms w"
  unfolding passed_def ran_def using serving_passes by blast

lemma point_passes:
  assumes "serving syms w"
  shows "\<exists>w'. timer_interrupts hw syms arrivals w = Some (Returns w') \<and> keeps w w' \<and>
    passes hw 0 [(map (\<lambda>fr. fr\<lparr>tf_vector := 32\<rparr>) (arrivals w), [])] w w'"
  using timer_interrupt_list [OF assms] assms by (simp add: timer_interrupts_def serving_def)

lemma point_passed:
  assumes "serving syms w"
  shows "\<exists>w'. timer_interrupts hw syms arrivals w = Some (Returns w') \<and> passed hw arrivals 0 [] w w'"
proof -
  obtain w' where "timer_interrupts hw syms arrivals w = Some (Returns w')" "keeps w w'"
      "passes hw 0 [(map (\<lambda>fr. fr\<lparr>tf_vector := 32\<rparr>) (arrivals w), [])] w w'"
    using point_passes [OF assms] by blast
  then show ?thesis unfolding passed_def ran_def came_def by fastforce
qed

text \<open>A statement behind its point: what it prints and the breakpoints it runs into.\<close>

lemma point_then:
  assumes "serving syms w" "t \<noteq> []"
    and "\<And>w. serving syms w \<Longrightarrow> \<exists>w'. p w = Some (Returns w') \<and> keeps w w' \<and> passes hw b [([], t)] w w'"
  shows "\<exists>w'. then_do (timer_interrupts hw syms arrivals) p w = Some (Returns w') \<and> passed hw arrivals b [t] w w'"
proof -
  let ?frs = "map (\<lambda>fr. fr\<lparr>tf_vector := 32\<rparr>) (arrivals w)"
  obtain w1 where w1: "timer_interrupts hw syms arrivals w = Some (Returns w1)" "keeps w w1" "passes hw 0 [(?frs, [])] w w1"
    using point_passes [OF assms(1)] by blast
  have "serving syms w1" using serving_passes [OF w1(3,2)] assms(1) by simp
  from assms(3) [OF this] obtain w2 where w2: "p w1 = Some (Returns w2)" "keeps w1 w2" "passes hw b [([], t)] w1 w2"
    by blast
  have "passes hw b [(?frs, t)] w w2" using passes_event [OF w1(3) w2(3)] by simp
  moreover have "came arrivals [t] [(?frs, t)]" using assms(2) by (auto simp: came_def)
  ultimately have "passed hw arrivals b [t] w w2" using keeps_trans [OF w1(2) w2(2)] unfolding passed_def ran_def by blast
  then show ?thesis using w1(1) w2(1) by (simp add: then_do_def)
qed

lemma outputs_point:
  assumes "outputs hw p t" "serving syms w"
  shows "\<exists>w'. p w = Some (Returns w') \<and> keeps w w' \<and> passes hw 0 [([], t)] w w'"
proof -
  have "idle w" using assms(2) by (simp add: serving_def)
  from outputsD [OF assms(1) this] obtain w' where "p w = Some (Returns w')" "prints hw t w w'" by blast
  then show ?thesis using prints_passes prints_keep by blast
qed

text \<open>Interruptible code that returns, printing \<open>ts\<close> and running into \<open>b\<close> breakpoints.\<close>

definition logs :: "hardware \<Rightarrow> image_symbols \<Rightarrow> arrivals \<Rightarrow> nat \<Rightarrow> string list \<Rightarrow> prog \<Rightarrow> bool" where
  "logs hw syms arrivals b ts p \<longleftrightarrow>
     (\<forall>w. serving syms w \<longrightarrow> (\<exists>w'. p w = Some (Returns w') \<and> passed hw arrivals b ts w w'))"

lemma logsD: "logs hw syms arrivals b ts p \<Longrightarrow> serving syms w \<Longrightarrow> \<exists>w'. p w = Some (Returns w') \<and> passed hw arrivals b ts w w'"
  by (simp add: logs_def)

lemma logs_nil: "logs hw syms arrivals 0 [] (interruptible irq [])"
  by (simp add: logs_def passed_refl)

lemma logs_cons:
  assumes "t \<noteq> []" "\<And>w. serving syms w \<Longrightarrow> \<exists>w'. p w = Some (Returns w') \<and> keeps w w' \<and> passes hw b [([], t)] w w'"
    "logs hw syms arrivals c ts (interruptible (timer_interrupts hw syms arrivals) ps)"
  shows "logs hw syms arrivals (b + c) (t # ts) (interruptible (timer_interrupts hw syms arrivals) (p # ps))"
  unfolding logs_def
proof (intro allI impI)
  fix w assume s: "serving syms w"
  let ?irq = "timer_interrupts hw syms arrivals"
  obtain w1 where w1: "then_do ?irq p w = Some (Returns w1)" "passed hw arrivals b [t] w w1"
    using point_then [OF s assms(1,2)] by blast
  obtain w2 where w2: "interruptible ?irq ps w1 = Some (Returns w2)" "passed hw arrivals c ts w1 w2"
    using logsD [OF assms(3)] s serving_passed [OF w1(2)] by blast
  have "interruptible ?irq (p # ps) w = then_do (then_do ?irq p) (interruptible ?irq ps) w" by (simp add: then_do_assoc)
  then have "interruptible ?irq (p # ps) w = Some (Returns w2)" using w1(1) w2(1) by (simp add: then_do_returns)
  then show "\<exists>w'. interruptible ?irq (p # ps) w = Some (Returns w') \<and> passed hw arrivals (b + c) (t # ts) w w'"
    using passed_trans [OF w1(2) w2(2)] by auto
qed

lemma line_text_nonempty: "line_text s \<noteq> []"
  by (simp add: line_text_def)

lemma lines_logs:
  "logs hw syms arrivals 0 (map line_text ls)
     (interruptible (timer_interrupts hw syms arrivals) (map (\<lambda>line. log_writeln hw (Some line)) ls))"
proof (induction ls)
  case Nil
  show ?case using logs_nil by simp
next
  case (Cons l ls)
  show ?case using logs_cons [OF line_text_nonempty outputs_point [OF writeln_outputs] Cons] by simp
qed

lemma breakpoint_point:
  assumes "serving syms w"
  shows "\<exists>w'. x86_64_trigger_breakpoint_for_test hw syms fr w = Some (Returns w') \<and> keeps w w' \<and>
    passes hw 1 [([], trap_report (fr\<lparr>tf_vector := 3\<rparr>) @ line_text ''[M4] breakpoint handled; returning with iretq'')] w w'"
proof -
  let ?w = "w\<lparr>int_flag := int_flag w \<and> \<not> gate_masks (idt w ! 3)\<rparr>" and ?fr = "fr\<lparr>tf_vector := 3\<rparr>"
  have "idle ?w" using assms by (simp add: serving_def)
  from breakpoint_returns [OF this, of ?fr hw] obtain w' where
    w': "x86_64_trap_dispatch hw (Some ?fr) ?w = Some (Returns w')"
      "prints hw (trap_report ?fr @ line_text ''[M4] breakpoint handled; returning with iretq'') (?w\<lparr>trap_count := trap_count ?w + 1\<rparr>) w'"
    by auto
  have "x86_64_trigger_breakpoint_for_test hw syms fr w = Some (Returns (w'\<lparr>int_flag := int_flag w\<rparr>))"
    using assms w'(1) by (simp add: x86_64_trigger_breakpoint_for_test_def cpu_interrupt_def serving_def then_do_def step_def)
  then show ?thesis using prints_passes [OF w'(2)] prints_keep [OF w'(2)] by (auto simp: passes_def keeps_def)
qed

section \<open>Properties\<close>

text \<open>C16: A trap ends in one of two ways when neither lock of the console is held. A breakpoint and the sixteen hardware
  interrupts return to the interrupted code with the interrupt flag as it was; every other vector, and a null frame,
  halts the processor with interrupts off. The trap is counted, its frame reported first, the timer counted on its
  own vector only. Beside the console no port is written except that a hardware interrupt is acknowledged: an
  interrupt of the second controller at both controllers, and a timer interrupt twice at the first one.\<close>

theorem trap_dispatch_outcome:
  assumes "idle w"
  shows "(\<exists>w'. x86_64_trap_dispatch hw (Some fr) w = Some (if resumes (tf_vector fr) then Returns w' else Halts w') \<and>
      int_flag w' = (resumes (tf_vector fr) \<and> int_flag w) \<and> trap_count w' = trap_count w + 1 \<and> idle w' \<and>
      g_ticks w' = g_ticks w + (if tf_vector fr = 32 then 1 else 0) \<and>
      device_writes w' = device_writes w @ (if is_irq (tf_vector fr) then eoi_writes (tf_vector fr) else [])) \<and>
    (\<exists>w'. x86_64_trap_dispatch hw None w = Some (Halts w') \<and> \<not> int_flag w')"
  using trap_frame_outcome [OF assms] null_frame_halts [OF assms] by blast

text \<open>C23: The console locks are not protected against interrupts. When a trap arrives while the interrupted code holds
  one of them - it is printing a line - the dispatcher never returns, whatever the vector, and neither does the panic
  path: the kernel hangs instead of resuming, acknowledging or reporting.\<close>

theorem trap_while_printing_hangs:
  assumes "\<not> idle w"
  shows "x86_64_trap_dispatch hw frame w = None \<and> kernel_panic_at hw file line reason code w = None"
proof (cases frame)
  case None
  then show ?thesis using assms by (simp add: x86_64_trap_dispatch_def kernel_assert_def panic_stuck then_do_def)
next
  case (Some fr)
  then have "x86_64_trap_dispatch hw frame w = None"
    using log_write_stuck [of "w\<lparr>trap_count := trap_count w + 1\<rparr>"] assms
    by (simp add: x86_64_trap_dispatch_def then_do_stuck)
  then show ?thesis using assms by (simp add: panic_stuck)
qed

text \<open>C24: After the table has been set up and the system call gate added, the processor finds at each of the 48
  exception and interrupt vectors a present gate that leads to the stub of that vector, at vector 0x80 one that leads to the
  system call stub, and no present gate anywhere else; the loaded limit covers exactly the 256 entries. The gates of
  all vectors but 3 and 0x80 mask interrupts. Every gate, that of the system call included, has privilege level
  0, so that \<open>int 0x80\<close> from user code is refused by the processor.\<close>

theorem idt_gates_lead_to_stubs:
  assumes "idle w" "length (idt w) = 256"
  shows "\<exists>w'. then_do (x86_64_idt_init hw syms) (step (syscall_arch_init syms)) w = Some (Returns w') \<and>
    loaded_idtr w' = \<lparr>idtr_limit = 4095, idtr_base = idt_address syms\<rparr> \<and> length (idt w') = 256 \<and>
    (\<forall>v<256. let e = idt w' ! v in
       gate_present e = (v < 48 \<or> v = 0x80) \<and> selector e = 0x28 \<and> gate_dpl e = 0 \<and>
       gate_handler e = (if v = 0x80 then int80_stub syms else if v < 48 then exception_stubs syms v else 0) \<and>
       (gate_present e \<longrightarrow> gate_masks e = (v \<noteq> 3 \<and> v \<noteq> 0x80)))"
proof -
  obtain w1 where w1: "x86_64_idt_init hw syms w = Some (Returns w1)"
      "prints hw (idt_text syms) (w\<lparr>idt := boot_gates syms, idtr := \<lparr>idtr_limit = 4095, idtr_base = idt_address syms\<rparr>,
        loaded_idtr := \<lparr>idtr_limit = 4095, idtr_base = idt_address syms\<rparr>\<rparr>) w1"
    using idt_init_outcome [OF assms] by blast
  note p = prints_keeps [OF w1(2)]
  let ?w = "syscall_arch_init syms w1"
  have l: "length (boot_gates syms) = 256" by (simp add: boot_gates_def)
  have i: "idt ?w = (boot_gates syms)[0x80 := gate_for (int80_stub syms) IDT_GATE_TRAP]" "loaded_idtr ?w = loaded_idtr w1"
    using p by (simp_all add: syscall_arch_init_def set_gate_idt)
  have n: "idt ?w ! v = gate_for (if v = 0x80 then int80_stub syms else if v < 48 then exception_stubs syms v else 0)
      (if v = 0x80 \<or> v = 3 then 0x8F else if v < 48 then 0x8E else 0)" if "v < 256" for v
    using that by (simp add: i nth_list_update l) (simp add: boot_gates_def nth_append mcs_consts)
  have "gate_present (idt ?w ! v) = (v < 48 \<or> v = 0x80) \<and> selector (idt ?w ! v) = 0x28 \<and> gate_dpl (idt ?w ! v) = 0 \<and>
      gate_handler (idt ?w ! v) = (if v = 0x80 then int80_stub syms else if v < 48 then exception_stubs syms v else 0) \<and>
      (gate_present (idt ?w ! v) \<longrightarrow> gate_masks (idt ?w ! v) = (v \<noteq> 3 \<and> v \<noteq> 0x80))" if "v < 256" for v
    unfolding n [OF that] gate_handler_gate_for
    by (simp add: gate_for_def gate_present_def gate_dpl_def gate_masks_def mcs_consts drop_bit_eq_div)
  then show ?thesis using w1(1) p i l by (simp add: then_do_returns step_def Let_def)
qed

theorem idt_gates_lead_to_stubs_witness:
  "\<exists>w'. then_do (x86_64_idt_init ready_line example_image) (step (syscall_arch_init example_image)) machine_at_entry
     = Some (Returns w') \<and> gate_handler (idt w' ! 14) = 0xFFFFFFFF800001E0 \<and> gate_dpl (idt w' ! 0x80) = 0 \<and> \<not> gate_present (idt w' ! 200)"
  using idt_gates_lead_to_stubs [OF machine_at_entry_ok(1,2), of ready_line example_image]
  by (auto simp: Let_def example_image_def)

text \<open>For every rate of at least 19 Hz the two bytes sent to the timer are the low and the high byte of the
  quotient of the base frequency, 1193182 Hz, by the rate. Below 19 Hz the quotient does not fit into the counter and is cut to
  16 bits, so that the timer runs faster than asked for: at 18 Hz its divisor is 751 instead of 66287. A rate of 0
  divides by zero.\<close>

theorem pit_divisor_exact:
  "(hz = 0 \<longleftrightarrow> pit_configure_hz hz w = None) \<and>
   (\<forall>w'. pit_configure_hz hz w = Some (Returns w') \<longrightarrow>
     (\<exists>lo hi. device_writes w' = device_writes w @ [(0x43, 0x36), (0x40, lo), (0x40, hi)] \<and>
        unat lo + 256 * unat hi = 1193182 div unat hz mod 65536 \<and>
        (19 \<le> hz \<longrightarrow> unat lo + 256 * unat hi = 1193182 div unat hz)))"
proof -
  let ?d = "ucast (PIT_BASE_FREQUENCY div hz) :: u16"
  have d: "unat ?d = 1193182 div unat hz mod 65536"
    by (simp add: unsigned_ucast_eq take_bit_eq_mod unat_div mcs_consts)
  have "1193182 div unat hz < 65536" if "19 \<le> hz"
    using that div_le_mono2 [of 19 "unat hz" 1193182] by (simp add: word_le_nat_alt)
  then show ?thesis unfolding pit_configure_hz_def Let_def
    using d bytes_of_u16 [of ?d] by (auto simp: mcs_consts COM1_PORT_def)
qed

theorem pit_divisor_exact_witness:
  "\<exists>w' lo hi. pit_configure_hz 100 machine_at_entry = Some (Returns w') \<and>
     device_writes w' = [(0x43, 0x36), (0x40, lo), (0x40, hi)] \<and> unat (lo :: u8) + 256 * unat (hi :: u8) = 11931"
proof -
  obtain w' where "pit_configure_hz 100 machine_at_entry = Some (Returns w')"
    by (simp add: pit_configure_hz_def Let_def)
  then show ?thesis using pit_divisor_exact [of 100 machine_at_entry] by (auto simp: device_writes_def machine_at_entry_ok)
qed

theorem trap_dispatch_outcome_witness:
  "\<exists>fr w'. x86_64_trap_dispatch ready_line (Some fr) machine_at_entry = Some (Returns w') \<and>
     device_writes w' = [(0x20, 0x20), (0x20, 0x20)] \<and> g_ticks w' = 1"
proof -
  let ?fr = "\<lparr>tf_r15 = 0, tf_r14 = 0, tf_r13 = 0, tf_r12 = 0, tf_r11 = 0, tf_r10 = 0, tf_r9 = 0, tf_r8 = 0, tf_rsi = 0, tf_rdi = 0,
    tf_rbp = 0, tf_rdx = 0, tf_rcx = 0, tf_rbx = 0, tf_rax = 0, tf_vector = 32, tf_error_code = 0, tf_rip = 0, tf_cs = 0x28,
    tf_rflags = 0x202\<rparr>"
  have "resumes 32" "is_irq 32" "eoi_writes 32 = [(0x20, 0x20), (0x20, 0x20)]"
    by (simp_all add: resumes_def is_irq_def eoi_writes_def)
  then show ?thesis using trap_dispatch_outcome [OF machine_at_entry_ok(1), of ready_line ?fr]
    by (auto simp: device_writes_def machine_at_entry_ok)
qed

theorem trap_while_printing_hangs_witness:
  "\<forall>frame. x86_64_trap_dispatch ready_line frame (machine_at_entry\<lparr>log_lock := True\<rparr>) = None"
  using trap_while_printing_hangs [of "machine_at_entry\<lparr>log_lock := True\<rparr>" ready_line] by (simp add: idle_def)

end
