(* ===== verification/Lockdep.thy ===== *)
theory Lockdep
  imports MCS_Prelude
begin

text \<open>
  \<open>kernel/sync/lockdep.c\<close>: the lock-order checker. Its state is a bounded stack of the lock
  classes a thread holds. Shown here: the stack stays strictly increasing under every sequence of
  calls, what each call answers on every branch, and the reason the checker exists, that threads
  whose acquisitions it has all accepted cannot wait for each other in a circle.
\<close>

section \<open>Data\<close>

text \<open>The status macros of \<open>include/mcs_sync.h\<close>.\<close>

datatype sync_status =
    MCS_SYNC_OK | MCS_SYNC_EINVAL | MCS_SYNC_EBUSY | MCS_SYNC_EPERM
  | MCS_SYNC_EDEADLK | MCS_SYNC_EOVERFLOW

definition MCS_LOCKDEP_MAX_HELD :: nat where
  [mcs_consts]: "MCS_LOCKDEP_MAX_HELD = 16"

record lockdep_state =
  held_class :: "u32 list"
  held_name :: "string option list"
  depth :: u32
  violation_count :: u32

section \<open>Operations\<close>

definition mcs_lockdep_init :: "lockdep_state option \<Rightarrow> lockdep_state option" where
  "mcs_lockdep_init state =
     (case state of
        None \<Rightarrow> None
      | Some s \<Rightarrow> Some (s\<lparr>held_class := fill_loop 0 (held_class s) 0 MCS_LOCKDEP_MAX_HELD,
                         held_name := fill_loop 0 (held_name s) None MCS_LOCKDEP_MAX_HELD,
                         depth := 0, violation_count := 0\<rparr>))"

definition mcs_lockdep_is_held :: "lockdep_state option \<Rightarrow> u32 \<Rightarrow> bool" where
  "mcs_lockdep_is_held state class_id =
     (case state of
        None \<Rightarrow> False
      | Some s \<Rightarrow>
          if class_id = 0 then False
          else first_index (\<lambda>i. held_class s ! i = class_id) 0
                 (min (unat (depth s)) MCS_LOCKDEP_MAX_HELD) \<noteq> None)"

definition count_violation :: "lockdep_state \<Rightarrow> lockdep_state" where
  "count_violation s = s\<lparr>violation_count := violation_count s + 1\<rparr>"

definition mcs_lockdep_before_acquire ::
  "lockdep_state option \<Rightarrow> u32 \<Rightarrow> string option \<Rightarrow> sync_status \<times> lockdep_state option" where
  "mcs_lockdep_before_acquire state class_id name =
     (case state of
        None \<Rightarrow> (MCS_SYNC_EINVAL, None)
      | Some s \<Rightarrow>
          if class_id = 0 then (MCS_SYNC_EINVAL, Some s)
          else if MCS_LOCKDEP_MAX_HELD \<le> unat (depth s) then
            (MCS_SYNC_EOVERFLOW, Some (count_violation s))
          else if first_index (\<lambda>i. held_class s ! i = class_id) 0 (unat (depth s)) \<noteq> None then
            (MCS_SYNC_EDEADLK, Some (count_violation s))
          else if 0 < depth s \<and> class_id < held_class s ! unat (depth s - 1) then
            (MCS_SYNC_EDEADLK, Some (count_violation s))
          else
            (MCS_SYNC_OK,
             Some (s\<lparr>held_class := (held_class s)[unat (depth s) := class_id],
                     held_name := (held_name s)[unat (depth s) := name],
                     depth := depth s + 1\<rparr>)))"

definition mcs_lockdep_after_release ::
  "lockdep_state option \<Rightarrow> u32 \<Rightarrow> string option \<Rightarrow> sync_status \<times> lockdep_state option" where
  "mcs_lockdep_after_release state class_id name =
     (case state of
        None \<Rightarrow> (MCS_SYNC_EINVAL, None)
      | Some s \<Rightarrow>
          if class_id = 0 then (MCS_SYNC_EINVAL, Some s)
          else if depth s = 0 then (MCS_SYNC_EPERM, Some (count_violation s))
          else
            let index = unat (depth s - 1) in
            if held_class s ! index \<noteq> class_id then
              (MCS_SYNC_EDEADLK, Some (count_violation s))
            else
              (MCS_SYNC_OK,
               Some (s\<lparr>held_class := (held_class s)[index := 0],
                       held_name := (held_name s)[index := None],
                       depth := depth s - 1\<rparr>)))"

section \<open>Abstraction and invariant\<close>

text \<open>The classes held, oldest first; the entries of the arrays above \<open>depth\<close> are not part of it.\<close>

definition held :: "lockdep_state \<Rightarrow> u32 list" where
  "held s = take (unat (depth s)) (held_class s)"

definition lockdep_wf :: "lockdep_state \<Rightarrow> bool" where
  "lockdep_wf s \<longleftrightarrow>
     length (held_class s) = MCS_LOCKDEP_MAX_HELD \<and> length (held_name s) = MCS_LOCKDEP_MAX_HELD \<and>
     unat (depth s) \<le> MCS_LOCKDEP_MAX_HELD \<and> sorted_wrt (<) (held s) \<and> 0 \<notin> set (held s)"

text \<open>What a caller sees of an acquisition: the new state when it was accepted.\<close>

definition lockdep_acquire :: "lockdep_state \<Rightarrow> u32 \<Rightarrow> lockdep_state option" where
  "lockdep_acquire s c =
     (case mcs_lockdep_before_acquire (Some s) c None of
        (MCS_SYNC_OK, s') \<Rightarrow> s' | _ \<Rightarrow> None)"

text \<open>Any sequence of calls.\<close>

datatype lockdep_call = Acquire u32 "string option" | Release u32 "string option" | Reset

definition lockdep_step :: "lockdep_state \<Rightarrow> lockdep_call \<Rightarrow> lockdep_state" where
  "lockdep_step s call =
     the (case call of
            Acquire c n \<Rightarrow> snd (mcs_lockdep_before_acquire (Some s) c n)
          | Release c n \<Rightarrow> snd (mcs_lockdep_after_release (Some s) c n)
          | Reset \<Rightarrow> mcs_lockdep_init (Some s))"

text \<open>The zeroed state of a statically allocated checker.\<close>

definition lockdep_boot :: lockdep_state where
  "lockdep_boot = \<lparr>held_class = replicate 16 0, held_name = replicate 16 None, depth = 0,
                   violation_count = 0\<rparr>"

section \<open>The interface a lock client relies on\<close>

text \<open>
  A checker promises that it accepts a class only above every class held, and then puts it on top.
  That promise alone rules out circular waiting.
\<close>

locale lock_order =
  fixes wf :: "'s \<Rightarrow> bool"
    and holds :: "'s \<Rightarrow> 'c::linorder list"
    and acquire :: "'s \<Rightarrow> 'c \<Rightarrow> 's option"
  assumes acquire_above: "wf s \<Longrightarrow> acquire s c = Some s' \<Longrightarrow> h \<in> set (holds s) \<Longrightarrow> h < c"
    and acquire_push: "wf s \<Longrightarrow> acquire s c = Some s' \<Longrightarrow> holds s' = holds s @ [c]"
    and acquire_wf: "wf s \<Longrightarrow> acquire s c = Some s' \<Longrightarrow> wf s'"
begin

text \<open>In a ring of threads, each allowed to ask for the class \<open>want i\<close>, some thread asks for a
  class that the next one does not hold.\<close>

lemma no_circular_wait:
  fixes n :: nat
  assumes n: "0 < n"
    and wf: "\<And>i. i < n \<Longrightarrow> wf (st i)"
    and ok: "\<And>i. i < n \<Longrightarrow> acquire (st i) (want i) \<noteq> None"
  shows "\<exists>i<n. want i \<notin> set (holds (st (Suc i mod n)))"
proof (rule ccontr)
  assume neg: "\<not> ?thesis"
  have step: "want i < want (Suc i mod n)" if "i < n" for i
  proof -
    have j: "Suc i mod n < n" using n by simp
    from ok [OF j] obtain s' where "acquire (st (Suc i mod n)) (want (Suc i mod n)) = Some s'"
      by auto
    with wf [OF j] neg that show ?thesis by (blast intro: acquire_above)
  qed
  have "Max (want ` {..<n}) \<in> want ` {..<n}" using n by (intro Max_in) auto
  then obtain m where m: "m < n" "want m = Max (want ` {..<n})" by auto
  have "want (Suc m mod n) \<le> want m" using m n by simp
  with step [OF m(1)] show False by simp
qed

end

section \<open>Lemmas\<close>

lemma held_nth: "lockdep_wf s \<Longrightarrow> i < unat (depth s) \<Longrightarrow> held s ! i = held_class s ! i"
  by (simp add: held_def)

lemma length_held: "lockdep_wf s \<Longrightarrow> length (held s) = unat (depth s)"
  by (simp add: held_def lockdep_wf_def)

lemma scan_held:
  assumes "lockdep_wf s"
  shows "first_index (\<lambda>i. held_class s ! i = c) 0 (unat (depth s)) \<noteq> None \<longleftrightarrow> c \<in> set (held s)"
proof -
  have "first_index (\<lambda>i. held_class s ! i = c) 0 (unat (depth s)) = None \<longleftrightarrow> c \<notin> set (held s)"
    using assms by (auto simp: first_index_None_iff in_set_conv_nth held_nth length_held)
  then show ?thesis by metis
qed

lemma unat_depth_dec: "0 < depth s \<Longrightarrow> unat (depth s - 1) = unat (depth s) - 1"
  by (metis unat_minus_one word_greater_zero_iff)

lemma depth_pos_iff: "0 < depth s \<longleftrightarrow> 0 < unat (depth s)"
  by (metis unat_gt_0 word_greater_zero_iff)

lemma held_top:
  assumes "lockdep_wf s" "0 < depth s"
  shows "held s \<noteq> []" "held_class s ! unat (depth s - 1) = last (held s)"
proof -
  have n: "0 < unat (depth s)" using assms by (simp add: depth_pos_iff)
  then show "held s \<noteq> []" using length_held [OF assms(1)] by auto
  then show "held_class s ! unat (depth s - 1) = last (held s)"
    using n assms by (simp add: unat_depth_dec last_conv_nth length_held held_nth)
qed

text \<open>On a well-formed stack the two order tests together say: above everything held.\<close>

lemma order_tests:
  assumes "lockdep_wf s"
  shows "(c \<notin> set (held s) \<and> \<not> (0 < depth s \<and> c < held_class s ! unat (depth s - 1))) \<longleftrightarrow>
         (\<forall>h \<in> set (held s). h < c)"
proof (cases "0 < depth s")
  case True
  note t = held_top [OF assms True]
  have h: "held s = butlast (held s) @ [last (held s)]" using t(1) by simp
  moreover have "sorted_wrt (<) (butlast (held s) @ [last (held s)])"
    using assms h by (simp add: lockdep_wf_def)
  ultimately have top: "h \<le> last (held s)" if "h \<in> set (held s)" for h
    using that by (metis UnE le_less set_append set_ConsD empty_iff list.set(1) list.set_intros(1)
        sorted_wrt_append)
  have l: "last (held s) \<in> set (held s)" using t(1) by simp
  have "(\<forall>h \<in> set (held s). h < c) \<longleftrightarrow> last (held s) < c"
    using l top by (meson le_less_trans)
  moreover have "c \<notin> set (held s) \<and> \<not> c < last (held s) \<longleftrightarrow> last (held s) < c"
  proof
    assume "c \<notin> set (held s) \<and> \<not> c < last (held s)"
    with l show "last (held s) < c" by (metis not_less_iff_gr_or_eq)
  next
    assume "last (held s) < c"
    then show "c \<notin> set (held s) \<and> \<not> c < last (held s)" by (auto dest: top)
  qed
  ultimately show ?thesis using True t(2) by simp
next
  case False
  then have "held s = []" by (simp add: held_def depth_pos_iff)
  with False show ?thesis by simp
qed


lemma unat_depth_inc: "lockdep_wf s \<Longrightarrow> unat (depth s + 1) = Suc (unat (depth s))"
  by (auto simp: lockdep_wf_def mcs_consts unat_plus_if')

lemma held_push:
  assumes "lockdep_wf s" "unat (depth s) < MCS_LOCKDEP_MAX_HELD"
  shows "held (s\<lparr>held_class := (held_class s)[unat (depth s) := c],
                 held_name := (held_name s)[unat (depth s) := n], depth := depth s + 1\<rparr>)
         = held s @ [c]"
  using assms unat_depth_inc [OF assms(1)]
  by (simp add: held_def lockdep_wf_def take_Suc_conv_app_nth)

lemma held_pop:
  assumes "lockdep_wf s" "0 < depth s"
  shows "held (s\<lparr>held_class := (held_class s)[unat (depth s - 1) := 0],
                 held_name := (held_name s)[unat (depth s - 1) := None], depth := depth s - 1\<rparr>)
         = butlast (held s)"
  using assms by (simp add: held_def unat_depth_dec butlast_take lockdep_wf_def)

lemma held_count_violation [simp]: "held (count_violation s) = held s"
  by (simp add: held_def count_violation_def)

lemma wf_count_violation [simp]: "lockdep_wf (count_violation s) = lockdep_wf s"
  by (simp add: lockdep_wf_def held_def count_violation_def)

text \<open>The acceptance test and the state it leaves, over the held stack.\<close>

lemma before_acquire_cases:
  assumes wf: "lockdep_wf s" and c: "c \<noteq> 0"
  obtains
    (full) "length (held s) = MCS_LOCKDEP_MAX_HELD"
      "mcs_lockdep_before_acquire (Some s) c n = (MCS_SYNC_EOVERFLOW, Some (count_violation s))"
  | (order) "length (held s) < MCS_LOCKDEP_MAX_HELD" "\<not> (\<forall>h \<in> set (held s). h < c)"
      "mcs_lockdep_before_acquire (Some s) c n = (MCS_SYNC_EDEADLK, Some (count_violation s))"
  | (accept) s' where "length (held s) < MCS_LOCKDEP_MAX_HELD" "\<forall>h \<in> set (held s). h < c"
      "mcs_lockdep_before_acquire (Some s) c n = (MCS_SYNC_OK, Some s')"
      "held s' = held s @ [c]" "lockdep_wf s'" "violation_count s' = violation_count s"
proof -
  let ?s' = "s\<lparr>held_class := (held_class s)[unat (depth s) := c],
               held_name := (held_name s)[unat (depth s) := n], depth := depth s + 1\<rparr>"
  have len: "length (held s) = unat (depth s)" using wf by (rule length_held)
  have bound: "unat (depth s) \<le> MCS_LOCKDEP_MAX_HELD" using wf by (simp add: lockdep_wf_def)
  note tests = scan_held [OF wf, of c] order_tests [OF wf, of c]
  consider "unat (depth s) = MCS_LOCKDEP_MAX_HELD"
    | "unat (depth s) < MCS_LOCKDEP_MAX_HELD" "\<not> (\<forall>h \<in> set (held s). h < c)"
    | "unat (depth s) < MCS_LOCKDEP_MAX_HELD" "\<forall>h \<in> set (held s). h < c"
    using bound by linarith
  then show thesis
  proof cases
    case 1
    then show thesis
      using c len by (intro full) (simp_all add: mcs_lockdep_before_acquire_def)
  next
    case 2
    then have "mcs_lockdep_before_acquire (Some s) c n = (MCS_SYNC_EDEADLK, Some (count_violation s))"
      using c tests unfolding mcs_lockdep_before_acquire_def by auto
    with 2 len show thesis by (intro order) simp_all
  next
    case 3
    then have ok: "mcs_lockdep_before_acquire (Some s) c n = (MCS_SYNC_OK, Some ?s')"
      using c tests unfolding mcs_lockdep_before_acquire_def by auto
    have push: "held ?s' = held s @ [c]" using wf 3(1) by (rule held_push)
    then have "lockdep_wf ?s'"
      using wf 3 c unat_depth_inc [OF wf]
      by (auto simp: lockdep_wf_def sorted_wrt_append simp del: held_def)
    with 3 len ok push show thesis by (intro accept [of ?s']) simp_all
  qed
qed

lemma after_release_cases:
  assumes wf: "lockdep_wf s" and c: "c \<noteq> 0"
  obtains
    (none) "held s = []"
      "mcs_lockdep_after_release (Some s) c n = (MCS_SYNC_EPERM, Some (count_violation s))"
  | (wrong) "held s \<noteq> []" "last (held s) \<noteq> c"
      "mcs_lockdep_after_release (Some s) c n = (MCS_SYNC_EDEADLK, Some (count_violation s))"
  | (pop) s' where "held s \<noteq> []" "last (held s) = c"
      "mcs_lockdep_after_release (Some s) c n = (MCS_SYNC_OK, Some s')"
      "held s' = butlast (held s)" "lockdep_wf s'" "violation_count s' = violation_count s"
proof (cases "0 < depth s")
  case False
  then have "depth s = 0" by (simp add: word_greater_zero_iff)
  then show thesis
    using c by (intro none) (simp_all add: mcs_lockdep_after_release_def held_def)
next
  case True
  let ?s' = "s\<lparr>held_class := (held_class s)[unat (depth s - 1) := 0],
               held_name := (held_name s)[unat (depth s - 1) := None], depth := depth s - 1\<rparr>"
  note t = held_top [OF wf True]
  have nz: "depth s \<noteq> 0" using True by auto
  show thesis
  proof (cases "last (held s) = c")
    case False
    with c nz t show thesis
      by (intro wrong) (simp_all add: mcs_lockdep_after_release_def Let_def)
  next
    case eq: True
    have ok: "mcs_lockdep_after_release (Some s) c n = (MCS_SYNC_OK, Some ?s')"
      using c nz t eq by (simp add: mcs_lockdep_after_release_def Let_def)
    have pop: "held ?s' = butlast (held s)" using wf True by (rule held_pop)
    have "sorted_wrt (<) (butlast (held s))"
      using wf by (metis append_butlast_last_id butlast.simps(1) lockdep_wf_def sorted_wrt_append)
    moreover have "0 \<notin> set (butlast (held s))"
      using wf by (auto simp: lockdep_wf_def dest: in_set_butlastD)
    ultimately have "lockdep_wf ?s'"
      using wf True unfolding lockdep_wf_def pop by (simp add: unat_depth_dec) linarith
    with t eq ok pop show thesis by (intro that(3) [of ?s']) simp_all
  qed
qed

lemma lockdep_init_wf:
  assumes "length (held_class s) = MCS_LOCKDEP_MAX_HELD" "length (held_name s) = MCS_LOCKDEP_MAX_HELD"
  shows "lockdep_wf (the (mcs_lockdep_init (Some s)))" "held (the (mcs_lockdep_init (Some s))) = []"
  using assms by (simp_all add: mcs_lockdep_init_def lockdep_wf_def held_def)

lemma lockdep_step_wf: "lockdep_wf s \<Longrightarrow> lockdep_wf (lockdep_step s call)"
proof (cases call)
  case (Acquire c n)
  assume wf: "lockdep_wf s"
  show ?thesis
  proof (cases "c = 0")
    case True
    with wf Acquire show ?thesis by (simp add: lockdep_step_def mcs_lockdep_before_acquire_def)
  next
    case False
    with wf show ?thesis
      by (cases rule: before_acquire_cases [where n = n]) (simp_all add: lockdep_step_def Acquire wf)
  qed
next
  case (Release c n)
  assume wf: "lockdep_wf s"
  show ?thesis
  proof (cases "c = 0")
    case True
    with wf Release show ?thesis by (simp add: lockdep_step_def mcs_lockdep_after_release_def)
  next
    case False
    with wf show ?thesis
      by (cases rule: after_release_cases [where n = n]) (simp_all add: lockdep_step_def Release wf)
  qed
next
  case Reset
  assume "lockdep_wf s"
  then have "lockdep_wf (the (mcs_lockdep_init (Some s)))"
    by (intro lockdep_init_wf) (simp_all add: lockdep_wf_def)
  with Reset show ?thesis by (simp add: lockdep_step_def)
qed

lemma lockdep_acquire_Some:
  assumes "lockdep_wf s" "lockdep_acquire s c = Some s'"
  shows "(\<forall>h \<in> set (held s). h < c) \<and> held s' = held s @ [c] \<and> lockdep_wf s'"
proof -
  have c: "c \<noteq> 0" using assms(2)
    by (auto simp: lockdep_acquire_def mcs_lockdep_before_acquire_def)
  show ?thesis
    using assms(1) c
    by (cases rule: before_acquire_cases [where n = None])
       (use assms(2) in \<open>simp_all add: lockdep_acquire_def\<close>)
qed

interpretation lockdep: lock_order lockdep_wf held lockdep_acquire
  by unfold_locales (use lockdep_acquire_Some in blast)+

section \<open>Properties\<close>

text \<open>C11: Acquisitions accepted by the checker never form a circular wait. For any ring of threads, each
  with a well-formed checker state that answers \<open>MCS_SYNC_OK\<close> to the class the thread asks for, some
  thread asks for a class that its successor in the ring does not hold.\<close>

theorem lockdep_no_circular_wait:
  assumes "0 < n"
    and "\<And>i. i < n \<Longrightarrow> lockdep_wf (st i)"
    and "\<And>i. i < n \<Longrightarrow> fst (mcs_lockdep_before_acquire (Some (st i)) (want i) None) = MCS_SYNC_OK"
  shows "\<exists>i<n. want i \<notin> set (held (st (Suc i mod n)))"
proof (rule lockdep.no_circular_wait [OF assms(1,2)])
  fix i assume i: "i < n"
  show "lockdep_acquire (st i) (want i) \<noteq> None"
  proof (cases "want i = 0")
    case True
    with assms(3) [OF i] show ?thesis by (simp add: mcs_lockdep_before_acquire_def)
  next
    case False
    with assms(2) [OF i] show ?thesis
      by (cases rule: before_acquire_cases [where n = None])
         (use assms(3) [OF i] in \<open>simp_all add: lockdep_acquire_def\<close>)
  qed
qed

lemma lockdep_boot_wf: "lockdep_wf lockdep_boot" "held lockdep_boot = []"
  by (simp_all add: lockdep_boot_def lockdep_wf_def held_def mcs_consts)

definition lockdep_holding :: "u32 \<Rightarrow> lockdep_state" where
  "lockdep_holding c = the (snd (mcs_lockdep_before_acquire (Some lockdep_boot) c None))"

lemma take_first: "take (Suc 0) ((replicate 16 x)[0 := y]) = [y]"
  by (simp add: numeral_eq_Suc)

lemma lockdep_holding_facts:
  "lockdep_wf (lockdep_holding 10)" "lockdep_wf (lockdep_holding 20)" "held (lockdep_holding 10) = [10]" "held (lockdep_holding 20) = [20]"
  "fst (mcs_lockdep_before_acquire (Some (lockdep_holding 10)) 20 None) = MCS_SYNC_OK"
  "fst (mcs_lockdep_before_acquire (Some (lockdep_holding 20)) 30 None) = MCS_SYNC_OK"
  by (simp_all add: lockdep_holding_def mcs_lockdep_before_acquire_def lockdep_boot_def lockdep_wf_def held_def mcs_consts
    first_index.simps take_first)

text \<open>A ring of two: the first thread holds class 10 and waits for 20, the second holds 20 and asks for 30.\<close>

theorem lockdep_no_circular_wait_witness:
  "\<exists>i<2. [20, 30] ! i \<notin> set (held ([lockdep_holding 10, lockdep_holding 20] ! (Suc i mod 2)))"
  by (rule lockdep_no_circular_wait [of 2 "\<lambda>i. [lockdep_holding 10, lockdep_holding 20] ! i" "\<lambda>i. [20, 30] ! i"])
     (auto simp: less_2_cases_iff lockdep_holding_facts)

text \<open>The checker's whole decision on a well-formed state: it accepts exactly when there is room
  and the class is above every class held, pushing the class and leaving the violation counter; it
  refuses otherwise, changing nothing but the counter, which goes up by one. A release of the class
  just accepted restores the held stack.\<close>

theorem lockdep_acquire_decision:
  assumes "lockdep_wf s" and "c \<noteq> 0"
  shows "\<exists>st s'. mcs_lockdep_before_acquire (Some s) c n = (st, Some s') \<and>
     (if length (held s) < MCS_LOCKDEP_MAX_HELD \<and> (\<forall>h \<in> set (held s). h < c)
      then st = MCS_SYNC_OK \<and> held s' = held s @ [c] \<and> violation_count s' = violation_count s \<and>
           (\<exists>s''. mcs_lockdep_after_release (Some s') c n = (MCS_SYNC_OK, Some s'') \<and>
                  held s'' = held s)
      else st \<in> {MCS_SYNC_EOVERFLOW, MCS_SYNC_EDEADLK} \<and>
           s' = s\<lparr>violation_count := violation_count s + 1\<rparr>)"
  using assms
proof (cases rule: before_acquire_cases [where n = n])
  case (accept s')
  from accept(5) assms(2)
  obtain s'' where "mcs_lockdep_after_release (Some s') c n = (MCS_SYNC_OK, Some s'')" "held s'' = held s"
    by (cases rule: after_release_cases [where n = n]) (use accept(4) in auto)
  with accept show ?thesis by simp
qed (auto simp: count_violation_def)

theorem lockdep_acquire_decision_witness:
  "\<exists>st s'. mcs_lockdep_before_acquire (Some lockdep_boot) 10 None = (st, Some s') \<and>
     st = MCS_SYNC_OK \<and> held s' = [10]"
  using lockdep_acquire_decision [OF lockdep_boot_wf(1), of 10 None]
  by (simp add: lockdep_boot_wf mcs_consts) blast

text \<open>No sequence of calls breaks the checker: from an initialised state, any mix of acquisitions,
  releases and re-initialisations leaves the held classes strictly increasing, non-zero and at most
  sixteen.\<close>

theorem lockdep_calls_keep_order:
  assumes "length (held_class s) = 16" "length (held_name s) = 16"
  shows "lockdep_wf (foldl lockdep_step (the (mcs_lockdep_init (Some s))) calls)"
proof -
  have "lockdep_wf s' \<Longrightarrow> lockdep_wf (foldl lockdep_step s' calls)" for s'
    by (induction calls arbitrary: s') (simp_all add: lockdep_step_wf)
  moreover have "lockdep_wf (the (mcs_lockdep_init (Some s)))"
    using assms by (intro lockdep_init_wf) (simp_all add: mcs_consts)
  ultimately show ?thesis by simp
qed

theorem lockdep_calls_keep_order_witness:
  "lockdep_wf (foldl lockdep_step (the (mcs_lockdep_init (Some lockdep_boot)))
     [Acquire 10 None, Acquire 5 None, Release 7 None, Release 10 None])"
  by (rule lockdep_calls_keep_order) (simp_all add: lockdep_boot_def)

end
