(* ===== verification/Locks.thy ===== *)
theory Locks
  imports Lockdep
begin

text \<open>
  \<open>kernel/sync/spinlock.c\<close> and \<open>kernel/sync/mutex.c\<close>. Every function is a definition on the
  lock object; every atomic builtin is one access to it. Because the functions are meant to be run by
  several threads at once, the theory also gives them as step relations, one step per atomic access,
  with any interleaving of any number of threads. Accesses are taken to be sequentially consistent:
  the acquire and release orderings of the source are not weakened further.

  Shown: mutual exclusion for both locks under every interleaving; that the mutex answers
  \<open>MCS_SYNC_EPERM\<close> exactly to threads that do not own it and \<open>MCS_SYNC_EDEADLK\<close> exactly to the one that
  does; and that an uninterrupted run of the steps is the function.
\<close>

section \<open>Spinlock\<close>

record spinlock =
  spin_locked :: u32
  spin_class_id :: u32
  spin_name :: "string option"

definition mcs_spin_init :: "spinlock option \<Rightarrow> u32 \<Rightarrow> string option \<Rightarrow> spinlock option" where
  "mcs_spin_init lock class_id name =
     (case lock of None \<Rightarrow> None
      | Some l \<Rightarrow> Some (l\<lparr>spin_locked := 0, spin_class_id := class_id, spin_name := name\<rparr>))"

definition mcs_spin_try_lock :: "spinlock option \<Rightarrow> bool \<times> spinlock option" where
  "mcs_spin_try_lock lock =
     (case lock of None \<Rightarrow> (False, None)
      | Some l \<Rightarrow> (spin_locked l = 0, Some (l\<lparr>spin_locked := 1\<rparr>)))"

definition mcs_spin_unlock :: "spinlock option \<Rightarrow> spinlock option" where
  "mcs_spin_unlock lock =
     (case lock of None \<Rightarrow> None | Some l \<Rightarrow> Some (l\<lparr>spin_locked := 0\<rparr>))"

definition mcs_spin_is_locked :: "spinlock option \<Rightarrow> bool" where
  "mcs_spin_is_locked lock = (case lock of None \<Rightarrow> False | Some l \<Rightarrow> spin_locked l \<noteq> 0)"

text \<open>
  \<open>mcs_spin_lock\<close> spins, so it is a loop over what the other threads do between two accesses:
  the \<open>k\<close>-th access finds the lock in the state \<open>env k\<close> of the environment. \<open>None\<close> is "still spinning";
  the result is the number of accesses made and the lock acquired. The outer loop tries, the inner one waits.
\<close>

fun mcs_spin_lock_within :: "nat \<Rightarrow> bool \<Rightarrow> nat \<Rightarrow> (nat \<Rightarrow> spinlock) \<Rightarrow> (nat \<times> spinlock) option" where
  "mcs_spin_lock_within 0 trying k env = None"
| "mcs_spin_lock_within (Suc fuel) trying k env =
     (if trying then
        (case mcs_spin_try_lock (Some (env k)) of
           (True, l) \<Rightarrow> Some (Suc k, the l)
         | (False, _) \<Rightarrow> mcs_spin_lock_within fuel False (Suc k) env)
      else if mcs_spin_is_locked (Some (env k)) then mcs_spin_lock_within fuel False (Suc k) env
      else mcs_spin_lock_within fuel True (Suc k) env)"

text \<open>One thread of the spinlock protocol: outside, at the exchange of \<open>mcs_spin_try_lock\<close>, in the
  inner waiting loop of \<open>mcs_spin_lock\<close>, or inside the section the lock protects.\<close>

datatype spin_pc = Spin_out | Spin_try | Spin_wait | Spin_in

record spin_sys =
  the_spin :: spinlock
  spin_pcs :: "nat \<Rightarrow> spin_pc"

inductive spin_step :: "spin_sys \<Rightarrow> spin_sys \<Rightarrow> bool" where
  spin_call: "spin_pcs s t = Spin_out \<Longrightarrow> spin_step s (s\<lparr>spin_pcs := (spin_pcs s)(t := Spin_try)\<rparr>)"
| spin_exchange: "spin_pcs s t = Spin_try \<Longrightarrow> mcs_spin_try_lock (Some (the_spin s)) = (got, Some l) \<Longrightarrow>
     spin_step s (s\<lparr>the_spin := l, spin_pcs := (spin_pcs s)(t := if got then Spin_in else Spin_wait)\<rparr>)"
| spin_load: "spin_pcs s t = Spin_wait \<Longrightarrow>
     spin_step s (s\<lparr>spin_pcs := (spin_pcs s)
       (t := if mcs_spin_is_locked (Some (the_spin s)) then Spin_wait else Spin_try)\<rparr>)"
| spin_release: "spin_pcs s t = Spin_in \<Longrightarrow>
     spin_step s (s\<lparr>the_spin := the (mcs_spin_unlock (Some (the_spin s))),
                    spin_pcs := (spin_pcs s)(t := Spin_out)\<rparr>)"

inductive spin_reach :: "spinlock \<Rightarrow> spin_sys \<Rightarrow> bool" for l where
  spin_start: "mcs_spin_init (Some l) c n = Some l' \<Longrightarrow>
     spin_reach l \<lparr>the_spin = l', spin_pcs = (\<lambda>_. Spin_out)\<rparr>"
| spin_more: "spin_reach l s \<Longrightarrow> spin_step s s' \<Longrightarrow> spin_reach l s'"

definition spin_inv :: "spin_sys \<Rightarrow> bool" where
  "spin_inv s \<longleftrightarrow>
     (spin_locked (the_spin s) \<noteq> 0 \<longleftrightarrow> (\<exists>t. spin_pcs s t = Spin_in)) \<and>
     (\<forall>t u. spin_pcs s t = Spin_in \<longrightarrow> spin_pcs s u = Spin_in \<longrightarrow> t = u)"

section \<open>Mutex\<close>

record mutex =
  mtx_locked :: u32
  mtx_owner :: u64
  mtx_class_id :: u32
  mtx_name :: "string option"

definition mcs_mutex_init :: "mutex option \<Rightarrow> u32 \<Rightarrow> string option \<Rightarrow> mutex option" where
  "mcs_mutex_init mutex class_id name =
     (case mutex of None \<Rightarrow> None
      | Some m \<Rightarrow> Some (m\<lparr>mtx_locked := 0, mtx_owner := 0, mtx_class_id := class_id,
                         mtx_name := name\<rparr>))"

definition mcs_mutex_try_lock :: "mutex option \<Rightarrow> u64 \<Rightarrow> sync_status \<times> mutex option" where
  "mcs_mutex_try_lock mutex owner_id =
     (case mutex of None \<Rightarrow> (MCS_SYNC_EINVAL, None)
      | Some m \<Rightarrow>
          if owner_id = 0 then (MCS_SYNC_EINVAL, Some m)
          else if mtx_locked m \<noteq> 0 then
            (if mtx_owner m = owner_id then (MCS_SYNC_EDEADLK, Some m) else (MCS_SYNC_EBUSY, Some m))
          else (MCS_SYNC_OK, Some (m\<lparr>mtx_locked := 1, mtx_owner := owner_id\<rparr>)))"

definition mcs_mutex_unlock :: "mutex option \<Rightarrow> u64 \<Rightarrow> sync_status \<times> mutex option" where
  "mcs_mutex_unlock mutex owner_id =
     (case mutex of None \<Rightarrow> (MCS_SYNC_EINVAL, None)
      | Some m \<Rightarrow>
          if owner_id = 0 then (MCS_SYNC_EINVAL, Some m)
          else if mtx_owner m \<noteq> owner_id then (MCS_SYNC_EPERM, Some m)
          else (MCS_SYNC_OK, Some (m\<lparr>mtx_owner := 0, mtx_locked := 0\<rparr>)))"

definition mcs_mutex_is_locked :: "mutex option \<Rightarrow> bool" where
  "mcs_mutex_is_locked mutex = (case mutex of None \<Rightarrow> False | Some m \<Rightarrow> mtx_locked m \<noteq> 0)"

definition mcs_mutex_owner :: "mutex option \<Rightarrow> u64" where
  "mcs_mutex_owner mutex = (case mutex of None \<Rightarrow> 0 | Some m \<Rightarrow> mtx_owner m)"

text \<open>
  The same two functions, one step per atomic access. A thread is its non-zero \<open>owner_id\<close>. It may call
  \<open>mcs_mutex_try_lock\<close> or \<open>mcs_mutex_unlock\<close> at any moment it is not inside a call, whether it owns
  the mutex or not. \<open>results\<close> is the status of each thread's last call; \<open>inside\<close> records, for the
  statements only, which threads have been told \<open>MCS_SYNC_OK\<close> by a lock call and have not yet given
  the mutex back.
\<close>

datatype mutex_pc =
    At_rest
  | Try_cas | Try_load_owner | Try_store_owner
  | Unlock_load_owner | Unlock_store_owner | Unlock_store_locked

record mutex_sys =
  the_mutex :: mutex
  mutex_pcs :: "u64 \<Rightarrow> mutex_pc"
  results :: "u64 \<Rightarrow> sync_status option"
  inside :: "u64 \<Rightarrow> bool"

definition goto_pc :: "u64 \<Rightarrow> mutex_pc \<Rightarrow> mutex_sys \<Rightarrow> mutex_sys" where
  "goto_pc t p s = s\<lparr>mutex_pcs := (mutex_pcs s)(t := p)\<rparr>"

definition return_with :: "u64 \<Rightarrow> sync_status \<Rightarrow> mutex_sys \<Rightarrow> mutex_sys" where
  "return_with t st s = (goto_pc t At_rest s)\<lparr>results := (results s)(t := Some st)\<rparr>"

inductive mutex_step :: "u64 \<Rightarrow> mutex_sys \<Rightarrow> mutex_sys \<Rightarrow> bool" for t where
  call_try_lock: "t \<noteq> 0 \<Longrightarrow> mutex_pcs s t = At_rest \<Longrightarrow> mutex_step t s (goto_pc t Try_cas s)"
| cas_success: "mutex_pcs s t = Try_cas \<Longrightarrow> mtx_locked (the_mutex s) = 0 \<Longrightarrow>
     mutex_step t s (goto_pc t Try_store_owner (s\<lparr>the_mutex := (the_mutex s)\<lparr>mtx_locked := 1\<rparr>\<rparr>))"
| cas_failure: "mutex_pcs s t = Try_cas \<Longrightarrow> mtx_locked (the_mutex s) \<noteq> 0 \<Longrightarrow>
     mutex_step t s (goto_pc t Try_load_owner s)"
| try_own: "mutex_pcs s t = Try_load_owner \<Longrightarrow> mtx_owner (the_mutex s) = t \<Longrightarrow>
     mutex_step t s (return_with t MCS_SYNC_EDEADLK s)"
| try_busy: "mutex_pcs s t = Try_load_owner \<Longrightarrow> mtx_owner (the_mutex s) \<noteq> t \<Longrightarrow>
     mutex_step t s (return_with t MCS_SYNC_EBUSY s)"
| try_store: "mutex_pcs s t = Try_store_owner \<Longrightarrow>
     mutex_step t s (return_with t MCS_SYNC_OK
       (s\<lparr>the_mutex := (the_mutex s)\<lparr>mtx_owner := t\<rparr>, inside := (inside s)(t := True)\<rparr>))"
| call_unlock: "t \<noteq> 0 \<Longrightarrow> mutex_pcs s t = At_rest \<Longrightarrow> mutex_step t s (goto_pc t Unlock_load_owner s)"
| unlock_refused: "mutex_pcs s t = Unlock_load_owner \<Longrightarrow> mtx_owner (the_mutex s) \<noteq> t \<Longrightarrow>
     mutex_step t s (return_with t MCS_SYNC_EPERM s)"
| unlock_checked: "mutex_pcs s t = Unlock_load_owner \<Longrightarrow> mtx_owner (the_mutex s) = t \<Longrightarrow>
     mutex_step t s (goto_pc t Unlock_store_owner s)"
| unlock_owner: "mutex_pcs s t = Unlock_store_owner \<Longrightarrow>
     mutex_step t s (goto_pc t Unlock_store_locked
       (s\<lparr>the_mutex := (the_mutex s)\<lparr>mtx_owner := 0\<rparr>, inside := (inside s)(t := False)\<rparr>))"
| unlock_release: "mutex_pcs s t = Unlock_store_locked \<Longrightarrow>
     mutex_step t s (return_with t MCS_SYNC_OK (s\<lparr>the_mutex := (the_mutex s)\<lparr>mtx_locked := 0\<rparr>\<rparr>))"

definition mutex_boot :: "mutex \<Rightarrow> mutex_sys" where
  "mutex_boot m = \<lparr>the_mutex = m, mutex_pcs = (\<lambda>_. At_rest), results = (\<lambda>_. None),
                   inside = (\<lambda>_. False)\<rparr>"

inductive mutex_reach :: "mutex_sys \<Rightarrow> bool" where
  mutex_start: "mcs_mutex_init (Some m) c n = Some m' \<Longrightarrow> mutex_reach (mutex_boot m')"
| mutex_more: "mutex_reach s \<Longrightarrow> mutex_step t s s' \<Longrightarrow> mutex_reach s'"

text \<open>The invariant names the one thread, if any, that is between its successful compare-exchange and
  its store of 0 to \<open>locked\<close>; every other thread is in a part of the code that writes nothing.\<close>

definition quiet_pc :: "mutex_pc \<Rightarrow> bool" where
  "quiet_pc p \<longleftrightarrow> p \<in> {At_rest, Try_cas, Try_load_owner, Unlock_load_owner}"

definition quiet :: "mutex_sys \<Rightarrow> u64 \<Rightarrow> bool" where
  "quiet s t \<longleftrightarrow> quiet_pc (mutex_pcs s t) \<and> \<not> inside s t"

definition mutex_free_inv :: "mutex_sys \<Rightarrow> bool" where
  "mutex_free_inv s \<longleftrightarrow>
     mtx_locked (the_mutex s) = 0 \<and> mtx_owner (the_mutex s) = 0 \<and> (\<forall>t. quiet s t)"

definition mutex_taken_inv :: "mutex_sys \<Rightarrow> u64 \<Rightarrow> bool" where
  "mutex_taken_inv s x \<longleftrightarrow>
     mtx_locked (the_mutex s) \<noteq> 0 \<and> x \<noteq> 0 \<and> (\<forall>t. t \<noteq> x \<longrightarrow> quiet s t) \<and>
     (if inside s x
      then mtx_owner (the_mutex s) = x \<and> mutex_pcs s x \<notin> {Try_store_owner, Unlock_store_locked}
      else mtx_owner (the_mutex s) = 0 \<and> mutex_pcs s x \<in> {Try_store_owner, Unlock_store_locked})"

definition mutex_inv :: "mutex_sys \<Rightarrow> bool" where
  "mutex_inv s \<longleftrightarrow> mutex_pcs s 0 = At_rest \<and> (mutex_free_inv s \<or> (\<exists>x. mutex_taken_inv s x))"

text \<open>Zeroed lock objects.\<close>

definition spin_zero :: spinlock where
  "spin_zero = \<lparr>spin_locked = 0, spin_class_id = 0, spin_name = None\<rparr>"

definition mutex_zero :: mutex where
  "mutex_zero = \<lparr>mtx_locked = 0, mtx_owner = 0, mtx_class_id = 0, mtx_name = None\<rparr>"

section \<open>Lemmas\<close>

lemma spin_inv_frame:
  assumes "spin_inv s" "spin_pcs s t \<noteq> Spin_in" "p \<noteq> Spin_in"
    and "spin_locked l = 0 \<longleftrightarrow> spin_locked (the_spin s) = 0"
  shows "spin_inv (s\<lparr>the_spin := l, spin_pcs := (spin_pcs s)(t := p)\<rparr>)"
proof -
  have "((spin_pcs s)(t := p)) u = Spin_in \<longleftrightarrow> spin_pcs s u = Spin_in" for u
    using assms(2,3) by simp
  with assms(1,4) show ?thesis by (simp add: spin_inv_def del: fun_upd_apply)
qed

lemma spin_step_inv: "spin_step s s' \<Longrightarrow> spin_inv s \<Longrightarrow> spin_inv s'"
proof (induction rule: spin_step.induct)
  case (spin_call s t)
  then show ?case using spin_inv_frame [of s t Spin_try "the_spin s"] by simp
next
  case (spin_exchange s t got l)
  show ?case
  proof (cases "spin_locked (the_spin s) = 0")
    case True
    with spin_exchange show ?thesis by (auto simp: spin_inv_def mcs_spin_try_lock_def)
  next
    case False
    with spin_exchange have "\<not> got" "l = (the_spin s)\<lparr>spin_locked := 1\<rparr>"
      by (auto simp: mcs_spin_try_lock_def)
    with False spin_exchange show ?thesis using spin_inv_frame [of s t Spin_wait l] by simp
  qed
next
  case (spin_load s t)
  then show ?case
    using spin_inv_frame [of s t "if mcs_spin_is_locked (Some (the_spin s)) then Spin_wait else Spin_try"
        "the_spin s"] by simp
next
  case (spin_release s t)
  then show ?case by (auto simp: spin_inv_def mcs_spin_unlock_def split: if_splits)
qed

lemma spin_reach_inv: "spin_reach l s \<Longrightarrow> spin_inv s"
proof (induction rule: spin_reach.induct)
  case (spin_start c n l')
  then show ?case by (auto simp: spin_inv_def mcs_spin_init_def)
qed (rule spin_step_inv)

lemmas mutex_step_defs =
  goto_pc_def return_with_def mutex_free_inv_def mutex_taken_inv_def quiet_def quiet_pc_def

lemma mutex_pc_zero: "mutex_step t s s' \<Longrightarrow> mutex_pcs s 0 = At_rest \<Longrightarrow> mutex_pcs s' 0 = At_rest"
  by (erule mutex_step.cases) (auto simp: goto_pc_def return_with_def)

text \<open>From a free mutex only the compare-exchange changes who has it.\<close>

lemma mutex_step_free:
  assumes "mutex_step t s s'" "mutex_pcs s 0 = At_rest" "mutex_free_inv s"
  shows "mutex_free_inv s' \<or> mutex_taken_inv s' t"
  using assms(1)
proof cases
  case cas_success
  then have "t \<noteq> 0" using assms(2) by auto
  with assms(3) cas_success have "mutex_taken_inv s' t" by (auto simp: mutex_step_defs)
  then show ?thesis ..
next
  case try_own
  with assms(2,3) show ?thesis by (auto simp: mutex_step_defs)
next
  case try_store
  with assms(3) show ?thesis by (auto simp: mutex_step_defs dest: spec [of _ t])
next
  case unlock_owner
  with assms(3) show ?thesis by (auto simp: mutex_step_defs dest: spec [of _ t])
next
  case unlock_release
  with assms(3) show ?thesis by (auto simp: mutex_step_defs dest: spec [of _ t])
next
  case unlock_checked
  with assms(2,3) show ?thesis by (auto simp: mutex_step_defs)
qed (use assms(3) in \<open>auto simp: mutex_step_defs\<close>)

text \<open>While \<open>x\<close> has it, other threads move between reading parts of the code, and \<open>x\<close> itself keeps it
  until its last store.\<close>

lemma mutex_step_taken_other:
  assumes "mutex_step t s s'" "mutex_pcs s 0 = At_rest" "mutex_taken_inv s x" "t \<noteq> x"
  shows "mutex_taken_inv s' x"
proof -
  have q: "quiet s t" using assms(3,4) by (simp add: mutex_taken_inv_def)
  from assms(1) show ?thesis
  proof cases
    case try_own
    with assms(2,3,4) q show ?thesis by (auto simp: mutex_step_defs split: if_splits)
  next
    case unlock_checked
    with assms(2,3,4) q show ?thesis by (auto simp: mutex_step_defs split: if_splits)
  qed (use assms(3,4) q in \<open>auto simp: mutex_step_defs split: if_splits\<close>)
qed

lemma mutex_step_taken_self:
  assumes "mutex_step x s s'" "mutex_taken_inv s x"
  shows "mutex_taken_inv s' x \<or> mutex_free_inv s'"
  using assms(1)
  by cases (use assms(2) in \<open>auto simp: mutex_step_defs split: if_splits\<close>)

lemma mutex_step_inv: "mutex_step t s s' \<Longrightarrow> mutex_inv s \<Longrightarrow> mutex_inv s'"
  unfolding mutex_inv_def
  using mutex_pc_zero mutex_step_free mutex_step_taken_other mutex_step_taken_self by metis

lemma mutex_reach_inv: "mutex_reach s \<Longrightarrow> mutex_inv s"
proof (induction rule: mutex_reach.induct)
  case (mutex_start m c n m')
  then show ?case by (auto simp: mutex_inv_def mutex_step_defs mutex_boot_def mcs_mutex_init_def)
qed (rule mutex_step_inv)

text \<open>A lock that some access of the spinning thread finds free, after which the others leave it free for one
  more access, is acquired.\<close>

lemma spin_lock_waits:
  "(\<And>j. j < d \<Longrightarrow> spin_locked (env (k + j)) \<noteq> 0) \<Longrightarrow>
   mcs_spin_lock_within (d + fuel) False k env = mcs_spin_lock_within fuel False (k + d) env"
proof (induction d arbitrary: k)
  case (Suc d)
  have "spin_locked (env k) \<noteq> 0" using Suc.prems [of 0] by simp
  moreover have "mcs_spin_lock_within (d + fuel) False (Suc k) env =
      mcs_spin_lock_within fuel False (Suc k + d) env"
    using Suc.prems [of "Suc j" for j] by (intro Suc.IH) (simp add: Suc_less_eq)
  ultimately show ?case by (simp add: mcs_spin_is_locked_def)
qed simp

lemma mutex_inside_owner:
  assumes "mutex_inv s" "inside s t"
  shows "mtx_owner (the_mutex s) = t \<and> mtx_locked (the_mutex s) \<noteq> 0"
proof -
  from assms obtain x where x: "mutex_taken_inv s x"
    by (auto simp: mutex_inv_def mutex_free_inv_def quiet_def)
  with assms(2) have "t = x" by (auto simp: mutex_taken_inv_def quiet_def)
  with x assms(2) show ?thesis by (auto simp: mutex_taken_inv_def)
qed

lemma mutex_owner_inside:
  "mutex_inv s \<Longrightarrow> mtx_owner (the_mutex s) \<noteq> 0 \<Longrightarrow> inside s (mtx_owner (the_mutex s))"
  by (auto simp: mutex_inv_def mutex_free_inv_def mutex_taken_inv_def split: if_splits)

lemma mutex_releasing_outside:
  assumes "mutex_inv s" "mutex_pcs s t = Unlock_store_locked"
  shows "\<not> inside s t"
proof
  assume i: "inside s t"
  from assms i obtain x where x: "mutex_taken_inv s x"
    by (auto simp: mutex_inv_def mutex_free_inv_def quiet_def)
  with i have "t = x" by (auto simp: mutex_taken_inv_def quiet_def)
  with x i assms(2) show False by (auto simp: mutex_taken_inv_def)
qed

text \<open>The steps reach what the functions compute: an uninterrupted run of each of the two calls, with its state and its
  status.\<close>

lemma mutex_try_run:
  assumes t: "t \<noteq> 0" and rest: "mutex_pcs s t = At_rest"
  shows "\<exists>s'. (mutex_step t)\<^sup>*\<^sup>* s s' \<and> mutex_pcs s' t = At_rest \<and>
           mcs_mutex_try_lock (Some (the_mutex s)) t = (the (results s' t), Some (the_mutex s'))"
proof -
  let ?s1 = "goto_pc t Try_cas s"
  have m1: "the_mutex ?s1 = the_mutex s" by (simp add: goto_pc_def)
  have r1: "(mutex_step t)\<^sup>*\<^sup>* s ?s1" using t rest by (blast intro: call_try_lock)
  show ?thesis
  proof (cases "mtx_locked (the_mutex s) = 0")
    case True
    let ?s2 = "goto_pc t Try_store_owner (?s1\<lparr>the_mutex := (the_mutex ?s1)\<lparr>mtx_locked := 1\<rparr>\<rparr>)"
    let ?s3 = "return_with t MCS_SYNC_OK
       (?s2\<lparr>the_mutex := (the_mutex ?s2)\<lparr>mtx_owner := t\<rparr>, inside := (inside ?s2)(t := True)\<rparr>)"
    have "mutex_step t ?s1 ?s2" using True m1 by (intro cas_success) (simp_all add: goto_pc_def)
    moreover have "mutex_step t ?s2 ?s3" by (rule try_store) (simp add: goto_pc_def)
    ultimately have "(mutex_step t)\<^sup>*\<^sup>* s ?s3" using r1 by (meson rtranclp.rtrancl_into_rtrancl)
    with t True m1 show ?thesis
      by (intro exI [of _ ?s3]) (simp add: mcs_mutex_try_lock_def return_with_def goto_pc_def)
  next
    case False
    let ?s2 = "goto_pc t Try_load_owner ?s1"
    let ?s3 = "return_with t (if mtx_owner (the_mutex s) = t then MCS_SYNC_EDEADLK else MCS_SYNC_EBUSY) ?s2"
    have "mutex_step t ?s1 ?s2" using False m1 by (intro cas_failure) (simp_all add: goto_pc_def)
    moreover have "mutex_step t ?s2 ?s3"
      using try_own [of ?s2 t] try_busy [of ?s2 t] by (simp add: goto_pc_def)
    ultimately have "(mutex_step t)\<^sup>*\<^sup>* s ?s3" using r1 by (meson rtranclp.rtrancl_into_rtrancl)
    with t False show ?thesis
      by (intro exI [of _ ?s3]) (simp add: mcs_mutex_try_lock_def return_with_def goto_pc_def)
  qed
qed

lemma mutex_unlock_run:
  assumes t: "t \<noteq> 0" and rest: "mutex_pcs s t = At_rest"
  shows "\<exists>s'. (mutex_step t)\<^sup>*\<^sup>* s s' \<and> mutex_pcs s' t = At_rest \<and>
           mcs_mutex_unlock (Some (the_mutex s)) t = (the (results s' t), Some (the_mutex s'))"
proof -
  let ?s1 = "goto_pc t Unlock_load_owner s"
  have r1: "(mutex_step t)\<^sup>*\<^sup>* s ?s1" using t rest by (blast intro: call_unlock)
  show ?thesis
  proof (cases "mtx_owner (the_mutex s) = t")
    case False
    let ?s2 = "return_with t MCS_SYNC_EPERM ?s1"
    have "mutex_step t ?s1 ?s2" using False by (intro unlock_refused) (simp_all add: goto_pc_def)
    with r1 have "(mutex_step t)\<^sup>*\<^sup>* s ?s2" by (meson rtranclp.rtrancl_into_rtrancl)
    with t False show ?thesis
      by (intro exI [of _ ?s2]) (simp add: mcs_mutex_unlock_def return_with_def goto_pc_def)
  next
    case True
    let ?s2 = "goto_pc t Unlock_store_owner ?s1"
    let ?s3 = "goto_pc t Unlock_store_locked
       (?s2\<lparr>the_mutex := (the_mutex ?s2)\<lparr>mtx_owner := 0\<rparr>, inside := (inside ?s2)(t := False)\<rparr>)"
    let ?s4 = "return_with t MCS_SYNC_OK (?s3\<lparr>the_mutex := (the_mutex ?s3)\<lparr>mtx_locked := 0\<rparr>\<rparr>)"
    have "mutex_step t ?s1 ?s2" using True by (intro unlock_checked) (simp_all add: goto_pc_def)
    moreover have "mutex_step t ?s2 ?s3" by (rule unlock_owner) (simp add: goto_pc_def)
    moreover have "mutex_step t ?s3 ?s4" by (rule unlock_release) (simp add: goto_pc_def)
    ultimately have "(mutex_step t)\<^sup>*\<^sup>* s ?s4" using r1 by (meson rtranclp.rtrancl_into_rtrancl)
    with t True show ?thesis
      by (intro exI [of _ ?s4]) (simp add: mcs_mutex_unlock_def return_with_def goto_pc_def)
  qed
qed

section \<open>Properties\<close>

text \<open>C20: Mutual exclusion of the spinlock: whatever the interleaving of the exchange, waiting and release
  steps of any number of threads, two threads are never inside the protected section together, and
  the lock word is non-zero exactly while one is.\<close>

theorem spin_mutual_exclusion:
  assumes "spin_reach l s"
  shows "(\<forall>t u. spin_pcs s t = Spin_in \<and> spin_pcs s u = Spin_in \<longrightarrow> t = u) \<and>
         (mcs_spin_is_locked (Some (the_spin s)) \<longleftrightarrow> (\<exists>t. spin_pcs s t = Spin_in))"
  using spin_reach_inv [OF assms] by (auto simp: spin_inv_def mcs_spin_is_locked_def)

lemma spin_reach_example:
  "spin_reach spin_zero
     \<lparr>the_spin = spin_zero\<lparr>spin_locked := 1, spin_class_id := 10\<rparr>,
      spin_pcs = (\<lambda>_. Spin_out)(3 := Spin_in)\<rparr>"
proof -
  let ?l = "spin_zero\<lparr>spin_class_id := 10\<rparr>"
  have "spin_reach spin_zero \<lparr>the_spin = ?l, spin_pcs = (\<lambda>_. Spin_out)\<rparr>"
    by (rule spin_start [of _ 10 None]) (simp add: mcs_spin_init_def spin_zero_def)
  then have "spin_reach spin_zero \<lparr>the_spin = ?l, spin_pcs = (\<lambda>_. Spin_out)(3 := Spin_try)\<rparr>"
    by (rule spin_more) (use spin_call [of "\<lparr>the_spin = ?l, spin_pcs = (\<lambda>_. Spin_out)\<rparr>" 3] in simp)
  then show ?thesis
    by (rule spin_more)
       (use spin_exchange [of "\<lparr>the_spin = ?l, spin_pcs = (\<lambda>_. Spin_out)(3 := Spin_try)\<rparr>" 3 True
            "?l\<lparr>spin_locked := 1\<rparr>"] in \<open>simp add: mcs_spin_try_lock_def spin_zero_def\<close>)
qed

theorem spin_mutual_exclusion_witness:
  "mcs_spin_is_locked (Some (spin_zero\<lparr>spin_locked := 1, spin_class_id := 10\<rparr>))"
proof -
  have "\<exists>t. ((\<lambda>_. Spin_out)(3 := Spin_in)) (t :: nat) = Spin_in" by (intro exI [of _ 3]) simp
  with conjunct2 [OF spin_mutual_exclusion [OF spin_reach_example]] show ?thesis
    unfolding spin_sys.simps by blast
qed

text \<open>C10: Under every interleaving of lock and unlock calls of any threads, owners or not, the mutex admits
  at most one thread at a time; the thread admitted is the one its owner field names; and a free
  lock word means nobody is admitted.\<close>

theorem mutex_mutual_exclusion:
  assumes "mutex_reach s"
  shows "(\<forall>t u. inside s t \<and> inside s u \<longrightarrow> t = u) \<and>
         (\<forall>t. inside s t \<longrightarrow> mcs_mutex_is_locked (Some (the_mutex s)) \<and>
                            mcs_mutex_owner (Some (the_mutex s)) = t)"
proof (intro conjI allI impI)
  note own = mutex_inside_owner [OF mutex_reach_inv [OF assms]]
  fix t
  show "t = u" if "inside s t \<and> inside s u" for u
    using that own [of t] own [of u] by simp
  assume "inside s t"
  with own [of t] show "mcs_mutex_is_locked (Some (the_mutex s))"
    and "mcs_mutex_owner (Some (the_mutex s)) = t"
    by (simp_all add: mcs_mutex_is_locked_def mcs_mutex_owner_def)
qed

lemma mutex_boot_reach: "mutex_reach (mutex_boot mutex_zero)"
  by (rule mutex_start [of mutex_zero 0 None]) (simp add: mcs_mutex_init_def mutex_zero_def)

lemma mutex_locked_reach:
  "\<exists>s. mutex_reach s \<and> inside s 7 \<and> results s 7 = Some MCS_SYNC_OK"
proof -
  let ?s = "mutex_boot mutex_zero"
  have "mutex_step 7 ?s (goto_pc 7 Try_cas ?s)" (is "mutex_step 7 _ ?s1")
    by (rule call_try_lock) (simp_all add: mutex_boot_def)
  moreover have "mutex_step 7 ?s1 (goto_pc 7 Try_store_owner
      (?s1\<lparr>the_mutex := (the_mutex ?s1)\<lparr>mtx_locked := 1\<rparr>\<rparr>))" (is "mutex_step 7 _ ?s2")
    by (rule cas_success) (simp_all add: mutex_boot_def goto_pc_def mutex_zero_def)
  moreover have "mutex_step 7 ?s2 (return_with 7 MCS_SYNC_OK
      (?s2\<lparr>the_mutex := (the_mutex ?s2)\<lparr>mtx_owner := 7\<rparr>, inside := (inside ?s2)(7 := True)\<rparr>))"
    (is "mutex_step 7 _ ?s3")
    by (rule try_store) (simp_all add: goto_pc_def)
  ultimately have "mutex_reach ?s3" by (blast intro: mutex_boot_reach mutex_more)
  then show ?thesis by (auto simp: return_with_def goto_pc_def)
qed

theorem mutex_mutual_exclusion_witness:
  "\<exists>s :: mutex_sys. inside s 7 \<and> mcs_mutex_is_locked (Some (the_mutex s)) \<and> mcs_mutex_owner (Some (the_mutex s)) = 7"
proof -
  from mutex_locked_reach obtain s where "mutex_reach s" "inside s 7" by blast
  with mutex_mutual_exclusion [of s] show ?thesis by (intro exI [of _ s]) simp
qed

text \<open>The error answers of the mutex are exact even under contention: the call of a thread returns
  \<open>MCS_SYNC_EDEADLK\<close> only if that thread is inside, \<open>MCS_SYNC_EPERM\<close> only if it is not, and a lock call
  that returns \<open>MCS_SYNC_EBUSY\<close> comes from a thread that is not inside.\<close>

theorem mutex_answers_exact:
  assumes "mutex_reach s" and "mutex_step t s s'" and "mutex_pcs s t \<noteq> At_rest"
    and "mutex_pcs s' t = At_rest"
  shows "case the (results s' t) of
           MCS_SYNC_EDEADLK \<Rightarrow> inside s' t
         | MCS_SYNC_EPERM \<Rightarrow> \<not> inside s' t
         | MCS_SYNC_EBUSY \<Rightarrow> \<not> inside s' t
         | MCS_SYNC_OK \<Rightarrow> inside s' t \<longleftrightarrow> mutex_pcs s t = Try_store_owner
         | _ \<Rightarrow> False"
proof -
  have inv: "mutex_inv s" using assms(1) by (rule mutex_reach_inv)
  then have t: "t \<noteq> 0" using assms(3) by (auto simp: mutex_inv_def)
  have own: "inside s t \<longleftrightarrow> mtx_owner (the_mutex s) = t"
    using inv t mutex_inside_owner mutex_owner_inside by metis
  have rel: "mutex_pcs s t = Unlock_store_locked \<Longrightarrow> \<not> inside s t"
    using inv by (rule mutex_releasing_outside)
  from assms(2) show ?thesis
    by cases (use assms(3,4) own rel in \<open>auto simp: goto_pc_def return_with_def\<close>)
qed

theorem mutex_answers_exact_witness:
  "\<exists>s s'. mutex_step 7 s s' \<and> results s' 7 = Some MCS_SYNC_EPERM \<and> \<not> inside s' 7"
proof -
  let ?s = "mutex_boot mutex_zero"
  let ?s1 = "goto_pc 7 Unlock_load_owner ?s"
  let ?s2 = "return_with 7 MCS_SYNC_EPERM ?s1"
  have "mutex_step 7 ?s ?s1" by (rule call_unlock) (simp_all add: mutex_boot_def)
  then have r: "mutex_reach ?s1" by (rule mutex_more [OF mutex_boot_reach])
  have st: "mutex_step 7 ?s1 ?s2"
    by (rule unlock_refused) (simp_all add: mutex_boot_def goto_pc_def mutex_zero_def)
  have res: "results ?s2 7 = Some MCS_SYNC_EPERM" by (simp add: return_with_def goto_pc_def)
  have "\<not> inside ?s2 7"
    using mutex_answers_exact [OF r st] res by (simp add: return_with_def goto_pc_def)
  with st res show ?thesis by blast
qed

text \<open>C21: The spinning acquisition returns: a thread that finds the lock taken on its first \<open>d\<close> accesses, then
  free twice in a row, leaves \<open>mcs_spin_lock\<close> holding the lock after exactly \<open>d + 2\<close> accesses.\<close>

theorem spin_lock_acquires:
  assumes "0 < d" and "\<forall>j<d. spin_locked (env j) \<noteq> 0"
    and "spin_locked (env d) = 0" and "spin_locked (env (Suc d)) = 0"
  shows "mcs_spin_lock_within (d + 2) True 0 env = Some (d + 2, (env (Suc d))\<lparr>spin_locked := 1\<rparr>)"
proof -
  obtain e where d: "d = Suc e" using assms(1) by (cases d) auto
  have "mcs_spin_lock_within (d + 2) True 0 env = mcs_spin_lock_within (e + 2) False 1 env"
    using assms(2) d by (simp add: mcs_spin_try_lock_def)
  also have "\<dots> = mcs_spin_lock_within 2 False (1 + e) env"
    by (rule spin_lock_waits) (use assms(2) d in simp)
  also have "\<dots> = Some (d + 2, (env (Suc d))\<lparr>spin_locked := 1\<rparr>)"
    using assms(3,4) d by (simp add: numeral_2_eq_2 mcs_spin_is_locked_def mcs_spin_try_lock_def)
  finally show ?thesis .
qed

theorem spin_lock_acquires_witness:
  "mcs_spin_lock_within 3 True 0 (\<lambda>k. spin_zero\<lparr>spin_locked := if k = 0 then 1 else 0\<rparr>)
     = Some (3, spin_zero\<lparr>spin_locked := 1\<rparr>)"
  using spin_lock_acquires [of 1 "\<lambda>k. spin_zero\<lparr>spin_locked := if k = 0 then 1 else 0\<rparr>"]
  by (simp add: numeral_3_eq_3)

end
