(* ===== verification/Block.thy ===== *)
theory Block
  imports MCS_Prelude
begin

text \<open>
  \<open>kernel/block\<close>: the block layer (\<open>block.c\<close>: device registry, range checks and dispatch to the
  driver), the RAM disk driver (\<open>ramblk.c\<close>) and the write-back cache (\<open>bcache.c\<close>).

  A driver function sees the descriptor of its device without the operation table, the block
  address, the count, the caller's buffer and the driver memory \<open>'w\<close>; it returns a status, the
  buffer and the memory. Device pointers are addresses resolved by a device table, so that the
  cache compares pointers as the code does; the driver memory of the RAM disk maps \<open>driver_data\<close>
  pointers to RAM disks. What a client may rely on is the locale \<open>block_store\<close>, interpreted by the
  RAM disk; the cache is verified against it.
\<close>

section \<open>Data\<close>

datatype mcsos_blk_status =
  MCSOS_BLK_OK | MCSOS_BLK_EINVAL | MCSOS_BLK_ERANGE | MCSOS_BLK_EFULL | MCSOS_BLK_EIO | MCSOS_BLK_ENODEV

definition MCSOS_BLK_NAME_MAX :: nat where
  [mcs_consts]: "MCSOS_BLK_NAME_MAX = 16"

definition MCSOS_BLK_MAX_DEVICES :: u32 where
  [mcs_consts]: "MCSOS_BLK_MAX_DEVICES = 8"

definition MCSOS_BLK_DEFAULT_SECTOR_SIZE :: u32 where
  [mcs_consts]: "MCSOS_BLK_DEFAULT_SECTOR_SIZE = 512"

record blk_descriptor =
  dev_name :: bytes
  dev_block_size :: u32
  dev_block_count :: u64
  dev_flags :: u32
  driver_data :: "nat option"

type_synonym 'w mcsos_blk_rw_fn =
  "blk_descriptor \<Rightarrow> u64 \<Rightarrow> u32 \<Rightarrow> bytes option \<Rightarrow> 'w \<Rightarrow> mcsos_blk_status \<times> bytes option \<times> 'w"

record 'w mcsos_blk_ops =
  op_read :: "'w mcsos_blk_rw_fn option"
  op_write :: "'w mcsos_blk_rw_fn option"
  op_flush :: "'w mcsos_blk_rw_fn option"

record 'w mcsos_blk_device = blk_descriptor +
  dev_ops :: "'w mcsos_blk_ops option"

record mcsos_blk_registry =
  g_blk_devices :: "nat option list"
  g_blk_count :: u32

section \<open>block.c\<close>

definition mcsos_is_power_of_two_u32 :: "u32 \<Rightarrow> bool" where
  "mcsos_is_power_of_two_u32 value = (value \<noteq> 0 \<and> value AND (value - 1) = 0)"

definition mcsos_name_is_nonempty :: "bytes option \<Rightarrow> bool" where
  "mcsos_name_is_nonempty s = (case s of None \<Rightarrow> False | Some n \<Rightarrow> n ! 0 \<noteq> 0)"

definition mcsos_copy_name :: "bytes \<Rightarrow> bytes option \<Rightarrow> bytes" where
  "mcsos_copy_name dst src =
     (case src of
        None \<Rightarrow> dst[0 := 0]
      | Some s \<Rightarrow>
          let i = strnlen s (MCSOS_BLK_NAME_MAX - 1) in (copy_loop 0 dst 0 s i)[i := 0])"

definition mcsos_blk_registry_reset :: "mcsos_blk_registry \<Rightarrow> mcsos_blk_registry" where
  "mcsos_blk_registry_reset r =
     r\<lparr>g_blk_devices := fill_loop 0 (g_blk_devices r) None (unat MCSOS_BLK_MAX_DEVICES), g_blk_count := 0\<rparr>"

text \<open>The device argument is its address; the table resolves it.\<close>

definition mcsos_blk_register ::
  "(nat \<Rightarrow> 'w mcsos_blk_device option) \<Rightarrow> nat option \<Rightarrow> mcsos_blk_registry \<Rightarrow>
   mcsos_blk_status \<times> mcsos_blk_registry" where
  "mcsos_blk_register D dev r =
     (case Option.bind dev D of
        None \<Rightarrow> (MCSOS_BLK_EINVAL, r)
      | Some d \<Rightarrow>
          (case dev_ops d of
             None \<Rightarrow> (MCSOS_BLK_EINVAL, r)
           | Some ops \<Rightarrow>
               if op_read ops = None \<or> op_write ops = None then (MCSOS_BLK_EINVAL, r)
               else if \<not> mcsos_name_is_nonempty (Some (dev_name d)) \<or> dev_block_count d = 0 \<or>
                    dev_block_size d < MCSOS_BLK_DEFAULT_SECTOR_SIZE \<or>
                    \<not> mcsos_is_power_of_two_u32 (dev_block_size d) then (MCSOS_BLK_EINVAL, r)
               else if MCSOS_BLK_MAX_DEVICES \<le> g_blk_count r then (MCSOS_BLK_EFULL, r)
               else (MCSOS_BLK_OK,
                     r\<lparr>g_blk_devices := (g_blk_devices r)[unat (g_blk_count r) := dev],
                       g_blk_count := g_blk_count r + 1\<rparr>)))"

definition mcsos_blk_get :: "mcsos_blk_registry \<Rightarrow> u32 \<Rightarrow> nat option" where
  "mcsos_blk_get r index = (if g_blk_count r \<le> index then None else g_blk_devices r ! unat index)"

definition mcsos_blk_count :: "mcsos_blk_registry \<Rightarrow> u32" where
  "mcsos_blk_count r = g_blk_count r"

definition mcsos_blk_validate_range ::
  "'w mcsos_blk_device option \<Rightarrow> u64 \<Rightarrow> u32 \<Rightarrow> bytes option \<Rightarrow> mcsos_blk_status" where
  "mcsos_blk_validate_range dev lba count buffer =
     (case dev of
        None \<Rightarrow> MCSOS_BLK_EINVAL
      | Some d \<Rightarrow>
          if buffer = None \<or> count = 0 \<or> dev_ops d = None then MCSOS_BLK_EINVAL
          else if dev_block_count d \<le> lba then MCSOS_BLK_ERANGE
          else if dev_block_count d - lba < ucast count then MCSOS_BLK_ERANGE
          else MCSOS_BLK_OK)"

definition mcsos_blk_read ::
  "'w mcsos_blk_device option \<Rightarrow> u64 \<Rightarrow> u32 \<Rightarrow> bytes option \<Rightarrow> 'w \<Rightarrow> mcsos_blk_status \<times> bytes option \<times> 'w" where
  "mcsos_blk_read dev lba count buffer w =
     (case mcsos_blk_validate_range dev lba count buffer of
        MCSOS_BLK_OK \<Rightarrow>
          (case op_read (the (dev_ops (the dev))) of
             None \<Rightarrow> (MCSOS_BLK_EINVAL, buffer, w)
           | Some f \<Rightarrow> f (blk_descriptor.truncate (the dev)) lba count buffer w)
      | st \<Rightarrow> (st, buffer, w))"

definition mcsos_blk_write ::
  "'w mcsos_blk_device option \<Rightarrow> u64 \<Rightarrow> u32 \<Rightarrow> bytes option \<Rightarrow> 'w \<Rightarrow> mcsos_blk_status \<times> bytes option \<times> 'w" where
  "mcsos_blk_write dev lba count buffer w =
     (case mcsos_blk_validate_range dev lba count buffer of
        MCSOS_BLK_OK \<Rightarrow>
          (case op_write (the (dev_ops (the dev))) of
             None \<Rightarrow> (MCSOS_BLK_EINVAL, buffer, w)
           | Some f \<Rightarrow> f (blk_descriptor.truncate (the dev)) lba count buffer w)
      | st \<Rightarrow> (st, buffer, w))"

definition mcsos_blk_flush :: "'w mcsos_blk_device option \<Rightarrow> 'w \<Rightarrow> mcsos_blk_status \<times> 'w" where
  "mcsos_blk_flush dev w =
     (case dev of
        None \<Rightarrow> (MCSOS_BLK_EINVAL, w)
      | Some d \<Rightarrow>
          (case dev_ops d of
             None \<Rightarrow> (MCSOS_BLK_EINVAL, w)
           | Some ops \<Rightarrow>
               (case op_flush ops of
                  None \<Rightarrow> (MCSOS_BLK_OK, w)
                | Some f \<Rightarrow> (case f (blk_descriptor.truncate d) 0 0 None w of (st, _, w') \<Rightarrow> (st, w')))))"

definition mcsos_blk_copy_name_for_driver :: "bytes \<Rightarrow> bytes option \<Rightarrow> bytes" where
  "mcsos_blk_copy_name_for_driver dst src = mcsos_copy_name dst src"

section \<open>ramblk.c\<close>

record mcsos_ramblk =
  rb_storage :: bytes
  storage_size :: u64

type_synonym ram_store = "nat \<Rightarrow> mcsos_ramblk option"

definition mcsos_memcpy_u8 :: "bytes \<Rightarrow> nat \<Rightarrow> bytes \<Rightarrow> nat \<Rightarrow> nat \<Rightarrow> bytes" where
  "mcsos_memcpy_u8 dst doff src soff n = copy_loop doff dst soff src n"

definition mcsos_ramblk_rw ::
  "blk_descriptor \<Rightarrow> u64 \<Rightarrow> u32 \<Rightarrow> bytes option \<Rightarrow> bool \<Rightarrow> ram_store \<Rightarrow>
   mcsos_blk_status \<times> bytes option \<times> ram_store" where
  "mcsos_ramblk_rw dev lba count buffer is_write w =
     (case (driver_data dev, buffer) of
        (Some r, Some buf) \<Rightarrow>
          (case w r of
             None \<Rightarrow> (MCSOS_BLK_EINVAL, buffer, w)
           | Some ram \<Rightarrow>
               let byte_offset = lba * ucast (dev_block_size dev);
                   byte_count = ucast count * ucast (dev_block_size dev) :: u64 in
               if storage_size ram < byte_offset \<or> storage_size ram - byte_offset < byte_count then
                 (MCSOS_BLK_ERANGE, buffer, w)
               else if is_write then
                 (MCSOS_BLK_OK, buffer,
                  w(r \<mapsto> ram\<lparr>rb_storage :=
                     mcsos_memcpy_u8 (rb_storage ram) (unat byte_offset) buf 0 (unat byte_count)\<rparr>))
               else
                 (MCSOS_BLK_OK,
                  Some (mcsos_memcpy_u8 buf 0 (rb_storage ram) (unat byte_offset) (unat byte_count)), w))
      | _ \<Rightarrow> (MCSOS_BLK_EINVAL, buffer, w))"

definition mcsos_ramblk_read :: "ram_store mcsos_blk_rw_fn" where
  "mcsos_ramblk_read dev lba count buffer w = mcsos_ramblk_rw dev lba count buffer False w"

definition mcsos_ramblk_write :: "ram_store mcsos_blk_rw_fn" where
  "mcsos_ramblk_write dev lba count buffer w = mcsos_ramblk_rw dev lba count buffer True w"

definition mcsos_ramblk_flush :: "ram_store mcsos_blk_rw_fn" where
  "mcsos_ramblk_flush dev lba count buffer w = (MCSOS_BLK_OK, buffer, w)"

definition g_ramblk_ops :: "ram_store mcsos_blk_ops" where
  "g_ramblk_ops = \<lparr>op_read = Some mcsos_ramblk_read, op_write = Some mcsos_ramblk_write,
     op_flush = Some mcsos_ramblk_flush\<rparr>"

definition mcsos_ramblk_init ::
  "(nat \<Rightarrow> ram_store mcsos_blk_device option) \<Rightarrow> ram_store \<Rightarrow> nat option \<Rightarrow> nat option \<Rightarrow> bytes option \<Rightarrow>
   bytes option \<Rightarrow> u64 \<Rightarrow> u32 \<Rightarrow>
   mcsos_blk_status \<times> (nat \<Rightarrow> ram_store mcsos_blk_device option) \<times> ram_store" where
  "mcsos_ramblk_init D w dev ram name storage st_size block_size =
     (case (dev, ram, storage, name) of
        (Some d, Some r, Some st, Some nm) \<Rightarrow>
          if block_size < MCSOS_BLK_DEFAULT_SECTOR_SIZE \<or> \<not> mcsos_is_power_of_two_u32 block_size then
            (MCSOS_BLK_EINVAL, D, w)
          else if st_size < ucast block_size \<or> st_size mod ucast block_size \<noteq> 0 then (MCSOS_BLK_EINVAL, D, w)
          else
            (MCSOS_BLK_OK,
             D(d \<mapsto> (the (D d))\<lparr>dev_name := mcsos_blk_copy_name_for_driver (dev_name (the (D d))) (Some nm),
                   dev_block_size := block_size, dev_block_count := st_size div ucast block_size,
                   dev_flags := 0, dev_ops := Some g_ramblk_ops, driver_data := Some r\<rparr>),
             w(r \<mapsto> (the (w r))\<lparr>rb_storage := st, storage_size := st_size\<rparr>))
      | _ \<Rightarrow> (MCSOS_BLK_EINVAL, D, w))"

section \<open>bcache.c\<close>

text \<open>An entry owns its slice of the data pool, so the model keeps the slice in the entry; a NULL
  entry array is the empty list.\<close>

record mcsos_bcache_entry =
  e_data :: bytes
  e_capacity :: u32
  e_lba :: u64
  e_valid :: bool
  e_dirty :: bool
  e_dev :: "nat option"

record mcsos_bcache =
  bc_entries :: "mcsos_bcache_entry list"
  bc_entry_count :: u32
  bc_block_size :: u32
  bc_clock_hand :: u64

definition mcsos_memcpy_u8_bcache :: "bytes \<Rightarrow> bytes \<Rightarrow> nat \<Rightarrow> bytes" where
  "mcsos_memcpy_u8_bcache dst src n = copy_loop 0 dst 0 src n"

definition mcsos_bcache_find :: "mcsos_bcache \<Rightarrow> nat option \<Rightarrow> u64 \<Rightarrow> nat option" where
  "mcsos_bcache_find cache dev lba =
     first_index (\<lambda>i. let e = bc_entries cache ! i in e_valid e \<and> e_dev e = dev \<and> e_lba e = lba)
       0 (unat (bc_entry_count cache))"

definition mcsos_bcache_flush_entry ::
  "(nat \<Rightarrow> 'w mcsos_blk_device option) \<Rightarrow> mcsos_bcache_entry \<Rightarrow> 'w \<Rightarrow>
   mcsos_blk_status \<times> mcsos_bcache_entry \<times> 'w" where
  "mcsos_bcache_flush_entry D e w =
     (if \<not> e_valid e \<or> \<not> e_dirty e then (MCSOS_BLK_OK, e, w)
      else
        (case mcsos_blk_write (Option.bind (e_dev e) D) (e_lba e) 1 (Some (e_data e)) w of
           (st, _, w') \<Rightarrow>
             if st \<noteq> MCSOS_BLK_OK then (st, e, w') else (MCSOS_BLK_OK, e\<lparr>e_dirty := False\<rparr>, w')))"

text \<open>The victim is returned as an index; \<open>None\<close> when the status is an error.\<close>

definition mcsos_bcache_select_victim ::
  "(nat \<Rightarrow> 'w mcsos_blk_device option) \<Rightarrow> mcsos_bcache \<Rightarrow> 'w \<Rightarrow>
   mcsos_blk_status \<times> nat option \<times> mcsos_bcache \<times> 'w" where
  "mcsos_bcache_select_victim D cache w =
     (if bc_entry_count cache = 0 then (MCSOS_BLK_EINVAL, None, cache, w)
      else
        let n = bc_entry_count cache;
            start = ucast (bc_clock_hand cache mod ucast n) :: u32;
            idx_at = (\<lambda>pass :: nat. (start + of_nat pass) mod n)
        in case first_index (\<lambda>pass. \<not> e_valid (bc_entries cache ! unat (idx_at pass))) 0 (unat n) of
             Some pass \<Rightarrow>
               (MCSOS_BLK_OK, Some (unat (idx_at pass)),
                cache\<lparr>bc_clock_hand := ucast (idx_at pass + 1)\<rparr>, w)
           | None \<Rightarrow>
               let cache' = cache\<lparr>bc_clock_hand := ucast (start + 1)\<rparr> in
               (case mcsos_bcache_flush_entry D (bc_entries cache ! unat start) w of
                  (st, e, w') \<Rightarrow>
                    if st \<noteq> MCSOS_BLK_OK then (st, None, cache', w')
                    else (MCSOS_BLK_OK, Some (unat start),
                          cache'\<lparr>bc_entries := (bc_entries cache)[unat start := e]\<rparr>, w')))"

definition mcsos_bcache_init ::
  "mcsos_bcache option \<Rightarrow> mcsos_bcache_entry list option \<Rightarrow> u32 \<Rightarrow> bytes option \<Rightarrow> u32 \<Rightarrow>
   mcsos_blk_status \<times> mcsos_bcache option" where
  "mcsos_bcache_init cache entries entry_count data_pool block_size =
     (case (cache, entries, data_pool) of
        (Some c, Some es, Some pool) \<Rightarrow>
          if entry_count = 0 \<or> block_size = 0 then (MCSOS_BLK_EINVAL, cache)
          else
            (MCSOS_BLK_OK,
             Some (c\<lparr>bc_entries :=
                 map (\<lambda>i. (es ! i)\<lparr>e_data := slice (i * unat block_size) (unat block_size) pool,
                         e_capacity := block_size, e_lba := 0, e_valid := False, e_dirty := False,
                         e_dev := None\<rparr>) [0..<unat entry_count],
               bc_entry_count := entry_count, bc_block_size := block_size, bc_clock_hand := 0\<rparr>))
      | _ \<Rightarrow> (MCSOS_BLK_EINVAL, cache))"

text \<open>The entry that serves the request: the cached one, or a victim taken over from its owner.\<close>

definition mcsos_bcache_read ::
  "(nat \<Rightarrow> 'w mcsos_blk_device option) \<Rightarrow> mcsos_bcache option \<Rightarrow> nat option \<Rightarrow> u64 \<Rightarrow> bytes option \<Rightarrow> 'w \<Rightarrow>
   mcsos_blk_status \<times> bytes option \<times> mcsos_bcache option \<times> 'w" where
  "mcsos_bcache_read D cache dev lba buffer w =
     (case (cache, Option.bind dev D, buffer) of
        (Some c, Some d, Some buf) \<Rightarrow>
          if bc_block_size c \<noteq> dev_block_size d then (MCSOS_BLK_EINVAL, buffer, cache, w)
          else
            (case mcsos_bcache_find c dev lba of
               Some i \<Rightarrow>
                 (MCSOS_BLK_OK,
                  Some (mcsos_memcpy_u8_bcache buf (e_data (bc_entries c ! i)) (unat (bc_block_size c))),
                  cache, w)
             | None \<Rightarrow>
                 (case mcsos_bcache_select_victim D c w of
                    (st, vi, c1, w1) \<Rightarrow>
                      if st \<noteq> MCSOS_BLK_OK then (st, buffer, Some c1, w1)
                      else
                        let i = the vi; e = bc_entries c1 ! i in
                        (case mcsos_blk_read (Some d) lba 1 (Some (e_data e)) w1 of
                           (st2, dat, w2) \<Rightarrow>
                             let e1 = e\<lparr>e_data := the dat\<rparr> in
                             if st2 \<noteq> MCSOS_BLK_OK then
                               (st2, buffer,
                                Some (c1\<lparr>bc_entries := (bc_entries c1)[i := e1\<lparr>e_valid := False\<rparr>]\<rparr>), w2)
                             else
                               (MCSOS_BLK_OK,
                                Some (mcsos_memcpy_u8_bcache buf (e_data e1) (unat (bc_block_size c1))),
                                Some (c1\<lparr>bc_entries := (bc_entries c1)
                                  [i := e1\<lparr>e_dev := dev, e_lba := lba, e_valid := True, e_dirty := False\<rparr>]\<rparr>),
                                w2))))
      | _ \<Rightarrow> (MCSOS_BLK_EINVAL, buffer, cache, w))"

definition mcsos_bcache_write ::
  "(nat \<Rightarrow> 'w mcsos_blk_device option) \<Rightarrow> mcsos_bcache option \<Rightarrow> nat option \<Rightarrow> u64 \<Rightarrow> bytes option \<Rightarrow> 'w \<Rightarrow>
   mcsos_blk_status \<times> mcsos_bcache option \<times> 'w" where
  "mcsos_bcache_write D cache dev lba buffer w =
     (case (cache, Option.bind dev D, buffer) of
        (Some c, Some d, Some buf) \<Rightarrow>
          if bc_block_size c \<noteq> dev_block_size d then (MCSOS_BLK_EINVAL, cache, w)
          else
            (case (case mcsos_bcache_find c dev lba of
                     Some i \<Rightarrow> (MCSOS_BLK_OK, i, c, w)
                   | None \<Rightarrow>
                       (case mcsos_bcache_select_victim D c w of
                          (st, vi, c1, w1) \<Rightarrow>
                            if st \<noteq> MCSOS_BLK_OK then (st, 0, c1, w1)
                            else (MCSOS_BLK_OK, the vi,
                              c1\<lparr>bc_entries := (bc_entries c1)
                                [the vi := (bc_entries c1 ! the vi)
                                   \<lparr>e_dev := dev, e_lba := lba, e_valid := True, e_dirty := False\<rparr>]\<rparr>, w1))) of
               (st, i, c2, w2) \<Rightarrow>
                 if st \<noteq> MCSOS_BLK_OK then (st, Some c2, w2)
                 else
                   (MCSOS_BLK_OK,
                    Some (c2\<lparr>bc_entries := (bc_entries c2)
                      [i := (bc_entries c2 ! i)
                         \<lparr>e_data := mcsos_memcpy_u8_bcache (e_data (bc_entries c2 ! i)) buf
                                    (unat (bc_block_size c2)), e_dirty := True\<rparr>]\<rparr>), w2))
      | _ \<Rightarrow> (MCSOS_BLK_EINVAL, cache, w))"

fun flush_entries ::
  "(nat \<Rightarrow> 'w mcsos_blk_device option) \<Rightarrow> mcsos_bcache_entry list \<Rightarrow> 'w \<Rightarrow>
   mcsos_blk_status \<times> mcsos_bcache_entry list \<times> 'w" where
  "flush_entries D [] w = (MCSOS_BLK_OK, [], w)"
| "flush_entries D (e # es) w =
     (case mcsos_bcache_flush_entry D e w of
        (st, e', w') \<Rightarrow>
          if st \<noteq> MCSOS_BLK_OK then (st, e' # es, w')
          else (case flush_entries D es w' of (st', es', w'') \<Rightarrow> (st', e' # es', w'')))"

definition mcsos_bcache_flush_all ::
  "(nat \<Rightarrow> 'w mcsos_blk_device option) \<Rightarrow> mcsos_bcache option \<Rightarrow> 'w \<Rightarrow>
   mcsos_blk_status \<times> mcsos_bcache option \<times> 'w" where
  "mcsos_bcache_flush_all D cache w =
     (case cache of
        None \<Rightarrow> (MCSOS_BLK_EINVAL, None, w)
      | Some c \<Rightarrow>
          if bc_entries c = [] then (MCSOS_BLK_EINVAL, cache, w)
          else
            let n = unat (bc_entry_count c) in
            (case flush_entries D (take n (bc_entries c)) w of
               (st, es, w') \<Rightarrow> (st, Some (c\<lparr>bc_entries := es @ drop n (bc_entries c)\<rparr>), w')))"

section \<open>The interface of a block store\<close>

definition blk_bytes :: "(nat \<Rightarrow> 'w mcsos_blk_device option) \<Rightarrow> nat \<Rightarrow> nat" where
  "blk_bytes D d = unat (dev_block_size (the (D d)))"

definition in_range :: "(nat \<Rightarrow> 'w mcsos_blk_device option) \<Rightarrow> nat \<Rightarrow> u64 \<Rightarrow> bool" where
  "in_range D d lba \<longleftrightarrow> lba < dev_block_count (the (D d))"

text \<open>The contents of the devices, and of the devices as seen through the cache.\<close>

type_synonym contents = "nat \<Rightarrow> u64 \<Rightarrow> bytes"

definition write_block :: "contents \<Rightarrow> nat \<Rightarrow> u64 \<Rightarrow> bytes \<Rightarrow> contents" where
  "write_block m d lba b = (\<lambda>d' lba'. if d' = d \<and> lba' = lba then b else m d' lba')"

definition same_contents ::
  "(nat \<Rightarrow> 'w mcsos_blk_device option) \<Rightarrow> nat set \<Rightarrow> contents \<Rightarrow> contents \<Rightarrow> bool" where
  "same_contents D devs m m' \<longleftrightarrow> (\<forall>d \<in> devs. \<forall>lba. in_range D d lba \<longrightarrow> m d lba = m' d lba)"

definition entry_matches :: "mcsos_bcache \<Rightarrow> nat \<Rightarrow> nat \<Rightarrow> u64 \<Rightarrow> bool" where
  "entry_matches c i d lba \<longleftrightarrow> i < unat (bc_entry_count c) \<and> e_valid (bc_entries c ! i) \<and>
     e_dev (bc_entries c ! i) = Some d \<and> e_lba (bc_entries c ! i) = lba"

definition cache_view :: "mcsos_bcache \<Rightarrow> contents \<Rightarrow> contents" where
  "cache_view c m = (\<lambda>d lba. case mcsos_bcache_find c (Some d) lba of
     Some i \<Rightarrow> e_data (bc_entries c ! i) | None \<Rightarrow> m d lba)"

definition entry_ok ::
  "(nat \<Rightarrow> 'w mcsos_blk_device option) \<Rightarrow> nat set \<Rightarrow> u32 \<Rightarrow> contents \<Rightarrow> mcsos_bcache_entry \<Rightarrow> bool" where
  "entry_ok D devs bs m e \<longleftrightarrow> length (e_data e) = unat bs \<and>
     (e_valid e \<longrightarrow> (\<exists>d \<in> devs. e_dev e = Some d \<and> in_range D d (e_lba e) \<and>
        dev_block_size (the (D d)) = bs \<and> (\<not> e_dirty e \<longrightarrow> e_data e = m d (e_lba e))))"

definition cache_ok ::
  "(nat \<Rightarrow> 'w mcsos_blk_device option) \<Rightarrow> nat set \<Rightarrow> contents \<Rightarrow> mcsos_bcache \<Rightarrow> bool" where
  "cache_ok D devs m c \<longleftrightarrow>
     length (bc_entries c) = unat (bc_entry_count c) \<and> bc_entry_count c \<noteq> 0 \<and>
     (\<forall>i < unat (bc_entry_count c). entry_ok D devs (bc_block_size c) m (bc_entries c ! i)) \<and>
     (\<forall>i j d lba. entry_matches c i d lba \<longrightarrow> entry_matches c j d lba \<longrightarrow> i = j)"

locale block_store =
  fixes D :: "nat \<Rightarrow> 'w mcsos_blk_device option" and devs :: "nat set"
    and inv :: "'w \<Rightarrow> bool" and blocks :: "'w \<Rightarrow> contents"
  assumes present: "inv w \<Longrightarrow> d \<in> devs \<Longrightarrow> D d \<noteq> None"
    and block_length: "inv w \<Longrightarrow> d \<in> devs \<Longrightarrow> in_range D d lba \<Longrightarrow> length (blocks w d lba) = blk_bytes D d"
    and read_one: "inv w \<Longrightarrow> d \<in> devs \<Longrightarrow> in_range D d lba \<Longrightarrow> length buf = blk_bytes D d \<Longrightarrow>
        mcsos_blk_read (D d) lba 1 (Some buf) w = (MCSOS_BLK_OK, Some (blocks w d lba), w)"
    and write_one: "inv w \<Longrightarrow> d \<in> devs \<Longrightarrow> in_range D d lba \<Longrightarrow> length buf = blk_bytes D d \<Longrightarrow>
        \<exists>w'. mcsos_blk_write (D d) lba 1 (Some buf) w = (MCSOS_BLK_OK, Some buf, w') \<and> inv w' \<and>
          same_contents D devs (blocks w') (write_block (blocks w) d lba buf)"

text \<open>A client of the cache: a sequence of requests, run on the cache and on the contents it stands
  for. A read passes a zeroed buffer.\<close>

datatype cache_op = CRead nat u64 | CWrite nat u64 bytes | CFlush

fun cache_op_ok :: "(nat \<Rightarrow> 'w mcsos_blk_device option) \<Rightarrow> nat set \<Rightarrow> u32 \<Rightarrow> cache_op \<Rightarrow> bool" where
  "cache_op_ok D devs bs (CRead d lba) \<longleftrightarrow> d \<in> devs \<and> in_range D d lba \<and> dev_block_size (the (D d)) = bs"
| "cache_op_ok D devs bs (CWrite d lba b) \<longleftrightarrow>
     d \<in> devs \<and> in_range D d lba \<and> dev_block_size (the (D d)) = bs \<and> length b = unat bs"
| "cache_op_ok D devs bs CFlush \<longleftrightarrow> True"

fun run_cache ::
  "(nat \<Rightarrow> 'w mcsos_blk_device option) \<Rightarrow> cache_op list \<Rightarrow> mcsos_bcache option \<Rightarrow> 'w \<Rightarrow>
   (mcsos_blk_status \<times> bytes option) list \<times> mcsos_bcache option \<times> 'w" where
  "run_cache D [] c w = ([], c, w)"
| "run_cache D (CRead d lba # ops) c w =
     (case mcsos_bcache_read D c (Some d) lba (Some (replicate (blk_bytes D d) 0)) w of
        (st, buf, c', w') \<Rightarrow> (case run_cache D ops c' w' of (out, r) \<Rightarrow> ((st, buf) # out, r)))"
| "run_cache D (CWrite d lba b # ops) c w =
     (case mcsos_bcache_write D c (Some d) lba (Some b) w of
        (st, c', w') \<Rightarrow> (case run_cache D ops c' w' of (out, r) \<Rightarrow> ((st, None) # out, r)))"
| "run_cache D (CFlush # ops) c w =
     (case mcsos_bcache_flush_all D c w of
        (st, c', w') \<Rightarrow> (case run_cache D ops c' w' of (out, r) \<Rightarrow> ((st, None) # out, r)))"

fun run_contents :: "cache_op list \<Rightarrow> contents \<Rightarrow> (mcsos_blk_status \<times> bytes option) list \<times> contents" where
  "run_contents [] m = ([], m)"
| "run_contents (CRead d lba # ops) m =
     (case run_contents ops m of (out, m') \<Rightarrow> ((MCSOS_BLK_OK, Some (m d lba)) # out, m'))"
| "run_contents (CWrite d lba b # ops) m =
     (case run_contents ops (write_block m d lba b) of (out, m') \<Rightarrow> ((MCSOS_BLK_OK, None) # out, m'))"
| "run_contents (CFlush # ops) m =
     (case run_contents ops m of (out, m') \<Rightarrow> ((MCSOS_BLK_OK, None) # out, m'))"

section \<open>Lemmas on the cache\<close>

lemma find_None_iff: "mcsos_bcache_find c (Some d) lba = None \<longleftrightarrow> (\<forall>i. \<not> entry_matches c i d lba)"
  by (auto simp: mcsos_bcache_find_def first_index_None_iff entry_matches_def Let_def)

lemma find_matches: "mcsos_bcache_find c (Some d) lba = Some i \<Longrightarrow> entry_matches c i d lba"
  by (auto simp: mcsos_bcache_find_def entry_matches_def Let_def dest: first_index_SomeD)

lemma find_Some:
  assumes "cache_ok D devs m c" "entry_matches c i d lba"
  shows "mcsos_bcache_find c (Some d) lba = Some i"
proof -
  obtain k where k: "mcsos_bcache_find c (Some d) lba = Some k"
    using assms(2) find_None_iff [of c d lba] by (cases "mcsos_bcache_find c (Some d) lba") auto
  then show ?thesis using assms find_matches [OF k] by (metis cache_ok_def)
qed

lemma cache_view_hit:
  "cache_ok D devs m c \<Longrightarrow> entry_matches c i d lba \<Longrightarrow> cache_view c m d lba = e_data (bc_entries c ! i)"
  by (simp add: cache_view_def find_Some)

lemma cache_view_miss:
  "(\<And>i. \<not> entry_matches c i d lba) \<Longrightarrow> cache_view c m d lba = m d lba"
  using find_None_iff [of c d lba] by (simp add: cache_view_def)

lemma same_contents_refl [simp]: "same_contents D devs m m"
  by (simp add: same_contents_def)

lemma same_contents_trans:
  "same_contents D devs m m' \<Longrightarrow> same_contents D devs m' m'' \<Longrightarrow> same_contents D devs m m''"
  by (simp add: same_contents_def)

lemma same_contents_sym: "same_contents D devs m m' \<Longrightarrow> same_contents D devs m' m"
  by (simp add: same_contents_def)

lemma same_contents_write_cong:
  "same_contents D devs m m' \<Longrightarrow> same_contents D devs (write_block m d lba b) (write_block m' d lba b)"
  by (simp add: same_contents_def write_block_def)

text \<open>An entry that holds nothing the device lacks is taken over for another block: only the view
  of that block changes.\<close>

lemma replace_entry:
  fixes c :: mcsos_bcache
  assumes ok: "cache_ok D devs m c" and i: "i < unat (bc_entry_count c)"
    and old: "e_valid (bc_entries c ! i) \<Longrightarrow> e_dirty (bc_entries c ! i) \<Longrightarrow> entry_matches c i d lba"
    and only: "\<And>j. entry_matches c j d lba \<Longrightarrow> j = i"
    and new: "entry_ok D devs (bc_block_size c) m e" "e_valid e" "e_dev e = Some d" "e_lba e = lba"
  defines "c' \<equiv> c\<lparr>bc_entries := (bc_entries c)[i := e]\<rparr>"
  shows "cache_ok D devs m c' \<and>
    same_contents D devs (cache_view c' m) (write_block (cache_view c m) d lba (e_data e))"
proof -
  have len: "length (bc_entries c) = unat (bc_entry_count c)" using ok by (simp add: cache_ok_def)
  have em: "entry_matches c' j d' lba' \<longleftrightarrow>
      (if j = i then d' = d \<and> lba' = lba else entry_matches c j d' lba')" for j d' lba'
    using len i new by (auto simp: entry_matches_def c'_def)
  have ok': "cache_ok D devs m c'"
  proof -
    have "entry_ok D devs (bc_block_size c) m (bc_entries c' ! j)" if "j < unat (bc_entry_count c)" for j
      using that ok new(1) len by (cases "j = i") (auto simp: cache_ok_def c'_def)
    moreover have "j = k" if "entry_matches c' j d' lba'" "entry_matches c' k d' lba'" for j k d' lba'
      using that only ok unfolding em cache_ok_def by (auto split: if_splits)
    ultimately show ?thesis using ok by (auto simp: cache_ok_def c'_def)
  qed
  have "cache_view c' m d' lba' = write_block (cache_view c m) d lba (e_data e) d' lba'"
    if "d' \<in> devs" "in_range D d' lba'" for d' lba'
  proof (cases "d' = d \<and> lba' = lba")
    case True
    then have "entry_matches c' i d' lba'" using em by simp
    from cache_view_hit [OF ok' this] show ?thesis
      using True i len by (simp add: write_block_def c'_def)
  next
    case other: False
    consider (far) j where "entry_matches c j d' lba'" "j \<noteq> i" | (here) "entry_matches c i d' lba'"
      | (none) "\<And>j. \<not> entry_matches c j d' lba'" by blast
    then show ?thesis
    proof cases
      case far
      then show ?thesis
        using cache_view_hit [OF ok far(1)] cache_view_hit [OF ok', of j d' lba'] em other
        by (auto simp: write_block_def c'_def)
    next
      case here
      then have "\<not> e_dirty (bc_entries c ! i)" using old other by (auto simp: entry_matches_def)
      then have "e_data (bc_entries c ! i) = m d' lba'"
        using ok i here by (auto simp: cache_ok_def entry_ok_def entry_matches_def)
      moreover have "\<not> entry_matches c' j d' lba'" for j
        using here other ok unfolding em cache_ok_def by auto
      ultimately show ?thesis
        using cache_view_hit [OF ok here] cache_view_miss [of c' d' lba'] other
        by (auto simp: write_block_def)
    next
      case none
      then show ?thesis
        using cache_view_miss [of c' d' lba'] cache_view_miss [of c d' lba'] em other
        by (auto simp: write_block_def)
    qed
  qed
  with ok' show ?thesis by (simp add: same_contents_def)
qed

lemma cache_ok_cong:
  assumes "same_contents D devs m m'" "cache_ok D devs m c"
  shows "cache_ok D devs m' c"
proof -
  have "entry_ok D devs bs m e \<Longrightarrow> entry_ok D devs bs m' e" for bs e
    using assms(1) by (auto simp: entry_ok_def same_contents_def)
  then show ?thesis using assms(2) by (auto simp: cache_ok_def)
qed

lemma cache_view_cong:
  "same_contents D devs m m' \<Longrightarrow> same_contents D devs (cache_view c m) (cache_view c m')"
  by (simp add: same_contents_def cache_view_def split: option.splits)

lemma clock_hand_irrelevant [simp]:
  "entry_matches (c\<lparr>bc_clock_hand := h\<rparr>) = entry_matches c"
  "mcsos_bcache_find (c\<lparr>bc_clock_hand := h\<rparr>) = mcsos_bcache_find c"
  "cache_view (c\<lparr>bc_clock_hand := h\<rparr>) = cache_view c"
  "cache_ok D devs m (c\<lparr>bc_clock_hand := h\<rparr>) = cache_ok D devs m c"
  by (auto simp: entry_matches_def mcsos_bcache_find_def cache_view_def cache_ok_def fun_eq_iff
           cong: option.case_cong)

text \<open>Writing an entry back makes the device agree with the view, which stays as it was.\<close>

text \<open>A cache entry marked clean, with its data on the disk.\<close>

definition mark_clean :: "nat \<Rightarrow> mcsos_bcache \<Rightarrow> mcsos_bcache" where
  "mark_clean i c = c\<lparr>bc_entries := (bc_entries c)[i := (bc_entries c ! i)\<lparr>e_dirty := False\<rparr>]\<rparr>"

lemma mark_clean_facts:
  assumes "length (bc_entries c) = unat (bc_entry_count c)"
  shows "j < unat (bc_entry_count c) \<Longrightarrow>
      bc_entries (mark_clean i c) ! j = (if j = i then (bc_entries c ! i)\<lparr>e_dirty := False\<rparr> else bc_entries c ! j)"
    "entry_matches (mark_clean i c) = entry_matches c" "bc_entry_count (mark_clean i c) = bc_entry_count c"
    "bc_block_size (mark_clean i c) = bc_block_size c" "length (bc_entries (mark_clean i c)) = length (bc_entries c)"
proof -
  show nth: "bc_entries (mark_clean i c) ! j = (if j = i then (bc_entries c ! i)\<lparr>e_dirty := False\<rparr> else bc_entries c ! j)"
    if "j < unat (bc_entry_count c)" for j
    using that assms by (simp add: mark_clean_def)
  show cnt: "bc_entry_count (mark_clean i c) = bc_entry_count c" by (simp add: mark_clean_def)
  show "entry_matches (mark_clean i c) = entry_matches c"
    using nth cnt by (auto simp: entry_matches_def fun_eq_iff split: if_splits)
qed (simp_all add: mark_clean_def)

lemma mark_clean_ok:
  assumes ok: "cache_ok D devs m c" and at: "entry_matches c i d lba"
  shows "cache_ok D devs (write_block m d lba (e_data (bc_entries c ! i))) (mark_clean i c)"
proof -
  let ?m = "write_block m d lba (e_data (bc_entries c ! i))"
  have i: "i < unat (bc_entry_count c)" "e_dev (bc_entries c ! i) = Some d" "e_lba (bc_entries c ! i) = lba"
    "e_valid (bc_entries c ! i)" using at by (auto simp: entry_matches_def)
  have len: "length (bc_entries c) = unat (bc_entry_count c)" using ok by (simp add: cache_ok_def)
  note mc = mark_clean_facts [OF len, where i = i]
  have only: "j = i" if "entry_matches c j d lba" for j using that at ok by (metis cache_ok_def)
  have eok: "entry_ok D devs (bc_block_size c) m (bc_entries c ! j)" if "j < unat (bc_entry_count c)" for j
    using that ok by (simp add: cache_ok_def)
  have "entry_ok D devs (bc_block_size c) ?m (bc_entries (mark_clean i c) ! j)" if j: "j < unat (bc_entry_count c)" for j
  proof (cases "j = i")
    case True
    then show ?thesis using eok [OF j] i mc(1) [OF j] by (auto simp: entry_ok_def write_block_def)
  next
    case False
    then have no: "\<not> entry_matches c j d lba" using only by blast
    have nj: "bc_entries (mark_clean i c) ! j = bc_entries c ! j" using mc(1) [OF j] False by simp
    have "?m d' (e_lba (bc_entries c ! j)) = m d' (e_lba (bc_entries c ! j))"
      if "e_valid (bc_entries c ! j)" "e_dev (bc_entries c ! j) = Some d'" for d'
      using that no j by (simp add: write_block_def entry_matches_def) blast
    then show ?thesis using eok [OF j] unfolding nj entry_ok_def by metis
  qed
  then show ?thesis using ok mc(3-5) unfolding cache_ok_def mc(2) by simp
qed

lemma mark_clean_view:
  assumes ok: "cache_ok D devs m c" and at: "entry_matches c i d lba"
  shows "cache_view (mark_clean i c) (write_block m d lba (e_data (bc_entries c ! i))) d' lba' = cache_view c m d' lba'"
proof -
  have len: "length (bc_entries c) = unat (bc_entry_count c)" using ok by (simp add: cache_ok_def)
  note mc = mark_clean_facts [OF len, where i = i]
  show ?thesis
  proof (cases "\<exists>j. entry_matches c j d' lba'")
    case True
    then obtain j where j: "entry_matches c j d' lba'" ..
    moreover have "e_data (bc_entries (mark_clean i c) ! j) = e_data (bc_entries c ! j)"
      using j mc(1) by (auto simp: entry_matches_def)
    ultimately show ?thesis using cache_view_hit [OF ok] cache_view_hit [OF mark_clean_ok [OF ok at]] mc(2) by metis
  next
    case False
    then have "\<not> (d' = d \<and> lba' = lba)" using at by auto
    then show ?thesis
      using False mc(2) cache_view_miss [of c d' lba'] cache_view_miss [of "mark_clean i c" d' lba']
      by (auto simp: write_block_def)
  qed
qed

lemma write_back:
  fixes c :: mcsos_bcache
  assumes ok: "cache_ok D devs m c" and at: "entry_matches c i d lba"
    and m': "same_contents D devs m' (write_block m d lba (e_data (bc_entries c ! i)))"
  defines "c' \<equiv> c\<lparr>bc_entries := (bc_entries c)[i := (bc_entries c ! i)\<lparr>e_dirty := False\<rparr>]\<rparr>"
  shows "cache_ok D devs m' c' \<and> entry_matches c' = entry_matches c \<and>
    same_contents D devs (cache_view c' m') (cache_view c m)"
proof -
  let ?m = "write_block m d lba (e_data (bc_entries c ! i))"
  have c': "c' = mark_clean i c" by (simp add: c'_def mark_clean_def)
  have "length (bc_entries c) = unat (bc_entry_count c)" using ok by (simp add: cache_ok_def)
  note em = mark_clean_facts(2) [OF this, of i]
  have "same_contents D devs (cache_view c' ?m) (cache_view c m)"
    using mark_clean_view [OF ok at] by (simp add: same_contents_def c')
  with cache_view_cong [OF m', of c'] have "same_contents D devs (cache_view c' m') (cache_view c m)"
    using same_contents_trans by blast
  then show ?thesis
    using em cache_ok_cong [OF same_contents_sym [OF m'] mark_clean_ok [OF ok at]] unfolding c' by blast
qed

context block_store
begin

lemma flush_entry_ok:
  assumes w: "inv w" and ok: "cache_ok D devs (blocks w) c" and i: "i < unat (bc_entry_count c)"
  obtains e' w' where "mcsos_bcache_flush_entry D (bc_entries c ! i) w = (MCSOS_BLK_OK, e', w')"
    "inv w'" "\<not> e_valid e' \<or> \<not> e_dirty e'"
    "cache_ok D devs (blocks w') (c\<lparr>bc_entries := (bc_entries c)[i := e']\<rparr>)"
    "entry_matches (c\<lparr>bc_entries := (bc_entries c)[i := e']\<rparr>) = entry_matches c"
    "same_contents D devs (cache_view (c\<lparr>bc_entries := (bc_entries c)[i := e']\<rparr>) (blocks w'))
       (cache_view c (blocks w))"
proof (cases "e_valid (bc_entries c ! i) \<and> e_dirty (bc_entries c ! i)")
  case False
  have "c\<lparr>bc_entries := (bc_entries c)[i := bc_entries c ! i]\<rparr> = c" by simp
  then show thesis
    using False w ok by (intro that [of "bc_entries c ! i" w]) (auto simp: mcsos_bcache_flush_entry_def)
next
  case True
  let ?e = "bc_entries c ! i"
  have "entry_ok D devs (bc_block_size c) (blocks w) ?e" using ok i by (simp add: cache_ok_def)
  then obtain d where d: "d \<in> devs" "e_dev ?e = Some d" "in_range D d (e_lba ?e)"
      "length (e_data ?e) = blk_bytes D d"
    using True by (auto simp: entry_ok_def blk_bytes_def)
  from write_one [OF w d(1,3,4)] obtain w' where
    w': "mcsos_blk_write (D d) (e_lba ?e) 1 (Some (e_data ?e)) w = (MCSOS_BLK_OK, Some (e_data ?e), w')"
      "inv w'" "same_contents D devs (blocks w') (write_block (blocks w) d (e_lba ?e) (e_data ?e))"
    by blast
  have "entry_matches c i d (e_lba ?e)" using i True d(2) by (simp add: entry_matches_def)
  note wb = write_back [OF ok this w'(3)]
  have "mcsos_bcache_flush_entry D ?e w = (MCSOS_BLK_OK, ?e\<lparr>e_dirty := False\<rparr>, w')"
    using True d(2) w'(1) by (simp add: mcsos_bcache_flush_entry_def)
  then show thesis using wb w'(2) by (intro that [of "?e\<lparr>e_dirty := False\<rparr>" w']) auto
qed

lemma victim_ok:
  assumes w: "inv w" and ok: "cache_ok D devs (blocks w) c"
  obtains i c1 w1 where "mcsos_bcache_select_victim D c w = (MCSOS_BLK_OK, Some i, c1, w1)" "inv w1"
    "i < unat (bc_entry_count c1)" "cache_ok D devs (blocks w1) c1" "entry_matches c1 = entry_matches c"
    "bc_block_size c1 = bc_block_size c" "\<not> e_valid (bc_entries c1 ! i) \<or> \<not> e_dirty (bc_entries c1 ! i)"
    "same_contents D devs (cache_view c1 (blocks w1)) (cache_view c (blocks w))"
proof -
  define n where "n = bc_entry_count c"
  define start :: u32 where "start = ucast (bc_clock_hand c mod ucast n)"
  define idx where "idx = (\<lambda>pass :: nat. (start + of_nat pass) mod n)"
  have n: "n \<noteq> 0" "length (bc_entries c) = unat n" using ok by (auto simp: cache_ok_def n_def)
  have idx: "unat (idx k) < unat n" for k
    using n(1) by (simp add: idx_def unat_mod unat_gt_0)
  show thesis
  proof (cases "first_index (\<lambda>pass. \<not> e_valid (bc_entries c ! unat (idx pass))) 0 (unat n)")
    case (Some k)
    let ?c = "c\<lparr>bc_clock_hand := ucast (idx k + 1)\<rparr>"
    have "mcsos_bcache_select_victim D c w = (MCSOS_BLK_OK, Some (unat (idx k)), ?c, w)"
      using Some n(1)
      by (simp add: mcsos_bcache_select_victim_def Let_def n_def start_def idx_def)
    then show thesis
      using w ok idx [of k] first_index_SomeD(3) [OF Some]
      by (intro that [of "unat (idx k)" ?c w]) (auto simp: n_def)
  next
    case None
    have "unat (bc_clock_hand c mod ucast n) < unat n"
    proof -
      have "unat (ucast n :: u64) = unat n" by (rule unat_ucast_up) simp
      moreover have "0 < unat n" using n(1) by (simp add: unat_gt_0)
      ultimately show ?thesis by (simp add: unat_mod)
    qed
    moreover have "unat (start) = unat (bc_clock_hand c mod ucast n) mod 2 ^ 32"
      by (simp add: start_def unsigned_ucast_eq take_bit_eq_mod)
    ultimately have st: "unat start < unat n" by (metis le_less_trans mod_less_eq_dividend)
    from flush_entry_ok [OF w ok, of "unat start"] st obtain e' w' where
      f: "mcsos_bcache_flush_entry D (bc_entries c ! unat start) w = (MCSOS_BLK_OK, e', w')" "inv w'"
        "\<not> e_valid e' \<or> \<not> e_dirty e'"
        "cache_ok D devs (blocks w') (c\<lparr>bc_entries := (bc_entries c)[unat start := e']\<rparr>)"
        "entry_matches (c\<lparr>bc_entries := (bc_entries c)[unat start := e']\<rparr>) = entry_matches c"
        "same_contents D devs (cache_view (c\<lparr>bc_entries := (bc_entries c)[unat start := e']\<rparr>) (blocks w'))
           (cache_view c (blocks w))"
      unfolding n_def by metis
    let ?c = "c\<lparr>bc_entries := (bc_entries c)[unat start := e']\<rparr>"
    let ?c1 = "?c\<lparr>bc_clock_hand := ucast (start + 1)\<rparr>"
    have "mcsos_bcache_select_victim D c w = (MCSOS_BLK_OK, Some (unat start), ?c1, w')"
      using None n(1) f(1)
      by (simp add: mcsos_bcache_select_victim_def Let_def n_def start_def idx_def)
    then show thesis
      using f(2-6) st n(2)
      by (intro that [of "unat start" ?c1 w']) (simp_all add: n_def)
  qed
qed

lemma cache_hit_data:
  assumes ok: "cache_ok D devs (blocks w) c" and f: "mcsos_bcache_find c (Some d) lba = Some i"
  shows "cache_view c (blocks w) d lba = e_data (bc_entries c ! i)"
    "length (e_data (bc_entries c ! i)) = unat (bc_block_size c)"
  using cache_view_hit [OF ok find_matches [OF f]] ok find_matches [OF f]
  by (auto simp: cache_ok_def entry_ok_def entry_matches_def)

lemma bcache_read_ok:
  assumes w: "inv w" and ok: "cache_ok D devs (blocks w) c" and d: "d \<in> devs" "in_range D d lba"
    and bs: "bc_block_size c = dev_block_size (the (D d))" and buf: "length buf = blk_bytes D d"
  shows "\<exists>c' w'. mcsos_bcache_read D (Some c) (Some d) lba (Some buf) w =
      (MCSOS_BLK_OK, Some (cache_view c (blocks w) d lba), Some c', w') \<and>
    inv w' \<and> cache_ok D devs (blocks w') c' \<and> bc_block_size c' = bc_block_size c \<and>
    same_contents D devs (cache_view c' (blocks w')) (cache_view c (blocks w))"
proof -
  obtain dv where dv: "D d = Some dv" using present [OF w d(1)] by auto
  show ?thesis
  proof (cases "mcsos_bcache_find c (Some d) lba")
    case (Some i)
    then show ?thesis
      using cache_hit_data [OF ok Some] w ok bs dv buf
      by (auto simp: mcsos_bcache_read_def mcsos_memcpy_u8_bcache_def copy_loop_whole blk_bytes_def)
  next
    case None
    obtain i c1 w1 where
      v: "mcsos_bcache_select_victim D c w = (MCSOS_BLK_OK, Some i, c1, w1)" "inv w1"
        "i < unat (bc_entry_count c1)" "cache_ok D devs (blocks w1) c1" "entry_matches c1 = entry_matches c"
        "bc_block_size c1 = bc_block_size c" "\<not> e_valid (bc_entries c1 ! i) \<or> \<not> e_dirty (bc_entries c1 ! i)"
        "same_contents D devs (cache_view c1 (blocks w1)) (cache_view c (blocks w))"
      by (rule victim_ok [OF w ok])
    let ?e = "bc_entries c1 ! i" and ?b = "blocks w1 d lba"
    let ?e1 = "?e\<lparr>e_data := ?b, e_dev := Some d, e_lba := lba, e_valid := True, e_dirty := False\<rparr>"
    let ?c2 = "c1\<lparr>bc_entries := (bc_entries c1)[i := ?e1]\<rparr>"
    have "entry_ok D devs (bc_block_size c1) (blocks w1) ?e" using v(3,4) by (simp add: cache_ok_def)
    then have "length (e_data ?e) = blk_bytes D d" using v(6) bs by (simp add: entry_ok_def blk_bytes_def)
    note rd = read_one [OF v(2) d this]
    have len: "length ?b = blk_bytes D d" by (rule block_length [OF v(2) d])
    have miss: "\<not> entry_matches c1 j d lba" for j using None v(5) by (simp add: find_None_iff)
    then have old: "cache_view c1 (blocks w1) d lba = ?b" by (rule cache_view_miss)
    have "cache_ok D devs (blocks w1) ?c2 \<and>
        same_contents D devs (cache_view ?c2 (blocks w1))
          (write_block (cache_view c1 (blocks w1)) d lba (e_data ?e1))"
      by (rule replace_entry [OF v(4,3)])
         (use v(6,7) miss d bs len in \<open>auto simp: entry_ok_def blk_bytes_def\<close>)
    moreover have "write_block (cache_view c1 (blocks w1)) d lba (e_data ?e1) = cache_view c1 (blocks w1)"
      using old by (auto simp: write_block_def fun_eq_iff)
    ultimately have "cache_ok D devs (blocks w1) ?c2"
        "same_contents D devs (cache_view ?c2 (blocks w1)) (cache_view c (blocks w))"
      using v(8) same_contents_trans by auto
    moreover have "cache_view c (blocks w) d lba = ?b"
      using v(8) d old by (simp add: same_contents_def)
    moreover have "mcsos_bcache_read D (Some c) (Some d) lba (Some buf) w =
        (MCSOS_BLK_OK, Some ?b, Some ?c2, w1)"
      using None v(1,6) rd dv bs buf len
      by (simp add: mcsos_bcache_read_def Let_def mcsos_memcpy_u8_bcache_def copy_loop_whole blk_bytes_def)
    ultimately show ?thesis using v(2,6) by auto
  qed
qed

lemma bcache_write_hit:
  assumes w: "inv w" and ok: "cache_ok D devs (blocks w) c" and d: "d \<in> devs" "in_range D d lba" "D d = Some dv"
    and bs: "bc_block_size c = dev_block_size dv" and buf: "length buf = blk_bytes D d" and hit: "mcsos_bcache_find c (Some d) lba = Some i"
  defines "e \<equiv> (bc_entries c ! i)\<lparr>e_data := buf, e_dirty := True\<rparr>"
  defines "c' \<equiv> c\<lparr>bc_entries := (bc_entries c)[i := e]\<rparr>"
  shows "mcsos_bcache_write D (Some c) (Some d) lba (Some buf) w = (MCSOS_BLK_OK, Some c', w)" "cache_ok D devs (blocks w) c'"
    "same_contents D devs (cache_view c' (blocks w)) (write_block (cache_view c (blocks w)) d lba buf)"
proof -
  have at: "entry_matches c i d lba" by (rule find_matches [OF hit])
  then have i: "i < unat (bc_entry_count c)" by (simp add: entry_matches_def)
  have "cache_ok D devs (blocks w) c' \<and>
      same_contents D devs (cache_view c' (blocks w)) (write_block (cache_view c (blocks w)) d lba (e_data e))"
    unfolding c'_def
  proof (rule replace_entry [OF ok i])
    show "j = i" if "entry_matches c j d lba" for j using that at ok by (metis cache_ok_def)
    show "entry_ok D devs (bc_block_size c) (blocks w) e"
      using at d bs buf by (simp add: e_def entry_ok_def blk_bytes_def entry_matches_def)
  qed (use at in \<open>simp_all add: e_def entry_matches_def\<close>)
  then show "cache_ok D devs (blocks w) c'"
    "same_contents D devs (cache_view c' (blocks w)) (write_block (cache_view c (blocks w)) d lba buf)" by (simp_all add: e_def)
  show "mcsos_bcache_write D (Some c) (Some d) lba (Some buf) w = (MCSOS_BLK_OK, Some c', w)"
    using hit d(3) bs buf cache_hit_data(2) [OF ok hit]
    by (simp add: mcsos_bcache_write_def mcsos_memcpy_u8_bcache_def copy_loop_whole blk_bytes_def c'_def e_def)
qed

lemma bcache_write_ok:
  assumes w: "inv w" and ok: "cache_ok D devs (blocks w) c" and d: "d \<in> devs" "in_range D d lba"
    and bs: "bc_block_size c = dev_block_size (the (D d))" and buf: "length buf = blk_bytes D d"
  shows "\<exists>c' w'. mcsos_bcache_write D (Some c) (Some d) lba (Some buf) w = (MCSOS_BLK_OK, Some c', w') \<and>
    inv w' \<and> cache_ok D devs (blocks w') c' \<and> bc_block_size c' = bc_block_size c \<and>
    same_contents D devs (cache_view c' (blocks w')) (write_block (cache_view c (blocks w)) d lba buf)"
proof -
  obtain dv where dv: "D d = Some dv" using present [OF w d(1)] by auto
  show ?thesis
  proof (cases "mcsos_bcache_find c (Some d) lba")
    case (Some i)
    show ?thesis using bcache_write_hit [OF w ok d dv _ buf Some] bs dv w by fastforce
  next
    case None
    obtain i c1 w1 where
      v: "mcsos_bcache_select_victim D c w = (MCSOS_BLK_OK, Some i, c1, w1)" "inv w1"
        "i < unat (bc_entry_count c1)" "cache_ok D devs (blocks w1) c1" "entry_matches c1 = entry_matches c"
        "bc_block_size c1 = bc_block_size c" "\<not> e_valid (bc_entries c1 ! i) \<or> \<not> e_dirty (bc_entries c1 ! i)"
        "same_contents D devs (cache_view c1 (blocks w1)) (cache_view c (blocks w))"
      by (rule victim_ok [OF w ok])
    let ?e = "bc_entries c1 ! i"
    let ?e1 = "?e\<lparr>e_dev := Some d, e_lba := lba, e_valid := True, e_data := buf, e_dirty := True\<rparr>"
    let ?c2 = "c1\<lparr>bc_entries := (bc_entries c1)[i := ?e1]\<rparr>"
    have len: "length (bc_entries c1) = unat (bc_entry_count c1)" using v(4) by (simp add: cache_ok_def)
    have "entry_ok D devs (bc_block_size c1) (blocks w1) ?e" using v(3,4) by (simp add: cache_ok_def)
    then have el: "length (e_data ?e) = length buf" using v(6) bs buf by (simp add: entry_ok_def blk_bytes_def)
    have miss: "\<not> entry_matches c1 j d lba" for j using None v(5) by (simp add: find_None_iff)
    have "cache_ok D devs (blocks w1) ?c2 \<and>
        same_contents D devs (cache_view ?c2 (blocks w1))
          (write_block (cache_view c1 (blocks w1)) d lba (e_data ?e1))"
      by (rule replace_entry [OF v(4,3)])
         (use v(6,7) miss d bs buf in \<open>auto simp: entry_ok_def blk_bytes_def\<close>)
    then have "cache_ok D devs (blocks w1) ?c2"
        "same_contents D devs (cache_view ?c2 (blocks w1)) (write_block (cache_view c (blocks w)) d lba buf)"
      using same_contents_write_cong [OF v(8), of d lba buf] same_contents_trans by auto
    moreover have "mcsos_bcache_write D (Some c) (Some d) lba (Some buf) w = (MCSOS_BLK_OK, Some ?c2, w1)"
      using None v(1,3,6) len el dv bs buf
      by (simp add: mcsos_bcache_write_def Let_def mcsos_memcpy_u8_bcache_def copy_loop_whole blk_bytes_def)
    ultimately show ?thesis using v(2,6) by auto
  qed
qed

lemma flush_entries_ok:
  assumes "inv w" "cache_ok D devs (blocks w) (c\<lparr>bc_entries := pre @ es\<rparr>)"
  shows "\<exists>es' w'. flush_entries D es w = (MCSOS_BLK_OK, es', w') \<and> inv w' \<and> length es' = length es \<and>
    (\<forall>e \<in> set es'. \<not> e_valid e \<or> \<not> e_dirty e) \<and>
    cache_ok D devs (blocks w') (c\<lparr>bc_entries := pre @ es'\<rparr>) \<and>
    same_contents D devs (cache_view (c\<lparr>bc_entries := pre @ es'\<rparr>) (blocks w'))
      (cache_view (c\<lparr>bc_entries := pre @ es\<rparr>) (blocks w))"
  using assms
proof (induction es arbitrary: pre w)
  case Nil
  then show ?case by auto
next
  case (Cons e es)
  let ?c = "c\<lparr>bc_entries := pre @ e # es\<rparr>"
  have i: "length pre < unat (bc_entry_count ?c)" using Cons.prems(2) by (simp add: cache_ok_def)
  obtain e' w1 where
    f: "mcsos_bcache_flush_entry D e w = (MCSOS_BLK_OK, e', w1)" "inv w1" "\<not> e_valid e' \<or> \<not> e_dirty e'"
      "cache_ok D devs (blocks w1) (c\<lparr>bc_entries := (pre @ [e']) @ es\<rparr>)"
      "same_contents D devs (cache_view (c\<lparr>bc_entries := (pre @ [e']) @ es\<rparr>) (blocks w1))
         (cache_view ?c (blocks w))"
    by (rule flush_entry_ok [OF Cons.prems i]) (auto simp: list_update_append)
  from Cons.IH [OF f(2,4)] obtain es' w' where
    g: "flush_entries D es w1 = (MCSOS_BLK_OK, es', w')" "inv w'" "length es' = length es"
      "\<forall>e \<in> set es'. \<not> e_valid e \<or> \<not> e_dirty e"
      "cache_ok D devs (blocks w') (c\<lparr>bc_entries := (pre @ [e']) @ es'\<rparr>)"
      "same_contents D devs (cache_view (c\<lparr>bc_entries := (pre @ [e']) @ es'\<rparr>) (blocks w'))
         (cache_view (c\<lparr>bc_entries := (pre @ [e']) @ es\<rparr>) (blocks w1))"
    by blast
  show ?case
    using f g same_contents_trans [OF g(6) f(5)]
    by (intro exI [of _ "e' # es'"] exI [of _ w']) simp
qed

text \<open>After a flush the devices hold what the cache shows.\<close>

lemma bcache_flush_ok:
  assumes w: "inv w" and ok: "cache_ok D devs (blocks w) c"
  shows "\<exists>c' w'. mcsos_bcache_flush_all D (Some c) w = (MCSOS_BLK_OK, Some c', w') \<and> inv w' \<and>
    cache_ok D devs (blocks w') c' \<and> bc_block_size c' = bc_block_size c \<and>
    same_contents D devs (blocks w') (cache_view c (blocks w)) \<and>
    same_contents D devs (cache_view c' (blocks w')) (cache_view c (blocks w))"
proof -
  have len: "length (bc_entries c) = unat (bc_entry_count c)" "bc_entry_count c \<noteq> 0"
    using ok by (auto simp: cache_ok_def)
  then have ne: "bc_entries c \<noteq> []" by (metis list.size(3) unat_eq_zero)
  have "cache_ok D devs (blocks w) (c\<lparr>bc_entries := [] @ bc_entries c\<rparr>)" using ok by simp
  from flush_entries_ok [OF w this] obtain es' w' where
    f: "flush_entries D (bc_entries c) w = (MCSOS_BLK_OK, es', w')" "inv w'"
      "length es' = length (bc_entries c)" "\<forall>e \<in> set es'. \<not> e_valid e \<or> \<not> e_dirty e"
      "cache_ok D devs (blocks w') (c\<lparr>bc_entries := es'\<rparr>)"
      "same_contents D devs (cache_view (c\<lparr>bc_entries := es'\<rparr>) (blocks w')) (cache_view c (blocks w))"
    by auto
  let ?c = "c\<lparr>bc_entries := es'\<rparr>"
  have "cache_view ?c (blocks w') d lba = blocks w' d lba" for d lba
  proof (cases "\<exists>i. entry_matches ?c i d lba")
    case True
    then obtain i where i: "entry_matches ?c i d lba" ..
    then have e: "i < length es'" "e_valid (es' ! i)" "e_dev (es' ! i) = Some d" "e_lba (es' ! i) = lba"
      using f(3) len by (auto simp: entry_matches_def)
    then have "\<not> e_dirty (es' ! i)" using f(4) nth_mem by blast
    moreover have "entry_ok D devs (bc_block_size c) (blocks w') (es' ! i)"
      using f(5) e(1) f(3) len by (auto simp: cache_ok_def)
    ultimately have "e_data (es' ! i) = blocks w' d lba" using e by (auto simp: entry_ok_def)
    then show ?thesis using cache_view_hit [OF f(5) i] by simp
  next
    case False
    then show ?thesis by (intro cache_view_miss) blast
  qed
  then have "same_contents D devs (blocks w') (cache_view ?c (blocks w'))" by (simp add: same_contents_def)
  moreover have "mcsos_bcache_flush_all D (Some c) w = (MCSOS_BLK_OK, Some ?c, w')"
    using f(1) ne len by (simp add: mcsos_bcache_flush_all_def Let_def)
  ultimately show ?thesis using f same_contents_trans by auto
qed

lemma run_contents_cong:
  assumes "same_contents D devs m m'" "\<forall>op \<in> set ops. cache_op_ok D devs bs op"
  shows "fst (run_contents ops m) = fst (run_contents ops m') \<and>
    same_contents D devs (snd (run_contents ops m)) (snd (run_contents ops m'))"
  using assms
proof (induction ops m arbitrary: m' rule: run_contents.induct)
  case (2 d lba ops m)
  have "m d lba = m' d lba" using "2.prems" by (simp add: same_contents_def)
  then show ?case using "2.IH" [OF "2.prems"(1)] "2.prems"(2) by (auto split: prod.splits)
next
  case (3 d lba b ops m)
  have "\<forall>op \<in> set ops. cache_op_ok D devs bs op" using "3.prems"(2) by simp
  from "3.IH" [OF same_contents_write_cong [OF "3.prems"(1)] this] show ?case
    by (auto split: prod.splits)
next
  case (4 ops m)
  have "\<forall>op \<in> set ops. cache_op_ok D devs bs op" using "4.prems"(2) by simp
  from "4.IH" [OF "4.prems"(1) this] show ?case by (auto split: prod.splits)
qed auto

lemma run_cache_ok:
  assumes "inv w" "cache_ok D devs (blocks w) c" "\<forall>op \<in> set ops. cache_op_ok D devs (bc_block_size c) op"
  shows "\<exists>c' w'. run_cache D ops (Some c) w =
      (fst (run_contents ops (cache_view c (blocks w))), Some c', w') \<and>
    inv w' \<and> cache_ok D devs (blocks w') c' \<and>
    same_contents D devs (cache_view c' (blocks w')) (snd (run_contents ops (cache_view c (blocks w))))"
  using assms
proof (induction ops arbitrary: c w)
  case Nil
  then show ?case by simp
next
  case (Cons op ops)
  let ?m = "cache_view c (blocks w)"
  have ops: "\<forall>op \<in> set ops. cache_op_ok D devs (bc_block_size c) op" using Cons.prems(3) by simp
  have step: "\<exists>c2 w2. run_cache D ops (Some c1) w1 = (fst (run_contents ops m1), Some c2, w2) \<and> inv w2 \<and>
      cache_ok D devs (blocks w2) c2 \<and>
      same_contents D devs (cache_view c2 (blocks w2)) (snd (run_contents ops m1))"
    if "inv w1" "cache_ok D devs (blocks w1) c1" "bc_block_size c1 = bc_block_size c"
      "same_contents D devs (cache_view c1 (blocks w1)) m1" for c1 w1 m1
    using Cons.IH [of w1 c1] that ops run_contents_cong [OF that(4) ops] same_contents_trans by auto
  show ?case
  proof (cases op)
    case (CRead d lba)
    then obtain c1 w1 where "mcsos_bcache_read D (Some c) (Some d) lba (Some (replicate (blk_bytes D d) 0)) w =
        (MCSOS_BLK_OK, Some (?m d lba), Some c1, w1)" "inv w1" "cache_ok D devs (blocks w1) c1"
        "bc_block_size c1 = bc_block_size c" "same_contents D devs (cache_view c1 (blocks w1)) ?m"
      using bcache_read_ok [OF Cons.prems(1,2), of d lba "replicate (blk_bytes D d) 0"] Cons.prems(3) by auto
    with step show ?thesis unfolding CRead by (fastforce split: prod.splits)
  next
    case (CWrite d lba b)
    then obtain c1 w1 where "mcsos_bcache_write D (Some c) (Some d) lba (Some b) w = (MCSOS_BLK_OK, Some c1, w1)"
        "inv w1" "cache_ok D devs (blocks w1) c1" "bc_block_size c1 = bc_block_size c"
        "same_contents D devs (cache_view c1 (blocks w1)) (write_block ?m d lba b)"
      using bcache_write_ok [OF Cons.prems(1,2), of d lba b] Cons.prems(3) by (auto simp: blk_bytes_def)
    with step show ?thesis unfolding CWrite by (fastforce split: prod.splits)
  next
    case CFlush
    obtain c1 w1 where "mcsos_bcache_flush_all D (Some c) w = (MCSOS_BLK_OK, Some c1, w1)"
        "inv w1" "cache_ok D devs (blocks w1) c1" "bc_block_size c1 = bc_block_size c"
        "same_contents D devs (cache_view c1 (blocks w1)) ?m"
      using bcache_flush_ok [OF Cons.prems(1,2)] by blast
    with step show ?thesis unfolding CFlush by (fastforce split: prod.splits)
  qed
qed

end

section \<open>The RAM disk is a block store\<close>

definition ram_of :: "(nat \<Rightarrow> ram_store mcsos_blk_device option) \<Rightarrow> nat \<Rightarrow> nat" where
  "ram_of D d = the (driver_data (the (D d)))"

definition ram_ok :: "(nat \<Rightarrow> ram_store mcsos_blk_device option) \<Rightarrow> nat set \<Rightarrow> ram_store \<Rightarrow> bool" where
  "ram_ok D devs w \<longleftrightarrow> inj_on (ram_of D) devs \<and>
     (\<forall>d \<in> devs. \<exists>dv r ram. D d = Some dv \<and> dev_ops dv = Some g_ramblk_ops \<and> driver_data dv = Some r \<and>
        w r = Some ram \<and> length (rb_storage ram) = unat (storage_size ram) \<and>
        unat (storage_size ram) = unat (dev_block_count dv) * unat (dev_block_size dv) \<and>
        0 < unat (dev_block_size dv))"

definition ram_blocks :: "(nat \<Rightarrow> ram_store mcsos_blk_device option) \<Rightarrow> ram_store \<Rightarrow> contents" where
  "ram_blocks D w = (\<lambda>d lba. slice (unat lba * blk_bytes D d) (blk_bytes D d) (rb_storage (the (w (ram_of D d)))))"

lemma truncate_fields [simp]:
  "driver_data (blk_descriptor.truncate dv) = driver_data dv"
  "dev_block_size (blk_descriptor.truncate dv) = dev_block_size dv"
  by (simp_all add: blk_descriptor.truncate_def)

text \<open>Multi-block transfers: the byte arithmetic of the driver does not wrap for a request that the
  block layer has admitted.\<close>

lemma ram_request:
  assumes "unat sz = unat bc * unat bs" "unat lba + unat n \<le> unat bc"
  shows "unat (lba * ucast bs) = unat lba * unat bs"
    "unat (ucast (n :: u32) * ucast (bs :: u32) :: u64) = unat n * unat bs"
    "unat lba * unat bs + unat n * unat bs \<le> unat (sz :: u64)"
    "\<not> sz < lba * ucast bs" "\<not> sz - lba * ucast bs < ucast n * ucast bs"
proof -
  have "(unat lba + unat n) * unat bs \<le> unat bc * unat bs" using assms(2) by (rule mult_right_mono) simp
  then show le: "unat lba * unat bs + unat n * unat bs \<le> unat sz"
    using assms(1) by (simp add: algebra_simps)
  have up: "unat (ucast bs :: u64) = unat bs" "unat (ucast n :: u64) = unat n"
    by (simp_all add: unat_ucast_up)
  show a: "unat (lba * ucast bs) = unat lba * unat bs"
    using le unat_bound [of sz] up by (simp add: unat_word_ariths)
  show b: "unat (ucast n * ucast bs :: u64) = unat n * unat bs"
    using le unat_bound [of sz] up by (simp add: unat_word_ariths)
  show "\<not> sz < lba * ucast bs" using a le by (simp add: word_less_nat_alt)
  then show "\<not> sz - lba * ucast bs < ucast n * ucast bs"
    using a b le by (simp add: word_less_nat_alt unat_sub word_le_nat_alt)
qed

lemma range_admitted:
  assumes "dev_ops dv \<noteq> None" "unat lba + unat n \<le> unat (dev_block_count dv)" "0 < unat n"
  shows "mcsos_blk_validate_range (Some dv) lba n (Some buf) = MCSOS_BLK_OK"
proof -
  have "lba < dev_block_count dv" using assms by (simp add: word_less_nat_alt)
  moreover have "unat (dev_block_count dv - lba) = unat (dev_block_count dv) - unat lba"
    using assms by (simp add: unat_sub word_le_nat_alt)
  ultimately show ?thesis
    using assms unat_ucast_up [of n, where 'b = 64]
    by (auto simp: mcsos_blk_validate_range_def word_less_nat_alt word_le_nat_alt)
qed

lemma ram_read:
  assumes "D d = Some dv" "dev_ops dv = Some g_ramblk_ops" "driver_data dv = Some r" "w r = Some ram"
    and "length (rb_storage ram) = unat (storage_size ram)"
    and "unat (storage_size ram) = unat (dev_block_count dv) * unat (dev_block_size dv)"
    and "unat lba + unat n \<le> unat (dev_block_count dv)" "0 < unat n"
    and "length buf = unat n * unat (dev_block_size dv)"
  shows "mcsos_blk_read (D d) lba n (Some buf) w =
    (MCSOS_BLK_OK, Some (slice (unat lba * unat (dev_block_size dv)) (length buf) (rb_storage ram)), w)"
proof -
  note rq = ram_request [OF assms(6,7)]
  have "copy_loop 0 buf (unat lba * unat (dev_block_size dv)) (rb_storage ram) (length buf) =
      slice (unat lba * unat (dev_block_size dv)) (length buf) (rb_storage ram)"
    using rq(3) assms(5,9) by (simp add: copy_loop_patch patch_def)
  then show ?thesis
    using assms rq range_admitted [of dv lba n buf]
    by (simp add: mcsos_blk_read_def g_ramblk_ops_def mcsos_ramblk_read_def mcsos_ramblk_rw_def Let_def
                  mcsos_memcpy_u8_def)
qed

lemma ram_write:
  assumes "D d = Some dv" "dev_ops dv = Some g_ramblk_ops" "driver_data dv = Some r" "w r = Some ram"
    and "length (rb_storage ram) = unat (storage_size ram)"
    and "unat (storage_size ram) = unat (dev_block_count dv) * unat (dev_block_size dv)"
    and "unat lba + unat n \<le> unat (dev_block_count dv)" "0 < unat n"
    and "length buf = unat n * unat (dev_block_size dv)"
  shows "mcsos_blk_write (D d) lba n (Some buf) w =
    (MCSOS_BLK_OK, Some buf,
     w(r \<mapsto> ram\<lparr>rb_storage := patch (unat lba * unat (dev_block_size dv)) buf (rb_storage ram)\<rparr>))"
proof -
  note rq = ram_request [OF assms(6,7)]
  have "copy_loop (unat lba * unat (dev_block_size dv)) (rb_storage ram) 0 buf (length buf) =
      patch (unat lba * unat (dev_block_size dv)) buf (rb_storage ram)"
    using rq(3) assms(5,9) by (simp add: copy_loop_patch)
  then show ?thesis
    using assms rq range_admitted [of dv lba n buf]
    by (simp add: mcsos_blk_write_def g_ramblk_ops_def mcsos_ramblk_write_def mcsos_ramblk_rw_def Let_def
                  mcsos_memcpy_u8_def)
qed

lemma ram_okE:
  assumes "ram_ok D devs w" "d \<in> devs"
  obtains dv r ram where "D d = Some dv" "dev_ops dv = Some g_ramblk_ops" "driver_data dv = Some r"
    "w r = Some ram" "length (rb_storage ram) = unat (storage_size ram)"
    "unat (storage_size ram) = unat (dev_block_count dv) * unat (dev_block_size dv)"
    "0 < unat (dev_block_size dv)" "ram_of D d = r" "blk_bytes D d = unat (dev_block_size dv)"
proof -
  obtain dv r ram where "D d = Some dv" "dev_ops dv = Some g_ramblk_ops" "driver_data dv = Some r"
    "w r = Some ram" "length (rb_storage ram) = unat (storage_size ram)"
    "unat (storage_size ram) = unat (dev_block_count dv) * unat (dev_block_size dv)"
    "0 < unat (dev_block_size dv)"
    using assms by (force simp: ram_ok_def)
  then show thesis by (intro that [of dv r ram]) (auto simp: ram_of_def blk_bytes_def)
qed

lemma in_range_one:
  "in_range D d lba \<Longrightarrow> D d = Some dv \<Longrightarrow> unat lba + unat (1 :: u32) \<le> unat (dev_block_count dv)"
  by (simp add: in_range_def word_less_nat_alt)

lemma block_span:
  assumes "lba < (c :: u64)"
  shows "unat lba * bs + bs \<le> unat c * bs"
proof -
  have "Suc (unat lba) * bs \<le> unat c * bs"
    using assms by (intro mult_right_mono) (auto simp: word_less_nat_alt)
  then show ?thesis by simp
qed

lemma ram_block_update:
  assumes "a < c" "lba < (c :: u64)" "length st = unat c * bs" "length buf = bs" "0 < bs"
  shows "slice (unat a * bs) bs (patch (unat lba * bs) buf st) =
    (if a = lba then buf else slice (unat a * bs) bs st)"
proof (cases "a = lba")
  case True
  then show ?thesis using assms block_span [OF assms(2), of bs] by simp
next
  case False
  then consider "a < lba" | "lba < a" by force
  then have "unat a * bs + bs \<le> unat lba * bs \<or> unat lba * bs + bs \<le> unat a * bs"
    by cases (auto dest: block_span)
  then show ?thesis
    using False assms block_span [OF assms(1), of bs] block_span [OF assms(2), of bs]
    by (simp add: slice_patch_other)
qed

text \<open>One block of one RAM disk overwritten: the disks stay well formed, and only that block changes.\<close>

lemma ram_store_block:
  assumes w: "ram_ok D devs w" and d: "d \<in> devs" and dv: "D d = Some dv" "w (ram_of D d) = Some ram"
    and lt: "lba < dev_block_count dv" and buf: "length buf = unat (dev_block_size dv)"
  defines "ram' \<equiv> ram\<lparr>rb_storage := patch (unat lba * unat (dev_block_size dv)) buf (rb_storage ram)\<rparr>"
  defines "w' \<equiv> w(ram_of D d \<mapsto> ram')"
  shows "ram_ok D devs w'" "same_contents D devs (ram_blocks D w') (write_block (ram_blocks D w) d lba buf)"
proof -
  obtain dv0 r ram0 where e0: "D d = Some dv0" "driver_data dv0 = Some r" "w r = Some ram0"
      "length (rb_storage ram0) = unat (storage_size ram0)"
      "unat (storage_size ram0) = unat (dev_block_count dv0) * unat (dev_block_size dv0)" "0 < unat (dev_block_size dv0)"
      "ram_of D d = r" "blk_bytes D d = unat (dev_block_size dv0)"
    by (rule ram_okE [OF w d])
  have e: "length (rb_storage ram) = unat (storage_size ram)"
      "unat (storage_size ram) = unat (dev_block_count dv) * unat (dev_block_size dv)" "blk_bytes D d = unat (dev_block_size dv)"
      "0 < unat (dev_block_size dv)"
    using e0 dv by simp_all
  have len: "length (rb_storage ram') = length (rb_storage ram)"
    using block_span [OF lt, of "unat (dev_block_size dv)"] e buf by (simp add: ram'_def)
  have other: "ram_of D d' \<noteq> ram_of D d" if "d' \<in> devs" "d' \<noteq> d" for d'
    using that w d by (auto simp: ram_ok_def inj_on_def)
  show "ram_ok D devs w'"
    unfolding ram_ok_def
  proof (intro conjI ballI)
    show "inj_on (ram_of D) devs" using w by (simp add: ram_ok_def)
    fix d' assume d': "d' \<in> devs"
    obtain dv' r' ram1 where f: "D d' = Some dv'" "dev_ops dv' = Some g_ramblk_ops" "driver_data dv' = Some r'"
      "w r' = Some ram1" "length (rb_storage ram1) = unat (storage_size ram1)"
      "unat (storage_size ram1) = unat (dev_block_count dv') * unat (dev_block_size dv')"
      "0 < unat (dev_block_size dv')" "ram_of D d' = r'"
      by (rule ram_okE [OF w d'])
    show "\<exists>dv r ram. D d' = Some dv \<and> dev_ops dv = Some g_ramblk_ops \<and> driver_data dv = Some r \<and>
        w' r = Some ram \<and> length (rb_storage ram) = unat (storage_size ram) \<and>
        unat (storage_size ram) = unat (dev_block_count dv) * unat (dev_block_size dv) \<and>
        0 < unat (dev_block_size dv)"
      using f dv len by (cases "r' = ram_of D d") (auto simp: w'_def ram'_def)
  qed
  show "same_contents D devs (ram_blocks D w') (write_block (ram_blocks D w) d lba buf)"
    unfolding same_contents_def
  proof (intro ballI allI impI)
    fix d' a assume d': "d' \<in> devs" and a: "in_range D d' a"
    show "ram_blocks D w' d' a = write_block (ram_blocks D w) d lba buf d' a"
    proof (cases "d' = d")
      case True
      then have "a < dev_block_count dv" using a dv(1) by (simp add: in_range_def)
      from ram_block_update [OF this lt, of "rb_storage ram" "unat (dev_block_size dv)" buf] True show ?thesis
        using dv e buf by (simp add: ram_blocks_def write_block_def w'_def ram'_def)
    next
      case False
      then show ?thesis using other [OF d'] by (simp add: ram_blocks_def write_block_def w'_def)
    qed
  qed
qed

interpretation ram: block_store D devs "ram_ok D devs" "ram_blocks D" for D devs
proof
  fix w :: ram_store and d :: nat and lba :: u64 and buf :: bytes
  assume w: "ram_ok D devs w" and d: "d \<in> devs"
  obtain dv r ram where dv: "D d = Some dv" "dev_ops dv = Some g_ramblk_ops" "driver_data dv = Some r"
      "w r = Some ram" "length (rb_storage ram) = unat (storage_size ram)"
      "unat (storage_size ram) = unat (dev_block_count dv) * unat (dev_block_size dv)"
      "0 < unat (dev_block_size dv)" "ram_of D d = r" "blk_bytes D d = unat (dev_block_size dv)"
    by (rule ram_okE [OF w d])
  show "D d \<noteq> None" using dv(1) by simp
  assume inr: "in_range D d lba"
  then have lt: "lba < dev_block_count dv" using dv(1) by (simp add: in_range_def)
  show "length (ram_blocks D w d lba) = blk_bytes D d"
    using dv block_span [OF lt, of "unat (dev_block_size dv)"] by (simp add: ram_blocks_def)
  assume buf: "length buf = blk_bytes D d"
  note one = in_range_one [OF inr dv(1)]
  show "mcsos_blk_read (D d) lba 1 (Some buf) w = (MCSOS_BLK_OK, Some (ram_blocks D w d lba), w)"
    using ram_read [where D = D and d = d and w = w, OF dv(1-6) one] buf dv by (simp add: ram_blocks_def)
  have "w (ram_of D d) = Some ram" using dv(4,8) by simp
  note st = ram_store_block [where w = w, OF w d dv(1) this lt buf [unfolded dv(9)]]
  have "mcsos_blk_write (D d) lba 1 (Some buf) w = (MCSOS_BLK_OK, Some buf,
      w(ram_of D d \<mapsto> ram\<lparr>rb_storage := patch (unat lba * unat (dev_block_size dv)) buf (rb_storage ram)\<rparr>))"
    using ram_write [where D = D and d = d and w = w, OF dv(1-6) one] buf dv by simp
  with st show "\<exists>w'. mcsos_blk_write (D d) lba 1 (Some buf) w = (MCSOS_BLK_OK, Some buf, w') \<and>
      ram_ok D devs w' \<and> same_contents D devs (ram_blocks D w') (write_block (ram_blocks D w) d lba buf)"
    by blast
qed

section \<open>Properties\<close>

lemma range_rejected:
  assumes "dev_ops dv \<noteq> None" "\<not> unat lba + unat n \<le> unat (dev_block_count dv)" "0 < unat n"
  shows "mcsos_blk_validate_range (Some dv) lba n (Some buf) = MCSOS_BLK_ERANGE"
proof (cases "dev_block_count dv \<le> lba")
  case False
  then have "unat (dev_block_count dv - lba) = unat (dev_block_count dv) - unat lba"
    by (simp add: unat_sub)
  then show ?thesis
    using assms False unat_ucast_up [of n, where 'b = 64]
    by (auto simp: mcsos_blk_validate_range_def word_less_nat_alt)
qed (use assms in \<open>auto simp: mcsos_blk_validate_range_def\<close>)

lemma ramblk_init_ok:
  assumes "mcsos_ramblk_init D w (Some d) (Some r) (Some nm) (Some st) sz bs = (MCSOS_BLK_OK, D', w')"
  obtains dv ram where "D' d = Some dv" "dev_ops dv = Some g_ramblk_ops" "driver_data dv = Some r"
    "w' r = Some ram" "rb_storage ram = st" "storage_size ram = sz" "dev_block_size dv = bs"
    "unat (dev_block_count dv) = unat sz div unat bs" "unat bs dvd unat sz" "512 \<le> unat bs"
proof -
  have up: "unat (ucast bs :: u64) = unat bs" by (simp add: unat_ucast_up)
  from assms have c: "512 \<le> unat bs" "sz mod ucast bs = 0"
    and eq: "D' = D(d \<mapsto> (the (D d))\<lparr>dev_name := mcsos_blk_copy_name_for_driver (dev_name (the (D d))) (Some nm),
        dev_block_size := bs, dev_block_count := sz div ucast bs, dev_flags := 0,
        dev_ops := Some g_ramblk_ops, driver_data := Some r\<rparr>)"
      "w' = w(r \<mapsto> (the (w r))\<lparr>rb_storage := st, storage_size := sz\<rparr>)"
    by (auto simp: mcsos_ramblk_init_def mcs_consts word_less_nat_alt split: if_splits)
  have "unat bs dvd unat sz" using c(2) up by (metis dvd_eq_mod_eq_0 unat_mod unat_0)
  then show thesis
    using c(1) up by (intro that [of "the (D' d)" "the (w' r)"]) (simp_all add: eq unat_div)
qed

text \<open>on a RAM disk set up by its initialiser, a request for \<open>n\<close> blocks at \<open>lba\<close> is served exactly
  when it lies inside the disk: then a write followed by a read of the same blocks, into any buffer,
  returns the bytes written and changes no byte outside them; otherwise it fails with the range
  error and changes nothing.\<close>

theorem ramblk_roundtrip:
  assumes init: "mcsos_ramblk_init D w (Some d) (Some r) (Some nm) (Some st) sz bs = (MCSOS_BLK_OK, D', w')"
    and st: "length st = unat sz" and n: "0 < unat n"
    and buf: "length buf = unat n * unat bs" "length buf2 = unat n * unat bs"
  shows "if unat lba + unat n \<le> unat sz div unat bs
    then \<exists>w2 ram. mcsos_blk_write (D' d) lba n (Some buf) w' = (MCSOS_BLK_OK, Some buf, w2) \<and>
      mcsos_blk_read (D' d) lba n (Some buf2) w2 = (MCSOS_BLK_OK, Some buf, w2) \<and>
      w2 r = Some ram \<and> rb_storage ram = patch (unat lba * unat bs) buf st \<and> (\<forall>q. q \<noteq> r \<longrightarrow> w2 q = w' q)
    else mcsos_blk_write (D' d) lba n (Some buf) w' = (MCSOS_BLK_ERANGE, Some buf, w') \<and>
      mcsos_blk_read (D' d) lba n (Some buf2) w' = (MCSOS_BLK_ERANGE, Some buf2, w')"
proof -
  obtain dv ram where dv: "D' d = Some dv" "dev_ops dv = Some g_ramblk_ops" "driver_data dv = Some r"
    "w' r = Some ram" and ram: "rb_storage ram = st" "storage_size ram = sz" "dev_block_size dv = bs"
    "unat (dev_block_count dv) = unat sz div unat bs" "unat bs dvd unat sz"
    by (rule ramblk_init_ok [OF init])
  have sz: "unat sz = unat (dev_block_count dv) * unat (dev_block_size dv)" using ram by simp
  show ?thesis
  proof (cases "unat lba + unat n \<le> unat sz div unat bs")
    case True
    then have le: "unat lba + unat n \<le> unat (dev_block_count dv)" using ram(4) by simp
    let ?ram = "ram\<lparr>rb_storage := patch (unat lba * unat bs) buf st\<rparr>"
    have span: "unat lba * unat bs + length buf \<le> length st"
      using ram_request(3) [OF sz le] st buf ram(3) by simp
    have c: "length (rb_storage ram) = unat (storage_size ram)" "length (rb_storage ?ram) = unat (storage_size ?ram)"
      "unat (storage_size ram) = unat (dev_block_count dv) * unat (dev_block_size dv)"
      "unat (storage_size ?ram) = unat (dev_block_count dv) * unat (dev_block_size dv)"
      "length buf = unat n * unat (dev_block_size dv)" "length buf2 = unat n * unat (dev_block_size dv)"
      "(w'(r \<mapsto> ?ram)) r = Some ?ram"
      using st ram(1-3) sz span buf by simp_all
    have wr: "mcsos_blk_write (D' d) lba n (Some buf) w' = (MCSOS_BLK_OK, Some buf, w'(r \<mapsto> ?ram))"
      using ram_write [where D = D' and d = d and w = w', OF dv(1-4) c(1,3) le n c(5)]
      unfolding ram(1,3) .
    have "mcsos_blk_read (D' d) lba n (Some buf2) (w'(r \<mapsto> ?ram)) =
        (MCSOS_BLK_OK, Some (slice (unat lba * unat bs) (length buf2) (rb_storage ?ram)), w'(r \<mapsto> ?ram))"
      using ram_read [where D = D' and d = d and w = "w'(r \<mapsto> ?ram)", OF dv(1-3) c(7,2,4) le n c(6)]
      unfolding ram(3) .
    moreover have "slice (unat lba * unat bs) (length buf2) (rb_storage ?ram) = buf" using span buf by simp
    ultimately show ?thesis using True wr by auto
  next
    case False
    then have "mcsos_blk_validate_range (Some dv) lba n (Some b) = MCSOS_BLK_ERANGE" for b
      using range_rejected [of dv lba n b] dv(2) ram(4) n by simp
    then show ?thesis using False dv(1) by (simp add: mcsos_blk_write_def mcsos_blk_read_def)
  qed
qed

definition demo_device :: "ram_store mcsos_blk_device" where
  "demo_device = \<lparr>dev_name = replicate 16 0, dev_block_size = 512, dev_block_count = 2, dev_flags = 0,
     driver_data = Some 7, dev_ops = Some g_ramblk_ops\<rparr>"

definition demo_ram :: ram_store where
  "demo_ram = [7 \<mapsto> \<lparr>rb_storage = replicate 1024 0, storage_size = 1024\<rparr>]"

lemma demo_init:
  "mcsos_ramblk_init [1 \<mapsto> demo_device] demo_ram (Some 1) (Some 7) (Some [114, 48, 0]) (Some (replicate 1024 0)) 1024 512 =
   (MCSOS_BLK_OK, [1 \<mapsto> demo_device\<lparr>dev_name := mcsos_copy_name (dev_name demo_device) (Some [114, 48, 0])\<rparr>], demo_ram)"
  by (simp add: mcsos_ramblk_init_def mcs_consts mcsos_is_power_of_two_u32_def demo_device_def demo_ram_def
                mcsos_blk_copy_name_for_driver_def)

theorem ramblk_roundtrip_witness:
  "\<exists>D w w2. mcsos_ramblk_init [1 \<mapsto> demo_device] demo_ram (Some 1) (Some 7) (Some [114, 48, 0])
       (Some (replicate 1024 0)) 1024 512 = (MCSOS_BLK_OK, D, w) \<and>
     mcsos_blk_write (D 1) 1 1 (Some (replicate 512 9)) w = (MCSOS_BLK_OK, Some (replicate 512 9), w2) \<and>
     mcsos_blk_read (D 1) 1 1 (Some (replicate 512 0)) w2 = (MCSOS_BLK_OK, Some (replicate 512 9), w2)"
  using ramblk_roundtrip [OF demo_init, of 1 "replicate 512 9" "replicate 512 0" 1] demo_init
  by simp blast

lemma bcache_init_ok:
  assumes "mcsos_bcache_init (Some c0) (Some es) n (Some pool) bs = (MCSOS_BLK_OK, Some c)"
    and "unat n * unat bs \<le> length pool"
  shows "cache_ok D devs m c \<and> cache_view c m = m \<and> bc_block_size c = bs"
proof -
  have c: "n \<noteq> 0" "bc_entry_count c = n" "bc_block_size c = bs"
    "bc_entries c = map (\<lambda>i. (es ! i)\<lparr>e_data := slice (i * unat bs) (unat bs) pool, e_capacity := bs,
        e_lba := 0, e_valid := False, e_dirty := False, e_dev := None\<rparr>) [0..<unat n]"
    using assms(1) by (auto simp: mcsos_bcache_init_def split: if_splits)
  have "length (slice (i * unat bs) (unat bs) pool) = unat bs" if "i < unat n" for i
  proof -
    have "Suc i * unat bs \<le> unat n * unat bs" using that by (intro mult_right_mono) auto
    then show ?thesis using assms(2) by (intro length_slice) simp
  qed
  then have "entry_ok D devs bs m (bc_entries c ! i)" if "i < unat n" for i
    using that by (simp add: c entry_ok_def)
  moreover have none: "\<not> entry_matches c i d lba" for i d lba by (auto simp: entry_matches_def c)
  ultimately have "cache_ok D devs m c" using c by (simp add: cache_ok_def)
  moreover have "cache_view c m = m" using cache_view_miss [of c] none by (auto simp: fun_eq_iff)
  ultimately show ?thesis using c(3) by simp
qed

lemma run_cache_append_flush:
  assumes "run_cache D ops c w = (out, c1, w1)" "mcsos_bcache_flush_all D c1 w1 = (st, c2, w2)"
  shows "run_cache D (ops @ [CFlush]) c w = (out @ [(st, None)], c2, w2)"
  using assms
  by (induction D ops c w arbitrary: out rule: run_cache.induct) (auto split: prod.splits)

text \<open>C9: the write-back cache is transparent: from a freshly initialised cache over RAM disks, any
  sequence of in-range reads, writes and flushes answers as if it ran directly on the disk contents,
  whatever was evicted on the way, and after a final flush the disks hold exactly those contents.\<close>

theorem bcache_transparent:
  assumes "mcsos_bcache_init (Some c0) (Some es) n (Some pool) bs = (MCSOS_BLK_OK, Some c)"
    and "unat n * unat bs \<le> length pool" and "ram_ok D devs w" and "\<forall>op \<in> set ops. cache_op_ok D devs bs op"
  shows "\<exists>c' w'. run_cache D (ops @ [CFlush]) (Some c) w =
      (fst (run_contents ops (ram_blocks D w)) @ [(MCSOS_BLK_OK, None)], Some c', w') \<and>
    ram_ok D devs w' \<and> same_contents D devs (ram_blocks D w') (snd (run_contents ops (ram_blocks D w)))"
proof -
  have c: "cache_ok D devs (ram_blocks D w) c" "cache_view c (ram_blocks D w) = ram_blocks D w"
    "bc_block_size c = bs"
    using bcache_init_ok [OF assms(1,2)] by auto
  from ram.run_cache_ok [OF assms(3) c(1)] assms(4) obtain c1 w1 where
    r: "run_cache D ops (Some c) w = (fst (run_contents ops (ram_blocks D w)), Some c1, w1)"
      "ram_ok D devs w1" "cache_ok D devs (ram_blocks D w1) c1"
      "same_contents D devs (cache_view c1 (ram_blocks D w1)) (snd (run_contents ops (ram_blocks D w)))"
    unfolding c(2,3) by blast
  from ram.bcache_flush_ok [OF r(2,3)] obtain c2 w2 where
    "mcsos_bcache_flush_all D (Some c1) w1 = (MCSOS_BLK_OK, Some c2, w2)" "ram_ok D devs w2"
    "same_contents D devs (ram_blocks D w2) (cache_view c1 (ram_blocks D w1))" by blast
  with run_cache_append_flush [OF r(1)] same_contents_trans [OF _ r(4)] show ?thesis by blast
qed

lemma demo_ram_ok: "ram_ok [1 \<mapsto> demo_device] {1} demo_ram"
  by (simp add: ram_ok_def demo_device_def demo_ram_def)

definition demo_cache :: mcsos_bcache where
  "demo_cache = \<lparr>bc_entries = [], bc_entry_count = 0, bc_block_size = 0, bc_clock_hand = 0\<rparr>"

definition demo_entry :: mcsos_bcache_entry where
  "demo_entry = \<lparr>e_data = [], e_capacity = 0, e_lba = 0, e_valid = False, e_dirty = False, e_dev = None\<rparr>"

definition demo_cache1 :: mcsos_bcache where
  "demo_cache1 = \<lparr>bc_entries = [demo_entry\<lparr>e_data := replicate 512 0, e_capacity := 512\<rparr>],
     bc_entry_count = 1, bc_block_size = 512, bc_clock_hand = 0\<rparr>"

lemma demo_cache_init:
  "mcsos_bcache_init (Some demo_cache) (Some [demo_entry]) 1 (Some (replicate 512 0)) 512 =
   (MCSOS_BLK_OK, Some demo_cache1)"
  by (simp add: mcsos_bcache_init_def demo_cache_def demo_cache1_def demo_entry_def)

theorem bcache_transparent_witness:
  "\<exists>c w. run_cache [1 \<mapsto> demo_device] [CWrite 1 0 (replicate 512 9), CRead 1 1, CRead 1 0, CFlush]
     (Some demo_cache1) demo_ram =
     ([(MCSOS_BLK_OK, None), (MCSOS_BLK_OK, Some (replicate 512 0)), (MCSOS_BLK_OK, Some (replicate 512 9)),
       (MCSOS_BLK_OK, None)], Some c, w)"
proof -
  let ?D = "[1 \<mapsto> demo_device]"
  let ?ops = "[CWrite 1 0 (replicate 512 9), CRead 1 1, CRead 1 0]"
  have "\<forall>op \<in> set ?ops. cache_op_ok ?D {1} 512 op" by (simp add: in_range_def demo_device_def)
  moreover have "unat (1::u32) * unat (512::u32) \<le> length (replicate 512 (0::u8))" by simp
  moreover have "fst (run_contents ?ops (ram_blocks ?D demo_ram)) =
      [(MCSOS_BLK_OK, None), (MCSOS_BLK_OK, Some (replicate 512 0)), (MCSOS_BLK_OK, Some (replicate 512 9))]"
    by (simp add: write_block_def ram_blocks_def blk_bytes_def demo_device_def demo_ram_def ram_of_def slice_def)
  ultimately show ?thesis
    using bcache_transparent [OF demo_cache_init _ demo_ram_ok, of ?ops] by fastforce
qed

lemma flush_entry_out_of_range:
  assumes "D d = Some dv" "dev_ops dv \<noteq> None" "e_valid e" "e_dirty e" "e_dev e = Some d"
    "\<not> in_range D d (e_lba e)"
  shows "mcsos_bcache_flush_entry D e w = (MCSOS_BLK_ERANGE, e, w)"
  using assms
  by (auto simp: mcsos_bcache_flush_entry_def mcsos_blk_write_def mcsos_blk_validate_range_def in_range_def)

context block_store
begin

lemma flush_entry_status:
  assumes "inv w" "entry_ok D devs bs m e"
  shows "\<exists>e' w'. mcsos_bcache_flush_entry D e w = (MCSOS_BLK_OK, e', w') \<and> inv w'"
proof (cases "e_valid e \<and> e_dirty e")
  case True
  then obtain d where d: "d \<in> devs" "e_dev e = Some d" "in_range D d (e_lba e)" "length (e_data e) = blk_bytes D d"
    using assms(2) by (auto simp: entry_ok_def blk_bytes_def)
  from write_one [OF assms(1) d(1,3,4)] show ?thesis
    using True d(2) by (auto simp: mcsos_bcache_flush_entry_def)
qed (use assms(1) in \<open>auto simp: mcsos_bcache_flush_entry_def\<close>)

lemma flush_entries_stuck:
  assumes "inv w" "\<forall>e \<in> set pre. entry_ok D devs bs m e"
    and "\<And>w. mcsos_bcache_flush_entry D bad w = (MCSOS_BLK_ERANGE, bad, w)"
  shows "\<exists>es w'. flush_entries D (pre @ bad # post) w = (MCSOS_BLK_ERANGE, es, w') \<and> bad \<in> set es \<and> inv w'"
  using assms(1,2)
proof (induction pre arbitrary: w)
  case Nil
  then show ?case using assms(3) by auto
next
  case (Cons e pre)
  from flush_entry_status [OF Cons.prems(1), of bs m e] Cons.prems(2) obtain e' w1 where
    f: "mcsos_bcache_flush_entry D e w = (MCSOS_BLK_OK, e', w1)" "inv w1" by auto
  from Cons.IH [OF f(2)] Cons.prems(2) f(1) show ?case by (auto split: prod.splits)
qed

end

text \<open>A dirty entry for a block that does not exist stays in the cache: its flush fails, so it is never evicted.\<close>

definition stuck_at :: "nat \<Rightarrow> nat \<Rightarrow> u64 \<Rightarrow> mcsos_bcache \<Rightarrow> bool" where
  "stuck_at i d lba c \<longleftrightarrow> i < unat (bc_entry_count c) \<and> i < length (bc_entries c) \<and>
     e_valid (bc_entries c ! i) \<and> e_dirty (bc_entries c ! i) \<and> e_dev (bc_entries c ! i) = Some d \<and> e_lba (bc_entries c ! i) = lba"

definition beyond_end :: "(nat \<Rightarrow> 'w mcsos_blk_device option) \<Rightarrow> nat \<Rightarrow> u64 \<Rightarrow> bool" where
  "beyond_end D d lba \<longleftrightarrow> (\<exists>dv. D d = Some dv \<and> dev_ops dv \<noteq> None) \<and> \<not> in_range D d lba"

lemma stuck_flush_fails:
  assumes "beyond_end D d lba" "stuck_at i d lba c"
  shows "mcsos_bcache_flush_entry D (bc_entries c ! i) w = (MCSOS_BLK_ERANGE, bc_entries c ! i, w)"
  using assms flush_entry_out_of_range [of D d _ "bc_entries c ! i"] unfolding beyond_end_def stuck_at_def by blast

lemma stuck_update: "stuck_at i d lba c \<Longrightarrow> j \<noteq> i \<Longrightarrow> stuck_at i d lba (c\<lparr>bc_entries := (bc_entries c)[j := e]\<rparr>)"
  by (simp add: stuck_at_def)

lemma stuck_victim:
  assumes "beyond_end D d lba" "stuck_at i d lba c" "mcsos_bcache_select_victim D c w = (st, vi, c1, w1)"
  shows "stuck_at i d lba c1 \<and> (st = MCSOS_BLK_OK \<longrightarrow> the vi \<noteq> i)"
proof -
  let ?n = "bc_entry_count c"
  let ?start = "ucast (bc_clock_hand c mod ucast ?n) :: u32"
  have valid: "e_valid (bc_entries c ! i)" using assms(2) by (simp add: stuck_at_def)
  have hand: "stuck_at i d lba (c\<lparr>bc_clock_hand := x\<rparr>)" for x using assms(2) by (simp add: stuck_at_def)
  consider (empty) "?n = 0" | (unused) pass where "?n \<noteq> 0"
      "first_index (\<lambda>pass. \<not> e_valid (bc_entries c ! unat ((?start + of_nat pass) mod ?n))) 0 (unat ?n) = Some pass"
    | (full) "?n \<noteq> 0" "first_index (\<lambda>pass. \<not> e_valid (bc_entries c ! unat ((?start + of_nat pass) mod ?n))) 0 (unat ?n) = None"
    by fastforce
  then show ?thesis
  proof cases
    case empty
    then show ?thesis using assms(2,3) by (auto simp: mcsos_bcache_select_victim_def)
  next
    case unused
    have "\<not> e_valid (bc_entries c ! unat ((?start + of_nat pass) mod ?n))" using unused(2) by (simp add: first_index_Some_iff)
    then have "unat ((?start + of_nat pass) mod ?n) \<noteq> i" using valid by auto
    then show ?thesis using assms(3) unused hand by (auto simp: mcsos_bcache_select_victim_def Let_def)
  next
    case full
    obtain st' e w' where f: "mcsos_bcache_flush_entry D (bc_entries c ! unat ?start) w = (st', e, w')" by (metis prod_cases3)
    have "unat ?start \<noteq> i" if "st' = MCSOS_BLK_OK" using stuck_flush_fails [OF assms(1,2), of w] f that by auto
    then show ?thesis using assms(3) full f hand stuck_update [OF hand]
      by (auto simp: mcsos_bcache_select_victim_def Let_def split: if_splits)
  qed
qed

lemma stuck_read:
  assumes "beyond_end D d lba" "stuck_at i d lba c" "mcsos_bcache_read D (Some c) dev k buf w = (st, buf', c', w')"
  shows "\<exists>c1. c' = Some c1 \<and> stuck_at i d lba c1"
  using assms(2,3) stuck_victim [OF assms(1,2), of w] stuck_update [of i d lba]
  by (auto simp: mcsos_bcache_read_def Let_def split: option.splits prod.splits if_splits)

lemma stuck_write:
  assumes "beyond_end D d lba" "stuck_at i d lba c" "mcsos_bcache_write D (Some c) dev k buf w = (st, c', w')"
  shows "\<exists>c1. c' = Some c1 \<and> stuck_at i d lba c1"
proof -
  have touch: "stuck_at i d lba (c1\<lparr>bc_entries := (bc_entries c1)[j := (bc_entries c1 ! j)\<lparr>e_data := x, e_dirty := True\<rparr>]\<rparr>)"
    if "stuck_at i d lba c1" for c1 j x
    using that by (cases "j = i") (simp_all add: stuck_at_def)
  show ?thesis
    using assms(2,3) stuck_victim [OF assms(1,2), of w] stuck_update [of i d lba] touch
    by (auto simp: mcsos_bcache_write_def Let_def split: option.splits prod.splits if_splits)
qed

lemma flush_entries_keeps:
  "flush_entries D es w = (st, es', w') \<Longrightarrow> j < length es \<Longrightarrow> (\<And>w. mcsos_bcache_flush_entry D (es ! j) w = (MCSOS_BLK_ERANGE, es ! j, w)) \<Longrightarrow>
   length es' = length es \<and> es' ! j = es ! j \<and> st \<noteq> MCSOS_BLK_OK"
proof (induction es arbitrary: w st es' w' j)
  case (Cons e es)
  show ?case
  proof (cases j)
    case 0
    then show ?thesis using Cons.prems by auto
  next
    case (Suc k)
    then show ?thesis using Cons.prems Cons.IH [where j = k] by (auto split: prod.splits if_splits)
  qed
qed simp

lemma stuck_flush_all:
  assumes "beyond_end D d lba" "stuck_at i d lba c" "mcsos_bcache_flush_all D (Some c) w = (st, c', w')"
  shows "st \<noteq> MCSOS_BLK_OK \<and> (\<exists>c1. c' = Some c1 \<and> stuck_at i d lba c1)"
proof -
  let ?n = "unat (bc_entry_count c)"
  obtain st1 es w1 where f: "flush_entries D (take ?n (bc_entries c)) w = (st1, es, w1)" by (metis prod_cases3)
  have i: "i < ?n" "i < length (bc_entries c)" using assms(2) by (simp_all add: stuck_at_def)
  then have ne: "bc_entries c \<noteq> []" by auto
  have k: "length es = length (take ?n (bc_entries c)) \<and> es ! i = take ?n (bc_entries c) ! i \<and> st1 \<noteq> MCSOS_BLK_OK"
    by (rule flush_entries_keeps [OF f]) (use i stuck_flush_fails [OF assms(1,2)] in simp_all)
  have "c' = Some (c\<lparr>bc_entries := es @ drop ?n (bc_entries c)\<rparr>)" "st = st1"
    using assms(3) f ne by (auto simp: mcsos_bcache_flush_all_def Let_def)
  moreover have "stuck_at i d lba (c\<lparr>bc_entries := es @ drop ?n (bc_entries c)\<rparr>)"
    using k i assms(2) by (simp add: stuck_at_def nth_append)
  ultimately show ?thesis using k by blast
qed

lemma run_cache_stuck:
  assumes "beyond_end D d lba" "stuck_at i d lba c" "run_cache D ops (Some c) w = (out, c', w')"
  shows "\<exists>c1. c' = Some c1 \<and> stuck_at i d lba c1"
  using assms(2,3)
proof (induction ops arbitrary: c w out c' w')
  case (Cons op ops)
  obtain r c1 w1 where one: "run_cache D [op] (Some c) w = (r, c1, w1)" by (metis prod_cases3)
  have "\<exists>x. c1 = Some x \<and> stuck_at i d lba x"
    using one stuck_read [OF assms(1) Cons.prems(1)] stuck_write [OF assms(1) Cons.prems(1)] stuck_flush_all [OF assms(1) Cons.prems(1)]
    by (cases op) (auto split: prod.splits)
  then obtain x where x: "c1 = Some x" "stuck_at i d lba x" by blast
  obtain out2 where "run_cache D ops (Some x) w1 = (out2, c', w')"
    using one Cons.prems(2) x(1) by (cases op) (auto split: prod.splits)
  then show ?case by (rule Cons.IH [OF x(2)])
qed auto

text \<open>A write past the end of the disk is accepted, and leaves an entry that the next flush of the whole cache fails on.\<close>

lemma write_beyond_end:
  assumes "ram_ok D devs w" "cache_ok D devs (ram_blocks D w) c" "d \<in> devs" "\<not> in_range D d lba"
    and "bc_block_size c = dev_block_size (the (D d))" "length buf = blk_bytes D d"
  shows "\<exists>i c1 w1. mcsos_bcache_write D (Some c) (Some d) lba (Some buf) w = (MCSOS_BLK_OK, Some c1, w1) \<and>
    fst (mcsos_bcache_flush_all D (Some c1) w1) = MCSOS_BLK_ERANGE \<and> stuck_at i d lba c1 \<and> beyond_end D d lba"
proof -
  obtain dv where dv: "D d = Some dv" "dev_ops dv = Some g_ramblk_ops"
    by (rule ram_okE [OF assms(1,3)])
  have "\<not> entry_matches c j d lba" for j
    using assms(2,4) by (auto simp: entry_matches_def cache_ok_def entry_ok_def)
  then have none: "mcsos_bcache_find c (Some d) lba = None" by (simp add: find_None_iff)
  obtain i c1 w1 where
    v: "mcsos_bcache_select_victim D c w = (MCSOS_BLK_OK, Some i, c1, w1)" "ram_ok D devs w1"
      "i < unat (bc_entry_count c1)" "cache_ok D devs (ram_blocks D w1) c1" "bc_block_size c1 = bc_block_size c"
    by (rule ram.victim_ok [OF assms(1,2)])
  let ?e = "(bc_entries c1 ! i)\<lparr>e_dev := Some d, e_lba := lba, e_valid := True, e_data := buf, e_dirty := True\<rparr>"
  let ?c = "c1\<lparr>bc_entries := (bc_entries c1)[i := ?e]\<rparr>"
  have len: "length (bc_entries c1) = unat (bc_entry_count c1)" using v(4) by (simp add: cache_ok_def)
  have eok: "\<forall>e \<in> set (bc_entries c1). entry_ok D devs (bc_block_size c1) (ram_blocks D w1) e"
    using v(4) len by (auto simp: cache_ok_def in_set_conv_nth)
  moreover have "bc_entries c1 ! i \<in> set (bc_entries c1)" using v(3) len by simp
  ultimately have "length (e_data (bc_entries c1 ! i)) = length buf"
    using v(5) assms(5,6) by (simp add: entry_ok_def blk_bytes_def)
  then have wr: "mcsos_bcache_write D (Some c) (Some d) lba (Some buf) w = (MCSOS_BLK_OK, Some ?c, w1)"
    using none v(1,3,5) len dv assms(5,6)
    by (simp add: mcsos_bcache_write_def Let_def mcsos_memcpy_u8_bcache_def copy_loop_whole blk_bytes_def)
  have "mcsos_bcache_flush_entry D ?e x = (MCSOS_BLK_ERANGE, ?e, x)" for x
    using flush_entry_out_of_range [of D d dv ?e x] dv assms(4) by simp
  moreover have "\<forall>e \<in> set (take i (bc_entries c1)). entry_ok D devs (bc_block_size c1) (ram_blocks D w1) e"
    using eok by (meson in_set_takeD)
  ultimately obtain es w2 where
    f: "flush_entries D (take i (bc_entries c1) @ ?e # drop (Suc i) (bc_entries c1)) w1 = (MCSOS_BLK_ERANGE, es, w2)"
      "?e \<in> set es"
    using ram.flush_entries_stuck [OF v(2)] by blast
  have "(bc_entries c1)[i := ?e] = take i (bc_entries c1) @ ?e # drop (Suc i) (bc_entries c1)"
    using v(3) len by (simp add: upd_conv_take_nth_drop)
  then have "flush_entries D ((bc_entries c1)[i := ?e]) w1 = (MCSOS_BLK_ERANGE, es, w2)"
    using f(1) by (simp only:)
  then have "mcsos_bcache_flush_all D (Some ?c) w1 = (MCSOS_BLK_ERANGE, Some (c1\<lparr>bc_entries := es\<rparr>), w2)"
    using len v(3) by (auto simp: mcsos_bcache_flush_all_def Let_def)
  then have now: "fst (mcsos_bcache_flush_all D (Some ?c) w1) = MCSOS_BLK_ERANGE" by simp
  have b: "beyond_end D d lba" using dv assms(4) by (auto simp: beyond_end_def)
  have st: "stuck_at i d lba ?c" using v(3) len by (simp add: stuck_at_def)
  show ?thesis using wr now b st by blast
qed

text \<open>C26: The cache does not check the block address of a write: a write past the end of the disk is accepted. A flush of
  the whole cache then fails with the range error, and whatever requests are made of the cache afterwards, in range or
  not, every later flush of the whole cache fails too, the entry staying in the cache, valid and dirty.\<close>

theorem bcache_accepts_out_of_range_write:
  assumes "ram_ok D devs w" "cache_ok D devs (ram_blocks D w) c" "d \<in> devs" "\<not> in_range D d lba"
    and "bc_block_size c = dev_block_size (the (D d))" "length buf = blk_bytes D d"
  shows "\<exists>c1 w1. mcsos_bcache_write D (Some c) (Some d) lba (Some buf) w = (MCSOS_BLK_OK, Some c1, w1) \<and>
    fst (mcsos_bcache_flush_all D (Some c1) w1) = MCSOS_BLK_ERANGE \<and>
    (\<forall>ops out c2 w2. run_cache D ops (Some c1) w1 = (out, c2, w2) \<longrightarrow>
       fst (mcsos_bcache_flush_all D c2 w2) \<noteq> MCSOS_BLK_OK \<and>
       (\<exists>e \<in> set (bc_entries (the c2)). e_valid e \<and> e_dirty e \<and> e_dev e = Some d \<and> e_lba e = lba))"
proof -
  obtain i c1 w1 where w1: "mcsos_bcache_write D (Some c) (Some d) lba (Some buf) w = (MCSOS_BLK_OK, Some c1, w1)"
    "fst (mcsos_bcache_flush_all D (Some c1) w1) = MCSOS_BLK_ERANGE" "stuck_at i d lba c1" "beyond_end D d lba"
    using write_beyond_end [OF assms] by blast
  have later: "fst (mcsos_bcache_flush_all D c2 w2) \<noteq> MCSOS_BLK_OK \<and>
       (\<exists>e \<in> set (bc_entries (the c2)). e_valid e \<and> e_dirty e \<and> e_dev e = Some d \<and> e_lba e = lba)"
    if r: "run_cache D ops (Some c1) w1 = (out, c2, w2)" for ops out c2 w2
  proof -
    obtain x where x: "c2 = Some x" "stuck_at i d lba x" using run_cache_stuck [OF w1(4,3) r] by blast
    obtain st2 c3 w3 where f2: "mcsos_bcache_flush_all D (Some x) w2 = (st2, c3, w3)" by (metis prod_cases3)
    have "st2 \<noteq> MCSOS_BLK_OK" using stuck_flush_all [OF w1(4) x(2) f2] by simp
    moreover have "bc_entries x ! i \<in> set (bc_entries x)" using x(2) by (simp add: stuck_at_def)
    ultimately show ?thesis using x f2 by (intro conjI bexI [of _ "bc_entries x ! i"]) (simp_all add: stuck_at_def)
  qed
  show ?thesis using w1(1,2) later by blast
qed

theorem bcache_accepts_out_of_range_write_witness:
  "\<exists>c1 w1. mcsos_bcache_write [1 \<mapsto> demo_device] (Some demo_cache1) (Some 1) 99 (Some (replicate 512 9)) demo_ram =
      (MCSOS_BLK_OK, Some c1, w1) \<and>
    (\<exists>out c2 w2. run_cache [1 \<mapsto> demo_device] [CWrite 1 0 (replicate 512 7), CFlush, CRead 1 2] (Some c1) w1 = (out, c2, w2) \<and>
       fst (mcsos_bcache_flush_all [1 \<mapsto> demo_device] c2 w2) \<noteq> MCSOS_BLK_OK)"
proof -
  let ?D = "[1 \<mapsto> demo_device]"
  have ok: "cache_ok ?D {1} (ram_blocks ?D demo_ram) demo_cache1"
    by (rule conjunct1 [OF bcache_init_ok [OF demo_cache_init]]) simp
  have h: "1 \<in> {1 :: nat}" "\<not> in_range ?D 1 99" "bc_block_size demo_cache1 = dev_block_size (the (?D 1))" "length (replicate 512 9 :: bytes) = blk_bytes ?D 1"
    by (simp_all add: in_range_def demo_device_def demo_cache1_def blk_bytes_def)
  obtain c1 w1 where c: "mcsos_bcache_write ?D (Some demo_cache1) (Some 1) 99 (Some (replicate 512 9)) demo_ram = (MCSOS_BLK_OK, Some c1, w1)"
      "\<forall>ops out c2 w2. run_cache ?D ops (Some c1) w1 = (out, c2, w2) \<longrightarrow> fst (mcsos_bcache_flush_all ?D c2 w2) \<noteq> MCSOS_BLK_OK"
    using bcache_accepts_out_of_range_write [OF demo_ram_ok ok h] by blast
  obtain out c2 w2 where "run_cache ?D [CWrite 1 0 (replicate 512 7), CFlush, CRead 1 2] (Some c1) w1 = (out, c2, w2)"
    by (metis prod_cases3)
  then show ?thesis using c by blast
qed

end
