(* ===== verification/Syscall.thy ===== *)
theory Syscall
  imports MCS_Prelude
begin

text \<open>
  \<open>kernel/syscall/syscall.c\<close>: the system call layer with its registered callbacks, the check of user
  buffers and the dispatch table; \<open>syscall_arch_init\<close> is in the theory of the descriptor table.
  \<open>int64_t\<close> results are 64-bit words in two's complement. The callbacks belong to other parts of the
  kernel and are parameters: functions on the state \<open>'w\<close> of the rest of the kernel. User memory is a
  map from addresses to bytes.
\<close>

section \<open>Data\<close>

definition MCSOS_OK :: u64 where [mcs_consts]: "MCSOS_OK = 0"
definition MCSOS_EINVAL :: u64 where [mcs_consts]: "MCSOS_EINVAL = -22"
definition MCSOS_ENOSYS :: u64 where [mcs_consts]: "MCSOS_ENOSYS = -38"
definition MCSOS_EFAULT :: u64 where [mcs_consts]: "MCSOS_EFAULT = -14"
definition MCSOS_EPERM :: u64 where [mcs_consts]: "MCSOS_EPERM = -1"
definition MCSOS_EBUSY :: u64 where [mcs_consts]: "MCSOS_EBUSY = -16"
definition MCSOS_SYS_MAX :: u64 where [mcs_consts]: "MCSOS_SYS_MAX = 5"

record mcsos_user_region =
  ur_base :: u64
  ur_limit :: u64

record 'w mcsos_syscall_ops =
  get_ticks :: "('w \<Rightarrow> u64 \<times> 'w) option"
  yield_current :: "('w \<Rightarrow> 'w) option"
  exit_current :: "(u32 \<Rightarrow> 'w \<Rightarrow> 'w) option"
  write_serial :: "(u64 \<Rightarrow> u64 \<Rightarrow> 'w \<Rightarrow> u64 \<times> 'w) option"

record 'w syscall_state =
  g_ops :: "'w mcsos_syscall_ops"
  g_user_region :: mcsos_user_region

record mcsos_syscall_frame =
  fr_nr :: u64
  fr_arg0 :: u64
  fr_arg1 :: u64
  fr_arg2 :: u64
  fr_arg3 :: u64
  fr_arg4 :: u64
  fr_arg5 :: u64
  fr_ret :: u64

section \<open>Operations\<close>

definition default_write_serial :: "u64 \<Rightarrow> u64 \<Rightarrow> 'w \<Rightarrow> u64 \<times> 'w" where
  "default_write_serial buf len w = (len, w)"

definition mcsos_syscall_init :: "'w mcsos_syscall_ops option \<Rightarrow> 'w syscall_state \<Rightarrow> 'w syscall_state" where
  "mcsos_syscall_init ops s =
     (let base_ops = \<lparr>get_ticks = None, yield_current = None, exit_current = None,
                     write_serial = Some default_write_serial\<rparr> in
      s\<lparr>g_ops :=
         (case ops of
            None \<Rightarrow> base_ops
          | Some p \<Rightarrow>
              base_ops\<lparr>get_ticks := (if get_ticks p \<noteq> None then get_ticks p else get_ticks base_ops),
                yield_current := (if yield_current p \<noteq> None then yield_current p else yield_current base_ops),
                exit_current := (if exit_current p \<noteq> None then exit_current p else exit_current base_ops),
                write_serial := (if write_serial p \<noteq> None then write_serial p else write_serial base_ops)\<rparr>)\<rparr>)"

definition mcsos_syscall_set_user_region :: "mcsos_user_region \<Rightarrow> 'w syscall_state \<Rightarrow> 'w syscall_state" where
  "mcsos_syscall_set_user_region region s = s\<lparr>g_user_region := region\<rparr>"

definition mcsos_user_check_range :: "mcsos_user_region \<Rightarrow> u64 \<Rightarrow> u64 \<Rightarrow> bool" where
  "mcsos_user_check_range r addr len =
     (if len = 0 then True
      else if ur_base r = 0 \<or> ur_limit r \<le> ur_base r then False
      else if addr < ur_base r then False
      else if ur_limit r < addr then False
      else
        let last = addr + len - 1 in
        if last < addr then False
        else if ur_limit r \<le> last then False
        else True)"

fun copy_user :: "(u64 \<Rightarrow> u8) \<Rightarrow> bytes \<Rightarrow> u64 \<Rightarrow> nat \<Rightarrow> nat \<Rightarrow> bytes" where
  "copy_user mem d src i 0 = d"
| "copy_user mem d src i (Suc n) = copy_user mem (d[i := mem (src + of_nat i)]) src (Suc i) n"

definition mcsos_copy_from_user ::
  "mcsos_user_region \<Rightarrow> (u64 \<Rightarrow> u8) \<Rightarrow> bytes option \<Rightarrow> u64 \<Rightarrow> u64 \<Rightarrow> u64 \<times> bytes option" where
  "mcsos_copy_from_user r mem dst src len =
     (if len = 0 then (MCSOS_OK, dst)
      else if dst = None \<or> src = 0 then (MCSOS_EINVAL, dst)
      else if \<not> mcsos_user_check_range r src len then (MCSOS_EFAULT, dst)
      else (MCSOS_OK, Some (copy_user mem (the dst) src 0 (unat len))))"

type_synonym 'w syscall_fn =
  "'w syscall_state \<Rightarrow> u64 \<Rightarrow> u64 \<Rightarrow> u64 \<Rightarrow> u64 \<Rightarrow> u64 \<Rightarrow> u64 \<Rightarrow> 'w \<Rightarrow> u64 \<times> 'w"

definition sys_ping :: "'w syscall_fn" where
  "sys_ping s a0 a1 a2 a3 a4 a5 w = (0x2605020A, w)"

definition sys_get_ticks :: "'w syscall_fn" where
  "sys_get_ticks s a0 a1 a2 a3 a4 a5 w =
     (case get_ticks (g_ops s) of None \<Rightarrow> (MCSOS_EBUSY, w) | Some f \<Rightarrow> f w)"

definition sys_write_serial :: "'w syscall_fn" where
  "sys_write_serial s ptr len a2 a3 a4 a5 w =
     (if ptr = 0 then (MCSOS_EINVAL, w)
      else if 4096 < len then (MCSOS_EINVAL, w)
      else if \<not> mcsos_user_check_range (g_user_region s) ptr len then (MCSOS_EFAULT, w)
      else the (write_serial (g_ops s)) ptr len w)"

definition sys_yield :: "'w syscall_fn" where
  "sys_yield s a0 a1 a2 a3 a4 a5 w =
     (case yield_current (g_ops s) of None \<Rightarrow> (MCSOS_EBUSY, w) | Some f \<Rightarrow> (MCSOS_OK, f w))"

definition sys_exit_thread :: "'w syscall_fn" where
  "sys_exit_thread s code a1 a2 a3 a4 a5 w =
     (case exit_current (g_ops s) of None \<Rightarrow> (MCSOS_EBUSY, w) | Some f \<Rightarrow> (MCSOS_OK, f (ucast code) w))"

definition g_table :: "'w syscall_fn option list" where
  "g_table = [Some sys_ping, Some sys_get_ticks, Some sys_write_serial, Some sys_yield, Some sys_exit_thread]"

definition mcsos_syscall_dispatch :: "'w syscall_state \<Rightarrow> u64 \<Rightarrow> u64 \<Rightarrow> u64 \<Rightarrow> u64 \<Rightarrow> u64 \<Rightarrow> u64 \<Rightarrow> u64 \<Rightarrow> 'w \<Rightarrow> u64 \<times> 'w" where
  "mcsos_syscall_dispatch s nr arg0 arg1 arg2 arg3 arg4 arg5 w =
     (if MCSOS_SYS_MAX \<le> nr then (MCSOS_ENOSYS, w)
      else (case g_table ! unat nr of
              None \<Rightarrow> (MCSOS_ENOSYS, w)
            | Some f \<Rightarrow> f s arg0 arg1 arg2 arg3 arg4 arg5 w))"

text \<open>The function begins with a trace line on the serial port, which the host build leaves out: \<open>trace\<close> is what the line does to
  the rest of the kernel, \<open>None\<close> when the serial lock is never released. Theory \<open>Boot\<close> puts \<open>serial_write\<close> there.\<close>

definition mcsos_syscall_dispatch_frame ::
  "('w \<Rightarrow> 'w option) \<Rightarrow> 'w syscall_state \<Rightarrow> mcsos_syscall_frame option \<Rightarrow> 'w \<Rightarrow> (mcsos_syscall_frame option \<times> 'w) option" where
  "mcsos_syscall_dispatch_frame trace s frame w =
     (case trace w of
        None \<Rightarrow> None
      | Some w \<Rightarrow>
          (case frame of
             None \<Rightarrow> Some (None, w)
           | Some f \<Rightarrow>
               (case mcsos_syscall_dispatch s (fr_nr f) (fr_arg0 f) (fr_arg1 f) (fr_arg2 f) (fr_arg3 f) (fr_arg4 f) (fr_arg5 f) w of
                  (r, w') \<Rightarrow> Some (Some (f\<lparr>fr_ret := r\<rparr>), w'))))"

section \<open>Specification\<close>

text \<open>Every byte of the buffer lies in the region, in unbounded arithmetic.\<close>

definition buffer_in_region :: "mcsos_user_region \<Rightarrow> u64 \<Rightarrow> u64 \<Rightarrow> bool" where
  "buffer_in_region r addr len \<longleftrightarrow> 0 < unat (ur_base r) \<and> unat (ur_base r) \<le> unat addr \<and> unat addr + unat len \<le> unat (ur_limit r)"

lemma check_range_iff:
  "mcsos_user_check_range r addr len \<longleftrightarrow> len = 0 \<or> buffer_in_region r addr len"
proof (cases "len = 0")
  case True
  then show ?thesis by (simp add: mcsos_user_check_range_def)
next
  case False
  then have l: "0 < unat len" by (simp add: unat_gt_0)
  have b: "unat addr < 2 ^ 64" "unat len < 2 ^ 64" "unat (ur_limit r) < 2 ^ 64"
    using unat_bound [of addr] unat_bound [of len] unat_bound [of "ur_limit r"] by simp_all
  have z: "ur_base r = 0 \<longleftrightarrow> unat (ur_base r) = 0" by (simp add: unat_eq_zero)
  show ?thesis
  proof (cases "unat addr + unat len - 1 < 2 ^ 64")
    case True
    have "addr + len - 1 = of_nat (unat addr + unat len - 1)"
      using l by (simp add: of_nat_diff Suc_leI)
    then have "unat (addr + len - 1) = unat addr + unat len - 1"
      using True by (simp add: unat_of_nat)
    then show ?thesis
      using False l z
      by (auto simp: mcsos_user_check_range_def buffer_in_region_def Let_def word_less_nat_alt word_le_nat_alt)
  next
    case wrap: False
    have "addr + len - 1 = of_nat (unat addr + unat len - 1 - 2 ^ 64)"
    proof -
      have "addr + len - 1 = of_nat (unat addr + unat len - 1)" using l by (simp add: of_nat_diff Suc_leI)
      also have "\<dots> = of_nat (unat addr + unat len - 1 - 2 ^ 64) + of_nat (2 ^ 64)"
        using wrap by (simp flip: of_nat_add)
      also have "(of_nat (2 ^ 64) :: u64) = 0" by (simp add: word_eq_iff_unsigned)
      finally show ?thesis by simp
    qed
    then have "unat (addr + len - 1) = unat addr + unat len - 1 - 2 ^ 64"
      using b by (simp add: unat_of_nat)
    then have "addr + len - 1 < addr" using wrap b by (simp add: word_less_nat_alt)
    then have "\<not> mcsos_user_check_range r addr len"
      using False by (auto simp: mcsos_user_check_range_def Let_def)
    moreover have "\<not> buffer_in_region r addr len" using wrap b by (auto simp: buffer_in_region_def)
    ultimately show ?thesis using False by simp
  qed
qed

lemma copy_user_nth:
  "i + n \<le> length d \<Longrightarrow> j < length d \<Longrightarrow>
   copy_user mem d src i n ! j = (if i \<le> j \<and> j < i + n then mem (src + of_nat j) else d ! j)"
proof (induction mem d src i n rule: copy_user.induct)
  case (2 mem d src i n)
  then show ?case by (cases "j = i") auto
qed auto

lemma copy_user_length [simp]: "length (copy_user mem d src i n) = length d"
  by (induction mem d src i n rule: copy_user.induct) auto

text \<open>A callback from the argument record, or the fallback.\<close>

definition registered_write :: "'w mcsos_syscall_ops option \<Rightarrow> u64 \<Rightarrow> u64 \<Rightarrow> 'w \<Rightarrow> u64 \<times> 'w" where
  "registered_write ops =
     (case Option.bind ops write_serial of None \<Rightarrow> default_write_serial | Some f \<Rightarrow> f)"

lemma init_ops:
  "get_ticks (g_ops (mcsos_syscall_init ops s)) = Option.bind ops get_ticks"
  "yield_current (g_ops (mcsos_syscall_init ops s)) = Option.bind ops yield_current"
  "exit_current (g_ops (mcsos_syscall_init ops s)) = Option.bind ops exit_current"
  "write_serial (g_ops (mcsos_syscall_init ops s)) = Some (registered_write ops)"
  "g_user_region (mcsos_syscall_init ops s) = g_user_region s"
  by (auto simp: mcsos_syscall_init_def registered_write_def Let_def split: option.splits)

lemma syscall_numbers: "nr < 5 \<longleftrightarrow> nr = 0 \<or> nr = 1 \<or> nr = 2 \<or> nr = 3 \<or> nr = (4 :: u64)"
proof
  assume "nr < 5"
  then have "unat nr < 5" by (simp add: word_less_nat_alt)
  then have "unat nr \<in> {0, 1, 2, 3, 4}" by auto
  then show "nr = 0 \<or> nr = 1 \<or> nr = 2 \<or> nr = 3 \<or> nr = 4" by (auto simp: word_unat_eq_iff)
qed auto

section \<open>Properties\<close>

text \<open>C28: the range check accepts a buffer exactly when it is empty or lies wholly inside a user region
  with a non-zero base, in unbounded arithmetic: no choice of address and length makes the wrapping
  computation of the last byte accept a buffer that leaves the region.\<close>

theorem user_check_range_exact:
  "mcsos_user_check_range r addr len \<longleftrightarrow> len = 0 \<or>
     0 < unat (ur_base r) \<and> unat (ur_base r) \<le> unat addr \<and> unat addr + unat len \<le> unat (ur_limit r)"
  using check_range_iff by (simp add: buffer_in_region_def)

text \<open>a copy from user memory succeeds exactly for an empty request or for non-null pointers with the
  source inside the user region, and then the destination holds the source bytes and is otherwise
  unchanged; a refused copy changes nothing.\<close>

theorem copy_from_user_exact:
  assumes "unat len \<le> length d"
  shows "mcsos_copy_from_user r mem (Some d) src len =
    (if len = 0 \<or> src \<noteq> 0 \<and> buffer_in_region r src len
     then (MCSOS_OK, Some (map (\<lambda>i. mem (src + of_nat i)) [0..<unat len] @ drop (unat len) d))
     else if src = 0 then (MCSOS_EINVAL, Some d) else (MCSOS_EFAULT, Some d))"
proof -
  have "copy_user mem d src 0 (unat len) = map (\<lambda>i. mem (src + of_nat i)) [0..<unat len] @ drop (unat len) d"
    using assms by (intro nth_equalityI) (auto simp: copy_user_nth nth_append)
  then show ?thesis by (auto simp: mcsos_copy_from_user_def check_range_iff)
qed

theorem copy_from_user_exact_witness:
  "mcsos_copy_from_user \<lparr>ur_base = 4096, ur_limit = 8192\<rparr> (\<lambda>a. ucast a) (Some [9, 9, 9]) 4097 2 = (MCSOS_OK, Some [1, 2, 9])"
  using copy_from_user_exact [of 2 "[9, 9, 9]" "\<lparr>ur_base = 4096, ur_limit = 8192\<rparr>" "\<lambda>a. ucast a" 4097]
  by (simp add: buffer_in_region_def upt_conv_Cons)

text \<open>C29: after initialisation the dispatcher is total and answers as the interface says for every number:
  unknown numbers and unregistered services are refused without any effect, and the serial write
  reaches the registered callback, or the fallback, only with a non-null pointer, at most 4096 bytes
  and a buffer the range check accepts.\<close>

theorem syscall_dispatch_spec:
  "mcsos_syscall_dispatch (mcsos_syscall_init ops s) nr a0 a1 a2 a3 a4 a5 w =
    (if nr = 0 then (0x2605020A, w)
     else if nr = 1 then (case Option.bind ops get_ticks of None \<Rightarrow> (MCSOS_EBUSY, w) | Some f \<Rightarrow> f w)
     else if nr = 2 then
       (if a0 = 0 \<or> 4096 < unat a1 then (MCSOS_EINVAL, w)
        else if a1 = 0 \<or> buffer_in_region (g_user_region s) a0 a1 then registered_write ops a0 a1 w
        else (MCSOS_EFAULT, w))
     else if nr = 3 then (case Option.bind ops yield_current of None \<Rightarrow> (MCSOS_EBUSY, w) | Some f \<Rightarrow> (MCSOS_OK, f w))
     else if nr = 4 then
       (case Option.bind ops exit_current of None \<Rightarrow> (MCSOS_EBUSY, w) | Some f \<Rightarrow> (MCSOS_OK, f (ucast a0) w))
     else (MCSOS_ENOSYS, w))"
proof (cases "nr < 5")
  case True
  then consider "nr = 0" | "nr = 1" | "nr = 2" | "nr = 3" | "nr = 4" using syscall_numbers by blast
  then show ?thesis
    by cases (simp_all add: mcsos_syscall_dispatch_def MCSOS_SYS_MAX_def g_table_def sys_ping_def sys_get_ticks_def
        sys_write_serial_def sys_yield_def sys_exit_thread_def init_ops check_range_iff word_less_nat_alt word_le_nat_alt)
next
  case False
  then have "5 \<le> nr" by (simp add: not_less)
  moreover have "nr \<noteq> 0" "nr \<noteq> 1" "nr \<noteq> 2" "nr \<noteq> 3" "nr \<noteq> 4" using False syscall_numbers [of nr] by blast+
  ultimately show ?thesis by (simp add: mcsos_syscall_dispatch_def MCSOS_SYS_MAX_def)
qed

end
