(* ===== verification/Elf.thy ===== *)
theory Elf
  imports MCS_Prelude
begin

text \<open>
  \<open>kernel/user/m11_elf_loader.c\<close>: the ELF64 loader's planner, which reads an untrusted image and either
  refuses it or produces the list of segments to map; and the image of the self test in
  \<open>m11_kernel_integration.c\<close>. The header structs overlay the image, so their fields are read from its
  bytes at the offsets of the struct layout (no padding: all fields are naturally aligned).
\<close>

section \<open>Data\<close>

datatype m11_status =
  M11_OK | M11_ERR_NULL | M11_ERR_SIZE | M11_ERR_MAGIC | M11_ERR_CLASS | M11_ERR_ENDIAN | M11_ERR_VERSION
  | M11_ERR_TYPE | M11_ERR_MACHINE | M11_ERR_EHSIZE | M11_ERR_PHENTSIZE | M11_ERR_PHBOUNDS | M11_ERR_ALIGN
  | M11_ERR_SEGBOUNDS | M11_ERR_SEGRANGE | M11_ERR_SEGCOUNT | M11_ERR_ENTRY | M11_ERR_FLAGS

definition M11_PT_LOAD :: u32 where [mcs_consts]: "M11_PT_LOAD = 1"
definition M11_PF_X :: u32 where [mcs_consts]: "M11_PF_X = 1"
definition M11_PF_W :: u32 where [mcs_consts]: "M11_PF_W = 2"
definition M11_PF_R :: u32 where [mcs_consts]: "M11_PF_R = 4"
definition M11_MAX_LOAD_SEGMENTS :: u32 where [mcs_consts]: "M11_MAX_LOAD_SEGMENTS = 8"
definition M11_EM_X86_64 :: u16 where [mcs_consts]: "M11_EM_X86_64 = 62"
definition M11_ET_EXEC :: u16 where [mcs_consts]: "M11_ET_EXEC = 2"
definition M11_ET_DYN :: u16 where [mcs_consts]: "M11_ET_DYN = 3"

record m11_elf64_ehdr =
  e_ident :: bytes
  e_type :: u16
  e_machine :: u16
  e_version :: u32
  e_entry :: u64
  e_phoff :: u64
  e_shoff :: u64
  e_flags :: u32
  e_ehsize :: u16
  e_phentsize :: u16
  e_phnum :: u16
  e_shentsize :: u16
  e_shnum :: u16
  e_shstrndx :: u16

record m11_elf64_phdr =
  p_type :: u32
  p_flags :: u32
  p_offset :: u64
  p_vaddr :: u64
  p_paddr :: u64
  p_filesz :: u64
  p_memsz :: u64
  p_align :: u64

record m11_user_region =
  rg_base :: u64
  rg_limit :: u64

record m11_segment_plan =
  sp_file_offset :: u64
  sp_vaddr :: u64
  sp_filesz :: u64
  sp_memsz :: u64
  sp_align :: u64
  sp_flags :: u32

record m11_process_image_plan =
  pl_entry :: u64
  pl_segment_count :: u32
  pl_segments :: "m11_segment_plan list"

text \<open>The overlays.\<close>

definition ehdr_at :: "bytes \<Rightarrow> m11_elf64_ehdr" where
  "ehdr_at im = \<lparr>e_ident = slice 0 16 im, e_type = rd16 im 16, e_machine = rd16 im 18, e_version = rd32 im 20,
     e_entry = rd64 im 24, e_phoff = rd64 im 32, e_shoff = rd64 im 40, e_flags = rd32 im 48, e_ehsize = rd16 im 52,
     e_phentsize = rd16 im 54, e_phnum = rd16 im 56, e_shentsize = rd16 im 58, e_shnum = rd16 im 60,
     e_shstrndx = rd16 im 62\<rparr>"

definition phdr_at :: "bytes \<Rightarrow> nat \<Rightarrow> m11_elf64_phdr" where
  "phdr_at im off = \<lparr>p_type = rd32 im off, p_flags = rd32 im (off + 4), p_offset = rd64 im (off + 8),
     p_vaddr = rd64 im (off + 16), p_paddr = rd64 im (off + 24), p_filesz = rd64 im (off + 32),
     p_memsz = rd64 im (off + 40), p_align = rd64 im (off + 48)\<rparr>"

section \<open>Operations\<close>

definition m11_add_overflow_u64 :: "u64 \<Rightarrow> u64 \<Rightarrow> u64 option" where
  "m11_add_overflow_u64 a b = (let r = a + b in if r < a then None else Some r)"

definition m11_is_power_of_two_u64 :: "u64 \<Rightarrow> bool" where
  "m11_is_power_of_two_u64 v = (v \<noteq> 0 \<and> v AND (v - 1) = 0)"

definition zero_segment :: m11_segment_plan where
  "zero_segment = \<lparr>sp_file_offset = 0, sp_vaddr = 0, sp_filesz = 0, sp_memsz = 0, sp_align = 0, sp_flags = 0\<rparr>"

definition m11_zero_plan :: "m11_process_image_plan \<Rightarrow> m11_process_image_plan" where
  "m11_zero_plan plan = plan\<lparr>pl_entry := 0, pl_segment_count := 0,
     pl_segments := replicate (unat M11_MAX_LOAD_SEGMENTS) zero_segment\<rparr>"

definition m11_validate_user_range :: "m11_user_region \<Rightarrow> u64 \<Rightarrow> u64 \<Rightarrow> m11_status" where
  "m11_validate_user_range region base_addr sz =
     (if rg_limit region \<le> rg_base region then M11_ERR_SEGRANGE
      else if sz = 0 then M11_ERR_SEGRANGE
      else (case m11_add_overflow_u64 base_addr sz of
              None \<Rightarrow> M11_ERR_SEGRANGE
            | Some fin \<Rightarrow>
                if base_addr < rg_base region \<or> rg_limit region < fin \<or> fin \<le> base_addr then M11_ERR_SEGRANGE
                else M11_OK))"

definition m11_validate_ident :: "m11_elf64_ehdr \<Rightarrow> m11_status" where
  "m11_validate_ident eh =
     (if e_ident eh ! 0 \<noteq> 0x7f \<or> e_ident eh ! 1 \<noteq> 69 \<or> e_ident eh ! 2 \<noteq> 76 \<or> e_ident eh ! 3 \<noteq> 70 then M11_ERR_MAGIC
      else if e_ident eh ! 4 \<noteq> 2 then M11_ERR_CLASS
      else if e_ident eh ! 5 \<noteq> 1 then M11_ERR_ENDIAN
      else if e_ident eh ! 6 \<noteq> 1 \<or> e_version eh \<noteq> 1 then M11_ERR_VERSION
      else M11_OK)"

definition m11_validate_phdr_bounds :: "m11_elf64_ehdr \<Rightarrow> u64 \<Rightarrow> m11_status" where
  "m11_validate_phdr_bounds eh image_size =
     (if e_phnum eh = 0 then M11_ERR_PHBOUNDS
      else if e_phentsize eh \<noteq> 56 then M11_ERR_PHENTSIZE
      else
        let ph_table_bytes = (ucast (e_phentsize eh) * ucast (e_phnum eh) :: u64) in
        if e_phnum eh \<noteq> 0 \<and> ph_table_bytes div ucast (e_phnum eh) \<noteq> ucast (e_phentsize eh) then M11_ERR_PHBOUNDS
        else (case m11_add_overflow_u64 (e_phoff eh) ph_table_bytes of
                None \<Rightarrow> M11_ERR_PHBOUNDS
              | Some ph_end \<Rightarrow>
                  if image_size < ph_end \<or> image_size < e_phoff eh then M11_ERR_PHBOUNDS else M11_OK))"

definition m11_validate_load_segment :: "m11_elf64_phdr \<Rightarrow> u64 \<Rightarrow> m11_user_region \<Rightarrow> m11_status" where
  "m11_validate_load_segment ph image_size region =
     (if p_flags ph AND NOT (M11_PF_R OR M11_PF_W OR M11_PF_X) \<noteq> 0 then M11_ERR_FLAGS
      else if p_flags ph AND M11_PF_W \<noteq> 0 \<and> p_flags ph AND M11_PF_X \<noteq> 0 then M11_ERR_FLAGS
      else if p_memsz ph < p_filesz ph then M11_ERR_SEGBOUNDS
      else if p_align ph \<noteq> 0 \<and> p_align ph \<noteq> 1 \<and> \<not> m11_is_power_of_two_u64 (p_align ph) then M11_ERR_ALIGN
      else if p_align ph \<noteq> 0 \<and> p_align ph \<noteq> 1 \<and> p_vaddr ph mod p_align ph \<noteq> p_offset ph mod p_align ph then M11_ERR_ALIGN
      else (case m11_add_overflow_u64 (p_offset ph) (p_filesz ph) of
              None \<Rightarrow> M11_ERR_SEGBOUNDS
            | Some file_end \<Rightarrow>
                if image_size < file_end \<or> image_size < p_offset ph then M11_ERR_SEGBOUNDS
                else m11_validate_user_range region (p_vaddr ph) (p_memsz ph)))"

definition segment_of :: "m11_elf64_phdr \<Rightarrow> m11_segment_plan" where
  "segment_of ph = \<lparr>sp_file_offset = p_offset ph, sp_vaddr = p_vaddr ph, sp_filesz = p_filesz ph,
     sp_memsz = p_memsz ph, sp_align = p_align ph, sp_flags = p_flags ph\<rparr>"

text \<open>The loop over the program headers that remain.\<close>

fun plan_segments ::
  "m11_elf64_phdr list \<Rightarrow> u64 \<Rightarrow> m11_user_region \<Rightarrow> m11_process_image_plan \<Rightarrow> m11_status \<times> m11_process_image_plan" where
  "plan_segments [] image_size region plan = (M11_OK, plan)"
| "plan_segments (ph # phs) image_size region plan =
     (if p_type ph \<noteq> M11_PT_LOAD then plan_segments phs image_size region plan
      else if M11_MAX_LOAD_SEGMENTS \<le> pl_segment_count plan then (M11_ERR_SEGCOUNT, m11_zero_plan plan)
      else
        (case m11_validate_load_segment ph image_size region of
           M11_OK \<Rightarrow>
             plan_segments phs image_size region
               (plan\<lparr>pl_segments := (pl_segments plan)[unat (pl_segment_count plan) := segment_of ph],
                     pl_segment_count := pl_segment_count plan + 1\<rparr>)
         | rc \<Rightarrow> (rc, m11_zero_plan plan)))"

definition program_headers :: "bytes \<Rightarrow> m11_elf64_phdr list" where
  "program_headers im =
     map (\<lambda>i. phdr_at im (unat (e_phoff (ehdr_at im)) + 56 * i)) [0..<unat (e_phnum (ehdr_at im))]"

definition m11_elf64_plan_load ::
  "bytes option \<Rightarrow> u64 \<Rightarrow> m11_user_region \<Rightarrow> m11_process_image_plan option \<Rightarrow>
   m11_status \<times> m11_process_image_plan option" where
  "m11_elf64_plan_load img image_size region out_plan =
     (if img = None \<or> out_plan = None then (M11_ERR_NULL, out_plan)
      else
        let im = the img; eh = ehdr_at im; plan = m11_zero_plan (the out_plan) in
        if image_size < 64 then (M11_ERR_SIZE, Some plan)
        else if m11_validate_ident eh \<noteq> M11_OK then (m11_validate_ident eh, Some plan)
        else if e_type eh \<noteq> M11_ET_EXEC \<and> e_type eh \<noteq> M11_ET_DYN then (M11_ERR_TYPE, Some plan)
        else if e_machine eh \<noteq> M11_EM_X86_64 then (M11_ERR_MACHINE, Some plan)
        else if e_ehsize eh \<noteq> 64 then (M11_ERR_EHSIZE, Some plan)
        else if m11_validate_phdr_bounds eh image_size \<noteq> M11_OK then (m11_validate_phdr_bounds eh image_size, Some plan)
        else if m11_validate_user_range region (e_entry eh) 1 \<noteq> M11_OK then (M11_ERR_ENTRY, Some plan)
        else
          (case plan_segments (program_headers im) image_size region (plan\<lparr>pl_entry := e_entry eh\<rparr>) of
             (rc, plan') \<Rightarrow>
               if rc \<noteq> M11_OK then (rc, Some plan')
               else if pl_segment_count plan' = 0 then (M11_ERR_SEGCOUNT, Some plan')
               else (M11_OK, Some plan')))"

fun m11_error_name :: "m11_status \<Rightarrow> string" where
  "m11_error_name M11_OK = ''M11_OK''"
| "m11_error_name M11_ERR_NULL = ''M11_ERR_NULL''"
| "m11_error_name M11_ERR_SIZE = ''M11_ERR_SIZE''"
| "m11_error_name M11_ERR_MAGIC = ''M11_ERR_MAGIC''"
| "m11_error_name M11_ERR_CLASS = ''M11_ERR_CLASS''"
| "m11_error_name M11_ERR_ENDIAN = ''M11_ERR_ENDIAN''"
| "m11_error_name M11_ERR_VERSION = ''M11_ERR_VERSION''"
| "m11_error_name M11_ERR_TYPE = ''M11_ERR_TYPE''"
| "m11_error_name M11_ERR_MACHINE = ''M11_ERR_MACHINE''"
| "m11_error_name M11_ERR_EHSIZE = ''M11_ERR_EHSIZE''"
| "m11_error_name M11_ERR_PHENTSIZE = ''M11_ERR_PHENTSIZE''"
| "m11_error_name M11_ERR_PHBOUNDS = ''M11_ERR_PHBOUNDS''"
| "m11_error_name M11_ERR_ALIGN = ''M11_ERR_ALIGN''"
| "m11_error_name M11_ERR_SEGBOUNDS = ''M11_ERR_SEGBOUNDS''"
| "m11_error_name M11_ERR_SEGRANGE = ''M11_ERR_SEGRANGE''"
| "m11_error_name M11_ERR_SEGCOUNT = ''M11_ERR_SEGCOUNT''"
| "m11_error_name M11_ERR_ENTRY = ''M11_ERR_ENTRY''"
| "m11_error_name M11_ERR_FLAGS = ''M11_ERR_FLAGS''"

text \<open>The image that the self test of \<open>m11_kernel_integration.c\<close> builds in its static buffer, its region, and its call.\<close>

definition m11_memset_local :: "bytes \<Rightarrow> u8 \<Rightarrow> nat \<Rightarrow> bytes" where
  "m11_memset_local dst v n = patch 0 (replicate n v) dst"

definition synthetic_ehdr :: "bytes \<Rightarrow> bytes" where
  "synthetic_ehdr im =
     (let im = patch 0 [0x7f, 69, 76, 70, 2, 1, 1] im;
          im = wr16 im 16 M11_ET_EXEC;
          im = wr16 im 18 M11_EM_X86_64;
          im = wr32 im 20 1;
          im = wr64 im 24 0x401000;
          im = wr64 im 32 64;
          im = wr16 im 52 64;
          im = wr16 im 54 56;
          im = wr16 im 56 1
      in im)"

definition synthetic_phdr :: "bytes \<Rightarrow> nat \<Rightarrow> bytes" where
  "synthetic_phdr im off =
     (let im = wr32 im off M11_PT_LOAD;
          im = wr32 im (off + 4) (M11_PF_R OR M11_PF_X);
          im = wr64 im (off + 8) 0x1000;
          im = wr64 im (off + 16) 0x400000;
          im = wr64 im (off + 32) 16;
          im = wr64 im (off + 40) 4096;
          im = wr64 im (off + 48) 4096
      in im)"

definition m11_synthetic_image :: "bytes \<Rightarrow> bytes" where
  "m11_synthetic_image buf =
     (let im = synthetic_ehdr (m11_memset_local buf 0 (4096 * 3)) in synthetic_phdr im (unat (rd64 im 32)))"

definition selftest_region :: m11_user_region where
  "selftest_region = \<lparr>rg_base = 0x400000, rg_limit = 0x8000000000\<rparr>"

definition m11_kernel_selftest :: "bytes \<Rightarrow> m11_process_image_plan \<Rightarrow> m11_status \<times> m11_process_image_plan option" where
  "m11_kernel_selftest buf plan =
     m11_elf64_plan_load (Some (m11_synthetic_image buf)) (4096 * 3) selftest_region (Some plan)"

section \<open>Specification\<close>

text \<open>The requirements on an image, in unbounded arithmetic.\<close>

definition range_ok :: "m11_user_region \<Rightarrow> u64 \<Rightarrow> u64 \<Rightarrow> bool" where
  "range_ok rg a n \<longleftrightarrow> 0 < unat n \<and> unat (rg_base rg) \<le> unat a \<and> unat a + unat n \<le> unat (rg_limit rg)"

definition segment_ok :: "u64 \<Rightarrow> m11_user_region \<Rightarrow> m11_elf64_phdr \<Rightarrow> bool" where
  "segment_ok image_size rg ph \<longleftrightarrow>
     p_flags ph AND NOT 7 = 0 \<and> \<not> (bit (p_flags ph) 0 \<and> bit (p_flags ph) 1) \<and>
     unat (p_filesz ph) \<le> unat (p_memsz ph) \<and>
     (p_align ph = 0 \<or> p_align ph = 1 \<or>
        m11_is_power_of_two_u64 (p_align ph) \<and> p_vaddr ph mod p_align ph = p_offset ph mod p_align ph) \<and>
     unat (p_offset ph) + unat (p_filesz ph) \<le> unat image_size \<and> range_ok rg (p_vaddr ph) (p_memsz ph)"

definition header_ok :: "u64 \<Rightarrow> m11_user_region \<Rightarrow> m11_elf64_ehdr \<Rightarrow> bool" where
  "header_ok image_size rg eh \<longleftrightarrow>
     64 \<le> unat image_size \<and> m11_validate_ident eh = M11_OK \<and> (e_type eh = M11_ET_EXEC \<or> e_type eh = M11_ET_DYN) \<and>
     e_machine eh = M11_EM_X86_64 \<and> e_ehsize eh = 64 \<and> e_phentsize eh = 56 \<and> 0 < unat (e_phnum eh) \<and>
     unat (e_phoff eh) + 56 * unat (e_phnum eh) \<le> unat image_size \<and> range_ok rg (e_entry eh) 1"

definition load_headers :: "bytes \<Rightarrow> m11_elf64_phdr list" where
  "load_headers im = filter (\<lambda>ph. p_type ph = M11_PT_LOAD) (program_headers im)"

section \<open>Lemmas\<close>

lemma add_overflow_iff:
  "m11_add_overflow_u64 a b = (if unat a + unat b < 2 ^ 64 then Some (a + b) else None)"
proof (cases "unat a + unat b < 2 ^ 64")
  case True
  then have "unat (a + b) = unat a + unat b" by (simp add: unat_word_ariths)
  then show ?thesis using True by (simp add: m11_add_overflow_u64_def Let_def word_less_nat_alt)
next
  case False
  have "unat (a + b) = unat a + unat b - 2 ^ 64"
    using False unat_bound [of a] unat_bound [of b] by (simp add: unat_word_ariths mod_if)
  then show ?thesis
    using False unat_bound [of b] by (simp add: m11_add_overflow_u64_def Let_def word_less_nat_alt)
qed

lemma unat_add_fits: "unat (a :: u64) + unat b < 2 ^ 64 \<Longrightarrow> unat (a + b) = unat a + unat b"
  by (simp add: unat_word_ariths)

lemma user_range_iff: "m11_validate_user_range rg a n = M11_OK \<longleftrightarrow> range_ok rg a n"
proof (cases "unat a + unat n < 2 ^ 64")
  case True
  have "n = 0 \<longleftrightarrow> unat n = 0" by (simp add: unat_eq_zero)
  then show ?thesis
    using True unat_add_fits [OF True]
    by (auto simp: m11_validate_user_range_def add_overflow_iff range_ok_def word_less_nat_alt word_le_nat_alt)
next
  case False
  then show ?thesis
    using unat_bound [of "rg_limit rg"]
    by (auto simp: m11_validate_user_range_def add_overflow_iff range_ok_def)
qed

lemma phdr_bounds_iff:
  "m11_validate_phdr_bounds eh sz = M11_OK \<longleftrightarrow>
   0 < unat (e_phnum eh) \<and> e_phentsize eh = 56 \<and> unat (e_phoff eh) + 56 * unat (e_phnum eh) \<le> unat sz"
proof (cases "e_phnum eh = 0 \<or> e_phentsize eh \<noteq> 56")
  case True
  then show ?thesis by (auto simp: m11_validate_phdr_bounds_def)
next
  case False
  let ?n = "ucast (e_phnum eh) :: u64"
  have n: "unat ?n = unat (e_phnum eh)" by (simp add: unat_ucast_up)
  have pos: "0 < unat (e_phnum eh)" using False by (simp add: unat_gt_0)
  have ub: "unat (e_phnum eh) < 2 ^ 16" using unat_bound [of "e_phnum eh"] by simp
  have t: "unat (56 * ?n) = 56 * unat (e_phnum eh)" using n ub by (simp add: unat_word_ariths)
  have "unat (56 * ?n div ?n) = 56" using t n pos by (simp add: unat_div)
  then have q: "56 * ?n div ?n = 56" by (simp add: word_unat_eq_iff)
  show ?thesis
    using False q t pos unat_bound [of sz] unat_add_fits [of "e_phoff eh" "56 * ?n"]
    by (auto simp: m11_validate_phdr_bounds_def Let_def add_overflow_iff word_less_nat_alt split: if_splits)
qed

lemma and_bit_word: "(w :: u32) AND 1 \<noteq> 0 \<longleftrightarrow> bit w 0" "w AND 2 \<noteq> 0 \<longleftrightarrow> bit w 1"
  using and_exp_eq_0_iff_not_bit [of w 0] and_exp_eq_0_iff_not_bit [of w 1] by simp_all

lemma load_segment_iff: "m11_validate_load_segment ph sz rg = M11_OK \<longleftrightarrow> segment_ok sz rg ph"
proof -
  have seven: "M11_PF_R OR M11_PF_W OR M11_PF_X = 7" by (simp add: mcs_consts)
  have fl: "(p_flags ph AND M11_PF_W \<noteq> 0 \<and> p_flags ph AND M11_PF_X \<noteq> 0) \<longleftrightarrow> bit (p_flags ph) 0 \<and> bit (p_flags ph) 1"
    using and_bit_word [of "p_flags ph"] by (auto simp: M11_PF_W_def M11_PF_X_def)
  have fbd: "(case m11_add_overflow_u64 (p_offset ph) (p_filesz ph) of None \<Rightarrow> M11_ERR_SEGBOUNDS
      | Some e \<Rightarrow> if sz < e \<or> sz < p_offset ph then M11_ERR_SEGBOUNDS
          else m11_validate_user_range rg (p_vaddr ph) (p_memsz ph)) = M11_OK \<longleftrightarrow>
      unat (p_offset ph) + unat (p_filesz ph) \<le> unat sz \<and> range_ok rg (p_vaddr ph) (p_memsz ph)"
    using unat_add_fits [of "p_offset ph" "p_filesz ph"] unat_bound [of sz]
    by (auto simp: add_overflow_iff user_range_iff word_less_nat_alt)
  show ?thesis
    unfolding m11_validate_load_segment_def seven fl segment_ok_def
    using fbd by (auto simp: word_less_nat_alt not_less)
qed

text \<open>The outcome \<open>res\<close> of planning the loadable headers \<open>loads\<close> behind the \<open>c\<close> segments already planned.\<close>

definition planned ::
  "u64 \<Rightarrow> m11_user_region \<Rightarrow> nat \<Rightarrow> m11_process_image_plan \<Rightarrow> m11_elf64_phdr list \<Rightarrow> m11_status \<times> m11_process_image_plan \<Rightarrow> bool" where
  "planned sz rg c plan loads res \<longleftrightarrow>
     (fst res = M11_OK \<longleftrightarrow> c + length loads \<le> 8 \<and> (\<forall>ph \<in> set loads. segment_ok sz rg ph)) \<and>
     (fst res = M11_OK \<longrightarrow> snd res =
        plan\<lparr>pl_segments := take c (pl_segments plan) @ map segment_of loads @ drop (c + length loads) (pl_segments plan),
             pl_segment_count := of_nat (c + length loads)\<rparr>) \<and>
     (fst res \<noteq> M11_OK \<longrightarrow> snd res = m11_zero_plan plan)"

lemma planned_Cons:
  assumes "length (pl_segments plan) = 8" "unat (pl_segment_count plan) = c" "c < 8" "segment_ok sz rg ph"
    and "planned sz rg (Suc c) (plan\<lparr>pl_segments := (pl_segments plan)[c := segment_of ph],
        pl_segment_count := pl_segment_count plan + 1\<rparr>) loads res"
  shows "planned sz rg c plan (ph # loads) res"
proof -
  have "take (Suc c) ((pl_segments plan)[c := segment_of ph]) = take c (pl_segments plan) @ [segment_of ph]"
    "drop (Suc c + n) ((pl_segments plan)[c := segment_of ph]) = drop (Suc c + n) (pl_segments plan)" for n
    using assms(1,3) by (simp_all add: take_Suc_conv_app_nth)
  with assms show ?thesis by (simp add: planned_def m11_zero_plan_def)
qed

lemma plan_segments_run:
  assumes "length (pl_segments plan) = 8" "unat (pl_segment_count plan) = c" "c \<le> 8"
  shows "planned sz rg c plan (filter (\<lambda>ph. p_type ph = M11_PT_LOAD) phs) (plan_segments phs sz rg plan)"
  using assms
proof (induction phs sz rg plan arbitrary: c rule: plan_segments.induct)
  case (1 sz rg plan)
  have "of_nat c = pl_segment_count plan" using "1.prems"(2) by auto
  then show ?case using "1.prems" by (simp add: planned_def)
next
  case (2 ph phs sz rg plan)
  have lim: "M11_MAX_LOAD_SEGMENTS \<le> pl_segment_count plan \<longleftrightarrow> \<not> c < 8"
    using "2.prems" by (simp add: word_le_nat_alt M11_MAX_LOAD_SEGMENTS_def not_less)
  consider (skip) "p_type ph \<noteq> M11_PT_LOAD" | (full) "p_type ph = M11_PT_LOAD" "\<not> c < 8"
    | (bad) "p_type ph = M11_PT_LOAD" "c < 8" "m11_validate_load_segment ph sz rg \<noteq> M11_OK"
    | (good) "p_type ph = M11_PT_LOAD" "c < 8" "m11_validate_load_segment ph sz rg = M11_OK" by blast
  then show ?case
  proof cases
    case skip
    then show ?thesis using "2.IH"(1) [OF _ "2.prems"] by simp
  next
    case full
    then show ?thesis using lim "2.prems" by (simp add: planned_def)
  next
    case bad
    then have "plan_segments (ph # phs) sz rg plan = (m11_validate_load_segment ph sz rg, m11_zero_plan plan)"
      using lim by (simp split: m11_status.splits)
    then show ?thesis using bad load_segment_iff [of ph sz rg] by (simp add: planned_def)
  next
    case good
    let ?p = "plan\<lparr>pl_segments := (pl_segments plan)[c := segment_of ph], pl_segment_count := pl_segment_count plan + 1\<rparr>"
    have cnt: "unat (pl_segment_count ?p) = Suc c" "length (pl_segments ?p) = 8" "Suc c \<le> 8"
      using "2.prems" good(2) by (simp_all add: unat_word_ariths)
    have eq: "plan_segments (ph # phs) sz rg plan = plan_segments phs sz rg ?p"
      using good "2.prems"(2) lim by simp
    have "planned sz rg (Suc c) ?p (filter (\<lambda>ph. p_type ph = M11_PT_LOAD) phs) (plan_segments phs sz rg ?p)"
      using "2.IH"(2) [of "Suc c"] good "2.prems"(2) lim cnt by simp
    then show ?thesis
      unfolding eq using planned_Cons [OF "2.prems"(1,2) good(2)] good(1,3) load_segment_iff [of ph sz rg] by simp
  qed
qed

lemma plan_load_ok:
  "fst (m11_elf64_plan_load (Some im) sz rg (Some q)) = M11_OK \<longleftrightarrow>
     header_ok sz rg (ehdr_at im) \<and> load_headers im \<noteq> [] \<and> length (load_headers im) \<le> 8 \<and>
     list_all (segment_ok sz rg) (load_headers im)"
  "fst (m11_elf64_plan_load (Some im) sz rg (Some q)) = M11_OK \<Longrightarrow>
     snd (m11_elf64_plan_load (Some im) sz rg (Some q)) =
       Some (q\<lparr>pl_entry := e_entry (ehdr_at im), pl_segment_count := of_nat (length (load_headers im)),
               pl_segments := map segment_of (load_headers im) @ replicate (8 - length (load_headers im)) zero_segment\<rparr>)"
proof -
  let ?eh = "ehdr_at im" and ?n = "length (load_headers im)"
  let ?p = "(m11_zero_plan q)\<lparr>pl_entry := e_entry ?eh\<rparr>"
  let ?r = "plan_segments (program_headers im) sz rg ?p"
  have p: "length (pl_segments ?p) = 8" "unat (pl_segment_count ?p) = 0"
    "pl_segments ?p = replicate 8 zero_segment"
    by (simp_all add: m11_zero_plan_def M11_MAX_LOAD_SEGMENTS_def)
  note run = plan_segments_run [where phs = "program_headers im" and sz = sz and rg = rg, OF p(1,2), unfolded planned_def, simplified,
      folded load_headers_def]
  have ok: "fst ?r = M11_OK \<longleftrightarrow> ?n \<le> 8 \<and> list_all (segment_ok sz rg) (load_headers im)"
    using run by (auto simp: list_all_iff load_headers_def)
  have st: "fst ?r = M11_OK \<Longrightarrow> snd ?r = ?p\<lparr>pl_segments := map segment_of (load_headers im) @ replicate (8 - ?n) zero_segment,
      pl_segment_count := of_nat ?n\<rparr>"
    using run p(3) by simp
  have small: "?n \<le> 8 \<Longrightarrow> of_nat ?n = (0 :: u32) \<longleftrightarrow> load_headers im = []"
    by (simp add: word_of_nat_eq_0_iff nat_dvd_not_less) (use nat_dvd_not_less [of ?n "2 ^ 32"] in auto)
  have hd: "header_ok sz rg ?eh \<longleftrightarrow> \<not> sz < 64 \<and> m11_validate_ident ?eh = M11_OK \<and>
      (e_type ?eh = M11_ET_EXEC \<or> e_type ?eh = M11_ET_DYN) \<and> e_machine ?eh = M11_EM_X86_64 \<and> e_ehsize ?eh = 64 \<and>
      m11_validate_phdr_bounds ?eh sz = M11_OK \<and> m11_validate_user_range rg (e_entry ?eh) 1 = M11_OK"
    by (auto simp: header_ok_def phdr_bounds_iff user_range_iff word_less_nat_alt)
  have call: "m11_elf64_plan_load (Some im) sz rg (Some q) =
      (if fst ?r \<noteq> M11_OK then (fst ?r, Some (snd ?r))
       else if pl_segment_count (snd ?r) = 0 then (M11_ERR_SEGCOUNT, Some (snd ?r)) else (M11_OK, Some (snd ?r)))"
    if "header_ok sz rg ?eh"
    using that unfolding hd by (auto simp: m11_elf64_plan_load_def Let_def split: prod.splits)
  have bad: "fst (m11_elf64_plan_load (Some im) sz rg (Some q)) \<noteq> M11_OK" if "\<not> header_ok sz rg ?eh"
    using that unfolding hd by (auto simp: m11_elf64_plan_load_def Let_def)
  show iff: "fst (m11_elf64_plan_load (Some im) sz rg (Some q)) = M11_OK \<longleftrightarrow>
     header_ok sz rg (ehdr_at im) \<and> load_headers im \<noteq> [] \<and> length (load_headers im) \<le> 8 \<and>
     list_all (segment_ok sz rg) (load_headers im)"
    using call bad ok st small by (cases "header_ok sz rg ?eh") (auto split: if_splits)
  assume acc: "fst (m11_elf64_plan_load (Some im) sz rg (Some q)) = M11_OK"
  then have h: "header_ok sz rg ?eh" and f: "fst ?r = M11_OK" using iff ok by blast+
  then show "snd (m11_elf64_plan_load (Some im) sz rg (Some q)) =
       Some (q\<lparr>pl_entry := e_entry (ehdr_at im), pl_segment_count := of_nat (length (load_headers im)),
               pl_segments := map segment_of (load_headers im) @ replicate (8 - length (load_headers im)) zero_segment\<rparr>)"
    using call [OF h] st [OF f] by (simp add: m11_zero_plan_def)
qed

lemma plan_load_refused:
  assumes "fst (m11_elf64_plan_load (Some im) sz rg (Some q)) \<noteq> M11_OK"
  shows "\<exists>e. snd (m11_elf64_plan_load (Some im) sz rg (Some q)) = Some ((m11_zero_plan q)\<lparr>pl_entry := e\<rparr>)"
proof -
  let ?p = "(m11_zero_plan q)\<lparr>pl_entry := e_entry (ehdr_at im)\<rparr>"
  let ?r = "plan_segments (program_headers im) sz rg ?p"
  have p: "length (pl_segments ?p) = 8" "unat (pl_segment_count ?p) = 0" "pl_segments ?p = replicate 8 zero_segment"
    "m11_zero_plan ?p = m11_zero_plan q" "(m11_zero_plan q)\<lparr>pl_entry := 0\<rparr> = m11_zero_plan q"
    by (simp_all add: m11_zero_plan_def M11_MAX_LOAD_SEGMENTS_def)
  note run = plan_segments_run [where phs = "program_headers im" and sz = sz and rg = rg, OF p(1,2), unfolded planned_def, simplified,
      folded load_headers_def]
  have bad: "fst ?r \<noteq> M11_OK \<Longrightarrow> snd ?r = m11_zero_plan q" using run p(4) by simp
  have zero: "snd ?r = ?p" if "fst ?r = M11_OK" "pl_segment_count (snd ?r) = 0"
  proof -
    have ih: "snd ?r = ?p\<lparr>pl_segments := map segment_of (load_headers im) @ drop (length (load_headers im)) (pl_segments ?p),
        pl_segment_count := of_nat (length (load_headers im))\<rparr>" and le: "length (load_headers im) \<le> 8"
      using run that(1) by simp_all
    from that(2) have "of_nat (length (load_headers im)) = (0 :: u32)" unfolding ih by simp
    then have "unat (of_nat (length (load_headers im)) :: u32) = 0" by simp
    then have "load_headers im = []" using le by (simp add: unat_of_nat)
    then show ?thesis unfolding ih by (simp add: m11_zero_plan_def)
  qed
  have entry: "\<exists>e. snd ?r = (m11_zero_plan q)\<lparr>pl_entry := e\<rparr>"
    if "fst ?r \<noteq> M11_OK \<or> pl_segment_count (snd ?r) = 0"
    using that bad zero p(5) by metis
  have self: "\<exists>e. m11_zero_plan q = (m11_zero_plan q)\<lparr>pl_entry := e\<rparr>" using p(5) by metis
  show ?thesis
    using assms entry self by (auto simp: m11_elf64_plan_load_def Let_def split: prod.splits if_splits)
qed

section \<open>The planner accepts exactly the images that meet the requirements\<close>

text \<open>C27: exact decision of \<open>m11_elf64_plan_load\<close>: an image is accepted iff its header is a valid x86-64 ELF
  header whose program header table lies in the image and whose entry is a user address, and its loadable program
  headers number from 1 to 8 and each meet the segment requirements (all in unbounded arithmetic, so no image
  passes through a wrapped sum). An accepted image gives exactly the segments of its loadable headers, in order,
  with the entry of its header.\<close>

theorem elf_plan_exact:
  "(fst (m11_elf64_plan_load (Some im) sz rg (Some q)) = M11_OK \<longleftrightarrow>
     header_ok sz rg (ehdr_at im) \<and> load_headers im \<noteq> [] \<and> length (load_headers im) \<le> 8 \<and>
     list_all (segment_ok sz rg) (load_headers im)) \<and>
   (fst (m11_elf64_plan_load (Some im) sz rg (Some q)) = M11_OK \<longrightarrow>
     snd (m11_elf64_plan_load (Some im) sz rg (Some q)) =
       Some (q\<lparr>pl_entry := e_entry (ehdr_at im), pl_segment_count := of_nat (length (load_headers im)),
               pl_segments := map segment_of (load_headers im) @ replicate (8 - length (load_headers im)) zero_segment\<rparr>))"
  using plan_load_ok by blast

text \<open>safety of a plan: whatever the image holds, the planner leaves a plan whose count is at most 8 and each
  of whose counted segments reads inside the image and maps a nonempty range inside the user region, at least as
  long as what it reads, never both writable and executable; a refused image leaves a plan with no segment.\<close>

theorem elf_plan_safe:
  assumes "m11_elf64_plan_load (Some im) sz rg (Some q) = (rc, Some plan)"
  shows "unat (pl_segment_count plan) \<le> 8 \<and> length (pl_segments plan) = 8 \<and>
    (rc = M11_OK \<longleftrightarrow> 0 < unat (pl_segment_count plan)) \<and>
    (\<forall>i < unat (pl_segment_count plan). let s = pl_segments plan ! i in
       unat (sp_file_offset s) + unat (sp_filesz s) \<le> unat sz \<and> unat (sp_filesz s) \<le> unat (sp_memsz s) \<and>
       0 < unat (sp_memsz s) \<and> unat (rg_base rg) \<le> unat (sp_vaddr s) \<and>
       unat (sp_vaddr s) + unat (sp_memsz s) \<le> unat (rg_limit rg) \<and>
       \<not> (bit (sp_flags s) 0 \<and> bit (sp_flags s) 1))"
proof (cases "rc = M11_OK")
  case True
  then have acc: "fst (m11_elf64_plan_load (Some im) sz rg (Some q)) = M11_OK" using assms by simp
  have le: "load_headers im \<noteq> []" "length (load_headers im) \<le> 8"
    and seg: "\<And>ph. ph \<in> set (load_headers im) \<Longrightarrow> segment_ok sz rg ph"
    using acc plan_load_ok(1) by (auto simp: list_all_iff)
  have plan: "plan = q\<lparr>pl_entry := e_entry (ehdr_at im), pl_segment_count := of_nat (length (load_headers im)),
      pl_segments := map segment_of (load_headers im) @ replicate (8 - length (load_headers im)) zero_segment\<rparr>"
    using plan_load_ok(2) [OF acc] assms by simp
  have cnt: "unat (pl_segment_count plan) = length (load_headers im)" using le by (simp add: plan unat_of_nat)
  have "segment_ok sz rg (load_headers im ! i) \<and> pl_segments plan ! i = segment_of (load_headers im ! i)"
    if "i < length (load_headers im)" for i
    using that seg by (simp add: plan nth_append)
  then show ?thesis
    using le True unfolding cnt by (auto simp: plan Let_def segment_ok_def range_ok_def segment_of_def)
next
  case False
  then obtain e where "plan = (m11_zero_plan q)\<lparr>pl_entry := e\<rparr>"
    using plan_load_refused [of im sz rg q] assms by auto
  then show ?thesis using False by (simp add: m11_zero_plan_def M11_MAX_LOAD_SEGMENTS_def)
qed

lemma synthetic_phdr_facts:
  assumes "length im = 12288"
  shows "length (synthetic_phdr im 64) = 12288"
    "slice 0 16 (synthetic_phdr im 64) = slice 0 16 im"
    "off + 2 \<le> 64 \<Longrightarrow> rd16 (synthetic_phdr im 64) off = rd16 im off"
    "off + 4 \<le> 64 \<Longrightarrow> rd32 (synthetic_phdr im 64) off = rd32 im off"
    "off + 8 \<le> 64 \<Longrightarrow> rd64 (synthetic_phdr im 64) off = rd64 im off"
    "phdr_at (synthetic_phdr im 64) 64 =
      \<lparr>p_type = 1, p_flags = 5, p_offset = 0x1000, p_vaddr = 0x400000, p_paddr = rd64 im 88, p_filesz = 16,
       p_memsz = 4096, p_align = 4096\<rparr>"
  using assms by (simp_all add: synthetic_phdr_def phdr_at_def mcs_consts)

lemma synthetic_ehdr_facts:
  fixes z :: bytes
  defines "z \<equiv> replicate 12288 0"
  shows "length (synthetic_ehdr z) = 12288"
    "ehdr_at (synthetic_ehdr z) =
      \<lparr>e_ident = [0x7f, 69, 76, 70, 2, 1, 1, 0, 0, 0, 0, 0, 0, 0, 0, 0], e_type = 2, e_machine = 62, e_version = 1,
       e_entry = 0x401000, e_phoff = 64, e_shoff = 0, e_flags = 0, e_ehsize = 64, e_phentsize = 56, e_phnum = 1,
       e_shentsize = 0, e_shnum = 0, e_shstrndx = 0\<rparr>"
    "rd64 (synthetic_ehdr z) 88 = 0"
proof -
  define y where "y = patch 0 [0x7f, 69, 76, 70, 2, 1, 1] z"
  have len: "length y = 12288" by (simp add: y_def z_def)
  have sl: "slice o2 n y = replicate n 0" if "7 \<le> o2" "o2 + n \<le> 12288" for o2 n
    using that unfolding y_def z_def by (subst slice_patch_other) (auto simp: slice_def)
  have zero: "o2 + 2 \<le> 12288 \<Longrightarrow> rd16 y o2 = 0" "o2 + 4 \<le> 12288 \<Longrightarrow> rd32 y o2 = 0" "o2 + 8 \<le> 12288 \<Longrightarrow> rd64 y o2 = 0"
    if "7 \<le> o2" for o2
    using that sl [of o2] by (simp_all add: rd16_def rd32_def rd64_def)
  have ident: "slice 0 16 y = [0x7f, 69, 76, 70, 2, 1, 1, 0, 0, 0, 0, 0, 0, 0, 0, 0]"
  proof -
    have "slice 0 7 y = [0x7f, 69, 76, 70, 2, 1, 1]" by (simp add: y_def z_def)
    moreover have "replicate 9 (0 :: u8) = [0, 0, 0, 0, 0, 0, 0, 0, 0]" by (simp add: eval_nat_numeral)
    ultimately show ?thesis using slice_join [of 0 7 y 9] sl [of 7 9] by simp
  qed
  show "length (synthetic_ehdr z) = 12288" "rd64 (synthetic_ehdr z) 88 = 0"
    unfolding synthetic_ehdr_def Let_def y_def [symmetric] by (simp_all add: len zero)
  show "ehdr_at (synthetic_ehdr z) =
      \<lparr>e_ident = [0x7f, 69, 76, 70, 2, 1, 1, 0, 0, 0, 0, 0, 0, 0, 0, 0], e_type = 2, e_machine = 62, e_version = 1,
       e_entry = 0x401000, e_phoff = 64, e_shoff = 0, e_flags = 0, e_ehsize = 64, e_phentsize = 56, e_phnum = 1,
       e_shentsize = 0, e_shnum = 0, e_shstrndx = 0\<rparr>"
    unfolding synthetic_ehdr_def Let_def y_def [symmetric] by (simp add: ehdr_at_def len zero ident mcs_consts)
qed

lemma synthetic_image_layers:
  assumes "length buf = 12288"
  shows "m11_synthetic_image buf = synthetic_phdr (synthetic_ehdr (replicate 12288 0)) 64"
proof -
  have "m11_memset_local buf 0 (4096 * 3) = replicate 12288 0" using assms by (simp add: m11_memset_local_def patch_def)
  moreover have "rd64 (synthetic_ehdr (replicate 12288 0)) 32 = 64" using synthetic_ehdr_facts(2) by (simp add: ehdr_at_def)
  ultimately show ?thesis unfolding m11_synthetic_image_def Let_def by simp
qed

lemma length_synthetic_image: "length buf = 12288 \<Longrightarrow> length (m11_synthetic_image buf) = 12288"
  by (simp add: synthetic_image_layers synthetic_phdr_facts(1) synthetic_ehdr_facts(1))

lemma synthetic_image_headers:
  assumes "length buf = 12288"
  shows "ehdr_at (m11_synthetic_image buf) =
      \<lparr>e_ident = [0x7f, 69, 76, 70, 2, 1, 1, 0, 0, 0, 0, 0, 0, 0, 0, 0], e_type = 2, e_machine = 62, e_version = 1,
       e_entry = 0x401000, e_phoff = 64, e_shoff = 0, e_flags = 0, e_ehsize = 64, e_phentsize = 56, e_phnum = 1,
       e_shentsize = 0, e_shnum = 0, e_shstrndx = 0\<rparr>"
    "load_headers (m11_synthetic_image buf) =
      [\<lparr>p_type = 1, p_flags = 5, p_offset = 0x1000, p_vaddr = 0x400000, p_paddr = 0, p_filesz = 16, p_memsz = 4096,
        p_align = 4096\<rparr>]"
proof -
  let ?z = "replicate 12288 0 :: bytes" and ?im = "m11_synthetic_image buf"
  note im = synthetic_image_layers [OF assms]
  note f = synthetic_phdr_facts [OF synthetic_ehdr_facts(1)]
  have "ehdr_at ?im = ehdr_at (synthetic_ehdr ?z)" unfolding im ehdr_at_def by (simp add: f)
  then show eh: "ehdr_at ?im =
      \<lparr>e_ident = [0x7f, 69, 76, 70, 2, 1, 1, 0, 0, 0, 0, 0, 0, 0, 0, 0], e_type = 2, e_machine = 62, e_version = 1,
       e_entry = 0x401000, e_phoff = 64, e_shoff = 0, e_flags = 0, e_ehsize = 64, e_phentsize = 56, e_phnum = 1,
       e_shentsize = 0, e_shnum = 0, e_shstrndx = 0\<rparr>"
    by (simp add: synthetic_ehdr_facts(2))
  show "load_headers ?im = [\<lparr>p_type = 1, p_flags = 5, p_offset = 0x1000, p_vaddr = 0x400000, p_paddr = 0,
      p_filesz = 16, p_memsz = 4096, p_align = 4096\<rparr>]"
    unfolding load_headers_def program_headers_def eh
    unfolding im by (simp add: f(6) synthetic_ehdr_facts(3) M11_PT_LOAD_def)
qed

lemma synthetic_image_meets_requirements:
  assumes "length buf = 12288"
  shows "header_ok (4096 * 3) selftest_region (ehdr_at (m11_synthetic_image buf)) \<and>
    list_all (segment_ok (4096 * 3) selftest_region) (load_headers (m11_synthetic_image buf))"
  unfolding synthetic_image_headers [OF assms]
  by (simp add: header_ok_def segment_ok_def range_ok_def selftest_region_def m11_validate_ident_def
      m11_is_power_of_two_u64_def mcs_consts)

lemma selftest_accepts:
  assumes "length buf = 12288"
  shows "m11_kernel_selftest buf q = (M11_OK, Some (q\<lparr>pl_entry := 0x401000, pl_segment_count := 1,
     pl_segments := \<lparr>sp_file_offset = 0x1000, sp_vaddr = 0x400000, sp_filesz = 16, sp_memsz = 4096, sp_align = 4096,
       sp_flags = 5\<rparr> # replicate 7 zero_segment\<rparr>))"
proof -
  let ?c = "m11_elf64_plan_load (Some (m11_synthetic_image buf)) (4096 * 3) selftest_region (Some q)"
  have acc: "fst ?c = M11_OK"
    using plan_load_ok(1) synthetic_image_meets_requirements [OF assms] synthetic_image_headers [OF assms] by simp
  show ?thesis
    using plan_load_ok(2) [OF acc] acc
    unfolding m11_kernel_selftest_def synthetic_image_headers [OF assms]
    by (cases ?c) (simp add: segment_of_def)
qed

text \<open>The entry point is checked against the user region only. The image of the kernel's own self test is
  accepted although its entry address is the first byte after its only segment, so no page of the plan holds the
  instruction the process would start at.\<close>

theorem elf_entry_outside_segments:
  assumes "length buf = 12288"
  shows "\<exists>plan. m11_kernel_selftest buf q = (M11_OK, Some plan) \<and> pl_segment_count plan = 1 \<and>
    unat (sp_vaddr (pl_segments plan ! 0)) + unat (sp_memsz (pl_segments plan ! 0)) = unat (pl_entry plan)"
  using selftest_accepts [OF assms, of q] by simp

theorem elf_entry_outside_segments_witness:
  "length (replicate 12288 (0 :: u8)) = 12288 \<and>
   (\<exists>plan. m11_kernel_selftest (replicate 12288 0) \<lparr>pl_entry = 0, pl_segment_count = 0, pl_segments = []\<rparr> = (M11_OK, Some plan) \<and>
     pl_segment_count plan = 1 \<and>
     unat (sp_vaddr (pl_segments plan ! 0)) + unat (sp_memsz (pl_segments plan ! 0)) = unat (pl_entry plan))"
  using elf_entry_outside_segments [of "replicate 12288 0" "\<lparr>pl_entry = 0, pl_segment_count = 0, pl_segments = []\<rparr>"] by simp

theorem elf_plan_exact_witness:
  "\<exists>plan. m11_kernel_selftest (replicate 12288 0) (m11_zero_plan \<lparr>pl_entry = 0, pl_segment_count = 0, pl_segments = []\<rparr>) =
     (M11_OK, Some plan) \<and> pl_entry plan = 0x401000 \<and> pl_segment_count plan = 1"
proof -
  let ?b = "replicate 12288 0 :: bytes" and ?q = "m11_zero_plan \<lparr>pl_entry = 0, pl_segment_count = 0, pl_segments = []\<rparr>"
  have l: "length ?b = 12288" by simp
  show ?thesis
    using elf_plan_exact [of "m11_synthetic_image ?b" "4096 * 3" selftest_region ?q]
      synthetic_image_meets_requirements [OF l]
    unfolding synthetic_image_headers [OF l] m11_kernel_selftest_def by (auto simp: prod_eq_iff)
qed

theorem elf_plan_safe_witness:
  "\<exists>plan. m11_kernel_selftest (replicate 12288 0) \<lparr>pl_entry = 0, pl_segment_count = 0, pl_segments = []\<rparr> = (M11_OK, Some plan) \<and>
     unat (pl_segment_count plan) \<le> 8 \<and> length (pl_segments plan) = 8"
proof -
  let ?q = "\<lparr>pl_entry = 0, pl_segment_count = 0, pl_segments = []\<rparr>"
  obtain plan where r: "m11_kernel_selftest (replicate 12288 0) ?q = (M11_OK, Some plan)"
    using selftest_accepts [of "replicate 12288 0" ?q] by simp
  show ?thesis using elf_plan_safe [OF r [unfolded m11_kernel_selftest_def]] r by blast
qed

end
