(* ===== verification/Ramfs.thy ===== *)
theory Ramfs
  imports MCS_Prelude
begin

text \<open>
  \<open>kernel/vfs/ramfs.c\<close> and the data types of \<open>include/mcs_vfs.h\<close>: the in-memory file system, a table of
  64 nodes and an 8 KiB data area in which every file owns a fixed region of 256 bytes.

  A \<open>mcs_vnode_t *\<close> is the index of the node in its table. A path is the list of its bytes; the terminating NUL
  is the end of the list or the first 0 in it. Sizes, offsets and counts are \<open>nat\<close>: every sum of two of them is
  bounded by the size of the data area. Functions that the file declares \<open>static\<close> are only called with pointers
  that are not NULL, so their NULL tests have no branch here.
\<close>

section \<open>Data\<close>

definition MCS_MAX_NAME :: nat where [mcs_consts]: "MCS_MAX_NAME = 32"
definition MCS_MAX_PATH :: nat where [mcs_consts]: "MCS_MAX_PATH = 128"
definition MCS_MAX_NODES :: nat where [mcs_consts]: "MCS_MAX_NODES = 64"
definition MCS_RAMFS_DATA_BYTES :: nat where [mcs_consts]: "MCS_RAMFS_DATA_BYTES = 8192"

definition MCS_OK :: int where [mcs_consts]: "MCS_OK = 0"
definition MCS_ENOENT :: int where [mcs_consts]: "MCS_ENOENT = -2"
definition MCS_EBADF :: int where [mcs_consts]: "MCS_EBADF = -9"
definition MCS_EACCES :: int where [mcs_consts]: "MCS_EACCES = -13"
definition MCS_ENOTDIR :: int where [mcs_consts]: "MCS_ENOTDIR = -20"
definition MCS_EISDIR :: int where [mcs_consts]: "MCS_EISDIR = -21"
definition MCS_EINVAL :: int where [mcs_consts]: "MCS_EINVAL = -22"
definition MCS_ENFILE :: int where [mcs_consts]: "MCS_ENFILE = -23"
definition MCS_ENOSPC :: int where [mcs_consts]: "MCS_ENOSPC = -28"
definition MCS_ENAMETOOLONG :: int where [mcs_consts]: "MCS_ENAMETOOLONG = -36"

datatype mcs_vnode_type = MCS_VNODE_DIR | MCS_VNODE_FILE

record mcs_vnode =
  v_used :: u32
  v_id :: u32
  v_parent :: u32
  v_type :: mcs_vnode_type
  v_name :: bytes
  v_size :: nat
  v_data_offset :: nat
  v_data_capacity :: nat

record mcs_ramfs =
  nodes :: "mcs_vnode list"
  node_count :: nat
  data_area :: bytes
  data_used :: nat

section \<open>Operations\<close>

text \<open>The bytes of a C string. Functions with an out-pointer return \<open>Inr\<close> of what they store through it on
  \<open>MCS_OK\<close>, and \<open>Inl\<close> of the status otherwise.\<close>

definition cstr :: "bytes \<Rightarrow> bytes" where
  "cstr s = takeWhile (\<lambda>c. c \<noteq> 0) s"

definition mcs_strlen :: "bytes \<Rightarrow> nat" where
  "mcs_strlen s = length (cstr s)"

definition mcs_streq_n :: "bytes \<Rightarrow> bytes \<Rightarrow> nat \<Rightarrow> bool" where
  "mcs_streq_n a b n = (first_index (\<lambda>i. a ! i \<noteq> b ! i) 0 n = None \<and> b ! n = 0)"

definition mcs_copy_bytes :: "bytes \<Rightarrow> nat \<Rightarrow> bytes \<Rightarrow> nat \<Rightarrow> bytes" where
  "mcs_copy_bytes dst doff src n = copy_loop doff dst 0 src n"

definition mcs_copy_name :: "bytes \<Rightarrow> bytes \<Rightarrow> nat \<Rightarrow> bytes" where
  "mcs_copy_name dst src n = copy_loop 0 (fill_loop 0 dst 0 MCS_MAX_NAME) 0 src (min n (MCS_MAX_NAME - 1))"

definition mcs_find_child :: "mcs_ramfs \<Rightarrow> u32 \<Rightarrow> bytes \<Rightarrow> nat \<Rightarrow> int + nat" where
  "mcs_find_child fs parent name name_len =
     (if name_len = 0 \<or> MCS_MAX_NAME \<le> name_len then Inl MCS_EINVAL
      else
        (case first_index (\<lambda>i. v_used (nodes fs ! i) \<noteq> 0 \<and> v_parent (nodes fs ! i) = parent \<and>
                mcs_streq_n name (v_name (nodes fs ! i)) name_len) 0 (node_count fs) of
           Some i \<Rightarrow> Inr i
         | None \<Rightarrow> Inl MCS_ENOENT))"

text \<open>The loop of \<open>mcs_split_parent_leaf\<close>: the current directory and the path from \<open>seg\<close> on. The result
  holds the parent, the path from the leaf on and the length of the leaf.\<close>

function split_walk :: "mcs_ramfs \<Rightarrow> nat \<Rightarrow> bytes \<Rightarrow> int + (nat \<times> bytes \<times> nat)" where
  "split_walk fs cur seg =
     (let seg_len = length (takeWhile (\<lambda>c. c \<noteq> 47) seg); nxt = drop seg_len seg in
      if seg_len = 0 \<or> MCS_MAX_NAME \<le> seg_len then Inl MCS_EINVAL
      else if nxt = [] then Inr (cur, seg, seg_len)
      else
        (case mcs_find_child fs (v_id (nodes fs ! cur)) seg seg_len of
           Inl rc \<Rightarrow> Inl rc
         | Inr child \<Rightarrow>
             if v_type (nodes fs ! child) \<noteq> MCS_VNODE_DIR then Inl MCS_ENOTDIR
             else split_walk fs child (drop 1 nxt)))"
  by pat_completeness auto
termination
  by (relation "measure (\<lambda>(fs, cur, seg). length seg)") (auto simp: Let_def)

definition mcs_split_parent_leaf :: "mcs_ramfs \<Rightarrow> bytes \<Rightarrow> int + (nat \<times> bytes \<times> nat)" where
  "mcs_split_parent_leaf fs path =
     (let p = cstr path in
      if p = [] \<or> p ! 0 \<noteq> 47 then Inl MCS_EINVAL
      else if drop 1 p = [] then Inl MCS_EINVAL
      else if MCS_MAX_PATH \<le> mcs_strlen path then Inl MCS_ENAMETOOLONG
      else split_walk fs 0 (drop 1 p))"

definition mcs_alloc_node ::
  "mcs_ramfs \<Rightarrow> u32 \<Rightarrow> mcs_vnode_type \<Rightarrow> bytes \<Rightarrow> nat \<Rightarrow> nat \<Rightarrow> (int + nat) \<times> mcs_ramfs" where
  "mcs_alloc_node fs parent ty name name_len cap =
     (if name_len = 0 \<or> MCS_MAX_NAME \<le> name_len then (Inl MCS_EINVAL, fs)
      else if MCS_MAX_NODES \<le> node_count fs then (Inl MCS_ENOSPC, fs)
      else if ty = MCS_VNODE_FILE \<and> MCS_RAMFS_DATA_BYTES < data_used fs + cap then (Inl MCS_ENOSPC, fs)
      else
        let i = node_count fs;
            node = (nodes fs ! i)\<lparr>v_used := 1, v_id := of_nat i, v_parent := parent, v_type := ty,
              v_name := mcs_copy_name (v_name (nodes fs ! i)) name name_len, v_size := 0,
              v_data_offset := (if ty = MCS_VNODE_FILE then data_used fs else 0),
              v_data_capacity := (if ty = MCS_VNODE_FILE then cap else 0)\<rparr>
        in (Inr i, fs\<lparr>nodes := (nodes fs)[i := node], node_count := node_count fs + 1,
                      data_used := (if ty = MCS_VNODE_FILE then data_used fs + cap else data_used fs)\<rparr>))"

definition cleared_node :: "mcs_vnode \<Rightarrow> mcs_vnode" where
  "cleared_node nd = nd\<lparr>v_used := 0, v_id := 0, v_parent := 0, v_type := MCS_VNODE_FILE, v_name := (v_name nd)[0 := 0],
     v_size := 0, v_data_offset := 0, v_data_capacity := 0\<rparr>"

definition root_node :: "mcs_vnode \<Rightarrow> mcs_vnode" where
  "root_node nd = nd\<lparr>v_used := 1, v_id := 0, v_parent := 0, v_type := MCS_VNODE_DIR,
     v_name := (v_name nd)[0 := 47, 1 := 0]\<rparr>"

definition mcs_ramfs_init :: "mcs_ramfs option \<Rightarrow> mcs_ramfs option" where
  "mcs_ramfs_init fs =
     map_option (\<lambda>r. let ns = map cleared_node (nodes r) in
       r\<lparr>nodes := ns[0 := root_node (ns ! 0)], data_area := fill_loop 0 (data_area r) 0 MCS_RAMFS_DATA_BYTES,
         node_count := 1, data_used := 0\<rparr>) fs"

function lookup_walk :: "mcs_ramfs \<Rightarrow> nat \<Rightarrow> bytes \<Rightarrow> int + nat" where
  "lookup_walk fs cur seg =
     (if seg = [] then Inl MCS_EINVAL
      else
        let seg_len = length (takeWhile (\<lambda>c. c \<noteq> 47) seg); nxt = drop seg_len seg in
        if seg_len = 0 \<or> MCS_MAX_NAME \<le> seg_len then Inl MCS_EINVAL
        else
          (case mcs_find_child fs (v_id (nodes fs ! cur)) seg seg_len of
             Inl rc \<Rightarrow> Inl rc
           | Inr child \<Rightarrow>
               if nxt = [] then Inr child
               else if v_type (nodes fs ! child) \<noteq> MCS_VNODE_DIR then Inl MCS_ENOTDIR
               else lookup_walk fs child (drop 1 nxt)))"
  by pat_completeness auto
termination
  by (relation "measure (\<lambda>(fs, cur, seg). length seg)") (auto simp: Let_def)

definition mcs_ramfs_lookup :: "mcs_ramfs option \<Rightarrow> bytes option \<Rightarrow> int + nat" where
  "mcs_ramfs_lookup fs path =
     (if fs = None \<or> path = None then Inl MCS_EINVAL
      else
        let p = cstr (the path) in
        if p = [] \<or> p ! 0 \<noteq> 47 then Inl MCS_EINVAL
        else if MCS_MAX_PATH \<le> mcs_strlen (the path) then Inl MCS_ENAMETOOLONG
        else if drop 1 p = [] then Inr 0
        else lookup_walk (the fs) 0 (drop 1 p))"

definition mcs_ramfs_create_file :: "mcs_ramfs option \<Rightarrow> bytes option \<Rightarrow> (int + nat) \<times> mcs_ramfs option" where
  "mcs_ramfs_create_file fs path =
     (if fs = None \<or> path = None then (Inl MCS_EINVAL, fs)
      else
        (case mcs_ramfs_lookup fs path of
           Inr existing \<Rightarrow>
             if v_type (nodes (the fs) ! existing) \<noteq> MCS_VNODE_FILE then (Inl MCS_EISDIR, fs)
             else (Inr existing, fs)
         | Inl _ \<Rightarrow>
             (case mcs_split_parent_leaf (the fs) (the path) of
                Inl rc \<Rightarrow> (Inl rc, fs)
              | Inr (parent, leaf, leaf_len) \<Rightarrow>
                  if v_type (nodes (the fs) ! parent) \<noteq> MCS_VNODE_DIR then (Inl MCS_ENOTDIR, fs)
                  else
                    (case mcs_alloc_node (the fs) (v_id (nodes (the fs) ! parent)) MCS_VNODE_FILE leaf leaf_len 256 of
                       (r, fs') \<Rightarrow> (r, Some fs')))))"

definition mcs_ramfs_seed_file ::
  "mcs_ramfs option \<Rightarrow> bytes option \<Rightarrow> bytes option \<Rightarrow> nat \<Rightarrow> int \<times> mcs_ramfs option" where
  "mcs_ramfs_seed_file fs path dat len =
     (if fs = None \<or> path = None \<or> dat = None \<and> len \<noteq> 0 then (MCS_EINVAL, fs)
      else
        (case mcs_ramfs_create_file fs path of
           (Inl rc, fs) \<Rightarrow> (rc, fs)
         | (Inr i, fs) \<Rightarrow>
             let r = the fs; node = nodes r ! i in
             if v_data_capacity node < len then (MCS_ENOSPC, fs)
             else
               (MCS_OK,
                Some (r\<lparr>data_area := (case dat of None \<Rightarrow> data_area r
                                     | Some d \<Rightarrow> mcs_copy_bytes (data_area r) (v_data_offset node) d len),
                        nodes := (nodes r)[i := node\<lparr>v_size := len\<rparr>]\<rparr>))))"

declare split_walk.simps [simp del] lookup_walk.simps [simp del]

section \<open>Specification\<close>

text \<open>A name that a file can have, and how it is stored.\<close>

definition name_valid :: "bytes \<Rightarrow> bool" where
  "name_valid nm \<longleftrightarrow> nm \<noteq> [] \<and> length nm < MCS_MAX_NAME \<and> 0 \<notin> set nm \<and> 47 \<notin> set nm"

definition stored_name :: "bytes \<Rightarrow> bytes" where
  "stored_name nm = nm @ replicate (MCS_MAX_NAME - length nm) 0"

text \<open>The invariant: the root directory is node 0, every other node in use is a file of the root directory with a
  valid name of its own, file \<open>i\<close> owns the \<open>i\<close>-th region of 256 bytes, and the area after the regions is zero.\<close>

definition file_node_ok :: "nat \<Rightarrow> mcs_vnode \<Rightarrow> bool" where
  "file_node_ok i nd \<longleftrightarrow>
     v_used nd \<noteq> 0 \<and> v_id nd = of_nat i \<and> v_parent nd = 0 \<and> v_type nd = MCS_VNODE_FILE \<and>
     (\<exists>nm. name_valid nm \<and> v_name nd = stored_name nm) \<and>
     v_data_offset nd = 256 * (i - 1) \<and> v_data_capacity nd = 256 \<and> v_size nd \<le> 256"

definition root_ok :: "mcs_vnode \<Rightarrow> bool" where
  "root_ok nd \<longleftrightarrow> v_used nd \<noteq> 0 \<and> v_id nd = 0 \<and> v_parent nd = 0 \<and> v_type nd = MCS_VNODE_DIR \<and> v_name nd ! 0 = 47 \<and>
     v_size nd = 0"

definition ramfs_ok :: "mcs_ramfs \<Rightarrow> bool" where
  "ramfs_ok r \<longleftrightarrow>
     length (nodes r) = MCS_MAX_NODES \<and> (\<forall>i < MCS_MAX_NODES. length (v_name (nodes r ! i)) = MCS_MAX_NAME) \<and>
     1 \<le> node_count r \<and> node_count r \<le> 33 \<and> root_ok (nodes r ! 0) \<and>
     (\<forall>i. 1 \<le> i \<longrightarrow> i < node_count r \<longrightarrow> file_node_ok i (nodes r ! i)) \<and>
     inj_on (\<lambda>i. v_name (nodes r ! i)) {1..<node_count r} \<and>
     length (data_area r) = MCS_RAMFS_DATA_BYTES \<and> data_used r = 256 * (node_count r - 1) \<and>
     (\<forall>k. data_used r \<le> k \<longrightarrow> k < MCS_RAMFS_DATA_BYTES \<longrightarrow> data_area r ! k = 0)"

text \<open>The abstract view: a map from names to the 256 bytes of the file's region and the length of the file.\<close>

definition node_of :: "mcs_ramfs \<Rightarrow> bytes \<Rightarrow> nat option" where
  "node_of r nm = first_index (\<lambda>i. v_name (nodes r ! i) = stored_name nm) 1 (node_count r)"

definition region :: "mcs_ramfs \<Rightarrow> nat \<Rightarrow> bytes" where
  "region r i = slice (v_data_offset (nodes r ! i)) 256 (data_area r)"

definition file_at :: "mcs_ramfs \<Rightarrow> nat \<Rightarrow> bytes \<times> nat" where
  "file_at r i = (region r i, v_size (nodes r ! i))"

definition ramfs_files :: "mcs_ramfs \<Rightarrow> bytes \<Rightarrow> (bytes \<times> nat) option" where
  "ramfs_files r nm = (if name_valid nm then map_option (file_at r) (node_of r nm) else None)"

text \<open>The first component of a path and what follows it.\<close>

definition path_head :: "bytes \<Rightarrow> bytes" where
  "path_head seg = takeWhile (\<lambda>c. c \<noteq> 47) seg"

definition path_rest :: "bytes \<Rightarrow> bytes" where
  "path_rest seg = drop (length (path_head seg)) seg"

text \<open>Lookup and creation on the map: \<open>Inr None\<close> is the root directory.\<close>

definition path_target :: "bytes \<Rightarrow> int + bytes" where
  "path_target path =
     (let p = cstr path in
      if p = [] \<or> p ! 0 \<noteq> 47 then Inl MCS_EINVAL
      else if MCS_MAX_PATH \<le> length p then Inl MCS_ENAMETOOLONG
      else Inr (drop 1 p))"

definition a_lookup :: "(bytes \<Rightarrow> 'f option) \<Rightarrow> bytes \<Rightarrow> int + bytes option" where
  "a_lookup F path =
     (case path_target path of
        Inl e \<Rightarrow> Inl e
      | Inr seg \<Rightarrow>
          if seg = [] then Inr None
          else if path_head seg = [] \<or> MCS_MAX_NAME \<le> length (path_head seg) then Inl MCS_EINVAL
          else if F (path_head seg) = None then Inl MCS_ENOENT
          else if path_rest seg = [] then Inr (Some (path_head seg))
          else Inl MCS_ENOTDIR)"

definition a_create :: "(bytes \<Rightarrow> (bytes \<times> nat) option) \<Rightarrow> bytes \<Rightarrow> (int + bytes) \<times> (bytes \<Rightarrow> (bytes \<times> nat) option)" where
  "a_create F path =
     (case a_lookup F path of
        Inr None \<Rightarrow> (Inl MCS_EISDIR, F)
      | Inr (Some nm) \<Rightarrow> (Inr nm, F)
      | Inl e \<Rightarrow>
          (case path_target path of
             Inl _ \<Rightarrow> (Inl e, F)
           | Inr seg \<Rightarrow>
               if e = MCS_ENOENT \<and> path_rest seg = [] then
                 (if card (dom F) < 32 then (Inr seg, F(seg \<mapsto> (replicate 256 0, 0))) else (Inl MCS_ENOSPC, F))
               else (Inl e, F)))"

section \<open>Lemmas\<close>

lemma stored_name_length [simp]: "length nm < 32 \<Longrightarrow> length (stored_name nm) = 32"
  by (simp add: stored_name_def MCS_MAX_NAME_def)

lemma stored_name_nth:
  "length nm < 32 \<Longrightarrow> i < 32 \<Longrightarrow> stored_name nm ! i = (if i < length nm then nm ! i else 0)"
  by (simp add: stored_name_def MCS_MAX_NAME_def nth_append)

lemma name_validD:
  assumes "name_valid nm"
  shows "nm \<noteq> []" "length nm < 32" "0 \<notin> set nm" "47 \<notin> set nm" "i < length nm \<Longrightarrow> nm ! i \<noteq> 0" "i < length nm \<Longrightarrow> nm ! i \<noteq> 47"
  using assms by (auto simp: name_valid_def MCS_MAX_NAME_def) (metis nth_mem)+

lemma stored_name_inj:
  assumes "name_valid a" "name_valid b"
  shows "stored_name a = stored_name b \<longleftrightarrow> a = b"
proof
  have "takeWhile (\<lambda>c. c \<noteq> 0) (stored_name nm) = nm" if "name_valid nm" for nm
    using name_validD(3) [OF that] unfolding stored_name_def
    by (subst takeWhile_append2) (auto simp: takeWhile_eq_Nil_iff hd_replicate)
  then show "a = b" if "stored_name a = stored_name b" using assms that by metis
qed simp

text \<open>The comparison of a path component with a stored name.\<close>

lemma streq_stored:
  assumes "name_valid nm" "length w < 32" "0 \<notin> set w" "w = take (length w) seg" "length w \<le> length seg"
  shows "mcs_streq_n seg (stored_name nm) (length w) \<longleftrightarrow> w = nm"
proof
  note nm = name_validD [OF assms(1)]
  have seg: "seg ! i = w ! i" if "i < length w" for i using assms(4) that by (metis nth_take)
  have w0: "w ! i \<noteq> 0" if "i < length w" for i using assms(3) that nth_mem by metis
  show "w = nm" if eq: "mcs_streq_n seg (stored_name nm) (length w)"
  proof (rule nth_equalityI)
    have same: "\<And>i. i < length w \<Longrightarrow> w ! i = stored_name nm ! i" and stop: "stored_name nm ! length w = 0"
      using eq seg by (auto simp: mcs_streq_n_def first_index_None_iff)
    have "\<not> length w < length nm" using stop nm(2) nm(5) [of "length w"] by (auto simp: stored_name_nth)
    moreover have "\<not> length nm < length w"
      using same [of "length nm"] w0 [of "length nm"] nm(2) by (auto simp: stored_name_nth)
    ultimately show len: "length w = length nm" by simp
    show "w ! i = nm ! i" if "i < length w" for i
      using same [OF that] that assms(2) nm(2) len by (simp add: stored_name_nth)
  qed
  show "mcs_streq_n seg (stored_name nm) (length w)" if "w = nm"
    using that assms(2) seg by (auto simp: mcs_streq_n_def first_index_None_iff stored_name_nth)
qed

lemma ramfs_okD:
  assumes "ramfs_ok r"
  shows "length (nodes r) = 64" "i < 64 \<Longrightarrow> length (v_name (nodes r ! i)) = 32" "1 \<le> node_count r" "node_count r \<le> 33"
    "root_ok (nodes r ! 0)" "1 \<le> i \<Longrightarrow> i < node_count r \<Longrightarrow> file_node_ok i (nodes r ! i)"
    "inj_on (\<lambda>i. v_name (nodes r ! i)) {1..<node_count r}" "length (data_area r) = 8192"
    "data_used r = 256 * (node_count r - 1)" "data_used r \<le> k \<Longrightarrow> k < 8192 \<Longrightarrow> data_area r ! k = 0"
  using assms by (auto simp: ramfs_ok_def mcs_consts)

lemma file_node_okD:
  assumes "file_node_ok i nd"
  shows "v_used nd \<noteq> 0" "v_id nd = of_nat i" "v_parent nd = 0" "v_type nd = MCS_VNODE_FILE"
    "v_data_offset nd = 256 * (i - 1)" "v_data_capacity nd = 256" "v_size nd \<le> 256"
  using assms by (auto simp: file_node_ok_def)

lemma node_of_SomeD:
  assumes "node_of r nm = Some i"
  shows "1 \<le> i" "i < node_count r" "v_name (nodes r ! i) = stored_name nm"
  using assms by (auto simp: node_of_def dest: first_index_SomeD)

lemma node_of_eq:
  assumes "ramfs_ok r" "1 \<le> i" "i < node_count r" "v_name (nodes r ! i) = stored_name nm"
  shows "node_of r nm = Some i"
proof -
  obtain j where j: "node_of r nm = Some j"
    using first_index_found [of "\<lambda>i. v_name (nodes r ! i) = stored_name nm" i 1 "node_count r"] assms(2-4)
    by (auto simp: node_of_def)
  have "j = i" using inj_onD [OF ramfs_okD(7) [OF assms(1)], of j i] node_of_SomeD [OF j] assms(2-4) by simp
  then show ?thesis using j by simp
qed

lemma find_child_root:
  assumes "ramfs_ok r" "w \<noteq> []" "length w < 32" "0 \<notin> set w" "47 \<notin> set w" "w = take (length w) seg" "length w \<le> length seg"
  shows "mcs_find_child r 0 seg (length w) = (case node_of r w of Some i \<Rightarrow> Inr i | None \<Rightarrow> Inl MCS_ENOENT)"
proof -
  let ?p = "\<lambda>i. v_used (nodes r ! i) \<noteq> 0 \<and> v_parent (nodes r ! i) = 0 \<and> mcs_streq_n seg (v_name (nodes r ! i)) (length w)"
  have wv: "name_valid w" using assms(2-5) by (simp add: name_valid_def MCS_MAX_NAME_def)
  have "seg ! 0 = w ! 0" using assms(2,6) by (metis length_greater_0_conv nth_take)
  then have "seg ! 0 \<noteq> 47" using assms(2,5) by (metis length_greater_0_conv nth_mem)
  then have root: "\<not> ?p 0"
    using ramfs_okD(5) [OF assms(1)] assms(2) by (auto simp: root_ok_def mcs_streq_n_def first_index_None_iff)
  have rest: "?p i \<longleftrightarrow> v_name (nodes r ! i) = stored_name w" if i: "1 \<le> i" "i < node_count r" for i
  proof -
    have f: "file_node_ok i (nodes r ! i)" using ramfs_okD(6) [OF assms(1) i] .
    then obtain nm where nm: "name_valid nm" "v_name (nodes r ! i) = stored_name nm" by (auto simp: file_node_ok_def)
    show ?thesis
      using file_node_okD(1,3) [OF f] streq_stored [OF nm(1) assms(3,4,6,7)] stored_name_inj [OF nm(1) wv]
      unfolding nm(2) by auto
  qed
  have "first_index ?p 0 (node_count r) = first_index ?p 1 (node_count r)"
    using root ramfs_okD(3) [OF assms(1)] by (auto simp: first_index.simps [of ?p 0])
  also have "\<dots> = node_of r w" unfolding node_of_def by (rule first_index_cong) (rule rest)
  finally show ?thesis
    using assms(2,3) by (simp add: mcs_find_child_def MCS_MAX_NAME_def)
qed

lemma path_head_facts:
  assumes "0 \<notin> set seg"
  shows "0 \<notin> set (path_head seg)" "47 \<notin> set (path_head seg)" "path_head seg = take (length (path_head seg)) seg"
    "length (path_head seg) \<le> length seg" "path_rest seg = [] \<Longrightarrow> path_head seg = seg"
    "length (takeWhile (\<lambda>c. c \<noteq> 47) seg) = length (path_head seg)"
proof -
  show "0 \<notin> set (path_head seg)" "47 \<notin> set (path_head seg)"
    using assms by (auto simp: path_head_def dest: set_takeWhileD)
  show t: "path_head seg = take (length (path_head seg)) seg"
    unfolding path_head_def by (rule takeWhile_eq_take)
  show "length (path_head seg) \<le> length seg" by (simp add: path_head_def length_takeWhile_le)
  show "path_head seg = seg" if "path_rest seg = []"
    using that by (metis t path_rest_def drop_eq_Nil take_all)
  show "length (takeWhile (\<lambda>c. c \<noteq> 47) seg) = length (path_head seg)" by (simp add: path_head_def)
qed

lemma path_head_valid:
  "0 \<notin> set seg \<Longrightarrow> path_head seg \<noteq> [] \<Longrightarrow> \<not> MCS_MAX_NAME \<le> length (path_head seg) \<Longrightarrow> name_valid (path_head seg)"
  using path_head_facts(1,2) by (simp add: name_valid_def)

lemma ramfs_files_None: "name_valid nm \<Longrightarrow> ramfs_files r nm = None \<longleftrightarrow> node_of r nm = None"
  by (simp add: ramfs_files_def)

lemma path_target_nonzero: "path_target path = Inr seg \<Longrightarrow> 0 \<notin> set seg"
  using in_set_dropD [of 0 1 "cstr path"]
  by (auto simp: path_target_def Let_def cstr_def dest: set_takeWhileD split: if_splits)

lemma lookup_walk_root:
  assumes "ramfs_ok r" "0 \<notin> set seg" "seg \<noteq> []"
  defines "w \<equiv> path_head seg"
  shows "lookup_walk r 0 seg =
    (if w = [] \<or> MCS_MAX_NAME \<le> length w then Inl MCS_EINVAL
     else case node_of r w of None \<Rightarrow> Inl MCS_ENOENT | Some i \<Rightarrow> if path_rest seg = [] then Inr i else Inl MCS_ENOTDIR)"
proof (cases "w = [] \<or> MCS_MAX_NAME \<le> length w")
  case True
  then show ?thesis using assms(3) path_head_facts(6) [OF assms(2)]
    by (auto simp: w_def lookup_walk.simps [of r 0 seg] Let_def)
next
  case False
  note h = path_head_facts [OF assms(2)]
  have id0: "v_id (nodes r ! 0) = 0" using ramfs_okD(5) [OF assms(1)] by (simp add: root_ok_def)
  have fc: "mcs_find_child r 0 seg (length w) = (case node_of r w of Some i \<Rightarrow> Inr i | None \<Rightarrow> Inl MCS_ENOENT)"
    using False h find_child_root [OF assms(1)] by (simp add: w_def MCS_MAX_NAME_def)
  have ty: "v_type (nodes r ! i) = MCS_VNODE_FILE" if "node_of r w = Some i" for i
    using file_node_okD(4) ramfs_okD(6) [OF assms(1)] node_of_SomeD [OF that] by blast
  show ?thesis
    using False assms(3) ty fc unfolding lookup_walk.simps [of r 0 seg] h(6) id0 w_def [symmetric] Let_def
    by (auto simp: path_rest_def w_def split: option.splits)
qed

lemma split_walk_root:
  assumes "ramfs_ok r" "0 \<notin> set seg"
  defines "w \<equiv> path_head seg"
  shows "split_walk r 0 seg =
    (if w = [] \<or> MCS_MAX_NAME \<le> length w then Inl MCS_EINVAL
     else if path_rest seg = [] then Inr (0, seg, length w)
     else case node_of r w of None \<Rightarrow> Inl MCS_ENOENT | Some i \<Rightarrow> Inl MCS_ENOTDIR)"
proof (cases "w = [] \<or> MCS_MAX_NAME \<le> length w")
  case True
  then show ?thesis using path_head_facts(6) [OF assms(2)]
    by (auto simp: w_def split_walk.simps [of r 0 seg] Let_def)
next
  case False
  note h = path_head_facts [OF assms(2)]
  have id0: "v_id (nodes r ! 0) = 0" using ramfs_okD(5) [OF assms(1)] by (simp add: root_ok_def)
  have fc: "mcs_find_child r 0 seg (length w) = (case node_of r w of Some i \<Rightarrow> Inr i | None \<Rightarrow> Inl MCS_ENOENT)"
    using False h find_child_root [OF assms(1)] by (simp add: w_def MCS_MAX_NAME_def)
  have ty: "v_type (nodes r ! i) = MCS_VNODE_FILE" if "node_of r w = Some i" for i
    using file_node_okD(4) ramfs_okD(6) [OF assms(1)] node_of_SomeD [OF that] by blast
  show ?thesis
    using False ty fc unfolding split_walk.simps [of r 0 seg] h(6) id0 w_def [symmetric] Let_def
    by (auto simp: path_rest_def w_def split: option.splits)
qed

text \<open>Lookup on the node table is lookup on the map.\<close>

lemma lookup_refines:
  assumes "ramfs_ok r"
  shows "mcs_ramfs_lookup (Some r) (Some path) =
    (case a_lookup (ramfs_files r) path of
       Inl e \<Rightarrow> Inl e | Inr None \<Rightarrow> Inr 0 | Inr (Some nm) \<Rightarrow> Inr (the (node_of r nm)))"
proof (cases "path_target path")
  case (Inl e)
  then show ?thesis
    by (auto simp: mcs_ramfs_lookup_def a_lookup_def path_target_def mcs_strlen_def Let_def split: if_splits)
next
  case (Inr seg)
  have nz: "0 \<notin> set seg" using path_target_nonzero [OF Inr] .
  have "mcs_ramfs_lookup (Some r) (Some path) = (if seg = [] then Inr 0 else lookup_walk r 0 seg)"
    using Inr by (auto simp: mcs_ramfs_lookup_def path_target_def mcs_strlen_def Let_def split: if_splits)
  then show ?thesis
    using lookup_walk_root [OF assms nz] ramfs_files_None [OF path_head_valid [OF nz], of r]
    by (auto simp: a_lookup_def Inr split: option.splits)
qed

lemma a_lookup_found:
  assumes "ramfs_ok r" "a_lookup (ramfs_files r) path = Inr (Some nm)"
  shows "name_valid nm" "\<exists>i. node_of r nm = Some i"
proof -
  obtain seg where seg: "path_target path = Inr seg" "nm = path_head seg" "ramfs_files r nm \<noteq> None"
    using assms(2) by (auto simp: a_lookup_def split: sum.splits if_splits)
  then show "name_valid nm" by (auto simp: ramfs_files_def split: if_splits)
  then show "\<exists>i. node_of r nm = Some i" using seg(3) ramfs_files_None [of nm r] by auto
qed

lemma copy_name_stored:
  assumes "length dst = 32" "length nm < 32"
  shows "mcs_copy_name dst nm (length nm) = stored_name nm"
  using assms by (intro nth_equalityI)
    (auto simp: mcs_copy_name_def MCS_MAX_NAME_def nth_copy_loop nth_fill_loop stored_name_nth)

lemma card_ramfs_files:
  assumes "ramfs_ok r"
  shows "card (dom (ramfs_files r)) = node_count r - 1"
proof -
  let ?n = "{1..<node_count r}"
  define g where "g = (\<lambda>i. SOME nm. name_valid nm \<and> v_name (nodes r ! i) = stored_name nm)"
  have g: "name_valid (g i) \<and> v_name (nodes r ! i) = stored_name (g i)" if "i \<in> ?n" for i
  proof -
    have "\<exists>nm. name_valid nm \<and> v_name (nodes r ! i) = stored_name nm"
      using ramfs_okD(6) [OF assms, of i] that by (auto simp: file_node_ok_def)
    then show ?thesis unfolding g_def by (rule someI_ex)
  qed
  have "inj_on g ?n"
    using ramfs_okD(7) [OF assms] g by (intro inj_onI) (metis inj_onD)
  moreover have "dom (ramfs_files r) = g ` ?n"
  proof (intro set_eqI iffI)
    fix nm assume "nm \<in> dom (ramfs_files r)"
    then obtain i where nm: "name_valid nm" and i: "node_of r nm = Some i"
      by (auto simp: ramfs_files_def split: if_splits)
    then have n: "i \<in> ?n" "stored_name (g i) = stored_name nm" using node_of_SomeD [OF i] g [of i] by auto
    then have "g i = nm" using stored_name_inj [of "g i" nm] g [OF n(1)] nm by simp
    then show "nm \<in> g ` ?n" using n(1) by blast
  next
    fix nm assume "nm \<in> g ` ?n"
    then obtain i where i: "i \<in> ?n" "nm = g i" by auto
    then have "node_of r nm = Some i" using node_of_eq [OF assms, of i nm] g [of i] by auto
    then show "nm \<in> dom (ramfs_files r)" using g [OF i(1)] i(2) by (auto simp: ramfs_files_def)
  qed
  ultimately show ?thesis by (simp add: card_image)
qed

text \<open>The node that creation adds.\<close>

definition new_file :: "mcs_ramfs \<Rightarrow> bytes \<Rightarrow> mcs_ramfs" where
  "new_file r nm = r\<lparr>nodes := (nodes r)[node_count r :=
       (nodes r ! node_count r)\<lparr>v_used := 1, v_id := of_nat (node_count r), v_parent := 0, v_type := MCS_VNODE_FILE,
         v_name := stored_name nm, v_size := 0, v_data_offset := data_used r, v_data_capacity := 256\<rparr>],
     node_count := node_count r + 1, data_used := data_used r + 256\<rparr>"

lemma alloc_node_file:
  assumes "ramfs_ok r" "name_valid nm"
  shows "mcs_alloc_node r 0 MCS_VNODE_FILE nm (length nm) 256 =
    (if node_count r = 33 then (Inl MCS_ENOSPC, r) else (Inr (node_count r), new_file r nm))"
proof -
  note ok = ramfs_okD [OF assms(1)]
  have "mcs_copy_name (v_name (nodes r ! node_count r)) nm (length nm) = stored_name nm"
    using ok(2) [of "node_count r"] ok(4) name_validD(2) [OF assms(2)] by (intro copy_name_stored) auto
  then show ?thesis
    using name_validD(1,2) [OF assms(2)] ok(3,4,9)
    by (auto simp: mcs_alloc_node_def new_file_def mcs_consts Let_def)
qed

lemma nodes_new_file:
  assumes "ramfs_ok r" "node_count r < 33"
  shows "i \<noteq> node_count r \<Longrightarrow> nodes (new_file r nm) ! i = nodes r ! i"
    "nodes (new_file r nm) ! node_count r =
       (nodes r ! node_count r)\<lparr>v_used := 1, v_id := of_nat (node_count r), v_parent := 0, v_type := MCS_VNODE_FILE,
         v_name := stored_name nm, v_size := 0, v_data_offset := data_used r, v_data_capacity := 256\<rparr>"
  using ramfs_okD(1) [OF assms(1)] assms(2) by (simp_all add: new_file_def)

lemma new_file_ok:
  assumes ok: "ramfs_ok r" and nm: "name_valid nm" and new: "node_of r nm = None" and room: "node_count r < 33"
  shows "ramfs_ok (new_file r nm)"
proof -
  note d = ramfs_okD [OF ok] and n = nodes_new_file [OF ok room, where nm = nm]
  have others: "v_name (nodes r ! i) \<noteq> stored_name nm" if "1 \<le> i" "i < node_count r" for i
    using first_index_NoneD [OF new [unfolded node_of_def], of i] that by simp
  have name: "v_name (nodes (new_file r nm) ! i) = (if i = node_count r then stored_name nm else v_name (nodes r ! i))" for i
    using n by simp
  have "inj_on (\<lambda>i. v_name (nodes (new_file r nm) ! i)) {1..<node_count r + 1}"
    unfolding name using inj_onD [OF d(7)] others d(3) by (intro inj_onI) (auto simp: less_Suc_eq split: if_splits; metis)
  moreover have "length (v_name (nodes (new_file r nm) ! i)) = 32" if "i < 64" for i
    using name [of i] d(2) [OF that] name_validD(2) [OF nm] by simp
  moreover have "file_node_ok i (nodes (new_file r nm) ! i)" if "1 \<le> i" "i < node_count r + 1" for i
    using d(6) [of i] that n(1) [of i] n(2) d(9) nm by (cases "i = node_count r") (auto simp: file_node_ok_def)
  moreover have "nodes (new_file r nm) ! 0 = nodes r ! 0" using n(1) [of 0] d(3) by simp
  ultimately show ?thesis
    unfolding ramfs_ok_def using d room by (auto simp: new_file_def mcs_consts)
qed

lemma file_at_new_file:
  assumes ok: "ramfs_ok r" and room: "node_count r < 33"
  shows "i < node_count r \<Longrightarrow> file_at (new_file r nm) i = file_at r i"
    "file_at (new_file r nm) (node_count r) = (replicate 256 0, 0)"
proof -
  have da: "data_area (new_file r nm) = data_area r" by (simp add: new_file_def)
  show "i < node_count r \<Longrightarrow> file_at (new_file r nm) i = file_at r i"
    using nodes_new_file(1) [OF ok room, of i nm] by (simp add: file_at_def region_def da)
  have "slice (data_used r) 256 (data_area r) = replicate 256 0"
    using ramfs_okD(8-10) [OF ok] room by (intro nth_equalityI) (auto simp: add.commute)
  then show "file_at (new_file r nm) (node_count r) = (replicate 256 0, 0)"
    using nodes_new_file(2) [OF ok room, of nm] by (simp add: file_at_def region_def da)
qed

lemma node_of_new_file:
  assumes ok: "ramfs_ok r" and nm: "name_valid nm" and new: "node_of r nm = None" and room: "node_count r < 33"
    and x: "name_valid x"
  shows "node_of (new_file r nm) x = (if x = nm then Some (node_count r) else node_of r x)"
proof -
  note ok' = new_file_ok [OF ok nm new room] and n = nodes_new_file [OF ok room, where nm = nm]
  have cnt: "node_count (new_file r nm) = node_count r + 1" by (simp add: new_file_def)
  show ?thesis
  proof (cases "x = nm")
    case True
    then show ?thesis using node_of_eq [OF ok', of "node_count r" x] n(2) ramfs_okD(3) [OF ok] by (simp add: cnt)
  next
    case False
    then have ne: "stored_name nm \<noteq> stored_name x" using stored_name_inj [OF nm x] by simp
    show ?thesis
    proof (cases "node_of r x")
      case None
      have "\<not> v_name (nodes (new_file r nm) ! i) = stored_name x" if "1 \<le> i" "i < node_count r + 1" for i
        using first_index_NoneD [OF None [unfolded node_of_def], of i] that ne n(1) [of i] n(2)
        by (cases "i = node_count r") auto
      then show ?thesis using False None by (simp add: node_of_def [of "new_file r nm"] first_index_None_iff cnt)
    next
      case (Some i)
      then show ?thesis
        using False node_of_SomeD [OF Some] node_of_eq [OF ok', of i x] n(1) [of i] by (simp add: cnt)
    qed
  qed
qed

lemma ramfs_files_new_file:
  assumes ok: "ramfs_ok r" and nm: "name_valid nm" and new: "node_of r nm = None" and room: "node_count r < 33"
  shows "ramfs_files (new_file r nm) = (ramfs_files r)(nm \<mapsto> (replicate 256 0, 0))"
proof
  fix x
  show "ramfs_files (new_file r nm) x = ((ramfs_files r)(nm \<mapsto> (replicate 256 0, 0))) x"
    using node_of_new_file [OF assms, of x] nm file_at_new_file [OF ok room] node_of_SomeD(2) [of r x]
    by (cases "node_of r x") (auto simp: ramfs_files_def)
qed

text \<open>What a caller may rely on when a file system changes: it stays well formed and every name keeps its node.\<close>

definition extends :: "mcs_ramfs \<Rightarrow> mcs_ramfs \<Rightarrow> bool" where
  "extends r r' \<longleftrightarrow> ramfs_ok r' \<and> (\<forall>nm i. name_valid nm \<longrightarrow> node_of r nm = Some i \<longrightarrow> node_of r' nm = Some i)"

lemma new_file_extends:
  assumes "ramfs_ok r" "name_valid nm" "node_of r nm = None" "node_count r < 33"
  shows "extends r (new_file r nm)"
  using new_file_ok [OF assms] node_of_new_file [OF assms] assms(3) by (auto simp: extends_def)

lemma a_lookup_error:
  assumes "a_lookup F path = Inl e" "path_target path = Inr seg"
  shows "seg \<noteq> []"
    "path_head seg = [] \<or> MCS_MAX_NAME \<le> length (path_head seg) \<Longrightarrow> e = MCS_EINVAL"
    "\<not> (path_head seg = [] \<or> MCS_MAX_NAME \<le> length (path_head seg)) \<Longrightarrow> F (path_head seg) = None \<Longrightarrow> e = MCS_ENOENT"
    "\<not> (path_head seg = [] \<or> MCS_MAX_NAME \<le> length (path_head seg)) \<Longrightarrow> F (path_head seg) \<noteq> None \<Longrightarrow>
      e = MCS_ENOTDIR \<and> path_rest seg \<noteq> []"
  using assms by (auto simp: a_lookup_def split: if_splits)

lemma create_fails:
  assumes ok: "ramfs_ok r" and e: "a_lookup (ramfs_files r) path = Inl e"
    and no: "\<And>seg. path_target path = Inr seg \<Longrightarrow> \<not> (e = MCS_ENOENT \<and> path_rest seg = [])"
  shows "mcs_ramfs_create_file (Some r) (Some path) = (Inl e, Some r)"
proof -
  have lk: "mcs_ramfs_lookup (Some r) (Some path) = Inl e" using lookup_refines [OF ok, of path] e by simp
  have "mcs_split_parent_leaf r path = Inl e"
  proof (cases "path_target path")
    case (Inl e')
    then show ?thesis using e
      by (auto simp: a_lookup_def mcs_split_parent_leaf_def path_target_def mcs_strlen_def Let_def mcs_consts
          split: if_splits) 
  next
    case (Inr seg)
    note l = a_lookup_error [OF e Inr] and nz = path_target_nonzero [OF Inr]
    have "mcs_split_parent_leaf r path = split_walk r 0 seg"
      using Inr l(1) by (auto simp: mcs_split_parent_leaf_def path_target_def mcs_strlen_def Let_def split: if_splits)
    then show ?thesis
      using split_walk_root [OF ok nz] l no [OF Inr] ramfs_files_None [OF path_head_valid [OF nz], of r]
      by (auto split: option.splits)
  qed
  then show ?thesis using lk by (simp add: mcs_ramfs_create_file_def)
qed

lemma create_makes:
  assumes ok: "ramfs_ok r" and e: "a_lookup (ramfs_files r) path = Inl MCS_ENOENT"
    and seg: "path_target path = Inr seg" "path_rest seg = []"
  shows "name_valid seg \<and> node_of r seg = None \<and> mcs_ramfs_create_file (Some r) (Some path) =
    (if node_count r = 33 then (Inl MCS_ENOSPC, Some r) else (Inr (node_count r), Some (new_file r seg)))"
proof -
  note l = a_lookup_error [OF e seg(1)] and nz = path_target_nonzero [OF seg(1)]
  have head: "path_head seg = seg" using path_head_facts(5) [OF nz seg(2)] .
  have val: "\<not> (path_head seg = [] \<or> MCS_MAX_NAME \<le> length (path_head seg))"
    using l(2) by (auto simp: mcs_consts)
  then have nv: "name_valid seg" using path_head_valid [OF nz] head by simp
  have "ramfs_files r seg = None" using l(4) [OF val] head by (cases "ramfs_files r seg") (auto simp: mcs_consts)
  then have new: "node_of r seg = None" using ramfs_files_None [OF nv] by simp
  have lk: "mcs_ramfs_lookup (Some r) (Some path) = Inl MCS_ENOENT" using lookup_refines [OF ok, of path] e by simp
  have "mcs_split_parent_leaf r path = split_walk r 0 seg"
    using seg(1) l(1) by (auto simp: mcs_split_parent_leaf_def path_target_def mcs_strlen_def Let_def split: if_splits)
  then have sp: "mcs_split_parent_leaf r path = Inr (0, seg, length seg)"
    using split_walk_root [OF ok nz] val seg(2) head by simp
  have root: "v_id (nodes r ! 0) = 0" "v_type (nodes r ! 0) = MCS_VNODE_DIR"
    using ramfs_okD(5) [OF ok] by (simp_all add: root_ok_def)
  show ?thesis
    using lk sp root alloc_node_file [OF ok nv] nv new by (simp add: mcs_ramfs_create_file_def)
qed

text \<open>Creation on the node table is creation on the map.\<close>

lemma create_new_refines:
  assumes ok: "ramfs_ok r" and new: "a_lookup (ramfs_files r) path = Inl MCS_ENOENT" "path_target path = Inr seg" "path_rest seg = []"
  obtains res r' where "mcs_ramfs_create_file (Some r) (Some path) = (res, Some r')" "extends r r'"
    "ramfs_files r' = snd (a_create (ramfs_files r) path)"
    "res = (case fst (a_create (ramfs_files r) path) of Inl e \<Rightarrow> Inl e | Inr nm \<Rightarrow> Inr (the (node_of r' nm)))"
    "\<And>nm. fst (a_create (ramfs_files r) path) = Inr nm \<Longrightarrow> name_valid nm \<and> node_of r' nm \<noteq> None"
proof -
  let ?F = "ramfs_files r"
  have self: "extends r r" using ok by (simp add: extends_def)
  note m = create_makes [OF ok new]
  have full: "card (dom ?F) < 32 \<longleftrightarrow> node_count r \<noteq> 33"
    using card_ramfs_files [OF ok] ramfs_okD(3,4) [OF ok] by auto
  show thesis
  proof (cases "node_count r = 33")
    case True
    then have c: "mcs_ramfs_create_file (Some r) (Some path) = (Inl MCS_ENOSPC, Some r)" using m by simp
    have a: "a_create ?F path = (Inl MCS_ENOSPC, ?F)" using new full True by (simp add: a_create_def)
    show thesis by (rule that [OF c self]) (simp_all add: a)
  next
    case False
    then have room: "node_count r < 33" using ramfs_okD(4) [OF ok] by simp
    have nv: "name_valid seg" "node_of r seg = None" using m by auto
    have c: "mcs_ramfs_create_file (Some r) (Some path) = (Inr (node_count r), Some (new_file r seg))"
      using m False by simp
    have a: "a_create ?F path = (Inr seg, ?F(seg \<mapsto> (replicate 256 0, 0)))"
      using new full False by (simp add: a_create_def)
    have n: "node_of (new_file r seg) seg = Some (node_count r)" using node_of_new_file [OF ok nv room nv(1)] by simp
    show thesis
      by (rule that [OF c new_file_extends [OF ok nv room]])
        (simp_all add: a n ramfs_files_new_file [OF ok nv room], use a n nv(1) in auto)
  qed
qed

lemma create_refines:
  assumes ok: "ramfs_ok r"
  obtains res r' where "mcs_ramfs_create_file (Some r) (Some path) = (res, Some r')" "extends r r'"
    "ramfs_files r' = snd (a_create (ramfs_files r) path)"
    "res = (case fst (a_create (ramfs_files r) path) of Inl e \<Rightarrow> Inl e | Inr nm \<Rightarrow> Inr (the (node_of r' nm)))"
    "\<And>nm. fst (a_create (ramfs_files r) path) = Inr nm \<Longrightarrow> name_valid nm \<and> node_of r' nm \<noteq> None"
proof -
  let ?F = "ramfs_files r"
  have self: "extends r r" using ok by (simp add: extends_def)
  consider (found) nm where "a_lookup ?F path = Inr (Some nm)" | (root) "a_lookup ?F path = Inr None"
    | (new) seg where "a_lookup ?F path = Inl MCS_ENOENT" "path_target path = Inr seg" "path_rest seg = []"
    | (bad) e where "a_lookup ?F path = Inl e" "\<And>seg. path_target path = Inr seg \<Longrightarrow> \<not> (e = MCS_ENOENT \<and> path_rest seg = [])"
    by (cases "a_lookup ?F path") (metis option.exhaust sum.exhaust)+
  then show thesis
  proof cases
    case found
    note f = a_lookup_found [OF ok found]
    then obtain i where i: "node_of r nm = Some i" by blast
    have "v_type (nodes r ! i) = MCS_VNODE_FILE"
      using file_node_okD(4) ramfs_okD(6) [OF ok] node_of_SomeD [OF i] by blast
    then have c: "mcs_ramfs_create_file (Some r) (Some path) = (Inr i, Some r)"
      using found i lookup_refines [OF ok, of path] by (simp add: mcs_ramfs_create_file_def)
    have a: "a_create ?F path = (Inr nm, ?F)" using found by (simp add: a_create_def)
    show thesis by (rule that [OF c self]) (simp_all add: a i, use a i f(1) in auto)
  next
    case root
    have "v_type (nodes r ! 0) = MCS_VNODE_DIR" using ramfs_okD(5) [OF ok] by (simp add: root_ok_def)
    then have c: "mcs_ramfs_create_file (Some r) (Some path) = (Inl MCS_EISDIR, Some r)"
      using root lookup_refines [OF ok, of path] by (simp add: mcs_ramfs_create_file_def)
    have a: "a_create ?F path = (Inl MCS_EISDIR, ?F)" using root by (simp add: a_create_def)
    show thesis by (rule that [OF c self]) (simp_all add: a)
  next
    case new
    show thesis by (rule create_new_refines [OF ok new]) (rule that)
  next
    case bad
    have a: "a_create ?F path = (Inl e, ?F)"
      using bad by (auto simp: a_create_def split: sum.splits)
    show thesis by (rule that [OF create_fails [OF ok bad] self]) (simp_all add: a)
  qed
qed

section \<open>Writing to a file\<close>

text \<open>The effect of a write on the node table: some bytes of the region of file \<open>i\<close> replaced, and its size set.\<close>

definition put_file :: "mcs_ramfs \<Rightarrow> nat \<Rightarrow> nat \<Rightarrow> bytes \<Rightarrow> nat \<Rightarrow> mcs_ramfs" where
  "put_file r i off bs sz =
     r\<lparr>data_area := patch (v_data_offset (nodes r ! i) + off) bs (data_area r),
       nodes := (nodes r)[i := (nodes r ! i)\<lparr>v_size := sz\<rparr>]\<rparr>"

definition is_file :: "mcs_ramfs \<Rightarrow> nat \<Rightarrow> bool" where
  "is_file r i \<longleftrightarrow> 1 \<le> i \<and> i < node_count r"

lemma region_bounds:
  assumes "ramfs_ok r" "is_file r i"
  shows "v_data_offset (nodes r ! i) = 256 * (i - 1)" "v_data_offset (nodes r ! i) + 256 \<le> data_used r"
    "data_used r \<le> 8192" "length (data_area r) = 8192" "length (region r i) = 256" "i < 64"
proof -
  show o: "v_data_offset (nodes r ! i) = 256 * (i - 1)"
    using file_node_okD(5) ramfs_okD(6) [OF assms(1)] assms(2) by (simp add: is_file_def)
  show u: "v_data_offset (nodes r ! i) + 256 \<le> data_used r" "data_used r \<le> 8192" "i < 64"
    using o assms(2) ramfs_okD(4,9) [OF assms(1)] by (auto simp: is_file_def)
  show l: "length (data_area r) = 8192" by (rule ramfs_okD(8) [OF assms(1)])
  then show "length (region r i) = 256" using u by (simp add: region_def)
qed

lemma is_file_node:
  assumes "ramfs_ok r" "is_file r i"
  shows "v_type (nodes r ! i) = MCS_VNODE_FILE" "v_data_capacity (nodes r ! i) = 256" "v_size (nodes r ! i) \<le> 256"
  using file_node_okD(4,6,7) [OF ramfs_okD(6) [OF assms(1), of i]] assms(2) by (simp_all add: is_file_def)

lemma put_file_nodes:
  assumes "ramfs_ok r" "is_file r i"
  shows "nodes (put_file r i off bs sz) ! j = (if j = i then (nodes r ! i)\<lparr>v_size := sz\<rparr> else nodes r ! j)"
  using region_bounds(6) [OF assms] ramfs_okD(1) [OF assms(1)] by (simp add: put_file_def)

lemma put_file_ok:
  assumes ok: "ramfs_ok r" and i: "is_file r i" and fits: "off + length bs \<le> 256" and sz: "sz \<le> 256"
  shows "ramfs_ok (put_file r i off bs sz)"
proof -
  let ?r = "put_file r i off bs sz"
  note d = ramfs_okD [OF ok] and b = region_bounds [OF ok i] and n = put_file_nodes [OF ok i]
  have "data_area ?r ! k = 0" if "data_used r \<le> k" "k < 8192" for k
    using d(10) [OF that] that b fits by (simp add: put_file_def nth_patch)
  moreover have "file_node_ok j (nodes ?r ! j)" if "1 \<le> j" "j < node_count r" for j
    using d(6) [OF that] sz by (cases "j = i") (simp_all add: n file_node_ok_def)
  moreover have "root_ok (nodes ?r ! 0)" using d(5) i by (simp add: n is_file_def)
  moreover have "v_name (nodes ?r ! j) = v_name (nodes r ! j)" for j by (simp add: n)
  ultimately show ?thesis
    unfolding ramfs_ok_def using d(1-4,7-9) b fits by (simp add: mcs_consts put_file_def)
qed

lemma put_file_node_of:
  assumes "ramfs_ok r" "is_file r i"
  shows "node_of (put_file r i off bs sz) nm = node_of r nm"
proof -
  have "v_name (nodes (put_file r i off bs sz) ! j) = v_name (nodes r ! j)" for j by (simp add: put_file_nodes [OF assms])
  moreover have "node_count (put_file r i off bs sz) = node_count r" by (simp add: put_file_def)
  ultimately show ?thesis by (simp add: node_of_def)
qed

lemma put_file_at:
  assumes ok: "ramfs_ok r" and i: "is_file r i" and fits: "off + length bs \<le> 256" and j: "is_file r j"
  shows "file_at (put_file r i off bs sz) j = (if j = i then (patch off bs (region r i), sz) else file_at r j)"
proof -
  note bi = region_bounds [OF ok i] and bj = region_bounds [OF ok j] and n = put_file_nodes [OF ok i]
  show ?thesis
  proof (cases "j = i")
    case True
    have "slice (v_data_offset (nodes r ! i)) 256 (patch (v_data_offset (nodes r ! i) + off) bs (data_area r)) =
        patch off bs (region r i)"
      using bi fits by (intro nth_equalityI) (auto simp: nth_patch region_def)
    then show ?thesis using True by (simp add: file_at_def region_def n, simp add: put_file_def)
  next
    case False
    then have "v_data_offset (nodes r ! j) + 256 \<le> v_data_offset (nodes r ! i) \<or>
        v_data_offset (nodes r ! i) + 256 \<le> v_data_offset (nodes r ! j)"
      using i j unfolding bi(1) bj(1) is_file_def by auto
    then have "slice (v_data_offset (nodes r ! j)) 256 (patch (v_data_offset (nodes r ! i) + off) bs (data_area r)) =
        region r j"
      unfolding region_def using bi bj fits by (intro slice_patch_other) auto
    then show ?thesis using False by (simp add: file_at_def region_def n, simp add: put_file_def)
  qed
qed

text \<open>The contract of a store of separate regions, and what follows from it for any sequence of writes.\<close>

locale region_store =
  fixes ok :: "'s \<Rightarrow> bool" and live :: "'s \<Rightarrow> nat \<Rightarrow> bool" and view :: "'s \<Rightarrow> nat \<Rightarrow> bytes \<times> nat"
    and put :: "'s \<Rightarrow> nat \<Rightarrow> nat \<Rightarrow> bytes \<Rightarrow> nat \<Rightarrow> 's"
  assumes put_ok: "ok s \<Longrightarrow> live s i \<Longrightarrow> off + length bs \<le> 256 \<Longrightarrow> sz \<le> 256 \<Longrightarrow> ok (put s i off bs sz)"
    and put_live: "ok s \<Longrightarrow> live s i \<Longrightarrow> live (put s i off bs sz) j = live s j"
    and view_put: "ok s \<Longrightarrow> live s i \<Longrightarrow> off + length bs \<le> 256 \<Longrightarrow> live s j \<Longrightarrow>
      view (put s i off bs sz) j = (if j = i then (patch off bs (fst (view s i)), sz) else view s j)"
    and view_length: "ok s \<Longrightarrow> live s i \<Longrightarrow> length (fst (view s i)) = 256"
begin

definition legal :: "'s \<Rightarrow> nat \<times> nat \<times> bytes \<times> nat \<Rightarrow> bool" where
  "legal s w = (case w of (i, off, bs, sz) \<Rightarrow> live s i \<and> off + length bs \<le> 256 \<and> sz \<le> 256)"

fun puts :: "'s \<Rightarrow> (nat \<times> nat \<times> bytes \<times> nat) list \<Rightarrow> 's" where
  "puts s [] = s"
| "puts s ((i, off, bs, sz) # ws) = puts (put s i off bs sz) ws"

lemma legal_put: "ok s \<Longrightarrow> live s i \<Longrightarrow> legal (put s i off bs sz) = legal s"
  by (auto simp: legal_def put_live fun_eq_iff split: prod.splits)

lemma puts_other:
  assumes "ok s" "list_all (legal s) ws" "live s j" "j \<notin> fst ` set ws"
  shows "view (puts s ws) j = view s j"
  using assms
proof (induction s ws rule: puts.induct)
  case (2 s i off bs sz ws)
  then have l: "live s i" "off + length bs \<le> 256" "sz \<le> 256" by (auto simp: legal_def)
  have "view (puts (put s i off bs sz) ws) j = view (put s i off bs sz) j"
    using "2.IH" "2.prems" l by (simp add: put_ok put_live legal_put)
  also have "\<dots> = view s j" using "2.prems" l view_put [of s i off bs j sz] by auto
  finally show ?case by simp
qed simp

lemma read_back:
  assumes "ok s" "live s i" "off + length bs \<le> 256"
  shows "slice off (length bs) (fst (view (put s i off bs sz) i)) = bs"
  using assms view_length [of s i] by (simp add: view_put)

end

interpretation rf: region_store ramfs_ok is_file file_at put_file
proof (unfold_locales, goal_cases)
  case 1
  then show ?case by (rule put_file_ok)
next
  case 2
  then show ?case by (simp add: is_file_def put_file_def)
next
  case 3
  then show ?case using put_file_at by (simp add: file_at_def)
next
  case 4
  then show ?case using region_bounds(5) by (simp add: file_at_def)
qed

lemma node_of_is_file: "node_of r nm = Some i \<Longrightarrow> is_file r i"
  using node_of_SomeD by (simp add: is_file_def)

lemma put_file_files:
  assumes ok: "ramfs_ok r" and nm: "name_valid nm" "node_of r nm = Some i" and fits: "off + length bs \<le> 256"
  shows "ramfs_files (put_file r i off bs sz) = (ramfs_files r)(nm \<mapsto> (patch off bs (region r i), sz))"
proof
  fix x
  note i = node_of_is_file [OF nm(2)]
  have "node_of r x = Some j \<Longrightarrow> name_valid x \<Longrightarrow> j = i \<longleftrightarrow> x = nm" for j
    using nm node_of_SomeD(3) [OF nm(2)] node_of_SomeD(3) [of r x j] stored_name_inj [of x nm] by auto
  then show "ramfs_files (put_file r i off bs sz) x = ((ramfs_files r)(nm \<mapsto> (patch off bs (region r i), sz))) x"
    using nm put_file_at [OF ok i fits node_of_is_file, of x]
    by (cases "node_of r x") (auto simp: ramfs_files_def put_file_node_of [OF ok i])
qed

lemma put_file_extends:
  "ramfs_ok r \<Longrightarrow> is_file r i \<Longrightarrow> off + length bs \<le> 256 \<Longrightarrow> sz \<le> 256 \<Longrightarrow> extends r (put_file r i off bs sz)"
  by (simp add: extends_def put_file_ok put_file_node_of)

section \<open>Initialisation and seeding\<close>

definition ramfs_shape :: "mcs_ramfs \<Rightarrow> bool" where
  "ramfs_shape r \<longleftrightarrow> length (nodes r) = MCS_MAX_NODES \<and> list_all (\<lambda>nd. length (v_name nd) = MCS_MAX_NAME) (nodes r) \<and>
     length (data_area r) = MCS_RAMFS_DATA_BYTES"

lemma ramfs_init_ok:
  assumes "ramfs_shape r"
  obtains r' where "mcs_ramfs_init (Some r) = Some r'" "ramfs_ok r'" "ramfs_files r' = Map.empty"
proof -
  let ?ns = "map cleared_node (nodes r)"
  let ?r = "r\<lparr>nodes := ?ns[0 := root_node (?ns ! 0)], data_area := fill_loop 0 (data_area r) 0 MCS_RAMFS_DATA_BYTES,
    node_count := 1, data_used := 0\<rparr>"
  have len: "length (nodes r) = 64" "length (data_area r) = 8192" "\<And>i. i < 64 \<Longrightarrow> length (v_name (nodes r ! i)) = 32"
    using assms by (auto simp: ramfs_shape_def list_all_length mcs_consts)
  have nd: "nodes ?r ! i = (if i = 0 then root_node (cleared_node (nodes r ! 0)) else cleared_node (nodes r ! i))" if "i < 64" for i
    using that len(1) by simp
  have "length (v_name (nodes ?r ! i)) = 32" if "i < 64" for i
    using that len(3) [OF that] by (cases "i = 0") (auto simp: len(1) root_node_def cleared_node_def)
  moreover have "root_ok (nodes ?r ! 0)"
    using nd [of 0] len(3) [of 0] by (simp add: root_ok_def root_node_def cleared_node_def)
  ultimately have "ramfs_ok ?r"
    using len by (simp add: ramfs_ok_def mcs_consts fill_loop_whole)
  moreover have "ramfs_files ?r = Map.empty"
    by (rule ext) (simp add: ramfs_files_def node_of_def first_index_None_iff)
  ultimately show ?thesis using that [of ?r] by (simp add: mcs_ramfs_init_def Let_def)
qed

lemma seed_as_put:
  assumes "ramfs_ok r" "is_file r i" "len \<le> length d" "len \<le> 256"
  shows "r\<lparr>data_area := mcs_copy_bytes (data_area r) (v_data_offset (nodes r ! i)) d len,
      nodes := (nodes r)[i := (nodes r ! i)\<lparr>v_size := len\<rparr>]\<rparr> = put_file r i 0 (take len d) len"
  using region_bounds [OF assms(1,2)] assms(3,4)
  by (simp add: put_file_def mcs_copy_bytes_def copy_loop_patch slice_def)

lemma seed_refines:
  assumes "ramfs_ok r" "length d = len"
  shows "\<exists>r'. mcs_ramfs_seed_file (Some r) (Some path) (Some d) len =
      (case a_create (ramfs_files r) path of
         (Inl e, F) \<Rightarrow> e
       | (Inr nm, F) \<Rightarrow> if len \<le> 256 then MCS_OK else MCS_ENOSPC, Some r') \<and>
    ramfs_ok r' \<and>
    ramfs_files r' =
      (case a_create (ramfs_files r) path of
         (Inl e, F) \<Rightarrow> F
       | (Inr nm, F) \<Rightarrow> if len \<le> 256 then F(nm \<mapsto> (patch 0 d (fst (the (F nm))), len)) else F)"
proof -
  let ?a = "a_create (ramfs_files r) path"
  obtain res r1 where c: "mcs_ramfs_create_file (Some r) (Some path) = (res, Some r1)" "extends r r1"
    "ramfs_files r1 = snd ?a" "res = (case fst ?a of Inl e \<Rightarrow> Inl e | Inr nm \<Rightarrow> Inr (the (node_of r1 nm)))"
    "\<And>nm. fst ?a = Inr nm \<Longrightarrow> name_valid nm \<and> node_of r1 nm \<noteq> None"
    using create_refines [OF assms(1), of path] by blast
  have ok1: "ramfs_ok r1" using c(2) by (simp add: extends_def)
  show ?thesis
  proof (cases "fst ?a")
    case (Inl e)
    then show ?thesis using c ok1 by (cases ?a) (auto simp: mcs_ramfs_seed_file_def)
  next
    case (Inr nm)
    then obtain i where i: "name_valid nm" "node_of r1 nm = Some i" using c(5) by auto
    note fl = node_of_is_file [OF i(2)]
    have "v_data_capacity (nodes r1 ! i) = 256" by (rule is_file_node(2) [OF ok1 fl])
    moreover have "fst (the (snd ?a nm)) = region r1 i"
      using i by (simp add: c(3) [symmetric] ramfs_files_def file_at_def)
    ultimately show ?thesis
      using c Inr i ok1 seed_as_put [OF ok1 fl, of len d] assms(2) put_file_ok [OF ok1 fl, of 0 d len]
        put_file_files [OF ok1 i, of 0 d len]
      by (cases ?a) (auto simp: mcs_ramfs_seed_file_def Let_def)
  qed
qed

text \<open>seeding a file: on a well-formed file system, a path that creation accepts and at most 256 bytes of data
  give a file whose contents are exactly these bytes, no other file changes, and the path is then found; a path that
  creation refuses and more than 256 bytes give the documented error. The file system stays well formed.\<close>

theorem ramfs_seed_exact:
  assumes "ramfs_ok r" "length d = len"
  shows "\<exists>r'. mcs_ramfs_seed_file (Some r) (Some path) (Some d) len =
      (case a_create (ramfs_files r) path of
         (Inl e, F) \<Rightarrow> e
       | (Inr nm, F) \<Rightarrow> if len \<le> 256 then MCS_OK else MCS_ENOSPC, Some r') \<and>
    ramfs_ok r' \<and>
    ramfs_files r' =
      (case a_create (ramfs_files r) path of
         (Inl e, F) \<Rightarrow> F
       | (Inr nm, F) \<Rightarrow> if len \<le> 256 then F(nm \<mapsto> (patch 0 d (fst (the (F nm))), len)) else F)"
  by (rule seed_refines [OF assms])

text \<open>A concrete file system: the memory of a static variable, all bytes zero, after initialisation.\<close>

definition blank_node :: mcs_vnode where
  "blank_node = \<lparr>v_used = 0, v_id = 0, v_parent = 0, v_type = MCS_VNODE_FILE, v_name = replicate 32 0, v_size = 0,
     v_data_offset = 0, v_data_capacity = 0\<rparr>"

definition blank_ramfs :: mcs_ramfs where
  "blank_ramfs = \<lparr>nodes = replicate 64 blank_node, node_count = 0, data_area = replicate 8192 0, data_used = 0\<rparr>"

lemma blank_ramfs_shape: "ramfs_shape blank_ramfs"
  by (simp add: ramfs_shape_def blank_ramfs_def blank_node_def mcs_consts list_all_length)

lemma path_a: "a_create Map.empty [47, 97] = (Inr [97], [[97] \<mapsto> (replicate 256 0, 0)])"
  by (simp add: a_create_def a_lookup_def path_target_def path_head_def path_rest_def cstr_def mcs_consts)

theorem ramfs_seed_exact_witness:
  "\<exists>r r'. mcs_ramfs_init (Some blank_ramfs) = Some r \<and>
     mcs_ramfs_seed_file (Some r) (Some [47, 97]) (Some [1, 2, 3]) 3 = (MCS_OK, Some r') \<and>
     ramfs_files r' [97] = Some (patch 0 [1, 2, 3] (replicate 256 0), 3)"
proof -
  obtain r where r: "mcs_ramfs_init (Some blank_ramfs) = Some r" "ramfs_ok r" "ramfs_files r = Map.empty"
    using ramfs_init_ok [OF blank_ramfs_shape] .
  show ?thesis
    using ramfs_seed_exact [OF r(2), of "[1, 2, 3]" 3 "[47, 97]"] r(1) by (auto simp: r(3) path_a)
qed

end
