(* ===== verification/Vfs.thy ===== *)
theory Vfs
  imports Ramfs
begin

text \<open>
  \<open>kernel/vfs/fd.c\<close>: the descriptor table of a process and the file calls on it, and \<open>kernel/vfs/sys_vfs.c\<close>.

  The file systems that a \<open>mcs_ramfs_t *\<close> can point to are a map from addresses to \<open>mcs_ramfs\<close>; the calls return
  the map updated. A \<open>size_t\<close> offset is a \<open>nat\<close>; \<open>long\<close> and \<open>int\<close> values are \<open>int\<close> with the conversions of
  \<open>lseek\<close> written out. The addition of a position and an offset in \<open>mcs_vfs_lseek\<close> wraps around; C leaves its overflow
  undefined.
\<close>

section \<open>Data\<close>

definition MCS_MAX_OPEN_FILES :: nat where [mcs_consts]: "MCS_MAX_OPEN_FILES = 16"
definition MCS_O_RDONLY :: u32 where [mcs_consts]: "MCS_O_RDONLY = 0x0001"
definition MCS_O_WRONLY :: u32 where [mcs_consts]: "MCS_O_WRONLY = 0x0002"
definition MCS_O_RDWR :: u32 where [mcs_consts]: "MCS_O_RDWR = 0x0004"
definition MCS_O_CREAT :: u32 where [mcs_consts]: "MCS_O_CREAT = 0x0100"
definition MCS_O_TRUNC :: u32 where [mcs_consts]: "MCS_O_TRUNC = 0x0200"
definition MCS_O_APPEND :: u32 where [mcs_consts]: "MCS_O_APPEND = 0x0400"
definition MCS_SEEK_SET :: int where [mcs_consts]: "MCS_SEEK_SET = 0"
definition MCS_SEEK_CUR :: int where [mcs_consts]: "MCS_SEEK_CUR = 1"
definition MCS_SEEK_END :: int where [mcs_consts]: "MCS_SEEK_END = 2"

record mcs_file =
  f_used :: u32
  f_flags :: u32
  f_offset :: nat
  f_node :: "nat option"
  f_fs :: "nat option"

record mcs_fd_table =
  files :: "mcs_file list"

record mcs_process =
  pid :: u32
  fd_table :: mcs_fd_table

type_synonym rams = "nat \<Rightarrow> mcs_ramfs"

section \<open>Operations\<close>

definition mcs_min_size :: "nat \<Rightarrow> nat \<Rightarrow> nat" where
  "mcs_min_size a b = (if a < b then a else b)"

definition mcs_copy_to_user :: "bytes option \<Rightarrow> bytes \<Rightarrow> nat \<Rightarrow> nat \<Rightarrow> bytes option" where
  "mcs_copy_to_user dst src soff n = map_option (\<lambda>d. copy_loop 0 d soff src n) dst"

definition mcs_copy_from_user :: "bytes \<Rightarrow> nat \<Rightarrow> bytes option \<Rightarrow> nat \<Rightarrow> bytes" where
  "mcs_copy_from_user dst doff src n = (case src of None \<Rightarrow> dst | Some s \<Rightarrow> copy_loop doff dst 0 s n)"

definition mcs_can_read :: "u32 \<Rightarrow> bool" where
  "mcs_can_read flags = (flags AND MCS_O_RDONLY \<noteq> 0 \<or> flags AND MCS_O_RDWR \<noteq> 0)"

definition mcs_can_write :: "u32 \<Rightarrow> bool" where
  "mcs_can_write flags = (flags AND MCS_O_WRONLY \<noteq> 0 \<or> flags AND MCS_O_RDWR \<noteq> 0)"

definition closed_file :: mcs_file where
  "closed_file = \<lparr>f_used = 0, f_flags = 0, f_offset = 0, f_node = None, f_fs = None\<rparr>"

definition mcs_fd_table_init :: "mcs_fd_table option \<Rightarrow> mcs_fd_table option" where
  "mcs_fd_table_init table = map_option (\<lambda>t. t\<lparr>files := replicate MCS_MAX_OPEN_FILES closed_file\<rparr>) table"

text \<open>The descriptor as an index of the table, \<open>None\<close> for NULL.\<close>

definition mcs_fd_get :: "mcs_fd_table option \<Rightarrow> int \<Rightarrow> nat option" where
  "mcs_fd_get table fd =
     (if table = None \<or> fd < 0 \<or> MCS_MAX_OPEN_FILES \<le> nat fd then None
      else if f_used (files (the table) ! nat fd) = 0 then None
      else Some (nat fd))"

definition upd_file :: "mcs_fd_table \<Rightarrow> nat \<Rightarrow> mcs_file \<Rightarrow> mcs_fd_table" where
  "upd_file t i f = t\<lparr>files := (files t)[i := f]\<rparr>"

text \<open>Both callers have checked that the table is not NULL; that branch is left out.\<close>

definition mcs_fd_alloc :: "mcs_fd_table \<Rightarrow> int \<times> mcs_fd_table" where
  "mcs_fd_alloc t =
     (case first_index (\<lambda>i. f_used (files t ! i) = 0) 0 MCS_MAX_OPEN_FILES of
        Some i \<Rightarrow> (int i, upd_file t i ((files t ! i)\<lparr>f_used := 1\<rparr>))
      | None \<Rightarrow> (MCS_ENFILE, t))"

definition mcs_vfs_open ::
  "mcs_fd_table option \<Rightarrow> rams \<Rightarrow> nat option \<Rightarrow> bytes option \<Rightarrow> u32 \<Rightarrow> int \<times> mcs_fd_table option \<times> rams" where
  "mcs_vfs_open table R fs path flags0 =
     (if table = None \<or> fs = None \<or> path = None then (MCS_EINVAL, table, R)
      else
        let a = the fs; r = R a;
            flags = (if flags0 AND (MCS_O_RDONLY OR MCS_O_WRONLY OR MCS_O_RDWR) = 0 then flags0 OR MCS_O_RDONLY
                     else flags0)
        in case (case mcs_ramfs_lookup (Some r) path of
                   Inr node \<Rightarrow> (Inr node, Some r)
                 | Inl rc \<Rightarrow> if flags AND MCS_O_CREAT = 0 then (Inl rc, Some r)
                            else mcs_ramfs_create_file (Some r) path) of
             (Inl rc, r') \<Rightarrow> (rc, table, R(a := the r'))
           | (Inr node, r') \<Rightarrow>
               let r = the r'; nd = nodes r ! node; R = R(a := r) in
               if v_type nd = MCS_VNODE_DIR \<and> mcs_can_write flags then (MCS_EISDIR, table, R)
               else
                 (case mcs_fd_alloc (the table) of
                    (fd, t) \<Rightarrow>
                      if fd < 0 then (fd, Some t, R)
                      else
                        let i = nat fd;
                            f = (files t ! i)\<lparr>f_flags := flags, f_node := Some node, f_fs := Some a,
                                  f_offset := (if flags AND MCS_O_APPEND \<noteq> 0 then v_size nd else 0)\<rparr>
                        in if flags AND MCS_O_TRUNC \<noteq> 0 then
                             if \<not> mcs_can_write flags then
                               (MCS_EACCES, Some (upd_file t i (f\<lparr>f_used := 0, f_node := None, f_fs := None\<rparr>)), R)
                             else
                               (fd, Some (upd_file t i (f\<lparr>f_offset := 0\<rparr>)),
                                R(a := r\<lparr>nodes := (nodes r)[node := nd\<lparr>v_size := 0\<rparr>]\<rparr>))
                           else (fd, Some (upd_file t i f), R)))"

definition mcs_vfs_read ::
  "mcs_fd_table option \<Rightarrow> rams \<Rightarrow> int \<Rightarrow> bytes option \<Rightarrow> nat \<Rightarrow> int \<times> bytes option \<times> mcs_fd_table option" where
  "mcs_vfs_read table R fd buf len =
     (if buf = None \<and> len \<noteq> 0 then (MCS_EINVAL, buf, table)
      else
        (case mcs_fd_get table fd of
           None \<Rightarrow> (MCS_EBADF, buf, table)
         | Some i \<Rightarrow>
             let f = files (the table) ! i in
             if \<not> mcs_can_read (f_flags f) then (MCS_EACCES, buf, table)
             else
               (case (f_node f, f_fs f) of
                  (Some n, Some a) \<Rightarrow>
                    let nd = nodes (R a) ! n in
                    if v_type nd = MCS_VNODE_DIR then (MCS_EISDIR, buf, table)
                    else if v_size nd \<le> f_offset f then (0, buf, table)
                    else
                      let remain = v_size nd - f_offset f; k = mcs_min_size len remain in
                      (int k, mcs_copy_to_user buf (data_area (R a)) (v_data_offset nd + f_offset f) k,
                       Some (upd_file (the table) i (f\<lparr>f_offset := f_offset f + k\<rparr>)))
                | _ \<Rightarrow> (MCS_EINVAL, buf, table))))"

definition mcs_vfs_write ::
  "mcs_fd_table option \<Rightarrow> rams \<Rightarrow> int \<Rightarrow> bytes option \<Rightarrow> nat \<Rightarrow> int \<times> mcs_fd_table option \<times> rams" where
  "mcs_vfs_write table R fd buf len =
     (if buf = None \<and> len \<noteq> 0 then (MCS_EINVAL, table, R)
      else
        (case mcs_fd_get table fd of
           None \<Rightarrow> (MCS_EBADF, table, R)
         | Some i \<Rightarrow>
             let f = files (the table) ! i in
             if \<not> mcs_can_write (f_flags f) then (MCS_EACCES, table, R)
             else
               (case (f_node f, f_fs f) of
                  (Some n, Some a) \<Rightarrow>
                    let r = R a; nd = nodes r ! n in
                    if v_type nd = MCS_VNODE_DIR then (MCS_EISDIR, table, R)
                    else
                      let f = (if f_flags f AND MCS_O_APPEND \<noteq> 0 then f\<lparr>f_offset := v_size nd\<rparr> else f);
                          table = Some (upd_file (the table) i f)
                      in if v_data_capacity nd < f_offset f then (MCS_EINVAL, table, R)
                         else
                           let k = mcs_min_size len (v_data_capacity nd - f_offset f) in
                           if k < len then (MCS_ENOSPC, table, R)
                           else
                             let off = f_offset f + k in
                             (int k, Some (upd_file (the table) i (f\<lparr>f_offset := off\<rparr>)),
                              R(a := r\<lparr>data_area :=
                                         mcs_copy_from_user (data_area r) (v_data_offset nd + f_offset f) buf k,
                                       nodes := (nodes r)[n :=
                                         nd\<lparr>v_size := (if v_size nd < off then off else v_size nd)\<rparr>]\<rparr>))
                | _ \<Rightarrow> (MCS_EINVAL, table, R))))"

text \<open>Conversion to \<open>long\<close> and to \<open>int\<close>.\<close>

definition to_long :: "int \<Rightarrow> int" where
  "to_long x = (x + 2 ^ 63) mod 2 ^ 64 - 2 ^ 63"

definition to_int :: "int \<Rightarrow> int" where
  "to_int x = (x + 2 ^ 31) mod 2 ^ 32 - 2 ^ 31"

definition mcs_vfs_lseek ::
  "mcs_fd_table option \<Rightarrow> rams \<Rightarrow> int \<Rightarrow> int \<Rightarrow> int \<Rightarrow> int \<times> mcs_fd_table option" where
  "mcs_vfs_lseek table R fd offset whence =
     (case mcs_fd_get table fd of
        None \<Rightarrow> (MCS_EBADF, table)
      | Some i \<Rightarrow>
          let f = files (the table) ! i; nd = nodes (R (the (f_fs f))) ! the (f_node f) in
          if f_node f = None \<or> v_type nd = MCS_VNODE_DIR then (MCS_EISDIR, table)
          else if whence \<notin> {MCS_SEEK_SET, MCS_SEEK_CUR, MCS_SEEK_END} then (MCS_EINVAL, table)
          else
            let bs = (if whence = MCS_SEEK_SET then 0
                      else if whence = MCS_SEEK_CUR then to_long (int (f_offset f))
                      else to_long (int (v_size nd)));
                nxt = to_long (bs + offset)
            in if nxt < 0 then (MCS_EINVAL, table)
               else (to_int nxt, Some (upd_file (the table) i (f\<lparr>f_offset := nat nxt\<rparr>))))"

definition mcs_vfs_close :: "mcs_fd_table option \<Rightarrow> int \<Rightarrow> int \<times> mcs_fd_table option" where
  "mcs_vfs_close table fd =
     (case mcs_fd_get table fd of
        None \<Rightarrow> (MCS_EBADF, table)
      | Some i \<Rightarrow>
          (MCS_OK,
           Some (upd_file (the table) i ((files (the table) ! i)\<lparr>f_used := 0, f_flags := 0, f_offset := 0,
             f_node := None, f_fs := None\<rparr>))))"

definition mcs_vfs_dup :: "mcs_fd_table option \<Rightarrow> int \<Rightarrow> int \<times> mcs_fd_table option" where
  "mcs_vfs_dup table fd =
     (case mcs_fd_get table fd of
        None \<Rightarrow> (MCS_EBADF, table)
      | Some i \<Rightarrow>
          (case mcs_fd_alloc (the table) of
             (newfd, t) \<Rightarrow>
               if newfd < 0 then (newfd, Some t)
               else
                 let f = files t ! i in
                 (newfd, Some (upd_file t (nat newfd)
                    ((files t ! nat newfd)\<lparr>f_flags := f_flags f, f_offset := f_offset f, f_node := f_node f,
                       f_fs := f_fs f\<rparr>)))))"

text \<open>The calls of a process. \<open>proc = None\<close> is NULL.\<close>

definition with_table :: "mcs_process \<Rightarrow> mcs_fd_table option \<Rightarrow> mcs_process option" where
  "with_table p t = Some (p\<lparr>fd_table := the t\<rparr>)"

definition mcs_sys_open ::
  "mcs_process option \<Rightarrow> rams \<Rightarrow> nat option \<Rightarrow> bytes option \<Rightarrow> u32 \<Rightarrow> int \<times> mcs_process option \<times> rams" where
  "mcs_sys_open proc R fs user_path flags =
     (if proc = None \<or> fs = None \<or> user_path = None then (MCS_EINVAL, proc, R)
      else (case mcs_vfs_open (Some (fd_table (the proc))) R fs user_path flags of
              (rc, t, R) \<Rightarrow> (rc, with_table (the proc) t, R)))"

definition mcs_sys_read ::
  "mcs_process option \<Rightarrow> rams \<Rightarrow> int \<Rightarrow> bytes option \<Rightarrow> nat \<Rightarrow> int \<times> bytes option \<times> mcs_process option" where
  "mcs_sys_read proc R fd user_buf len =
     (if proc = None \<or> user_buf = None \<and> len \<noteq> 0 then (MCS_EINVAL, user_buf, proc)
      else (case mcs_vfs_read (Some (fd_table (the proc))) R fd user_buf len of
              (rc, buf, t) \<Rightarrow> (rc, buf, with_table (the proc) t)))"

definition mcs_sys_write ::
  "mcs_process option \<Rightarrow> rams \<Rightarrow> int \<Rightarrow> bytes option \<Rightarrow> nat \<Rightarrow> int \<times> mcs_process option \<times> rams" where
  "mcs_sys_write proc R fd user_buf len =
     (if proc = None \<or> user_buf = None \<and> len \<noteq> 0 then (MCS_EINVAL, proc, R)
      else (case mcs_vfs_write (Some (fd_table (the proc))) R fd user_buf len of
              (rc, t, R) \<Rightarrow> (rc, with_table (the proc) t, R)))"

definition mcs_sys_close :: "mcs_process option \<Rightarrow> int \<Rightarrow> int \<times> mcs_process option" where
  "mcs_sys_close proc fd =
     (if proc = None then (MCS_EINVAL, proc)
      else (case mcs_vfs_close (Some (fd_table (the proc))) fd of (rc, t) \<Rightarrow> (rc, with_table (the proc) t)))"

definition mcs_sys_lseek ::
  "mcs_process option \<Rightarrow> rams \<Rightarrow> int \<Rightarrow> int \<Rightarrow> int \<Rightarrow> int \<times> mcs_process option" where
  "mcs_sys_lseek proc R fd offset whence =
     (if proc = None then (MCS_EINVAL, proc)
      else (case mcs_vfs_lseek (Some (fd_table (the proc))) R fd offset whence of
              (rc, t) \<Rightarrow> (rc, with_table (the proc) t)))"

text \<open>\<open>sys_vfs.c\<close>: the pointer to the active file system.\<close>

definition mcs_vfs_set_active_ramfs_for_test :: "nat option \<Rightarrow> nat option \<Rightarrow> nat option" where
  "mcs_vfs_set_active_ramfs_for_test mcs_active_ramfs_for_test fs = fs"

text \<open>The self test \<open>kernel/vfs/m13_kernel_selftest.c\<close>, on the file system at address \<open>a\<close> and the process \<open>p\<close>. Its
  result is the list of lines it logs.\<close>

definition cbytes :: "string \<Rightarrow> bytes" where
  "cbytes s = map of_char s"

definition m13_vfs_kernel_selftest :: "nat \<Rightarrow> mcs_process \<Rightarrow> rams \<Rightarrow> string list \<times> mcs_process option \<times> rams" where
  "m13_vfs_kernel_selftest a p R =
     (let R = R(a := the (mcs_ramfs_init (Some (R a)))); hello = cbytes ''hello-mcsos'';
          (rc, fs) = mcs_ramfs_seed_file (Some (R a)) (Some (cbytes ''/hello.txt'')) (Some hello) (length hello);
          R = R(a := the fs);
          log = [''[M13] VFS/RAMFS kernel selftest begin'', ''[M13] ramfs init: OK'']
      in if rc \<noteq> MCS_OK then (log @ [''[M13] seed_file FAILED''], Some p, R)
      else
        let log = log @ [''[M13] seed_file /hello.txt: OK''];
            p = p\<lparr>pid := 0xD, fd_table := the (mcs_fd_table_init (Some (fd_table p)))\<rparr>;
            (fd, p, R) = mcs_sys_open (Some p) R (Some a) (Some (cbytes ''/hello.txt'')) MCS_O_RDONLY
        in if fd < 0 then (log @ [''[M13] sys_open FAILED''], p, R)
      else
        let log = log @ [''[M13] sys_open /hello.txt: OK''];
            (n, buf, p) = mcs_sys_read p R fd (Some (replicate 16 0)) 5
        in if n \<noteq> 5 then (log @ [''[M13] sys_read FAILED''], p, R)
      else
        let log = log @ [''[M13] sys_read 5 bytes: OK''];
            (rc, p) = mcs_sys_close p fd
        in if rc \<noteq> MCS_OK then (log @ [''[M13] sys_close FAILED''], p, R)
      else
        let log = log @ [''[M13] sys_close: OK''];
            (n, buf, p) = mcs_sys_read p R fd buf 1
        in if n \<noteq> MCS_EBADF then (log @ [''[M13] EBADF check FAILED''], p, R)
      else
        let log = log @ [''[M13] EBADF after close: OK''];
            (fd, p, R) = mcs_sys_open p R (Some a) (Some (cbytes ''/missing.txt'')) MCS_O_RDONLY
        in if fd \<noteq> MCS_ENOENT then (log @ [''[M13] ENOENT check FAILED''], p, R)
      else
        let log = log @ [''[M13] ENOENT missing file: OK''];
            (fd, p, R) = mcs_sys_open p R (Some a) (Some (cbytes ''/log.txt'')) (MCS_O_CREAT OR MCS_O_RDWR OR MCS_O_TRUNC)
        in if fd < 0 then (log @ [''[M13] create log.txt FAILED''], p, R)
      else
        let (n, p, R) = mcs_sys_write p R fd (Some (cbytes ''OK13'')) 4
        in if n \<noteq> 4 then (log @ [''[M13] write log.txt FAILED''], p, R)
      else
        let (rc, p) = mcs_sys_lseek p R fd 0 MCS_SEEK_SET
        in if rc \<noteq> 0 then (log @ [''[M13] lseek log.txt FAILED''], p, R)
      else
        let (n, buf, p) = mcs_sys_read p R fd (Some (replicate 16 0)) 4
        in if n \<noteq> 4 then (log @ [''[M13] read back log.txt FAILED''], p, R)
      else
        let (rc, p) = mcs_sys_close p fd
        in (log @ [''[M13] create/write/lseek/read /log.txt: OK'', ''[M13] VFS/RAMFS kernel selftest: PASS''], p, R))"

section \<open>The abstract model\<close>

text \<open>Files are a map from names to the 256 bytes reserved for them and their length; a descriptor holds flags, an
  offset and what it names, the root directory being \<open>None\<close>.\<close>

record a_desc =
  a_flags :: u32
  a_offset :: nat
  a_target :: "bytes option"

type_synonym a_files = "bytes \<Rightarrow> (bytes \<times> nat) option"
type_synonym a_state = "a_files \<times> (nat \<Rightarrow> a_desc option)"

datatype vfs_call = Call_open bytes u32 | Call_read int nat | Call_write int bytes | Call_lseek int int int
  | Call_close int | Call_dup int

definition a_get :: "(nat \<Rightarrow> a_desc option) \<Rightarrow> int \<Rightarrow> (nat \<times> a_desc) option" where
  "a_get D fd = (if fd < 0 \<or> 16 \<le> nat fd then None else map_option (\<lambda>x. (nat fd, x)) (D (nat fd)))"

definition a_free :: "(nat \<Rightarrow> a_desc option) \<Rightarrow> nat option" where
  "a_free D = first_index (\<lambda>i. D i = None) 0 16"

definition norm_flags :: "u32 \<Rightarrow> u32" where
  "norm_flags flags = (if flags AND (MCS_O_RDONLY OR MCS_O_WRONLY OR MCS_O_RDWR) = 0 then flags OR MCS_O_RDONLY else flags)"

definition a_resolve :: "a_files \<Rightarrow> bytes \<Rightarrow> u32 \<Rightarrow> (int + bytes option) \<times> a_files" where
  "a_resolve F path flags =
     (case a_lookup F path of
        Inr x \<Rightarrow> (Inr x, F)
      | Inl rc \<Rightarrow>
          if flags AND MCS_O_CREAT = 0 then (Inl rc, F)
          else (case a_create F path of (Inl e, F) \<Rightarrow> (Inl e, F) | (Inr nm, F) \<Rightarrow> (Inr (Some nm), F)))"

definition a_open :: "bytes \<Rightarrow> u32 \<Rightarrow> a_state \<Rightarrow> int \<times> a_state" where
  "a_open path flags0 s =
     (case s of (F, D) \<Rightarrow> let flags = norm_flags flags0 in
        case a_resolve F path flags of
          (Inl rc, F) \<Rightarrow> (rc, F, D)
        | (Inr x, F) \<Rightarrow>
            if x = None \<and> mcs_can_write flags then (MCS_EISDIR, F, D)
            else
              (case a_free D of
                 None \<Rightarrow> (MCS_ENFILE, F, D)
               | Some i \<Rightarrow>
                   let sz = (case x of None \<Rightarrow> 0 | Some nm \<Rightarrow> snd (the (F nm))) in
                   if flags AND MCS_O_TRUNC = 0 then
                     (int i, F, D(i \<mapsto> \<lparr>a_flags = flags, a_offset = (if flags AND MCS_O_APPEND \<noteq> 0 then sz else 0), a_target = x\<rparr>))
                   else if \<not> mcs_can_write flags then (MCS_EACCES, F, D)
                   else (int i, F(the x \<mapsto> (fst (the (F (the x))), 0)), D(i \<mapsto> \<lparr>a_flags = flags, a_offset = 0, a_target = x\<rparr>))))"

definition a_read :: "int \<Rightarrow> nat \<Rightarrow> a_state \<Rightarrow> (int \<times> bytes) \<times> a_state" where
  "a_read fd len s =
     (case s of (F, D) \<Rightarrow> case a_get D fd of
        None \<Rightarrow> ((MCS_EBADF, []), F, D)
      | Some (i, x) \<Rightarrow>
          if \<not> mcs_can_read (a_flags x) then ((MCS_EACCES, []), F, D)
          else (case a_target x of
                  None \<Rightarrow> ((MCS_EISDIR, []), F, D)
                | Some nm \<Rightarrow>
                    let (buf, sz) = the (F nm); k = min len (sz - a_offset x) in
                    if sz \<le> a_offset x then ((0, []), F, D)
                    else ((int k, slice (a_offset x) k buf), F, D(i \<mapsto> x\<lparr>a_offset := a_offset x + k\<rparr>))))"

definition a_write :: "int \<Rightarrow> bytes \<Rightarrow> a_state \<Rightarrow> int \<times> a_state" where
  "a_write fd bs s =
     (case s of (F, D) \<Rightarrow> case a_get D fd of
        None \<Rightarrow> (MCS_EBADF, F, D)
      | Some (i, x) \<Rightarrow>
          if \<not> mcs_can_write (a_flags x) then (MCS_EACCES, F, D)
          else (case a_target x of
                  None \<Rightarrow> (MCS_EISDIR, F, D)
                | Some nm \<Rightarrow>
                    let (buf, sz) = the (F nm);
                        off = (if a_flags x AND MCS_O_APPEND \<noteq> 0 then sz else a_offset x);
                        fin = off + length bs
                    in if 256 < off then (MCS_EINVAL, F, D(i \<mapsto> x\<lparr>a_offset := off\<rparr>))
                       else if 256 < fin then (MCS_ENOSPC, F, D(i \<mapsto> x\<lparr>a_offset := off\<rparr>))
                       else (int (length bs), F(nm \<mapsto> (patch off bs buf, max sz fin)), D(i \<mapsto> x\<lparr>a_offset := fin\<rparr>))))"

definition a_lseek :: "int \<Rightarrow> int \<Rightarrow> int \<Rightarrow> a_state \<Rightarrow> int \<times> a_state" where
  "a_lseek fd offset whence s =
     (case s of (F, D) \<Rightarrow> case a_get D fd of
        None \<Rightarrow> (MCS_EBADF, F, D)
      | Some (i, x) \<Rightarrow>
          (case a_target x of
             None \<Rightarrow> (MCS_EISDIR, F, D)
           | Some nm \<Rightarrow>
               if whence \<notin> {0, 1, 2} then (MCS_EINVAL, F, D)
               else
                 let bs = (if whence = 0 then 0 else if whence = 1 then int (a_offset x) else int (snd (the (F nm))));
                     nxt = to_long (to_long bs + offset)
                 in if nxt < 0 then (MCS_EINVAL, F, D) else (to_int nxt, F, D(i \<mapsto> x\<lparr>a_offset := nat nxt\<rparr>))))"

definition a_close :: "int \<Rightarrow> a_state \<Rightarrow> int \<times> a_state" where
  "a_close fd s = (case s of (F, D) \<Rightarrow> case a_get D fd of None \<Rightarrow> (MCS_EBADF, F, D) | Some (i, x) \<Rightarrow> (MCS_OK, F, D(i := None)))"

definition a_dup :: "int \<Rightarrow> a_state \<Rightarrow> int \<times> a_state" where
  "a_dup fd s =
     (case s of (F, D) \<Rightarrow> case a_get D fd of
        None \<Rightarrow> (MCS_EBADF, F, D)
      | Some (i, x) \<Rightarrow> (case a_free D of None \<Rightarrow> (MCS_ENFILE, F, D) | Some j \<Rightarrow> (int j, F, D(j \<mapsto> x))))"

fun a_exec :: "vfs_call \<Rightarrow> a_state \<Rightarrow> (int \<times> bytes) \<times> a_state" where
  "a_exec (Call_open path flags) s = (let (rc, s) = a_open path flags s in ((rc, []), s))"
| "a_exec (Call_read fd len) s = a_read fd len s"
| "a_exec (Call_write fd bs) s = (let (rc, s) = a_write fd bs s in ((rc, []), s))"
| "a_exec (Call_lseek fd off w) s = (let (rc, s) = a_lseek fd off w s in ((rc, []), s))"
| "a_exec (Call_close fd) s = (let (rc, s) = a_close fd s in ((rc, []), s))"
| "a_exec (Call_dup fd) s = (let (rc, s) = a_dup fd s in ((rc, []), s))"

text \<open>The same calls on the code's state: the table, and the file system at address \<open>a\<close>. A read goes to a fresh
  buffer of the length asked for and answers the bytes it stored there.\<close>

fun vfs_exec :: "nat \<Rightarrow> vfs_call \<Rightarrow> mcs_fd_table \<times> rams \<Rightarrow> (int \<times> bytes) \<times> mcs_fd_table \<times> rams" where
  "vfs_exec a (Call_open path flags) (t, R) =
     (let (rc, t', R') = mcs_vfs_open (Some t) R (Some a) (Some path) flags in ((rc, []), the t', R'))"
| "vfs_exec a (Call_read fd len) (t, R) =
     (let (rc, buf, t') = mcs_vfs_read (Some t) R fd (Some (replicate len 0)) len in
      ((rc, take (nat rc) (the buf)), the t', R))"
| "vfs_exec a (Call_write fd bs) (t, R) =
     (let (rc, t', R') = mcs_vfs_write (Some t) R fd (Some bs) (length bs) in ((rc, []), the t', R'))"
| "vfs_exec a (Call_lseek fd off w) (t, R) =
     (let (rc, t') = mcs_vfs_lseek (Some t) R fd off w in ((rc, []), the t', R))"
| "vfs_exec a (Call_close fd) (t, R) = (let (rc, t') = mcs_vfs_close (Some t) fd in ((rc, []), the t', R))"
| "vfs_exec a (Call_dup fd) (t, R) = (let (rc, t') = mcs_vfs_dup (Some t) fd in ((rc, []), the t', R))"

section \<open>The simulation\<close>

definition target_node :: "mcs_ramfs \<Rightarrow> bytes option \<Rightarrow> nat option" where
  "target_node r x = (case x of None \<Rightarrow> Some 0 | Some nm \<Rightarrow> if name_valid nm then node_of r nm else None)"

definition desc_rel :: "nat \<Rightarrow> mcs_ramfs \<Rightarrow> mcs_file \<Rightarrow> a_desc option \<Rightarrow> bool" where
  "desc_rel a r f d \<longleftrightarrow>
     (case d of
        None \<Rightarrow> f_used f = 0
      | Some x \<Rightarrow> f_used f \<noteq> 0 \<and> f_flags f = a_flags x \<and> f_offset f = a_offset x \<and> f_fs f = Some a \<and>
          (\<exists>n. f_node f = Some n \<and> target_node r (a_target x) = Some n))"

definition table_rel :: "nat \<Rightarrow> mcs_ramfs \<Rightarrow> mcs_fd_table \<Rightarrow> (nat \<Rightarrow> a_desc option) \<Rightarrow> bool" where
  "table_rel a r t D \<longleftrightarrow> length (files t) = 16 \<and> (\<forall>i < 16. desc_rel a r (files t ! i) (D i))"

definition vfs_rel :: "nat \<Rightarrow> mcs_fd_table \<times> rams \<Rightarrow> a_state \<Rightarrow> bool" where
  "vfs_rel a s as \<longleftrightarrow>
     ramfs_ok (snd s a) \<and> ramfs_files (snd s a) = fst as \<and> table_rel a (snd s a) (fst s) (snd as)"

lemma desc_rel_extends: "desc_rel a r f d \<Longrightarrow> extends r r' \<Longrightarrow> desc_rel a r' f d"
  by (auto simp: desc_rel_def extends_def target_node_def split: option.splits if_splits)

lemma table_rel_extends: "table_rel a r t D \<Longrightarrow> extends r r' \<Longrightarrow> table_rel a r' t D"
  using desc_rel_extends by (auto simp: table_rel_def)

lemma table_rel_upd:
  "table_rel a r t D \<Longrightarrow> i < 16 \<Longrightarrow> desc_rel a r f d \<Longrightarrow> table_rel a r (upd_file t i f) (D(i := d))"
  by (auto simp: table_rel_def upd_file_def nth_list_update)

lemma fd_get_rel:
  assumes "table_rel a r t D"
  shows "mcs_fd_get (Some t) fd = map_option fst (a_get D fd)"
    "a_get D fd = Some (i, x) \<Longrightarrow> i < 16 \<and> D i = Some x \<and> f_flags (files t ! i) = a_flags x \<and>
       f_offset (files t ! i) = a_offset x \<and> f_fs (files t ! i) = Some a \<and>
       (\<exists>n. f_node (files t ! i) = Some n \<and> target_node r (a_target x) = Some n) \<and> f_used (files t ! i) \<noteq> 0"
proof -
  show "mcs_fd_get (Some t) fd = map_option fst (a_get D fd)"
    using assms by (cases "fd < 0 \<or> 16 \<le> nat fd")
      (auto simp: mcs_fd_get_def a_get_def table_rel_def desc_rel_def mcs_consts not_le split: option.splits)
  assume g: "a_get D fd = Some (i, x)"
  then have i: "i < 16" "D i = Some x" by (auto simp: a_get_def split: if_splits)
  then have "desc_rel a r (files t ! i) (Some x)" using assms by (metis table_rel_def)
  then show "i < 16 \<and> D i = Some x \<and> f_flags (files t ! i) = a_flags x \<and>
       f_offset (files t ! i) = a_offset x \<and> f_fs (files t ! i) = Some a \<and>
       (\<exists>n. f_node (files t ! i) = Some n \<and> target_node r (a_target x) = Some n) \<and> f_used (files t ! i) \<noteq> 0"
    using i by (auto simp: desc_rel_def)
qed

lemma fd_alloc_rel:
  assumes "table_rel a r t D"
  shows "mcs_fd_alloc t = (case a_free D of Some i \<Rightarrow> (int i, upd_file t i ((files t ! i)\<lparr>f_used := 1\<rparr>)) | None \<Rightarrow> (MCS_ENFILE, t))"
    "a_free D = Some i \<Longrightarrow> i < 16 \<and> D i = None"
proof -
  have "first_index (\<lambda>i. f_used (files t ! i) = 0) 0 16 = a_free D"
    unfolding a_free_def using assms
    by (intro first_index_cong) (auto simp: table_rel_def desc_rel_def split: option.splits)
  then show "mcs_fd_alloc t = (case a_free D of Some i \<Rightarrow> (int i, upd_file t i ((files t ! i)\<lparr>f_used := 1\<rparr>)) | None \<Rightarrow> (MCS_ENFILE, t))"
    by (simp add: mcs_fd_alloc_def MCS_MAX_OPEN_FILES_def)
  show "a_free D = Some i \<Longrightarrow> i < 16 \<and> D i = None" by (auto simp: a_free_def dest: first_index_SomeD)
qed

text \<open>A descriptor that names a file: its node and what the abstract state holds for it.\<close>

lemma target_file:
  assumes "ramfs_ok r" "target_node r (Some nm) = Some n"
  shows "name_valid nm" "node_of r nm = Some n" "is_file r n" "ramfs_files r nm = Some (region r n, v_size (nodes r ! n))"
proof -
  show nv: "name_valid nm" and n: "node_of r nm = Some n" using assms(2) by (auto simp: target_node_def split: if_splits)
  show "is_file r n" by (rule node_of_is_file [OF n])
  show "ramfs_files r nm = Some (region r n, v_size (nodes r ! n))" using nv n by (simp add: ramfs_files_def file_at_def)
qed

lemma target_root: "target_node r None = Some n \<Longrightarrow> n = 0"
  by (simp add: target_node_def)

lemma root_type: "ramfs_ok r \<Longrightarrow> v_type (nodes r ! 0) = MCS_VNODE_DIR"
  using ramfs_okD(5) by (simp add: root_ok_def)

lemma vfs_relD:
  assumes "vfs_rel a (t, R) (F, D)"
  shows "ramfs_ok (R a)" "F = ramfs_files (R a)" "table_rel a (R a) t D"
  using assms by (auto simp: vfs_rel_def)

lemma vfs_rel_table: "ramfs_ok (R a) \<Longrightarrow> table_rel a (R a) t D \<Longrightarrow> vfs_rel a (t, R) (ramfs_files (R a), D)"
  by (simp add: vfs_rel_def)

lemma upd_same: "table_rel a r t D \<Longrightarrow> i < 16 \<Longrightarrow> upd_file t i (files t ! i) = t"
  by (simp add: upd_file_def)

lemma read_simulates:
  assumes "vfs_rel a (t, R) (F, D)"
  shows "fst (vfs_exec a (Call_read fd len) (t, R)) = fst (a_read fd len (F, D)) \<and>
    vfs_rel a (snd (vfs_exec a (Call_read fd len) (t, R))) (snd (a_read fd len (F, D)))"
proof (cases "a_get D fd")
  case None
  then show ?thesis using assms fd_get_rel(1) [OF vfs_relD(3) [OF assms], of fd]
    by (simp add: mcs_vfs_read_def a_read_def mcs_consts)
next
  case (Some p)
  obtain i x where p: "p = (i, x)" by (cases p)
  note rel = vfs_relD [OF assms]
  note g = fd_get_rel(1) [OF rel(3), of fd] and x = fd_get_rel(2) [OF rel(3) Some [unfolded p]]
  obtain n where n: "f_node (files t ! i) = Some n" "target_node (R a) (a_target x) = Some n" using x by blast
  show ?thesis
  proof (cases "a_target x")
    case None
    then have "v_type (nodes (R a) ! n) = MCS_VNODE_DIR" using n target_root root_type [OF rel(1)] by auto
    then show ?thesis
      using assms g x n None Some p by (auto simp: mcs_vfs_read_def a_read_def mcs_consts)
  next
    case (Some nm)
    note f = target_file [OF rel(1) n(2) [unfolded Some]] and ty = is_file_node [OF rel(1)] and b = region_bounds [OF rel(1)]
    let ?nd = "nodes (R a) ! n" and ?off = "a_offset x"
    let ?k = "min len (v_size ?nd - ?off)"
    have copy: "take ?k (copy_loop 0 (replicate len 0) (v_data_offset ?nd + ?off) (data_area (R a)) ?k) = slice ?off ?k (region (R a) n)"
      if "?off < v_size ?nd"
      using that b [OF f(3)] ty(3) [OF f(3)]
      by (intro nth_equalityI) (auto simp: nth_copy_loop region_def add.assoc)
    have step: "table_rel a (R a) (upd_file t i ((files t ! i)\<lparr>f_offset := k\<rparr>)) (D(i \<mapsto> x\<lparr>a_offset := k\<rparr>))" for k
      using x n by (intro table_rel_upd [OF rel(3)]) (auto simp: desc_rel_def)
    show ?thesis
      using assms g x n Some \<open>a_get D fd = Some p\<close> p f ty(1) [OF f(3)] copy step [of "?off + ?k"] rel
      by (auto simp: mcs_vfs_read_def a_read_def mcs_consts Let_def mcs_min_size_def min_def mcs_copy_to_user_def
          vfs_rel_def not_le simp del: of_nat_diff)
  qed
qed

lemma write_as_put:
  assumes "ramfs_ok r" "is_file r n" "off + length bs \<le> 256"
  shows "r\<lparr>data_area := mcs_copy_from_user (data_area r) (v_data_offset (nodes r ! n) + off) (Some bs) (length bs),
      nodes := (nodes r)[n := (nodes r ! n)\<lparr>v_size := sz\<rparr>]\<rparr> = put_file r n off bs sz"
  using region_bounds [OF assms(1,2)] assms(3) by (simp add: put_file_def mcs_copy_from_user_def copy_loop_patch)

lemma trunc_as_put:
  "ramfs_ok r \<Longrightarrow> is_file r n \<Longrightarrow> r\<lparr>nodes := (nodes r)[n := (nodes r ! n)\<lparr>v_size := 0\<rparr>]\<rparr> = put_file r n 0 [] 0"
  by (simp add: put_file_def patch_def)

lemma put_simulates:
  assumes rel: "vfs_rel a (t, R) (F, D)" and nm: "name_valid nm" "node_of (R a) nm = Some n"
    and fits: "off + length bs \<le> 256" "sz \<le> 256"
    and tab: "table_rel a (R a) t' D'"
  shows "vfs_rel a (t', R(a := put_file (R a) n off bs sz)) (F(nm \<mapsto> (patch off bs (region (R a) n), sz)), D')"
proof -
  note ok = vfs_relD(1) [OF rel] and fl = node_of_is_file [OF nm(2)]
  show ?thesis
    using put_file_ok [OF ok fl fits] put_file_files [OF ok nm fits(1)] vfs_relD(2) [OF rel]
      table_rel_extends [OF tab put_file_extends [OF ok fl fits]]
    by (simp add: vfs_rel_def)
qed

lemma upd_file_twice: "upd_file (upd_file t i u) i v = upd_file t i v"
  by (simp add: upd_file_def)

text \<open>A write through a descriptor of a regular file; in append mode it starts at the end.\<close>

lemma write_at_file:
  fixes t :: mcs_fd_table
  assumes ok: "ramfs_ok (R a)" "is_file (R a) n" and get: "mcs_fd_get (Some t) fd = Some i"
    and f: "f_node (files t ! i) = Some n" "f_fs (files t ! i) = Some a"
  defines "sz \<equiv> v_size (nodes (R a) ! n)"
  defines "off \<equiv> if f_flags (files t ! i) AND MCS_O_APPEND \<noteq> 0 then sz else f_offset (files t ! i)"
  shows "mcs_vfs_write (Some t) R fd (Some bs) (length bs) =
    (if \<not> mcs_can_write (f_flags (files t ! i)) then (MCS_EACCES, Some t, R)
     else if 256 < off then (MCS_EINVAL, Some (upd_file t i ((files t ! i)\<lparr>f_offset := off\<rparr>)), R)
     else if 256 < off + length bs then (MCS_ENOSPC, Some (upd_file t i ((files t ! i)\<lparr>f_offset := off\<rparr>)), R)
     else (int (length bs), Some (upd_file t i ((files t ! i)\<lparr>f_offset := off + length bs\<rparr>)),
       R(a := put_file (R a) n off bs (max sz (off + length bs)))))"
proof -
  note nd = is_file_node [OF ok] and wp = write_as_put [OF ok, of off bs]
  have szm: "(if sz < off + length bs then off + length bs else sz) = max sz (off + length bs)" by (simp add: max_def)
  have k: "off + length bs \<le> 256 \<Longrightarrow> mcs_min_size (length bs) (256 - off) = length bs"
    "off \<le> 256 \<Longrightarrow> 256 < off + length bs \<Longrightarrow> mcs_min_size (length bs) (256 - off) < length bs"
    by (auto simp: mcs_min_size_def)
  have id: "(files t ! i)\<lparr>f_offset := f_offset (files t ! i)\<rparr> = files t ! i" by simp
  consider "256 < off" | "off \<le> 256" "256 < off + length bs" | "off + length bs \<le> 256" by linarith
  note three = this
  show ?thesis
  proof (cases "f_flags (files t ! i) AND MCS_O_APPEND = 0")
    case True
    then have o: "off = f_offset (files t ! i)" by (simp add: off_def)
    show ?thesis
      by (rule three) (simp_all add: mcs_vfs_write_def get f nd(1,2) Let_def upd_file_twice True id o k [unfolded o]
          szm [unfolded o] wp [unfolded o] flip: sz_def)
  next
    case False
    then have o: "off = sz" by (simp add: off_def)
    show ?thesis
      by (rule three) (simp_all add: mcs_vfs_write_def get f nd(1,2) Let_def upd_file_twice False o k [unfolded o]
          szm [unfolded o] wp [unfolded o] flip: sz_def)
  qed
qed

lemma write_simulates:
  assumes "vfs_rel a (t, R) (F, D)"
  shows "fst (vfs_exec a (Call_write fd bs) (t, R)) = fst (a_exec (Call_write fd bs) (F, D)) \<and>
    vfs_rel a (snd (vfs_exec a (Call_write fd bs) (t, R))) (snd (a_exec (Call_write fd bs) (F, D)))"
proof (cases "a_get D fd")
  case None
  then show ?thesis using assms fd_get_rel(1) [OF vfs_relD(3) [OF assms], of fd]
    by (simp add: mcs_vfs_write_def a_write_def)
next
  case (Some p)
  obtain i x where p: "p = (i, x)" by (cases p)
  note rel = vfs_relD [OF assms]
  note g = fd_get_rel(1) [OF rel(3), of fd] and x = fd_get_rel(2) [OF rel(3) Some [unfolded p]]
  obtain n where n: "f_node (files t ! i) = Some n" "target_node (R a) (a_target x) = Some n" using x by blast
  have get: "mcs_fd_get (Some t) fd = Some i" using g Some p by simp
  have fo: "f_offset (files t ! i) = a_offset x" "f_flags (files t ! i) = a_flags x" "f_fs (files t ! i) = Some a"
    using x by auto
  show ?thesis
  proof (cases "a_target x")
    case None
    then have "v_type (nodes (R a) ! n) = MCS_VNODE_DIR" using n target_root root_type [OF rel(1)] by auto
    then show ?thesis using assms get fo n(1) None Some p by (auto simp: mcs_vfs_write_def a_write_def)
  next
    case nm: (Some nm)
    note f = target_file [OF rel(1) n(2) [unfolded nm]]
    define sz where "sz = v_size (nodes (R a) ! n)"
    define off where "off = (if a_flags x AND MCS_O_APPEND \<noteq> 0 then sz else a_offset x)"
    have step: "table_rel a (R a) (upd_file t i ((files t ! i)\<lparr>f_offset := k\<rparr>)) (D(i \<mapsto> x\<lparr>a_offset := k\<rparr>))" for k
      using x n by (intro table_rel_upd [OF rel(3)]) (auto simp: desc_rel_def)
    have put: "vfs_rel a (upd_file t i ((files t ! i)\<lparr>f_offset := off + length bs\<rparr>),
        R(a := put_file (R a) n off bs (max sz (off + length bs))))
        (F(nm \<mapsto> (patch off bs (region (R a) n), max sz (off + length bs))), D(i \<mapsto> x\<lparr>a_offset := off + length bs\<rparr>))"
      if "off + length bs \<le> 256"
      using that is_file_node(3) [OF rel(1) f(3)] by (intro put_simulates [OF assms f(1,2)] step) (auto simp: sz_def)
    have keep: "vfs_rel a (upd_file t i ((files t ! i)\<lparr>f_offset := off\<rparr>), R) (F, D(i \<mapsto> x\<lparr>a_offset := off\<rparr>))"
      using step [of off] rel by (simp add: vfs_rel_def)
    have abs: "a_write fd bs (F, D) =
      (if \<not> mcs_can_write (a_flags x) then (MCS_EACCES, F, D)
       else if 256 < off then (MCS_EINVAL, F, D(i \<mapsto> x\<lparr>a_offset := off\<rparr>))
       else if 256 < off + length bs then (MCS_ENOSPC, F, D(i \<mapsto> x\<lparr>a_offset := off\<rparr>))
       else (int (length bs), F(nm \<mapsto> (patch off bs (region (R a) n), max sz (off + length bs))),
             D(i \<mapsto> x\<lparr>a_offset := off + length bs\<rparr>)))"
      using Some p nm f(4) rel(2) by (simp add: a_write_def Let_def off_def sz_def)
    note conc = write_at_file [where R = R and bs = bs, OF rel(1) f(3) get n(1) fo(3), unfolded fo(1,2), folded sz_def, folded off_def]
    show ?thesis using put keep assms unfolding vfs_exec.simps a_exec.simps conc abs by simp
  qed
qed

lemma to_long_0: "to_long 0 = 0"
  by (simp add: to_long_def)

lemma lseek_simulates:
  assumes "vfs_rel a (t, R) (F, D)"
  shows "fst (vfs_exec a (Call_lseek fd off w) (t, R)) = fst (a_exec (Call_lseek fd off w) (F, D)) \<and>
    vfs_rel a (snd (vfs_exec a (Call_lseek fd off w) (t, R))) (snd (a_exec (Call_lseek fd off w) (F, D)))"
proof (cases "a_get D fd")
  case None
  then show ?thesis using assms fd_get_rel(1) [OF vfs_relD(3) [OF assms], of fd]
    by (simp add: mcs_vfs_lseek_def a_lseek_def)
next
  case (Some p)
  obtain i x where p: "p = (i, x)" by (cases p)
  note rel = vfs_relD [OF assms]
  note x = fd_get_rel(2) [OF rel(3) Some [unfolded p]]
  have g: "mcs_fd_get (Some t) fd = Some i" using fd_get_rel(1) [OF rel(3), of fd] Some p by simp
  obtain n where n: "f_node (files t ! i) = Some n" "target_node (R a) (a_target x) = Some n" using x by blast
  have fo: "f_offset (files t ! i) = a_offset x" "f_fs (files t ! i) = Some a" using x by auto
  show ?thesis
  proof (cases "a_target x")
    case None
    then have "v_type (nodes (R a) ! n) = MCS_VNODE_DIR" using n target_root root_type [OF rel(1)] by auto
    then show ?thesis using assms g fo n None Some p by (simp add: mcs_vfs_lseek_def a_lseek_def)
  next
    case (Some nm)
    note f = target_file [OF rel(1) n(2) [unfolded Some]]
    have step: "vfs_rel a (upd_file t i ((files t ! i)\<lparr>f_offset := k\<rparr>), R) (F, D(i \<mapsto> x\<lparr>a_offset := k\<rparr>))" for k
    proof -
      have "desc_rel a (R a) ((files t ! i)\<lparr>f_offset := k\<rparr>) (Some (x\<lparr>a_offset := k\<rparr>))" using x n by (simp add: desc_rel_def)
      then have "table_rel a (R a) (upd_file t i ((files t ! i)\<lparr>f_offset := k\<rparr>)) (D(i \<mapsto> x\<lparr>a_offset := k\<rparr>))"
        using x by (intro table_rel_upd [OF rel(3)]) auto
      then show ?thesis using rel by (simp add: vfs_rel_def)
    qed
    have nd: "v_type (nodes (R a) ! n) = MCS_VNODE_FILE" "snd (the (F nm)) = v_size (nodes (R a) ! n)"
      using is_file_node(1) [OF rel(1) f(3)] f(4) rel(2) by simp_all
    have ag: "a_get D fd = Some (i, x)" using \<open>a_get D fd = Some p\<close> p by simp
    consider "w = 0" | "w = 1" | "w = 2" | "w \<noteq> 0" "w \<noteq> 1" "w \<noteq> 2" by blast
    then show ?thesis
      by cases (simp_all add: mcs_vfs_lseek_def a_lseek_def g ag n(1) fo nd Some Let_def MCS_SEEK_SET_def
          MCS_SEEK_CUR_def MCS_SEEK_END_def to_long_0 assms step)
  qed
qed

lemma close_simulates:
  assumes "vfs_rel a (t, R) (F, D)"
  shows "fst (vfs_exec a (Call_close fd) (t, R)) = fst (a_exec (Call_close fd) (F, D)) \<and>
    vfs_rel a (snd (vfs_exec a (Call_close fd) (t, R))) (snd (a_exec (Call_close fd) (F, D)))"
proof (cases "a_get D fd")
  case None
  then show ?thesis using assms fd_get_rel(1) [OF vfs_relD(3) [OF assms], of fd]
    by (simp add: mcs_vfs_close_def a_close_def)
next
  case (Some p)
  obtain i x where p: "p = (i, x)" by (cases p)
  note rel = vfs_relD [OF assms]
  have "i < 16" using fd_get_rel(2) [OF rel(3) Some [unfolded p]] by blast
  then have "table_rel a (R a) (upd_file t i ((files t ! i)\<lparr>f_used := 0, f_flags := 0, f_offset := 0, f_node := None, f_fs := None\<rparr>))
      (D(i := None))"
    by (intro table_rel_upd [OF rel(3)]) (auto simp: desc_rel_def)
  then show ?thesis
    using fd_get_rel(1) [OF rel(3), of fd] Some p rel by (simp add: mcs_vfs_close_def a_close_def vfs_rel_def)
qed

lemma alloc_upd:
  "length (files t) = 16 \<Longrightarrow> j < 16 \<Longrightarrow>
   upd_file (upd_file t j u) j v = upd_file t j v \<and> files (upd_file t j u) ! i = (if i = j then u else files t ! i)"
  by (simp add: upd_file_def)

lemma dup_simulates:
  assumes "vfs_rel a (t, R) (F, D)"
  shows "fst (vfs_exec a (Call_dup fd) (t, R)) = fst (a_exec (Call_dup fd) (F, D)) \<and>
    vfs_rel a (snd (vfs_exec a (Call_dup fd) (t, R))) (snd (a_exec (Call_dup fd) (F, D)))"
proof (cases "a_get D fd")
  case None
  then show ?thesis using assms fd_get_rel(1) [OF vfs_relD(3) [OF assms], of fd]
    by (simp add: mcs_vfs_dup_def a_dup_def)
next
  case (Some p)
  obtain i x where p: "p = (i, x)" by (cases p)
  note rel = vfs_relD [OF assms]
  note x = fd_get_rel(2) [OF rel(3) Some [unfolded p]]
  have g: "mcs_fd_get (Some t) fd = Some i" using fd_get_rel(1) [OF rel(3), of fd] Some p by simp
  show ?thesis
  proof (cases "a_free D")
    case None
    then show ?thesis using fd_alloc_rel(1) [OF rel(3)] Some p g assms by (simp add: mcs_vfs_dup_def a_dup_def mcs_consts)
  next
    case (Some j)
    have j: "j < 16" "D j = None" using fd_alloc_rel(2) [OF rel(3) Some] by auto
    then have ij: "i \<noteq> j" using x by auto
    have len: "length (files t) = 16" using rel(3) by (simp add: table_rel_def)
    let ?f = "(files t ! j)\<lparr>f_used := 1, f_flags := f_flags (files t ! i), f_offset := f_offset (files t ! i),
        f_node := f_node (files t ! i), f_fs := f_fs (files t ! i)\<rparr>"
    have "table_rel a (R a) (upd_file t j ?f) (D(j \<mapsto> x))"
      using j x by (intro table_rel_upd [OF rel(3)]) (auto simp: desc_rel_def)
    moreover have "mcs_vfs_dup (Some t) fd = (int j, Some (upd_file t j ?f))"
      using fd_alloc_rel(1) [OF rel(3)] Some g ij alloc_upd [OF len j(1)] by (simp add: mcs_vfs_dup_def Let_def)
    ultimately show ?thesis
      using \<open>a_get D fd = Some p\<close> p Some rel by (simp add: a_dup_def vfs_rel_def)
  qed
qed

text \<open>The part of \<open>mcs_vfs_open\<close> that finds or creates the node.\<close>

lemma resolve_refines:
  assumes ok: "ramfs_ok r"
  obtains res r' where
    "(case mcs_ramfs_lookup (Some r) (Some path) of
        Inr node \<Rightarrow> (Inr node, Some r)
      | Inl rc \<Rightarrow> if flags AND MCS_O_CREAT = 0 then (Inl rc, Some r) else mcs_ramfs_create_file (Some r) (Some path)) = (res, Some r')"
    "extends r r'" "ramfs_files r' = snd (a_resolve (ramfs_files r) path flags)"
    "\<And>e. fst (a_resolve (ramfs_files r) path flags) = Inl e \<Longrightarrow> res = Inl e"
    "\<And>x. fst (a_resolve (ramfs_files r) path flags) = Inr x \<Longrightarrow> \<exists>n. res = Inr n \<and> target_node r' x = Some n"
proof -
  let ?F = "ramfs_files r"
  have self: "extends r r" using ok by (simp add: extends_def)
  note lk = lookup_refines [OF ok, of path]
  show thesis
  proof (cases "a_lookup ?F path")
    case (Inr x)
    have "\<exists>n. mcs_ramfs_lookup (Some r) (Some path) = Inr n \<and> target_node r x = Some n"
      using lk Inr a_lookup_found [OF ok, of path] by (cases x) (auto simp: target_node_def)
    then obtain n where n: "mcs_ramfs_lookup (Some r) (Some path) = Inr n" "target_node r x = Some n" by blast
    show thesis by (rule that [of "Inr n" r]) (simp_all add: n self a_resolve_def Inr)
  next
    case (Inl e)
    then have l: "mcs_ramfs_lookup (Some r) (Some path) = Inl e" using lk by simp
    show thesis
    proof (cases "flags AND MCS_O_CREAT = 0")
      case True
      show thesis by (rule that [of "Inl e" r]) (simp_all add: l True self a_resolve_def Inl)
    next
      case False
      obtain res r' where c: "mcs_ramfs_create_file (Some r) (Some path) = (res, Some r')" "extends r r'"
        "ramfs_files r' = snd (a_create ?F path)"
        "res = (case fst (a_create ?F path) of Inl e \<Rightarrow> Inl e | Inr nm \<Rightarrow> Inr (the (node_of r' nm)))"
        "\<And>nm. fst (a_create ?F path) = Inr nm \<Longrightarrow> name_valid nm \<and> node_of r' nm \<noteq> None"
        using create_refines [OF ok, of path] by blast
      obtain cr F' where a: "a_create ?F path = (cr, F')" by (cases "a_create ?F path")
      have ar: "a_resolve ?F path flags = (case cr of Inl e \<Rightarrow> (Inl e, F') | Inr nm \<Rightarrow> (Inr (Some nm), F'))"
        using Inl False a by (simp add: a_resolve_def)
      show thesis
        by (rule that [of res r'])
          (use c a in \<open>auto simp: l False ar target_node_def split: sum.splits\<close>)
    qed
  qed
qed

text \<open>The steps of opening, once the path leads to a node: the slot and its contents, on every branch.\<close>

lemma open_at_node:
  assumes tab: "table_rel a r t D"
    and c: "(case mcs_ramfs_lookup (Some (R a)) (Some path) of
        Inr node \<Rightarrow> (Inr node, Some (R a))
      | Inl rc \<Rightarrow> if norm_flags flags0 AND MCS_O_CREAT = 0 then (Inl rc, Some (R a))
                 else mcs_ramfs_create_file (Some (R a)) (Some path)) = (Inr n, Some r)"
    and dir: "v_type (nodes r ! n) = MCS_VNODE_DIR \<longleftrightarrow> x = None" and fl: "flags = norm_flags flags0"
  shows "mcs_vfs_open (Some t) R (Some a) (Some path) flags0 =
      (if x = None \<and> mcs_can_write flags then (MCS_EISDIR, Some t, R(a := r))
       else case a_free D of None \<Rightarrow> (MCS_ENFILE, Some t, R(a := r))
       | Some i \<Rightarrow>
          let f = (files t ! i)\<lparr>f_used := 1, f_flags := flags, f_node := Some n, f_fs := Some a,
                f_offset := (if flags AND MCS_O_APPEND \<noteq> 0 then v_size (nodes r ! n) else 0)\<rparr> in
          if flags AND MCS_O_TRUNC = 0 then (int i, Some (upd_file t i f), R(a := r))
          else if \<not> mcs_can_write flags then
            (MCS_EACCES, Some (upd_file t i (f\<lparr>f_used := 0, f_node := None, f_fs := None\<rparr>)), R(a := r))
          else (int i, Some (upd_file t i (f\<lparr>f_offset := 0\<rparr>)), R(a := r\<lparr>nodes := (nodes r)[n := (nodes r ! n)\<lparr>v_size := 0\<rparr>]\<rparr>)))"
proof -
  have fl': "(if flags0 AND (MCS_O_RDONLY OR MCS_O_WRONLY OR MCS_O_RDWR) = 0 then flags0 OR MCS_O_RDONLY else flags0) = flags"
    by (simp add: fl norm_flags_def)
  note c' = c [folded fl]
  show ?thesis
  proof (cases "a_free D")
    case None
    then show ?thesis
      using fd_alloc_rel(1) [OF tab] by (simp add: mcs_vfs_open_def Let_def fl' c' dir MCS_ENFILE_def)
  next
    case (Some i)
    have i: "i < 16" "length (files t) = 16" using fd_alloc_rel(2) [OF tab Some] tab by (auto simp: table_rel_def)
    show ?thesis
      using fd_alloc_rel(1) [OF tab] Some alloc_upd [OF i(2,1)] by (simp add: mcs_vfs_open_def Let_def fl' c' dir)
  qed
qed

lemma opened_slot:
  assumes "table_rel a r t D" "i < 16" "target_node r x = Some n"
  shows "table_rel a r (upd_file t i ((files t ! i)\<lparr>f_used := 1, f_flags := flags, f_node := Some n, f_fs := Some a, f_offset := k\<rparr>))
    (D(i \<mapsto> \<lparr>a_flags = flags, a_offset = k, a_target = x\<rparr>))"
  using assms(3) by (intro table_rel_upd [OF assms(1,2)]) (simp add: desc_rel_def)

lemma refused_slot:
  assumes "table_rel a r t D" "i < 16" "D i = None"
  shows "table_rel a r (upd_file t i ((files t ! i)\<lparr>f_used := 1, f_flags := flags, f_node := Some n, f_fs := Some a, f_offset := k,
    f_used := 0, f_node := None, f_fs := None\<rparr>)) D"
proof -
  have "table_rel a r (upd_file t i ((files t ! i)\<lparr>f_used := 1, f_flags := flags, f_node := Some n, f_fs := Some a, f_offset := k,
      f_used := 0, f_node := None, f_fs := None\<rparr>)) (D(i := None))"
    by (intro table_rel_upd [OF assms(1,2)]) (simp add: desc_rel_def)
  then show ?thesis using assms(3) by (simp add: fun_upd_idem)
qed

lemma opened_truncated:
  assumes rel: "vfs_rel a (t, R(a := r)) (F', D)" and i: "i < 16" and n: "target_node r (Some nm) = Some n"
  shows "vfs_rel a (upd_file t i ((files t ! i)\<lparr>f_used := 1, f_flags := flags, f_node := Some n, f_fs := Some a, f_offset := 0\<rparr>),
      R(a := r\<lparr>nodes := (nodes r)[n := (nodes r ! n)\<lparr>v_size := 0\<rparr>]\<rparr>))
    (F'(nm \<mapsto> (fst (the (F' nm)), 0)), D(i \<mapsto> \<lparr>a_flags = flags, a_offset = 0, a_target = Some nm\<rparr>))"
proof -
  have ok: "ramfs_ok r" "F' = ramfs_files r" "table_rel a r t D" using vfs_relD [OF rel] by auto
  note f = target_file [OF ok(1) n]
  show ?thesis
    using put_simulates [OF rel f(1), of n 0 "[]" 0] f opened_slot [OF ok(3) i n, where flags = flags and k = 0] ok(2)
    by (simp add: trunc_as_put [OF ok(1) f(3)] patch_def)
qed

lemma open_simulates:
  assumes "vfs_rel a (t, R) (F, D)"
  shows "fst (vfs_exec a (Call_open path flags0) (t, R)) = fst (a_exec (Call_open path flags0) (F, D)) \<and>
    vfs_rel a (snd (vfs_exec a (Call_open path flags0) (t, R))) (snd (a_exec (Call_open path flags0) (F, D)))"
proof -
  note rel = vfs_relD [OF assms]
  define flags where "flags = norm_flags flags0"
  obtain res r where c:
    "(case mcs_ramfs_lookup (Some (R a)) (Some path) of
        Inr node \<Rightarrow> (Inr node, Some (R a))
      | Inl rc \<Rightarrow> if flags AND MCS_O_CREAT = 0 then (Inl rc, Some (R a))
                 else mcs_ramfs_create_file (Some (R a)) (Some path)) = (res, Some r)"
    "extends (R a) r" "ramfs_files r = snd (a_resolve F path flags)"
    "\<And>e. fst (a_resolve F path flags) = Inl e \<Longrightarrow> res = Inl e"
    "\<And>x. fst (a_resolve F path flags) = Inr x \<Longrightarrow> \<exists>n. res = Inr n \<and> target_node r x = Some n"
    using resolve_refines [OF rel(1), where path = path and flags = flags] unfolding rel(2) by blast
  have ok: "ramfs_ok r" using c(2) by (simp add: extends_def)
  have tab: "table_rel a r t D" by (rule table_rel_extends [OF rel(3) c(2)])
  obtain ar F' where ar: "a_resolve F path flags = (ar, F')" by (cases "a_resolve F path flags")
  have F': "F' = ramfs_files r" using c(3) ar by simp
  have rel': "vfs_rel a (t, R(a := r)) (F', D)" using ok tab F' by (simp add: vfs_rel_def)
  show ?thesis
  proof (cases ar)
    case (Inl e)
    then have "res = Inl e" using c(4) ar by simp
    then show ?thesis
      using rel' Inl ar c(1) by (simp add: mcs_vfs_open_def Let_def norm_flags_def [symmetric] a_open_def flags_def [symmetric])
  next
    case (Inr x)
    then obtain n where n: "res = Inr n" "target_node r x = Some n" using c(5) ar by auto
    have dir: "v_type (nodes r ! n) = MCS_VNODE_DIR \<longleftrightarrow> x = None"
      using n(2) target_root [of r n] root_type [OF ok] target_file(3) [OF ok] is_file_node(1) [OF ok, of n] by (cases x) auto
    have sz: "v_size (nodes r ! n) = (case x of None \<Rightarrow> 0 | Some nm \<Rightarrow> snd (the (F' nm)))"
      using n(2) target_root [of r n] ramfs_okD(5) [OF ok] target_file(4) [OF ok] F' by (cases x) (auto simp: root_ok_def)
    note conc = open_at_node [where R = R, OF tab c(1) [unfolded n(1) flags_def] dir flags_def]
    note defs = conc a_open_def Let_def flags_def [symmetric]
    consider (none) "(x = None \<and> mcs_can_write flags) \<or> a_free D = None"
      | (some) i where "a_free D = Some i" "\<not> (x = None \<and> mcs_can_write flags)" by fastforce
    then show ?thesis
    proof cases
      case none
      then show ?thesis using rel' ar Inr by (auto simp: defs)
    next
      case some
      have i: "i < 16" "D i = None" using fd_alloc_rel(2) [OF tab some(1)] by auto
      consider (plain) "flags AND MCS_O_TRUNC = 0" | (acc) "flags AND MCS_O_TRUNC \<noteq> 0" "\<not> mcs_can_write flags"
        | (tr) nm where "flags AND MCS_O_TRUNC \<noteq> 0" "mcs_can_write flags" "x = Some nm" using some(2) by (cases x) auto
      then show ?thesis
      proof cases
        case plain
        then show ?thesis
          using opened_slot [OF tab i(1) n(2)] ok F' some ar Inr sz by (auto simp: defs vfs_rel_def)
      next
        case acc
        then show ?thesis using refused_slot [OF tab i] ok F' some ar Inr by (auto simp: defs vfs_rel_def)
      next
        case tr
        then show ?thesis
          using opened_truncated [OF rel' i(1) n(2) [unfolded tr(3)]] some ar Inr by (simp add: defs)
      qed
    qed
  qed
qed

interpretation vs: simulation "vfs_rel a" "vfs_exec a" a_exec for a
proof (unfold_locales, goal_cases)
  case (1 s as c)
  obtain t R F D where s: "s = (t, R)" "as = (F, D)" by (cases s, cases as)
  then have rel: "vfs_rel a (t, R) (F, D)" using 1 by simp
  show ?case
    unfolding s
    using open_simulates [OF rel] read_simulates [OF rel] write_simulates [OF rel] lseek_simulates [OF rel]
      close_simulates [OF rel] dup_simulates [OF rel]
    by (cases c) (simp_all only: a_exec.simps)
qed

lemma init_rel:
  assumes "ramfs_shape r" "mcs_ramfs_init (Some r) = Some r'" "mcs_fd_table_init (Some t) = Some t'"
  shows "vfs_rel a (t', R(a := r')) (Map.empty, \<lambda>_. None)"
proof -
  have "ramfs_ok r'" "ramfs_files r' = Map.empty" using ramfs_init_ok [OF assms(1)] assms(2) by auto
  moreover have "table_rel a r' t' (\<lambda>_. None)"
    using assms(3) by (auto simp: mcs_fd_table_init_def table_rel_def desc_rel_def closed_file_def mcs_consts)
  ultimately show ?thesis by (simp add: vfs_rel_def)
qed

section \<open>Properties\<close>

text \<open>C37: the file calls implement the abstract files: from an initialised file system and descriptor table, any
  sequence of open, read, write, lseek, close and dup returns exactly the statuses and bytes of the model in which
  files are a map from names to contents and descriptors carry flags and offset, and the node table stays well
  formed.\<close>

theorem vfs_refines_files:
  assumes "ramfs_shape r" "mcs_ramfs_init (Some r) = Some r'" "mcs_fd_table_init (Some t) = Some t'"
  shows "fst (run_calls (vfs_exec a) cs (t', R(a := r'))) = fst (run_calls a_exec cs (Map.empty, \<lambda>_. None)) \<and>
    ramfs_ok (snd (snd (run_calls (vfs_exec a) cs (t', R(a := r')))) a) \<and>
    ramfs_files (snd (snd (run_calls (vfs_exec a) cs (t', R(a := r')))) a) =
      fst (snd (run_calls a_exec cs (Map.empty, \<lambda>_. None)))"
  using vs.runs_agree [OF init_rel [OF assms, of a R], of cs] by (auto simp: vfs_rel_def)

definition blank_table :: mcs_fd_table where
  "blank_table = \<lparr>files = replicate 16 closed_file\<rparr>"

lemma blank_table_init: "mcs_fd_table_init (Some blank_table) = Some blank_table"
  by (simp add: mcs_fd_table_init_def blank_table_def mcs_consts)

definition demo_calls :: "vfs_call list" where
  "demo_calls = [Call_open [47, 97] 0x304, Call_write 0 [1, 2, 3], Call_dup 0, Call_lseek 1 1 0, Call_read 1 8, Call_close 0,
     Call_read 0 1]"

lemma norm_flags_304: "norm_flags 0x304 = 0x304" "mcs_can_write 0x304" "mcs_can_read 0x304"
  by (simp_all add: norm_flags_def mcs_can_write_def mcs_can_read_def mcs_consts)

lemma a_free_empty: "a_free (\<lambda>_. None) = Some 0"
  by (simp add: a_free_def first_index_Some_iff)

lemma a_open_first:
  "a_open [47, 97] 0x304 (Map.empty, \<lambda>_. None) =
    (0, [[97] \<mapsto> (replicate 256 0, 0)], [0 \<mapsto> \<lparr>a_flags = 0x304, a_offset = 0, a_target = Some [97]\<rparr>])"
proof -
  have "a_lookup (Map.empty :: a_files) [47, 97] = Inl MCS_ENOENT"
    by (simp add: a_lookup_def path_target_def path_head_def path_rest_def cstr_def mcs_consts)
  then have "a_resolve Map.empty [47, 97] 0x304 = (Inr (Some [97]), [[97] \<mapsto> (replicate 256 0, 0)])"
    by (simp add: a_resolve_def path_a mcs_consts)
  then show ?thesis
    by (simp add: a_open_def norm_flags_304 a_free_empty Let_def mcs_consts)
qed

theorem vfs_refines_files_witness:
  "\<exists>r'. mcs_ramfs_init (Some blank_ramfs) = Some r' \<and>
     fst (run_calls (vfs_exec 0) demo_calls (blank_table, \<lambda>_. r')) =
       [(0, []), (3, []), (1, []), (1, []), (2, [2, 3]), (0, []), (- 9, [])]"
proof -
  obtain r' where r': "mcs_ramfs_init (Some blank_ramfs) = Some r'" using ramfs_init_ok [OF blank_ramfs_shape] by blast
  have dup: "a_free [0 \<mapsto> d] = Some 1" for d :: a_desc by (simp add: a_free_def first_index_Some_iff)
  have "(\<lambda>_. r')(0 := r') = (\<lambda>_ :: nat. r')" by auto
  then show ?thesis
    using vfs_refines_files [OF blank_ramfs_shape r' blank_table_init, of 0 demo_calls "\<lambda>_. r'"] r'
    by (simp add: demo_calls_def a_open_first a_write_def a_read_def a_lseek_def a_close_def a_dup_def a_get_def dup
        norm_flags_304 Let_def mcs_consts to_long_def to_int_def slice_def patch_def)
qed

lemma a_resolve_negative: "a_resolve F path flags = (Inl rc, F1) \<Longrightarrow> rc < 0"
  by (auto simp: a_resolve_def a_create_def a_lookup_def path_target_def Let_def mcs_consts
      split: sum.splits option.splits if_splits prod.splits)

lemma a_open_rw:
  assumes "a_open path 0x304 (F, D) = (rc, F1, D1)" "0 \<le> rc"
  obtains nm buf where "nat rc < 16" "F1 nm = Some (buf, 0)"
    "D1 (nat rc) = Some \<lparr>a_flags = 0x304, a_offset = 0, a_target = Some nm\<rparr>"
  using assms
  by (auto simp: a_open_def norm_flags_304 Let_def a_free_def mcs_consts split: prod.splits sum.splits option.splits if_splits
      dest: first_index_SomeD a_resolve_negative)

lemma a_write_seek_read:
  assumes "F nm = Some (buf, 0)" "length buf = 256" "D i = Some \<lparr>a_flags = 0x304, a_offset = 0, a_target = Some nm\<rparr>"
    "i < 16" "length bs \<le> 256"
  shows "fst (run_calls a_exec [Call_write (int i) bs, Call_lseek (int i) 0 0, Call_read (int i) n] (F, D)) =
    [(int (length bs), []), (0, []), (int (min n (length bs)), take n bs)]"
proof -
  have ng: "\<not> (16 :: nat) \<le> i" "(0x304 :: u32) AND MCS_O_APPEND = 0" using assms(4) by (simp_all add: mcs_consts)
  have w: "a_write (int i) bs (F, D) =
      (int (length bs), F(nm \<mapsto> (patch 0 bs buf, length bs)), D(i \<mapsto> \<lparr>a_flags = 0x304, a_offset = length bs, a_target = Some nm\<rparr>))"
    using assms ng by (simp add: a_write_def a_get_def Let_def norm_flags_304)
  have sl: "slice 0 (min n (length bs)) (patch 0 bs buf) = take n bs" using assms(2,5) by (simp add: slice_def patch_def min_def)
  show ?thesis
    using assms ng sl
    by (auto simp: w a_lseek_def a_read_def a_get_def Let_def norm_flags_304 to_long_def to_int_def)
qed

text \<open>round trip through the file calls: after any history of calls, if opening a path for reading and writing
  with creation and truncation answers a descriptor, then writing at most 256 bytes, seeking back to the start and
  reading returns exactly these bytes (the first \<open>n\<close> of them when \<open>n\<close> are asked for).\<close>

theorem vfs_roundtrip:
  assumes "ramfs_shape r" "mcs_ramfs_init (Some r) = Some r'" "mcs_fd_table_init (Some t) = Some t'"
    and "vfs_exec a (Call_open path 0x304) (snd (run_calls (vfs_exec a) cs (t', R(a := r')))) = ((fd, out), s)" "0 \<le> fd"
    and "length bs \<le> 256"
  shows "fst (run_calls (vfs_exec a) [Call_write fd bs, Call_lseek fd 0 0, Call_read fd n] s) =
    [(int (length bs), []), (0, []), (int (min n (length bs)), take n bs)]"
proof -
  let ?s0 = "snd (run_calls (vfs_exec a) cs (t', R(a := r')))" and ?a0 = "snd (run_calls a_exec cs (Map.empty, \<lambda>_. None))"
  have rel: "vfs_rel a ?s0 ?a0" using vs.runs_agree [OF init_rel [OF assms(1-3), of a R], of cs] by blast
  note sim = vs.simulates [OF rel, of "Call_open path 0x304"]
  obtain F D where a0: "?a0 = (F, D)" by (cases ?a0)
  obtain rc F1 D1 where o: "a_open path 0x304 (F, D) = (rc, F1, D1)" by (cases "a_open path 0x304 (F, D)")
  have rc: "rc = fd" and rel1: "vfs_rel a s (F1, D1)" using sim assms(4) o unfolding a0 by simp_all
  obtain nm buf where f: "nat fd < 16" "F1 nm = Some (buf, 0)"
    "D1 (nat fd) = Some \<lparr>a_flags = 0x304, a_offset = 0, a_target = Some nm\<rparr>"
    using a_open_rw [OF o [unfolded rc] assms(5)] by blast
  have "length buf = 256"
    using rel1 f(2) region_bounds(5) node_of_is_file by (auto simp: vfs_rel_def ramfs_files_def file_at_def split: if_splits)
  then show ?thesis
    using vs.runs_agree [OF rel1, of "[Call_write fd bs, Call_lseek fd 0 0, Call_read fd n]"]
      a_write_seek_read [where F = F1 and D = D1 and n = n, OF f(2) _ f(3,1) assms(6)] assms(5) by simp
qed

theorem vfs_roundtrip_witness:
  "\<exists>r' s. mcs_ramfs_init (Some blank_ramfs) = Some r' \<and>
     vfs_exec 0 (Call_open [47, 97] 0x304) (blank_table, \<lambda>_. r') = ((0, []), s) \<and>
     fst (run_calls (vfs_exec 0) [Call_write 0 [7, 8], Call_lseek 0 0 0, Call_read 0 5] s) = [(2, []), (0, []), (2, [7, 8])]"
proof -
  obtain r' where r': "mcs_ramfs_init (Some blank_ramfs) = Some r'" using ramfs_init_ok [OF blank_ramfs_shape] by blast
  have self: "(\<lambda>_. r')(0 := r') = (\<lambda>_ :: nat. r')" by auto
  note rel = init_rel [OF blank_ramfs_shape r' blank_table_init, of 0 "\<lambda>_. r'", unfolded self]
  obtain s where s: "vfs_exec 0 (Call_open [47, 97] 0x304) (blank_table, \<lambda>_. r') = ((0, []), s)"
    using open_simulates [OF rel, of "[47, 97]" "0x304"] by (auto simp: a_open_first simp del: vfs_exec.simps) (metis prod.collapse)
  have "fst (run_calls (vfs_exec 0) [Call_write 0 [7, 8], Call_lseek 0 0 0, Call_read 0 5] s) = [(2, []), (0, []), (2, [7, 8])]"
    using vfs_roundtrip [OF blank_ramfs_shape r' blank_table_init, of 0 "[47, 97]" "[]" "\<lambda>_. r'" 0 "[]" s "[7, 8]" 5] s
    by (simp add: self del: vfs_exec.simps run_calls.simps(2))
  then show ?thesis using r' s by blast
qed

lemma a_open_existing:
  assumes "F [97] = Some (buf, sz)"
  shows "a_open [47, 97] 0x304 (F, \<lambda>_. None) =
    (0, F([97] \<mapsto> (buf, 0)), [0 \<mapsto> \<lparr>a_flags = 0x304, a_offset = 0, a_target = Some [97]\<rparr>])"
proof -
  have "a_lookup F [47, 97] = Inr (Some [97])"
    using assms by (simp add: a_lookup_def path_target_def path_head_def path_rest_def cstr_def mcs_consts)
  then show ?thesis
    using assms by (simp add: a_open_def a_resolve_def norm_flags_304 a_free_empty Let_def mcs_consts)
qed

lemma to_long_small: "0 \<le> x \<Longrightarrow> x < 2 ^ 63 \<Longrightarrow> to_long x = x"
  by (simp add: to_long_def)

lemma to_int_small: "0 \<le> x \<Longrightarrow> x < 2 ^ 31 \<Longrightarrow> to_int x = x"
  by (simp add: to_int_def)

text \<open>C38: truncation keeps the old bytes of the file: after a file with contents \<open>bs\<close> is truncated, seeking to its
  former end and writing one byte makes a read from the start return the old contents followed by the new byte, where
  the skipped range should read as zeros.\<close>

theorem vfs_truncate_keeps_bytes:
  assumes "ramfs_shape r" "mcs_ramfs_init (Some r) = Some r'" "mcs_fd_table_init (Some t) = Some t'" "length bs < 256"
  shows "fst (run_calls (vfs_exec a) [Call_open [47, 97] 0x304, Call_write 0 bs, Call_close 0, Call_open [47, 97] 0x304,
      Call_lseek 0 (int (length bs)) 0, Call_write 0 [c], Call_lseek 0 0 0, Call_read 0 (length bs + 1)] (t', R(a := r'))) =
    [(0, []), (int (length bs), []), (0, []), (0, []), (int (length bs), []), (1, []), (0, []),
     (int (length bs) + 1, bs @ [c])]"
proof -
  let ?D = "\<lambda>k. [0 :: nat \<mapsto> \<lparr>a_flags = 0x304, a_offset = k, a_target = Some [97]\<rparr>]" and ?z = "replicate 256 0 :: bytes"
  have ap: "(0x304 :: u32) AND MCS_O_APPEND = 0" by (simp add: mcs_consts)
  have none: "(?D k)(0 := None) = (\<lambda>_. None)" for k by auto
  have w: "a_write 0 xs ([[97] \<mapsto> (buf, sz)], ?D k) =
      (int (length xs), [[97] \<mapsto> (patch k xs buf, max sz (k + length xs))], ?D (k + length xs))"
    if "k + length xs \<le> 256" for xs buf sz k
    using that by (simp add: a_write_def a_get_def Let_def norm_flags_304 ap)
  have l: "a_lseek 0 (int j) 0 (F, ?D k) = (int j, F, ?D j)" if "j \<le> 256" for j k F
    using that by (simp add: a_lseek_def a_get_def Let_def to_long_small to_int_small)
  have rd: "slice 0 (length bs + 1) (patch (length bs) [c] (patch 0 bs ?z)) = bs @ [c]"
    using assms(4) by (simp add: slice_def patch_def)
  note steps = a_open_first a_open_existing w l [of "length bs"] l [of 0, simplified] none
  show ?thesis
    unfolding vs.runs_agree [OF init_rel [OF assms(1-3)], THEN conjunct1]
    using assms(4) rd by (simp add: steps a_close_def a_get_def a_read_def norm_flags_304 mcs_consts Let_def del: vfs_exec.simps)
qed

theorem vfs_truncate_keeps_bytes_witness:
  "\<exists>r'. mcs_ramfs_init (Some blank_ramfs) = Some r' \<and>
    snd (last (fst (run_calls (vfs_exec 0) [Call_open [47, 97] 0x304, Call_write 0 [115, 51], Call_close 0,
      Call_open [47, 97] 0x304, Call_lseek 0 (int (length [115 :: u8, 51])) 0, Call_write 0 [33], Call_lseek 0 0 0,
      Call_read 0 (length [115 :: u8, 51] + 1)] (blank_table, (\<lambda>_. r')(0 := r'))))) = [115, 51, 33]"
proof -
  obtain r' where r': "mcs_ramfs_init (Some blank_ramfs) = Some r'" using ramfs_init_ok [OF blank_ramfs_shape] by blast
  show ?thesis
    by (intro exI [of _ r'] conjI r',
        subst vfs_truncate_keeps_bytes [OF blank_ramfs_shape r' blank_table_init]) simp_all
qed

text \<open>The result of \<open>lseek\<close> is truncated to \<open>int\<close>: seeking to an offset from 2 GiB up to 4 GiB answers a
  negative number, which callers take for an error, although the offset has been moved there, as the seek back by
  the same distance shows.\<close>

theorem vfs_lseek_truncates_result:
  assumes "ramfs_shape r" "mcs_ramfs_init (Some r) = Some r'" "mcs_fd_table_init (Some t) = Some t'"
    and "2 ^ 31 \<le> off" "off < 2 ^ 32"
  shows "fst (run_calls (vfs_exec a) [Call_open [47, 97] 0x304, Call_lseek 0 off 0, Call_lseek 0 (- off) 1] (t', R(a := r'))) =
      [(0, []), (off - 2 ^ 32, []), (0, [])] \<and> off - 2 ^ 32 < 0"
proof -
  let ?D = "\<lambda>k. [0 :: nat \<mapsto> \<lparr>a_flags = 0x304, a_offset = k, a_target = Some [97]\<rparr>]"
  have lo: "to_long off = off" using assms(4,5) by (simp add: to_long_def)
  have "(off + 2 ^ 31) mod 2 ^ 32 = (off + 2 ^ 31 - 2 ^ 32) mod 2 ^ 32" by (rule mod_pos_geq) (use assms(4) in auto)
  also have "\<dots> = off + 2 ^ 31 - 2 ^ 32" by (rule mod_pos_pos_trivial) (use assms(4,5) in auto)
  finally have li: "to_int off = off - 2 ^ 32" by (simp add: to_int_def)
  have "a_lseek 0 off 0 (F, ?D k) = (off - 2 ^ 32, F, ?D (nat off))" for k F
    using assms(4) by (simp add: a_lseek_def a_get_def Let_def lo li to_long_0)
  moreover have "a_lseek 0 (- off) 1 (F, ?D (nat off)) = (0, F, ?D 0)" for F
    using assms(4) by (simp add: a_lseek_def a_get_def Let_def lo to_long_0 to_int_def)
  ultimately show ?thesis
    unfolding vs.runs_agree [OF init_rel [OF assms(1-3)], THEN conjunct1]
    using assms(5) by (simp add: a_open_first)
qed

theorem vfs_lseek_truncates_result_witness:
  "\<exists>r'. mcs_ramfs_init (Some blank_ramfs) = Some r' \<and>
    fst (run_calls (vfs_exec 0) [Call_open [47, 97] 0x304, Call_lseek 0 (2 ^ 31) 0, Call_lseek 0 (- (2 ^ 31)) 1]
      (blank_table, (\<lambda>_. r')(0 := r'))) = [(0, []), (- (2 ^ 31), []), (0, [])]"
proof -
  obtain r' where r': "mcs_ramfs_init (Some blank_ramfs) = Some r'" using ramfs_init_ok [OF blank_ramfs_shape] by blast
  show ?thesis
    using vfs_lseek_truncates_result [OF blank_ramfs_shape r' blank_table_init, of "2 ^ 31" 0 "\<lambda>_. r'"] r'
    by (simp del: vfs_exec.simps run_calls.simps)
qed

section \<open>The self test\<close>

lemma sys_open_rel:
  assumes "vfs_rel a (fd_table p, R) s" "a_open path fl s = (rc, s')"
  obtains p' R' where "mcs_sys_open (Some p) R (Some a) (Some path) fl = (rc, Some p', R')" "vfs_rel a (fd_table p', R') s'"
proof -
  obtain rc' t' R' where c: "mcs_vfs_open (Some (fd_table p)) R (Some a) (Some path) fl = (rc', t', R')"
    by (cases "mcs_vfs_open (Some (fd_table p)) R (Some a) (Some path) fl")
  then show thesis
    using that [of "p\<lparr>fd_table := the t'\<rparr>" R'] vs.simulates [OF assms(1), of "Call_open path fl"] assms(2)
    by (simp add: mcs_sys_open_def with_table_def)
qed

lemma sys_read_rel:
  assumes "vfs_rel a (fd_table p, R) s" "a_read fd len s = ((rc, out), s')"
  obtains buf' p' where "mcs_sys_read (Some p) R fd (Some buf) len = (rc, Some buf', Some p')" "vfs_rel a (fd_table p', R) s'"
proof -
  obtain rc' b' t' where c: "mcs_vfs_read (Some (fd_table p)) R fd (Some (replicate len 0)) len = (rc', b', t')"
    by (cases "mcs_vfs_read (Some (fd_table p)) R fd (Some (replicate len 0)) len")
  have "\<exists>b. mcs_vfs_read (Some (fd_table p)) R fd (Some buf) len = (rc', Some b, t')"
    using c by (auto simp: mcs_vfs_read_def Let_def mcs_copy_to_user_def split: option.splits if_splits)
  then obtain b where "mcs_vfs_read (Some (fd_table p)) R fd (Some buf) len = (rc', Some b, t')" by blast
  then show thesis
    using that [of b "p\<lparr>fd_table := the t'\<rparr>"] vs.simulates [OF assms(1), of "Call_read fd len"] assms(2) c
    by (simp add: mcs_sys_read_def with_table_def)
qed

lemma sys_write_rel:
  assumes "vfs_rel a (fd_table p, R) s" "a_write fd bs s = (rc, s')"
  obtains p' R' where "mcs_sys_write (Some p) R fd (Some bs) (length bs) = (rc, Some p', R')" "vfs_rel a (fd_table p', R') s'"
proof -
  obtain rc' t' R' where c: "mcs_vfs_write (Some (fd_table p)) R fd (Some bs) (length bs) = (rc', t', R')"
    by (cases "mcs_vfs_write (Some (fd_table p)) R fd (Some bs) (length bs)")
  then show thesis
    using that [of "p\<lparr>fd_table := the t'\<rparr>" R'] vs.simulates [OF assms(1), of "Call_write fd bs"] assms(2)
    by (simp add: mcs_sys_write_def with_table_def)
qed

lemma sys_lseek_rel:
  assumes "vfs_rel a (fd_table p, R) s" "a_lseek fd off w s = (rc, s')"
  obtains p' where "mcs_sys_lseek (Some p) R fd off w = (rc, Some p')" "vfs_rel a (fd_table p', R) s'"
proof -
  obtain rc' t' where c: "mcs_vfs_lseek (Some (fd_table p)) R fd off w = (rc', t')"
    by (cases "mcs_vfs_lseek (Some (fd_table p)) R fd off w")
  then show thesis
    using that [of "p\<lparr>fd_table := the t'\<rparr>"] vs.simulates [OF assms(1), of "Call_lseek fd off w"] assms(2)
    by (simp add: mcs_sys_lseek_def with_table_def)
qed

lemma sys_close_rel:
  assumes "vfs_rel a (fd_table p, R) s" "a_close fd s = (rc, s')"
  obtains p' where "mcs_sys_close (Some p) fd = (rc, Some p')" "vfs_rel a (fd_table p', R) s'"
proof -
  obtain rc' t' where c: "mcs_vfs_close (Some (fd_table p)) fd = (rc', t')"
    by (cases "mcs_vfs_close (Some (fd_table p)) fd")
  then show thesis
    using that [of "p\<lparr>fd_table := the t'\<rparr>"] vs.simulates [OF assms(1), of "Call_close fd"] assms(2)
    by (simp add: mcs_sys_close_def with_table_def)
qed

lemma path_bytes:
  "cbytes ''/hello.txt'' = [47, 104, 101, 108, 108, 111, 46, 116, 120, 116]"
  "cbytes ''/missing.txt'' = [47, 109, 105, 115, 115, 105, 110, 103, 46, 116, 120, 116]"
  "cbytes ''/log.txt'' = [47, 108, 111, 103, 46, 116, 120, 116]"
  by (simp_all add: cbytes_def)

text \<open>A path of one component, evaluated.\<close>

lemma one_component:
  assumes "name_valid nm" "length nm < 100"
  shows "path_target (47 # nm) = Inr nm" "path_head nm = nm" "path_rest nm = []"
    "a_lookup F (47 # nm) = (if F nm = None then Inl MCS_ENOENT else Inr (Some nm))"
proof -
  have c: "cstr (47 # nm) = 47 # nm"
    using name_validD(3) [OF assms(1)] by (auto simp: cstr_def takeWhile_eq_all_conv)
  show t: "path_target (47 # nm) = Inr nm" using assms(2) by (simp add: path_target_def c MCS_MAX_PATH_def)
  show h: "path_head nm = nm" using name_validD(4) [OF assms(1)] by (auto simp: path_head_def takeWhile_eq_all_conv)
  then show r: "path_rest nm = []" by (simp add: path_rest_def)
  show "a_lookup F (47 # nm) = (if F nm = None then Inl MCS_ENOENT else Inr (Some nm))"
    using name_validD(1,2) [OF assms(1)] by (simp add: a_lookup_def t h r MCS_MAX_NAME_def)
qed

text \<open>Opening in an empty table.\<close>

lemma a_open_existing_plain:
  assumes "name_valid nm" "length nm < 100" "F nm = Some f"
  shows "a_open (47 # nm) MCS_O_RDONLY (F, \<lambda>_. None) =
    (0, F, [0 \<mapsto> \<lparr>a_flags = MCS_O_RDONLY, a_offset = 0, a_target = Some nm\<rparr>])"
  using one_component(4) [OF assms(1,2), of F] assms(3)
  by (simp add: a_open_def a_resolve_def norm_flags_def mcs_can_write_def a_free_empty Let_def mcs_consts)

lemma a_open_missing:
  assumes "name_valid nm" "length nm < 100" "F nm = None"
  shows "a_open (47 # nm) MCS_O_RDONLY (F, D) = (MCS_ENOENT, F, D)"
  using one_component(4) [OF assms(1,2), of F] assms(3)
  by (simp add: a_open_def a_resolve_def norm_flags_def Let_def mcs_consts)

lemma a_open_new:
  assumes "name_valid nm" "length nm < 100" "F nm = None" "card (dom F) < 32"
  shows "a_open (47 # nm) 0x304 (F, \<lambda>_. None) =
    (0, F(nm \<mapsto> (replicate 256 0, 0)), [0 \<mapsto> \<lparr>a_flags = 0x304, a_offset = 0, a_target = Some nm\<rparr>])"
proof -
  note o = one_component [OF assms(1,2)]
  have "a_create F (47 # nm) = (Inr nm, F(nm \<mapsto> (replicate 256 0, 0)))"
    using assms(3,4) by (simp add: a_create_def o)
  then show ?thesis
    using assms(3) o(4) [of F] by (simp add: a_open_def a_resolve_def norm_flags_304 a_free_empty Let_def mcs_consts)
qed

text \<open>The two halves of the self test on the abstract state: reading the seeded file, and writing a new one.\<close>

abbreviation one_desc :: "u32 \<Rightarrow> nat \<Rightarrow> bytes \<Rightarrow> nat \<Rightarrow> a_desc option" where
  "one_desc fl k nm \<equiv> [0 \<mapsto> \<lparr>a_flags = fl, a_offset = k, a_target = Some nm\<rparr>]"

lemma selftest_reads:
  assumes rel: "vfs_rel a (fd_table p0, R) (F, \<lambda>_. None)" and F: "F hn = Some (c, 11)" "F mn = None" "length c = 256"
    and names: "name_valid hn" "length hn < 100" "name_valid mn" "length mn < 100"
  obtains p1 R1 b2 p2 p3 b4 p4 p5 R5 where
    "mcs_sys_open (Some p0) R (Some a) (Some (47 # hn)) MCS_O_RDONLY = (0, Some p1, R1)"
    "mcs_sys_read (Some p1) R1 0 (Some (replicate 16 0)) 5 = (5, Some b2, Some p2)"
    "mcs_sys_close (Some p2) 0 = (MCS_OK, Some p3)"
    "mcs_sys_read (Some p3) R1 0 (Some b2) 1 = (MCS_EBADF, Some b4, Some p4)"
    "mcs_sys_open (Some p4) R1 (Some a) (Some (47 # mn)) MCS_O_RDONLY = (MCS_ENOENT, Some p5, R5)"
    "vfs_rel a (fd_table p5, R5) (F, \<lambda>_. None)"
proof -
  have ro: "mcs_can_read MCS_O_RDONLY" by (simp add: mcs_can_read_def mcs_consts)
  have "a_open (47 # hn) MCS_O_RDONLY (F, \<lambda>_. None) = (0, F, one_desc MCS_O_RDONLY 0 hn)"
    by (rule a_open_existing_plain [OF names(1,2)]) (simp add: F)
  from sys_open_rel [OF rel this] obtain p1 R1 where
    s1: "mcs_sys_open (Some p0) R (Some a) (Some (47 # hn)) MCS_O_RDONLY = (0, Some p1, R1)"
    "vfs_rel a (fd_table p1, R1) (F, one_desc MCS_O_RDONLY 0 hn)" .
  have "a_read 0 5 (F, one_desc MCS_O_RDONLY 0 hn) = ((5, slice 0 5 c), F, one_desc MCS_O_RDONLY 5 hn)"
    by (simp add: a_read_def a_get_def ro F)
  from sys_read_rel [OF s1(2) this, of "replicate 16 0"] obtain b2 p2 where
    s2: "mcs_sys_read (Some p1) R1 0 (Some (replicate 16 0)) 5 = (5, Some b2, Some p2)"
    "vfs_rel a (fd_table p2, R1) (F, one_desc MCS_O_RDONLY 5 hn)" .
  have none: "(one_desc fl k nm)(0 := None) = (\<lambda>_. None)" for fl k nm by auto
  have "a_close 0 (F, one_desc MCS_O_RDONLY 5 hn) = (MCS_OK, F, \<lambda>_. None)" by (simp add: a_close_def a_get_def none)
  from sys_close_rel [OF s2(2) this] obtain p3 where
    s3: "mcs_sys_close (Some p2) 0 = (MCS_OK, Some p3)" "vfs_rel a (fd_table p3, R1) (F, \<lambda>_. None)" .
  have "a_read 0 1 (F, \<lambda>_. None) = ((MCS_EBADF, []), F, \<lambda>_. None)" by (simp add: a_read_def a_get_def)
  from sys_read_rel [OF s3(2) this, of b2] obtain b4 p4 where
    s4: "mcs_sys_read (Some p3) R1 0 (Some b2) 1 = (MCS_EBADF, Some b4, Some p4)" "vfs_rel a (fd_table p4, R1) (F, \<lambda>_. None)" .
  have "a_open (47 # mn) MCS_O_RDONLY (F, \<lambda>_. None) = (MCS_ENOENT, F, \<lambda>_. None)"
    by (rule a_open_missing [OF names(3,4)]) (simp add: F)
  from sys_open_rel [OF s4(2) this] obtain p5 R5 where
    s5: "mcs_sys_open (Some p4) R1 (Some a) (Some (47 # mn)) MCS_O_RDONLY = (MCS_ENOENT, Some p5, R5)"
    "vfs_rel a (fd_table p5, R5) (F, \<lambda>_. None)" .
  show thesis by (rule that [OF s1(1) s2(1) s3(1) s4(1) s5])
qed

lemma selftest_writes:
  assumes rel: "vfs_rel a (fd_table p5, R5) (F, \<lambda>_. None)" and F: "F = [hn \<mapsto> f]" "ln \<noteq> hn"
    and names: "name_valid ln" "length ln < 100"
  obtains p6 R6 p7 R7 p8 b9 p9 p10 where
    "mcs_sys_open (Some p5) R5 (Some a) (Some (47 # ln)) 0x304 = (0, Some p6, R6)"
    "mcs_sys_write (Some p6) R6 0 (Some (cbytes ''OK13'')) 4 = (4, Some p7, R7)"
    "mcs_sys_lseek (Some p7) R7 0 0 MCS_SEEK_SET = (0, Some p8)"
    "mcs_sys_read (Some p8) R7 0 (Some (replicate 16 0)) 4 = (4, Some b9, Some p9)"
    "mcs_sys_close (Some p9) 0 = (MCS_OK, Some p10)"
    "vfs_rel a (fd_table p10, R7) (F(ln \<mapsto> (patch 0 (cbytes ''OK13'') (replicate 256 0), 4)), \<lambda>_. None)"
proof -
  let ?z = "replicate 256 0 :: bytes"
  have l4: "length (cbytes ''OK13'') = 4" by (simp add: cbytes_def)
  have ro: "(0x304 :: u32) AND MCS_O_APPEND = 0" by (simp add: mcs_consts)
  let ?F2 = "F(ln \<mapsto> (?z, 0))"
  have "a_open (47 # ln) 0x304 (F, \<lambda>_. None) = (0, ?F2, one_desc 0x304 0 ln)"
    by (rule a_open_new [OF names]) (simp_all add: F)
  from sys_open_rel [OF rel this] obtain p6 R6 where
    s6: "mcs_sys_open (Some p5) R5 (Some a) (Some (47 # ln)) 0x304 = (0, Some p6, R6)"
    "vfs_rel a (fd_table p6, R6) (?F2, one_desc 0x304 0 ln)" .
  let ?F3 = "?F2(ln \<mapsto> (patch 0 (cbytes ''OK13'') ?z, 4))"
  have "a_write 0 (cbytes ''OK13'') (?F2, one_desc 0x304 0 ln) = (4, ?F3, one_desc 0x304 4 ln)"
    using l4 by (simp add: a_write_def a_get_def Let_def norm_flags_304 ro)
  from sys_write_rel [OF s6(2) this] obtain p7 R7 where
    s7: "mcs_sys_write (Some p6) R6 0 (Some (cbytes ''OK13'')) 4 = (4, Some p7, R7)"
    "vfs_rel a (fd_table p7, R7) (?F3, one_desc 0x304 4 ln)" unfolding l4 .
  have "a_lseek 0 0 MCS_SEEK_SET (?F3, one_desc 0x304 4 ln) = (0, ?F3, one_desc 0x304 0 ln)"
    by (simp add: a_lseek_def a_get_def MCS_SEEK_SET_def to_long_def to_int_def)
  from sys_lseek_rel [OF s7(2) this] obtain p8 where
    s8: "mcs_sys_lseek (Some p7) R7 0 0 MCS_SEEK_SET = (0, Some p8)" "vfs_rel a (fd_table p8, R7) (?F3, one_desc 0x304 0 ln)" .
  have "a_read 0 4 (?F3, one_desc 0x304 0 ln) = ((4, slice 0 4 (patch 0 (cbytes ''OK13'') ?z)), ?F3, one_desc 0x304 4 ln)"
    by (simp add: a_read_def a_get_def norm_flags_304)
  from sys_read_rel [OF s8(2) this, of "replicate 16 0"] obtain b9 p9 where
    s9: "mcs_sys_read (Some p8) R7 0 (Some (replicate 16 0)) 4 = (4, Some b9, Some p9)"
      "vfs_rel a (fd_table p9, R7) (?F3, one_desc 0x304 4 ln)" .
  have "a_close 0 (?F3, one_desc 0x304 4 ln) = (MCS_OK, ?F3, \<lambda>_. None)"
    by (simp add: a_close_def a_get_def fun_upd_idem)
  from sys_close_rel [OF s9(2) this] obtain p10 where
    s10: "mcs_sys_close (Some p9) 0 = (MCS_OK, Some p10)" "vfs_rel a (fd_table p10, R7) (?F3, \<lambda>_. None)" .
  show thesis by (rule that [OF s6(1) s7(1) s8(1) s9(1) s10(1) s10(2) [unfolded fun_upd_upd]])
qed

text \<open>The lines a passing self test logs and the files it leaves.\<close>

definition m13_lines :: "string list" where
  "m13_lines = [''[M13] VFS/RAMFS kernel selftest begin'', ''[M13] ramfs init: OK'', ''[M13] seed_file /hello.txt: OK'',
     ''[M13] sys_open /hello.txt: OK'', ''[M13] sys_read 5 bytes: OK'', ''[M13] sys_close: OK'', ''[M13] EBADF after close: OK'',
     ''[M13] ENOENT missing file: OK'', ''[M13] create/write/lseek/read /log.txt: OK'', ''[M13] VFS/RAMFS kernel selftest: PASS'']"

definition m13_files :: a_files where
  "m13_files = [cbytes ''hello.txt'' \<mapsto> (patch 0 (cbytes ''hello-mcsos'') (replicate 256 0), 11),
     cbytes ''log.txt'' \<mapsto> (patch 0 (cbytes ''OK13'') (replicate 256 0), 4)]"

text \<open>The self test of the virtual file system passes: whatever the memory of its static file system and process
  holds, it runs through every step to the line that reports success, and leaves its two files and no open descriptor.\<close>

theorem vfs_selftest_passes:
  assumes "ramfs_shape (R a)"
  shows "\<exists>p' R'. m13_vfs_kernel_selftest a p R = (m13_lines, Some p', R') \<and> vfs_rel a (fd_table p', R') (m13_files, \<lambda>_. None)"
proof -
  let ?z = "replicate 256 0 :: bytes" and ?hello = "cbytes ''hello-mcsos''"
  define hn where "hn = tl (cbytes ''/hello.txt'')"
  define mn where "mn = tl (cbytes ''/missing.txt'')"
  define ln where "ln = tl (cbytes ''/log.txt'')"
  have names: "name_valid hn" "name_valid mn" "name_valid ln" "length hn < 100" "length mn < 100" "length ln < 100"
    "cbytes ''/hello.txt'' = 47 # hn" "cbytes ''/missing.txt'' = 47 # mn" "cbytes ''/log.txt'' = 47 # ln"
    "mn \<noteq> hn" "ln \<noteq> hn"
    by (simp_all add: hn_def mn_def ln_def path_bytes name_valid_def MCS_MAX_NAME_def)
  have hl: "length ?hello = 11" by (simp add: cbytes_def)
  obtain r0 where r0: "mcs_ramfs_init (Some (R a)) = Some r0" "ramfs_ok r0" "ramfs_files r0 = Map.empty"
    using ramfs_init_ok [OF assms] .
  have cr: "a_create Map.empty (47 # hn) = (Inr hn, [hn \<mapsto> (?z, 0)])"
    by (simp add: a_create_def one_component [OF names(1,4)])
  let ?F = "[hn \<mapsto> (patch 0 ?hello ?z, 11 :: nat)]"
  obtain r1 where r1: "mcs_ramfs_seed_file (Some r0) (Some (47 # hn)) (Some ?hello) 11 = (MCS_OK, Some r1)" "ramfs_ok r1"
    "ramfs_files r1 = ?F"
    using seed_refines [OF r0(2) hl, of "47 # hn"] by (auto simp: r0(3) cr)
  let ?p0 = "p\<lparr>pid := 0xD, fd_table := the (mcs_fd_table_init (Some (fd_table p)))\<rparr>" and ?R = "R(a := r1)"
  have rel0: "vfs_rel a (fd_table ?p0, ?R) (?F, \<lambda>_. None)"
    using r1 by (simp add: vfs_rel_def mcs_fd_table_init_def table_rel_def desc_rel_def closed_file_def mcs_consts)
  obtain p1 R1 b2 p2 p3 b4 p4 p5 R5 where r:
    "mcs_sys_open (Some ?p0) ?R (Some a) (Some (47 # hn)) MCS_O_RDONLY = (0, Some p1, R1)"
    "mcs_sys_read (Some p1) R1 0 (Some (replicate 16 0)) 5 = (5, Some b2, Some p2)"
    "mcs_sys_close (Some p2) 0 = (MCS_OK, Some p3)"
    "mcs_sys_read (Some p3) R1 0 (Some b2) 1 = (MCS_EBADF, Some b4, Some p4)"
    "mcs_sys_open (Some p4) R1 (Some a) (Some (47 # mn)) MCS_O_RDONLY = (MCS_ENOENT, Some p5, R5)"
    "vfs_rel a (fd_table p5, R5) (?F, \<lambda>_. None)"
    by (rule selftest_reads [OF rel0, of hn "patch 0 ?hello ?z" mn]) (use names hl in simp_all)
  obtain p6 R6 p7 R7 p8 b9 p9 p10 where w:
    "mcs_sys_open (Some p5) R5 (Some a) (Some (47 # ln)) 0x304 = (0, Some p6, R6)"
    "mcs_sys_write (Some p6) R6 0 (Some (cbytes ''OK13'')) 4 = (4, Some p7, R7)"
    "mcs_sys_lseek (Some p7) R7 0 0 MCS_SEEK_SET = (0, Some p8)"
    "mcs_sys_read (Some p8) R7 0 (Some (replicate 16 0)) 4 = (4, Some b9, Some p9)"
    "mcs_sys_close (Some p9) 0 = (MCS_OK, Some p10)"
    "vfs_rel a (fd_table p10, R7) (?F(ln \<mapsto> (patch 0 (cbytes ''OK13'') ?z, 4)), \<lambda>_. None)"
    by (rule selftest_writes [OF r(6) refl names(11,3,6)])
  have fl: "MCS_O_CREAT OR MCS_O_RDWR OR MCS_O_TRUNC = 0x304" by (simp add: mcs_consts)
  have RR: "(R(a := r0))(a := r1) = ?R" by simp
  have "m13_vfs_kernel_selftest a p R = (m13_lines, Some p10, R7)"
    unfolding m13_vfs_kernel_selftest_def Let_def fl names(7-9) hl(1) r0(1) option.sel fun_upd_same r1(1) prod.case RR
    by (simp add: r(1-3) r(4) [simplified] r(5) w(1-5) split_beta m13_lines_def)
  moreover have "?F(ln \<mapsto> (patch 0 (cbytes ''OK13'') ?z, 4)) = m13_files"
    by (simp add: m13_files_def hn_def ln_def cbytes_def)
  ultimately show ?thesis using w(6) by auto
qed

theorem vfs_selftest_passes_witness:
  "fst (m13_vfs_kernel_selftest 0 \<lparr>pid = 0, fd_table = blank_table\<rparr> (\<lambda>_. blank_ramfs)) = m13_lines"
  using vfs_selftest_passes [of "\<lambda>_. blank_ramfs" 0 "\<lparr>pid = 0, fd_table = blank_table\<rparr>"] blank_ramfs_shape by auto

end
