(* ===== verification/Boot.thy ===== *)
theory Boot
  imports Interrupts Lockdep Locks Block Syscall Elf Vfs
begin

text \<open>
  The start of the kernel: \<open>_start\<close> (\<open>kernel/core/entry.c\<close>) and \<open>kmain\<close> (\<open>kernel/core/kmain.c\<close>), with the
  optional breakpoint and panic tests (\<open>m4_options\<close>) and the self tests it calls: \<open>m12_sync_selftest\<close>
  (\<open>kernel/sync/m12_selftest.c\<close>), \<open>m14_block_demo_init\<close> (\<open>kernel/block/block_demo.c\<close>) and those of the theories \<open>Elf\<close>
  and \<open>Vfs\<close>. The state is the machine and the static objects the self tests work on.

  From \<open>cpu_sti\<close> on timer interrupts arrive: at the points between the statements, as many as the argument \<open>arrivals\<close>
  says. The handler touches the machine only, so that between statements that do not use the machine one point is enough.
  The points leave out the inside of \<open>log_writeln\<close>, where the lock is held and the handler spins forever (theory
  \<open>Interrupts\<close>), and the inside of the handler of the breakpoint test.
\<close>

unbundle bit_operations_syntax

section \<open>State\<close>

record kernel =
  mach :: machine
  syscalls :: "machine syscall_state"
  m11_image :: bytes
  boot_stats_lock :: spinlock
  boot_lockdep :: lockdep_state
  boot_counter :: u64
  kernel_ramfs :: mcs_ramfs
  kernel_proc_m13 :: mcs_process
  blk_registry :: mcsos_blk_registry
  g_m14_ramdisk_storage :: bytes
  g_m14_ramdisk_dev :: "ram_store mcsos_blk_device"
  g_m14_ramdisk :: mcsos_ramblk

definition on_machine :: "prog \<Rightarrow> kernel program" where
  "on_machine p k = map_option (map_ending (\<lambda>w. k\<lparr>mach := w\<rparr>)) (p (mach k))"

section \<open>Self tests\<close>

definition m4_selftest :: "hardware \<Rightarrow> image_symbols \<Rightarrow> prog" where
  "m4_selftest hw syms =
     sequence
       [kernel_assert hw ''kernel/core/kmain.c'' 26 ''__kernel_end > __kernel_start'' (kernel_start syms < kernel_end syms),
        kernel_assert hw ''kernel/core/kmain.c'' 27 ''sizeof(uintptr_t) == 8u'' True,
        kernel_assert hw ''kernel/core/kmain.c'' 28 ''sizeof(x86_64_idt_entry_t) == 16u'' True,
        (\<lambda>w. kernel_assert hw ''kernel/core/kmain.c'' 29 ''x86_64_idt_base_for_test() != 0u'' (x86_64_idt_base_for_test w \<noteq> 0) w),
        (\<lambda>w. kernel_assert hw ''kernel/core/kmain.c'' 30 ''x86_64_idt_limit_for_test() == 4095u'' (x86_64_idt_limit_for_test w = 4095) w),
        log_writeln hw (Some ''[M4] selftest: IDT invariants passed'')]"

text \<open>The plan of \<open>m11_kernel_selftest\<close> is a local variable without initial value.\<close>

definition m11_plan_report :: "hardware \<Rightarrow> prog \<Rightarrow> m11_process_image_plan \<Rightarrow> kernel program" where
  "m11_plan_report hw irq plan k =
     (let rc = fst (m11_kernel_selftest (m11_image k) plan); k = k\<lparr>m11_image := m11_synthetic_image (m11_image k)\<rparr> in
      if rc \<noteq> M11_OK then
        on_machine (interruptible irq
          [log_write hw (Some ''[M11] plan_load FAILED: ''), log_writeln hw (Some (m11_error_name rc))]) k
      else
        on_machine (interruptible irq
          [log_writeln hw (Some ''[M11] elf: ident ok''), log_writeln hw (Some ''[M11] elf: phnum=1''),
           log_writeln hw (Some ''[M11] elf: load segment vaddr=0x400000 filesz=16 memsz=4096 flags=0x5''),
           log_writeln hw (Some ''[M11] elf: plan ok entry=0x401000''),
           log_writeln hw (Some ''[M11] user image plan ready'')]) k)"

definition m11_selftest_run :: "hardware \<Rightarrow> prog \<Rightarrow> m11_process_image_plan \<Rightarrow> kernel program" where
  "m11_selftest_run hw irq plan =
     interruptible (on_machine irq)
       [on_machine (log_writeln hw (Some ''[M11] elf loader integration selftest'')), m11_plan_report hw irq plan]"

text \<open>\<open>mcs_spin_lock\<close> when no other thread runs: a taken lock is never released.\<close>

definition mcs_spin_lock_alone :: "spinlock \<Rightarrow> spinlock option" where
  "mcs_spin_lock_alone l = (case mcs_spin_try_lock (Some l) of (True, l') \<Rightarrow> l' | (False, _) \<Rightarrow> None)"

definition m12_sync_selftest :: "hardware \<Rightarrow> prog \<Rightarrow> kernel program" where
  "m12_sync_selftest hw irq k =
     (let k = k\<lparr>boot_lockdep := the (mcs_lockdep_init (Some (boot_lockdep k))),
                boot_stats_lock := the (mcs_spin_init (Some (boot_stats_lock k)) 10 (Some ''boot_stats''))\<rparr>;
          (st, ld) = mcs_lockdep_before_acquire (Some (boot_lockdep k)) 10 (Some ''boot_stats'');
          k = k\<lparr>boot_lockdep := the ld\<rparr>
      in if st \<noteq> MCS_SYNC_OK then
        on_machine (kernel_panic_at hw (Some ''kernel/sync/m12_selftest.c'') 14 (Some ''M12 lockdep acquire failed'') 0) k
      else
        (case mcs_spin_lock_alone (boot_stats_lock k) of
           None \<Rightarrow> None
         | Some l \<Rightarrow>
             let k = k\<lparr>boot_counter := boot_counter k + 1, boot_stats_lock := the (mcs_spin_unlock (Some l))\<rparr>;
                 (st, ld) = mcs_lockdep_after_release (Some (boot_lockdep k)) 10 (Some ''boot_stats'');
                 k = k\<lparr>boot_lockdep := the ld\<rparr>
             in if st \<noteq> MCS_SYNC_OK then
               on_machine (kernel_panic_at hw (Some ''kernel/sync/m12_selftest.c'') 22 (Some ''M12 lockdep release failed'') 0) k
             else on_machine (interruptible irq [log_writeln hw (Some ''M12 sync selftest passed'')]) k))"

definition m13_selftest_run :: "hardware \<Rightarrow> prog \<Rightarrow> kernel program" where
  "m13_selftest_run hw irq k =
     (case m13_vfs_kernel_selftest 0 (kernel_proc_m13 k) (\<lambda>_. kernel_ramfs k) of (lines, p, R) \<Rightarrow>
        on_machine (interruptible irq (map (\<lambda>line. log_writeln hw (Some line)) lines))
          (k\<lparr>kernel_proc_m13 := the p, kernel_ramfs := R 0\<rparr>))"

text \<open>The one device and the one disk have the address 0 in their stores.\<close>

definition m14_block_demo_init :: "hardware \<Rightarrow> prog \<Rightarrow> kernel program" where
  "m14_block_demo_init hw irq k =
     (let k = k\<lparr>blk_registry := mcsos_blk_registry_reset (blk_registry k)\<rparr>;
          (st, D, w) = mcsos_ramblk_init [0 \<mapsto> g_m14_ramdisk_dev k] [0 \<mapsto> g_m14_ramdisk k] (Some 0) (Some 0)
            (Some (cbytes ''ram0'' @ [0])) (Some (g_m14_ramdisk_storage k)) (512 * 64) 512;
          k = k\<lparr>g_m14_ramdisk_dev := the (D 0), g_m14_ramdisk := the (w 0)\<rparr>
      in if st \<noteq> MCSOS_BLK_OK then on_machine (interruptible irq [log_writeln hw (Some ''[M14] block layer init FAILED'')]) k
      else
        let k = k\<lparr>blk_registry := snd (mcsos_blk_register D (Some 0) (blk_registry k))\<rparr> in
        on_machine (interruptible irq
          [log_writeln hw (Some ''[M14] block layer initialized''),
           log_writeln hw (Some ''[M14] ram0: 64 blocks x 512 bytes registered''),
           log_writeln hw (Some ''[M15] mcsfs1 linked into kernel''), log_writeln hw (Some ''[M15] ready for integration''),
           log_writeln hw (Some ''[M16] mcsfs1j linked into kernel''),
           log_writeln hw (Some ''[M16] journal recovery support available'')]) k)"

section \<open>kmain.c and entry.c\<close>

text \<open>\<open>kmain\<close> in parts: the banner, the interrupt controllers and the timer, the system calls, the self tests.\<close>

definition boot_banner :: "hardware \<Rightarrow> image_symbols \<Rightarrow> prog" where
  "boot_banner hw syms =
     sequence
       [step log_init,
        log_write hw (Some MCSOS_NAME), log_write hw (Some '' ''), log_write hw (Some MCSOS_VERSION),
        log_write hw (Some '' ''), log_write hw (Some MCSOS_MILESTONE), log_writeln hw (Some '' kernel entered''),
        log_key_value_hex64 hw (Some ''kernel_start'') (kernel_start syms),
        log_key_value_hex64 hw (Some ''kernel_end'') (kernel_end syms),
        (\<lambda>w. log_key_value_hex64 hw (Some ''rflags_before_idt'') (hw_rflags hw w) w)]"

definition boot_interrupts :: "hardware \<Rightarrow> prog" where
  "boot_interrupts hw =
     sequence
       [step cpu_cli, step (pic_remap hw PIC1_OFFSET PIC2_OFFSET), step pic_mask_all, step (pic_unmask_irq hw 0),
        pit_configure_hz 100, step cpu_sti]"

definition boot_syscalls :: "image_symbols \<Rightarrow> kernel \<Rightarrow> kernel" where
  "boot_syscalls syms k =
     (let k = k\<lparr>mach := syscall_arch_init syms (mach k), syscalls := mcsos_syscall_init None (syscalls k)\<rparr> in
      k\<lparr>mach := snd (mcsos_syscall_dispatch (syscalls k) 0 0 0 0 0 0 0 (mach k))\<rparr>)"

text \<open>The trace line of \<open>mcsos_syscall_dispatch_frame\<close>.\<close>

definition syscall_trace :: "hardware \<Rightarrow> machine \<Rightarrow> machine option" where
  "syscall_trace hw w =
     (case serial_write hw (Some (''[M10] syscall entry reached'' @ [CHR 0x0A])) w of Some (Returns w') \<Rightarrow> Some w' | _ \<Rightarrow> None)"

text \<open>The macros that select the optional tests.\<close>

record m4_options =
  trigger_breakpoint :: bool
  trigger_panic :: bool

definition boot_m4 :: "m4_options \<Rightarrow> hardware \<Rightarrow> prog \<Rightarrow> image_symbols \<Rightarrow> x86_64_trap_frame \<Rightarrow> prog" where
  "boot_m4 opts hw irq syms frame =
     interruptible irq
       (m4_selftest hw syms #
        (if trigger_breakpoint opts then
           [log_writeln hw (Some ''[M4] triggering intentional breakpoint exception''),
            x86_64_trigger_breakpoint_for_test hw syms frame,
            log_writeln hw (Some ''[M4] returned from breakpoint handler'')]
         else []))"

definition boot_end :: "m4_options \<Rightarrow> hardware \<Rightarrow> prog \<Rightarrow> m11_process_image_plan \<Rightarrow> kernel program list" where
  "boot_end opts hw irq plan =
     (if trigger_panic opts then
        [on_machine (kernel_panic_at hw (Some ''kernel/core/kmain.c'') 85 (Some ''intentional M4 panic test'') 0x4D43534F533034)]
      else
        [on_machine (log_writeln hw (Some ''[M4] IDT and exception dispatch path installed'')),
         on_machine (log_writeln hw (Some ''[M4] ready for QEMU smoke test and GDB audit'')),
         m11_selftest_run hw irq plan, m12_sync_selftest hw irq, m13_selftest_run hw irq, m14_block_demo_init hw irq,
         on_machine cpu_halt_forever])"

definition kmain ::
  "m4_options \<Rightarrow> hardware \<Rightarrow> image_symbols \<Rightarrow> arrivals \<Rightarrow> x86_64_trap_frame \<Rightarrow> m11_process_image_plan \<Rightarrow> kernel program" where
  "kmain opts hw syms arrivals frame plan =
     (let irq = timer_interrupts hw syms arrivals in
      sequence
        [on_machine (boot_banner hw syms), on_machine (x86_64_idt_init hw syms), on_machine (boot_interrupts hw),
         interruptible (on_machine irq)
           ([on_machine (log_writeln hw (Some ''[M5] PIC/PIT initialized; interrupts enabled'')),
             step (boot_syscalls syms), on_machine (boot_m4 opts hw irq syms frame)] @
            boot_end opts hw irq plan)])"

definition kernel_entry ::
  "m4_options \<Rightarrow> hardware \<Rightarrow> image_symbols \<Rightarrow> arrivals \<Rightarrow> x86_64_trap_frame \<Rightarrow> m11_process_image_plan \<Rightarrow> kernel program" where
  "kernel_entry opts hw syms arrivals frame plan =
     then_do (kmain opts hw syms arrivals frame plan) (on_machine cpu_halt_forever)"

section \<open>The parts return\<close>

lemma on_machine_returns: "p (mach k) = Some (Returns w) \<Longrightarrow> on_machine p k = Some (Returns (k\<lparr>mach := w\<rparr>))"
  by (simp add: on_machine_def)

lemma on_machine_logs:
  "logs hw syms arrivals b ts p \<Longrightarrow> serving syms (mach k) \<Longrightarrow>
    \<exists>w. on_machine p k = Some (Returns (k\<lparr>mach := w\<rparr>)) \<and> passed hw arrivals b ts (mach k) w"
  using logsD on_machine_returns by blast

lemma on_machine_then_do: "then_do (on_machine p) (on_machine q) = on_machine (then_do p q)"
  by (rule ext, case_tac "p (mach x)")
    (auto simp: then_do_def on_machine_def option.map_comp ending.map_comp o_def split: ending.splits)

lemma on_machine_interruptible: "interruptible (on_machine irq) (map on_machine ps) = on_machine (interruptible irq ps)"
  by (induction ps) (simp_all add: on_machine_then_do, simp add: on_machine_def fun_eq_iff)

lemma interruptible_append: "interruptible irq (ps @ qs) = then_do (interruptible irq ps) (interruptible irq qs)"
  by (induction ps) (simp_all add: then_do_assoc then_do_skip)

text \<open>A statement of the kernel with the point in front of it.\<close>

lemma kernel_point:
  assumes "serving syms (mach k)" "irq = timer_interrupts hw syms arrivals"
  obtains w where "interruptible (on_machine irq) (p # ps) k = then_do p (interruptible (on_machine irq) ps) (k\<lparr>mach := w\<rparr>)"
    "passed hw arrivals 0 [] (mach k) w" "serving syms w"
proof -
  obtain w where w: "irq (mach k) = Some (Returns w)" "passed hw arrivals 0 [] (mach k) w"
    using point_passed [OF assms(1)] unfolding assms(2) by blast
  have "on_machine irq k = Some (Returns (k\<lparr>mach := w\<rparr>))" using w(1) by (rule on_machine_returns)
  then show thesis by (intro that [OF _ w(2)]) (simp_all add: then_do_returns serving_passed [OF w(2)] assms(1))
qed

lemma kernel_step:
  assumes "serving syms (mach k)" "irq = timer_interrupts hw syms arrivals"
    and "\<And>w. serving syms w \<Longrightarrow> \<exists>k1. p (k\<lparr>mach := w\<rparr>) = Some (Returns k1) \<and> passed hw arrivals b ts w (mach k1) \<and> Q k1"
  obtains k1 where "interruptible (on_machine irq) (p # ps) k = interruptible (on_machine irq) ps k1"
    "passed hw arrivals b ts (mach k) (mach k1)" "serving syms (mach k1)" "Q k1"
proof -
  obtain w where w: "interruptible (on_machine irq) (p # ps) k = then_do p (interruptible (on_machine irq) ps) (k\<lparr>mach := w\<rparr>)"
      "passed hw arrivals 0 [] (mach k) w" "serving syms w"
    by (rule kernel_point [OF assms(1,2)])
  obtain k1 where k1: "p (k\<lparr>mach := w\<rparr>) = Some (Returns k1)" "passed hw arrivals b ts w (mach k1)" "Q k1"
    using assms(3) [OF w(3)] by blast
  show thesis
    by (rule that) (use w k1 passed_trans [OF w(2) k1(2)] serving_passed [OF k1(2)] in \<open>simp_all add: then_do_returns\<close>)
qed

text \<open>Log lines of the kernel in front of other statements.\<close>

lemma kernel_lines:
  assumes "serving syms (mach k)" "irq = timer_interrupts hw syms arrivals"
  obtains w where "interruptible (on_machine irq) (map (\<lambda>line. on_machine (log_writeln hw (Some line))) ls @ ps) k =
      interruptible (on_machine irq) ps (k\<lparr>mach := w\<rparr>)"
    "passed hw arrivals 0 (map line_text ls) (mach k) w" "serving syms w"
proof -
  obtain w where w: "on_machine (interruptible irq (map (\<lambda>line. log_writeln hw (Some line)) ls)) k = Some (Returns (k\<lparr>mach := w\<rparr>))"
      "passed hw arrivals 0 (map line_text ls) (mach k) w"
    using on_machine_logs [OF lines_logs assms(1)] unfolding assms(2) by blast
  have "interruptible (on_machine irq) (map (\<lambda>line. on_machine (log_writeln hw (Some line))) ls) k = Some (Returns (k\<lparr>mach := w\<rparr>))"
    using w(1) fun_cong [OF on_machine_interruptible [of irq "map (\<lambda>line. log_writeln hw (Some line)) ls"], of k] by (simp add: o_def)
  then show thesis
    by (intro that [OF _ w(2)]) (simp_all add: interruptible_append then_do_returns serving_passed [OF w(2)] assms(1))
qed

lemma then_do_assert: "P w \<Longrightarrow> then_do (\<lambda>w. kernel_assert hw file line expr (P w) w) q w = q w"
  by (simp add: then_do_def step_def)

lemma m4_selftest_skips:
  assumes "kernel_start syms < kernel_end syms" "idtr_base (idtr w) \<noteq> 0" "idtr_limit (idtr w) = 4095"
  shows "m4_selftest hw syms w = log_writeln hw (Some ''[M4] selftest: IDT invariants passed'') w"
  using assms by (simp add: m4_selftest_def then_do_skip then_do_assert x86_64_idt_base_for_test_def x86_64_idt_limit_for_test_def)

definition m4_texts :: "m4_options \<Rightarrow> x86_64_trap_frame \<Rightarrow> string list" where
  "m4_texts opts frame =
     line_text ''[M4] selftest: IDT invariants passed'' #
     (if trigger_breakpoint opts then
        [line_text ''[M4] triggering intentional breakpoint exception'',
         trap_report (frame\<lparr>tf_vector := 3\<rparr>) @ line_text ''[M4] breakpoint handled; returning with iretq'',
         line_text ''[M4] returned from breakpoint handler'']
      else [])"

lemma m4_selftest_point:
  assumes "kernel_start syms < kernel_end syms" "idt_address syms \<noteq> 0" "serving syms w"
  shows "\<exists>w'. m4_selftest hw syms w = Some (Returns w') \<and> keeps w w' \<and>
    passes hw 0 [([], line_text ''[M4] selftest: IDT invariants passed'')] w w'"
proof -
  have "idtr_base (idtr w) \<noteq> 0" "idtr_limit (idtr w) = 4095" using assms by (simp_all add: serving_def)
  from m4_selftest_skips [OF assms(1) this] show ?thesis using outputs_point [OF writeln_outputs assms(3)] by simp
qed

lemma boot_m4_logs:
  assumes "kernel_start syms < kernel_end syms" "idt_address syms \<noteq> 0"
  shows "logs hw syms arrivals (of_bool (trigger_breakpoint opts)) (m4_texts opts frame)
    (boot_m4 opts hw (timer_interrupts hw syms arrivals) syms frame)"
proof (cases "trigger_breakpoint opts")
  case False
  show ?thesis using logs_cons [OF line_text_nonempty m4_selftest_point [OF assms] logs_nil, where arrivals = arrivals] False
    by (simp add: boot_m4_def m4_texts_def)
next
  case True
  let ?l = "\<lambda>t. log_writeln hw (Some t)" and ?irq = "timer_interrupts hw syms arrivals"
  let ?b = "''[M4] triggering intentional breakpoint exception''" and ?r = "''[M4] returned from breakpoint handler''"
  have "logs hw syms arrivals 0 [line_text ?r] (interruptible ?irq [?l ?r])"
    using lines_logs [of hw syms arrivals "[?r]"] by simp
  from logs_cons [OF _ breakpoint_point this]
  have "logs hw syms arrivals 1 [trap_report (frame\<lparr>tf_vector := 3\<rparr>) @ line_text ''[M4] breakpoint handled; returning with iretq'', line_text ?r]
      (interruptible ?irq [x86_64_trigger_breakpoint_for_test hw syms frame, ?l ?r])"
    by (simp add: line_text_nonempty)
  from logs_cons [OF line_text_nonempty m4_selftest_point [OF assms] logs_cons [OF line_text_nonempty outputs_point [OF writeln_outputs] this]]
  show ?thesis using True by (simp add: boot_m4_def m4_texts_def)
qed

definition ready_lines :: "string list" where
  "ready_lines = [''[M4] IDT and exception dispatch path installed'', ''[M4] ready for QEMU smoke test and GDB audit'']"

definition m11_lines :: "string list" where
  "m11_lines = [''[M11] elf: ident ok'', ''[M11] elf: phnum=1'',
     ''[M11] elf: load segment vaddr=0x400000 filesz=16 memsz=4096 flags=0x5'', ''[M11] elf: plan ok entry=0x401000'',
     ''[M11] user image plan ready'']"

lemma m11_selftest_returns:
  assumes sv: "serving syms (mach k)" and irq: "irq = timer_interrupts hw syms arrivals" and len: "length (m11_image k) = 12288"
  shows "\<exists>w. m11_selftest_run hw irq plan k = Some (Returns (k\<lparr>m11_image := m11_synthetic_image (m11_image k), mach := w\<rparr>)) \<and>
    passed hw arrivals 0 (map line_text (''[M11] elf loader integration selftest'' # m11_lines)) (mach k) w"
proof -
  let ?h = "''[M11] elf loader integration selftest''" and ?p = "m11_plan_report hw irq plan"
  obtain w1 where w1: "interruptible (on_machine irq) (map (\<lambda>line. on_machine (log_writeln hw (Some line))) [?h] @ [?p]) k =
        interruptible (on_machine irq) [?p] (k\<lparr>mach := w1\<rparr>)"
      "passed hw arrivals 0 (map line_text [?h]) (mach k) w1" "serving syms w1"
    by (rule kernel_lines [OF sv irq])
  let ?Q = "\<lambda>k1. \<exists>w. k1 = k\<lparr>m11_image := m11_synthetic_image (m11_image k), mach := w\<rparr>"
  have step: "\<exists>k1. ?p ((k\<lparr>mach := w1\<rparr>)\<lparr>mach := w\<rparr>) = Some (Returns k1) \<and>
      passed hw arrivals 0 (map line_text m11_lines) w (mach k1) \<and> ?Q k1" if "serving syms w" for w
    using on_machine_logs [OF lines_logs [of hw syms arrivals m11_lines],
        of "k\<lparr>mach := w, m11_image := m11_synthetic_image (m11_image k)\<rparr>"] that selftest_accepts [OF len, of plan]
    by (auto simp del: interruptible.simps simp: m11_plan_report_def Let_def m11_lines_def irq)
  have "serving syms (mach (k\<lparr>mach := w1\<rparr>))" using w1(3) by simp
  from kernel_step [OF this irq step] obtain k1 where
    k1: "interruptible (on_machine irq) [?p] (k\<lparr>mach := w1\<rparr>) = interruptible (on_machine irq) [] k1"
      "passed hw arrivals 0 (map line_text m11_lines) (mach (k\<lparr>mach := w1\<rparr>)) (mach k1)" "?Q k1" by blast
  have "passed hw arrivals 0 (map line_text m11_lines) w1 (mach k1)" using k1(2) by simp
  from passed_trans [OF w1(2) this] show ?thesis using w1(1) k1(1,3) by (auto simp: m11_selftest_run_def)
qed

lemma spin_lock_alone_spins:
  "mcs_spin_lock_within n True 0 (\<lambda>_. l) = (if n = 0 then None else map_option (Pair 1) (mcs_spin_lock_alone l))"
proof -
  have "spin_locked l \<noteq> 0 \<Longrightarrow> mcs_spin_lock_within n False i (\<lambda>_. l) = None" for n i
    by (induction n arbitrary: i) (simp_all add: mcs_spin_is_locked_def)
  then show ?thesis
    by (cases n; cases "spin_locked l = 0") (simp_all add: mcs_spin_lock_alone_def mcs_spin_try_lock_def)
qed

lemma m12_selftest_returns:
  assumes "serving syms (mach k)" "length (held_class (boot_lockdep k)) = 16" "length (held_name (boot_lockdep k)) = 16"
  shows "\<exists>w l. m12_sync_selftest hw (timer_interrupts hw syms arrivals) k = Some (Returns (k\<lparr>boot_counter := boot_counter k + 1,
      boot_stats_lock := \<lparr>spin_locked = 0, spin_class_id = 10, spin_name = Some ''boot_stats''\<rparr>, boot_lockdep := l, mach := w\<rparr>)) \<and> held l = [] \<and> violation_count l = 0 \<and>
    passed hw arrivals 0 [line_text ''M12 sync selftest passed''] (mach k) w"
proof -
  let ?s = "boot_lockdep k" and ?n = "''boot_stats''" and ?l = "boot_stats_lock k"
  define s1 where "s1 = ?s\<lparr>held_class := replicate 16 0, held_name := replicate 16 None, depth := 0, violation_count := 0\<rparr>"
  define s2 where "s2 = s1\<lparr>held_class := (held_class s1)[0 := 10], held_name := (held_name s1)[0 := Some ?n], depth := 1\<rparr>"
  define s3 where "s3 = s2\<lparr>held_class := (held_class s2)[0 := 0], held_name := (held_name s2)[0 := None], depth := 0\<rparr>"
  define l where "l = \<lparr>spin_locked = 0, spin_class_id = 10, spin_name = Some ?n\<rparr>"
  have s1: "mcs_lockdep_init (Some ?s) = Some s1"
    using assms(2,3) by (simp add: s1_def mcs_lockdep_init_def mcs_consts fill_loop_patch patch_def)
  have s2: "mcs_lockdep_before_acquire (Some s1) 10 (Some ?n) = (MCS_SYNC_OK, Some s2)"
    by (simp add: s1_def s2_def mcs_lockdep_before_acquire_def mcs_consts first_index.simps)
  have s3: "mcs_lockdep_after_release (Some s2) 10 (Some ?n) = (MCS_SYNC_OK, Some s3)"
    by (simp add: s1_def s2_def s3_def mcs_lockdep_after_release_def mcs_consts)
  have l: "mcs_spin_init (Some ?l) 10 (Some ?n) = Some l" "mcs_spin_lock_alone l = Some (l\<lparr>spin_locked := 1\<rparr>)"
      "mcs_spin_unlock (Some (l\<lparr>spin_locked := 1\<rparr>)) = Some l"
    by (simp_all add: l_def mcs_spin_init_def mcs_spin_lock_alone_def mcs_spin_try_lock_def mcs_spin_unlock_def)
  let ?k = "k\<lparr>boot_counter := boot_counter k + 1, boot_stats_lock := l, boot_lockdep := s3\<rparr>"
  have "serving syms (mach ?k)" using assms(1) by simp
  from on_machine_logs [OF lines_logs [of hw syms arrivals "[''M12 sync selftest passed'']"] this] obtain w where
    w: "on_machine (interruptible (timer_interrupts hw syms arrivals) [log_writeln hw (Some ''M12 sync selftest passed'')]) ?k =
        Some (Returns (?k\<lparr>mach := w\<rparr>))"
      "passed hw arrivals 0 [line_text ''M12 sync selftest passed''] (mach k) w" by auto
  have "m12_sync_selftest hw (timer_interrupts hw syms arrivals) k = Some (Returns (?k\<lparr>mach := w\<rparr>))"
    using w(1) by (simp del: interruptible.simps add: m12_sync_selftest_def Let_def s1 s2 s3 l)
  moreover have "held s3 = []" "violation_count s3 = 0" by (simp_all add: s3_def s2_def s1_def held_def)
  ultimately show ?thesis using w(2) unfolding l_def by blast
qed

lemma m13_selftest_returns:
  assumes "serving syms (mach k)" "ramfs_shape (kernel_ramfs k)"
  shows "\<exists>w p r. m13_selftest_run hw (timer_interrupts hw syms arrivals) k =
      Some (Returns (k\<lparr>kernel_proc_m13 := p, kernel_ramfs := r, mach := w\<rparr>)) \<and>
    vfs_rel 0 (fd_table p, \<lambda>_. r) (m13_files, \<lambda>_. None) \<and> passed hw arrivals 0 (map line_text m13_lines) (mach k) w"
proof -
  obtain p R where r: "m13_vfs_kernel_selftest 0 (kernel_proc_m13 k) (\<lambda>_. kernel_ramfs k) = (m13_lines, Some p, R)"
      "vfs_rel 0 (fd_table p, R) (m13_files, \<lambda>_. None)"
    using vfs_selftest_passes [of "\<lambda>_. kernel_ramfs k" 0 "kernel_proc_m13 k"] assms(2) by auto
  let ?k = "k\<lparr>kernel_proc_m13 := p, kernel_ramfs := R 0\<rparr>"
  have "serving syms (mach ?k)" using assms(1) by simp
  from on_machine_logs [OF lines_logs [of hw syms arrivals m13_lines] this] obtain w where
    w: "on_machine (interruptible (timer_interrupts hw syms arrivals) (map (\<lambda>line. log_writeln hw (Some line)) m13_lines)) ?k =
        Some (Returns (?k\<lparr>mach := w\<rparr>))"
      "passed hw arrivals 0 (map line_text m13_lines) (mach k) w" by auto
  have "m13_selftest_run hw (timer_interrupts hw syms arrivals) k = Some (Returns (?k\<lparr>mach := w\<rparr>))"
    using w(1) by (simp add: m13_selftest_run_def r(1))
  moreover have "vfs_rel 0 (fd_table p, \<lambda>_. R 0) (m13_files, \<lambda>_. None)" using r(2) by (simp add: vfs_rel_def)
  ultimately show ?thesis using w(2) by (intro exI conjI)
qed

definition m14_lines :: "string list" where
  "m14_lines = [''[M14] block layer initialized'', ''[M14] ram0: 64 blocks x 512 bytes registered'',
     ''[M15] mcsfs1 linked into kernel'', ''[M15] ready for integration'', ''[M16] mcsfs1j linked into kernel'',
     ''[M16] journal recovery support available'']"

lemma m14_block_demo_returns:
  assumes "serving syms (mach k)" "length (g_blk_devices (blk_registry k)) = unat MCSOS_BLK_MAX_DEVICES"
    "length (dev_name (g_m14_ramdisk_dev k)) = MCSOS_BLK_NAME_MAX"
  shows "\<exists>w r d m. m14_block_demo_init hw (timer_interrupts hw syms arrivals) k = Some (Returns (k\<lparr>g_m14_ramdisk_dev := d, g_m14_ramdisk := m, blk_registry := r, mach := w\<rparr>)) \<and>
    mcsos_blk_count r = 1 \<and> mcsos_blk_get r 0 = Some 0 \<and> dev_block_count d = 64 \<and> dev_block_size d = 512 \<and>
    rb_storage m = g_m14_ramdisk_storage k \<and> passed hw arrivals 0 (map line_text m14_lines) (mach k) w"
proof -
  let ?r0 = "blk_registry k" and ?d0 = "g_m14_ramdisk_dev k" and ?m0 = "g_m14_ramdisk k" and ?n = "cbytes ''ram0'' @ [0]"
  define r1 where "r1 = mcsos_blk_registry_reset ?r0"
  define d where "d = ?d0\<lparr>dev_name := mcsos_blk_copy_name_for_driver (dev_name ?d0) (Some ?n), dev_block_size := 512,
    dev_block_count := 64, dev_flags := 0, dev_ops := Some g_ramblk_ops, driver_data := Some 0\<rparr>"
  define m where "m = ?m0\<lparr>rb_storage := g_m14_ramdisk_storage k, storage_size := 512 * 64\<rparr>"
  define r2 where "r2 = r1\<lparr>g_blk_devices := (g_blk_devices r1)[0 := Some 0], g_blk_count := 1\<rparr>"
  have p: "mcsos_is_power_of_two_u32 512" by (simp add: mcsos_is_power_of_two_u32_def)
  have i: "mcsos_ramblk_init [0 \<mapsto> ?d0] [0 \<mapsto> ?m0] (Some 0) (Some 0) (Some ?n) (Some (g_m14_ramdisk_storage k)) (512 * 64) 512
      = (MCSOS_BLK_OK, [0 \<mapsto> d], [0 \<mapsto> m])"
    using p by (simp add: mcsos_ramblk_init_def d_def m_def mcs_consts)
  have n: "mcsos_name_is_nonempty (Some (dev_name d))"
  proof -
    have e: "?n = [114, 97, 109, 48, 0]" by (simp add: cbytes_def)
    have nz: "[114, 97, 109, 48, 0] ! j \<noteq> (0 :: u8)" if "j < 4" for j
    proof -
      have "j = 0 \<or> j = 1 \<or> j = 2 \<or> j = 3" using that by linarith
      then show ?thesis by auto
    qed
    have "strnlen [114, 97, 109, 48, 0] 15 = 4" by (rule strnlen_eq [OF _ _ nz]) simp_all
    then show ?thesis
      using assms(3) nz [of 0] unfolding d_def mcsos_name_is_nonempty_def mcsos_blk_copy_name_for_driver_def mcsos_copy_name_def e
      by (simp add: mcs_consts nth_copy_loop)
  qed
  have r: "mcsos_blk_register [0 \<mapsto> d] (Some 0) r1 = (MCSOS_BLK_OK, r2)"
    using n p by (simp add: mcsos_blk_register_def d_def r2_def r1_def mcsos_blk_registry_reset_def g_ramblk_ops_def mcs_consts)
  let ?k = "k\<lparr>g_m14_ramdisk_dev := d, g_m14_ramdisk := m, blk_registry := r2\<rparr>"
  have "serving syms (mach ?k)" using assms(1) by simp
  from on_machine_logs [OF lines_logs [of hw syms arrivals m14_lines] this] obtain w where
    w: "on_machine (interruptible (timer_interrupts hw syms arrivals) (map (\<lambda>line. log_writeln hw (Some line)) m14_lines)) ?k =
        Some (Returns (?k\<lparr>mach := w\<rparr>))"
      "passed hw arrivals 0 (map line_text m14_lines) (mach k) w" by auto
  have "m14_block_demo_init hw (timer_interrupts hw syms arrivals) k = Some (Returns (?k\<lparr>mach := w\<rparr>))"
    using w(1) i r by (simp del: interruptible.simps add: m14_block_demo_init_def Let_def r1_def m14_lines_def)
  moreover have "mcsos_blk_get r2 0 = Some 0" 
    using assms(2) by (simp add: mcsos_blk_get_def r2_def r1_def mcsos_blk_registry_reset_def mcs_consts)
  ultimately show ?thesis using w(2)
    by (intro exI [of _ w] exI [of _ r2] exI [of _ d] exI [of _ m]) (simp add: mcsos_blk_count_def r2_def d_def m_def)
qed

definition banner_text :: "image_symbols \<Rightarrow> u64 \<Rightarrow> string" where
  "banner_text syms rflags =
     (crlf MCSOS_NAME @ crlf '' '' @ crlf MCSOS_VERSION @ crlf '' '' @ crlf MCSOS_MILESTONE @ line_text '' kernel entered'' @
      key_text ''kernel_start'' (kernel_start syms) @ key_text ''kernel_end'' (kernel_end syms) @ []) @
     key_text ''rflags_before_idt'' rflags"

lemma boot_banner_returns:
  assumes "idle w"
  shows "\<exists>rflags w'. boot_banner hw syms w = Some (Returns w') \<and> prints hw (banner_text syms rflags) (serial_init w) w'"
proof -
  let ?ps = "[log_write hw (Some MCSOS_NAME), log_write hw (Some '' ''), log_write hw (Some MCSOS_VERSION),
    log_write hw (Some '' ''), log_write hw (Some MCSOS_MILESTONE), log_writeln hw (Some '' kernel entered''),
    log_key_value_hex64 hw (Some ''kernel_start'') (kernel_start syms),
    log_key_value_hex64 hw (Some ''kernel_end'') (kernel_end syms)]"
  let ?q = "\<lambda>w. log_key_value_hex64 hw (Some ''rflags_before_idt'') (hw_rflags hw w) w"
  let ?t = "crlf MCSOS_NAME @ crlf '' '' @ crlf MCSOS_VERSION @ crlf '' '' @ crlf MCSOS_MILESTONE @ line_text '' kernel entered'' @
      key_text ''kernel_start'' (kernel_start syms) @ key_text ''kernel_end'' (kernel_end syms) @ []"
  have o: "outputs hw (sequence ?ps) ?t" by (intro outputs_rules)
  have "idle (serial_init w)" using assms by (simp add: serial_init_def)
  from outputsD [OF o this] obtain w1 where w1: "sequence ?ps (serial_init w) = Some (Returns w1)" "prints hw ?t (serial_init w) w1"
    by blast
  have "idle w1" using \<open>idle (serial_init w)\<close> prints_keeps(9) [OF w1(2)] by simp
  from outputsD [OF log_key_value_outputs this] obtain w2 where w2: "?q w1 = Some (Returns w2)"
      "prints hw (key_text ''rflags_before_idt'' (hw_rflags hw w1)) w1 w2" by blast
  have "boot_banner hw syms w = sequence (?ps @ [?q]) (serial_init w)" by (simp add: boot_banner_def log_init_def)
  also have "\<dots> = Some (Returns w2)" unfolding sequence_snoc using w1(1) w2(1) by (simp add: then_do_returns)
  finally show ?thesis using prints_trans [OF w1(2) w2(2)] unfolding banner_text_def by blast
qed

definition pic_pit_writes :: "u8 \<Rightarrow> u8 \<Rightarrow> u8 \<Rightarrow> (u16 \<times> u8) list" where
  "pic_pit_writes master slave masks =
     [(0x20, 0x11), (0x80, 0), (0xA0, 0x11), (0x80, 0), (0x21, 0x20), (0x80, 0), (0xA1, 0x28), (0x80, 0),
      (0x21, 4), (0x80, 0), (0xA1, 2), (0x80, 0), (0x21, 1), (0x80, 0), (0xA1, 1), (0x80, 0), (0x21, master), (0xA1, slave),
      (0x21, 0xFF), (0xA1, 0xFF), (0x21, masks AND NOT 1), (0x43, 0x36), (0x40, 0x9B), (0x40, 0x2E)]"

definition pic_pit_started :: "hardware \<Rightarrow> machine \<Rightarrow> machine" where
  "pic_pit_started hw w = w\<lparr>port_reads := Suc (Suc (Suc (port_reads w))),
     port_writes := port_writes w @ pic_pit_writes (hw_in hw (port_reads w) 0x21) (hw_in hw (Suc (port_reads w)) 0xA1)
       (hw_in hw (Suc (Suc (port_reads w))) 0x21), int_flag := True\<rparr>"

lemma mask_low_bit: "ucast ((ucast (v :: u8) :: u32) AND NOT 1) = v AND NOT 1"
  by (rule bit_word_eqI) (auto simp: bit_simps)

lemma boot_interrupts_returns: "boot_interrupts hw w = Some (Returns (pic_pit_started hw w))"
  by (simp add: boot_interrupts_def then_do_skip then_do_def [of "pit_configure_hz 100"] pit_configure_hz_def Let_def
      pic_remap_def pic_mask_all_def pic_unmask_irq_def inb_def outb_def io_wait_def mcs_consts cpu_cli_def cpu_sti_def
      pic_pit_started_def pic_pit_writes_def mask_low_bit [simplified]) (simp add: step_def cpu_sti_def)

section \<open>The whole boot\<close>

text \<open>The static objects have the sizes of their declarations, and the console is free.\<close>

definition boot_shape :: "kernel \<Rightarrow> bool" where
  "boot_shape k \<longleftrightarrow>
     idle (mach k) \<and> length (idt (mach k)) = 256 \<and> length (m11_image k) = 12288 \<and>
     length (held_class (boot_lockdep k)) = 16 \<and> length (held_name (boot_lockdep k)) = 16 \<and> ramfs_shape (kernel_ramfs k) \<and>
     length (g_blk_devices (blk_registry k)) = unat MCSOS_BLK_MAX_DEVICES \<and>
     length (dev_name (g_m14_ramdisk_dev k)) = MCSOS_BLK_NAME_MAX"

definition selftests_passed :: "kernel \<Rightarrow> kernel \<Rightarrow> bool" where
  "selftests_passed k k' \<longleftrightarrow>
     boot_counter k' = boot_counter k + 1 \<and> spin_locked (boot_stats_lock k') = 0 \<and>
     held (boot_lockdep k') = [] \<and> violation_count (boot_lockdep k') = 0 \<and>
     vfs_rel 0 (fd_table (kernel_proc_m13 k'), \<lambda>_. kernel_ramfs k') (m13_files, \<lambda>_. None) \<and>
     mcsos_blk_count (blk_registry k') = 1 \<and> mcsos_blk_get (blk_registry k') 0 = Some 0 \<and>
     dev_block_count (g_m14_ramdisk_dev k') = 64 \<and> dev_block_size (g_m14_ramdisk_dev k') = 512"

text \<open>A run that ends with interrupts off.\<close>

definition ended :: "hardware \<Rightarrow> arrivals \<Rightarrow> nat \<Rightarrow> string list \<Rightarrow> machine \<Rightarrow> machine \<Rightarrow> bool" where
  "ended hw arrivals b ts w w' \<longleftrightarrow>
     \<not> int_flag w' \<and> idt w' = idt w \<and> loaded_idtr w' = loaded_idtr w \<and> ran hw arrivals b ts w w'"

lemma ended_halt: "passed hw arrivals b ts w w' \<Longrightarrow> ended hw arrivals b ts w (cpu_cli w')"
  by (auto simp: passed_def ended_def keeps_def ran_def passes_def)

lemma passed_ended:
  "passed hw arrivals b ts w w' \<Longrightarrow> ended hw arrivals c us w' w'' \<Longrightarrow> ended hw arrivals (b + c) (ts @ us) w w''"
  unfolding passed_def ended_def keeps_def using ran_trans by metis

lemma kernel_halt:
  assumes "serving syms (mach k)" "irq = timer_interrupts hw syms arrivals"
  shows "\<exists>w. interruptible (on_machine irq) [on_machine cpu_halt_forever] k = Some (Halts (k\<lparr>mach := cpu_cli w\<rparr>)) \<and>
    ended hw arrivals 0 [] (mach k) (cpu_cli w)"
proof -
  obtain w where w: "interruptible (on_machine irq) [on_machine cpu_halt_forever] k =
        then_do (on_machine cpu_halt_forever) (interruptible (on_machine irq) []) (k\<lparr>mach := w\<rparr>)"
      "passed hw arrivals 0 [] (mach k) w"
    by (rule kernel_point [OF assms])
  show ?thesis unfolding w(1) using ended_halt [OF w(2)]
    by (intro exI [of _ w]) (simp add: then_do_def on_machine_def cpu_halt_forever_def)
qed

lemma late_selftests_halt:
  assumes sh: "boot_shape k" and sv: "serving syms (mach k)" and irq: "irq = timer_interrupts hw syms arrivals"
  shows "\<exists>k'. interruptible (on_machine irq) [m12_sync_selftest hw irq, m13_selftest_run hw irq, m14_block_demo_init hw irq,
      on_machine cpu_halt_forever] k = Some (Halts k') \<and> selftests_passed k k' \<and>
    ended hw arrivals 0 (map line_text (''M12 sync selftest passed'' # m13_lines @ m14_lines)) (mach k) (mach k')"
proof -
  let ?l = "\<lparr>spin_locked = 0, spin_class_id = 10, spin_name = Some ''boot_stats''\<rparr>"
  let ?ps2 = "[m13_selftest_run hw irq, m14_block_demo_init hw irq, on_machine cpu_halt_forever]"
  let ?Q1 = "\<lambda>k1. \<exists>s w. k1 = k\<lparr>boot_counter := boot_counter k + 1, boot_stats_lock := ?l, boot_lockdep := s, mach := w\<rparr> \<and>
    held s = [] \<and> violation_count s = 0"
  have "\<exists>k1. m12_sync_selftest hw irq (k\<lparr>mach := w\<rparr>) = Some (Returns k1) \<and>
      passed hw arrivals 0 [line_text ''M12 sync selftest passed''] w (mach k1) \<and> ?Q1 k1" if "serving syms w" for w
    using m12_selftest_returns [of syms "k\<lparr>mach := w\<rparr>" hw arrivals] that sh unfolding irq boot_shape_def by fastforce
  from kernel_step [OF sv irq this] obtain k1 where
    k1: "interruptible (on_machine irq) (m12_sync_selftest hw irq # ?ps2) k = interruptible (on_machine irq) ?ps2 k1"
      "passed hw arrivals 0 [line_text ''M12 sync selftest passed''] (mach k) (mach k1)" "serving syms (mach k1)" "?Q1 k1" by blast
  let ?ps3 = "[m14_block_demo_init hw irq, on_machine cpu_halt_forever]"
  let ?Q2 = "\<lambda>k2. \<exists>q r w. k2 = k1\<lparr>kernel_proc_m13 := q, kernel_ramfs := r, mach := w\<rparr> \<and>
    vfs_rel 0 (fd_table q, \<lambda>_. r) (m13_files, \<lambda>_. None)"
  have "ramfs_shape (kernel_ramfs k1)" using k1(4) sh by (auto simp: boot_shape_def)
  then have "\<exists>k2. m13_selftest_run hw irq (k1\<lparr>mach := w\<rparr>) = Some (Returns k2) \<and>
      passed hw arrivals 0 (map line_text m13_lines) w (mach k2) \<and> ?Q2 k2" if "serving syms w" for w
    using m13_selftest_returns [of syms "k1\<lparr>mach := w\<rparr>" hw arrivals] that unfolding irq by fastforce
  from kernel_step [OF k1(3) irq this] obtain k2 where
    k2: "interruptible (on_machine irq) ?ps2 k1 = interruptible (on_machine irq) ?ps3 k2"
      "passed hw arrivals 0 (map line_text m13_lines) (mach k1) (mach k2)" "serving syms (mach k2)" "?Q2 k2" by blast
  let ?Q3 = "\<lambda>k3. \<exists>g d m w. k3 = k2\<lparr>g_m14_ramdisk_dev := d, g_m14_ramdisk := m, blk_registry := g, mach := w\<rparr> \<and>
    mcsos_blk_count g = 1 \<and> mcsos_blk_get g 0 = Some 0 \<and> dev_block_count d = 64 \<and> dev_block_size d = 512"
  have "length (g_blk_devices (blk_registry k2)) = unat MCSOS_BLK_MAX_DEVICES"
      "length (dev_name (g_m14_ramdisk_dev k2)) = MCSOS_BLK_NAME_MAX"
    using k1(4) k2(4) sh by (auto simp: boot_shape_def)
  then have "\<exists>k3. m14_block_demo_init hw irq (k2\<lparr>mach := w\<rparr>) = Some (Returns k3) \<and>
      passed hw arrivals 0 (map line_text m14_lines) w (mach k3) \<and> ?Q3 k3" if "serving syms w" for w
    using m14_block_demo_returns [of syms "k2\<lparr>mach := w\<rparr>" hw arrivals] that unfolding irq by fastforce
  from kernel_step [OF k2(3) irq this] obtain k3 where
    k3: "interruptible (on_machine irq) ?ps3 k2 = interruptible (on_machine irq) [on_machine cpu_halt_forever] k3"
      "passed hw arrivals 0 (map line_text m14_lines) (mach k2) (mach k3)" "serving syms (mach k3)" "?Q3 k3" by blast
  obtain w where w: "interruptible (on_machine irq) [on_machine cpu_halt_forever] k3 = Some (Halts (k3\<lparr>mach := cpu_cli w\<rparr>))"
      "ended hw arrivals 0 [] (mach k3) (cpu_cli w)"
    using kernel_halt [OF k3(3) irq] by blast
  have "selftests_passed k (k3\<lparr>mach := cpu_cli w\<rparr>)" using k1(4) k2(4) k3(4) by (auto simp: selftests_passed_def)
  then show ?thesis
    using w(1) passed_ended [OF k1(2) passed_ended [OF k2(2) passed_ended [OF k3(2) w(2)]]] unfolding k1(1) k2(1) k3(1) by auto
qed

definition selftest_lines :: "string list" where
  "selftest_lines = ready_lines @ (''[M11] elf loader integration selftest'' # m11_lines) @
     ''M12 sync selftest passed'' # m13_lines @ m14_lines"

lemma selftests_halt:
  assumes sh: "boot_shape k" and sv: "serving syms (mach k)" and irq: "irq = timer_interrupts hw syms arrivals"
    and "\<not> trigger_panic opts"
  shows "\<exists>k'. interruptible (on_machine irq) (boot_end opts hw irq plan) k = Some (Halts k') \<and> selftests_passed k k' \<and>
    ended hw arrivals 0 (map line_text selftest_lines) (mach k) (mach k')"
proof -
  let ?ps = "[m12_sync_selftest hw irq, m13_selftest_run hw irq, m14_block_demo_init hw irq, on_machine cpu_halt_forever]"
  let ?m11 = "''[M11] elf loader integration selftest'' # m11_lines"
  have be: "boot_end opts hw irq plan =
      map (\<lambda>line. on_machine (log_writeln hw (Some line))) ready_lines @ (m11_selftest_run hw irq plan # ?ps)"
    using assms(4) by (simp add: boot_end_def ready_lines_def)
  obtain w where w: "interruptible (on_machine irq) (boot_end opts hw irq plan) k =
        interruptible (on_machine irq) (m11_selftest_run hw irq plan # ?ps) (k\<lparr>mach := w\<rparr>)"
      "passed hw arrivals 0 (map line_text ready_lines) (mach k) w" "serving syms w"
    unfolding be by (rule kernel_lines [OF sv irq])
  let ?k = "k\<lparr>mach := w\<rparr>" and ?Q = "\<lambda>k1. \<exists>w. k1 = k\<lparr>m11_image := m11_synthetic_image (m11_image k), mach := w\<rparr>"
  have "length (m11_image k) = 12288" using sh by (simp add: boot_shape_def)
  then have step: "\<exists>k1. m11_selftest_run hw irq plan (?k\<lparr>mach := v\<rparr>) = Some (Returns k1) \<and>
      passed hw arrivals 0 (map line_text ?m11) v (mach k1) \<and> ?Q k1" if "serving syms v" for v
    using m11_selftest_returns [OF _ irq, of "?k\<lparr>mach := v\<rparr>" plan] that by force
  have sk: "serving syms (mach ?k)" using w(3) by simp
  from kernel_step [OF sk irq step] obtain k1 where
    k1: "interruptible (on_machine irq) (m11_selftest_run hw irq plan # ?ps) ?k = interruptible (on_machine irq) ?ps k1"
      "passed hw arrivals 0 (map line_text ?m11) (mach ?k) (mach k1)" "serving syms (mach k1)" "?Q k1" by blast
  have e: "idt (mach k1) = idt (mach k)" using w(2) k1(2) by (simp add: passed_def keeps_def)
  have "boot_shape k1" "boot_counter k1 = boot_counter k"
    using k1(3,4) sh e by (auto simp: boot_shape_def serving_def length_synthetic_image)
  with late_selftests_halt [OF _ k1(3) irq] obtain k' where
    k': "interruptible (on_machine irq) ?ps k1 = Some (Halts k')" "selftests_passed k k'"
      "ended hw arrivals 0 (map line_text (''M12 sync selftest passed'' # m13_lines @ m14_lines)) (mach k1) (mach k')"
    unfolding selftests_passed_def by auto
  have "passed hw arrivals 0 (map line_text ?m11) w (mach k1)" using k1(2) by simp
  from passed_ended [OF w(2) passed_ended [OF this k'(3)]] show ?thesis
    using w(1) k1(1) k'(1,2) by (auto simp: selftest_lines_def)
qed

text \<open>The panic test: interrupts may arrive in front of it, none behind its \<open>cli\<close>.\<close>

definition panic_text :: "u64 \<Rightarrow> string" where
  "panic_text rflags = panic_report (Some ''kernel/core/kmain.c'') 85 (Some ''intentional M4 panic test'') 0x4D43534F533034 rflags"

lemma panic_test_halts:
  assumes sv: "serving syms (mach k)" and irq: "irq = timer_interrupts hw syms arrivals" and "trigger_panic opts"
  shows "\<exists>w rflags. interruptible (on_machine irq) (boot_end opts hw irq plan) k = Some (Halts (k\<lparr>mach := w\<rparr>)) \<and>
    ended hw arrivals 0 [panic_text rflags] (mach k) w"
proof -
  let ?frs = "map (\<lambda>fr. fr\<lparr>tf_vector := 32\<rparr>) (arrivals (mach k))"
  let ?panic = "kernel_panic_at hw (Some ''kernel/core/kmain.c'') 85 (Some ''intentional M4 panic test'') 0x4D43534F533034"
  obtain w1 where w1: "irq (mach k) = Some (Returns w1)" "keeps (mach k) w1" "passes hw 0 [(?frs, [])] (mach k) w1"
    using point_passes [OF sv] unfolding irq by blast
  have "idle w1" using serving_passes [OF w1(3,2), of syms] sv by (simp add: serving_def)
  then obtain w2 where w2: "?panic w1 = Some (Halts w2)" "prints hw (panic_text (hw_rflags hw w1)) (cpu_cli w1) w2"
    using panic_halts unfolding panic_text_def by blast
  let ?t = "panic_text (hw_rflags hw w1)"
  have "passes hw 0 [([], ?t)] w1 w2" using passes_append [OF passes_cli prints_passes [OF w2(2)]] by simp
  from passes_event [OF w1(3) this] have "passes hw 0 [(?frs, ?t)] (mach k) w2" by simp
  moreover have "?t \<noteq> []" by (simp add: panic_text_def panic_report_def line_text_def)
  then have "came arrivals [?t] [(?frs, ?t)]" by (auto simp: came_def)
  ultimately have "ended hw arrivals 0 [?t] (mach k) w2"
    using prints_keep [OF w2(2)] w1(2) unfolding ended_def keeps_def ran_def by auto
  moreover have "interruptible (on_machine irq) (boot_end opts hw irq plan) k = Some (Halts (k\<lparr>mach := w2\<rparr>))"
    using assms(3) w1(1) w2(1) by (simp add: boot_end_def then_do_def on_machine_def)
  ultimately show ?thesis by blast
qed

definition end_texts :: "m4_options \<Rightarrow> u64 \<Rightarrow> string list" where
  "end_texts opts rflags = (if trigger_panic opts then [panic_text rflags] else map line_text selftest_lines)"

lemma boot_end_halts:
  assumes "boot_shape k" "serving syms (mach k)" "irq = timer_interrupts hw syms arrivals"
  shows "\<exists>k' rflags. interruptible (on_machine irq) (boot_end opts hw irq plan) k = Some (Halts k') \<and>
    ended hw arrivals 0 (end_texts opts rflags) (mach k) (mach k') \<and>
    (if trigger_panic opts then k' = k\<lparr>mach := mach k'\<rparr> else selftests_passed k k')"
proof (cases "trigger_panic opts")
  case True
  then show ?thesis using panic_test_halts [OF assms(2,3) True, of plan] unfolding end_texts_def by fastforce
next
  case False
  then show ?thesis using selftests_halt [OF assms False, of plan] unfolding end_texts_def by auto
qed

definition serial_setup :: "(u16 \<times> u8) list" where
  "serial_setup = [(0x3F9, 0), (0x3FB, 0x80), (0x3F9, 0), (0x3FB, 3), (0x3FA, 0xC7), (0x3FC, 0x0B)]"

lemma serial_init_effect:
  "device_writes (serial_init w) = device_writes w @ serial_setup" "console (serial_init w) = console w @ [3]"
  "idle (serial_init w) = idle w" "idt (serial_init w) = idt w" "trap_count (serial_init w) = trap_count w"
  "g_ticks (serial_init w) = g_ticks w"
  by (simp_all add: serial_init_def serial_setup_def COM1_PORT_def console_def outb_def device_writes_def idle_def)

lemma pic_pit_started_effect:
  "device_writes (pic_pit_started hw w) = device_writes w @ pic_pit_writes (hw_in hw (port_reads w) 0x21)
     (hw_in hw (Suc (port_reads w)) 0xA1) (hw_in hw (Suc (Suc (port_reads w))) 0x21)"
  "console (pic_pit_started hw w) = console w" "idle (pic_pit_started hw w) = idle w" "int_flag (pic_pit_started hw w)"
  "idt (pic_pit_started hw w) = idt w" "idtr (pic_pit_started hw w) = idtr w" "loaded_idtr (pic_pit_started hw w) = loaded_idtr w"
  "trap_count (pic_pit_started hw w) = trap_count w" "g_ticks (pic_pit_started hw w) = g_ticks w"
  by (simp_all add: pic_pit_started_def device_writes_def console_def pic_pit_writes_def COM1_PORT_def idle_def)

lemma boot_gates_lead:
  assumes "idt w = boot_gates syms" "loaded_idtr w = \<lparr>idtr_limit = 4095, idtr_base = idt_address syms\<rparr>" "v < 48"
  shows "leads_to_stub syms v w"
proof -
  have "idt w ! v = gate_for (exception_stubs syms v) (if v = 3 then X86_64_IDT_GATE_TRAP else X86_64_IDT_GATE_INTERRUPT)"
    using assms(1,3) by (simp add: boot_gates_def nth_append)
  then show ?thesis using assms(2,3)
    by (simp add: leads_to_stub_def gate_handler_gate_for) (simp add: gate_for_def gate_present_def mcs_consts)
qed

lemma hardware_setup_returns:
  assumes "idle w" "length (idt w) = 256"
  shows "\<exists>rflags master slave masks w'.
    sequence [boot_banner hw syms, x86_64_idt_init hw syms, boot_interrupts hw] w = Some (Returns w') \<and> serving syms w' \<and>
    idt w' = boot_gates syms \<and> g_ticks w' = g_ticks w \<and>
    trap_count w' = trap_count w \<and> device_writes w' = device_writes w @ serial_setup @ pic_pit_writes master slave masks \<and>
    (line_ready hw \<longrightarrow> console w' = console w @ 3 # map of_char (banner_text syms rflags @ idt_text syms))"
proof -
  let ?r = "\<lparr>idtr_limit = 4095, idtr_base = idt_address syms\<rparr>"
  obtain rflags w1 where w1: "boot_banner hw syms w = Some (Returns w1)" "prints hw (banner_text syms rflags) (serial_init w) w1"
    using boot_banner_returns [OF assms(1)] by blast
  note p1 = prints_keeps [OF w1(2)] prints_device_writes [OF w1(2)]
  have i1: "idle w1" "length (idt w1) = 256" using p1 assms by (simp_all add: serial_init_effect)
  let ?v = "w1\<lparr>idt := boot_gates syms, idtr := ?r, loaded_idtr := ?r\<rparr>"
  obtain w2 where w2: "x86_64_idt_init hw syms w1 = Some (Returns w2)" "prints hw (idt_text syms) ?v w2"
    using idt_init_outcome [OF i1] by blast
  note p2 = prints_keeps [OF w2(2)] prints_device_writes [OF w2(2)]
  let ?w = "pic_pit_started hw w2"
  have d: "device_writes ?w = device_writes w @ serial_setup @ pic_pit_writes (hw_in hw (port_reads w2) 0x21)
      (hw_in hw (Suc (port_reads w2)) 0xA1) (hw_in hw (Suc (Suc (port_reads w2))) 0x21)"
    using p1 p2 by (simp add: serial_init_effect pic_pit_started_effect) (simp add: device_writes_def)
  have c: "line_ready hw \<longrightarrow> console ?w = console w @ 3 # map of_char (banner_text syms rflags @ idt_text syms)"
    using console_prints [OF _ w1(2)] console_prints [OF _ w2(2)]
    by (simp add: serial_init_effect pic_pit_started_effect) (simp add: console_def)
  have s: "sequence [boot_banner hw syms, x86_64_idt_init hw syms, boot_interrupts hw] w = Some (Returns ?w)"
    using w1(1) w2(1) by (simp add: then_do_def boot_interrupts_returns)
  have k: "idle ?w" "int_flag ?w" "idt ?w = boot_gates syms" "idtr ?w = ?r" "loaded_idtr ?w = ?r"
      "trap_count ?w = trap_count w" "g_ticks ?w = g_ticks w"
    using p1 p2 i1 by (simp_all add: pic_pit_started_effect serial_init_effect) (simp add: idle_def)
  have "serving syms ?w" using k boot_gates_lead [OF k(3,5)] by (simp add: serving_def)
  then show ?thesis using s k d c by blast
qed

lemma boot_syscalls_effect:
  "boot_syscalls syms k = k\<lparr>mach := syscall_arch_init syms (mach k), syscalls := mcsos_syscall_init None (syscalls k)\<rparr>"
  by (simp add: boot_syscalls_def mcsos_syscall_dispatch_def g_table_def sys_ping_def mcs_consts)

lemma syscall_arch_init_keeps:
  "device_writes (syscall_arch_init syms w) = device_writes w" "console (syscall_arch_init syms w) = console w"
  "idle (syscall_arch_init syms w) = idle w" "idtr (syscall_arch_init syms w) = idtr w"
  "loaded_idtr (syscall_arch_init syms w) = loaded_idtr w" "trap_count (syscall_arch_init syms w) = trap_count w"
  "idt (syscall_arch_init syms w) = (idt w)[0x80 := gate_for (int80_stub syms) IDT_GATE_TRAP]"
  by (simp_all add: syscall_arch_init_def set_gate_idt device_writes_def console_def idle_def)

lemma serving_syscalls: "serving syms w \<Longrightarrow> serving syms (syscall_arch_init syms w)"
  by (simp add: serving_def leads_to_stub_def syscall_arch_init_def set_gate_idt idle_def)

lemma ran_syscalls: "ran hw arrivals 0 [] w (syscall_arch_init syms w)"
  unfolding ran_def
  by (intro exI [of _ "[]"]) (simp add: passes_def came_def syscall_arch_init_keeps, simp add: syscall_arch_init_def set_gate_idt)

definition boot_texts :: "m4_options \<Rightarrow> x86_64_trap_frame \<Rightarrow> u64 \<Rightarrow> string list" where
  "boot_texts opts frame rflags =
     line_text ''[M5] PIC/PIT initialized; interrupts enabled'' # m4_texts opts frame @ end_texts opts rflags"

text \<open>The part with interrupts enabled.\<close>

lemma enabled_part_halts:
  assumes sh: "boot_shape k" and sv: "serving syms (mach k)" and irq: "irq = timer_interrupts hw syms arrivals"
    and im: "kernel_start syms < kernel_end syms" "idt_address syms \<noteq> 0"
  shows "\<exists>k' rflags. interruptible (on_machine irq)
      (on_machine (log_writeln hw (Some ''[M5] PIC/PIT initialized; interrupts enabled'')) # step (boot_syscalls syms) #
       on_machine (boot_m4 opts hw irq syms frame) # boot_end opts hw irq plan) k = Some (Halts k') \<and>
    ran hw arrivals (of_bool (trigger_breakpoint opts)) (boot_texts opts frame rflags) (mach k) (mach k') \<and> \<not> int_flag (mach k') \<and>
    idt (mach k') = (idt (mach k))[0x80 := gate_for (int80_stub syms) IDT_GATE_TRAP] \<and> loaded_idtr (mach k') = loaded_idtr (mach k) \<and>
    (if trigger_panic opts then k' = k\<lparr>mach := mach k', syscalls := syscalls k'\<rparr> else selftests_passed k k')"
proof -
  let ?i = "interruptible (on_machine irq)" and ?m5 = "''[M5] PIC/PIT initialized; interrupts enabled''"
  let ?m4 = "on_machine (boot_m4 opts hw irq syms frame)" and ?e = "boot_end opts hw irq plan"
  obtain w1 where w1: "?i (map (\<lambda>line. on_machine (log_writeln hw (Some line))) [?m5] @ (step (boot_syscalls syms) # ?m4 # ?e)) k =
        ?i (step (boot_syscalls syms) # ?m4 # ?e) (k\<lparr>mach := w1\<rparr>)"
      "passed hw arrivals 0 (map line_text [?m5]) (mach k) w1" "serving syms w1"
    by (rule kernel_lines [OF sv irq])
  have s1: "serving syms (mach (k\<lparr>mach := w1\<rparr>))" using w1(3) by simp
  obtain w2 where w2: "?i (step (boot_syscalls syms) # ?m4 # ?e) (k\<lparr>mach := w1\<rparr>) =
        then_do (step (boot_syscalls syms)) (?i (?m4 # ?e)) ((k\<lparr>mach := w1\<rparr>)\<lparr>mach := w2\<rparr>)"
      "passed hw arrivals 0 [] (mach (k\<lparr>mach := w1\<rparr>)) w2" "serving syms w2"
    by (rule kernel_point [OF s1 irq])
  define k2 where "k2 = k\<lparr>mach := syscall_arch_init syms w2, syscalls := mcsos_syscall_init None (syscalls k)\<rparr>"
  have k2: "?i (step (boot_syscalls syms) # ?m4 # ?e) (k\<lparr>mach := w1\<rparr>) = ?i (?m4 # ?e) k2" "serving syms (mach k2)"
    using serving_syscalls [OF w2(3)] by (simp_all add: w2(1) boot_syscalls_effect k2_def del: interruptible.simps)
  let ?Q = "\<lambda>k3. \<exists>w. k3 = k2\<lparr>mach := w\<rparr>" and ?b = "of_bool (trigger_breakpoint opts)"
  have step: "\<exists>k3. ?m4 (k2\<lparr>mach := w\<rparr>) = Some (Returns k3) \<and> passed hw arrivals ?b (m4_texts opts frame) w (mach k3) \<and> ?Q k3"
    if "serving syms w" for w
    using on_machine_logs [OF boot_m4_logs [OF im, of hw arrivals opts frame, folded irq], of "k2\<lparr>mach := w\<rparr>"] that by auto
  obtain k3 where k3: "?i (?m4 # ?e) k2 = ?i ?e k3" "passed hw arrivals ?b (m4_texts opts frame) (mach k2) (mach k3)"
      "serving syms (mach k3)" "?Q k3" by (rule kernel_step [OF k2(2) irq step])
  have i2: "idt (mach k2) = (idt (mach k))[0x80 := gate_for (int80_stub syms) IDT_GATE_TRAP]" "loaded_idtr (mach k2) = loaded_idtr (mach k)"
    using w1(2) w2(2) by (simp_all add: k2_def passed_def keeps_def syscall_arch_init_keeps)
  have "boot_shape k3" using k3(3,4) k3(2) sh i2 by (auto simp: boot_shape_def serving_def k2_def passed_def keeps_def)
  from boot_end_halts [OF this k3(3) irq, of opts plan] obtain k' rflags where
    k': "?i ?e k3 = Some (Halts k')" "ended hw arrivals 0 (end_texts opts rflags) (mach k3) (mach k')"
      "if trigger_panic opts then k' = k3\<lparr>mach := mach k'\<rparr> else selftests_passed k3 k'" by blast
  have r2: "ran hw arrivals 0 [] w2 (mach k2)" using ran_syscalls by (simp add: k2_def)
  have "ran hw arrivals ?b (boot_texts opts frame rflags) (mach k) (mach k')"
    using ran_trans [OF ran_trans [OF w1(2) [unfolded passed_def, THEN conjunct2] w2(2) [simplified, unfolded passed_def, THEN conjunct2]]
      ran_trans [OF r2 ran_trans [OF k3(2) [unfolded passed_def, THEN conjunct2] k'(2) [unfolded ended_def, THEN conjunct2, THEN conjunct2, THEN conjunct2]]]]
    by (simp add: boot_texts_def)
  moreover have "if trigger_panic opts then k' = k\<lparr>mach := mach k', syscalls := syscalls k'\<rparr> else selftests_passed k k'"
  proof (cases "trigger_panic opts")
    case True
    then obtain v where "k' = k3\<lparr>mach := v\<rparr>" using k'(3) by metis
    then show ?thesis using True k3(4) by (auto simp: k2_def)
  next
    case False
    then show ?thesis using k'(3) k3(4) by (auto simp: k2_def selftests_passed_def)
  qed
  ultimately show ?thesis using w1(1) k2(1) k3(1,2) k'(1,2) i2 by (auto simp: ended_def passed_def keeps_def)
qed

text \<open>Static storage as it is at the entry of the kernel.\<close>

definition kernel_at_entry :: kernel where
  "kernel_at_entry =
     \<lparr>mach = machine_at_entry,
      syscalls = \<lparr>g_ops = \<lparr>get_ticks = None, yield_current = None, exit_current = None, write_serial = None\<rparr>,
        g_user_region = \<lparr>ur_base = 0, ur_limit = 0\<rparr>\<rparr>,
      m11_image = replicate 12288 0, boot_stats_lock = spin_zero,
      boot_lockdep = lockdep_boot,
      boot_counter = 0, kernel_ramfs = blank_ramfs, kernel_proc_m13 = \<lparr>pid = 0, fd_table = blank_table\<rparr>,
      blk_registry = \<lparr>g_blk_devices = replicate (unat MCSOS_BLK_MAX_DEVICES) None, g_blk_count = 0\<rparr>,
      g_m14_ramdisk_storage = replicate 32768 0,
      g_m14_ramdisk_dev = \<lparr>dev_name = replicate MCSOS_BLK_NAME_MAX 0, dev_block_size = 0, dev_block_count = 0, dev_flags = 0,
        driver_data = None, dev_ops = None\<rparr>,
      g_m14_ramdisk = \<lparr>rb_storage = [], storage_size = 0\<rparr>\<rparr>"

lemma kernel_at_entry_shape: "boot_shape kernel_at_entry"
  by (simp add: boot_shape_def kernel_at_entry_def machine_at_entry_ok blank_ramfs_shape lockdep_boot_def)

text \<open>A system call from the stub answers and leaves its trace line, or hangs when the interrupted code holds the serial lock.\<close>

lemma syscall_entry_outcome:
  "mcsos_syscall_dispatch_frame (syscall_trace hw) s (Some f) w =
     (if serial_lock w then None
      else case mcsos_syscall_dispatch s (fr_nr f) (fr_arg0 f) (fr_arg1 f) (fr_arg2 f) (fr_arg3 f) (fr_arg4 f) (fr_arg5 f)
          (the (syscall_trace hw w)) of (r, w') \<Rightarrow> Some (Some (f\<lparr>fr_ret := r\<rparr>), w'))"
  "\<not> serial_lock w \<Longrightarrow> prints hw (crlf (''[M10] syscall entry reached'' @ [CHR 0x0A])) w (the (syscall_trace hw w))"
proof -
  show p: "prints hw (crlf (''[M10] syscall entry reached'' @ [CHR 0x0A])) w (the (syscall_trace hw w))" if "\<not> serial_lock w"
    using serial_write_prints [OF that, of hw "''[M10] syscall entry reached'' @ [CHR 0x0A]"] by (auto simp: syscall_trace_def)
  have "syscall_trace hw w = (if serial_lock w then None else Some (the (syscall_trace hw w)))"
    using serial_write_prints [of w hw "''[M10] syscall entry reached'' @ [CHR 0x0A]"]
    by (auto simp: syscall_trace_def serial_write_def spin_serial_held)
  then show "mcsos_syscall_dispatch_frame (syscall_trace hw) s (Some f) w =
     (if serial_lock w then None
      else case mcsos_syscall_dispatch s (fr_nr f) (fr_arg0 f) (fr_arg1 f) (fr_arg2 f) (fr_arg3 f) (fr_arg4 f) (fr_arg5 f)
          (the (syscall_trace hw w)) of (r, w') \<Rightarrow> Some (Some (f\<lparr>fr_ret := r\<rparr>), w'))"
    by (cases "serial_lock w"; cases "syscall_trace hw w") (auto simp: mcsos_syscall_dispatch_frame_def split: prod.splits)
qed

section \<open>Properties\<close>

text \<open>C15: Boot completes, in each of the four builds, with timer interrupts. From static storage of the declared shape and
  a sensible image, and whatever timer interrupts arrive at the points between the statements from \<open>cpu_sti\<close> on - inside a print
  the kernel would hang, see \<open>trap_while_printing_hangs\<close>, and inside the handler of the breakpoint test none is
  considered - the kernel sets up descriptor table, interrupt controllers, timer and system calls; the optional breakpoint is
  reported and the boot resumes behind it. With the optional panic test it then panics, leaving the objects of the
  self tests alone; otherwise it runs through all self tests, of ELF loader, locks, file system and block layer, none fails or
  panics and they leave the state they promise. It ends halted in \<open>kmain\<close> with the interrupt flag clear, so that no timer interrupt is
  taken afterwards. Every interrupt is taken and counted once as trap and once as tick. The devices receive the set-up of
  the serial line, the two controllers (vectors 0x20 and 0x28, all lines masked but the timer's, if the mask register reads
  back) and the timer (divisor 11931 for 100 Hz), then two acknowledgements per interrupt, and nothing else; with a line
  that is ready the console shows the lines of the boot log in order, with the reports of the interrupts between them.\<close>

theorem boot_completes:
  assumes "boot_shape k" "kernel_start syms < kernel_end syms" "idt_address syms \<noteq> 0"
  shows "\<exists>k' rflags rflags' master slave masks es. kernel_entry opts hw syms arrivals frame plan k = Some (Halts k') \<and>
    (if trigger_panic opts then k' = k\<lparr>mach := mach k', syscalls := syscalls k'\<rparr> else selftests_passed k k') \<and>
    came arrivals (boot_texts opts frame rflags') es \<and>
    trap_count (mach k') = trap_count (mach k) + of_nat (of_bool (trigger_breakpoint opts) + irq_count es) \<and>
    g_ticks (mach k') = g_ticks (mach k) + of_nat (irq_count es) \<and>
    \<not> int_flag (mach k') \<and> idt (mach k') = (boot_gates syms)[0x80 := gate_for (int80_stub syms) IDT_GATE_TRAP] \<and>
    loaded_idtr (mach k') = \<lparr>idtr_limit = 4095, idtr_base = idt_address syms\<rparr> \<and>
    device_writes (mach k') = device_writes (mach k) @ serial_setup @ pic_pit_writes master slave masks @
      replicate (2 * irq_count es) (0x20, 0x20) \<and>
    (line_ready hw \<longrightarrow> console (mach k') = console (mach k) @ 3 #
      map of_char (banner_text syms rflags @ idt_text syms @ woven (g_ticks (mach k)) es))"
proof -
  let ?start = "sequence [boot_banner hw syms, x86_64_idt_init hw syms, boot_interrupts hw]" and ?irq = "timer_interrupts hw syms arrivals"
  let ?ps = "on_machine (log_writeln hw (Some ''[M5] PIC/PIT initialized; interrupts enabled'')) # step (boot_syscalls syms) #
       on_machine (boot_m4 opts hw ?irq syms frame) # boot_end opts hw ?irq plan"
  obtain rflags master slave masks w where w: "?start (mach k) = Some (Returns w)" "serving syms w" "idt w = boot_gates syms"
      "g_ticks w = g_ticks (mach k)" "trap_count w = trap_count (mach k)"
      "device_writes w = device_writes (mach k) @ serial_setup @ pic_pit_writes master slave masks"
      "line_ready hw \<longrightarrow> console w = console (mach k) @ 3 # map of_char (banner_text syms rflags @ idt_text syms)"
    using hardware_setup_returns [of "mach k" hw syms] assms(1) unfolding boot_shape_def by blast
  have l: "loaded_idtr w = \<lparr>idtr_limit = 4095, idtr_base = idt_address syms\<rparr>" using w(2) by (simp add: serving_def)
  have sh: "boot_shape (k\<lparr>mach := w\<rparr>)" "serving syms (mach (k\<lparr>mach := w\<rparr>))"
    using assms(1) w(2,3) by (simp_all add: boot_shape_def serving_def boot_gates_def)
  obtain k' rflags' where k': "interruptible (on_machine ?irq) ?ps (k\<lparr>mach := w\<rparr>) = Some (Halts k')"
      "ran hw arrivals (of_bool (trigger_breakpoint opts)) (boot_texts opts frame rflags') w (mach k')" "\<not> int_flag (mach k')"
      "idt (mach k') = (idt w)[0x80 := gate_for (int80_stub syms) IDT_GATE_TRAP]" "loaded_idtr (mach k') = loaded_idtr w"
      "if trigger_panic opts then k' = (k\<lparr>mach := w\<rparr>)\<lparr>mach := mach k', syscalls := syscalls k'\<rparr> else selftests_passed (k\<lparr>mach := w\<rparr>) k'"
    using enabled_part_halts [OF sh refl assms(2,3), of hw arrivals opts frame plan] by auto
  obtain es where es: "passes hw (of_bool (trigger_breakpoint opts)) es w (mach k')" "came arrivals (boot_texts opts frame rflags') es"
    using k'(2) unfolding ran_def by blast
  have "kmain opts hw syms arrivals frame plan k = then_do (on_machine ?start) (interruptible (on_machine ?irq) ?ps) k"
    by (simp add: kmain_def Let_def then_do_skip then_do_assoc flip: on_machine_then_do)
  also have "\<dots> = Some (Halts k')"
    using k'(1) then_do_returns [of "on_machine ?start", OF on_machine_returns [of ?start, OF w(1)]] by simp
  finally have run: "kernel_entry opts hw syms arrivals frame plan k = Some (Halts k')"
    unfolding kernel_entry_def by (rule then_do_halted)
  have e: "(k\<lparr>mach := w\<rparr>)\<lparr>mach := a, syscalls := b\<rparr> = k\<lparr>mach := a, syscalls := b\<rparr>"
      "selftests_passed (k\<lparr>mach := w\<rparr>) k' = selftests_passed k k'" for a b by (simp_all add: selftests_passed_def)
  have p: "if trigger_panic opts then k' = k\<lparr>mach := mach k', syscalls := syscalls k'\<rparr> else selftests_passed k k'"
    using k'(6) unfolding e .
  show ?thesis
    by (intro exI [of _ k'] exI [of _ rflags] exI [of _ rflags'] exI [of _ master] exI [of _ slave] exI [of _ masks] exI [of _ es])
      (use run p es k'(3-5) w l in \<open>simp add: passes_def\<close>)
qed

theorem boot_completes_witness:
  "\<exists>(frame :: x86_64_trap_frame) plan k'. kernel_entry \<lparr>trigger_breakpoint = True, trigger_panic = False\<rparr> ready_line example_image
       (\<lambda>_. [frame]) frame plan kernel_at_entry = Some (Halts k') \<and>
     \<not> int_flag (mach k') \<and> boot_counter k' = 1 \<and> (0x20, 0x20) \<in> set (port_writes (mach k'))"
proof -
  let ?opts = "\<lparr>trigger_breakpoint = True, trigger_panic = False\<rparr>"
  have i: "kernel_start example_image < kernel_end example_image" "idt_address example_image \<noteq> 0" "boot_counter kernel_at_entry = 0"
    by (simp_all add: example_image_def kernel_at_entry_def)
  obtain plan frame k' rflags master slave masks es where
    k: "kernel_entry ?opts ready_line example_image (\<lambda>_. [frame]) frame plan kernel_at_entry = Some (Halts k')"
      "\<not> int_flag (mach k')" "boot_counter k' = 1" "came (\<lambda>_. [frame]) (boot_texts ?opts frame rflags) es"
      "device_writes (mach k') = device_writes (mach kernel_at_entry) @ serial_setup @ pic_pit_writes master slave masks @
        replicate (2 * irq_count es) (0x20, 0x20)"
    using boot_completes [OF kernel_at_entry_shape i(1,2), of ?opts ready_line] i(3) unfolding selftests_passed_def
    by (metis (no_types, lifting) add_0 m4_options.select_convs(2))
  have "es \<noteq> []" using k(4) by (auto simp: came_def boot_texts_def)
  then obtain e fs where "es = e # fs" by (cases es) auto
  then have "0 < irq_count es" using k(4) by (auto simp: came_def)
  then have "(0x20, 0x20) \<in> set (device_writes (mach k'))" unfolding k(5) by auto
  then have "(0x20, 0x20) \<in> set (port_writes (mach k'))" by (simp add: device_writes_def)
  then show ?thesis using k(1-3) by blast
qed

end
