(* ===== verification/Spec2Isabelle.thy ===== *)
theory Spec2Isabelle
  imports Scheduler Mcsfs1j_Session Mcsfs1_Disk Vmm Kmem Libmem Boot
begin

text \<open>
  A verification library of MCSOS, a small x86-64 teaching kernel in C.

  \<^bold>\<open>The program.\<close> The kernel boots with the Limine protocol and consists of components that call each other
  through small interfaces: the physical frame allocator hands out the frames from which the virtual memory manager
  builds page tables; the heap serves the kernel's own objects; threads are scheduled round robin and protect
  shared data by spin locks and mutexes, whose order of acquisition a checker observes; system calls enter through
  a dispatcher that validates user buffers; programs are ELF images from which the loader makes a plan; files live
  in an in-memory file system behind a descriptor table, or on block devices, which are reached through a block
  layer with a write-back cache and carry a file system, without journal or with one. Below them, the console, the
  descriptor table, the interrupt controllers and the timer drive the hardware, and the boot code starts it all.

  \<^bold>\<open>Theories.\<close> One theory per component, in the order the components build on each other; definitions keep the
  names of the C functions.

  \<^item> \<open>MCS_Prelude\<close>: integers of C widths, bounded loops, buffers, little-endian fields, word lemmas, and the
    locale \<open>simulation\<close> by which call sequences of a component are compared with those of an abstract model.
  \<^item> \<open>Lockdep\<close> (\<open>kernel/sync/lockdep.c\<close>): the lock-order checker. Its decision is characterised exactly, and threads
    that respect it cannot wait for each other in a circle.
  \<^item> \<open>Locks\<close> (\<open>kernel/sync/spinlock.c\<close>, \<open>mutex.c\<close>): the functions, and the same code as atomic steps of interleaved
    threads. Mutual exclusion holds for both locks, every answer of a mutex call is the prescribed one, and a spin
    on a lock that becomes free ends.
  \<^item> \<open>Scheduler\<close> (\<open>kernel/mcsos_thread.c\<close>): thread objects in a store, the ready list linked through them. The
    operations refine a FIFO queue; threads run in rounds; enqueuing the tail again makes the list cyclic, enqueuing
    another queued thread cuts it.
  \<^item> \<open>Pmm\<close> (\<open>kernel/core/pmm.c\<close>, of which \<open>src/pmm.c\<close> is a copy): the bitmap of frames. Boot marks exactly the right
    frames free and counts them; allocation returns the lowest free frame; frames can be borrowed and returned in any order.
  \<^item> \<open>Vmm\<close> (\<open>src/vmm.c\<close>): four-level page tables over supplied frame functions, which the locale \<open>page_frames\<close>
    specifies and the frame allocator of \<open>Pmm\<close> with a direct map implements. Map, unmap and query refine a map
    from page addresses to frames and flags. The processor's own walk agrees with it in supervisor mode; in user mode it finds
    no page at all, because the upper entries never carry the user bit.
  \<^item> \<open>Kmem\<close> (\<open>kernel/mm/kmem.c\<close>): the kernel heap. Headers and their links refine a list of blocks under first fit;
    regions in use never overlap; release undoes allocation; the heap is well formed after any sequence of calls, whatever
    pointers are released.
  \<^item> \<open>Block\<close> (\<open>kernel/block\<close>): device registry, range checks, RAM disk, write-back cache. The cache is transparent: any
    sequence of in-range operations answers as the disk contents would, and a flush writes them back.
  \<^item> \<open>Journal\<close>, \<open>Mcsfs1j\<close>, \<open>Mcsfs1j_Session\<close> (\<open>kernel/fs/mcsfs1j/m16_mcsfs_journal.c\<close>): the block device with fault injection, the
    write-ahead journal, and the file system on it. A commit is atomic under a failure at any write, however often
    recovery is interrupted; file creation is crash safe; what is written is read back; exactly twelve files fit on a
    formatted device; and the self test at the end of the C file passes.
  \<^item> \<open>Mcsfs1\<close>, \<open>Mcsfs1_Files\<close>, \<open>Mcsfs1_Disk\<close> (\<open>fs/mcsfs1/mcsfs1.c\<close>): the file system without journal, over any device that
    meets the contract of the locale \<open>fs_device\<close>, as the RAM disk of \<open>tests/m15/test_mcsfs1.c\<close> does. \<open>Mcsfs1\<close> has the
    functions, the consistency of a disk and the effect of each operation on its files, \<open>Mcsfs1_Files\<close> that the
    functions have these effects. Create, write, read, unlink and fsck refine a map from names to contents;
    format leaves a consistent empty disk; a name of 27 characters can be lost.
  \<^item> \<open>Ramfs\<close>, \<open>Vfs\<close> (\<open>kernel/vfs\<close>): the in-memory file system, the descriptor table and the file calls. They refine
    an abstract model of named files and descriptors; the kernel's own self test passes on every run.
  \<^item> \<open>Syscall\<close> (\<open>kernel/syscall/syscall.c\<close>): user range checks, copying from user memory, dispatch.
  \<^item> \<open>Elf\<close> (\<open>kernel/user/m11_elf_loader.c\<close>, \<open>m11_kernel_integration.c\<close>): the loader's plan. It accepts exactly the
    images that meet the stated requirements, and no plan reads outside the image or maps outside the user region.
  \<^item> \<open>Libmem\<close> (\<open>kernel/lib/memory.c\<close>): the memory functions of the freestanding kernel; a move is exact for any overlap.
  \<^item> \<open>Console\<close> (\<open>kernel/core/serial.c\<close>, \<open>log.c\<close>, \<open>panic.c\<close>): the machine as port writes, port reads and the interrupt flag;
    serial line, log and panic. A predicate \<open>prints\<close> says what a function leaves on the line, whatever the hardware
    answers, and composes along the calls; a panic halts with its report.
  \<^item> \<open>Interrupts\<close> (\<open>kernel/core/trap.c\<close>, \<open>pic.c\<close>, \<open>pit.c\<close>, \<open>kernel/arch/x86_64/idt.c\<close>, \<open>syscall_arch.c\<close>): descriptor table,
    interrupt controllers, timer, trap dispatcher. Gates lead to their stubs; every vector resumes or halts as
    it should; a trap that arrives while the console is locked hangs. An interrupt is taken through the gate of the loaded
    table.
  \<^item> \<open>Boot\<close> (\<open>kernel/core/entry.c\<close>, \<open>kmain.c\<close>, \<open>kernel/sync/m12_selftest.c\<close>, \<open>kernel/block/block_demo.c\<close>): the start of the
    kernel, over the theories of the components it sets up and tests. All self tests pass and the boot ends halted, in every build, whatever
    timer interrupts arrive between its statements.

  \<^bold>\<open>Conventions.\<close> A struct is a record, an enum or a group of status macros a datatype (or integers, where the code
  computes with them), a pointer that may be NULL an option or an address with 0 for NULL. Functions pass the state
  they change explicitly and return it with their status. Integers are words of the C width; sizes and offsets that
  provably stay small are natural numbers where the source indexes buffers with them. The log of the boot is in \<open>Boot\<close>, and so is the
  trace line of the system call entry. Supplied functions (device operations, frame
  functions, system call callbacks) are parameters, with the laws the code relies on as locale assumptions that
  are discharged for the functions of this kernel.

  \<^bold>\<open>Loops.\<close> Bounded loops are recursive functions with a measure. Loops over linked structures, which need not end on a
  malformed structure, are \<open>partial_function (option)\<close> (heap, ready list), and it is proved that they return on
  well-formed ones. The spinning of a lock is bounded by the number of polls given as an argument.

  \<^bold>\<open>The machine.\<close> Port reads answer as a parameter prescribes, so theorems hold for all hardware; the wait for the serial
  line is bounded by its own timeout. The two console locks spin in \<open>partial_function (option)\<close>: \<open>None\<close> is a
  function that never returns. The boot takes timer interrupts at the points between its statements, as many as a parameter
  says. An interrupt inside a function is not interleaved with it: the state in which the dispatcher runs stands for the
  interrupted code, which is how a trap inside a print is shown to hang. The gates of the hardware interrupts clear the
  interrupt flag, so that these do not nest; in the handler of a breakpoint, whose gate leaves the flag set, none is considered. The macros that select the optional tests of \<open>kmain\<close> are a record of options.

  \<^bold>\<open>Not modelled.\<close> The assembly (\<open>isr.S\<close>, \<open>syscall_entry.S\<close>, the context switch) and functions that are one privileged
  instruction; \<open>limine.h\<close>, which is third-party; the files under \<open>tests\<close>, which are not part of the kernel (one RAM disk
  of a test serves as a device). The components other than the boot log their progress in the self tests only; there the lines
  are modelled.
\<close>

end
